(* ===== verification/Prelude.thy ===== *)
theory Prelude
  imports Main "HOL-Library.Word" "HOL-Library.AList"
begin

text \<open>
  Shared vocabulary of the development: the machine types of the C++ core, the flat byte
  memory that component rows and buffers live in, swap-removal on lists (the deletion
  scheme of archetypes and columns), and the collections of simplification rules that the
  component theories extend.
\<close>

unbundle bit_operations_syntax

section \<open>Machine types\<close>

type_synonym byte = "8 word"
type_synonym u16 = "16 word"
type_synonym u32 = "32 word"
type_synonym u64 = "64 word"

text \<open>\<open>ComponentTypeId\<close> of \<open>component_type.h\<close>; 0 is the invalid type.\<close>

type_synonym ctype = u32

definition INVALID_COMPONENT_TYPE :: ctype where
  "INVALID_COMPONENT_TYPE = 0"

text \<open>Collections: bytes and words, flat memory, archetype rows, the world's state.\<close>

named_theorems byte_simps
named_theorems mem_simps
named_theorems row_simps
named_theorems frame_simps

section \<open>Bytes of a word\<close>

lemma and_255 [byte_simps]: "(v :: 'a::len word) AND 255 = take_bit 8 v"
  by (simp add: take_bit_eq_mask mask_eq_exp_minus_1)

lemma ucast_take_bit8 [byte_simps]:
  "(ucast (take_bit 8 (v :: 'a::len word)) :: byte) = ucast v"
  by (rule bit_word_eqI) (auto simp: bit_simps)

section \<open>Flat memory\<close>

text \<open>
  \<open>mem_read n off m\<close> are the \<open>n\<close> bytes at offset \<open>off\<close>; \<open>mem_write off bs m\<close> is
  \<open>memcpy(m + off, bs, |bs|)\<close>.
\<close>

definition mem_read :: "nat \<Rightarrow> nat \<Rightarrow> 'a list \<Rightarrow> 'a list" where
  "mem_read n off m = take n (drop off m)"

definition mem_write :: "nat \<Rightarrow> 'a list \<Rightarrow> 'a list \<Rightarrow> 'a list" where
  "mem_write off bs m = take off m @ bs @ drop (off + length bs) m"

lemma length_mem_write [mem_simps]:
  "off + length bs \<le> length m \<Longrightarrow> length (mem_write off bs m) = length m"
  by (simp add: mem_write_def)

lemma length_mem_read [mem_simps]:
  "off + n \<le> length m \<Longrightarrow> length (mem_read n off m) = n"
  by (simp add: mem_read_def)

lemma nth_mem_write:
  "off + length bs \<le> length m \<Longrightarrow> i < length m \<Longrightarrow>
   mem_write off bs m ! i = (if off \<le> i \<and> i < off + length bs then bs ! (i - off) else m ! i)"
  by (auto simp: mem_write_def nth_append min_def)

lemma mem_read_write_same [mem_simps]:
  "off + length bs \<le> length m \<Longrightarrow> mem_read (length bs) off (mem_write off bs m) = bs"
  by (simp add: mem_read_def mem_write_def)

lemma mem_read_write_prefix:
  "off + length bs \<le> length m \<Longrightarrow> n = length bs \<Longrightarrow> mem_read n off (mem_write off bs m) = bs"
  by (simp add: mem_simps)

lemma mem_read_write_disjoint [mem_simps]:
  assumes "off + length bs \<le> length m" and "off' + n \<le> off \<or> off + length bs \<le> off'"
  shows "mem_read n off' (mem_write off bs m) = mem_read n off' m"
proof (rule nth_equalityI)
  show "length (mem_read n off' (mem_write off bs m)) = length (mem_read n off' m)"
    using assms(1) by (simp add: mem_read_def length_mem_write)
next
  fix i
  assume i: "i < length (mem_read n off' (mem_write off bs m))"
  then have "i < n" and "off' + i < length m"
    using assms(1) by (auto simp: mem_read_def length_mem_write)
  then show "mem_read n off' (mem_write off bs m) ! i = mem_read n off' m ! i"
    using assms by (auto simp: mem_read_def nth_mem_write length_mem_write)
qed

lemma mem_write_read_back [mem_simps]:
  "off + n \<le> length m \<Longrightarrow> mem_write off (mem_read n off m) m = m"
  by (rule nth_equalityI) (auto simp: mem_simps nth_mem_write mem_read_def)

lemma mem_read_0 [simp]: "mem_read 0 off m = []"
  by (simp add: mem_read_def)

section \<open>Swap-removal on lists\<close>

text \<open>
  \<open>v[i] = v.back(); v.pop_back()\<close>: the last element moves into the freed slot. When \<open>i\<close>
  is the last index this is \<open>pop_back\<close> alone.
\<close>

definition swap_remove_list :: "nat \<Rightarrow> 'a list \<Rightarrow> 'a list" where
  "swap_remove_list i xs = butlast (xs[i := last xs])"

lemma length_swap_remove_list [row_simps]: "length (swap_remove_list i xs) = length xs - 1"
  by (simp add: swap_remove_list_def)

lemma nth_swap_remove_list [row_simps]:
  assumes "i < length xs" "j < length xs - 1"
  shows "swap_remove_list i xs ! j = (if j = i then xs ! (length xs - 1) else xs ! j)"
proof -
  have "xs \<noteq> []" using assms by auto
  then show ?thesis
    using assms by (auto simp: swap_remove_list_def nth_butlast last_conv_nth nth_list_update)
qed

lemma swap_remove_list_last [row_simps]:
  "xs \<noteq> [] \<Longrightarrow> i = length xs - 1 \<Longrightarrow> swap_remove_list i xs = butlast xs"
  by (simp add: swap_remove_list_def last_conv_nth list_update_id)

lemma set_swap_remove_list:
  assumes "distinct xs" "i < length xs"
  shows "set (swap_remove_list i xs) = set xs - {xs ! i}"
proof (rule set_eqI)
  fix x
  have L: "x \<in> set (swap_remove_list i xs) \<longleftrightarrow>
      (\<exists>j < length xs - 1. x = (if j = i then xs ! (length xs - 1) else xs ! j))"
    using assms(2) by (auto simp: in_set_conv_nth row_simps)
  show "x \<in> set (swap_remove_list i xs) \<longleftrightarrow> x \<in> set xs - {xs ! i}"
  proof
    assume "x \<in> set (swap_remove_list i xs)"
    then obtain j where j: "j < length xs - 1" "x = (if j = i then xs ! (length xs - 1) else xs ! j)"
      using L by auto
    have "(if j = i then length xs - 1 else j) \<noteq> i" using j(1) by auto
    then show "x \<in> set xs - {xs ! i}"
      using j assms by (auto simp: nth_eq_iff_index_eq split: if_splits)
  next
    assume x: "x \<in> set xs - {xs ! i}"
    then obtain k where k: "k < length xs" "x = xs ! k" "k \<noteq> i"
      by (auto simp: in_set_conv_nth)
    show "x \<in> set (swap_remove_list i xs)"
    proof (cases "k = length xs - 1")
      case True
      with k assms(2) have "i < length xs - 1" by auto
      with True k show ?thesis unfolding L by auto
    next
      case False
      with k show ?thesis unfolding L by (metis Suc_pred' less_antisym length_pos_if_in_set nth_mem)
    qed
  qed
qed

lemma distinct_swap_remove_list:
  assumes "distinct xs" "i < length xs"
  shows "distinct (swap_remove_list i xs)"
  unfolding distinct_conv_nth
  using assms by (auto simp: row_simps nth_eq_iff_index_eq)

section \<open>Association lists\<close>

lemma map_of_AList_update [simp]: "map_of (AList.update k v al) = (map_of al)(k \<mapsto> v)"
  by (simp add: update_conv')

lemma map_of_AList_delete [simp]: "map_of (AList.delete k al) = (map_of al)(k := None)"
  by (simp add: delete_conv')

end
