(* ===== verification/BinaryBuffer.thy ===== *)
theory BinaryBuffer
  imports Prelude
begin

text \<open>
  \<open>src/serialization/binary_buffer.{h,cpp}\<close>: the deterministic little-endian buffer.
  A write appends to \<open>buf_data\<close> and advances the cursor \<open>buf_pos\<close>; a read returns
  \<open>None\<close> where the C++ returns false (the caller then abandons the buffer) and the value
  with the advanced buffer otherwise. The interface every fixed-width primitive satisfies
  is the locale \<open>codec\<close>, whose clients (sequences of values) are proved once.
\<close>

unbundle bit_operations_syntax

section \<open>State and primitives\<close>

record binary_buffer =
  buf_data :: "byte list"
  buf_pos :: nat

definition empty_buffer :: binary_buffer where
  "empty_buffer = \<lparr>buf_data = [], buf_pos = 0\<rparr>"

definition write_u8 :: "byte \<Rightarrow> binary_buffer \<Rightarrow> binary_buffer" where
  "write_u8 v b = b\<lparr>buf_data := buf_data b @ [v], buf_pos := buf_pos b + 1\<rparr>"

definition write_u16 :: "u16 \<Rightarrow> binary_buffer \<Rightarrow> binary_buffer" where
  "write_u16 v b = b\<lparr>buf_data := buf_data b @
      [ucast (v AND 0xFF), ucast (drop_bit 8 v AND 0xFF)], buf_pos := buf_pos b + 2\<rparr>"

definition write_u32 :: "u32 \<Rightarrow> binary_buffer \<Rightarrow> binary_buffer" where
  "write_u32 v b = b\<lparr>buf_data := buf_data b @
      [ucast (v AND 0xFF), ucast (drop_bit 8 v AND 0xFF),
       ucast (drop_bit 16 v AND 0xFF), ucast (drop_bit 24 v AND 0xFF)], buf_pos := buf_pos b + 4\<rparr>"

definition write_u64 :: "u64 \<Rightarrow> binary_buffer \<Rightarrow> binary_buffer" where
  "write_u64 v b = b\<lparr>buf_data := buf_data b @
      map (\<lambda>i. ucast (drop_bit (i * 8) v AND 0xFF)) [0..<8], buf_pos := buf_pos b + 8\<rparr>"

definition write_bytes :: "byte list \<Rightarrow> binary_buffer \<Rightarrow> binary_buffer" where
  "write_bytes src b = b\<lparr>buf_data := buf_data b @ src, buf_pos := buf_pos b + length src\<rparr>"

definition write_bool :: "bool \<Rightarrow> binary_buffer \<Rightarrow> binary_buffer" where
  "write_bool v b = write_u8 (if v then 1 else 0) b"

text \<open>
  The signed writers cast to the unsigned type of the same width; a two's complement value
  is its word, so the casts are the identity on the model's words.
\<close>

definition write_i8 :: "byte \<Rightarrow> binary_buffer \<Rightarrow> binary_buffer" where
  "write_i8 v b = write_u8 v b"

definition write_i16 :: "u16 \<Rightarrow> binary_buffer \<Rightarrow> binary_buffer" where
  "write_i16 v b = write_u16 v b"

definition write_i32 :: "u32 \<Rightarrow> binary_buffer \<Rightarrow> binary_buffer" where
  "write_i32 v b = write_u32 v b"

definition write_i64 :: "u64 \<Rightarrow> binary_buffer \<Rightarrow> binary_buffer" where
  "write_i64 v b = write_u64 v b"

definition read_u8 :: "binary_buffer \<Rightarrow> (byte \<times> binary_buffer) option" where
  "read_u8 b = (if buf_pos b + 1 > length (buf_data b) then None
     else Some (buf_data b ! buf_pos b, b\<lparr>buf_pos := buf_pos b + 1\<rparr>))"

definition read_u16 :: "binary_buffer \<Rightarrow> (u16 \<times> binary_buffer) option" where
  "read_u16 b = (if buf_pos b + 2 > length (buf_data b) then None
     else Some (ucast (buf_data b ! buf_pos b) OR push_bit 8 (ucast (buf_data b ! (buf_pos b + 1))),
                b\<lparr>buf_pos := buf_pos b + 2\<rparr>))"

definition read_u32 :: "binary_buffer \<Rightarrow> (u32 \<times> binary_buffer) option" where
  "read_u32 b = (if buf_pos b + 4 > length (buf_data b) then None
     else Some (ucast (buf_data b ! buf_pos b) OR push_bit 8 (ucast (buf_data b ! (buf_pos b + 1)))
                OR push_bit 16 (ucast (buf_data b ! (buf_pos b + 2)))
                OR push_bit 24 (ucast (buf_data b ! (buf_pos b + 3))),
                b\<lparr>buf_pos := buf_pos b + 4\<rparr>))"

definition read_u64 :: "binary_buffer \<Rightarrow> (u64 \<times> binary_buffer) option" where
  "read_u64 b = (if buf_pos b + 8 > length (buf_data b) then None
     else Some (fold (\<lambda>i r. r OR push_bit (i * 8) (ucast (buf_data b ! (buf_pos b + i)))) [0..<8] 0,
                b\<lparr>buf_pos := buf_pos b + 8\<rparr>))"

definition read_i8 :: "binary_buffer \<Rightarrow> (byte \<times> binary_buffer) option" where
  "read_i8 b = read_u8 b"

definition read_i16 :: "binary_buffer \<Rightarrow> (u16 \<times> binary_buffer) option" where
  "read_i16 b = read_u16 b"

definition read_i32 :: "binary_buffer \<Rightarrow> (u32 \<times> binary_buffer) option" where
  "read_i32 b = read_u32 b"

definition read_i64 :: "binary_buffer \<Rightarrow> (u64 \<times> binary_buffer) option" where
  "read_i64 b = read_u64 b"

definition read_bool :: "binary_buffer \<Rightarrow> (bool \<times> binary_buffer) option" where
  "read_bool b = (case read_u8 b of None \<Rightarrow> None | Some (v, b') \<Rightarrow> Some (v \<noteq> 0, b'))"

definition read_bytes :: "nat \<Rightarrow> binary_buffer \<Rightarrow> (byte list \<times> binary_buffer) option" where
  "read_bytes n b = (if buf_pos b + n > length (buf_data b) then None
     else Some (mem_read n (buf_pos b) (buf_data b), b\<lparr>buf_pos := buf_pos b + n\<rparr>))"

definition seek :: "nat \<Rightarrow> binary_buffer \<Rightarrow> binary_buffer" where
  "seek p b = b\<lparr>buf_pos := (if p < length (buf_data b) then p else length (buf_data b))\<rparr>"

definition at_end :: "binary_buffer \<Rightarrow> bool" where
  "at_end b \<longleftrightarrow> length (buf_data b) \<le> buf_pos b"

definition overwrite_u32 :: "nat \<Rightarrow> u32 \<Rightarrow> binary_buffer \<Rightarrow> binary_buffer" where
  "overwrite_u32 p v b = (if p + 4 > length (buf_data b) then b
     else b\<lparr>buf_data := (buf_data b)
        [p := ucast (v AND 0xFF),
         p + 1 := ucast (drop_bit 8 v AND 0xFF),
         p + 2 := ucast (drop_bit 16 v AND 0xFF),
         p + 3 := ucast (drop_bit 24 v AND 0xFF)]\<rparr>)"

definition to_packed :: "binary_buffer \<Rightarrow> byte list" where
  "to_packed b = buf_data b"

definition from_packed :: "byte list \<Rightarrow> binary_buffer" where
  "from_packed arr = \<lparr>buf_data = arr, buf_pos = 0\<rparr>"

text \<open>
  Strings cross the boundary as their UTF-8 bytes: \<open>String::utf8()\<close> and
  \<open>String::utf8(ptr, len)\<close> are the engine's, so the model writes and reads the byte string.
\<close>

definition write_str :: "byte list \<Rightarrow> binary_buffer \<Rightarrow> binary_buffer" where
  "write_str utf8 b = write_bytes utf8 (write_u32 (of_nat (length utf8)) b)"

definition read_str :: "binary_buffer \<Rightarrow> (byte list \<times> binary_buffer) option" where
  "read_str b = (case read_u32 b of None \<Rightarrow> None
     | Some (len, b') \<Rightarrow>
         (if buf_pos b' + unat len > length (buf_data b') then None
          else Some (mem_read (unat len) (buf_pos b') (buf_data b'),
                     b'\<lparr>buf_pos := buf_pos b' + unat len\<rparr>)))"

section \<open>Cursor\<close>

text \<open>What is left to read, and the buffer after consuming \<open>n\<close> bytes.\<close>

definition rest :: "binary_buffer \<Rightarrow> byte list" where
  "rest b = drop (buf_pos b) (buf_data b)"

definition adv :: "nat \<Rightarrow> binary_buffer \<Rightarrow> binary_buffer" where
  "adv n b = b\<lparr>buf_pos := buf_pos b + n\<rparr>"

lemma rest_adv [byte_simps]: "rest (adv n b) = drop n (rest b)"
  by (simp add: rest_def adv_def add.commute)

lemma adv_adv [byte_simps]: "adv m (adv n b) = adv (n + m) b"
  by (simp add: adv_def)

lemma adv_0 [byte_simps]: "adv 0 b = b"
  by (simp add: adv_def)

lemma buf_data_adv [byte_simps]: "buf_data (adv n b) = buf_data b"
  by (simp add: adv_def)

lemma buf_pos_adv [byte_simps]: "buf_pos (adv n b) = buf_pos b + n"
  by (simp add: adv_def)

lemma rest_Cons:
  assumes "rest b = x # xs"
  shows "buf_pos b < length (buf_data b)" and "buf_data b ! buf_pos b = x"
    and "drop (Suc (buf_pos b)) (buf_data b) = xs"
proof -
  show L: "buf_pos b < length (buf_data b)"
    using assms by (metis drop_all list.distinct(1) not_less rest_def)
  then show "buf_data b ! buf_pos b = x" "drop (Suc (buf_pos b)) (buf_data b) = xs"
    using assms by (simp_all add: rest_def Cons_nth_drop_Suc [symmetric])
qed

lemma rest_nth: "i < length (rest b) \<Longrightarrow> buf_data b ! (buf_pos b + i) = rest b ! i"
  by (simp add: rest_def)

lemma length_rest_le: "n \<le> length (rest b) \<Longrightarrow> 0 < n \<Longrightarrow> buf_pos b + n \<le> length (buf_data b)"
  by (simp add: rest_def)

lemma length_rest_less: "0 < n \<Longrightarrow> length (rest b) < n \<longleftrightarrow> length (buf_data b) < buf_pos b + n"
  by (auto simp: rest_def)

section \<open>Little-endian encodings\<close>

definition le16 :: "u16 \<Rightarrow> byte list" where
  "le16 v = [ucast v, ucast (drop_bit 8 v)]"

definition le32 :: "u32 \<Rightarrow> byte list" where
  "le32 v = [ucast v, ucast (drop_bit 8 v), ucast (drop_bit 16 v), ucast (drop_bit 24 v)]"

definition le64 :: "u64 \<Rightarrow> byte list" where
  "le64 v = map (\<lambda>i. ucast (drop_bit (i * 8) v)) [0..<8]"

lemma length_le [simp]: "length (le16 a) = 2" "length (le32 b) = 4" "length (le64 c) = 8"
  by (simp_all add: le16_def le32_def le64_def)

lemma write_u16_data: "buf_data (write_u16 v b) = buf_data b @ le16 v"
  by (simp add: write_u16_def le16_def byte_simps)

lemma write_u32_data: "buf_data (write_u32 v b) = buf_data b @ le32 v"
  by (simp add: write_u32_def le32_def byte_simps)

lemma write_u64_data: "buf_data (write_u64 v b) = buf_data b @ le64 v"
  by (simp add: write_u64_def le64_def byte_simps)

lemma le16_join: "ucast (ucast v :: byte) OR push_bit 8 (ucast (ucast (drop_bit 8 v) :: byte)) = (v :: u16)"
  by (rule bit_word_eqI) (auto simp: bit_simps)

lemma le32_join:
  "ucast (ucast v :: byte) OR push_bit 8 (ucast (ucast (drop_bit 8 v) :: byte))
   OR push_bit 16 (ucast (ucast (drop_bit 16 v) :: byte))
   OR push_bit 24 (ucast (ucast (drop_bit 24 v) :: byte)) = (v :: u32)" (is "?l = v")
proof (rule bit_word_eqI)
  fix n
  assume n: "n < LENGTH(32)"
  then consider "n < 8" | "8 \<le> n" "n < 16" | "16 \<le> n" "n < 24" | "24 \<le> n"
    by linarith
  then show "bit ?l n = bit v n"
    using n by cases (auto simp: bit_simps)
qed

lemma fold_or_bit:
  "bit (fold (\<lambda>i r. r OR f i) xs a) n \<longleftrightarrow> bit (a :: 'a::len word) n \<or> (\<exists>i\<in>set xs. bit (f i) n)"
  by (induction xs arbitrary: a) (auto simp: bit_or_iff)

lemma le64_join:
  "fold (\<lambda>i r. r OR push_bit (i * 8) (ucast (ucast (drop_bit (i * 8) v) :: byte))) [0..<8] 0 = (v :: u64)"
  (is "?l = v")
proof (rule bit_word_eqI)
  fix n
  assume n: "n < LENGTH(64)"
  have piece: "bit (push_bit (i * 8) (ucast (ucast (drop_bit (i * 8) v) :: byte)) :: u64) n
      \<longleftrightarrow> i = n div 8 \<and> bit v n" for i
  proof (cases "i * 8 \<le> n")
    case True
    then obtain r where r: "n = i * 8 + r" by (auto simp: le_iff_add)
    then have "n - i * 8 < 8 \<longleftrightarrow> i = n div 8" by (auto simp: div_eq_0_iff)
    then show ?thesis using n True by (auto simp: bit_simps)
  next
    case False
    then have "i \<noteq> n div 8" by auto
    then show ?thesis using False by (auto simp: bit_simps)
  qed
  have "n div 8 \<in> set [0..<8]" using n by auto
  then show "bit ?l n = bit v n"
    by (simp only: fold_or_bit piece) auto
qed

section \<open>The interface of a fixed-width primitive\<close>

text \<open>
  \<open>enc v\<close> are the bytes a writer appends; a reader inverts it at any cursor, fails exactly
  when fewer than \<open>width\<close> bytes are left, and never moves the cursor by another amount.
\<close>

fun read_n :: "(binary_buffer \<Rightarrow> ('a \<times> binary_buffer) option) \<Rightarrow> nat \<Rightarrow> binary_buffer
    \<Rightarrow> ('a list \<times> binary_buffer) option" where
  "read_n rd 0 b = Some ([], b)"
| "read_n rd (Suc n) b = (case rd b of None \<Rightarrow> None
     | Some (v, b') \<Rightarrow> (case read_n rd n b' of None \<Rightarrow> None
         | Some (vs, b'') \<Rightarrow> Some (v # vs, b'')))"

locale codec =
  fixes wr :: "'a \<Rightarrow> binary_buffer \<Rightarrow> binary_buffer"
    and rd :: "binary_buffer \<Rightarrow> ('a \<times> binary_buffer) option"
    and enc :: "'a \<Rightarrow> byte list"
    and width :: nat
  assumes width_pos: "0 < width"
    and length_enc: "length (enc v) = width"
    and wr_data: "buf_data (wr v b) = buf_data b @ enc v"
    and wr_pos: "buf_pos (wr v b) = buf_pos b + width"
    and rd_enc: "rest b = enc v @ r \<Longrightarrow> rd b = Some (v, adv width b)"
    and rd_ok: "width \<le> length (rest b) \<Longrightarrow> \<exists>v. rd b = Some (v, adv width b)"
    and rd_short: "length (rest b) < width \<Longrightarrow> rd b = None"
begin

lemma length_concat_enc: "length (concat (map enc vs)) = width * length vs"
  by (induction vs) (auto simp: length_enc)

lemma write_list_data: "buf_data (fold wr vs b) = buf_data b @ concat (map enc vs)"
  by (induction vs arbitrary: b) (auto simp: wr_data)

lemma write_list_pos: "buf_pos (fold wr vs b) = buf_pos b + width * length vs"
  by (induction vs arbitrary: b) (auto simp: wr_pos)

lemma read_list:
  "rest b = concat (map enc vs) @ r \<Longrightarrow> read_n rd (length vs) b = Some (vs, adv (width * length vs) b)"
proof (induction vs arbitrary: b)
  case Nil
  then show ?case by (simp add: byte_simps)
next
  case (Cons v vs)
  then have 1: "rd b = Some (v, adv width b)" by (auto intro: rd_enc)
  have "rest (adv width b) = concat (map enc vs) @ r"
    using Cons.prems by (simp add: byte_simps length_enc)
  with 1 show ?case by (simp add: Cons.IH byte_simps)
qed

lemma read_list_short:
  "length (rest b) < width * n \<Longrightarrow> read_n rd n b = None"
proof (induction n arbitrary: b)
  case 0
  then show ?case by simp
next
  case (Suc n)
  show ?case
  proof (cases "length (rest b) < width")
    case True
    then show ?thesis by (simp add: rd_short)
  next
    case False
    then obtain v where v: "rd b = Some (v, adv width b)" using rd_ok by fastforce
    have "length (rest (adv width b)) < width * n"
      using Suc.prems False by (simp add: byte_simps)
    then show ?thesis using v by (simp add: Suc.IH)
  qed
qed

lemma rd_iff: "rd b \<noteq> None \<longleftrightarrow> width \<le> length (rest b)"
  using rd_ok rd_short by (metis not_less option.distinct(1))

lemma rd_SomeD: "rd b = Some (v, b') \<Longrightarrow> b' = adv width b \<and> width \<le> length (rest b)"
  using rd_iff rd_ok by fastforce

end

section \<open>The primitives satisfy the interface\<close>

lemma write_pos:
  "buf_pos (write_u8 a b) = buf_pos b + 1" "buf_pos (write_u16 c b) = buf_pos b + 2"
  "buf_pos (write_u32 d b) = buf_pos b + 4" "buf_pos (write_u64 e b) = buf_pos b + 8"
  by (simp_all add: write_u8_def write_u16_def write_u32_def write_u64_def)

lemma write_u8_data: "buf_data (write_u8 v b) = buf_data b @ [v]"
  by (simp add: write_u8_def)

lemma read_u8_rest: "read_u8 b = (case rest b of [] \<Rightarrow> None | x # _ \<Rightarrow> Some (x, adv 1 b))"
  by (cases "rest b") (auto simp: read_u8_def adv_def rest_def dest: rest_Cons [unfolded rest_def])

lemma read_u16_le: "2 \<le> length (rest b) \<Longrightarrow>
  read_u16 b = Some (ucast (rest b ! 0) OR push_bit 8 (ucast (rest b ! 1)), adv 2 b)"
  using length_rest_le [of 2 b] by (simp add: read_u16_def adv_def rest_def)

lemma read_u32_le: "4 \<le> length (rest b) \<Longrightarrow>
  read_u32 b = Some (ucast (rest b ! 0) OR push_bit 8 (ucast (rest b ! 1))
      OR push_bit 16 (ucast (rest b ! 2)) OR push_bit 24 (ucast (rest b ! 3)), adv 4 b)"
  using length_rest_le [of 4 b] by (simp add: read_u32_def adv_def rest_def)

lemma read_u64_le: "8 \<le> length (rest b) \<Longrightarrow>
  read_u64 b = Some (fold (\<lambda>i r. r OR push_bit (i * 8) (ucast (rest b ! i))) [0..<8] 0, adv 8 b)"
  using length_rest_le [of 8 b]
  by (simp add: read_u64_def adv_def) (rule fold_cong, auto simp: rest_nth)

lemma read_short:
  "length (rest b) < 2 \<Longrightarrow> read_u16 b = None" "length (rest b) < 4 \<Longrightarrow> read_u32 b = None"
  "length (rest b) < 8 \<Longrightarrow> read_u64 b = None"
  by (simp_all add: read_u16_def read_u32_def read_u64_def length_rest_less)

interpretation u8c: codec write_u8 read_u8 "\<lambda>v. [v]" 1
  by unfold_locales (auto simp: write_u8_data write_pos read_u8_rest split: list.splits)

interpretation u16c: codec write_u16 read_u16 le16 2
proof
  fix b v r
  assume "rest b = le16 v @ r"
  then show "read_u16 b = Some (v, adv 2 b)"
    by (simp add: read_u16_le le16_def le16_join)
qed (auto simp: write_u16_data write_pos read_short read_u16_le)

interpretation u32c: codec write_u32 read_u32 le32 4
proof
  fix b v r
  assume "rest b = le32 v @ r"
  then show "read_u32 b = Some (v, adv 4 b)"
    by (simp add: read_u32_le le32_def le32_join)
qed (auto simp: write_u32_data write_pos read_short read_u32_le)

interpretation u64c: codec write_u64 read_u64 le64 8
proof
  fix b v r
  assume e: "rest b = le64 v @ r"
  have "fold (\<lambda>i r. r OR push_bit (i * 8) (ucast (rest b ! i))) [0..<8] (0 :: u64)
      = fold (\<lambda>i r. r OR push_bit (i * 8) (ucast (ucast (drop_bit (i * 8) v) :: byte))) [0..<8] 0"
    by (rule fold_cong) (auto simp: e nth_append le64_def)
  then show "read_u64 b = Some (v, adv 8 b)"
    using e by (simp add: read_u64_le le64_join)
qed (auto simp: write_u64_data write_pos read_short read_u64_le)

interpretation boolc: codec write_bool read_bool "\<lambda>v. [if v then 1 else 0]" 1
  by unfold_locales
    (auto simp: write_bool_def read_bool_def write_u8_data write_pos read_u8_rest split: list.splits)

section \<open>Strings, raw bytes and header patching\<close>

lemma write_bytes_data: "buf_data (write_bytes s b) = buf_data b @ s"
  by (simp add: write_bytes_def)

lemma write_bytes_pos: "buf_pos (write_bytes s b) = buf_pos b + length s"
  by (simp add: write_bytes_def)

lemma read_bytes_rest: "rest b = s @ r \<Longrightarrow> length s = n \<Longrightarrow> 0 < n \<Longrightarrow> read_bytes n b = Some (s, adv n b)"
  using length_rest_le [of n b] by (auto simp: read_bytes_def adv_def rest_def mem_read_def)

lemma read_bytes_ok: "0 < n \<Longrightarrow> n \<le> length (rest b) \<Longrightarrow> read_bytes n b = Some (take n (rest b), adv n b)"
  by (rule read_bytes_rest [where r = "drop n (rest b)"]) auto

lemma read_bytes_short: "length (rest b) < n \<Longrightarrow> read_bytes n b = None"
  by (auto simp: read_bytes_def rest_def)

lemma read_str_write_str:
  assumes "rest b = le32 (of_nat (length s)) @ s @ r" and "length s < 2 ^ 32"
  shows "read_str b = Some (s, adv (4 + length s) b)"
proof -
  have 1: "read_u32 b = Some (of_nat (length s), adv 4 b)"
    using assms(1) by (rule u32c.rd_enc)
  have n: "unat (of_nat (length s) :: u32) = length s"
    using assms(2) by (simp add: unsigned_of_nat take_bit_nat_eq_self)
  have r: "rest (adv 4 b) = s @ r"
    using assms(1) by (simp add: byte_simps)
  then have "buf_pos b + 4 + length s \<le> length (buf_data b)"
    using assms(1) length_rest_le [of "4 + length s" b] by simp
  then show ?thesis
    using r by (simp add: read_str_def 1 n adv_def mem_read_def rest_def add.commute add.left_commute)
qed

lemma overwrite_u32_patch:
  assumes "length h = 4" and "buf_data b = pre @ h @ post"
  shows "buf_data (overwrite_u32 (length pre) v b) = pre @ le32 v @ post"
proof -
  obtain w x y z where h: "h = [w, x, y, z]"
    using assms(1) by (auto simp: numeral_eq_Suc length_Suc_conv)
  show ?thesis
    by (simp add: overwrite_u32_def assms(2) h list_update_append byte_simps le32_def)
qed

end
