(* ===== verification/Schema.thy ===== *)
theory Schema
  imports Prelude
begin

text \<open>
  \<open>src/core/component_schema.h\<close> and the layout half of \<open>src/core/component_registry.cpp\<close>:
  field types, field descriptors, component schemas, and the computation of a schema's
  byte layout from raw field descriptors. \<open>size_t\<close> arithmetic is written with its 64-bit
  wrap-around (\<open>sz\<close>). The sizes and alignments of the engine's value types (\<open>Vector2\<close>,
  \<open>Color\<close>, ...) are not part of the repository: they are the parameter \<open>type_layout\<close>.
\<close>

section \<open>Field types\<close>

datatype field_type =
    Bool
  | I8 | I16 | I32 | I64
  | U8 | U16 | U32 | U64
  | F32 | F64
  | Vector2 | Vector2i | Vector3 | Vector3i | Vector4 | Vector4i
  | Color | Quaternion | Basis | Transform2D | Transform3D | AABB | Rect2 | Plane
  | StringFixed
  | Blob

definition field_types :: "field_type list" where
  "field_types = [Bool, I8, I16, I32, I64, U8, U16, U32, U64, F32, F64,
     Vector2, Vector2i, Vector3, Vector3i, Vector4, Vector4i,
     Color, Quaternion, Basis, Transform2D, Transform3D, AABB, Rect2, Plane, StringFixed, Blob]"

text \<open>\<open>static_cast<uint8_t>(FieldType)\<close> and back: the position in the enumeration.\<close>

fun field_type_code :: "field_type \<Rightarrow> byte" where
  "field_type_code Bool = 0"
| "field_type_code I8 = 1"
| "field_type_code I16 = 2"
| "field_type_code I32 = 3"
| "field_type_code I64 = 4"
| "field_type_code U8 = 5"
| "field_type_code U16 = 6"
| "field_type_code U32 = 7"
| "field_type_code U64 = 8"
| "field_type_code F32 = 9"
| "field_type_code F64 = 10"
| "field_type_code Vector2 = 11"
| "field_type_code Vector2i = 12"
| "field_type_code Vector3 = 13"
| "field_type_code Vector3i = 14"
| "field_type_code Vector4 = 15"
| "field_type_code Vector4i = 16"
| "field_type_code Color = 17"
| "field_type_code Quaternion = 18"
| "field_type_code Basis = 19"
| "field_type_code Transform2D = 20"
| "field_type_code Transform3D = 21"
| "field_type_code AABB = 22"
| "field_type_code Rect2 = 23"
| "field_type_code Plane = 24"
| "field_type_code StringFixed = 25"
| "field_type_code Blob = 26"

text \<open>Network tiers (\<open>enum SyncPriority\<close>).\<close>

abbreviation SYNC_REALTIME :: byte where "SYNC_REALTIME \<equiv> 0"
abbreviation SYNC_HIGH :: byte where "SYNC_HIGH \<equiv> 1"
abbreviation SYNC_MEDIUM :: byte where "SYNC_MEDIUM \<equiv> 2"
abbreviation SYNC_LOW :: byte where "SYNC_LOW \<equiv> 3"
abbreviation SYNC_SPAWN_ONLY :: byte where "SYNC_SPAWN_ONLY \<equiv> 4"
abbreviation SYNC_LOCAL :: byte where "SYNC_LOCAL \<equiv> 5"

section \<open>Descriptors and schemas\<close>

record field_descriptor =
  fd_name :: string
  fd_type :: field_type
  fd_offset :: nat
  fd_byte_size :: nat
  fd_count :: nat
  fd_element_type :: byte
  fd_sync_priority :: byte
  fd_is_networked :: bool

definition storage_size :: "field_descriptor \<Rightarrow> nat" where
  "storage_size fd = fd_byte_size fd"

definition is_scalar :: "field_descriptor \<Rightarrow> bool" where
  "is_scalar fd \<longleftrightarrow> fd_type fd \<noteq> StringFixed \<and> fd_type fd \<noteq> Blob"

record component_schema =
  cs_type_name :: string
  cs_type_id :: ctype
  cs_size :: nat
  cs_alignment :: nat
  cs_fields :: "field_descriptor list"
  cs_is_networked :: bool

definition find_field :: "component_schema \<Rightarrow> string \<Rightarrow> field_descriptor option" where
  "find_field s name = find (\<lambda>f. fd_name f = name) (cs_fields s)"

section \<open>Sizes and alignments\<close>

record type_layout =
  engine_size :: "field_type \<Rightarrow> nat"
  engine_align :: "field_type \<Rightarrow> nat"

text \<open>\<open>sizeof\<close> and \<open>alignof\<close> of the built-in types are those of every supported target.\<close>

fun field_type_size :: "type_layout \<Rightarrow> field_type \<Rightarrow> nat" where
  "field_type_size L Bool = 1"
| "field_type_size L I8 = 1"
| "field_type_size L U8 = 1"
| "field_type_size L I16 = 2"
| "field_type_size L U16 = 2"
| "field_type_size L I32 = 4"
| "field_type_size L U32 = 4"
| "field_type_size L F32 = 4"
| "field_type_size L I64 = 8"
| "field_type_size L U64 = 8"
| "field_type_size L F64 = 8"
| "field_type_size L StringFixed = 0"
| "field_type_size L Blob = 0"
| "field_type_size L t = engine_size L t"

fun field_type_align :: "type_layout \<Rightarrow> field_type \<Rightarrow> nat" where
  "field_type_align L Bool = 1"
| "field_type_align L I8 = 1"
| "field_type_align L U8 = 1"
| "field_type_align L I16 = 2"
| "field_type_align L U16 = 2"
| "field_type_align L I32 = 4"
| "field_type_align L U32 = 4"
| "field_type_align L F32 = 4"
| "field_type_align L I64 = 8"
| "field_type_align L U64 = 8"
| "field_type_align L F64 = 8"
| "field_type_align L StringFixed = 1"
| "field_type_align L Blob = 1"
| "field_type_align L t = engine_align L t"

definition sz :: "nat \<Rightarrow> nat" where
  "sz n = n mod 2 ^ 64"

definition align_up :: "nat \<Rightarrow> nat \<Rightarrow> nat" where
  "align_up v a = sz (sz (v + a - 1) div a * a)"

section \<open>Layout of a schema-only component\<close>

text \<open>
  One iteration of the loop of \<open>register_schema_component\<close>: the completed descriptor with
  the alignment it asked for, or \<open>None\<close> where the code reports an unsupported type.
\<close>

definition layout_field :: "type_layout \<Rightarrow> nat \<Rightarrow> field_descriptor \<Rightarrow> (field_descriptor \<times> nat) option" where
  "layout_field L offset fd =
    (if fd_type fd = StringFixed \<or> fd_type fd = Blob then
       Some (fd\<lparr>fd_element_type := 0, fd_byte_size := fd_count fd, fd_offset := align_up offset 1\<rparr>, 1)
     else
       (let elem_size = field_type_size L (fd_type fd);
            elem_align = field_type_align L (fd_type fd)
        in if elem_size = 0 then None
           else Some (fd\<lparr>fd_element_type := (if fd_count fd > 1 then field_type_code (fd_type fd) else 0),
                         fd_byte_size := sz (elem_size * (if fd_count fd > 0 then fd_count fd else 1)),
                         fd_offset := align_up offset elem_align\<rparr>, elem_align)))"

fun layout_fields :: "type_layout \<Rightarrow> nat \<Rightarrow> nat \<Rightarrow> field_descriptor list
    \<Rightarrow> (field_descriptor list \<times> nat \<times> nat) option" where
  "layout_fields L offset max_align [] = Some ([], offset, max_align)"
| "layout_fields L offset max_align (fd # fds) =
    (case layout_field L offset fd of None \<Rightarrow> None
     | Some (fd', elem_align) \<Rightarrow>
        (case layout_fields L (sz (fd_offset fd' + fd_byte_size fd')) (max max_align elem_align) fds of
           None \<Rightarrow> None
         | Some (fds', off, ma) \<Rightarrow> Some (fd' # fds', off, ma)))"

section \<open>Correctness of the layout\<close>

text \<open>
  What \<open>sizeof\<close>/\<open>alignof\<close> guarantee of any C++ type: alignments are powers of two.
\<close>

definition layout_ok :: "type_layout \<Rightarrow> bool" where
  "layout_ok L \<longleftrightarrow> (\<forall>t. \<exists>k. engine_align L t = 2 ^ k)"

definition field_align :: "type_layout \<Rightarrow> field_descriptor \<Rightarrow> nat" where
  "field_align L fd = (if is_scalar fd then field_type_align L (fd_type fd) else 1)"

text \<open>The bytes a raw descriptor asks for, before any wrap-around.\<close>

definition raw_bytes :: "type_layout \<Rightarrow> field_descriptor \<Rightarrow> nat" where
  "raw_bytes L fd = (if is_scalar fd
     then field_type_size L (fd_type fd) * (if fd_count fd > 0 then fd_count fd else 1)
     else fd_count fd)"

definition layout_need :: "type_layout \<Rightarrow> field_descriptor list \<Rightarrow> nat" where
  "layout_need L fds = (\<Sum>fd\<leftarrow>fds. raw_bytes L fd + field_align L fd)"

text \<open>Fields in order, aligned, disjoint, ending at or before \<open>stop\<close>.\<close>

fun laid_out :: "type_layout \<Rightarrow> nat \<Rightarrow> field_descriptor list \<Rightarrow> nat \<Rightarrow> bool" where
  "laid_out L start [] stop \<longleftrightarrow> start \<le> stop"
| "laid_out L start (fd # fds) stop \<longleftrightarrow>
     start \<le> fd_offset fd \<and> field_align L fd dvd fd_offset fd
     \<and> laid_out L (fd_offset fd + fd_byte_size fd) fds stop"

lemma field_type_align_pow2: 
  assumes "layout_ok L"
  shows "\<exists>k. field_type_align L t = 2 ^ k"
proof -
  have "field_type_align L t = 2 ^ 0 \<or> field_type_align L t = 2 ^ 1 \<or> field_type_align L t = 2 ^ 2
      \<or> field_type_align L t = 2 ^ 3 \<or> field_type_align L t = engine_align L t"
    by (cases t) simp_all
  then show ?thesis
    using assms unfolding layout_ok_def by metis
qed

lemma field_align_pow2: "layout_ok L \<Longrightarrow> \<exists>k. field_align L fd = 2 ^ k"
proof -
  assume "layout_ok L"
  then show ?thesis
    using field_type_align_pow2 [of L "fd_type fd"] power_0 [of "2::nat"]
    unfolding field_align_def by metis
qed

lemma align_up_exact:
  assumes "0 < a" and "v + a \<le> 2 ^ 64"
  shows "v \<le> align_up v a" "a dvd align_up v a" "align_up v a < v + a"
proof -
  let ?d = "(v + a - 1) div a * a"
  have le: "?d \<le> v + a - 1" by (rule div_times_less_eq_dividend)
  have "?d < 2 ^ 64" "v + a - 1 < 2 ^ 64" using assms le by linarith+
  then have "align_up v a = ?d"
    by (simp only: align_up_def sz_def mod_less)
  moreover have "v \<le> ?d"
  proof -
    have "v + a - 1 < ?d + a"
      using assms(1) by (metis add.commute dividend_less_times_div mult.commute mult_Suc_right)
    then show ?thesis using assms(1) by linarith
  qed
  moreover have "?d < v + a" using le assms(1) by linarith
  ultimately show "v \<le> align_up v a" "a dvd align_up v a" "align_up v a < v + a"
    by simp_all
qed

lemma layout_field_shape:
  assumes "layout_ok L" "layout_field L off fd = Some (fd', a)"
    and "off + raw_bytes L fd + field_align L fd < 2 ^ 64"
  shows "a = field_align L fd" "field_align L fd' = field_align L fd"
    "fd_byte_size fd' = raw_bytes L fd" "off \<le> fd_offset fd'" "field_align L fd dvd fd_offset fd'"
    "fd_offset fd' < off + field_align L fd" "0 < field_align L fd"
    "fd_type fd' = fd_type fd" "fd_name fd' = fd_name fd" "fd_count fd' = fd_count fd"
    "fd_is_networked fd' = fd_is_networked fd" "fd_sync_priority fd' = fd_sync_priority fd"
proof -
  show pos: "0 < field_align L fd"
    using field_align_pow2 [OF assms(1), of fd] by (metis zero_less_numeral zero_less_power)
  have al: "off \<le> align_up off (field_align L fd)" "field_align L fd dvd align_up off (field_align L fd)"
      "align_up off (field_align L fd) < off + field_align L fd"
    using align_up_exact [OF pos, of off] assms(3) by simp_all
  have small: "raw_bytes L fd < 2 ^ 64" using assms(3) by linarith
  note defs = layout_field_def Let_def raw_bytes_def field_align_def is_scalar_def sz_def
  show "a = field_align L fd" "field_align L fd' = field_align L fd"
      "fd_type fd' = fd_type fd" "fd_name fd' = fd_name fd" "fd_count fd' = fd_count fd"
      "fd_is_networked fd' = fd_is_networked fd" "fd_sync_priority fd' = fd_sync_priority fd"
    using assms(2) by (auto simp: defs split: if_splits)
  show "fd_byte_size fd' = raw_bytes L fd"
    using assms(2) small by (auto simp: defs split: if_splits)
  have "fd_offset fd' = align_up off (field_align L fd)"
    using assms(2) by (auto simp: defs split: if_splits)
  with al show "off \<le> fd_offset fd'" "field_align L fd dvd fd_offset fd'"
      "fd_offset fd' < off + field_align L fd" by simp_all
qed

lemma layout_fields_laid_out:
  assumes "layout_ok L" "layout_fields L off ma fds = Some (fds', stop, ma')"
    and "off + layout_need L fds < 2 ^ 64"
  shows "laid_out L off fds' stop \<and> stop \<le> off + layout_need L fds"
  using assms(2,3)
proof (induction fds arbitrary: off ma fds')
  case Nil
  then show ?case by (auto simp: layout_need_def)
next
  case (Cons fd fds)
  obtain fd1 a where f: "layout_field L off fd = Some (fd1, a)"
    using Cons.prems(1) by (auto split: option.splits)
  then obtain fds1 where r: "layout_fields L (sz (fd_offset fd1 + fd_byte_size fd1)) (max ma a) fds
        = Some (fds1, stop, ma')" and e: "fds' = fd1 # fds1"
    using Cons.prems(1) by (auto split: option.splits)
  have need: "layout_need L (fd # fds) = raw_bytes L fd + field_align L fd + layout_need L fds"
    by (simp add: layout_need_def)
  have b: "off + raw_bytes L fd + field_align L fd < 2 ^ 64"
    using Cons.prems(2) need by linarith
  note sh = layout_field_shape [OF assms(1) f b]
  let ?stp = "fd_offset fd1 + fd_byte_size fd1"
  have s: "?stp < off + raw_bytes L fd + field_align L fd" using sh(3,6) by linarith
  then have "sz ?stp = ?stp" using b by (simp add: sz_def)
  moreover have "?stp + layout_need L fds < 2 ^ 64" using s Cons.prems(2) need by linarith
  ultimately have "laid_out L ?stp fds1 stop \<and> stop \<le> ?stp + layout_need L fds"
    using Cons.IH [of ?stp "max ma a" fds1] r by simp
  then show ?case using sh(2,4,5) s need by (simp add: e)
qed

lemma layout_fields_align:
  assumes "layout_ok L" "layout_fields L off (2 ^ k) fds = Some (fds', stop, ma')"
    and "off + layout_need L fds < 2 ^ 64"
  shows "(\<exists>j. ma' = 2 ^ j \<and> k \<le> j) \<and> (\<forall>fd\<in>set fds'. field_align L fd dvd ma')"
  using assms(2,3)
proof (induction fds arbitrary: off k fds')
  case Nil
  then show ?case by auto
next
  case (Cons fd fds)
  obtain fd1 a where f: "layout_field L off fd = Some (fd1, a)"
    using Cons.prems(1) by (auto split: option.splits)
  then obtain fds1 where r: "layout_fields L (sz (fd_offset fd1 + fd_byte_size fd1)) (max (2 ^ k) a) fds
        = Some (fds1, stop, ma')" and e: "fds' = fd1 # fds1"
    using Cons.prems(1) by (auto split: option.splits)
  have need: "layout_need L (fd # fds) = raw_bytes L fd + field_align L fd + layout_need L fds"
    by (simp add: layout_need_def)
  have b: "off + raw_bytes L fd + field_align L fd < 2 ^ 64"
    using Cons.prems(2) need by linarith
  note sh = layout_field_shape [OF assms(1) f b]
  obtain i where i: "field_align L fd = 2 ^ i" using field_align_pow2 [OF assms(1)] by blast
  have m: "max (2 ^ k) a = (2::nat) ^ max k i"
    using sh(1) i by (simp add: max_def)
  have "fd_offset fd1 + fd_byte_size fd1 + layout_need L fds < 2 ^ 64"
    using sh(3,6) Cons.prems(2) need by linarith
  moreover from this have "sz (fd_offset fd1 + fd_byte_size fd1) = fd_offset fd1 + fd_byte_size fd1"
    by (simp add: sz_def)
  ultimately have IH: "(\<exists>j. ma' = 2 ^ j \<and> max k i \<le> j) \<and> (\<forall>fd\<in>set fds1. field_align L fd dvd ma')"
    using Cons.IH [of "fd_offset fd1 + fd_byte_size fd1" "max k i" fds1] r by (simp add: m)
  then have "field_align L fd1 dvd ma'"
    using sh(2) i by (auto simp: le_imp_power_dvd)
  with IH show ?case by (auto simp: e)
qed

lemma laid_out_bounds:
  "laid_out L start fds stop \<Longrightarrow> fd \<in> set fds \<Longrightarrow>
   start \<le> fd_offset fd \<and> fd_offset fd + fd_byte_size fd \<le> stop \<and> field_align L fd dvd fd_offset fd"
proof (induction fds arbitrary: start)
  case Nil
  then show ?case by simp
next
  case (Cons f fds)
  have mono: "laid_out L st fs stop \<Longrightarrow> st \<le> stop" for st fs
    by (induction fs arbitrary: st) (fastforce dest: le_trans add_leD1)+
  show ?case
    using Cons.prems Cons.IH [of "fd_offset f + fd_byte_size f"] mono by fastforce
qed

lemma laid_out_disjoint:
  "laid_out L start fds stop \<Longrightarrow> i < j \<Longrightarrow> j < length fds \<Longrightarrow>
   fd_offset (fds ! i) + fd_byte_size (fds ! i) \<le> fd_offset (fds ! j)"
proof (induction fds arbitrary: start i j)
  case Nil
  then show ?case by simp
next
  case (Cons f fds)
  then obtain j' where j: "j = Suc j'" by (cases j) auto
  show ?case
  proof (cases i)
    case 0
    then show ?thesis
      using Cons.prems j laid_out_bounds [of L "fd_offset f + fd_byte_size f" fds stop "fds ! j'"]
      by simp
  next
    case (Suc i')
    then show ?thesis using Cons.prems Cons.IH [of "fd_offset f + fd_byte_size f" i' j'] j by simp
  qed
qed

end
