(* ===== verification/ComponentSerializer.thy ===== *)
theory ComponentSerializer
  imports BinaryBuffer Schema
begin

text \<open>
  \<open>src/serialization/component_serializer.{h,cpp}\<close>: one component instance to bytes and
  back, field by field in schema order. An instance is the byte list of its row; \<open>p_inst +
  offset\<close> is an offset into it, and a typed load or store is the host's little-endian view
  of those bytes. Deserialization returns the success flag with the instance and the buffer
  as they stand when the code returns, so a failing read shows the fields already written.
\<close>

unbundle bit_operations_syntax

section \<open>Typed loads and stores\<close>

definition load16 :: "byte list \<Rightarrow> nat \<Rightarrow> u16" where
  "load16 m off = ucast (m ! off) OR push_bit 8 (ucast (m ! (off + 1)))"

definition load32 :: "byte list \<Rightarrow> nat \<Rightarrow> u32" where
  "load32 m off = ucast (m ! off) OR push_bit 8 (ucast (m ! (off + 1)))
     OR push_bit 16 (ucast (m ! (off + 2))) OR push_bit 24 (ucast (m ! (off + 3)))"

definition load64 :: "byte list \<Rightarrow> nat \<Rightarrow> u64" where
  "load64 m off = fold (\<lambda>i r. r OR push_bit (i * 8) (ucast (m ! (off + i)))) [0..<8] 0"

section \<open>Fields\<close>

definition field_size :: "field_descriptor \<Rightarrow> nat" where
  "field_size fd = (case fd_type fd of
       Bool \<Rightarrow> 1 | I8 \<Rightarrow> 1 | U8 \<Rightarrow> 1
     | I16 \<Rightarrow> 2 | U16 \<Rightarrow> 2
     | I32 \<Rightarrow> 4 | U32 \<Rightarrow> 4 | F32 \<Rightarrow> 4
     | I64 \<Rightarrow> 8 | U64 \<Rightarrow> 8 | F64 \<Rightarrow> 8
     | _ \<Rightarrow> storage_size fd)"

text \<open>The \<open>while (len < storage_size && s[len] != 0)\<close> scan of a fixed string.\<close>

fun string_len :: "byte list \<Rightarrow> nat \<Rightarrow> nat \<Rightarrow> nat" where
  "string_len m off 0 = 0"
| "string_len m off (Suc n) = (if m ! off \<noteq> 0 then Suc (string_len m (off + 1) n) else 0)"

definition write_field :: "field_descriptor \<Rightarrow> byte list \<Rightarrow> nat \<Rightarrow> binary_buffer \<Rightarrow> binary_buffer" where
  "write_field fd m off b = (case fd_type fd of
       Bool \<Rightarrow> write_u8 (m ! off) b
     | I8 \<Rightarrow> write_i8 (m ! off) b
     | U8 \<Rightarrow> write_u8 (m ! off) b
     | I16 \<Rightarrow> write_i16 (load16 m off) b
     | U16 \<Rightarrow> write_u16 (load16 m off) b
     | I32 \<Rightarrow> write_i32 (load32 m off) b
     | U32 \<Rightarrow> write_u32 (load32 m off) b
     | I64 \<Rightarrow> write_i64 (load64 m off) b
     | U64 \<Rightarrow> write_u64 (load64 m off) b
     | F32 \<Rightarrow> write_bytes (mem_read 4 off m) b
     | F64 \<Rightarrow> write_bytes (mem_read 8 off m) b
     | StringFixed \<Rightarrow>
         (let len = string_len m off (storage_size fd)
          in fold (\<lambda>k. write_bytes [0]) [len..<storage_size fd] (write_bytes (mem_read len off m) b))
     | _ \<Rightarrow> write_bytes (mem_read (storage_size fd) off m) b)"

type_synonym read_result = "bool \<times> byte list \<times> binary_buffer"

definition store_read :: "byte list \<Rightarrow> nat \<Rightarrow> binary_buffer \<Rightarrow> (byte list \<times> binary_buffer) option \<Rightarrow> read_result" where
  "store_read m off b r = (case r of None \<Rightarrow> (False, m, b) | Some (bs, b') \<Rightarrow> (True, mem_write off bs m, b'))"

definition read_field :: "field_descriptor \<Rightarrow> byte list \<Rightarrow> nat \<Rightarrow> binary_buffer \<Rightarrow> read_result" where
  "read_field fd m off b = store_read m off b (case fd_type fd of
       Bool \<Rightarrow> map_option (apfst (\<lambda>v. [v])) (read_u8 b)
     | I8 \<Rightarrow> map_option (apfst (\<lambda>v. [v])) (read_i8 b)
     | U8 \<Rightarrow> map_option (apfst (\<lambda>v. [v])) (read_u8 b)
     | I16 \<Rightarrow> map_option (apfst le16) (read_i16 b)
     | U16 \<Rightarrow> map_option (apfst le16) (read_u16 b)
     | I32 \<Rightarrow> map_option (apfst le32) (read_i32 b)
     | U32 \<Rightarrow> map_option (apfst le32) (read_u32 b)
     | I64 \<Rightarrow> map_option (apfst le64) (read_i64 b)
     | U64 \<Rightarrow> map_option (apfst le64) (read_u64 b)
     | F32 \<Rightarrow> read_bytes 4 b
     | F64 \<Rightarrow> read_bytes 8 b
     | _ \<Rightarrow> read_bytes (storage_size fd) b)"

section \<open>Components\<close>

definition serialize_component :: "component_schema \<Rightarrow> byte list \<Rightarrow> binary_buffer \<Rightarrow> binary_buffer" where
  "serialize_component s inst b = fold (\<lambda>fd. write_field fd inst (fd_offset fd)) (cs_fields s) b"

definition serialized_component_size :: "component_schema \<Rightarrow> nat" where
  "serialized_component_size s = fold (\<lambda>fd total. total + field_size fd) (cs_fields s) 0"

fun read_fields :: "field_descriptor list \<Rightarrow> byte list \<Rightarrow> binary_buffer \<Rightarrow> read_result" where
  "read_fields [] m b = (True, m, b)"
| "read_fields (fd # fds) m b =
     (case read_field fd m (fd_offset fd) b of (ok, m', b') \<Rightarrow>
        if ok then read_fields fds m' b' else (False, m', b'))"

definition deserialize_component :: "component_schema \<Rightarrow> byte list \<Rightarrow> binary_buffer \<Rightarrow> read_result" where
  "deserialize_component s inst b = read_fields (cs_fields s) inst b"

text \<open>Mask variants: a field is skipped when its mask bit exists and is clear.\<close>

definition mask_skips :: "bool list \<Rightarrow> nat \<Rightarrow> bool" where
  "mask_skips msk i \<longleftrightarrow> i < length msk \<and> \<not> msk ! i"

fun write_fields_from :: "bool list \<Rightarrow> nat \<Rightarrow> field_descriptor list \<Rightarrow> byte list \<Rightarrow> binary_buffer \<Rightarrow> binary_buffer" where
  "write_fields_from msk i [] inst b = b"
| "write_fields_from msk i (fd # fds) inst b =
     (if mask_skips msk i then write_fields_from msk (i + 1) fds inst b
      else write_fields_from msk (i + 1) fds inst (write_field fd inst (fd_offset fd) b))"

definition serialize_component_fields ::
    "component_schema \<Rightarrow> byte list \<Rightarrow> binary_buffer \<Rightarrow> bool list \<Rightarrow> binary_buffer" where
  "serialize_component_fields s inst b msk = write_fields_from msk 0 (cs_fields s) inst b"

fun read_fields_from :: "bool list \<Rightarrow> nat \<Rightarrow> field_descriptor list \<Rightarrow> byte list \<Rightarrow> binary_buffer \<Rightarrow> read_result" where
  "read_fields_from msk i [] m b = (True, m, b)"
| "read_fields_from msk i (fd # fds) m b =
     (if mask_skips msk i then read_fields_from msk (i + 1) fds m b
      else (case read_field fd m (fd_offset fd) b of (ok, m', b') \<Rightarrow>
        if ok then read_fields_from msk (i + 1) fds m' b' else (False, m', b')))"

definition deserialize_component_fields ::
    "component_schema \<Rightarrow> byte list \<Rightarrow> binary_buffer \<Rightarrow> bool list \<Rightarrow> read_result" where
  "deserialize_component_fields s inst b msk = read_fields_from msk 0 (cs_fields s) inst b"

fun fields_size_from :: "bool list \<Rightarrow> nat \<Rightarrow> field_descriptor list \<Rightarrow> nat" where
  "fields_size_from msk i [] = 0"
| "fields_size_from msk i (fd # fds) =
     (if mask_skips msk i then 0 else field_size fd) + fields_size_from msk (i + 1) fds"

definition serialized_component_fields_size :: "component_schema \<Rightarrow> bool list \<Rightarrow> nat" where
  "serialized_component_fields_size s msk = fields_size_from msk 0 (cs_fields s)"

definition field_mask_bytes :: "nat \<Rightarrow> nat" where
  "field_mask_bytes p_field_count = (p_field_count + 7) div 8"

section \<open>Bytes of a field\<close>

lemma byte_bit_high: "8 \<le> n \<Longrightarrow> bit (x :: byte) n = False"
  using bit_imp_le_length [of x n] by auto

lemma le16_load16: "off + 2 \<le> length m \<Longrightarrow> le16 (load16 m off) = mem_read 2 off m"
proof -
  assume "off + 2 \<le> length m"
  then have "mem_read 2 off m = [m ! off, m ! (off + 1)]"
    by (intro nth_equalityI) (auto simp: mem_read_def less_Suc_eq numeral_eq_Suc)
  moreover have "le16 (load16 m off) = [m ! off, m ! (off + 1)]"
    unfolding le16_def load16_def by (auto intro!: bit_word_eqI simp: bit_simps byte_bit_high)
  ultimately show ?thesis by simp
qed

lemma le32_load32: "off + 4 \<le> length m \<Longrightarrow> le32 (load32 m off) = mem_read 4 off m"
proof -
  assume "off + 4 \<le> length m"
  then have "mem_read 4 off m = [m ! off, m ! (off + 1), m ! (off + 2), m ! (off + 3)]"
    by (intro nth_equalityI) (auto simp: mem_read_def less_Suc_eq numeral_eq_Suc)
  moreover have "le32 (load32 m off) = [m ! off, m ! (off + 1), m ! (off + 2), m ! (off + 3)]"
    unfolding le32_def load32_def by (auto intro!: bit_word_eqI simp: bit_simps byte_bit_high)
  ultimately show ?thesis by simp
qed

lemma le64_load64: "off + 8 \<le> length m \<Longrightarrow> le64 (load64 m off) = mem_read 8 off m"
proof (rule nth_equalityI)
  assume L: "off + 8 \<le> length m"
  then show "length (le64 (load64 m off)) = length (mem_read 8 off m)"
    by (simp add: mem_simps)
  fix i
  assume "i < length (le64 (load64 m off))"
  then have i: "i < 8" by simp
  have "ucast (drop_bit (i * 8) (load64 m off)) = m ! (off + i)"
  proof (rule bit_word_eqI)
    fix n
    assume n: "n < LENGTH(8)"
    have piece: "bit (push_bit (j * 8) (ucast (m ! (off + j))) :: u64) (i * 8 + n)
        \<longleftrightarrow> j = i \<and> bit (m ! (off + i)) n" for j
    proof (cases "j = i")
      case True
      then show ?thesis using n i by (auto simp: bit_simps)
    next
      case False
      then consider "j + 1 \<le> i" | "i + 1 \<le> j" by linarith
      then show ?thesis
      proof cases
        case 1
        then have "8 \<le> i * 8 + n - j * 8" by linarith
        then have "\<not> bit (m ! (off + j)) (i * 8 + n - j * 8)"
          using bit_imp_le_length [of "m ! (off + j)" "i * 8 + n - j * 8"] by auto
        then show ?thesis using False by (auto simp: bit_simps)
      next
        case 2
        then show ?thesis using n False by (auto simp: bit_simps)
      qed
    qed
    show "bit (ucast (drop_bit (i * 8) (load64 m off)) :: byte) n = bit (m ! (off + i)) n"
      using n i by (auto simp: bit_ucast_iff bit_drop_bit_eq load64_def fold_or_bit piece)
  qed
  then show "le64 (load64 m off) ! i = mem_read 8 off m ! i"
    using i L by (simp add: le64_def mem_read_def)
qed

text \<open>
  \<open>field_bytes\<close> is what the wire carries for a field: its fixed width, or for a fixed string
  the text up to the terminator padded with zeros.
\<close>

definition zero_padded :: "byte list \<Rightarrow> byte list" where
  "zero_padded s = takeWhile (\<lambda>c. c \<noteq> 0) s @ replicate (length s - length (takeWhile (\<lambda>c. c \<noteq> 0) s)) 0"

definition field_bytes :: "field_descriptor \<Rightarrow> byte list \<Rightarrow> byte list" where
  "field_bytes fd m = (let s = mem_read (field_size fd) (fd_offset fd) m
     in if fd_type fd = StringFixed then zero_padded s else s)"

lemma takeWhile_length_le: "length (takeWhile P xs) \<le> length xs"
  by (rule length_takeWhile_le)

lemma length_zero_padded [simp]: "length (zero_padded s) = length s"
  using length_takeWhile_le [of "\<lambda>c. c \<noteq> 0" s] by (simp add: zero_padded_def)

lemma zero_padded_idem [simp]: "zero_padded (zero_padded s) = zero_padded s"
proof -
  have "takeWhile (\<lambda>c. c \<noteq> 0) (zero_padded s) = takeWhile (\<lambda>c. c \<noteq> 0) s"
    unfolding zero_padded_def by (cases "length s - length (takeWhile (\<lambda>c. c \<noteq> 0) s)")
      (auto simp: takeWhile_append dest: set_takeWhileD)
  then show ?thesis unfolding zero_padded_def [of "zero_padded s"] by (simp add: zero_padded_def)
qed

lemma string_len_takeWhile:
  "off + n \<le> length m \<Longrightarrow> string_len m off n = length (takeWhile (\<lambda>c. c \<noteq> 0) (mem_read n off m))"
proof (induction n arbitrary: off)
  case 0
  then show ?case by simp
next
  case (Suc n)
  have "mem_read (Suc n) off m = m ! off # mem_read n (off + 1) m"
    using Suc.prems by (simp add: mem_read_def Cons_nth_drop_Suc [symmetric])
  then show ?case using Suc by simp
qed

lemma fold_write_zero:
  "buf_data (fold (\<lambda>k. write_bytes [0]) ks b) = buf_data b @ replicate (length ks) 0"
  by (induction ks arbitrary: b) (auto simp: write_bytes_data replicate_app_Cons_same)

lemma field_size_string: "fd_type fd = StringFixed \<Longrightarrow> field_size fd = storage_size fd"
  by (simp add: field_size_def)

lemma mem_read_takeWhile:
  "takeWhile P (mem_read n off m) = mem_read (length (takeWhile P (mem_read n off m))) off m"
  by (metis (no_types, lifting) length_takeWhile_le mem_read_def min.absorb1 min.bounded_iff take_take takeWhile_eq_take length_take)

lemma write_field_data:
  assumes "fd_offset fd + field_size fd \<le> length m"
  shows "buf_data (write_field fd m (fd_offset fd) b) = buf_data b @ field_bytes fd m"
proof -
  have one: "fd_offset fd + 1 \<le> length m \<Longrightarrow> mem_read 1 (fd_offset fd) m = [m ! fd_offset fd]"
    by (simp add: mem_read_def take_Suc_conv_app_nth take_Suc hd_drop_conv_nth)
  show ?thesis
  proof (cases "fd_type fd = StringFixed")
    case True
    let ?s = "mem_read (storage_size fd) (fd_offset fd) m"
    let ?t = "takeWhile (\<lambda>c. c \<noteq> 0) ?s"
    have n: "fd_offset fd + storage_size fd \<le> length m"
      using assms True by (simp add: field_size_string)
    have "buf_data (write_field fd m (fd_offset fd) b)
        = buf_data b @ mem_read (length ?t) (fd_offset fd) m @ replicate (storage_size fd - length ?t) 0"
      using True n by (simp add: write_field_def Let_def fold_write_zero write_bytes_data string_len_takeWhile)
    also have "mem_read (length ?t) (fd_offset fd) m = ?t" by (rule mem_read_takeWhile [symmetric])
    finally show ?thesis
      using True n by (simp add: field_bytes_def Let_def field_size_string zero_padded_def length_mem_read)
  next
    case False
    then show ?thesis
      using assms one
      by (cases "fd_type fd")
        (simp_all add: write_field_def field_bytes_def Let_def field_size_def write_i8_def write_i16_def
          write_i32_def write_i64_def write_u8_data write_u16_data write_u32_data write_u64_data
          write_bytes_data le16_load16 le32_load32 le64_load64)
  qed
qed

lemma length_field_bytes:
  "fd_offset fd + field_size fd \<le> length m \<Longrightarrow> length (field_bytes fd m) = field_size fd"
  by (simp add: field_bytes_def Let_def length_mem_read)

lemma write_field_pos:
  assumes "fd_offset fd + field_size fd \<le> length m"
  shows "buf_pos (write_field fd m (fd_offset fd) b) = buf_pos b + field_size fd"
proof -
  have z: "buf_pos (fold (\<lambda>k. write_bytes [0]) ks c) = buf_pos c + length ks" for ks and c :: binary_buffer
    by (induction ks arbitrary: c) (auto simp: write_bytes_pos)
  have le: "string_len m (fd_offset fd) (storage_size fd) \<le> storage_size fd"
    if "fd_offset fd + storage_size fd \<le> length m"
    using that length_takeWhile_le [of "\<lambda>c. c \<noteq> 0" "mem_read (storage_size fd) (fd_offset fd) m"]
    by (simp add: string_len_takeWhile length_mem_read)
  show ?thesis
    using assms le
    by (cases "fd_type fd")
      (simp_all add: write_field_def Let_def field_size_def write_i8_def write_i16_def z
        write_i32_def write_i64_def write_pos write_bytes_pos length_mem_read)
qed

lemma le_load_self:
  "length bs = 2 \<Longrightarrow> le16 (load16 bs 0) = bs" "length bs = 4 \<Longrightarrow> le32 (load32 bs 0) = bs"
  "length bs = 8 \<Longrightarrow> le64 (load64 bs 0) = bs"
  by (simp_all add: le16_load16 le32_load32 le64_load64 mem_read_def)

lemma read_le:
  "rest b = bs @ r \<Longrightarrow> length bs = 1 \<Longrightarrow> \<exists>v. read_u8 b = Some (v, adv 1 b) \<and> [v] = bs"
  "rest b = bs @ r \<Longrightarrow> length bs = 2 \<Longrightarrow> \<exists>v. read_u16 b = Some (v, adv 2 b) \<and> le16 v = bs"
  "rest b = bs @ r \<Longrightarrow> length bs = 4 \<Longrightarrow> \<exists>v. read_u32 b = Some (v, adv 4 b) \<and> le32 v = bs"
  "rest b = bs @ r \<Longrightarrow> length bs = 8 \<Longrightarrow> \<exists>v. read_u64 b = Some (v, adv 8 b) \<and> le64 v = bs"
  using u8c.rd_enc [of b "hd bs" r] u16c.rd_enc [of b "load16 bs 0" r] u32c.rd_enc [of b "load32 bs 0" r]
    u64c.rd_enc [of b "load64 bs 0" r] le_load_self [of bs]
  by (cases bs; simp)+

lemma read_bytes_rest0:
  "rest b = s @ r \<Longrightarrow> length s = n \<Longrightarrow> buf_pos b \<le> length (buf_data b) \<Longrightarrow> read_bytes n b = Some (s, adv n b)"
  by (cases "n = 0") (auto simp: read_bytes_rest, auto simp: read_bytes_def adv_def)

lemma read_field_rest:
  assumes r: "rest b = bs @ r" and n: "length bs = field_size fd" and p: "buf_pos b \<le> length (buf_data b)"
  shows "read_field fd m off b = (True, mem_write off bs m, adv (field_size fd) b)"
proof -
  note rb = read_bytes_rest0 [OF r _ p]
  show ?thesis
    using n read_le [OF r]
    by (cases "fd_type fd")
      (auto simp: read_field_def store_read_def field_size_def read_i8_def read_i16_def read_i32_def
        read_i64_def rb)
qed

lemma read_field_short:
  assumes "length (rest b) < field_size fd"
  shows "read_field fd m off b = (False, m, b)"
  using assms read_bytes_short [of b] u8c.rd_short [of b] u16c.rd_short [of b] u32c.rd_short [of b]
    u64c.rd_short [of b]
  by (cases "fd_type fd")
    (simp_all add: read_field_def store_read_def field_size_def read_i8_def read_i16_def read_i32_def
      read_i64_def)

section \<open>Components on the wire\<close>

text \<open>
  The fields of an instance are in bounds and pairwise disjoint: what \<open>register_schema_component\<close>
  computes (\<open>laid_out\<close>) and what a C++ struct gives.
\<close>

definition apart :: "field_descriptor \<Rightarrow> field_descriptor \<Rightarrow> bool" where
  "apart f g \<longleftrightarrow> fd_offset f + field_size f \<le> fd_offset g \<or> fd_offset g + field_size g \<le> fd_offset f"

definition fields_fit :: "field_descriptor list \<Rightarrow> nat \<Rightarrow> bool" where
  "fields_fit fds n \<longleftrightarrow> sorted_wrt apart fds \<and> list_all (\<lambda>fd. fd_offset fd + field_size fd \<le> n) fds"

definition fields_bytes :: "field_descriptor list \<Rightarrow> byte list \<Rightarrow> byte list" where
  "fields_bytes fds m = concat (map (\<lambda>fd. field_bytes fd m) fds)"

definition store_fields :: "field_descriptor list \<Rightarrow> byte list \<Rightarrow> byte list \<Rightarrow> byte list" where
  "store_fields fds src m = fold (\<lambda>fd. mem_write (fd_offset fd) (field_bytes fd src)) fds m"

fun selected_from :: "bool list \<Rightarrow> nat \<Rightarrow> field_descriptor list \<Rightarrow> field_descriptor list" where
  "selected_from msk i [] = []"
| "selected_from msk i (fd # fds) =
     (if mask_skips msk i then selected_from msk (i + 1) fds else fd # selected_from msk (i + 1) fds)"

lemma fields_fit_Cons [simp]:
  "fields_fit (f # fds) n \<longleftrightarrow>
     list_all (apart f) fds \<and> fd_offset f + field_size f \<le> n \<and> fields_fit fds n"
  by (auto simp: fields_fit_def list_all_iff)

lemma fields_fit_Nil [simp]: "fields_fit [] n"
  by (simp add: fields_fit_def)

lemma selected_from_subset: "set (selected_from msk i fds) \<subseteq> set fds"
  by (induction fds arbitrary: i) auto

lemma fields_fit_selected: "fields_fit fds n \<Longrightarrow> fields_fit (selected_from msk i fds) n"
proof (induction fds arbitrary: i)
  case (Cons f fds)
  then show ?case using selected_from_subset [of msk "i + 1" fds] by (auto simp: list_all_iff)
qed simp

lemma write_fields_data:
  "fields_fit fds (length m) \<Longrightarrow>
   buf_data (fold (\<lambda>fd. write_field fd m (fd_offset fd)) fds b) = buf_data b @ fields_bytes fds m"
  by (induction fds arbitrary: b) (auto simp: write_field_data fields_bytes_def)

lemma write_fields_pos:
  "fields_fit fds (length m) \<Longrightarrow>
   buf_pos (fold (\<lambda>fd. write_field fd m (fd_offset fd)) fds b) = buf_pos b + sum_list (map field_size fds)"
  by (induction fds arbitrary: b) (auto simp: write_field_pos)

lemma length_fields_bytes:
  "fields_fit fds (length m) \<Longrightarrow> length (fields_bytes fds m) = sum_list (map field_size fds)"
  by (induction fds) (auto simp: fields_bytes_def length_field_bytes)

lemma length_store_fields:
  "fields_fit fds (length m) \<Longrightarrow> length src = length m \<Longrightarrow> length (store_fields fds src m) = length m"
  by (induction fds arbitrary: m) (auto simp: store_fields_def length_mem_write length_field_bytes)

lemma write_fields_from_selected:
  "write_fields_from msk i fds m b = fold (\<lambda>fd. write_field fd m (fd_offset fd)) (selected_from msk i fds) b"
  by (induction fds arbitrary: i b) auto

lemma read_fields_from_selected:
  "read_fields_from msk i fds m b = read_fields (selected_from msk i fds) m b"
  by (induction fds arbitrary: i m b) (auto split: prod.splits)

lemma fields_size_from_selected:
  "fields_size_from msk i fds = sum_list (map field_size (selected_from msk i fds))"
  by (induction fds arbitrary: i) auto

lemma read_fields_rest:
  assumes "rest b = fields_bytes fds src @ r" "fields_fit fds (length src)"
    and "buf_pos b \<le> length (buf_data b)"
  shows "read_fields fds m b = (True, store_fields fds src m, adv (sum_list (map field_size fds)) b)"
  using assms
proof (induction fds arbitrary: b m)
  case Nil
  then show ?case by (simp add: store_fields_def byte_simps)
next
  case (Cons f fds)
  have e: "rest b = field_bytes f src @ fields_bytes fds src @ r"
    using Cons.prems(1) by (simp add: fields_bytes_def)
  have n: "length (field_bytes f src) = field_size f"
    using Cons.prems(2) by (simp add: length_field_bytes)
  have 1: "read_field f m (fd_offset f) b
      = (True, mem_write (fd_offset f) (field_bytes f src) m, adv (field_size f) b)"
    by (rule read_field_rest [OF e n Cons.prems(3)])
  have "length (rest b) \<ge> field_size f" using e n by simp
  then have "buf_pos (adv (field_size f) b) \<le> length (buf_data (adv (field_size f) b))"
    using Cons.prems(3) by (simp add: byte_simps rest_def)
  moreover have "rest (adv (field_size f) b) = fields_bytes fds src @ r"
    using e n by (simp add: byte_simps)
  ultimately show ?case
    using 1 Cons.prems(2) Cons.IH by (simp add: store_fields_def byte_simps)
qed

lemma mem_read_store_fields:
  assumes "fields_fit fds (length m)" "length src = length m"
    and "list_all (\<lambda>f. off + n \<le> fd_offset f \<or> fd_offset f + field_size f \<le> off) fds"
  shows "mem_read n off (store_fields fds src m) = mem_read n off m"
  using assms
proof (induction fds arbitrary: m)
  case (Cons f fds)
  have n: "length (field_bytes f src) = field_size f"
    using Cons.prems by (simp add: length_field_bytes)
  then show ?case
    using Cons.prems Cons.IH [of "mem_write (fd_offset f) (field_bytes f src) m"]
    by (auto simp: store_fields_def length_mem_write mem_read_write_disjoint)
qed (simp add: store_fields_def)

lemma store_fields_bytes:
  assumes "fields_fit fds (length m)" "length src = length m" "fd \<in> set fds"
  shows "mem_read (field_size fd) (fd_offset fd) (store_fields fds src m) = field_bytes fd src"
  using assms
proof (induction fds arbitrary: m)
  case (Cons f fds)
  let ?m = "mem_write (fd_offset f) (field_bytes f src) m"
  have n: "length (field_bytes f src) = field_size f" "length ?m = length m"
    using Cons.prems by (simp_all add: length_field_bytes length_mem_write)
  have s: "store_fields (f # fds) src m = store_fields fds src ?m" by (simp add: store_fields_def)
  show ?case
  proof (cases "fd \<in> set fds")
    case True
    then show ?thesis using Cons.IH [of ?m] Cons.prems n s by simp
  next
    case False
    then have fd: "fd = f" using Cons.prems by simp
    have "mem_read (field_size f) (fd_offset f) (store_fields fds src ?m)
        = mem_read (field_size f) (fd_offset f) ?m"
      using Cons.prems n by (intro mem_read_store_fields) (auto simp: apart_def list_all_iff)
    also have "\<dots> = field_bytes f src"
      using Cons.prems(1) n by (intro mem_read_write_prefix) auto
    finally show ?thesis using fd s by simp
  qed
qed simp

lemma store_fields_field_bytes:
  assumes "fields_fit fds (length m)" "length src = length m" "fd \<in> set fds"
  shows "field_bytes fd (store_fields fds src m) = field_bytes fd src"
proof -
  have "field_bytes fd (store_fields fds src m)
      = (if fd_type fd = StringFixed then zero_padded (field_bytes fd src) else field_bytes fd src)"
    using store_fields_bytes [OF assms] by (simp only: field_bytes_def Let_def)
  then show ?thesis by (simp add: field_bytes_def Let_def)
qed

lemma fields_bytes_store_fields:
  assumes "fields_fit fds (length m)" "length src = length m"
  shows "fields_bytes fds (store_fields fds src m) = fields_bytes fds src"
  unfolding fields_bytes_def
  by (rule arg_cong [where f = concat]) (simp add: store_fields_field_bytes [OF assms])

lemma serialized_size_sum: "serialized_component_size s = sum_list (map field_size (cs_fields s))"
proof -
  have "fold (\<lambda>fd total. total + field_size fd) fds n = n + sum_list (map field_size fds)" for fds n
    by (induction fds arbitrary: n) auto
  then show ?thesis by (simp add: serialized_component_size_def)
qed

section \<open>The storage of a field\<close>

text \<open>
  A field owns the bytes of its row from its offset on, as many as its descriptor says. The
  codec carries all of them, except for a fixed array of scalars (a scalar type whose storage
  is larger than one value): there it carries the first value only.
\<close>

fun scalar_width :: "field_type \<Rightarrow> nat option" where
  "scalar_width Bool = Some 1" | "scalar_width I8 = Some 1" | "scalar_width U8 = Some 1"
| "scalar_width I16 = Some 2" | "scalar_width U16 = Some 2"
| "scalar_width I32 = Some 4" | "scalar_width U32 = Some 4" | "scalar_width F32 = Some 4"
| "scalar_width I64 = Some 8" | "scalar_width U64 = Some 8" | "scalar_width F64 = Some 8"
| "scalar_width _ = None"

definition stored :: "field_descriptor \<Rightarrow> byte list \<Rightarrow> byte list" where
  "stored fd m = mem_read (fd_byte_size fd) (fd_offset fd) m"

definition array_field :: "field_descriptor \<Rightarrow> bool" where
  "array_field fd \<longleftrightarrow> (\<exists>k. scalar_width (fd_type fd) = Some k \<and> k < fd_byte_size fd)"

text \<open>What a field holds after it was sent from \<open>src\<close> over the old bytes \<open>old\<close>.\<close>

definition received :: "field_descriptor \<Rightarrow> byte list \<Rightarrow> byte list \<Rightarrow> byte list" where
  "received fd src old =
     (if array_field fd then take (the (scalar_width (fd_type fd))) src @ drop (the (scalar_width (fd_type fd))) old
      else if fd_type fd = StringFixed then zero_padded src else src)"

text \<open>The fields own disjoint bytes of a row of \<open>n\<close> bytes, each room for one value at least.\<close>

definition placed :: "field_descriptor list \<Rightarrow> nat \<Rightarrow> bool" where
  "placed fds n \<longleftrightarrow> sorted_wrt (\<lambda>f g. fd_offset f + fd_byte_size f \<le> fd_offset g
        \<or> fd_offset g + fd_byte_size g \<le> fd_offset f) fds
     \<and> (\<forall>fd\<in>set fds. fd_offset fd + fd_byte_size fd \<le> n
          \<and> (\<forall>k. scalar_width (fd_type fd) = Some k \<longrightarrow> k \<le> fd_byte_size fd))"

lemma field_size_width:
  "field_size fd = (case scalar_width (fd_type fd) of Some k \<Rightarrow> k | None \<Rightarrow> fd_byte_size fd)"
  by (cases "fd_type fd") (simp_all add: field_size_def storage_size_def)

lemma placed_size: "placed fds n \<Longrightarrow> fd \<in> set fds \<Longrightarrow> field_size fd \<le> fd_byte_size fd"
  by (auto simp: placed_def field_size_width split: option.split)

lemma placed_fit: "placed fds n \<Longrightarrow> fields_fit fds n"
proof -
  assume p: "placed fds n"
  let ?P = "\<lambda>f g. fd_offset f + fd_byte_size f \<le> fd_offset g \<or> fd_offset g + fd_byte_size g \<le> fd_offset f"
  have m: "apart x y" if "x \<in> set fds" "y \<in> set fds" "?P x y" for x y
    using placed_size [OF p that(1)] placed_size [OF p that(2)] that(3) by (auto simp: apart_def)
  have "sorted_wrt ?P fds" using p by (simp add: placed_def)
  then have "sorted_wrt apart fds" using sorted_wrt_mono_rel [of fds ?P apart] m by blast
  moreover have "fd_offset fd + field_size fd \<le> n" if "fd \<in> set fds" for fd
    using p placed_size [OF p that] that by (fastforce simp: placed_def)
  ultimately show ?thesis by (simp add: fields_fit_def list_all_iff)
qed

lemma sorted_wrt_apartD:
  assumes "sorted_wrt P xs" "x \<in> set xs" "y \<in> set xs" "x \<noteq> y"
  shows "P x y \<or> P y x"
  using assms by (induction xs) auto

lemma placed_apart:
  assumes "placed fds n" "f \<in> set fds" "g \<in> set fds" "f \<noteq> g"
  shows "fd_offset f + fd_byte_size f \<le> fd_offset g \<or> fd_offset g + fd_byte_size g \<le> fd_offset f"
  using sorted_wrt_apartD [OF _ assms(2-4)] assms(1) unfolding placed_def by blast

lemma mem_read_split: "k \<le> n \<Longrightarrow> mem_read n off m = mem_read k off m @ mem_read (n - k) (off + k) m"
  by (simp add: mem_read_def) (metis add.commute drop_drop le_add_diff_inverse take_add)

lemma length_stored: "fd_offset fd + fd_byte_size fd \<le> length m \<Longrightarrow> length (stored fd m) = fd_byte_size fd"
  by (simp add: stored_def length_mem_read)

lemma stored_parts:
  assumes "field_size fd \<le> fd_byte_size fd" "fd_offset fd + fd_byte_size fd \<le> length m"
  shows "mem_read (field_size fd) (fd_offset fd) m = take (field_size fd) (stored fd m)"
    "mem_read (fd_byte_size fd - field_size fd) (fd_offset fd + field_size fd) m = drop (field_size fd) (stored fd m)"
  using assms by (simp_all add: stored_def mem_read_split [OF assms(1)] length_mem_read)

text \<open>What \<open>register_schema_component\<close> lays out is placed, since every field has room for a value.\<close>

lemma laid_out_placed:
  assumes "laid_out L start fds stop" "\<And>fd k. fd \<in> set fds \<Longrightarrow> scalar_width (fd_type fd) = Some k \<Longrightarrow> k \<le> fd_byte_size fd"
  shows "placed fds stop"
  using assms
proof (induction fds arbitrary: start)
  case Nil
  then show ?case by (simp add: placed_def)
next
  case (Cons f fds)
  have L: "laid_out L (fd_offset f + fd_byte_size f) fds stop" using Cons.prems(1) by simp
  have "fd_offset f + fd_byte_size f \<le> fd_offset g" if "g \<in> set fds" for g
    using laid_out_bounds [OF L that] by simp
  moreover have "fd_offset f + fd_byte_size f \<le> stop" using laid_out_bounds [OF Cons.prems(1), of f] by simp
  moreover have "placed fds stop" by (rule Cons.IH [OF L]) (use Cons.prems(2) in auto)
  ultimately show ?case using Cons.prems(2) by (auto simp: placed_def)
qed

text \<open>The fields sent are a sublist of the fields of the row.\<close>

lemma stored_store_fields:
  assumes p: "placed fds (length m)" and len: "length src = length m" and sel: "set sel \<subseteq> set fds" "fields_fit sel (length m)"
    and fd: "fd \<in> set fds"
  shows "stored fd (store_fields sel src m) = (if fd \<in> set sel then received fd (stored fd src) (stored fd m) else stored fd m)"
proof -
  let ?m = "store_fields sel src m" and ?k = "field_size fd"
  have L: "length ?m = length m" by (rule length_store_fields [OF sel(2) len])
  have k: "?k \<le> fd_byte_size fd" by (rule placed_size [OF p fd])
  have b: "fd_offset fd + fd_byte_size fd \<le> length m" using p fd by (auto simp: placed_def)
  have off: "list_all (\<lambda>f. off + j \<le> fd_offset f \<or> fd_offset f + field_size f \<le> off) sel"
    if "fd_offset fd + (if fd \<in> set sel then ?k else 0) \<le> off" "off + j \<le> fd_offset fd + fd_byte_size fd" for off j
  proof (unfold list_all_iff, rule ballI)
    fix f
    assume f: "f \<in> set sel"
    then have ff: "f \<in> set fds" using sel(1) by blast
    show "off + j \<le> fd_offset f \<or> fd_offset f + field_size f \<le> off"
    proof (cases "f = fd")
      case True
      then show ?thesis using that(1) f by simp
    next
      case False
      show ?thesis using placed_apart [OF p fd ff] placed_size [OF p ff] that False by (auto split: if_splits)
    qed
  qed
  note keep = mem_read_store_fields [OF sel(2) len off]
  show ?thesis
  proof (cases "fd \<in> set sel")
    case False
    then show ?thesis using keep [of "fd_offset fd" "fd_byte_size fd"] by (simp add: stored_def)
  next
    case True
    have tl: "drop ?k (stored fd ?m) = drop ?k (stored fd m)"
      using keep [of "fd_offset fd + ?k" "fd_byte_size fd - ?k"] stored_parts(2) [OF k] b L k True by simp
    have hd: "take ?k (stored fd ?m) = field_bytes fd src"
      using store_fields_bytes [OF sel(2) len True] stored_parts(1) [OF k] b L by simp
    have "stored fd ?m = field_bytes fd src @ drop ?k (stored fd m)" using hd tl by (metis append_take_drop_id)
    also have "\<dots> = received fd (stored fd src) (stored fd m)"
    proof (cases "scalar_width (fd_type fd)")
      case None
      then have "?k = fd_byte_size fd" "\<not> array_field fd" by (simp_all add: field_size_width array_field_def)
      then show ?thesis using length_stored [of fd m] b by (simp add: received_def field_bytes_def stored_def)
    next
      case (Some w)
      then have w: "?k = w" "fd_type fd \<noteq> StringFixed" by (auto simp: field_size_width)
      have "field_bytes fd src = take w (stored fd src)"
        using stored_parts(1) [OF k, of src] b len w by (simp add: field_bytes_def)
      then show ?thesis
        using Some w k length_stored [of fd src] length_stored [of fd m] b len
        by (auto simp: received_def array_field_def)
    qed
    finally show ?thesis using True by simp
  qed
qed

section \<open>Properties\<close>

text \<open>
  C11. A component instance survives the wire: what \<open>serialize_component\<close> appends,
  \<open>deserialize_component\<close> reads back from any cursor into any row, successfully, consuming
  exactly \<open>serialized_component_size\<close> bytes. The whole storage of every field that is not a fixed
  array of scalars then holds the source's bytes (of a fixed string the text up to its
  terminator, padded with zeros). Of an array field only the first element arrives: the others
  keep the bytes of the target row, a limit of the code (component_serializer.cpp:13). Bytes
  outside the fields keep their value, and serializing the target gives the identical bytes.
\<close>

theorem component_roundtrip:
  assumes fit: "placed (cs_fields s) (length inst)" and len: "length m = length inst"
    and pos: "buf_pos b' \<le> length (buf_data b')"
    and wire: "rest b' = drop (length (buf_data b)) (buf_data (serialize_component s inst b)) @ r"
  shows "\<exists>m'. deserialize_component s m b' = (True, m', adv (serialized_component_size s) b')
    \<and> (\<forall>fd\<in>set (cs_fields s). stored fd m' = received fd (stored fd inst) (stored fd m))
    \<and> (\<forall>off n. list_all (\<lambda>f. off + n \<le> fd_offset f \<or> fd_offset f + fd_byte_size f \<le> off) (cs_fields s)
          \<longrightarrow> mem_read n off m' = mem_read n off m)
    \<and> (\<forall>c. buf_data (serialize_component s m' c) = buf_data c @ drop (length (buf_data b)) (buf_data (serialize_component s inst b)))"
proof -
  let ?m = "store_fields (cs_fields s) inst m"
  note ft = placed_fit [OF fit]
  have w: "drop (length (buf_data b)) (buf_data (serialize_component s inst b)) = fields_bytes (cs_fields s) inst"
    by (simp add: serialize_component_def write_fields_data [OF ft])
  have fit': "placed (cs_fields s) (length m)" "fields_fit (cs_fields s) (length m)" using fit ft len by simp_all
  have L: "length ?m = length m" by (rule length_store_fields [OF fit'(2) len [symmetric]])
  have d: "deserialize_component s m b' = (True, ?m, adv (serialized_component_size s) b')"
    using read_fields_rest [OF wire [unfolded w] ft pos] by (simp add: deserialize_component_def serialized_size_sum)
  have e: "\<forall>c. buf_data (serialize_component s ?m c) = buf_data c @ fields_bytes (cs_fields s) inst"
    using write_fields_data [of "cs_fields s" ?m] fields_bytes_store_fields [OF fit'(2) len [symmetric]] fit' L
    by (simp add: serialize_component_def)
  have o: "mem_read n off ?m = mem_read n off m"
    if "list_all (\<lambda>f. off + n \<le> fd_offset f \<or> fd_offset f + fd_byte_size f \<le> off) (cs_fields s)" for off n
    by (rule mem_read_store_fields [OF fit'(2) len [symmetric]])
      (use that placed_size [OF fit] in \<open>fastforce simp: list_all_iff\<close>)
  have "\<forall>fd\<in>set (cs_fields s). stored fd ?m = received fd (stored fd inst) (stored fd m)"
    using stored_store_fields [OF fit'(1) len [symmetric] subset_refl fit'(2)] by simp
  with d o e show ?thesis unfolding w by blast
qed

text \<open>A concrete schema: a flag, a padded 32-bit integer and a fixed string of four bytes.\<close>

definition plain_field :: "string \<Rightarrow> field_type \<Rightarrow> nat \<Rightarrow> nat \<Rightarrow> nat \<Rightarrow> field_descriptor" where
  "plain_field n t off bytes cnt = \<lparr>fd_name = n, fd_type = t, fd_offset = off, fd_byte_size = bytes,
     fd_count = cnt, fd_element_type = 0, fd_sync_priority = SYNC_MEDIUM, fd_is_networked = True\<rparr>"

definition demo_schema :: component_schema where
  "demo_schema = \<lparr>cs_type_name = ''Demo'', cs_type_id = 1, cs_size = 12, cs_alignment = 4,
     cs_fields = [plain_field ''on'' Bool 0 1 0, plain_field ''hp'' I32 4 4 0,
                  plain_field ''tag'' StringFixed 8 4 4],
     cs_is_networked = True\<rparr>"

definition demo_row :: "byte list" where
  "demo_row = [1, 170, 170, 170, 16, 32, 48, 64, 104, 105, 0, 77]"

lemma demo_fit: "fields_fit (cs_fields demo_schema) (length demo_row)"
  by (simp add: demo_schema_def plain_field_def fields_fit_def apart_def field_size_def storage_size_def demo_row_def)

lemma demo_placed: "placed (cs_fields demo_schema) (length demo_row)"
  by (simp add: demo_schema_def plain_field_def placed_def demo_row_def)

text \<open>And one with a fixed array, of which only the first element is carried.\<close>

definition array_schema :: component_schema where
  "array_schema = demo_schema\<lparr>cs_size := 16, cs_fields := cs_fields demo_schema @ [plain_field ''xs'' U16 12 4 2]\<rparr>"

definition array_row :: "byte list" where
  "array_row = demo_row @ [1, 2, 3, 4]"

theorem component_roundtrip_witness:
  "\<exists>m'. deserialize_component array_schema (replicate 16 0) (from_packed (buf_data (serialize_component array_schema array_row empty_buffer)))
     = (True, m', adv 11 (from_packed (buf_data (serialize_component array_schema array_row empty_buffer))))
   \<and> stored (plain_field ''hp'' I32 4 4 0) m' = [16, 32, 48, 64] \<and> stored (plain_field ''xs'' U16 12 4 2) m' = [1, 2, 0, 0]"
proof -
  have p: "placed (cs_fields array_schema) (length array_row)"
    by (simp add: array_schema_def demo_schema_def plain_field_def placed_def array_row_def demo_row_def)
  have z: "serialized_component_size array_schema = 11"
    by (simp add: serialized_size_sum array_schema_def demo_schema_def plain_field_def field_size_def storage_size_def)
  have f: "plain_field ''hp'' I32 4 4 0 \<in> set (cs_fields array_schema)" "plain_field ''xs'' U16 12 4 2 \<in> set (cs_fields array_schema)"
    by (simp_all add: array_schema_def demo_schema_def)
  have v: "received (plain_field ''hp'' I32 4 4 0) (stored (plain_field ''hp'' I32 4 4 0) array_row)
      (stored (plain_field ''hp'' I32 4 4 0) (replicate 16 0)) = [16, 32, 48, 64]"
    "received (plain_field ''xs'' U16 12 4 2) (stored (plain_field ''xs'' U16 12 4 2) array_row)
      (stored (plain_field ''xs'' U16 12 4 2) (replicate 16 0)) = [1, 2, 0, 0]"
    by (simp_all add: received_def array_field_def plain_field_def stored_def mem_read_def array_row_def demo_row_def
        numeral_eq_Suc)
  let ?b = "from_packed (buf_data (serialize_component array_schema array_row empty_buffer))"
  have len: "length (replicate 16 0 :: byte list) = length array_row" by (simp add: array_row_def demo_row_def)
  have pos: "buf_pos ?b \<le> length (buf_data ?b)" by (simp add: from_packed_def)
  have rest: "rest ?b = drop (length (buf_data empty_buffer)) (buf_data (serialize_component array_schema array_row empty_buffer)) @ []"
    by (simp add: from_packed_def rest_def empty_buffer_def)
  obtain m' where m: "deserialize_component array_schema (replicate 16 0) ?b = (True, m', adv 11 ?b)"
    "\<forall>fd\<in>set (cs_fields array_schema). stored fd m' = received fd (stored fd array_row) (stored fd (replicate 16 0))"
    using component_roundtrip [OF p len pos rest] unfolding z by blast
  show ?thesis using m(1) m(2) [rule_format, OF f(1), unfolded v(1)] m(2) [rule_format, OF f(2), unfolded v(2)] by blast
qed

lemma selected_from_apart:
  "fields_fit fds n \<Longrightarrow> i < length fds \<Longrightarrow> mask_skips msk (k + i) \<Longrightarrow>
   list_all (apart (fds ! i)) (selected_from msk k fds)"
proof (induction fds arbitrary: i k)
  case (Cons f fds)
  have sub: "set (selected_from msk (k + 1) fds) \<subseteq> set fds" by (rule selected_from_subset)
  show ?case
  proof (cases i)
    case 0
    then show ?thesis using Cons.prems sub by (auto simp: list_all_iff)
  next
    case (Suc j)
    moreover have "apart (fds ! j) f"
      using Cons.prems Suc by (auto simp: list_all_iff apart_def)
    ultimately show ?thesis using Cons.IH [of j "k + 1"] Cons.prems by auto
  qed
qed simp

lemma selected_from_mem:
  "i < length fds \<Longrightarrow> \<not> mask_skips msk (k + i) \<Longrightarrow> fds ! i \<in> set (selected_from msk k fds)"
proof (induction fds arbitrary: i k)
  case (Cons f fds)
  then show ?case using Cons.IH [of "i - 1" "k + 1"] by (cases i) auto
qed simp

lemma selected_from_nth:
  "distinct fds \<Longrightarrow> i < length fds \<Longrightarrow> fds ! i \<in> set (selected_from msk k fds) \<longleftrightarrow> \<not> mask_skips msk (k + i)"
proof (induction fds arbitrary: i k)
  case (Cons f fds)
  have "f \<notin> set (selected_from msk (k + 1) fds)" using Cons.prems(1) selected_from_subset [of msk "k + 1" fds] by auto
  then show ?case using Cons.IH [of "i - 1" "k + 1"] Cons.prems by (cases i) (auto simp: nth_Cons')
qed simp

lemma field_bytes_cong:
  "mem_read (field_size fd) (fd_offset fd) m = mem_read (field_size fd) (fd_offset fd) m' \<Longrightarrow>
   field_bytes fd m = field_bytes fd m'"
  by (simp add: field_bytes_def)

lemma masked_store_fields:
  assumes fit: "fields_fit (cs_fields s) (length inst)" and len: "length m = length inst"
    and i: "i < length (cs_fields s)"
  shows "field_bytes (cs_fields s ! i) (store_fields (selected_from msk 0 (cs_fields s)) inst m)
    = field_bytes (cs_fields s ! i) (if mask_skips msk i then m else inst)"
proof -
  let ?sel = "selected_from msk 0 (cs_fields s)"
  have fits': "fields_fit ?sel (length m)" using fields_fit_selected [OF fit, of msk 0] len by simp
  show ?thesis
  proof (cases "mask_skips msk i")
    case True
    then have "list_all (apart (cs_fields s ! i)) ?sel"
      using selected_from_apart [OF fit i, of msk 0] by simp
    then have "field_bytes (cs_fields s ! i) (store_fields ?sel inst m) = field_bytes (cs_fields s ! i) m"
      by (intro field_bytes_cong mem_read_store_fields [OF fits' len [symmetric]])
        (simp add: apart_def list_all_iff)
    then show ?thesis using True by simp
  next
    case False
    then have "cs_fields s ! i \<in> set ?sel" using selected_from_mem [OF i, of msk 0] by simp
    then show ?thesis
      using store_fields_field_bytes [OF fits' len [symmetric]] False by simp
  qed
qed

text \<open>
  C12. Masked (delta) serialization: with the same mask on both sides, reading what
  \<open>serialize_component_fields\<close> appended succeeds and consumes exactly
  \<open>serialized_component_fields_size\<close> bytes; afterwards the storage of each field whose mask bit is
  set or missing holds what it receives in a full transfer (the source's bytes; of a fixed array
  of scalars the first element only), and every other field keeps its bytes.
\<close>

theorem masked_component_roundtrip:
  assumes fit: "placed (cs_fields s) (length inst)" and len: "length m = length inst"
    and pos: "buf_pos b' \<le> length (buf_data b')" and dist: "distinct (cs_fields s)"
    and wire: "rest b' = drop (length (buf_data b)) (buf_data (serialize_component_fields s inst b msk)) @ r"
  shows "\<exists>m'. deserialize_component_fields s m b' msk
        = (True, m', adv (serialized_component_fields_size s msk) b')
    \<and> (\<forall>i < length (cs_fields s). stored (cs_fields s ! i) m'
          = (if i < length msk \<and> \<not> msk ! i then stored (cs_fields s ! i) m
             else received (cs_fields s ! i) (stored (cs_fields s ! i) inst) (stored (cs_fields s ! i) m)))"
proof -
  let ?sel = "selected_from msk 0 (cs_fields s)"
  let ?m = "store_fields ?sel inst m"
  note fits = fields_fit_selected [OF placed_fit [OF fit], of msk 0]
  have w: "drop (length (buf_data b)) (buf_data (serialize_component_fields s inst b msk)) = fields_bytes ?sel inst"
    by (simp add: serialize_component_fields_def write_fields_from_selected write_fields_data [OF fits])
  have d: "deserialize_component_fields s m b' msk = (True, ?m, adv (serialized_component_fields_size s msk) b')"
    using read_fields_rest [OF wire [unfolded w] fits pos]
    by (simp add: deserialize_component_fields_def read_fields_from_selected
        serialized_component_fields_size_def fields_size_from_selected)
  have fit': "placed (cs_fields s) (length m)" "fields_fit ?sel (length m)" using fit fits len by simp_all
  note fits' = this(2) and fit' = this(1)
  have "stored (cs_fields s ! i) ?m = (if i < length msk \<and> \<not> msk ! i then stored (cs_fields s ! i) m
       else received (cs_fields s ! i) (stored (cs_fields s ! i) inst) (stored (cs_fields s ! i) m))"
    if i: "i < length (cs_fields s)" for i
  proof -
    have "cs_fields s ! i \<in> set ?sel \<longleftrightarrow> \<not> mask_skips msk i" using selected_from_nth [OF dist i, of msk 0] by simp
    then show ?thesis
      unfolding stored_store_fields [OF fit' len [symmetric] selected_from_subset fits' nth_mem [OF i]] mask_skips_def by auto
  qed
  then show ?thesis using d by blast
qed

theorem masked_component_roundtrip_witness:
  "\<exists>m' b'. deserialize_component_fields demo_schema (replicate 12 9)
     (from_packed (buf_data (serialize_component_fields demo_schema demo_row empty_buffer [False, True, False]))) [False, True, False]
     = (True, m', b') \<and> stored (plain_field ''on'' Bool 0 1 0) m' = [9] \<and> stored (plain_field ''hp'' I32 4 4 0) m' = [16, 32, 48, 64]"
proof -
  have f: "cs_fields demo_schema ! 0 = plain_field ''on'' Bool 0 1 0" "cs_fields demo_schema ! 1 = plain_field ''hp'' I32 4 4 0"
    "length (cs_fields demo_schema) = 3" "distinct (cs_fields demo_schema)"
    by (simp_all add: demo_schema_def plain_field_def)
  have v: "received (plain_field ''hp'' I32 4 4 0) (stored (plain_field ''hp'' I32 4 4 0) demo_row)
      (stored (plain_field ''hp'' I32 4 4 0) (replicate 12 9)) = [16, 32, 48, 64]"
    "stored (plain_field ''on'' Bool 0 1 0) (replicate 12 9) = [9]"
    by (simp_all add: received_def array_field_def plain_field_def stored_def mem_read_def demo_row_def numeral_eq_Suc)
  let ?b = "from_packed (buf_data (serialize_component_fields demo_schema demo_row empty_buffer [False, True, False]))"
  have len: "length (replicate 12 9 :: byte list) = length demo_row" by (simp add: demo_row_def)
  have pos: "buf_pos ?b \<le> length (buf_data ?b)" by (simp add: from_packed_def)
  have rest: "rest ?b = drop (length (buf_data empty_buffer))
      (buf_data (serialize_component_fields demo_schema demo_row empty_buffer [False, True, False])) @ []"
    by (simp add: from_packed_def rest_def empty_buffer_def)
  obtain m' where m: "deserialize_component_fields demo_schema (replicate 12 9) ?b [False, True, False]
      = (True, m', adv (serialized_component_fields_size demo_schema [False, True, False]) ?b)"
    "\<forall>i < length (cs_fields demo_schema). stored (cs_fields demo_schema ! i) m'
          = (if i < length [False, True, False] \<and> \<not> [False, True, False] ! i then stored (cs_fields demo_schema ! i) (replicate 12 9)
             else received (cs_fields demo_schema ! i) (stored (cs_fields demo_schema ! i) demo_row)
               (stored (cs_fields demo_schema ! i) (replicate 12 9)))"
    using masked_component_roundtrip [OF demo_placed len pos f(4) rest] by (elim exE conjE)
  have "stored (plain_field ''on'' Bool 0 1 0) m' = [9]" using m(2) [rule_format, of 0] f v by simp
  moreover have "stored (plain_field ''hp'' I32 4 4 0) m' = [16, 32, 48, 64]" using m(2) [rule_format, of 1] f v by simp
  ultimately show ?thesis using m(1) by blast
qed

text \<open>
  Fixed arrays of scalars: \<open>write_field\<close> looks at the first element only, so two rows that
  agree there serialize to the same bytes whatever the other \<open>fd_count - 1\<close> elements hold.
\<close>

lemma scalar_array_writes_first_element:
  assumes "fd_type fd \<in> {Bool, I8, U8, I16, U16, I32, U32, I64, U64, F32, F64}"
    and "off + field_size fd \<le> length m" "off + field_size fd \<le> length m'"
    and "mem_read (field_size fd) off m = mem_read (field_size fd) off m'"
  shows "write_field fd m off b = write_field fd m' off b"
proof -
  have nth: "m ! (off + i) = m' ! (off + i)" if "i < field_size fd" for i
    using arg_cong [OF assms(4), of "\<lambda>l. l ! i"] that assms(2,3) by (simp add: mem_read_def)
  have "fold (\<lambda>i r. r OR push_bit (i * 8) (ucast (m ! (off + i)))) [0..<8] (0::u64)
      = fold (\<lambda>i r. r OR push_bit (i * 8) (ucast (m' ! (off + i)))) [0..<8] 0" if "field_size fd = 8"
    using nth that by (intro fold_cong) auto
  then show ?thesis
    using assms(1,4) nth [of 0] nth [of 1] nth [of 2] nth [of 3]
    by (auto simp: write_field_def field_size_def load16_def load32_def load64_def)
qed

lemma scalar_array_not_restored:
  "serialize_component s [1, 2, 3, 4] empty_buffer = serialize_component s [1, 9, 9, 9] empty_buffer"
  if "cs_fields s = [plain_field ''xs'' U8 0 4 4]"
  using that by (simp add: serialize_component_def plain_field_def write_field_def)

end
