(* ===== verification/Column.thy ===== *)
theory Column
  imports Prelude
begin

text \<open>
  \<open>src/core/column.h\<close>: the buffer of rows of one component type. \<open>c_data\<close> is the allocation
  from the aligned base on, \<open>capacity * stride\<close> bytes; row \<open>i\<close> starts at \<open>i * stride\<close>. The
  contents of freshly allocated memory are a parameter \<open>heap\<close> (indexed by the size of the
  request), so nothing below depends on uninitialized bytes. Row counts are natural numbers:
  an allocation of more than \<open>2 ^ 64\<close> bytes does not exist.
\<close>

unbundle bit_operations_syntax

section \<open>State and operations\<close>

record column =
  c_data :: "byte list"
  c_capacity :: nat
  c_size :: nat
  c_elem_size :: nat
  c_elem_align :: nat
  c_stride :: nat
  c_versions :: "u64 list"
  c_max_version :: u64
  c_tracking :: bool

type_synonym heap = "nat \<Rightarrow> nat \<Rightarrow> byte"

definition empty_column :: column where
  "empty_column = \<lparr>c_data = [], c_capacity = 0, c_size = 0, c_elem_size = 0, c_elem_align = 1,
     c_stride = 0, c_versions = [], c_max_version = 0, c_tracking = False\<rparr>"

definition free_buf :: "column \<Rightarrow> column" where
  "free_buf c = c\<lparr>c_data := [], c_capacity := 0, c_size := 0, c_versions := [],
     c_tracking := False, c_max_version := 0\<rparr>"

text \<open>The move assignment: the target with the source's members, and the emptied source.\<close>

definition column_move :: "column \<Rightarrow> column \<times> column" where
  "column_move other = (other, other\<lparr>c_data := [], c_capacity := 0, c_size := 0, c_elem_size := 0,
     c_elem_align := 1, c_stride := 0, c_versions := [], c_tracking := False, c_max_version := 0\<rparr>)"

definition column_init :: "nat \<Rightarrow> nat \<Rightarrow> column \<Rightarrow> column" where
  "column_init p_elem_size p_elem_align c =
     (let al = (if p_elem_align > 0 then p_elem_align else 1)
      in (free_buf c)\<lparr>c_elem_size := p_elem_size, c_elem_align := al,
           c_stride := (p_elem_size + al - 1) div al * al, c_size := 0, c_capacity := 0\<rparr>)"

text \<open>\<open>row(i)\<close> is a pointer: the offset of the row in \<open>c_data\<close>.\<close>

definition row_offset :: "column \<Rightarrow> nat \<Rightarrow> nat" where
  "row_offset c i = i * c_stride c"

text \<open>The first address of an allocation \<open>raw\<close> that is aligned to \<open>align\<close>.\<close>

definition aligned_base :: "u64 \<Rightarrow> u64 \<Rightarrow> u64" where
  "aligned_base raw align = (raw + align - 1) AND NOT (align - 1)"

definition realloc_to :: "heap \<Rightarrow> nat \<Rightarrow> column \<Rightarrow> column" where
  "realloc_to heap p_new_cap c =
     (let bytes = p_new_cap * c_stride c;
          data = map (heap (bytes + c_elem_align c)) [0..<bytes]
      in c\<lparr>c_data := mem_write 0 (mem_read (c_size c * c_stride c) 0 (c_data c)) data,
           c_capacity := p_new_cap\<rparr>)"

definition column_reserve :: "heap \<Rightarrow> nat \<Rightarrow> column \<Rightarrow> column" where
  "column_reserve heap n c = (if n > c_capacity c then realloc_to heap n c else c)"

definition grow :: "heap \<Rightarrow> column \<Rightarrow> column" where
  "grow heap c =
     (let c1 = (if c_size c = c_capacity c
                then realloc_to heap (if c_capacity c = 0 then 8 else c_capacity c * 2) c else c)
      in c1\<lparr>c_size := c_size c1 + 1,
            c_versions := (if c_tracking c1 then c_versions c1 @ [0] else c_versions c1)\<rparr>)"

text \<open>\<open>memcpy(row(i), src, |src|)\<close> and the bytes at \<open>row(i)\<close>.\<close>

definition row_write :: "nat \<Rightarrow> byte list \<Rightarrow> column \<Rightarrow> column" where
  "row_write i src c = c\<lparr>c_data := mem_write (row_offset c i) src (c_data c)\<rparr>"

definition row_read :: "nat \<Rightarrow> nat \<Rightarrow> column \<Rightarrow> byte list" where
  "row_read n i c = mem_read n (row_offset c i) (c_data c)"

definition column_append :: "heap \<Rightarrow> byte list \<Rightarrow> column \<Rightarrow> column" where
  "column_append heap src c =
     (let c1 = grow heap c in row_write (c_size c1 - 1) (take (c_elem_size c1) src) c1)"

definition column_swap_remove :: "nat \<Rightarrow> column \<Rightarrow> column" where
  "column_swap_remove i c =
     (let c1 = (if i + 1 < c_size c
                then (row_write i (row_read (c_elem_size c) (c_size c - 1) c) c)
                       \<lparr>c_versions := (if c_tracking c then (c_versions c)[i := last (c_versions c)]
                                      else c_versions c)\<rparr>
                else c);
          c2 = c1\<lparr>c_size := c_size c1 - 1\<rparr>
      in if c_tracking c2 then c2\<lparr>c_versions := butlast (c_versions c2), c_max_version := 0\<rparr> else c2)"

definition column_pop_back :: "column \<Rightarrow> column" where
  "column_pop_back c =
     (if c_size c = 0 then c
      else (let c2 = c\<lparr>c_size := c_size c - 1\<rparr>
        in if c_tracking c2 then c2\<lparr>c_versions := butlast (c_versions c2), c_max_version := 0\<rparr> else c2))"

definition column_clear :: "column \<Rightarrow> column" where
  "column_clear c = (let c2 = c\<lparr>c_size := 0\<rparr>
     in if c_tracking c2 then c2\<lparr>c_versions := [], c_max_version := 0\<rparr> else c2)"

definition ensure_versions :: "u64 \<Rightarrow> column \<Rightarrow> column" where
  "ensure_versions p_tick c =
     (if c_tracking c then c
      else c\<lparr>c_tracking := True, c_versions := replicate (c_size c) p_tick, c_max_version := p_tick\<rparr>)"

definition set_version :: "nat \<Rightarrow> u64 \<Rightarrow> column \<Rightarrow> column" where
  "set_version i p_version c =
     (if c_tracking c \<and> i < length (c_versions c)
      then c\<lparr>c_versions := (c_versions c)[i := p_version],
             c_max_version := (if p_version > c_max_version c then p_version else c_max_version c)\<rparr>
      else c)"

definition column_mark_changed :: "nat \<Rightarrow> u64 \<Rightarrow> column \<Rightarrow> column" where
  "column_mark_changed i p_tick c =
     (if c_tracking c \<and> i < length (c_versions c)
      then c\<lparr>c_versions := (c_versions c)[i := p_tick],
             c_max_version := (if p_tick > c_max_version c then p_tick else c_max_version c)\<rparr>
      else c)"

definition row_changed_since :: "nat \<Rightarrow> u64 \<Rightarrow> column \<Rightarrow> bool" where
  "row_changed_since i p_baseline c \<longleftrightarrow>
     c_tracking c \<and> i < length (c_versions c) \<and> c_versions c ! i > p_baseline"

definition version_at :: "nat \<Rightarrow> column \<Rightarrow> u64" where
  "version_at i c = (if c_tracking c \<and> i < length (c_versions c) then c_versions c ! i else 0)"

definition max_version :: "column \<Rightarrow> u64" where
  "max_version c = (if c_tracking c then c_max_version c else 0)"

section \<open>Invariant and abstraction\<close>

definition wf_col :: "column \<Rightarrow> bool" where
  "wf_col c \<longleftrightarrow> c_size c \<le> c_capacity c \<and> length (c_data c) = c_capacity c * c_stride c
     \<and> c_elem_size c \<le> c_stride c \<and> 0 < c_elem_align c \<and> c_elem_align c dvd c_stride c
     \<and> length (c_versions c) = (if c_tracking c then c_size c else 0)"

text \<open>The rows a column stands for.\<close>

definition rows :: "column \<Rightarrow> byte list list" where
  "rows c = map (\<lambda>i. row_read (c_elem_size c) i c) [0..<c_size c]"

lemma length_rows [simp]: "length (rows c) = c_size c"
  by (simp add: rows_def)

lemma nth_rows [simp]: "i < c_size c \<Longrightarrow> rows c ! i = row_read (c_elem_size c) i c"
  by (simp add: rows_def)

lemma row_end:
  assumes "wf_col c" "i < c_capacity c"
  shows "row_offset c i + c_elem_size c \<le> length (c_data c)"
proof -
  have "row_offset c i + c_elem_size c \<le> Suc i * c_stride c"
    using assms(1) by (simp add: row_offset_def wf_col_def)
  also have "\<dots> \<le> c_capacity c * c_stride c" using assms(2) by (intro mult_le_mono1) simp
  finally show ?thesis using assms(1) by (simp add: wf_col_def)
qed

lemma row_apart:
  assumes "wf_col c" "i \<noteq> j"
  shows "row_offset c i + c_elem_size c \<le> row_offset c j \<or> row_offset c j + c_elem_size c \<le> row_offset c i"
proof -
  have "row_offset c a + c_elem_size c \<le> row_offset c b" if "a < b" for a b
  proof -
    have "row_offset c a + c_elem_size c \<le> Suc a * c_stride c"
      using assms(1) by (simp add: row_offset_def wf_col_def)
    also have "\<dots> \<le> b * c_stride c" using that by (intro mult_le_mono1) simp
    finally show ?thesis by (simp add: row_offset_def)
  qed
  then show ?thesis using assms(2) by (metis linorder_neqE_nat)
qed

lemma length_row_read: "wf_col c \<Longrightarrow> i < c_size c \<Longrightarrow> length (row_read (c_elem_size c) i c) = c_elem_size c"
  using row_end [of c i] by (simp add: row_read_def length_mem_read wf_col_def)

lemma rows_elem: "wf_col c \<Longrightarrow> r \<in> set (rows c) \<Longrightarrow> length r = c_elem_size c"
  by (auto simp: rows_def length_row_read)

lemma row_write_fields [simp]:
  "c_size (row_write i bs c) = c_size c" "c_elem_size (row_write i bs c) = c_elem_size c"
  "c_stride (row_write i bs c) = c_stride c" "c_capacity (row_write i bs c) = c_capacity c"
  "c_tracking (row_write i bs c) = c_tracking c" "c_versions (row_write i bs c) = c_versions c"
  "c_elem_align (row_write i bs c) = c_elem_align c" "c_max_version (row_write i bs c) = c_max_version c"
  by (simp_all add: row_write_def)

lemma wf_row_write:
  "wf_col c \<Longrightarrow> i < c_capacity c \<Longrightarrow> length bs \<le> c_elem_size c \<Longrightarrow> wf_col (row_write i bs c)"
  using row_end [of c i] by (auto simp: wf_col_def row_write_def length_mem_write)

lemma row_read_write:
  assumes "wf_col c" "i < c_capacity c" "length bs = c_elem_size c" "n = c_elem_size c"
  shows "row_read n j (row_write i bs c) = (if j = i then bs else row_read n j c)"
proof (cases "j = i")
  case True
  then show ?thesis
    using assms row_end [of c i] by (simp add: row_read_def row_write_def row_offset_def mem_read_write_prefix)
next
  case False
  then show ?thesis
    using assms row_end [of c i] row_apart [OF assms(1) False]
    by (auto simp: row_read_def row_write_def row_offset_def mem_read_write_disjoint)
qed

lemma rows_row_write [row_simps]:
  assumes "wf_col c" "i < c_size c" "length bs = c_elem_size c"
  shows "rows (row_write i bs c) = (rows c)[i := bs]"
proof -
  have "i < c_capacity c" using assms by (simp add: wf_col_def)
  then show ?thesis
    by (intro nth_equalityI) (auto simp: row_read_write assms nth_list_update)
qed

section \<open>Operations against the abstraction\<close>

lemma column_init_wf: "wf_col (column_init es al c)"
proof -
  have "es \<le> (es + (a - 1)) div a * a" if "0 < a" for a
  proof -
    have "es + (a - 1) < (es + (a - 1)) div a * a + a"
      using that by (metis add.commute dividend_less_times_div mult.commute mult_Suc_right)
    then show ?thesis by linarith
  qed
  then show ?thesis by (auto simp: column_init_def wf_col_def Let_def free_buf_def)
qed

lemma column_init_fields [simp]:
  "c_size (column_init es al c) = 0" "c_elem_size (column_init es al c) = es"
  "c_tracking (column_init es al c) = False" "rows (column_init es al c) = []"
  by (simp_all add: column_init_def Let_def free_buf_def rows_def)

lemma realloc_fields [simp]:
  "c_size (realloc_to h n c) = c_size c" "c_capacity (realloc_to h n c) = n"
  "c_elem_size (realloc_to h n c) = c_elem_size c" "c_stride (realloc_to h n c) = c_stride c"
  "c_elem_align (realloc_to h n c) = c_elem_align c" "c_tracking (realloc_to h n c) = c_tracking c"
  "c_versions (realloc_to h n c) = c_versions c" "c_max_version (realloc_to h n c) = c_max_version c"
  by (simp_all add: realloc_to_def Let_def)

lemma realloc_data:
  assumes "wf_col c" "c_size c \<le> n"
  shows "length (c_data (realloc_to h n c)) = n * c_stride c"
    and "k < c_size c * c_stride c \<Longrightarrow> c_data (realloc_to h n c) ! k = c_data c ! k"
proof -
  have a: "c_size c * c_stride c \<le> n * c_stride c" using assms(2) by (rule mult_le_mono1)
  have "c_size c * c_stride c \<le> c_capacity c * c_stride c"
    using assms(1) by (intro mult_le_mono1) (simp add: wf_col_def)
  then have b: "c_size c * c_stride c \<le> length (c_data c)" using assms(1) by (simp add: wf_col_def)
  show "length (c_data (realloc_to h n c)) = n * c_stride c"
    using a b by (simp add: realloc_to_def Let_def length_mem_write length_mem_read)
  show "k < c_size c * c_stride c \<Longrightarrow> c_data (realloc_to h n c) ! k = c_data c ! k"
    using b by (simp add: realloc_to_def Let_def mem_write_def mem_read_def nth_append)
qed

lemma realloc_wf: "wf_col c \<Longrightarrow> c_size c \<le> n \<Longrightarrow> wf_col (realloc_to h n c)"
  using realloc_data(1) [of c n h] by (simp add: wf_col_def)

lemma realloc_rows:
  assumes "wf_col c" "c_size c \<le> n"
  shows "rows (realloc_to h n c) = rows c"
proof (rule nth_equalityI)
  show "length (rows (realloc_to h n c)) = length (rows c)" by simp
  fix i
  assume "i < length (rows (realloc_to h n c))"
  then have i: "i < c_size c" by simp
  note wf = realloc_wf [OF assms, of h]
  have e: "row_offset c i + c_elem_size c \<le> c_size c * c_stride c"
  proof -
    have "row_offset c i + c_elem_size c \<le> Suc i * c_stride c"
      using assms(1) by (simp add: row_offset_def wf_col_def)
    also have "\<dots> \<le> c_size c * c_stride c" using i by (intro mult_le_mono1) simp
    finally show ?thesis .
  qed
  have "row_read (c_elem_size c) i (realloc_to h n c) = row_read (c_elem_size c) i c"
  proof (rule nth_equalityI)
    show "length (row_read (c_elem_size c) i (realloc_to h n c)) = length (row_read (c_elem_size c) i c)"
      using length_row_read [OF wf, of i] length_row_read [OF assms(1), of i] i by simp
    fix k
    assume "k < length (row_read (c_elem_size c) i (realloc_to h n c))"
    then have "k < c_elem_size c" using length_row_read [OF wf, of i] i by simp
    then show "row_read (c_elem_size c) i (realloc_to h n c) ! k = row_read (c_elem_size c) i c ! k"
      using e row_end [OF assms(1), of i] row_end [OF wf, of i] i assms(2)
        realloc_data(2) [OF assms, of "row_offset c i + k" h] assms(1)
      by (simp add: row_read_def mem_read_def row_offset_def wf_col_def)
  qed
  then show "rows (realloc_to h n c) ! i = rows c ! i" using i by simp
qed

lemma grow_fields [simp]:
  "c_size (grow h c) = c_size c + 1" "c_elem_size (grow h c) = c_elem_size c"
  "c_stride (grow h c) = c_stride c" "c_elem_align (grow h c) = c_elem_align c"
  "c_tracking (grow h c) = c_tracking c" "c_max_version (grow h c) = c_max_version c"
  "c_versions (grow h c) = (if c_tracking c then c_versions c @ [0] else c_versions c)"
  by (simp_all add: grow_def Let_def)

lemma grow_wf: "wf_col c \<Longrightarrow> wf_col (grow h c)"
  using realloc_wf [of c "if c_capacity c = 0 then 8 else c_capacity c * 2" h]
  by (auto simp: grow_def Let_def wf_col_def)

lemma grow_rows: "wf_col c \<Longrightarrow> rows (grow h c) = rows c @ [row_read (c_elem_size c) (c_size c) (grow h c)]"
proof -
  assume wf: "wf_col c"
  let ?c1 = "if c_size c = c_capacity c
             then realloc_to h (if c_capacity c = 0 then 8 else c_capacity c * 2) c else c"
  have r: "rows ?c1 = rows c" using realloc_rows [OF wf] by simp
  have "row_read (c_elem_size c) i (grow h c) = row_read (c_elem_size c) i ?c1" for i
    by (simp add: grow_def Let_def row_read_def row_offset_def)
  then have "take (c_size c) (rows (grow h c)) = rows c"
    unfolding r [symmetric] by (auto simp: rows_def take_map)
  then show ?thesis
    by (metis append_take_drop_id append_Nil2 drop_all grow_fields(1,2) length_rows less_add_one
        nth_rows order_refl take_Suc_conv_app_nth take_all Suc_eq_plus1)
qed

text \<open>The column without its tracking information, and how the row operations act on it.\<close>

lemma version_ops_fields [simp]:
  "c_size (ensure_versions t c) = c_size c" "c_size (set_version i t c) = c_size c"
  "c_size (column_mark_changed i t c) = c_size c"
  "c_elem_size (ensure_versions t c) = c_elem_size c" "c_elem_size (set_version i t c) = c_elem_size c"
  "c_elem_size (column_mark_changed i t c) = c_elem_size c"
  "rows (ensure_versions t c) = rows c" "rows (set_version i t c) = rows c"
  "rows (column_mark_changed i t c) = rows c"
  "c_tracking (set_version i t c) = c_tracking c" "c_tracking (column_mark_changed i t c) = c_tracking c"
  "c_tracking (ensure_versions t c) = True"
  "c_data (ensure_versions t c) = c_data c" "c_data (set_version i t c) = c_data c"
  "c_data (column_mark_changed i t c) = c_data c"
  by (simp_all add: ensure_versions_def set_version_def column_mark_changed_def rows_def row_read_def
      row_offset_def)

lemma version_ops_wf:
  "wf_col c \<Longrightarrow> wf_col (ensure_versions t c)" "wf_col c \<Longrightarrow> wf_col (set_version i t c)"
  "wf_col c \<Longrightarrow> wf_col (column_mark_changed i t c)"
  by (auto simp: ensure_versions_def set_version_def column_mark_changed_def wf_col_def)

lemma column_swap_remove_fields [simp]:
  "c_size (column_swap_remove i c) = c_size c - 1" "c_elem_size (column_swap_remove i c) = c_elem_size c"
  "c_tracking (column_swap_remove i c) = c_tracking c"
  by (simp_all add: column_swap_remove_def Let_def)

lemma column_pop_back_fields [simp]:
  "c_size (column_pop_back c) = c_size c - 1" "c_elem_size (column_pop_back c) = c_elem_size c"
  "c_tracking (column_pop_back c) = c_tracking c"
  by (simp_all add: column_pop_back_def Let_def)

lemma column_swap_remove_wf:
  assumes "wf_col c" "i < c_size c"
  shows "wf_col (column_swap_remove i c)"
proof -
  have "i < c_capacity c" "length (row_read (c_elem_size c) (c_size c - 1) c) = c_elem_size c"
    using assms length_row_read [OF assms(1), of "c_size c - 1"] by (auto simp: wf_col_def)
  then have "wf_col (row_write i (row_read (c_elem_size c) (c_size c - 1) c) c)"
    using wf_row_write [OF assms(1)] by simp
  then show ?thesis
    using assms by (auto simp: column_swap_remove_def Let_def wf_col_def)
qed

lemma column_pop_back_wf: "wf_col c \<Longrightarrow> wf_col (column_pop_back c)"
  by (auto simp: column_pop_back_def Let_def wf_col_def)

lemma rows_shrink:
  "rows (c\<lparr>c_size := c_size c - 1\<rparr>) = butlast (rows c)"
  by (auto simp: rows_def row_read_def row_offset_def butlast_conv_take take_map)

lemma rows_cong:
  "c_data c = c_data d \<Longrightarrow> c_size c = c_size d \<Longrightarrow> c_elem_size c = c_elem_size d \<Longrightarrow>
   c_stride c = c_stride d \<Longrightarrow> rows c = rows d"
  by (simp add: rows_def row_read_def row_offset_def)

lemma column_pop_back_rows [row_simps]: "rows (column_pop_back c) = butlast (rows c)"
proof (cases "c_size c = 0")
  case True
  then show ?thesis by (simp add: column_pop_back_def rows_def)
next
  case False
  then have "rows (column_pop_back c) = rows (c\<lparr>c_size := c_size c - 1\<rparr>)"
    by (intro rows_cong) (simp_all add: column_pop_back_def Let_def)
  then show ?thesis by (simp only: rows_shrink)
qed

lemma column_swap_remove_rows [row_simps]:
  assumes "wf_col c" "i < c_size c"
  shows "rows (column_swap_remove i c) = swap_remove_list i (rows c)"
proof -
  let ?l = "row_read (c_elem_size c) (c_size c - 1) c"
  let ?c1 = "if i + 1 < c_size c then row_write i ?l c else c"
  have l: "length ?l = c_elem_size c" using assms length_row_read [of c "c_size c - 1"] by simp
  have ne: "rows c \<noteq> []" using assms(2) by (metis length_0_conv length_rows not_less_zero)
  have last: "last (rows c) = ?l" using ne assms(2) by (simp add: last_conv_nth)
  have "rows (column_swap_remove i c) = rows (?c1\<lparr>c_size := c_size ?c1 - 1\<rparr>)"
    by (intro rows_cong) (simp_all add: column_swap_remove_def Let_def)
  also have "\<dots> = butlast (rows ?c1)" by (rule rows_shrink)
  also have "\<dots> = swap_remove_list i (rows c)"
  proof (cases "i + 1 < c_size c")
    case True
    then show ?thesis
      using assms l last by (simp add: rows_row_write swap_remove_list_def)
  next
    case False
    then have "i = length (rows c) - 1" using assms(2) by simp
    then show ?thesis using False ne by (simp add: swap_remove_list_last)
  qed
  finally show ?thesis .
qed

lemma column_swap_remove_versions [row_simps]:
  assumes "wf_col c" "i < c_size c" "c_tracking c"
  shows "c_versions (column_swap_remove i c) = swap_remove_list i (c_versions c)"
proof (cases "i + 1 < c_size c")
  case True
  then show ?thesis using assms by (simp add: column_swap_remove_def Let_def swap_remove_list_def)
next
  case False
  then have "i = length (c_versions c) - 1" "c_versions c \<noteq> []" using assms by (auto simp: wf_col_def)
  then show ?thesis using False assms
    by (simp add: column_swap_remove_def Let_def swap_remove_list_last)
qed

section \<open>Aligned allocation\<close>

lemma aligned_base_unat:
  assumes "k < 64" "unat raw + 2 ^ k \<le> 2 ^ 64"
  shows "unat (aligned_base raw (2 ^ k)) = (unat raw + (2 ^ k - 1)) div 2 ^ k * 2 ^ k"
proof -
  obtain p where p: "(2::nat) ^ k = Suc p" by (metis gr0_implies_Suc zero_less_numeral zero_less_power)
  have small: "unat raw + (2 ^ k - 1) < 2 ^ 64" using assms(2) unfolding p by linarith
  have m: "(2 ^ k :: u64) - 1 = mask k" by (simp add: mask_eq_exp_minus_1)
  have "unat (mask k :: u64) = mask k"
    using assms(1) by (intro bit_eqI) (auto simp: bit_unsigned_iff bit_mask_iff)
  then have um: "unat (mask k :: u64) = p" by (simp add: mask_eq_exp_minus_1 p)
  have e: "raw + 2 ^ k - 1 = raw + mask k" by (simp add: m [symmetric])
  have "unat raw + p < 2 ^ 64" using small by (simp add: p)
  then have "unat (raw + 2 ^ k - 1) = unat raw + p"
    unfolding e by (simp add: unat_word_ariths um)
  then have u: "unat (raw + 2 ^ k - 1) = unat raw + (2 ^ k - 1)" by (simp add: p)
  have b: "aligned_base raw (2 ^ k) = push_bit k (drop_bit k (raw + 2 ^ k - 1))"
    unfolding aligned_base_def m by (rule bit_word_eqI) (auto simp: bit_simps)
  have "unat (push_bit k (drop_bit k w)) = take_bit 64 (push_bit k (drop_bit k (take_bit 64 (unat w))))"
    for w :: u64
    by (simp only: unsigned_push_bit_eq unsigned_drop_bit_eq) simp
  then have "unat (aligned_base raw (2 ^ k))
      = take_bit 64 (push_bit k (drop_bit k (take_bit 64 (unat raw + (2 ^ k - 1)))))"
    by (simp only: b u)
  then have "unat (aligned_base raw (2 ^ k)) = take_bit 64 ((unat raw + (2 ^ k - 1)) div 2 ^ k * 2 ^ k)"
    by (simp only: push_bit_eq_mult drop_bit_eq_div take_bit_nat_eq_self [OF small])
  moreover have "(unat raw + (2 ^ k - 1)) div 2 ^ k * 2 ^ k \<le> unat raw + (2 ^ k - 1)"
    by (rule div_times_less_eq_dividend)
  ultimately show ?thesis using small by (simp only: take_bit_nat_eq_self)
qed

section \<open>Properties\<close>

text \<open>
  C14. Rows are aligned and inside their allocation: for a component alignment \<open>2 ^ k\<close> and the
  raw address \<open>raw\<close> that \<open>memalloc(bytes + align)\<close> returned, every row \<open>realloc_to\<close> lays out
  starts at an address divisible by the alignment, at or after \<open>raw\<close>, and ends before the end
  of the allocation.
\<close>

theorem rows_aligned_in_allocation:
  fixes raw :: u64 and h :: heap
  assumes wf: "wf_col c" and al: "c_elem_align c = 2 ^ k" "k < 64"
    and n: "c_size c \<le> n" "i < n"
    and fits: "unat raw + (n * c_stride c + 2 ^ k) \<le> 2 ^ 64"
  defines "c' \<equiv> realloc_to h n c"
  defines "addr \<equiv> unat (aligned_base raw (2 ^ k)) + row_offset c' i"
  shows "2 ^ k dvd addr \<and> unat raw \<le> addr
    \<and> addr + c_elem_size c' \<le> unat raw + (n * c_stride c + 2 ^ k)"
proof -
  let ?b = "(unat raw + (2 ^ k - 1)) div 2 ^ k * 2 ^ k"
  obtain p where p: "(2::nat) ^ k = Suc p" by (metis gr0_implies_Suc zero_less_numeral zero_less_power)
  have b: "unat (aligned_base raw (2 ^ k)) = ?b"
    using fits by (intro aligned_base_unat [OF al(2)]) linarith
  have "?b \<le> unat raw + (2 ^ k - 1)" by (rule div_times_less_eq_dividend)
  then have hi: "?b < unat raw + 2 ^ k" unfolding p by linarith
  have "unat raw + (2 ^ k - 1) < ?b + 2 ^ k"
    by (metis add.commute dividend_less_times_div mult.commute mult_Suc_right zero_less_numeral zero_less_power)
  then have lo: "unat raw \<le> ?b" unfolding p by linarith
  have wf': "wf_col c'" unfolding c'_def by (rule realloc_wf [OF wf n(1)])
  have "row_offset c' i + c_elem_size c' \<le> n * c_stride c"
    using row_end [OF wf', of i] n realloc_data(1) [OF wf n(1), of h] by (simp add: c'_def)
  moreover have "2 ^ k dvd row_offset c' i"
    using wf' al(1) by (simp add: row_offset_def wf_col_def c'_def)
  ultimately show ?thesis using hi lo b by (simp add: addr_def)
qed

theorem rows_aligned_in_allocation_witness:
  "let c = column_init 12 16 empty_column;
       addr = unat (aligned_base 0x1003 16) + row_offset (realloc_to (\<lambda>n k. 0) 8 c) 3
   in addr = 0x1010 + 48 \<and> 16 dvd addr"
proof -
  let ?c = "column_init 12 16 empty_column"
  have "2 ^ 4 dvd unat (aligned_base 0x1003 (2 ^ 4)) + row_offset (realloc_to (\<lambda>n k. 0) 8 ?c) 3"
    using rows_aligned_in_allocation [of ?c 4 8 3 "0x1003" "\<lambda>n k. 0"] column_init_wf [of 12 16 empty_column]
    by (simp add: column_init_def Let_def free_buf_def empty_column_def)
  moreover have "unat (aligned_base 0x1003 16) = 0x1010" by (simp add: aligned_base_def)
  ultimately show ?thesis
    by (simp add: Let_def row_offset_def column_init_def free_buf_def empty_column_def)
qed

text \<open>
  C15. A column is a sequence of rows: on a well-formed column \<open>append\<close> adds a row at the end
  (reallocating or not), \<open>swap_remove\<close> replaces row \<open>i\<close> by the last one and drops the last,
  \<open>pop_back\<close> and \<open>clear\<close> shorten it, and the result is well formed; the versions of a tracked
  column move with their rows.
\<close>

theorem column_implements_list:
  assumes wf: "wf_col c" and i: "i < c_size c" and src: "length src = c_elem_size c"
  shows "wf_col (column_append h src c) \<and> rows (column_append h src c) = rows c @ [src]
    \<and> wf_col (column_swap_remove i c) \<and> rows (column_swap_remove i c) = swap_remove_list i (rows c)
    \<and> (c_tracking c \<longrightarrow> c_versions (column_swap_remove i c) = swap_remove_list i (c_versions c))
    \<and> wf_col (column_pop_back c) \<and> rows (column_pop_back c) = butlast (rows c)
    \<and> wf_col (column_clear c) \<and> rows (column_clear c) = []"
proof -
  have g: "wf_col (grow h c)" by (rule grow_wf [OF wf])
  have a: "column_append h src c = row_write (c_size c) src (grow h c)"
    using src by (simp add: column_append_def Let_def)
  have cap: "c_size c < c_capacity (grow h c)" using g by (simp add: wf_col_def)
  have "wf_col (column_append h src c)"
    unfolding a by (rule wf_row_write [OF g cap]) (simp add: src)
  moreover have "rows (column_append h src c) = rows c @ [src]"
    unfolding a using g src by (simp add: rows_row_write grow_rows [OF wf] list_update_append)
  moreover have "wf_col (column_clear c) \<and> rows (column_clear c) = []"
    using wf by (auto simp: column_clear_def Let_def wf_col_def rows_def)
  ultimately show ?thesis
    using column_swap_remove_wf [OF wf i] column_pop_back_wf [OF wf]
    by (simp add: column_swap_remove_rows column_swap_remove_versions column_pop_back_rows wf i)
qed

definition demo_column :: column where
  "demo_column = column_append (\<lambda>n k. 7) [5, 6] (column_append (\<lambda>n k. 7) [3, 4]
     (column_append (\<lambda>n k. 7) [1, 2] (column_init 2 4 empty_column)))"

theorem column_implements_list_witness:
  "rows demo_column = [[1, 2], [3, 4], [5, 6]]
   \<and> rows (column_swap_remove 0 demo_column) = [[5, 6], [3, 4]]"
proof -
  have wf: "wf_col demo_column"
    unfolding demo_column_def column_append_def Let_def
    by (simp add: wf_col_def row_write_def grow_def realloc_to_def Let_def column_init_def free_buf_def
        empty_column_def row_offset_def mem_write_def mem_read_def)
  have r: "rows demo_column = [[1, 2], [3, 4], [5, 6]]" by code_simp
  have "c_size demo_column = 3" "c_elem_size demo_column = 2" by code_simp+
  then show ?thesis
    using column_implements_list [OF wf, of 0 "[0, 0]" "\<lambda>n k. 7"] r
    by (simp add: swap_remove_list_def)
qed

end
