(* ===== verification/EntityId.thy ===== *)
theory EntityId
  imports Prelude
begin

text \<open>
  \<open>src/core/entity.h\<close> and the id layout used by \<open>World::_alloc_entity_id\<close>: a 64-bit handle
  holding \<open>slot + 1\<close> in the low half and the generation in the high half; id 0 is "no entity".
\<close>

unbundle bit_operations_syntax

datatype entity = Entity (eid: u64)

definition null_entity :: entity where
  "null_entity = Entity 0"

definition entity_bool :: "entity \<Rightarrow> bool" where
  "entity_bool e \<longleftrightarrow> eid e \<noteq> 0"

definition slot :: "entity \<Rightarrow> u32" where
  "slot e = ucast (eid e AND 0xFFFFFFFF) - 1"

definition generation :: "entity \<Rightarrow> u32" where
  "generation e = ucast (drop_bit 32 (eid e))"

text \<open>The expression \<open>_alloc_entity_id\<close> returns.\<close>

definition make_entity :: "u32 \<Rightarrow> u32 \<Rightarrow> entity" where
  "make_entity idx gen = Entity ((ucast idx + 1) OR push_bit 32 (ucast gen))"

text \<open>Handles are ordered by their id (\<open>ChangeView::take\<close> sorts its result so).\<close>

instantiation entity :: linorder
begin

definition less_eq_entity :: "entity \<Rightarrow> entity \<Rightarrow> bool" where
  "less_eq_entity a b \<longleftrightarrow> eid a \<le> eid b"

definition less_entity :: "entity \<Rightarrow> entity \<Rightarrow> bool" where
  "less_entity a b \<longleftrightarrow> eid a < eid b"

instance
  by standard (auto simp: less_eq_entity_def less_entity_def entity.expand)

end

section \<open>Packing and unpacking\<close>

lemma entity_bool_iff: "entity_bool e \<longleftrightarrow> e \<noteq> null_entity"
  by (cases e) (simp add: entity_bool_def null_entity_def)

lemma not_entity_bool_null [simp]: "\<not> entity_bool null_entity"
  by (simp add: entity_bool_iff)

lemma low_half: "(ucast (v AND 0xFFFFFFFF) :: u32) = ucast (v :: u64)"
proof -
  have "v AND 0xFFFFFFFF = take_bit 32 v" by (simp add: take_bit_eq_mask mask_eq_exp_minus_1)
  then show ?thesis by (auto intro!: bit_word_eqI simp: bit_simps)
qed

lemma ucast_succ: "idx \<noteq> 0xFFFFFFFF \<Longrightarrow> (ucast (idx :: u32) + 1 :: u64) = ucast (idx + 1)"
proof -
  assume "idx \<noteq> 0xFFFFFFFF"
  then have "unat idx \<noteq> 4294967295" by (auto simp: word_unat_eq_iff)
  moreover have "unat idx < 4294967296" using unsigned_less [of idx] by simp
  ultimately have lt: "unat idx + 1 < 4294967296" by linarith
  have 1: "unat (idx + 1) = unat idx + 1"
    using lt by (simp add: unat_word_ariths)
  have "unat (ucast idx + 1 :: u64) = unat idx + 1"
    using lt by (simp add: unat_word_ariths unsigned_ucast_eq take_bit_nat_eq_self)
  then show ?thesis using 1 lt by (simp add: word_unat_eq_iff unsigned_ucast_eq take_bit_nat_eq_self)
qed

lemma make_entity_fields:
  assumes "idx \<noteq> 0xFFFFFFFF"
  shows "slot (make_entity idx gen) = idx" "generation (make_entity idx gen) = gen"
proof -
  have e: "eid (make_entity idx gen) = ucast (idx + 1) OR push_bit 32 (ucast gen)"
    using assms by (simp add: make_entity_def ucast_succ)
  have "(ucast (eid (make_entity idx gen)) :: u32) = idx + 1"
    unfolding e by (rule bit_word_eqI) (auto simp: bit_simps)
  then show "slot (make_entity idx gen) = idx"
    by (simp add: slot_def low_half)
  show "generation (make_entity idx gen) = gen"
    unfolding generation_def e
    by (rule bit_word_eqI) (auto simp: bit_simps dest: bit_imp_le_length)
qed

lemma make_entity_of_fields:
  assumes "slot e \<noteq> 0xFFFFFFFF"
  shows "make_entity (slot e) (generation e) = e"
proof -
  have s: "slot e + 1 = ucast (eid e)" by (simp add: slot_def low_half)
  have "(ucast (slot e) + 1 :: u64) OR push_bit 32 (ucast (generation e)) = eid e"
    unfolding ucast_succ [OF assms] s generation_def
    by (rule bit_word_eqI) (auto simp: bit_simps)
  then show ?thesis by (simp add: make_entity_def)
qed

lemma slot_null: "slot null_entity = 0xFFFFFFFF"
  by (simp add: slot_def null_entity_def)

lemma entity_bool_slot: "slot e \<noteq> 0xFFFFFFFF \<Longrightarrow> entity_bool e"
  using slot_null by (auto simp: entity_bool_iff)

lemma make_entity_bool: "idx \<noteq> 0xFFFFFFFF \<Longrightarrow> entity_bool (make_entity idx gen)"
  by (rule entity_bool_slot) (simp add: make_entity_fields)

lemma entity_eq_fields:
  "slot e \<noteq> 0xFFFFFFFF \<Longrightarrow> slot e = slot f \<Longrightarrow> generation e = generation f \<Longrightarrow> e = f"
  using make_entity_of_fields by metis

end
