(* ===== verification/Archetype.thy ===== *)
theory Archetype
  imports Column EntityId
begin

text \<open>
  \<open>src/core/archetype.{h,cpp}\<close> and the \<open>Query\<close> of \<open>src/core/query.{h,cpp}\<close>: one archetype holds
  the entities with exactly one component set, a column per component type, and the row of
  every entity. Row numbers are natural numbers (the \<open>uint32_t\<close> of the code overflows only past
  \<open>2 ^ 32\<close> rows). The lemmas describe every operation by what it does to the entity list, to the
  rows of the columns and to the enabled flags.
\<close>

unbundle bit_operations_syntax

section \<open>Queries\<close>

record query =
  q_all :: "ctype list"
  q_any :: "ctype list"
  q_none :: "ctype list"

text \<open>One step of FNV-1a and the hash of one component id, byte by byte from the low end.\<close>

definition fnv_step :: "u64 \<Rightarrow> u64 \<Rightarrow> u64" where
  "fnv_step h x = (h XOR x) * 1099511628211"

definition fnv_id :: "ctype \<Rightarrow> u64 \<Rightarrow> u64" where
  "fnv_id v h = fnv_step (fnv_step (fnv_step (fnv_step h
      (ucast (v AND 0xFF)))
      (ucast (drop_bit 8 v AND 0xFF)))
      (ucast (drop_bit 16 v AND 0xFF)))
      (ucast (drop_bit 24 v AND 0xFF))"

definition fnv_mix :: "ctype list \<Rightarrow> u64 \<Rightarrow> u64 \<Rightarrow> u64" where
  "fnv_mix ids p_tag h = fold fnv_id ids (fnv_step h p_tag)"

definition membership_signature :: "query \<Rightarrow> u64" where
  "membership_signature q =
     fnv_mix (q_none q) 3 (fnv_mix (q_any q) 2 (fnv_mix (q_all q) 1 14695981039346656037))"

section \<open>Archetypes\<close>

record archetype =
  a_signature :: u64
  a_component_ids :: "ctype list"
  a_entities :: "entity list"
  a_columns :: "column list"
  a_enabled :: "byte list"
  a_entity_to_row :: "entity \<rightharpoonup> nat"

definition empty_arch :: archetype where
  "empty_arch = \<lparr>a_signature = 0, a_component_ids = [], a_entities = [], a_columns = [],
     a_enabled = [], a_entity_to_row = Map.empty\<rparr>"

text \<open>\<open>std::lower_bound\<close> on the sorted ids: the position of the first element not below \<open>p_t\<close>.\<close>

definition lower_bound :: "ctype list \<Rightarrow> ctype \<Rightarrow> nat" where
  "lower_bound ids p_t = length (takeWhile (\<lambda>x. x < p_t) ids)"

definition has_component :: "archetype \<Rightarrow> ctype \<Rightarrow> bool" where
  "has_component a p_t =
     (let i = lower_bound (a_component_ids a) p_t
      in i < length (a_component_ids a) \<and> \<not> p_t < a_component_ids a ! i)"

text \<open>\<open>None\<close> is the code's \<open>SIZE_MAX\<close>.\<close>

definition column_index :: "archetype \<Rightarrow> ctype \<Rightarrow> nat option" where
  "column_index a p_t =
     (let i = lower_bound (a_component_ids a) p_t
      in if i = length (a_component_ids a) \<or> a_component_ids a ! i \<noteq> p_t then None else Some i)"

text \<open>\<open>column(t)\<close> is a reference: its callers guard with \<open>has_component\<close> (\<open>DEV_ASSERT\<close>).\<close>

definition column_of :: "archetype \<Rightarrow> ctype \<Rightarrow> column" where
  "column_of a p_t = a_columns a ! the (column_index a p_t)"

definition update_column :: "ctype \<Rightarrow> (column \<Rightarrow> column) \<Rightarrow> archetype \<Rightarrow> archetype" where
  "update_column p_t f a = a\<lparr>a_columns := (a_columns a)[the (column_index a p_t) := f (column_of a p_t)]\<rparr>"

definition grow_stamped :: "heap \<Rightarrow> nat \<Rightarrow> u64 \<Rightarrow> column \<Rightarrow> column" where
  "grow_stamped heap row p_change_tick col =
     (let c = grow heap col in if c_tracking c then set_version row p_change_tick c else c)"

definition arch_add_entity :: "heap \<Rightarrow> entity \<Rightarrow> u64 \<Rightarrow> archetype \<Rightarrow> nat \<times> archetype" where
  "arch_add_entity heap p_e p_change_tick a =
     (let row = length (a_entities a)
      in (row, a\<lparr>a_entities := a_entities a @ [p_e],
                 a_enabled := a_enabled a @ [1],
                 a_columns := map (grow_stamped heap row p_change_tick) (a_columns a),
                 a_entity_to_row := (a_entity_to_row a)(p_e \<mapsto> row)\<rparr>))"

definition arch_remove_entity :: "entity \<Rightarrow> archetype \<Rightarrow> entity \<times> archetype" where
  "arch_remove_entity p_e a =
     (case a_entity_to_row a p_e of
        None \<Rightarrow> (null_entity, a)
      | Some row \<Rightarrow>
         (let a1 = a\<lparr>a_entity_to_row := (a_entity_to_row a)(p_e := None)\<rparr>;
              last_row = length (a_entities a1) - 1;
              (moved, a2) =
                (if row \<noteq> last_row then
                   (let moved = a_entities a1 ! last_row
                    in (moved, a1\<lparr>a_entities := (a_entities a1)[row := moved],
                                  a_entity_to_row := (a_entity_to_row a1)(moved \<mapsto> row),
                                  a_columns := map (column_swap_remove row) (a_columns a1),
                                  a_enabled := (a_enabled a1)[row := a_enabled a1 ! last_row]\<rparr>))
                 else (null_entity, a1\<lparr>a_columns := map column_pop_back (a_columns a1)\<rparr>))
          in (moved, a2\<lparr>a_entities := butlast (a_entities a2), a_enabled := butlast (a_enabled a2)\<rparr>)))"

definition arch_set_enabled :: "nat \<Rightarrow> bool \<Rightarrow> archetype \<Rightarrow> archetype" where
  "arch_set_enabled p_row p_on a =
     (if p_row < length (a_enabled a)
      then a\<lparr>a_enabled := (a_enabled a)[p_row := (if p_on then 1 else 0)]\<rparr> else a)"

definition arch_get_enabled :: "nat \<Rightarrow> archetype \<Rightarrow> bool" where
  "arch_get_enabled p_row a \<longleftrightarrow> p_row < length (a_enabled a) \<and> a_enabled a ! p_row \<noteq> 0"

definition arch_matches :: "archetype \<Rightarrow> query \<Rightarrow> bool" where
  "arch_matches a p_q =
     (if list_ex (\<lambda>t. \<not> has_component a t) (q_all p_q) then False
      else if q_any p_q \<noteq> [] \<and> \<not> list_ex (has_component a) (q_any p_q) then False
      else if list_ex (has_component a) (q_none p_q) then False
      else True)"

definition query_matches :: "query \<Rightarrow> archetype \<Rightarrow> bool" where
  "query_matches q p_a =
     (if list_ex (\<lambda>t. \<not> has_component p_a t) (q_all q) then False
      else if q_any q \<noteq> [] \<and> \<not> list_ex (has_component p_a) (q_any q) then False
      else if list_ex (has_component p_a) (q_none q) then False
      else True)"

section \<open>Invariant\<close>

definition wf_arch :: "archetype \<Rightarrow> bool" where
  "wf_arch a \<longleftrightarrow>
     sorted_wrt (<) (a_component_ids a)
   \<and> length (a_columns a) = length (a_component_ids a)
   \<and> (\<forall>c\<in>set (a_columns a). wf_col c \<and> c_size c = length (a_entities a))
   \<and> length (a_enabled a) = length (a_entities a)
   \<and> distinct (a_entities a) \<and> null_entity \<notin> set (a_entities a)
   \<and> (\<forall>e r. a_entity_to_row a e = Some r \<longleftrightarrow> r < length (a_entities a) \<and> a_entities a ! r = e)"

lemma wf_archD:
  assumes "wf_arch a"
  shows "sorted_wrt (<) (a_component_ids a)" "length (a_columns a) = length (a_component_ids a)"
    "c \<in> set (a_columns a) \<Longrightarrow> wf_col c" "c \<in> set (a_columns a) \<Longrightarrow> c_size c = length (a_entities a)"
    "length (a_enabled a) = length (a_entities a)" "distinct (a_entities a)"
    "null_entity \<notin> set (a_entities a)"
    "a_entity_to_row a e = Some r \<longleftrightarrow> r < length (a_entities a) \<and> a_entities a ! r = e"
  using assms by (auto simp: wf_arch_def)

lemma takeWhile_sorted_less:
  assumes "sorted_wrt (<) (xs :: 'a::linorder list)" "i < length xs" "xs ! i = t"
  shows "length (takeWhile (\<lambda>x. x < t) xs) = i"
  using assms
proof (induction xs arbitrary: i)
  case Nil
  then show ?case by simp
next
  case (Cons x xs)
  show ?case
  proof (cases i)
    case 0
    then show ?thesis using Cons.prems by simp
  next
    case (Suc j)
    then have "x < t" using Cons.prems nth_mem [of j xs] by auto
    then show ?thesis using Cons.IH [of j] Cons.prems Suc by simp
  qed
qed

lemma lower_bound_nth:
  "sorted_wrt (<) ids \<Longrightarrow> i < length ids \<Longrightarrow> ids ! i = t \<Longrightarrow> lower_bound ids t = i"
  unfolding lower_bound_def by (rule takeWhile_sorted_less)

lemma lower_bound_le: "lower_bound ids t \<le> length ids"
  unfolding lower_bound_def by (rule length_takeWhile_le)

lemma lower_bound_not_less: "lower_bound ids t < length ids \<Longrightarrow> \<not> ids ! lower_bound ids t < t"
  unfolding lower_bound_def using nth_length_takeWhile by fastforce

lemma column_index_iff:
  assumes "sorted_wrt (<) (a_component_ids a)"
  shows "column_index a t = Some i \<longleftrightarrow> i < length (a_component_ids a) \<and> a_component_ids a ! i = t"
  using lower_bound_nth [OF assms, of i t] lower_bound_le [of "a_component_ids a" t]
  by (auto simp: column_index_def Let_def)

lemma column_index_None:
  assumes "sorted_wrt (<) (a_component_ids a)"
  shows "column_index a t = None \<longleftrightarrow> t \<notin> set (a_component_ids a)"
proof (cases "column_index a t")
  case None
  then have "\<not> (i < length (a_component_ids a) \<and> a_component_ids a ! i = t)" for i
    using column_index_iff [OF assms, of t i] by simp
  then show ?thesis using None by (auto simp: in_set_conv_nth)
next
  case (Some i)
  then show ?thesis using column_index_iff [OF assms, of t i] nth_mem by fastforce
qed

lemma has_component_iff:
  assumes "sorted_wrt (<) (a_component_ids a)"
  shows "has_component a t \<longleftrightarrow> t \<in> set (a_component_ids a)"
proof
  assume h: "has_component a t"
  let ?i = "lower_bound (a_component_ids a) t"
  have "?i < length (a_component_ids a)" "\<not> t < a_component_ids a ! ?i"
    using h by (auto simp: has_component_def Let_def)
  moreover from this have "\<not> a_component_ids a ! ?i < t" by (intro lower_bound_not_less)
  ultimately have "a_component_ids a ! ?i = t" by simp
  then show "t \<in> set (a_component_ids a)" using \<open>?i < _\<close> by (metis nth_mem)
next
  assume "t \<in> set (a_component_ids a)"
  then obtain i where i: "i < length (a_component_ids a)" "a_component_ids a ! i = t"
    by (auto simp: in_set_conv_nth)
  then show "has_component a t"
    using lower_bound_nth [OF assms i] by (simp add: has_component_def Let_def)
qed

lemma has_component_index:
  "sorted_wrt (<) (a_component_ids a) \<Longrightarrow> has_component a t \<longleftrightarrow> column_index a t \<noteq> None"
  by (simp add: has_component_iff column_index_None)

text \<open>The two matching functions agree, and say what the query means.\<close>

lemma query_matches_arch: "query_matches q a = arch_matches a q"
  by (simp add: query_matches_def arch_matches_def)

lemma arch_matches_iff:
  assumes "sorted_wrt (<) (a_component_ids a)"
  shows "arch_matches a q \<longleftrightarrow> set (q_all q) \<subseteq> set (a_component_ids a)
    \<and> (q_any q = [] \<or> set (q_any q) \<inter> set (a_component_ids a) \<noteq> {})
    \<and> set (q_none q) \<inter> set (a_component_ids a) = {}"
  by (auto simp: arch_matches_def list_ex_iff has_component_iff [OF assms])

section \<open>Adding and removing entities\<close>

lemma grow_stamped_fields [simp]:
  "c_size (grow_stamped h r t c) = c_size c + 1" "c_elem_size (grow_stamped h r t c) = c_elem_size c"
  "c_tracking (grow_stamped h r t c) = c_tracking c"
  by (simp_all add: grow_stamped_def Let_def)

lemma grow_stamped_wf: "wf_col c \<Longrightarrow> wf_col (grow_stamped h r t c)"
  by (simp add: grow_stamped_def Let_def grow_wf version_ops_wf)

lemma grow_stamped_rows:
  "wf_col c \<Longrightarrow> \<exists>x. rows (grow_stamped h r t c) = rows c @ [x] \<and> length x = c_elem_size c"
proof -
  assume wf: "wf_col c"
  let ?x = "row_read (c_elem_size c) (c_size c) (grow h c)"
  have "length ?x = c_elem_size c"
    using length_row_read [OF grow_wf [OF wf], of "c_size c" h] by simp
  then show ?thesis
    by (intro exI [where x = ?x]) (simp add: grow_stamped_def Let_def grow_rows [OF wf])
qed

lemma arch_add_entity_fields [simp]:
  "fst (arch_add_entity h e t a) = length (a_entities a)"
  "a_component_ids (snd (arch_add_entity h e t a)) = a_component_ids a"
  "a_signature (snd (arch_add_entity h e t a)) = a_signature a"
  "a_entities (snd (arch_add_entity h e t a)) = a_entities a @ [e]"
  "a_columns (snd (arch_add_entity h e t a)) = map (grow_stamped h (length (a_entities a)) t) (a_columns a)"
  "a_enabled (snd (arch_add_entity h e t a)) = a_enabled a @ [1]"
  "a_entity_to_row (snd (arch_add_entity h e t a)) = (a_entity_to_row a)(e \<mapsto> length (a_entities a))"
  by (simp_all add: arch_add_entity_def Let_def)

lemma arch_add_entity_wf:
  assumes wf: "wf_arch a" and e: "e \<notin> set (a_entities a)" "e \<noteq> null_entity"
  shows "wf_arch (snd (arch_add_entity h e t a))"
proof -
  have "(a_entity_to_row a)(e \<mapsto> length (a_entities a)) = (\<lambda>x. if x = e then Some (length (a_entities a)) else a_entity_to_row a x)"
    by auto
  moreover have "a_entity_to_row a x = Some r \<Longrightarrow> r < length (a_entities a) \<and> a_entities a ! r = x" for x r
    using wf_archD(8) [OF wf] by blast
  ultimately show ?thesis
    using wf e unfolding wf_arch_def
    by (auto simp: grow_stamped_wf nth_append less_Suc_eq)
qed

definition moved_by :: "nat \<Rightarrow> entity list \<Rightarrow> entity" where
  "moved_by row es = (if row = length es - 1 then null_entity else last es)"

lemma arch_remove_entity_eq:
  assumes wf: "wf_arch a" and r: "a_entity_to_row a e = Some row"
  defines "a' \<equiv> snd (arch_remove_entity e a)"
  shows "fst (arch_remove_entity e a) = moved_by row (a_entities a)"
    "a_component_ids a' = a_component_ids a" "a_signature a' = a_signature a"
    "a_entities a' = swap_remove_list row (a_entities a)"
    "a_enabled a' = swap_remove_list row (a_enabled a)"
    "length (a_columns a') = length (a_columns a)"
    "j < length (a_columns a) \<Longrightarrow> rows (a_columns a' ! j) = swap_remove_list row (rows (a_columns a ! j))"
    "j < length (a_columns a) \<Longrightarrow> wf_col (a_columns a' ! j)"
    "j < length (a_columns a) \<Longrightarrow> c_elem_size (a_columns a' ! j) = c_elem_size (a_columns a ! j)"
    "j < length (a_columns a) \<Longrightarrow> c_size (a_columns a' ! j) = c_size (a_columns a ! j) - 1"
    "a_entity_to_row a' = (if row = length (a_entities a) - 1 then (a_entity_to_row a)(e := None)
       else (a_entity_to_row a)(e := None, last (a_entities a) \<mapsto> row))"
proof -
  have row: "row < length (a_entities a)" "a_entities a ! row = e"
    using r wf_archD(8) [OF wf] by auto
  have ne: "a_entities a \<noteq> []" "a_enabled a \<noteq> []" using row wf_archD(5) [OF wf] by auto
  have len: "length (a_enabled a) = length (a_entities a)" by (rule wf_archD(5) [OF wf])
  note d = arch_remove_entity_def Let_def r a'_def moved_by_def swap_remove_list_def last_conv_nth
  show "fst (arch_remove_entity e a) = moved_by row (a_entities a)"
    "a_component_ids a' = a_component_ids a" "a_signature a' = a_signature a"
    "length (a_columns a') = length (a_columns a)"
    "a_entity_to_row a' = (if row = length (a_entities a) - 1 then (a_entity_to_row a)(e := None)
       else (a_entity_to_row a)(e := None, last (a_entities a) \<mapsto> row))"
    using ne by (simp_all add: d)
  show "a_entities a' = swap_remove_list row (a_entities a)"
    using ne row by (auto simp: d list_update_id)
  show "a_enabled a' = swap_remove_list row (a_enabled a)"
    using ne row len by (auto simp: d list_update_id)
  assume j: "j < length (a_columns a)"
  let ?c = "a_columns a ! j"
  have c: "wf_col ?c" "c_size ?c = length (a_entities a)"
    using wf_archD(3,4) [OF wf] j by auto
  then have lc: "row < c_size ?c" using row by simp
  have e: "a_columns a' ! j = (if row = length (a_entities a) - 1 then column_pop_back ?c else column_swap_remove row ?c)"
    using j by (simp add: arch_remove_entity_def Let_def r a'_def)
  have "rows ?c \<noteq> []" using lc by (metis length_0_conv length_rows not_less_zero)
  then show "rows (a_columns a' ! j) = swap_remove_list row (rows ?c)"
    using c lc e by (simp add: column_swap_remove_rows column_pop_back_rows swap_remove_list_last)
  show "wf_col (a_columns a' ! j)"
    using e c lc by (simp add: column_pop_back_wf column_swap_remove_wf)
  show "c_elem_size (a_columns a' ! j) = c_elem_size ?c" "c_size (a_columns a' ! j) = c_size ?c - 1"
    using e by simp_all
qed

text \<open>The row of an entity in the column of type \<open>t\<close>, if both exist.\<close>

definition cell :: "archetype \<Rightarrow> ctype \<Rightarrow> entity \<Rightarrow> byte list option" where
  "cell a t e = (case column_index a t of None \<Rightarrow> None | Some j \<Rightarrow>
     (case a_entity_to_row a e of None \<Rightarrow> None | Some r \<Rightarrow> Some (rows (a_columns a ! j) ! r)))"

definition enabled_of :: "archetype \<Rightarrow> entity \<Rightarrow> bool option" where
  "enabled_of a e = map_option (\<lambda>r. arch_get_enabled r a) (a_entity_to_row a e)"

lemma index_column:
  assumes "wf_arch a" "column_index a t = Some j"
  shows "j < length (a_columns a)" "j < length (a_component_ids a)" "a_component_ids a ! j = t"
    "wf_col (a_columns a ! j)" "c_size (a_columns a ! j) = length (a_entities a)"
    "length (rows (a_columns a ! j)) = length (a_entities a)"
  using assms column_index_iff [OF wf_archD(1) [OF assms(1)], of t j] wf_archD(2-4) [OF assms(1)]
  by auto

lemma column_index_cong: "a_component_ids a = a_component_ids b \<Longrightarrow> column_index a t = column_index b t"
  by (simp add: column_index_def)

lemma has_component_cong: "a_component_ids a = a_component_ids b \<Longrightarrow> has_component a t = has_component b t"
  by (simp add: has_component_def)

lemma moved_by_neq: "row \<noteq> length es - 1 \<Longrightarrow> moved_by row es = last es"
  by (simp add: moved_by_def)

lemma arch_remove_e2r:
  assumes wf: "wf_arch a" and r: "a_entity_to_row a e = Some row"
  shows "a_entity_to_row (snd (arch_remove_entity e a)) x =
    (if x = e then None else if x = moved_by row (a_entities a) \<and> x \<noteq> null_entity then Some row
     else a_entity_to_row a x)"
proof -
  have row: "row < length (a_entities a)" "a_entities a ! row = e"
    using r wf_archD(8) [OF wf] by auto
  have ne: "a_entities a \<noteq> []" using row by auto
  have last: "row \<noteq> length (a_entities a) - 1 \<Longrightarrow> last (a_entities a) \<noteq> e"
    using row ne wf_archD(6) [OF wf] by (auto simp: last_conv_nth nth_eq_iff_index_eq)
  have lastn: "last (a_entities a) \<noteq> null_entity"
    using wf_archD(7) [OF wf] last_in_set [OF ne] by metis
  show ?thesis
    unfolding arch_remove_entity_eq(11) [OF wf r]
    using last lastn by (auto simp: moved_by_def)
qed

lemma arch_remove_entity_wf:
  assumes wf: "wf_arch a"
  shows "wf_arch (snd (arch_remove_entity e a))"
proof (cases "a_entity_to_row a e")
  case None
  then show ?thesis using wf by (simp add: arch_remove_entity_def)
next
  case (Some row)
  let ?a = "snd (arch_remove_entity e a)"
  note q = arch_remove_entity_eq [OF wf Some]
  have row: "row < length (a_entities a)" "a_entities a ! row = e"
    using Some wf_archD(8) [OF wf] by auto
  have len: "length (a_entities ?a) = length (a_entities a) - 1" by (simp add: q(4) length_swap_remove_list)
  have nth: "a_entities ?a ! k = (if k = row then last (a_entities a) else a_entities a ! k)"
    if "k < length (a_entities a) - 1" for k
    using row that last_conv_nth [of "a_entities a"] by (cases "a_entities a = []") (auto simp: q(4) nth_swap_remove_list last_conv_nth)
  have set: "set (a_entities ?a) = set (a_entities a) - {e}"
    unfolding q(4) using set_swap_remove_list [OF wf_archD(6) [OF wf] row(1)] row(2) by simp
  have dist: "distinct (a_entities ?a)"
    unfolding q(4) by (rule distinct_swap_remove_list [OF wf_archD(6) [OF wf] row(1)])
  have cols: "wf_col c \<and> c_size c = length (a_entities ?a)" if "c \<in> set (a_columns ?a)" for c
  proof -
    obtain j where j: "j < length (a_columns a)" "c = a_columns ?a ! j"
      using \<open>c \<in> set (a_columns ?a)\<close> q(6) by (auto simp: in_set_conv_nth)
    then show ?thesis
      using q(8) [OF j(1)] q(10) [OF j(1)] wf_archD(4) [OF wf, of "a_columns a ! j"] len by simp
  qed
  have sound: "k < length (a_entities ?a) \<and> a_entities ?a ! k = x" if h: "a_entity_to_row ?a x = Some k" for x k
  proof -
    have xe: "x \<noteq> e" using h unfolding arch_remove_e2r [OF wf Some] by auto
    show ?thesis
    proof (cases "x = moved_by row (a_entities a) \<and> x \<noteq> null_entity")
      case True
      then have "k = row" "row \<noteq> length (a_entities a) - 1"
        using h xe unfolding arch_remove_e2r [OF wf Some] by (auto simp: moved_by_def)
      then show ?thesis using row nth [of row] len True by (simp add: moved_by_def)
    next
      case False
      then have "a_entity_to_row a x = Some k"
        using h xe unfolding arch_remove_e2r [OF wf Some] by auto
      then have k: "k < length (a_entities a)" "a_entities a ! k = x" using wf_archD(8) [OF wf] by auto
      have kr: "k \<noteq> row" using k row xe by auto
      have "x \<in> set (a_entities a)" using k nth_mem by metis
      then have "x \<noteq> null_entity" using wf_archD(7) [OF wf] by metis
      moreover have "k \<noteq> length (a_entities a) - 1"
      proof
        assume e: "k = length (a_entities a) - 1"
        have "last (a_entities a) = x" using k(1) unfolding k(2) [symmetric] e by (intro last_conv_nth) auto
        then have "moved_by row (a_entities a) = x" using e kr by (simp add: moved_by_def)
        then show False using False \<open>x \<noteq> null_entity\<close> by simp
      qed
      ultimately show ?thesis using k kr nth [of k] len by auto
    qed
  qed
  have e2r: "a_entity_to_row ?a x = Some k \<longleftrightarrow> k < length (a_entities ?a) \<and> a_entities ?a ! k = x" for x k
  proof
    assume h: "k < length (a_entities ?a) \<and> a_entities ?a ! k = x"
    then have "x \<in> set (a_entities a)" "x \<noteq> e" using set nth_mem [of k "a_entities ?a"] by auto
    moreover from this obtain k' where "a_entity_to_row a x = Some k'"
      using wf_archD(8) [OF wf] by (metis in_set_conv_nth)
    ultimately obtain m where m: "a_entity_to_row ?a x = Some m"
      using arch_remove_e2r [OF wf Some, of x] by (cases "x = moved_by row (a_entities a) \<and> x \<noteq> null_entity") auto
    then have "m = k" using h sound [OF m] nth_eq_iff_index_eq [OF dist, of m k] by metis
    then show "a_entity_to_row ?a x = Some k" using m by simp
  qed (rule sound)
  show ?thesis
    unfolding wf_arch_def e2r
    using wf_archD [OF wf] q(2,6) cols dist set by (auto simp: q(5) length_swap_remove_list len)
qed

lemma arch_add_cell:
  assumes wf: "wf_arch a" and e: "e \<notin> set (a_entities a)"
  shows "x \<noteq> e \<Longrightarrow> cell (snd (arch_add_entity h e t a)) u x = cell a u x"
    and "x \<noteq> e \<Longrightarrow> enabled_of (snd (arch_add_entity h e t a)) x = enabled_of a x"
proof -
  let ?a = "snd (arch_add_entity h e t a)"
  have ids: "column_index ?a u = column_index a u" by (rule column_index_cong) simp
  have old: "r < length (a_entities a)" if "a_entity_to_row a x = Some r" for r
    using that wf_archD(8) [OF wf] by blast
  have row: "rows (a_columns ?a ! j) ! r = rows (a_columns a ! j) ! r"
    if "column_index a u = Some j" "r < length (a_entities a)" for j r
  proof -
    note i = index_column [OF wf that(1)]
    obtain y where "rows (grow_stamped h (length (a_entities a)) t (a_columns a ! j)) = rows (a_columns a ! j) @ [y]"
      using grow_stamped_rows [OF i(4)] by blast
    then show ?thesis using i that(2) by (simp add: nth_append)
  qed
  show "x \<noteq> e \<Longrightarrow> cell ?a u x = cell a u x"
    using row old by (simp add: cell_def ids split: option.splits)
  show "x \<noteq> e \<Longrightarrow> enabled_of ?a x = enabled_of a x"
    using old wf_archD(5) [OF wf]
    by (cases "a_entity_to_row a x") (auto simp: enabled_of_def arch_get_enabled_def nth_append)
qed

lemma arch_remove_cell:
  assumes wf: "wf_arch a" and r: "a_entity_to_row a e = Some row" and x: "x \<noteq> e"
  shows "cell (snd (arch_remove_entity e a)) u x = cell a u x"
    and "enabled_of (snd (arch_remove_entity e a)) x = enabled_of a x"
proof -
  let ?a = "snd (arch_remove_entity e a)"
  note q = arch_remove_entity_eq [OF wf r]
  have row: "row < length (a_entities a)" "a_entities a ! row = e"
    using r wf_archD(8) [OF wf] by auto
  have ne: "a_entities a \<noteq> []" using row by auto
  note e2r = arch_remove_e2r [OF wf r, of x]
  have new: "k < length (a_entities a) - 1" if "a_entity_to_row ?a x = Some k" for k
    using that wf_archD(8) [OF arch_remove_entity_wf [OF wf, of e], of x k]
    by (simp add: q(4) length_swap_remove_list)
  have moved: "a_entity_to_row a x = Some (length (a_entities a) - 1)" "row \<noteq> length (a_entities a) - 1"
    if "x = moved_by row (a_entities a) \<and> x \<noteq> null_entity"
    using that ne wf_archD(8) [OF wf, of x "length (a_entities a) - 1"]
    by (auto simp: moved_by_def last_conv_nth split: if_splits)
  have stay: "k \<noteq> row" if "a_entity_to_row a x = Some k" for k
    using that row x wf_archD(8) [OF wf, of x k] by auto
  have ids: "column_index ?a u = column_index a u" by (rule column_index_cong) (rule q(2))
  have data: "rows (a_columns ?a ! j) ! k = rows (a_columns a ! j) ! (if k = row then length (a_entities a) - 1 else k)"
    if "column_index a u = Some j" "k < length (a_entities a) - 1" for j k
    using index_column [OF wf that(1)] that(2) q(7) [of j] row(1) by (simp add: nth_swap_remove_list)
  have en: "arch_get_enabled k ?a = arch_get_enabled (if k = row then length (a_entities a) - 1 else k) a"
    if "k < length (a_entities a) - 1" for k
    using that row(1) wf_archD(5) [OF wf]
    by (auto simp: arch_get_enabled_def q(5) length_swap_remove_list nth_swap_remove_list)
  have cases: "(a_entity_to_row ?a x = None \<and> a_entity_to_row a x = None) \<or>
      (\<exists>k. a_entity_to_row ?a x = Some k \<and> k < length (a_entities a) - 1
         \<and> a_entity_to_row a x = Some (if k = row then length (a_entities a) - 1 else k))"
  proof (cases "a_entity_to_row ?a x")
    case None
    then show ?thesis using e2r x by (auto split: if_splits)
  next
    case (Some k)
    then have "a_entity_to_row a x = Some (if k = row then length (a_entities a) - 1 else k)"
      using e2r x moved stay by (auto split: if_splits)
    then show ?thesis using Some new by blast
  qed
  then show "cell ?a u x = cell a u x"
    using data by (auto simp: cell_def ids split: option.splits)
  show "enabled_of ?a x = enabled_of a x"
    using cases en by (auto simp: enabled_of_def)
qed

end
