(* ===== verification/Observers.thy ===== *)
theory Observers
  imports EntityId
begin

text \<open>
  \<open>src/core/observer_dispatch.{h,cpp}\<close>: registration and synchronous delivery of events. A
  callback's function is a number that the caller of \<open>dispatch\<close> resolves (\<open>run\<close>), because the
  functions are supplied by users of the library and may do anything to the state. The null
  and the empty callback vector behave alike and are both the empty list. Payloads (the
  engine's \<open>Variant\<close>) are a type variable, \<open>None\<close> being the default \<open>Variant()\<close>. Verbose
  logging is not modelled.
\<close>

unbundle bit_operations_syntax

section \<open>Events and callbacks\<close>

datatype observer_event_type = Added | Removed | Changed | Matched | Unmatched | Custom

abbreviation EVENT_ADDED :: u32 where "EVENT_ADDED \<equiv> 1"
abbreviation EVENT_REMOVED :: u32 where "EVENT_REMOVED \<equiv> 2"
abbreviation EVENT_CHANGED :: u32 where "EVENT_CHANGED \<equiv> 4"
abbreviation EVENT_MATCHED :: u32 where "EVENT_MATCHED \<equiv> 8"
abbreviation EVENT_UNMATCHED :: u32 where "EVENT_UNMATCHED \<equiv> 16"
abbreviation EVENT_CUSTOM :: u32 where "EVENT_CUSTOM \<equiv> 32"

fun event_bit :: "observer_event_type \<Rightarrow> u32" where
  "event_bit Added = EVENT_ADDED"
| "event_bit Removed = EVENT_REMOVED"
| "event_bit Changed = EVENT_CHANGED"
| "event_bit Matched = EVENT_MATCHED"
| "event_bit Unmatched = EVENT_UNMATCHED"
| "event_bit Custom = EVENT_CUSTOM"

record 'v event =
  ev_type :: observer_event_type
  ev_entity :: entity
  ev_comp :: ctype
  ev_name :: string
  ev_payload :: "'v option"

definition mk_event :: "observer_event_type \<Rightarrow> entity \<Rightarrow> ctype \<Rightarrow> string \<Rightarrow> 'v option \<Rightarrow> 'v event" where
  "mk_event ty e t name payload =
     \<lparr>ev_type = ty, ev_entity = e, ev_comp = t, ev_name = name, ev_payload = payload\<rparr>"

text \<open>\<open>cb_fn = None\<close> is an empty \<open>std::function\<close>.\<close>

record observer_callback =
  cb_id :: int
  cb_fn :: "nat option"
  cb_event_mask :: u32
  cb_component_filter :: "ctype list"
  cb_watch_all :: bool
  cb_custom_name :: string

record observer_dispatch =
  od_callbacks :: "observer_callback list"
  od_next_id :: int

section \<open>Operations\<close>

definition empty_dispatch :: observer_dispatch where
  "empty_dispatch = \<lparr>od_callbacks = [], od_next_id = 1\<rparr>"

definition observer_add :: "observer_callback \<Rightarrow> observer_dispatch \<Rightarrow> int \<times> observer_dispatch" where
  "observer_add p_cb d =
     (od_next_id d, d\<lparr>od_callbacks := od_callbacks d @ [p_cb\<lparr>cb_id := od_next_id d\<rparr>],
                      od_next_id := od_next_id d + 1\<rparr>)"

definition observer_clear :: "observer_dispatch \<Rightarrow> observer_dispatch" where
  "observer_clear d = d\<lparr>od_callbacks := [], od_next_id := 1\<rparr>"

definition observer_remove :: "int \<Rightarrow> observer_dispatch \<Rightarrow> observer_dispatch" where
  "observer_remove p_id d = d\<lparr>od_callbacks := filter (\<lambda>cb. cb_id cb \<noteq> p_id) (od_callbacks d)\<rparr>"

text \<open>The \<open>continue\<close> conditions of the delivery loop.\<close>

definition cb_wants :: "observer_callback \<Rightarrow> 'v event \<Rightarrow> bool" where
  "cb_wants cb ev \<longleftrightarrow>
     cb_event_mask cb AND event_bit (ev_type ev) \<noteq> 0
   \<and> (if ev_type ev = Custom then cb_custom_name cb = '''' \<or> cb_custom_name cb = ev_name ev
      else cb_watch_all cb \<or> cb_component_filter cb = []
           \<or> (ev_comp ev \<noteq> 0 \<and> ev_comp ev \<in> set (cb_component_filter cb)))"

fun deliver :: "(nat \<Rightarrow> 'v event \<Rightarrow> 's \<Rightarrow> 's) \<Rightarrow> 'v event \<Rightarrow> observer_callback list \<Rightarrow> 's \<times> int \<Rightarrow> 's \<times> int" where
  "deliver run ev [] r = r"
| "deliver run ev (cb # cbs) (s, delivered) =
     (if cb_wants cb ev then
        (case cb_fn cb of
           Some f \<Rightarrow> deliver run ev cbs (run f ev s, delivered + 1)
         | None \<Rightarrow> deliver run ev cbs (s, delivered))
      else deliver run ev cbs (s, delivered))"

text \<open>
  \<open>dispatch\<close> walks the callback vector as it is when the event is raised: what a callback
  registers or removes during delivery does not affect this delivery.
\<close>

definition observer_dispatch_event ::
    "(nat \<Rightarrow> 'v event \<Rightarrow> 's \<Rightarrow> 's) \<Rightarrow> observer_dispatch \<Rightarrow> 'v event \<Rightarrow> 's \<Rightarrow> 's \<times> int" where
  "observer_dispatch_event run d ev s = deliver run ev (od_callbacks d) (s, 0)"

section \<open>What delivery preserves\<close>

text \<open>
  The contract between the dispatcher and its callbacks: whatever invariant every callback
  keeps, a delivery keeps.
\<close>

locale observer_contract =
  fixes run :: "nat \<Rightarrow> 'v event \<Rightarrow> 's \<Rightarrow> 's"
    and inv :: "'s \<Rightarrow> bool"
  assumes run_inv: "inv s \<Longrightarrow> inv (run f ev s)"
begin

lemma deliver_inv: "inv s \<Longrightarrow> inv (fst (deliver run ev cbs (s, n)))"
  by (induction cbs arbitrary: s n) (auto simp: run_inv split: option.splits)

lemma dispatch_inv: "inv s \<Longrightarrow> inv (fst (observer_dispatch_event run d ev s))"
  by (simp add: observer_dispatch_event_def deliver_inv)

end

lemma deliver_count:
  "snd (deliver run ev cbs (s, n)) = n + int (length (filter (\<lambda>cb. cb_wants cb ev \<and> cb_fn cb \<noteq> None) cbs))"
  by (induction cbs arbitrary: s n) (auto split: option.splits)

lemma deliver_nothing:
  "\<forall>cb\<in>set cbs. \<not> cb_wants cb ev \<or> cb_fn cb = None \<Longrightarrow> deliver run ev cbs (s, n) = (s, n)"
  by (induction cbs arbitrary: s n) (auto split: option.splits)

lemma observer_add_remove:
  assumes "\<forall>cb\<in>set (od_callbacks d). cb_id cb < od_next_id d"
  shows "od_callbacks (observer_remove (fst (observer_add cb d)) (snd (observer_add cb d))) = od_callbacks d"
    and "\<forall>c\<in>set (od_callbacks (snd (observer_add cb d))). cb_id c < od_next_id (snd (observer_add cb d))"
  using assms by (auto simp: observer_add_def observer_remove_def intro!: filter_True)

end
