(* ===== verification/Registry.thy ===== *)
theory Registry
  imports Schema
begin

text \<open>
  \<open>src/core/component_registry.{h,cpp}\<close>: the process-wide map between type ids, schemas and
  names. Ids are dense and start at 1; a schema is stored at position \<open>id - 1\<close>.
\<close>

section \<open>State and operations\<close>

record registry =
  rg_schemas :: "component_schema list"
  rg_id_by_name :: "string \<rightharpoonup> ctype"

definition empty_registry :: registry where
  "empty_registry = \<lparr>rg_schemas = [], rg_id_by_name = Map.empty\<rparr>"

definition register_component :: "registry \<Rightarrow> component_schema \<Rightarrow> ctype \<times> registry" where
  "register_component r s =
    (if cs_type_name s = '''' then (INVALID_COMPONENT_TYPE, r)
     else case rg_id_by_name r (cs_type_name s) of
       Some i \<Rightarrow> (i, r)
     | None \<Rightarrow>
        (let tid = of_nat (length (rg_schemas r) + 1);
             schema = s\<lparr>cs_type_id := tid\<rparr>
         in (tid, r\<lparr>rg_schemas := rg_schemas r @ [schema],
                    rg_id_by_name := (rg_id_by_name r)(cs_type_name s \<mapsto> tid)\<rparr>)))"

definition register_schema_component ::
    "type_layout \<Rightarrow> registry \<Rightarrow> string \<Rightarrow> field_descriptor list \<Rightarrow> ctype \<times> registry" where
  "register_schema_component L r name raw_fds =
    (case layout_fields L 0 1 raw_fds of
       None \<Rightarrow> (INVALID_COMPONENT_TYPE, r)
     | Some (fds, offset, max_align) \<Rightarrow>
         register_component r
           \<lparr>cs_type_name = name, cs_type_id = INVALID_COMPONENT_TYPE,
            cs_size = align_up offset max_align, cs_alignment = max_align, cs_fields = fds,
            cs_is_networked = list_ex fd_is_networked fds\<rparr>)"

text \<open>
  \<open>register_component_type<T>\<close>: \<open>holder\<close> is \<open>TypeIdHolder<T>::id\<close>, \<open>sizeof_T\<close> and \<open>alignof_T\<close>
  are \<open>sizeof(T)\<close> and \<open>alignof(T)\<close>. The result is the new holder with the registry.
\<close>

definition register_component_type ::
    "registry \<Rightarrow> ctype \<Rightarrow> string \<Rightarrow> nat \<Rightarrow> nat \<Rightarrow> field_descriptor list \<Rightarrow> ctype \<times> registry" where
  "register_component_type r holder name sizeof_T alignof_T fds =
    (if holder \<noteq> INVALID_COMPONENT_TYPE then (holder, r)
     else register_component r
        \<lparr>cs_type_name = name, cs_type_id = INVALID_COMPONENT_TYPE, cs_size = sizeof_T,
         cs_alignment = alignof_T, cs_fields = fds,
         cs_is_networked = list_ex fd_is_networked fds\<rparr>)"

definition schema_of :: "registry \<Rightarrow> ctype \<Rightarrow> component_schema option" where
  "schema_of r i =
    (if i = INVALID_COMPONENT_TYPE \<or> unat i > length (rg_schemas r) then None
     else Some (rg_schemas r ! (unat i - 1)))"

definition id_of :: "registry \<Rightarrow> string \<Rightarrow> ctype" where
  "id_of r name = (case rg_id_by_name r name of None \<Rightarrow> INVALID_COMPONENT_TYPE | Some i \<Rightarrow> i)"

definition schema_of_name :: "registry \<Rightarrow> string \<Rightarrow> component_schema option" where
  "schema_of_name r name = (case rg_id_by_name r name of None \<Rightarrow> None | Some i \<Rightarrow> schema_of r i)"

definition name_of :: "registry \<Rightarrow> ctype \<Rightarrow> string" where
  "name_of r i = (case schema_of r i of Some s \<Rightarrow> cs_type_name s | None \<Rightarrow> '''')"

definition registry_count :: "registry \<Rightarrow> nat" where
  "registry_count r = length (rg_schemas r)"

definition registry_clear :: "registry \<Rightarrow> registry" where
  "registry_clear r = r\<lparr>rg_schemas := [], rg_id_by_name := Map.empty\<rparr>"

section \<open>Names of field types\<close>

fun parse_field_type :: "string \<Rightarrow> field_type option" where
  "parse_field_type s =
    (if s = ''Bool'' then Some Bool
     else if s = ''I8'' then Some I8
     else if s = ''I16'' then Some I16
     else if s = ''I32'' then Some I32
     else if s = ''I64'' then Some I64
     else if s = ''U8'' then Some U8
     else if s = ''U16'' then Some U16
     else if s = ''U32'' then Some U32
     else if s = ''U64'' then Some U64
     else if s = ''F32'' then Some F32
     else if s = ''F64'' then Some F64
     else if s = ''Vector2'' then Some Vector2
     else if s = ''Vector2i'' then Some Vector2i
     else if s = ''Vector3'' then Some Vector3
     else if s = ''Vector3i'' then Some Vector3i
     else if s = ''Vector4'' then Some Vector4
     else if s = ''Vector4i'' then Some Vector4i
     else if s = ''Color'' then Some Color
     else if s = ''Quaternion'' then Some Quaternion
     else if s = ''Basis'' then Some Basis
     else if s = ''Transform2D'' then Some Transform2D
     else if s = ''Transform3D'' then Some Transform3D
     else if s = ''AABB'' then Some AABB
     else if s = ''Rect2'' then Some Rect2
     else if s = ''Plane'' then Some Plane
     else if s = ''StringFixed'' then Some StringFixed
     else if s = ''Blob'' then Some Blob
     else None)"

text \<open>\<open>debug_field_type_name\<close> of \<open>vecs_world.cpp\<close>.\<close>

fun debug_field_type_name :: "field_type \<Rightarrow> string" where
  "debug_field_type_name Bool = ''Bool''"
| "debug_field_type_name I8 = ''I8''"
| "debug_field_type_name I16 = ''I16''"
| "debug_field_type_name I32 = ''I32''"
| "debug_field_type_name I64 = ''I64''"
| "debug_field_type_name U8 = ''U8''"
| "debug_field_type_name U16 = ''U16''"
| "debug_field_type_name U32 = ''U32''"
| "debug_field_type_name U64 = ''U64''"
| "debug_field_type_name F32 = ''F32''"
| "debug_field_type_name F64 = ''F64''"
| "debug_field_type_name Vector2 = ''Vector2''"
| "debug_field_type_name Vector2i = ''Vector2i''"
| "debug_field_type_name Vector3 = ''Vector3''"
| "debug_field_type_name Vector3i = ''Vector3i''"
| "debug_field_type_name Vector4 = ''Vector4''"
| "debug_field_type_name Vector4i = ''Vector4i''"
| "debug_field_type_name Color = ''Color''"
| "debug_field_type_name Quaternion = ''Quaternion''"
| "debug_field_type_name Basis = ''Basis''"
| "debug_field_type_name Transform2D = ''Transform2D''"
| "debug_field_type_name Transform3D = ''Transform3D''"
| "debug_field_type_name AABB = ''AABB''"
| "debug_field_type_name Rect2 = ''Rect2''"
| "debug_field_type_name Plane = ''Plane''"
| "debug_field_type_name StringFixed = ''StringFixed''"
| "debug_field_type_name Blob = ''Blob''"

lemma parse_debug_name: "parse_field_type (debug_field_type_name t) = Some t"
  by (cases t) simp_all

lemma parse_field_type_inverse:
  "parse_field_type s = Some t \<Longrightarrow> s = debug_field_type_name t"
  by (simp split: if_splits)

section \<open>Invariant\<close>

text \<open>
  Every entry sits at the position of its id, ids and names determine each other, and no
  two ids wrap onto each other.
\<close>

definition type_id_at :: "nat \<Rightarrow> ctype" where
  "type_id_at k = of_nat (k + 1)"

definition wf_registry :: "registry \<Rightarrow> bool" where
  "wf_registry r \<longleftrightarrow>
     length (rg_schemas r) < 2 ^ 32
   \<and> (\<forall>k < length (rg_schemas r). cs_type_id (rg_schemas r ! k) = type_id_at k
         \<and> cs_type_name (rg_schemas r ! k) \<noteq> '''' \<and> 0 < cs_alignment (rg_schemas r ! k))
   \<and> (\<forall>n i. rg_id_by_name r n = Some i \<longleftrightarrow>
         (\<exists>k < length (rg_schemas r). i = type_id_at k \<and> cs_type_name (rg_schemas r ! k) = n))"

lemma unat_type_id_at: "k + 1 < 2 ^ 32 \<Longrightarrow> unat (type_id_at k) = k + 1"
  unfolding type_id_at_def unsigned_of_nat by (simp add: take_bit_nat_eq_self)

lemma type_id_at_nonzero: "k + 1 < 2 ^ 32 \<Longrightarrow> type_id_at k \<noteq> INVALID_COMPONENT_TYPE"
  using unat_type_id_at [of k] by (auto simp: INVALID_COMPONENT_TYPE_def)

lemma schema_of_at:
  "wf_registry r \<Longrightarrow> k < length (rg_schemas r) \<Longrightarrow> schema_of r (type_id_at k) = Some (rg_schemas r ! k)"
  using type_id_at_nonzero [of k] unat_type_id_at [of k]
  by (auto simp: wf_registry_def schema_of_def)

lemma schema_of_SomeE:
  assumes "schema_of r i = Some s"
  obtains k where "k < length (rg_schemas r)" "unat i = k + 1" "s = rg_schemas r ! k"
proof -
  have "0 < unat i" "unat i \<le> length (rg_schemas r)" "s = rg_schemas r ! (unat i - 1)"
    using assms by (auto simp: schema_of_def INVALID_COMPONENT_TYPE_def unat_gt_0 split: if_splits)
  then show ?thesis using that [of "unat i - 1"] by simp
qed

lemma schema_of_wf:
  assumes "wf_registry r" "schema_of r i = Some s"
  shows "cs_type_id s = i" "0 < cs_alignment s" "rg_id_by_name r (cs_type_name s) = Some i"
proof -
  obtain k where k: "k < length (rg_schemas r)" "unat i = k + 1" "s = rg_schemas r ! k"
    using assms(2) by (rule schema_of_SomeE)
  have "k + 1 < 2 ^ 32" using assms(1) k(1) by (auto simp: wf_registry_def)
  then have "i = type_id_at k" using k(2) unat_type_id_at [of k] by (simp add: word_unat_eq_iff)
  then show "cs_type_id s = i" "0 < cs_alignment s" "rg_id_by_name r (cs_type_name s) = Some i"
    using assms(1) k by (auto simp: wf_registry_def)
qed

lemma empty_registry_wf: "wf_registry empty_registry"
  by (simp add: wf_registry_def empty_registry_def)

lemma register_component_wf:
  assumes wf: "wf_registry r" and al: "0 < cs_alignment s"
    and room: "length (rg_schemas r) + 1 < 2 ^ 32"
  shows "wf_registry (snd (register_component r s))"
proof (cases "cs_type_name s = '''' \<or> rg_id_by_name r (cs_type_name s) \<noteq> None")
  case True
  then show ?thesis using wf by (auto simp: register_component_def)
next
  case False
  then have fresh: "\<forall>k < length (rg_schemas r). cs_type_name (rg_schemas r ! k) \<noteq> cs_type_name s"
    using wf unfolding wf_registry_def by (metis option.distinct(1))
  show ?thesis
    using False wf al room fresh
    by (auto simp: register_component_def Let_def wf_registry_def nth_append less_Suc_eq type_id_at_def)
qed

lemma register_component_keeps:
  assumes "schema_of r i = Some s'"
  shows "schema_of (snd (register_component r s)) i = Some s'"
proof -
  obtain k where "k < length (rg_schemas r)" "unat i = k + 1" "s' = rg_schemas r ! k"
    using assms by (rule schema_of_SomeE)
  then show ?thesis
    using assms by (auto simp: register_component_def Let_def schema_of_def nth_append
        split: option.splits if_splits)
qed

lemma register_component_new:
  assumes "wf_registry r" "cs_type_name s \<noteq> ''''" "rg_id_by_name r (cs_type_name s) = None"
    and "length (rg_schemas r) + 1 < 2 ^ 32"
  shows "schema_of (snd (register_component r s)) (fst (register_component r s))
         = Some (s\<lparr>cs_type_id := fst (register_component r s)\<rparr>)"
    and "schema_of r (fst (register_component r s)) = None"
proof -
  let ?n = "length (rg_schemas r)"
  have id: "fst (register_component r s) = type_id_at ?n"
    using assms(2,3) by (simp add: register_component_def Let_def type_id_at_def)
  have u: "unat (type_id_at ?n) = ?n + 1" using assms(4) by (rule unat_type_id_at)
  have nz: "type_id_at ?n \<noteq> INVALID_COMPONENT_TYPE" using assms(4) by (rule type_id_at_nonzero)
  show "schema_of (snd (register_component r s)) (fst (register_component r s))
         = Some (s\<lparr>cs_type_id := fst (register_component r s)\<rparr>)"
    using assms(2,3) id u nz by (simp add: register_component_def Let_def schema_of_def type_id_at_def)
  show "schema_of r (fst (register_component r s)) = None"
    using id u by (simp add: schema_of_def)
qed

section \<open>Properties\<close>

lemma layout_fields_align_le:
  assumes "layout_ok L" "layout_fields L off ma fds = Some (fds', stop, ma')"
    and "off + layout_need L fds < 2 ^ 64"
  shows "ma' \<le> ma + layout_need L fds"
  using assms(2,3)
proof (induction fds arbitrary: off ma fds')
  case Nil
  then show ?case by simp
next
  case (Cons fd fds)
  obtain fd1 a where f: "layout_field L off fd = Some (fd1, a)"
    using Cons.prems(1) by (auto split: option.splits)
  then obtain fds1 where r: "layout_fields L (sz (fd_offset fd1 + fd_byte_size fd1)) (max ma a) fds
        = Some (fds1, stop, ma')"
    using Cons.prems(1) by (auto split: option.splits)
  have need: "layout_need L (fd # fds) = raw_bytes L fd + field_align L fd + layout_need L fds"
    by (simp add: layout_need_def)
  have b: "off + raw_bytes L fd + field_align L fd < 2 ^ 64"
    using Cons.prems(2) need by linarith
  note sh = layout_field_shape [OF assms(1) f b]
  have e: "fd_offset fd1 + fd_byte_size fd1 + layout_need L fds < 2 ^ 64"
    using sh(3,6) Cons.prems(2) need by linarith
  then have "sz (fd_offset fd1 + fd_byte_size fd1) = fd_offset fd1 + fd_byte_size fd1"
    by (simp add: sz_def)
  then have "ma' \<le> max ma a + layout_need L fds"
    using Cons.IH [of "fd_offset fd1 + fd_byte_size fd1" "max ma a" fds1] r e by simp
  then show ?case using sh(1) need by linarith
qed

text \<open>
  A field of the schema is the requested one: name, type, count, priority and network flag are
  kept, an array records its element type, and the storage is the whole request, the element
  size times the count (one value when the count is zero), or the count itself for text and blobs.
\<close>

definition as_requested :: "type_layout \<Rightarrow> field_descriptor \<Rightarrow> field_descriptor \<Rightarrow> bool" where
  "as_requested L f fd \<longleftrightarrow> fd_name fd = fd_name f \<and> fd_type fd = fd_type f \<and> fd_count fd = fd_count f
     \<and> fd_sync_priority fd = fd_sync_priority f \<and> fd_is_networked fd = fd_is_networked f
     \<and> (if fd_type f = StringFixed \<or> fd_type f = Blob then fd_byte_size fd = fd_count f \<and> fd_element_type fd = 0
        else fd_byte_size fd = field_type_size L (fd_type f) * max 1 (fd_count f)
           \<and> fd_element_type fd = (if 1 < fd_count f then field_type_code (fd_type f) else 0))"

definition known_type :: "type_layout \<Rightarrow> field_descriptor \<Rightarrow> bool" where
  "known_type L f \<longleftrightarrow> fd_type f = StringFixed \<or> fd_type f = Blob \<or> field_type_size L (fd_type f) \<noteq> 0"

lemma layout_fields_known:
  "layout_fields L off ma raw \<noteq> None \<longleftrightarrow> (\<forall>f\<in>set raw. known_type L f)"
proof (induction raw arbitrary: off ma)
  case (Cons f raw)
  have n: "layout_field L off f = None \<longleftrightarrow> \<not> known_type L f" by (auto simp: layout_field_def known_type_def Let_def)
  show ?case
  proof (cases "layout_field L off f")
    case None
    then show ?thesis using n by simp
  next
    case (Some p)
    obtain fd a where "p = (fd, a)" by (cases p)
    then show ?thesis
      using Some n Cons.IH [of "sz (fd_offset fd + fd_byte_size fd)" "max ma a"] by (auto split: option.split)
  qed
qed simp

lemma layout_fields_requested:
  assumes "layout_ok L" "layout_fields L off ma fds = Some (fds', stop, ma')" "off + layout_need L fds < 2 ^ 64"
  shows "list_all2 (as_requested L) fds fds'"
  using assms(2,3)
proof (induction fds arbitrary: off ma fds')
  case Nil
  then show ?case by simp
next
  case (Cons fd fds)
  obtain fd1 a where f: "layout_field L off fd = Some (fd1, a)"
    using Cons.prems(1) by (auto split: option.splits)
  then obtain fds1 where r: "layout_fields L (sz (fd_offset fd1 + fd_byte_size fd1)) (max ma a) fds
        = Some (fds1, stop, ma')" and e: "fds' = fd1 # fds1"
    using Cons.prems(1) by (auto split: option.splits)
  have need: "layout_need L (fd # fds) = raw_bytes L fd + field_align L fd + layout_need L fds"
    by (simp add: layout_need_def)
  have b: "off + raw_bytes L fd + field_align L fd < 2 ^ 64"
    using Cons.prems(2) need by linarith
  note sh = layout_field_shape [OF assms(1) f b]
  have n: "fd_offset fd1 + fd_byte_size fd1 + layout_need L fds < 2 ^ 64"
    using sh(3,6) Cons.prems(2) need by linarith
  then have "sz (fd_offset fd1 + fd_byte_size fd1) = fd_offset fd1 + fd_byte_size fd1" by (simp add: sz_def)
  then have "list_all2 (as_requested L) fds fds1"
    using Cons.IH [of "fd_offset fd1 + fd_byte_size fd1" "max ma a" fds1] r n by simp
  moreover have "as_requested L fd fd1"
  proof -
    have "fd_element_type fd1 = (if fd_type fd \<noteq> StringFixed \<and> fd_type fd \<noteq> Blob \<and> 1 < fd_count fd
        then field_type_code (fd_type fd) else 0)"
      using f by (auto simp: layout_field_def Let_def split: if_splits)
    moreover have "fd_byte_size fd1 = (if fd_type fd = StringFixed \<or> fd_type fd = Blob then fd_count fd
        else field_type_size L (fd_type fd) * max 1 (fd_count fd))"
      unfolding sh(3) by (cases "fd_count fd") (auto simp: raw_bytes_def is_scalar_def)
    ultimately show ?thesis by (simp add: as_requested_def sh(8-12))
  qed
  ultimately show ?case by (simp add: e)
qed

text \<open>
  C13. Registering a schema-only component whose field types are known under a fresh name yields
  a valid new id. Its schema has exactly the requested fields, in order, each with the storage
  it asks for (\<open>as_requested\<close>: an array with room for all its elements), and a sound memory layout:
  the fields follow each other without overlap, each at an offset divisible by its own
  alignment, all inside the row; the row size is a multiple of the row alignment (a column of
  such rows keeps every field aligned) and the row alignment is a multiple of every field's.
  Ids handed out before keep their schemas and the registry stays well formed. The hypothesis
  on \<open>layout_need\<close> bounds the requested bytes, because the size arithmetic wraps at \<open>2 ^ 64\<close>.
\<close>

theorem register_schema_component_layout:
  assumes wf: "wf_registry r" and L: "layout_ok L" and room: "length (rg_schemas r) + 1 < 2 ^ 32"
    and name: "name \<noteq> ''''" "rg_id_by_name r name = None"
    and need: "layout_need L raw < 2 ^ 63" and known: "\<forall>f\<in>set raw. known_type L f"
    and reg: "register_schema_component L r name raw = (tid, r')"
  shows "\<exists>s. schema_of r' tid = Some s \<and> schema_of r tid = None \<and> id_of r' name = tid
    \<and> tid \<noteq> INVALID_COMPONENT_TYPE \<and> cs_type_id s = tid \<and> cs_type_name s = name
    \<and> list_all2 (as_requested L) raw (cs_fields s) \<and> (cs_is_networked s \<longleftrightarrow> (\<exists>f\<in>set raw. fd_is_networked f))
    \<and> laid_out L 0 (cs_fields s) (cs_size s)
    \<and> cs_alignment s dvd cs_size s \<and> (\<forall>fd\<in>set (cs_fields s). field_align L fd dvd cs_alignment s)
    \<and> (\<forall>i s'. schema_of r i = Some s' \<longrightarrow> schema_of r' i = Some s') \<and> wf_registry r'"
proof -
  obtain fds stop ma where lf: "layout_fields L 0 1 raw = Some (fds, stop, ma)"
    using layout_fields_known [of L 0 1 raw] known by auto
  have need64: "0 + layout_need L raw < 2 ^ 64" using need by simp
  have out: "laid_out L 0 fds stop" "stop \<le> layout_need L raw"
    using layout_fields_laid_out [OF L lf need64] by auto
  have rq: "list_all2 (as_requested L) raw fds" by (rule layout_fields_requested [OF L lf need64])
  have nw: "list_ex fd_is_networked fds \<longleftrightarrow> (\<exists>f\<in>set raw. fd_is_networked f)"
    using rq by (induction rule: list_all2_induct) (auto simp: as_requested_def)
  have al: "(\<exists>j. ma = 2 ^ j) \<and> (\<forall>fd\<in>set fds. field_align L fd dvd ma)"
    using layout_fields_align [OF L _ need64, of 0 fds stop ma] lf by auto
  then have ma0: "0 < ma" by auto
  have "ma \<le> 1 + layout_need L raw" by (rule layout_fields_align_le [OF L lf need64])
  then have "stop + ma \<le> 2 ^ 64" using out(2) need by simp
  note up = align_up_exact [OF ma0 this]
  let ?s = "\<lparr>cs_type_name = name, cs_type_id = INVALID_COMPONENT_TYPE, cs_size = align_up stop ma,
     cs_alignment = ma, cs_fields = fds, cs_is_networked = list_ex fd_is_networked fds\<rparr>"
  have e: "register_component r ?s = (tid, r')"
    using reg lf by (simp add: register_schema_component_def)
  have new: "schema_of r' tid = Some (?s\<lparr>cs_type_id := tid\<rparr>)" "schema_of r tid = None"
    using register_component_new [OF wf, of ?s] name room e by simp_all
  have wf': "wf_registry r'"
    using register_component_wf [OF wf, of ?s] ma0 room e by simp
  have "laid_out L 0 fds n" if "stop \<le> n" for n
  proof -
    have "laid_out L st fs stop \<Longrightarrow> laid_out L st fs n" for st fs
      using that by (induction fs arbitrary: st) auto
    then show ?thesis using out(1) by blast
  qed
  moreover have "rg_id_by_name r' name = Some tid"
    using schema_of_wf(3) [OF wf' new(1)] by simp
  moreover have "schema_of r' i = Some s'" if "schema_of r i = Some s'" for i s'
    using register_component_keeps [OF that, of ?s] e by simp
  moreover have "tid \<noteq> INVALID_COMPONENT_TYPE" using new(1) by (auto simp: schema_of_def split: if_splits)
  ultimately show ?thesis
    using new wf' up al rq nw by (intro exI [where x = "?s\<lparr>cs_type_id := tid\<rparr>"]) (auto simp: id_of_def)
qed

definition demo_layout :: type_layout where
  "demo_layout = \<lparr>engine_size = (\<lambda>t. 16), engine_align = (\<lambda>t. 4)\<rparr>"

definition raw_field :: "string \<Rightarrow> field_type \<Rightarrow> nat \<Rightarrow> field_descriptor" where
  "raw_field n t cnt = \<lparr>fd_name = n, fd_type = t, fd_offset = 0, fd_byte_size = 0, fd_count = cnt,
     fd_element_type = 0, fd_sync_priority = SYNC_MEDIUM, fd_is_networked = False\<rparr>"

theorem register_schema_component_layout_witness:
  "let raw = [raw_field ''flag'' Bool 0, raw_field ''pos'' Vector3 0, raw_field ''t'' F64 2];
       (tid, r) = register_schema_component demo_layout empty_registry ''Mover'' raw
   in \<exists>s. schema_of r tid = Some s \<and> laid_out demo_layout 0 (cs_fields s) (cs_size s)
        \<and> map fd_offset (cs_fields s) = [0, 4, 24] \<and> map fd_byte_size (cs_fields s) = [1, 16, 16] \<and> cs_size s = 40 \<and> cs_alignment s = 8"
proof -
  let ?raw = "[raw_field ''flag'' Bool 0, raw_field ''pos'' Vector3 0, raw_field ''t'' F64 2]"
  let ?reg = "register_schema_component demo_layout empty_registry ''Mover'' ?raw"
  let ?f1 = "(raw_field ''flag'' Bool 0)\<lparr>fd_byte_size := 1, fd_offset := 0\<rparr>"
  let ?f2 = "(raw_field ''pos'' Vector3 0)\<lparr>fd_byte_size := 16, fd_offset := 4\<rparr>"
  let ?f3 = "(raw_field ''t'' F64 2)\<lparr>fd_element_type := 10, fd_byte_size := 16, fd_offset := 24\<rparr>"
  have L: "layout_ok demo_layout"
    unfolding layout_ok_def demo_layout_def by (intro allI exI [where x = 2]) simp
  note defs = demo_layout_def raw_field_def layout_field_def align_up_def sz_def
  have f: "layout_field demo_layout 0 (raw_field ''flag'' Bool 0) = Some (?f1, 1)"
    "layout_field demo_layout 1 (raw_field ''pos'' Vector3 0) = Some (?f2, 4)"
    "layout_field demo_layout 20 (raw_field ''t'' F64 2) = Some (?f3, 8)"
    by (simp_all add: defs)
  have lf: "layout_fields demo_layout 0 1 ?raw = Some ([?f1, ?f2, ?f3], 40, 8)"
    using f by (simp add: sz_def)
  have "layout_need demo_layout ?raw < 2 ^ 63" "\<forall>f\<in>set ?raw. known_type demo_layout f"
    by (simp_all add: layout_need_def raw_bytes_def field_align_def is_scalar_def known_type_def defs)
  then obtain s where s: "schema_of (snd ?reg) (fst ?reg) = Some s"
      "laid_out demo_layout 0 (cs_fields s) (cs_size s)" "list_all2 (as_requested demo_layout) ?raw (cs_fields s)"
    using register_schema_component_layout [OF empty_registry_wf L, of "''Mover''" ?raw "fst ?reg" "snd ?reg"]
    by (auto simp: empty_registry_def)
  have "map_option (\<lambda>s. (map fd_offset (cs_fields s), cs_size s, cs_alignment s)) (schema_of (snd ?reg) (fst ?reg))
      = Some ([0, 4, 24], 40, 8)"
    unfolding register_schema_component_def lf option.case prod.case
    by (simp add: register_component_def empty_registry_def schema_of_def
        INVALID_COMPONENT_TYPE_def align_up_def sz_def)
  moreover have "map fd_byte_size (cs_fields s) = [1, 16, 16]"
    using s(3) by (auto simp: list_all2_Cons1 as_requested_def defs)
  ultimately show ?thesis using s by (auto simp: case_prod_beta)
qed

end
