(* ===== verification/World.thy ===== *)
theory World
  imports Archetype Observers Registry
begin

text \<open>
  \<open>src/core/world.{h,cpp}\<close>, \<open>QueryCache\<close> of \<open>src/core/query.{h,cpp}\<close> and \<open>CommandBuffer\<close> of
  \<open>src/core/command_buffer.{h,cpp}\<close>: the state of a world and every operation on it, in the
  order of the source. An \<open>Archetype *\<close> is a key of the explicit heap \<open>w_archs\<close>. The environment
  holds what is outside the world: the component registry, the contents of fresh memory, the
  functions behind observer callbacks and custom commands (they may change the world in any
  way), and the iteration order of the hash map of entities.
\<close>

section \<open>State\<close>

type_synonym aid = nat

record location =
  loc_archetype :: aid
  loc_row :: nat

record pending_op =
  po_type :: ctype
  po_add :: bool
  po_data :: "byte list"

record change_log_entry =
  cl_entity :: entity
  cl_comp :: ctype
  cl_tick :: u64

record query_cache =
  qc_cache :: "(u64 \<times> aid list) list"
  qc_queries :: "(u64 \<times> query) list"

datatype command =
    AddComponent entity ctype "byte list"
  | RemoveComponent entity ctype
  | AddEntity entity
  | RemoveEntity entity
  | CustomCommand u32 "byte list"

text \<open>\<open>w_client\<close> is the state of the code behind the callbacks, outside the world.\<close>

record 'u world =
  w_slot_generations :: "u32 list"
  w_free_slots :: "u32 list"
  w_pool_slots :: "entity list"
  w_locations :: "(entity \<times> location) list"
  w_archetypes :: "ctype list \<rightharpoonup> aid"
  w_archetype_list :: "aid list"
  w_empty_archetype :: aid
  w_archs :: "aid \<rightharpoonup> archetype"
  w_next_aid :: aid
  w_query_cache :: query_cache
  w_command_buffer :: "command list"
  w_change_tick :: u64
  w_cache_version :: u32
  w_suppress_depth :: int
  w_iteration_depth :: int
  w_pending_cache_invalidation :: bool
  w_defer_moves :: bool
  w_deferred_entities :: "entity list"
  w_deferred_set :: "entity set"
  w_pending_ops :: "entity \<rightharpoonup> pending_op list"
  w_pending_destroy :: "entity set"
  w_changed_baselines :: "u64 \<rightharpoonup> u64"
  w_custom_commands :: "u32 \<rightharpoonup> nat"
  w_observers :: observer_dispatch
  w_change_log :: "change_log_entry list"
  w_change_log_generation :: u64
  w_client :: 'u

record ('u, 'v) env =
  env_registry :: registry
  env_heap :: heap
  env_callback :: "nat \<Rightarrow> 'v event \<Rightarrow> 'u world \<Rightarrow> 'u world"
  env_custom :: "nat \<Rightarrow> byte list \<Rightarrow> 'u world \<Rightarrow> 'u world"
  env_order :: "entity list \<Rightarrow> entity list"

definition CHANGE_LOG_SOFT_CAP :: nat where
  "CHANGE_LOG_SOFT_CAP = 65536"

section \<open>Access paths\<close>

definition location_of :: "'u world \<Rightarrow> entity \<Rightarrow> location option" where
  "location_of w e = map_of (w_locations w) e"

definition set_location :: "entity \<Rightarrow> aid \<Rightarrow> nat \<Rightarrow> 'u world \<Rightarrow> 'u world" where
  "set_location e a r w =
     w\<lparr>w_locations := AList.update e \<lparr>loc_archetype = a, loc_row = r\<rparr> (w_locations w)\<rparr>"

definition erase_location :: "entity \<Rightarrow> 'u world \<Rightarrow> 'u world" where
  "erase_location e w = w\<lparr>w_locations := AList.delete e (w_locations w)\<rparr>"

text \<open>\<open>if (moved) \{ mit = find(moved); if found: mit->second.row = row \}\<close>\<close>

definition fix_moved_row :: "entity \<Rightarrow> nat \<Rightarrow> 'u world \<Rightarrow> 'u world" where
  "fix_moved_row moved row w =
     (if entity_bool moved then
        (case location_of w moved of
           None \<Rightarrow> w
         | Some l \<Rightarrow> set_location moved (loc_archetype l) row w)
      else w)"

definition arch :: "'u world \<Rightarrow> aid \<Rightarrow> archetype" where
  "arch w a = the (w_archs w a)"

definition set_arch :: "aid \<Rightarrow> archetype \<Rightarrow> 'u world \<Rightarrow> 'u world" where
  "set_arch a x w = w\<lparr>w_archs := (w_archs w)(a \<mapsto> x)\<rparr>"

definition in_iteration :: "'u world \<Rightarrow> bool" where
  "in_iteration w \<longleftrightarrow> w_iteration_depth w > 0"

definition begin_iteration :: "'u world \<Rightarrow> 'u world" where
  "begin_iteration w = w\<lparr>w_iteration_depth := w_iteration_depth w + 1\<rparr>"

definition end_iteration :: "'u world \<Rightarrow> 'u world" where
  "end_iteration w = w\<lparr>w_iteration_depth := w_iteration_depth w - 1\<rparr>"

section \<open>Query cache\<close>

definition qc_register_new_archetype :: "aid \<Rightarrow> archetype \<Rightarrow> query_cache \<Rightarrow> query_cache" where
  "qc_register_new_archetype p_a x qc =
     qc\<lparr>qc_cache := fold (\<lambda>(k, q) cache.
          if query_matches q x
          then AList.update k ((case map_of cache k of None \<Rightarrow> [] | Some l \<Rightarrow> l) @ [p_a]) cache
          else cache) (qc_queries qc) (qc_cache qc)\<rparr>"

definition qc_erase_archetype :: "aid \<Rightarrow> query_cache \<Rightarrow> query_cache" where
  "qc_erase_archetype p_a qc = qc\<lparr>qc_cache := map (apsnd (filter (\<lambda>a. a \<noteq> p_a))) (qc_cache qc)\<rparr>"

definition qc_invalidate :: "query_cache \<Rightarrow> query_cache" where
  "qc_invalidate qc = qc\<lparr>qc_cache := [], qc_queries := []\<rparr>"

definition qc_match :: "query \<Rightarrow> aid list \<Rightarrow> (aid \<Rightarrow> archetype) \<Rightarrow> query_cache \<Rightarrow> aid list \<times> query_cache" where
  "qc_match p_q p_archetypes deref qc =
     (let key = membership_signature p_q;
          hit = (case map_of (qc_cache qc) key of
                   None \<Rightarrow> None
                 | Some l \<Rightarrow> (if map_of (qc_queries qc) key = Some p_q then Some l else None))
      in case hit of
           Some l \<Rightarrow> (l, qc)
         | None \<Rightarrow>
             (let result = filter (\<lambda>a. query_matches p_q (deref a)) p_archetypes
              in (result, qc\<lparr>qc_queries := AList.update key p_q (qc_queries qc),
                             qc_cache := AList.update key result (qc_cache qc)\<rparr>)))"

definition world_match :: "query \<Rightarrow> 'u world \<Rightarrow> aid list \<times> 'u world" where
  "world_match q w =
     (let (r, qc) = qc_match q (w_archetype_list w) (arch w) (w_query_cache w)
      in (r, w\<lparr>w_query_cache := qc\<rparr>))"

section \<open>Internals\<close>

definition invalidate_cache :: "'u world \<Rightarrow> 'u world" where
  "invalidate_cache w =
     (if w_suppress_depth w > 0 then w\<lparr>w_pending_cache_invalidation := True\<rparr>
      else w\<lparr>w_cache_version := w_cache_version w + 1\<rparr>)"

definition bump_tick :: "'u world \<Rightarrow> 'u world" where
  "bump_tick w = (if w_change_tick w < - 1 then w\<lparr>w_change_tick := w_change_tick w + 1\<rparr> else w)"

definition compact_change_log :: "'u world \<Rightarrow> 'u world" where
  "compact_change_log w =
     w\<lparr>w_change_log := drop (length (w_change_log w) div 2) (w_change_log w),
       w_change_log_generation := w_change_log_generation w + 1\<rparr>"

definition log_change :: "entity \<Rightarrow> ctype \<Rightarrow> u64 \<Rightarrow> 'u world \<Rightarrow> 'u world" where
  "log_change p_e p_t p_tick w =
     (let w1 = w\<lparr>w_change_log := w_change_log w @ [\<lparr>cl_entity = p_e, cl_comp = p_t, cl_tick = p_tick\<rparr>]\<rparr>
      in if length (w_change_log w1) > CHANGE_LOG_SOFT_CAP then compact_change_log w1 else w1)"

definition dispatch :: "('u, 'v) env \<Rightarrow> 'v event \<Rightarrow> 'u world \<Rightarrow> 'u world \<times> int" where
  "dispatch E ev w = observer_dispatch_event (env_callback E) (w_observers w) ev w"

text \<open>The dispatches of the core ignore the delivery count and carry no name and no payload.\<close>

definition notify :: "('u, 'v) env \<Rightarrow> observer_event_type \<Rightarrow> entity \<Rightarrow> ctype \<Rightarrow> 'u world \<Rightarrow> 'u world" where
  "notify E ty e t w = fst (dispatch E (mk_event ty e t '''' None) w)"

definition alloc_entity_id :: "'u world \<Rightarrow> entity \<times> 'u world" where
  "alloc_entity_id w =
     (if w_free_slots w = [] then
        (if length (w_slot_generations w) \<ge> 0xFFFFFFFE then (null_entity, w)
         else (let idx = of_nat (length (w_slot_generations w));
                   w1 = w\<lparr>w_slot_generations := w_slot_generations w @ [0]\<rparr>
               in (make_entity idx (w_slot_generations w1 ! unat idx), w1)))
      else (let idx = last (w_free_slots w);
                w1 = w\<lparr>w_free_slots := butlast (w_free_slots w)\<rparr>
            in (make_entity idx (w_slot_generations w1 ! unat idx), w1)))"

definition free_entity_id :: "entity \<Rightarrow> 'u world \<Rightarrow> 'u world" where
  "free_entity_id p_e w =
     (let s = unat (slot p_e)
      in if s \<ge> length (w_slot_generations w) then w
         else if w_slot_generations w ! s \<noteq> generation p_e then w
         else if generation p_e = - 1
              then w\<lparr>w_slot_generations := (w_slot_generations w)[s := - 1]\<rparr>
         else w\<lparr>w_slot_generations := (w_slot_generations w)[s := generation p_e + 1],
                w_free_slots := w_free_slots w @ [slot p_e]\<rparr>)"

definition fnv_signature :: "ctype list \<Rightarrow> u64" where
  "fnv_signature p_ids = fold fnv_id p_ids 14695981039346656037"

definition create_archetype :: "('u, 'v) env \<Rightarrow> ctype list \<Rightarrow> 'u world \<Rightarrow> aid \<times> 'u world" where
  "create_archetype E p_ids w =
     (let a = w_next_aid w;
          col = (\<lambda>t. let s = the (schema_of (env_registry E) t)
                     in column_init (cs_size s) (cs_alignment s) empty_column);
          x = empty_arch\<lparr>a_component_ids := p_ids, a_signature := fnv_signature p_ids,
                          a_columns := map col p_ids\<rparr>
      in (a, w\<lparr>w_next_aid := a + 1, w_archs := (w_archs w)(a \<mapsto> x),
               w_archetypes := (w_archetypes w)(p_ids \<mapsto> a),
               w_archetype_list := w_archetype_list w @ [a],
               w_query_cache := qc_register_new_archetype a x (w_query_cache w)\<rparr>))"

definition ensure_archetype :: "('u, 'v) env \<Rightarrow> ctype list \<Rightarrow> 'u world \<Rightarrow> aid \<times> 'u world" where
  "ensure_archetype E p_ids w =
     (case w_archetypes w p_ids of Some a \<Rightarrow> (a, w) | None \<Rightarrow> create_archetype E p_ids w)"

text \<open>
  The merge walk of \<open>_move_entity_to\<close>: \<open>src\<close> and \<open>dst\<close> are the two sorted id lists, \<open>from\<close> the
  source archetype (never the target: callers move between different archetypes).
\<close>

definition copy_column :: "nat \<Rightarrow> column \<Rightarrow> nat \<Rightarrow> nat \<Rightarrow> column \<Rightarrow> column" where
  "copy_column bytes from_col from_row new_row to_col =
     (let c = row_write new_row (row_read bytes from_row from_col) to_col
      in if c_tracking c \<and> c_tracking from_col then set_version new_row (version_at from_row from_col) c
         else c)"

function copy_shared :: "(ctype \<Rightarrow> nat) \<Rightarrow> archetype \<Rightarrow> nat \<Rightarrow> nat \<Rightarrow> ctype list \<Rightarrow> ctype list \<Rightarrow> nat \<Rightarrow> nat
    \<Rightarrow> column list \<Rightarrow> column list" where
  "copy_shared bytes from from_row new_row src dst i j cols =
     (if i < length src \<and> j < length dst then
        (if src ! i < dst ! j then copy_shared bytes from from_row new_row src dst (i + 1) j cols
         else if dst ! j < src ! i then copy_shared bytes from from_row new_row src dst i (j + 1) cols
         else copy_shared bytes from from_row new_row src dst (i + 1) (j + 1)
                (cols[j := copy_column (bytes (src ! i)) (a_columns from ! i) from_row new_row (cols ! j)]))
      else cols)"
  by pat_completeness auto
termination
  by (relation "measure (\<lambda>(_, _, _, _, src, dst, i, j, _). (length src - i) + (length dst - j))") auto

declare copy_shared.simps [simp del]

definition schema_size :: "('u, 'v) env \<Rightarrow> ctype \<Rightarrow> nat" where
  "schema_size E t = cs_size (the (schema_of (env_registry E) t))"

definition move_entity_to :: "('u, 'v) env \<Rightarrow> entity \<Rightarrow> aid \<Rightarrow> aid \<Rightarrow> nat \<Rightarrow> 'u world \<Rightarrow> nat \<times> 'u world" where
  "move_entity_to E p_e p_from p_to p_from_row w =
     (let (new_row, to1) = arch_add_entity (env_heap E) p_e (w_change_tick w) (arch w p_to);
          from = arch w p_from;
          to2 = to1\<lparr>a_columns := copy_shared (schema_size E) from p_from_row new_row
                   (a_component_ids from) (a_component_ids to1) 0 0 (a_columns to1)\<rparr>;
          (moved, from1) = arch_remove_entity p_e from;
          w1 = set_arch p_from from1 (set_arch p_to to2 w)
      in (new_row, fix_moved_row moved p_from_row w1))"

end
