(* ===== verification/WorldOps.thy ===== *)
theory WorldOps
  imports World
begin

text \<open>
  The public operations of \<open>World\<close> (\<open>src/core/world.cpp\<close>): entities, components, change
  marks, deferred moves, command buffer, archetype lifecycle. An operation that the code
  refuses with \<open>ERR_PRINT\<close> (structural changes during iteration) returns the world unchanged.
  A component value given by pointer is a byte list option, \<open>None\<close> being the null pointer.
\<close>

section \<open>Construction\<close>

definition blank_world :: "'u \<Rightarrow> 'u world" where
  "blank_world u = \<lparr>w_slot_generations = [], w_free_slots = [], w_pool_slots = [], w_locations = [],
     w_archetypes = Map.empty, w_archetype_list = [], w_empty_archetype = 0, w_archs = Map.empty,
     w_next_aid = 0, w_query_cache = \<lparr>qc_cache = [], qc_queries = []\<rparr>, w_command_buffer = [],
     w_change_tick = 1, w_cache_version = 0, w_suppress_depth = 0, w_iteration_depth = 0,
     w_pending_cache_invalidation = False, w_defer_moves = False, w_deferred_entities = [],
     w_deferred_set = {}, w_pending_ops = Map.empty, w_pending_destroy = {},
     w_changed_baselines = Map.empty, w_custom_commands = Map.empty, w_observers = empty_dispatch,
     w_change_log = [], w_change_log_generation = 0, w_client = u\<rparr>"

definition new_world :: "('u, 'v) env \<Rightarrow> 'u \<Rightarrow> 'u world" where
  "new_world E u = (let (a, w) = create_archetype E [] (blank_world u) in w\<lparr>w_empty_archetype := a\<rparr>)"

section \<open>Entities\<close>

text \<open>The common end of the three creation functions: the entity enters the empty archetype.\<close>

definition place_entity :: "('u, 'v) env \<Rightarrow> entity \<Rightarrow> 'u world \<Rightarrow> 'u world" where
  "place_entity E e w =
     (let a = w_empty_archetype w;
          (row, x) = arch_add_entity (env_heap E) e (w_change_tick w) (arch w a)
      in invalidate_cache (set_location e a row (set_arch a x w)))"

definition create_entity :: "('u, 'v) env \<Rightarrow> 'u world \<Rightarrow> entity \<times> 'u world" where
  "create_entity E w =
     (let (e, w1) = alloc_entity_id w
      in if \<not> entity_bool e then (e, w1) else (e, place_entity E e w1))"

definition K_MAX_SLOT :: nat where
  "K_MAX_SLOT = 16777216"

definition resize_generations :: "nat \<Rightarrow> u32 list \<Rightarrow> u32 list" where
  "resize_generations n g = g @ replicate (n - length g) 0"

definition create_entity_preassigned :: "('u, 'v) env \<Rightarrow> u64 \<Rightarrow> 'u world \<Rightarrow> entity \<times> 'u world" where
  "create_entity_preassigned E p_id w =
     (let e = Entity p_id; s = slot e
      in if s = 0xFFFFFFFF then (null_entity, w)
         else if unat s \<ge> K_MAX_SLOT then (null_entity, w)
         else (let w1 = (if unat s \<ge> length (w_slot_generations w)
                         then w\<lparr>w_slot_generations := resize_generations (unat s + 1) (w_slot_generations w)\<rparr>
                         else w)
               in if location_of w1 e \<noteq> None then (null_entity, w1)
                  else (e, place_entity E e
                          (w1\<lparr>w_slot_generations := (w_slot_generations w1)[unat s := generation e]\<rparr>))))"

definition is_alive :: "'u world \<Rightarrow> entity \<Rightarrow> bool" where
  "is_alive w p_e \<longleftrightarrow> entity_bool p_e \<and> location_of w p_e \<noteq> None"

text \<open>The removal from the archetype and from the location map that all destructions share.\<close>

definition unplace_entity :: "entity \<Rightarrow> location \<Rightarrow> 'u world \<Rightarrow> 'u world" where
  "unplace_entity p_e l w =
     (let (moved, x) = arch_remove_entity p_e (arch w (loc_archetype l))
      in fix_moved_row moved (loc_row l) (erase_location p_e (set_arch (loc_archetype l) x w)))"

definition notify_removed :: "('u, 'v) env \<Rightarrow> entity \<Rightarrow> ctype list \<Rightarrow> 'u world \<Rightarrow> 'u world" where
  "notify_removed E e ts w = fold (notify E Removed e) ts w"

definition destroy_entity :: "('u, 'v) env \<Rightarrow> entity \<Rightarrow> 'u world \<Rightarrow> 'u world" where
  "destroy_entity E p_e w =
     (case location_of w p_e of
        None \<Rightarrow> w
      | Some l \<Rightarrow>
          if in_iteration w then w
          else (let removed_types = a_component_ids (arch w (loc_archetype l))
                in invalidate_cache (notify_removed E p_e removed_types
                     (free_entity_id p_e (unplace_entity p_e l w)))))"

definition queue_deferred_move :: "entity \<Rightarrow> 'u world \<Rightarrow> 'u world" where
  "queue_deferred_move p_e w =
     (if p_e \<in> w_deferred_set w then w
      else w\<lparr>w_deferred_set := insert p_e (w_deferred_set w),
             w_deferred_entities := w_deferred_entities w @ [p_e]\<rparr>)"

definition destroy_entity_deferred :: "('u, 'v) env \<Rightarrow> entity \<Rightarrow> 'u world \<Rightarrow> 'u world" where
  "destroy_entity_deferred E p_e w =
     (if w_defer_moves w then
        (if is_alive w p_e
         then queue_deferred_move p_e (w\<lparr>w_pending_destroy := insert p_e (w_pending_destroy w)\<rparr>)
         else w)
      else destroy_entity E p_e w)"

definition create_entity_pooled :: "('u, 'v) env \<Rightarrow> 'u world \<Rightarrow> entity \<times> 'u world" where
  "create_entity_pooled E w =
     (if w_pool_slots w \<noteq> [] then
        (let e = last (w_pool_slots w)
         in (e, place_entity E e (w\<lparr>w_pool_slots := butlast (w_pool_slots w)\<rparr>)))
      else create_entity E w)"

definition destroy_entity_pooled :: "('u, 'v) env \<Rightarrow> entity \<Rightarrow> 'u world \<Rightarrow> 'u world" where
  "destroy_entity_pooled E p_e w =
     (case location_of w p_e of
        None \<Rightarrow> w
      | Some l \<Rightarrow>
          if in_iteration w then w
          else (let removed_types = a_component_ids (arch w (loc_archetype l));
                    w1 = unplace_entity p_e l w
                in invalidate_cache (notify_removed E p_e removed_types
                     (w1\<lparr>w_pool_slots := w_pool_slots w1 @ [p_e]\<rparr>))))"

definition set_entity_range :: "nat \<Rightarrow> 'u world \<Rightarrow> 'u world" where
  "set_entity_range p_base_index w =
     (if length (w_slot_generations w) < p_base_index
      then w\<lparr>w_slot_generations := resize_generations p_base_index (w_slot_generations w)\<rparr> else w)"

definition entity_count :: "'u world \<Rightarrow> u32" where
  "entity_count w = of_nat (length (w_locations w))"

section \<open>Components\<close>

definition has :: "'u world \<Rightarrow> entity \<Rightarrow> ctype \<Rightarrow> bool" where
  "has w p_e p_t =
     (if \<not> entity_bool p_e then False
      else (case location_of w p_e of None \<Rightarrow> False
            | Some l \<Rightarrow> has_component (arch w (loc_archetype l)) p_t))"

text \<open>A non-null pointer into a column is the archetype, the component type and the row.\<close>

type_synonym row_ptr = "aid \<times> ctype \<times> nat"

definition get_raw :: "'u world \<Rightarrow> entity \<Rightarrow> ctype \<Rightarrow> row_ptr option" where
  "get_raw w p_e p_t =
     (if \<not> entity_bool p_e then None
      else (case location_of w p_e of None \<Rightarrow> None
            | Some l \<Rightarrow> (if \<not> has_component (arch w (loc_archetype l)) p_t then None
                         else Some (loc_archetype l, p_t, loc_row l))))"

definition load_row :: "'u world \<Rightarrow> row_ptr \<Rightarrow> byte list" where
  "load_row w p = (case p of (a, t, r) \<Rightarrow>
     (let c = column_of (arch w a) t in row_read (c_elem_size c) r c))"

definition update_arch_column :: "aid \<Rightarrow> ctype \<Rightarrow> (column \<Rightarrow> column) \<Rightarrow> 'u world \<Rightarrow> 'u world" where
  "update_arch_column a t f w = set_arch a (update_column t f (arch w a)) w"

definition store_row :: "row_ptr \<Rightarrow> byte list \<Rightarrow> 'u world \<Rightarrow> 'u world" where
  "store_row p bs w = (case p of (a, t, r) \<Rightarrow> update_arch_column a t (row_write r bs) w)"

text \<open>
  The write both branches of \<open>add_raw\<close> and the commit of deferred operations share: the bytes,
  the change mark with a new tick, the log entry of a tracked column.
\<close>

definition write_component :: "entity \<Rightarrow> ctype \<Rightarrow> aid \<Rightarrow> nat \<Rightarrow> byte list \<Rightarrow> 'u world \<Rightarrow> 'u world" where
  "write_component p_e p_t a row bs w =
     (let w1 = bump_tick (store_row (a, p_t, row) bs w);
          w2 = update_arch_column a p_t (column_mark_changed row (w_change_tick w1)) w1
      in if c_tracking (column_of (arch w2 a) p_t) then log_change p_e p_t (w_change_tick w2) w2 else w2)"

definition value_bytes :: "component_schema \<Rightarrow> byte list option \<Rightarrow> byte list" where
  "value_bytes schema p_data =
     (case p_data of Some d \<Rightarrow> take (cs_size schema) d | None \<Rightarrow> replicate (cs_size schema) 0)"

definition push_pending :: "entity \<Rightarrow> pending_op \<Rightarrow> 'u world \<Rightarrow> 'u world" where
  "push_pending p_e op w = queue_deferred_move p_e
     (w\<lparr>w_pending_ops := (w_pending_ops w)(p_e \<mapsto>
          (case w_pending_ops w p_e of None \<Rightarrow> [] | Some ops \<Rightarrow> ops) @ [op])\<rparr>)"

definition add_raw :: "('u, 'v) env \<Rightarrow> entity \<Rightarrow> ctype \<Rightarrow> byte list option \<Rightarrow> 'u world \<Rightarrow> 'u world" where
  "add_raw E p_e p_t p_data w =
     (if \<not> is_alive w p_e then w
      else case schema_of (env_registry E) p_t of
        None \<Rightarrow> w
      | Some schema \<Rightarrow>
          if w_defer_moves w then
            push_pending p_e \<lparr>po_type = p_t, po_add = True,
              po_data = (case p_data of Some d \<Rightarrow> take (cs_size schema) d | None \<Rightarrow> [])\<rparr> w
          else
            (let l = the (location_of w p_e);
                 cur = loc_archetype l
             in if has_component (arch w cur) p_t then
                  notify E Changed p_e p_t
                    (write_component p_e p_t cur (loc_row l) (value_bytes schema p_data) w)
                else if in_iteration w then w
                else
                  (let new_ids = sort (a_component_ids (arch w cur) @ [p_t]);
                       (target, w1) = ensure_archetype E new_ids w;
                       (new_row, w2) = move_entity_to E p_e cur target (loc_row l) w1;
                       w3 = set_location p_e target new_row w2;
                       w4 = write_component p_e p_t target new_row (value_bytes schema p_data) w3
                   in invalidate_cache (notify E Added p_e p_t w4))))"

definition remove_component :: "('u, 'v) env \<Rightarrow> entity \<Rightarrow> ctype \<Rightarrow> 'u world \<Rightarrow> 'u world" where
  "remove_component E p_e p_t w =
     (if \<not> is_alive w p_e then w
      else if w_defer_moves w then
        push_pending p_e \<lparr>po_type = p_t, po_add = False, po_data = []\<rparr> w
      else
        (let l = the (location_of w p_e);
             cur = loc_archetype l
         in if \<not> has_component (arch w cur) p_t then w
            else if in_iteration w then w
            else
              (let new_ids = remove1 p_t (a_component_ids (arch w cur));
                   (target, w1) = ensure_archetype E new_ids w;
                   (new_row, w2) = move_entity_to E p_e cur target (loc_row l) w1;
                   w3 = set_location p_e target new_row w2
               in invalidate_cache (notify E Removed p_e p_t w3))))"

definition mark_changed_field :: "('u, 'v) env \<Rightarrow> entity \<Rightarrow> ctype \<Rightarrow> string \<Rightarrow> 'u world \<Rightarrow> 'u world" where
  "mark_changed_field E p_e p_t p_field w =
     (if \<not> is_alive w p_e then w
      else
        (let l = the (location_of w p_e);
             a = loc_archetype l
         in if \<not> has_component (arch w a) p_t then w
            else
              (let w1 = bump_tick (update_arch_column a p_t (ensure_versions (w_change_tick w)) w);
                   w2 = update_arch_column a p_t (column_mark_changed (loc_row l) (w_change_tick w1)) w1;
                   w3 = log_change p_e p_t (w_change_tick w2) w2
               in fst (dispatch E (mk_event Changed p_e p_t p_field None) w3))))"

definition mark_changed :: "('u, 'v) env \<Rightarrow> entity \<Rightarrow> ctype \<Rightarrow> 'u world \<Rightarrow> 'u world" where
  "mark_changed E p_e p_t w = mark_changed_field E p_e p_t '''' w"

definition get_entity_component_types :: "'u world \<Rightarrow> entity \<Rightarrow> ctype list" where
  "get_entity_component_types w p_e =
     (if \<not> is_alive w p_e then []
      else a_component_ids (arch w (loc_archetype (the (location_of w p_e)))))"

definition emit_event :: "('u, 'v) env \<Rightarrow> string \<Rightarrow> entity \<Rightarrow> 'v option \<Rightarrow> 'u world \<Rightarrow> int \<times> 'u world" where
  "emit_event E p_name p_e p_payload w =
     (let (w1, n) = dispatch E (mk_event Custom p_e 0 p_name p_payload) w in (n, w1))"

section \<open>Suppression and change baselines\<close>

definition register_custom_command :: "u32 \<Rightarrow> nat \<Rightarrow> 'u world \<Rightarrow> 'u world" where
  "register_custom_command p_id p_fn w = w\<lparr>w_custom_commands := (w_custom_commands w)(p_id \<mapsto> p_fn)\<rparr>"

definition run_custom_command :: "('u, 'v) env \<Rightarrow> u32 \<Rightarrow> byte list \<Rightarrow> 'u world \<Rightarrow> 'u world" where
  "run_custom_command E p_id p_data w =
     (case w_custom_commands w p_id of None \<Rightarrow> w | Some f \<Rightarrow> env_custom E f p_data w)"

definition begin_suppress :: "'u world \<Rightarrow> 'u world" where
  "begin_suppress w = w\<lparr>w_suppress_depth := w_suppress_depth w + 1\<rparr>"

definition flush_invalidation :: "'u world \<Rightarrow> 'u world" where
  "flush_invalidation w =
     (if w_suppress_depth w = 0 \<and> w_pending_cache_invalidation w
      then w\<lparr>w_pending_cache_invalidation := False, w_cache_version := w_cache_version w + 1\<rparr> else w)"

definition end_suppress :: "'u world \<Rightarrow> 'u world" where
  "end_suppress w =
     (if w_suppress_depth w > 0
      then flush_invalidation (w\<lparr>w_suppress_depth := w_suppress_depth w - 1\<rparr>) else w)"

definition changed_baseline :: "'u world \<Rightarrow> u64 \<Rightarrow> u64 \<times> bool" where
  "changed_baseline w sig = (case w_changed_baselines w sig of None \<Rightarrow> (0, False) | Some t \<Rightarrow> (t, True))"

definition set_changed_baseline :: "u64 \<Rightarrow> u64 \<Rightarrow> 'u world \<Rightarrow> 'u world" where
  "set_changed_baseline sig p_tick w = w\<lparr>w_changed_baselines := (w_changed_baselines w)(sig \<mapsto> p_tick)\<rparr>"

section \<open>Deferred moves\<close>

definition begin_deferred_moves :: "'u world \<Rightarrow> 'u world" where
  "begin_deferred_moves w = w\<lparr>w_defer_moves := True\<rparr>"

text \<open>The pass over the queued operations: the final set and the data of the last add per type.\<close>

fun replay_ops :: "pending_op list \<Rightarrow> ctype set \<times> (ctype \<rightharpoonup> byte list option)
    \<Rightarrow> ctype set \<times> (ctype \<rightharpoonup> byte list option)" where
  "replay_ops [] (final_set, last_add_data) = (final_set, last_add_data)"
| "replay_ops (op # ops) (final_set, last_add_data) =
     (if po_add op
      then replay_ops ops (insert (po_type op) final_set,
             last_add_data(po_type op \<mapsto> (if po_data op = [] then None else Some (po_data op))))
      else replay_ops ops (final_set - {po_type op}, last_add_data))"

definition commit_write :: "('u, 'v) env \<Rightarrow> entity \<Rightarrow> aid \<Rightarrow> nat \<Rightarrow> (ctype \<rightharpoonup> byte list option) \<Rightarrow> ctype
    \<Rightarrow> 'u world \<Rightarrow> 'u world" where
  "commit_write E p_e host row last_add_data t w =
     (case last_add_data t of
        None \<Rightarrow> w
      | Some d \<Rightarrow> write_component p_e t host row
          (case d of Some bs \<Rightarrow> bs | None \<Rightarrow> replicate (schema_size E t) 0) w)"

definition commit_deferred_move :: "('u, 'v) env \<Rightarrow> entity \<Rightarrow> 'u world \<Rightarrow> 'u world" where
  "commit_deferred_move E p_e w =
     (case location_of w p_e of
        None \<Rightarrow> w
      | Some l \<Rightarrow>
        (case w_pending_ops w p_e of
           None \<Rightarrow> w
         | Some ops \<Rightarrow>
           (let cur = loc_archetype l;
                cur_ids = a_component_ids (arch w cur);
                original_set = set cur_ids;
                (final_set, last_add_data) = replay_ops ops (original_set, Map.empty);
                final_ids = sorted_list_of_set final_set;
                structural = (final_ids \<noteq> cur_ids);
                (host, row, w1) =
                  (if structural then
                     (let (host, wa) = ensure_archetype E final_ids w;
                          (new_row, wb) = move_entity_to E p_e cur host (loc_row l) wa
                      in (host, new_row, set_location p_e host new_row wb))
                   else (cur, loc_row l, w));
                w2 = fold (commit_write E p_e host row last_add_data) final_ids w1;
                w3 = fold (\<lambda>t u. if t \<notin> original_set then notify E Added p_e t u
                                 else if last_add_data t \<noteq> None then notify E Changed p_e t u
                                 else u) final_ids w2;
                w4 = fold (\<lambda>t u. if t \<notin> final_set then notify E Removed p_e t u else u) cur_ids w3
            in if structural then invalidate_cache w4 else w4)))"

text \<open>
  Both loops of \<open>end_deferred_moves\<close> walk \<open>deferred_entities_\<close>, which only a nested flush from
  a callback could change; the model walks the list as it is on entry.
\<close>

definition end_deferred_moves :: "('u, 'v) env \<Rightarrow> 'u world \<Rightarrow> 'u world" where
  "end_deferred_moves E w =
     (if \<not> w_defer_moves w then w
      else
        (let queued = w_deferred_entities w;
             w1 = w\<lparr>w_defer_moves := False\<rparr>;
             w2 = fold (\<lambda>e u. if e \<in> w_pending_destroy u then destroy_entity E e u else u) queued w1;
             w3 = fold (\<lambda>e u. if e \<in> w_pending_destroy u then u else commit_deferred_move E e u) queued w2;
             w4 = w3\<lparr>w_pending_ops := Map.empty, w_pending_destroy := {}, w_deferred_entities := [],
                      w_deferred_set := {}\<rparr>
         in flush_invalidation w4))"

section \<open>Archetype lifecycle\<close>

definition compact_step :: "aid \<Rightarrow> 'u world \<times> aid list \<Rightarrow> 'u world \<times> aid list" where
  "compact_step a r =
     (case r of (w, keep) \<Rightarrow>
        if a \<noteq> w_empty_archetype w \<and> a_entities (arch w a) = []
        then (w\<lparr>w_archetypes := (w_archetypes w)(a_component_ids (arch w a) := None),
                w_query_cache := qc_erase_archetype a (w_query_cache w),
                w_archs := (w_archs w)(a := None)\<rparr>, keep)
        else (w, keep @ [a]))"

definition compact :: "'u world \<Rightarrow> 'u world" where
  "compact w =
     (let (w1, keep) = fold compact_step (w_archetype_list w) (w, []) in w1\<lparr>w_archetype_list := keep\<rparr>)"

definition clear_step :: "entity \<Rightarrow> 'u world \<Rightarrow> 'u world" where
  "clear_step e w =
     (case location_of w e of None \<Rightarrow> w | Some l \<Rightarrow> free_entity_id e (unplace_entity e l w))"

definition world_clear :: "('u, 'v) env \<Rightarrow> 'u world \<Rightarrow> 'u world" where
  "world_clear E w =
     (if in_iteration w then w
      else
        (let all = env_order E (map fst (w_locations w));
             w1 = invalidate_cache (fold clear_step all w);
             w2 = w1\<lparr>w_change_log := [], w_change_log_generation := w_change_log_generation w1 + 1\<rparr>
         in fst (dispatch E (mk_event Custom null_entity 0 ''world_cleared'' None) w2)))"

definition world_reset :: "'u world \<Rightarrow> 'u world" where
  "world_reset w =
     w\<lparr>w_command_buffer := [], w_changed_baselines := Map.empty, w_pending_ops := Map.empty,
       w_pending_destroy := {}, w_deferred_entities := [], w_deferred_set := {},
       w_custom_commands := Map.empty, w_change_log := [],
       w_change_log_generation := w_change_log_generation w + 1, w_pool_slots := [],
       w_suppress_depth := 0, w_iteration_depth := 0, w_pending_cache_invalidation := False,
       w_defer_moves := False, w_observers := observer_clear (w_observers w)\<rparr>"

text \<open>The result is the archetype and row \<open>move_entity\<close> reports (\<open>None\<close> for \<open>nullptr\<close>).\<close>

definition move_entity :: "('u, 'v) env \<Rightarrow> entity \<Rightarrow> aid \<Rightarrow> 'u world \<Rightarrow> (aid \<times> nat) option \<times> 'u world" where
  "move_entity E p_e p_target w =
     (if \<not> is_alive w p_e then (None, w)
      else if in_iteration w then (None, w)
      else
        (let l = the (location_of w p_e); cur = loc_archetype l
         in if cur = p_target then (Some (p_target, loc_row l), w)
            else (let (row, w1) = move_entity_to E p_e cur p_target (loc_row l) w
                  in (Some (p_target, row), invalidate_cache (set_location p_e p_target row w1)))))"

section \<open>Iteration\<close>

text \<open>
  \<open>for_each\<close>, \<open>for_each_enabled\<close> and \<open>View::each\<close> hand every row of every matching archetype to
  the callback, with a pointer into one column per template parameter. \<open>comps\<close> are the component
  types of the template parameters, in their order. \<open>View\<close> takes the columns in that order;
  \<open>for_each\<close> and \<open>for_each_enabled\<close> index the id array they have sorted for the query. The
  iteration guard refuses every operation that changes the rows of a matched archetype, so the
  walk is over the archetypes and rows found at its start (not guarded, and outside the model:
  \<open>compact\<close> during the walk, and entity creation during a walk with no component at all).
\<close>

definition comps_query :: "ctype list \<Rightarrow> query" where
  "comps_query comps = \<lparr>q_all = sort comps, q_any = [], q_none = []\<rparr>"

type_synonym 'u row_fn = "entity \<Rightarrow> row_ptr list \<Rightarrow> 'u world \<Rightarrow> 'u world"

definition for_each_row :: "'u row_fn \<Rightarrow> aid \<Rightarrow> ctype list \<Rightarrow> nat \<Rightarrow> 'u world \<Rightarrow> 'u world" where
  "for_each_row p_fn a p_ids row w = p_fn (a_entities (arch w a) ! row) (map (\<lambda>t. (a, t, row)) p_ids) w"

definition for_each :: "ctype list \<Rightarrow> 'u row_fn \<Rightarrow> 'u world \<Rightarrow> 'u world" where
  "for_each comps p_fn w =
     (let s_ids = sort comps;
          (arches, w1) = world_match (comps_query comps) w;
          w2 = begin_iteration w1;
          w3 = fold (\<lambda>a u. fold (for_each_row p_fn a s_ids) [0..<length (a_entities (arch u a))] u) arches w2
      in end_iteration w3)"

definition for_each_enabled :: "ctype list \<Rightarrow> 'u row_fn \<Rightarrow> 'u world \<Rightarrow> 'u world" where
  "for_each_enabled comps p_fn w =
     (let s_ids = sort comps;
          (arches, w1) = world_match (comps_query comps) w;
          w2 = begin_iteration w1;
          w3 = fold (\<lambda>a u. fold (\<lambda>row v. if arch_get_enabled row (arch v a)
                                         then for_each_row p_fn a s_ids row v else v)
                              [0..<length (a_entities (arch u a))] u) arches w2
      in end_iteration w3)"

definition view_each :: "ctype list \<Rightarrow> 'u row_fn \<Rightarrow> 'u world \<Rightarrow> 'u world" where
  "view_each comps p_fn w =
     (let (arches, w1) = world_match (comps_query comps) w;
          w2 = begin_iteration w1;
          w3 = fold (\<lambda>a u. fold (for_each_row p_fn a comps) [0..<length (a_entities (arch u a))] u) arches w2
      in end_iteration w3)"

definition view_count :: "ctype list \<Rightarrow> 'u world \<Rightarrow> nat \<times> 'u world" where
  "view_count comps w =
     (let (arches, w1) = world_match (comps_query comps) w
      in (fold (\<lambda>a n. n + length (a_entities (arch w1 a))) arches 0, w1))"

section \<open>Command buffer\<close>

text \<open>
  The queueing functions: a null or empty payload leaves the command's data empty.
\<close>

definition cb_push :: "command \<Rightarrow> 'u world \<Rightarrow> 'u world" where
  "cb_push c w = w\<lparr>w_command_buffer := w_command_buffer w @ [c]\<rparr>"

definition cb_add_component :: "entity \<Rightarrow> ctype \<Rightarrow> byte list option \<Rightarrow> 'u world \<Rightarrow> 'u world" where
  "cb_add_component p_e p_t p_data w =
     cb_push (AddComponent p_e p_t (case p_data of Some d \<Rightarrow> d | None \<Rightarrow> [])) w"

definition cb_remove_component :: "entity \<Rightarrow> ctype \<Rightarrow> 'u world \<Rightarrow> 'u world" where
  "cb_remove_component p_e p_t w = cb_push (RemoveComponent p_e p_t) w"

definition cb_add_entity :: "entity \<Rightarrow> 'u world \<Rightarrow> 'u world" where
  "cb_add_entity p_e w = cb_push (AddEntity p_e) w"

definition cb_remove_entity :: "entity \<Rightarrow> 'u world \<Rightarrow> 'u world" where
  "cb_remove_entity p_e w = cb_push (RemoveEntity p_e) w"

definition cb_add_custom :: "u32 \<Rightarrow> byte list option \<Rightarrow> 'u world \<Rightarrow> 'u world" where
  "cb_add_custom p_id p_data w =
     cb_push (CustomCommand p_id (case p_data of Some d \<Rightarrow> d | None \<Rightarrow> [])) w"

fun run_command :: "('u, 'v) env \<Rightarrow> command \<Rightarrow> 'u world \<Rightarrow> 'u world" where
  "run_command E (AddComponent e t d) w = add_raw E e t (if d = [] then None else Some d) w"
| "run_command E (RemoveComponent e t) w = remove_component E e t w"
| "run_command E (AddEntity e) w =
     (if \<not> is_alive w e then snd (create_entity_preassigned E (eid e) w) else w)"
| "run_command E (RemoveEntity e) w = destroy_entity_deferred E e w"
| "run_command E (CustomCommand i d) w = run_custom_command E i d w"

definition execute_commands :: "('u, 'v) env \<Rightarrow> 'u world \<Rightarrow> 'u world" where
  "execute_commands E w =
     (if w_command_buffer w = [] then w
      else if in_iteration w then w
      else
        (let ops = w_command_buffer w;
             w1 = begin_deferred_moves (begin_suppress (w\<lparr>w_command_buffer := []\<rparr>));
             w2 = fold (run_command E) ops w1
         in end_suppress (end_deferred_moves E w2)))"

section \<open>Change log positions\<close>

text \<open>The binary search of \<open>change_log_lower_bound\<close>.\<close>

function log_search :: "change_log_entry list \<Rightarrow> u64 \<Rightarrow> nat \<Rightarrow> nat \<Rightarrow> nat" where
  "log_search log p_tick lo hi =
     (if lo < hi then
        (let mid = lo + (hi - lo) div 2
         in if cl_tick (log ! mid) \<le> p_tick then log_search log p_tick (mid + 1) hi
            else log_search log p_tick lo mid)
      else lo)"
  by pat_completeness auto
termination
  by (relation "measure (\<lambda>(_, _, lo, hi). hi - lo)") auto

declare log_search.simps [simp del]

definition change_log_lower_bound :: "'u world \<Rightarrow> u64 \<Rightarrow> nat" where
  "change_log_lower_bound w p_tick = log_search (w_change_log w) p_tick 0 (length (w_change_log w))"

end
