(* ===== verification/WorldInv.thy ===== *)
theory WorldInv
  imports WorldOps
begin

text \<open>
  The structural invariant of a world (\<open>wf_store\<close>): the archetype heap, the archetype list and
  the map from component sets to archetypes describe the same archetypes; the location map and
  the row maps of the archetypes are inverse to each other; every column has the row size of
  its component; every entry of the query cache is the filtered archetype list. Each primitive
  step of the operations preserves it; the abstraction \<open>content\<close> (entity to component type to
  bytes) says what the step does to the data.
\<close>

section \<open>Invariant and abstraction\<close>

definition typed_columns :: "registry \<Rightarrow> archetype \<Rightarrow> bool" where
  "typed_columns reg a \<longleftrightarrow> (\<forall>j < length (a_component_ids a).
     \<exists>s. schema_of reg (a_component_ids a ! j) = Some s \<and> c_elem_size (a_columns a ! j) = cs_size s)"

definition wf_archs :: "registry \<Rightarrow> 'u world \<Rightarrow> bool" where
  "wf_archs reg w \<longleftrightarrow>
     distinct (w_archetype_list w) \<and> set (w_archetype_list w) = dom (w_archs w)
   \<and> (\<forall>a\<in>set (w_archetype_list w). a < w_next_aid w \<and> wf_arch (arch w a) \<and> typed_columns reg (arch w a))
   \<and> (\<forall>ids a. w_archetypes w ids = Some a \<longleftrightarrow>
        a \<in> set (w_archetype_list w) \<and> a_component_ids (arch w a) = ids)
   \<and> w_archetypes w [] = Some (w_empty_archetype w)"

definition wf_locations :: "'u world \<Rightarrow> bool" where
  "wf_locations w \<longleftrightarrow>
     distinct (map fst (w_locations w))
   \<and> (\<forall>e l. location_of w e = Some l \<longleftrightarrow>
        loc_archetype l \<in> set (w_archetype_list w)
      \<and> a_entity_to_row (arch w (loc_archetype l)) e = Some (loc_row l))"

definition wf_query_cache :: "'u world \<Rightarrow> bool" where
  "wf_query_cache w \<longleftrightarrow>
     distinct (map fst (qc_queries (w_query_cache w)))
   \<and> (\<forall>k q. map_of (qc_queries (w_query_cache w)) k = Some q \<longrightarrow>
        k = membership_signature q
      \<and> map_of (qc_cache (w_query_cache w)) k
          = Some (filter (\<lambda>a. query_matches q (arch w a)) (w_archetype_list w)))"

definition wf_pending :: "registry \<Rightarrow> 'u world \<Rightarrow> bool" where
  "wf_pending reg w \<longleftrightarrow>
     (\<forall>e ops op. w_pending_ops w e = Some ops \<longrightarrow> op \<in> set ops \<longrightarrow> po_add op \<longrightarrow>
        (\<exists>s. schema_of reg (po_type op) = Some s \<and> length (po_data op) \<le> cs_size s))"

definition wf_store :: "registry \<Rightarrow> 'u world \<Rightarrow> bool" where
  "wf_store reg w \<longleftrightarrow> wf_archs reg w \<and> wf_locations w \<and> wf_query_cache w \<and> wf_pending reg w"

text \<open>The data of a world: which entities live, and the bytes of each of their components.\<close>

definition content :: "'u world \<Rightarrow> entity \<rightharpoonup> (ctype \<rightharpoonup> byte list)" where
  "content w e = (case location_of w e of None \<Rightarrow> None
     | Some l \<Rightarrow> Some (\<lambda>t. cell (arch w (loc_archetype l)) t e))"

section \<open>Consequences\<close>

lemma wf_archsD:
  assumes "wf_archs reg w"
  shows "distinct (w_archetype_list w)" "set (w_archetype_list w) = dom (w_archs w)"
    "a \<in> set (w_archetype_list w) \<Longrightarrow> a < w_next_aid w"
    "a \<in> set (w_archetype_list w) \<Longrightarrow> wf_arch (arch w a)"
    "a \<in> set (w_archetype_list w) \<Longrightarrow> typed_columns reg (arch w a)"
    "w_archetypes w ids = Some a \<longleftrightarrow> a \<in> set (w_archetype_list w) \<and> a_component_ids (arch w a) = ids"
    "w_empty_archetype w \<in> set (w_archetype_list w)"
    "a_component_ids (arch w (w_empty_archetype w)) = []"
  using assms unfolding wf_archs_def by blast+

lemma wf_storeD:
  assumes "wf_store reg w"
  shows "wf_archs reg w" "wf_locations w" "wf_query_cache w" "wf_pending reg w"
  using assms by (auto simp: wf_store_def)

lemma wf_locationD:
  assumes "wf_store reg w" "location_of w e = Some l"
  shows "loc_archetype l \<in> set (w_archetype_list w)"
    "a_entity_to_row (arch w (loc_archetype l)) e = Some (loc_row l)"
    "wf_arch (arch w (loc_archetype l))" "typed_columns reg (arch w (loc_archetype l))"
    "loc_row l < length (a_entities (arch w (loc_archetype l)))"
    "a_entities (arch w (loc_archetype l)) ! loc_row l = e" "e \<noteq> null_entity"
proof -
  show 1: "loc_archetype l \<in> set (w_archetype_list w)"
    "a_entity_to_row (arch w (loc_archetype l)) e = Some (loc_row l)"
    using assms by (auto simp: wf_store_def wf_locations_def)
  show 2: "wf_arch (arch w (loc_archetype l))" "typed_columns reg (arch w (loc_archetype l))"
    using wf_archsD(4,5) [OF wf_storeD(1) [OF assms(1)] 1(1)] .
  show 3: "loc_row l < length (a_entities (arch w (loc_archetype l)))"
    "a_entities (arch w (loc_archetype l)) ! loc_row l = e"
    using 1(2) wf_archD(8) [OF 2(1)] by auto
  then show "e \<noteq> null_entity" using wf_archD(7) [OF 2(1)] by (metis nth_mem)
qed

lemma not_located:
  assumes "wf_store reg w" "location_of w e = None" "a \<in> set (w_archetype_list w)"
  shows "e \<notin> set (a_entities (arch w a))" "a_entity_to_row (arch w a) e = None"
proof -
  show n: "a_entity_to_row (arch w a) e = None"
  proof (rule ccontr)
    assume "a_entity_to_row (arch w a) e \<noteq> None"
    then obtain r where "a_entity_to_row (arch w a) e = Some r" by auto
    then have "location_of w e = Some \<lparr>loc_archetype = a, loc_row = r\<rparr>"
      using assms(1,3) by (simp add: wf_store_def wf_locations_def)
    then show False using assms(2) by simp
  qed
  then show "e \<notin> set (a_entities (arch w a))"
    using wf_archD(8) [OF wf_archsD(4) [OF wf_storeD(1) [OF assms(1)] assms(3)], of e]
    by (auto simp: in_set_conv_nth)
qed

lemma located_once:
  assumes "wf_store reg w" "location_of w e = Some l" "a \<in> set (w_archetype_list w)" "a \<noteq> loc_archetype l"
  shows "a_entity_to_row (arch w a) e = None" "e \<notin> set (a_entities (arch w a))"
proof -
  show n: "a_entity_to_row (arch w a) e = None"
  proof (rule ccontr)
    assume "a_entity_to_row (arch w a) e \<noteq> None"
    then obtain r where "a_entity_to_row (arch w a) e = Some r" by auto
    then have "location_of w e = Some \<lparr>loc_archetype = a, loc_row = r\<rparr>"
      using assms(1,3) by (simp add: wf_store_def wf_locations_def)
    then show False using assms(2,4) by simp
  qed
  then show "e \<notin> set (a_entities (arch w a))"
    using wf_archD(8) [OF wf_archsD(4) [OF wf_storeD(1) [OF assms(1)] assms(3)], of e]
    by (auto simp: in_set_conv_nth)
qed

text \<open>A null handle is never located, so the explicit checks of the code are redundant.\<close>

lemma null_not_located: "wf_store reg w \<Longrightarrow> location_of w null_entity = None"
  using wf_locationD(7) by (metis option.exhaust)

lemma is_alive_iff: "wf_store reg w \<Longrightarrow> is_alive w e \<longleftrightarrow> location_of w e \<noteq> None"
  by (cases "e = null_entity") (auto simp: is_alive_def entity_bool_iff null_not_located)

lemma is_alive_content: "wf_store reg w \<Longrightarrow> is_alive w e \<longleftrightarrow> content w e \<noteq> None"
  by (auto simp: is_alive_iff content_def split: option.splits)

section \<open>Frames\<close>

lemma location_simps [simp]:
  "location_of (set_arch a x w) e = location_of w e"
  "location_of (set_location e' a r w) e =
     (if e = e' then Some \<lparr>loc_archetype = a, loc_row = r\<rparr> else location_of w e)"
  "location_of (erase_location e' w) e = (if e = e' then None else location_of w e)"
  by (simp_all add: location_of_def set_arch_def set_location_def erase_location_def)

lemma arch_simps [simp]:
  "arch (set_arch a x w) b = (if b = a then x else arch w b)"
  "arch (set_location e a' r w) b = arch w b" "arch (erase_location e w) b = arch w b"
  by (simp_all add: arch_def set_arch_def set_location_def erase_location_def)

lemma fix_moved_row_arch [simp]: "arch (fix_moved_row m r w) b = arch w b"
  by (simp add: fix_moved_row_def split: option.splits)

lemma fix_moved_row_location [simp]:
  "location_of (fix_moved_row m r w) e =
     (if e = m \<and> m \<noteq> null_entity then map_option (\<lambda>l. l\<lparr>loc_row := r\<rparr>) (location_of w m) else location_of w e)"
  by (auto simp: fix_moved_row_def entity_bool_iff split: option.splits)

text \<open>What the location and archetype primitives leave alone.\<close>

lemma core_frame [frame_simps]:
  "w_archetype_list (set_arch a x w) = w_archetype_list w"
  "w_archetype_list (set_location e b r w) = w_archetype_list w"
  "w_archetype_list (erase_location e w) = w_archetype_list w"
  "w_archetype_list (fix_moved_row m r w) = w_archetype_list w"
  "w_archetypes (set_arch a x w) = w_archetypes w" "w_archetypes (set_location e b r w) = w_archetypes w"
  "w_archetypes (erase_location e w) = w_archetypes w" "w_archetypes (fix_moved_row m r w) = w_archetypes w"
  "w_empty_archetype (set_arch a x w) = w_empty_archetype w"
  "w_empty_archetype (set_location e b r w) = w_empty_archetype w"
  "w_empty_archetype (erase_location e w) = w_empty_archetype w"
  "w_empty_archetype (fix_moved_row m r w) = w_empty_archetype w"
  "w_next_aid (set_arch a x w) = w_next_aid w" "w_next_aid (set_location e b r w) = w_next_aid w"
  "w_next_aid (erase_location e w) = w_next_aid w" "w_next_aid (fix_moved_row m r w) = w_next_aid w"
  "w_query_cache (set_arch a x w) = w_query_cache w" "w_query_cache (set_location e b r w) = w_query_cache w"
  "w_query_cache (erase_location e w) = w_query_cache w" "w_query_cache (fix_moved_row m r w) = w_query_cache w"
  "w_pending_ops (set_arch a x w) = w_pending_ops w" "w_pending_ops (set_location e b r w) = w_pending_ops w"
  "w_pending_ops (erase_location e w) = w_pending_ops w" "w_pending_ops (fix_moved_row m r w) = w_pending_ops w"
  by (auto simp: set_arch_def set_location_def erase_location_def fix_moved_row_def split: option.splits)

lemma dom_archs [frame_simps]:
  "dom (w_archs (set_arch a x w)) = insert a (dom (w_archs w))"
  "dom (w_archs (set_location e b r w)) = dom (w_archs w)"
  "dom (w_archs (erase_location e w)) = dom (w_archs w)"
  "dom (w_archs (fix_moved_row m r w)) = dom (w_archs w)"
  by (auto simp: set_arch_def set_location_def erase_location_def fix_moved_row_def split: option.splits)

lemma distinct_locations [frame_simps]:
  "distinct (map fst (w_locations w)) \<Longrightarrow> distinct (map fst (w_locations (set_location e b r w)))"
  "distinct (map fst (w_locations w)) \<Longrightarrow> distinct (map fst (w_locations (erase_location e w)))"
  "distinct (map fst (w_locations w)) \<Longrightarrow> distinct (map fst (w_locations (fix_moved_row m r w)))"
  "distinct (map fst (w_locations w)) \<Longrightarrow> distinct (map fst (w_locations (set_arch a x w)))"
  by (auto simp: set_arch_def set_location_def erase_location_def fix_moved_row_def distinct_update
      distinct_delete split: option.splits)

section \<open>Preservation by the primitives\<close>

text \<open>
  \<open>same_frame w w'\<close>: the same archetypes with the same component sets; only rows, locations and
  state outside the store may differ.
\<close>

definition same_frame :: "'u world \<Rightarrow> 'u world \<Rightarrow> bool" where
  "same_frame w w' \<longleftrightarrow>
     w_archetype_list w' = w_archetype_list w \<and> w_archetypes w' = w_archetypes w
   \<and> w_empty_archetype w' = w_empty_archetype w \<and> w_next_aid w' = w_next_aid w
   \<and> dom (w_archs w') = dom (w_archs w) \<and> w_query_cache w' = w_query_cache w
   \<and> w_pending_ops w' = w_pending_ops w
   \<and> (\<forall>a\<in>set (w_archetype_list w). a_component_ids (arch w' a) = a_component_ids (arch w a))"

lemma query_matches_cong:
  "a_component_ids a = a_component_ids b \<Longrightarrow> query_matches q a = query_matches q b"
proof -
  assume "a_component_ids a = a_component_ids b"
  then have "has_component a = has_component b" using has_component_cong by blast
  then show ?thesis by (simp add: query_matches_def)
qed

lemma same_frame_wf:
  assumes wf: "wf_store reg w" and fr: "same_frame w w'"
    and archs: "\<And>a. a \<in> set (w_archetype_list w) \<Longrightarrow> wf_arch (arch w' a) \<and> typed_columns reg (arch w' a)"
    and loc: "wf_locations w'"
  shows "wf_store reg w'"
proof -
  have "wf_archs reg w'"
  proof -
    have "w_archetype_list w' = w_archetype_list w" "w_archetypes w' = w_archetypes w"
      "w_empty_archetype w' = w_empty_archetype w" "w_next_aid w' = w_next_aid w"
      "dom (w_archs w') = dom (w_archs w)"
      "\<And>a. a \<in> set (w_archetype_list w) \<Longrightarrow> a_component_ids (arch w' a) = a_component_ids (arch w a)"
      using fr by (auto simp: same_frame_def)
    then show ?thesis
      using wf_storeD(1) [OF wf] archs by (simp add: wf_archs_def cong: conj_cong)
  qed
  moreover have "wf_query_cache w'"
  proof -
    have "filter (\<lambda>a. query_matches q (arch w' a)) (w_archetype_list w)
        = filter (\<lambda>a. query_matches q (arch w a)) (w_archetype_list w)" for q
      using fr unfolding same_frame_def by (intro filter_cong refl query_matches_cong) auto
    then show ?thesis
      using wf_storeD(3) [OF wf] fr unfolding wf_query_cache_def same_frame_def by simp
  qed
  moreover have "wf_pending reg w'"
    using wf_storeD(4) [OF wf] fr by (simp add: wf_pending_def same_frame_def)
  ultimately show ?thesis using loc by (simp add: wf_store_def)
qed

text \<open>Typed columns and content under the archetype operations.\<close>

lemma typed_columns_cong:
  assumes "typed_columns reg a" "a_component_ids b = a_component_ids a"
    and "\<And>j. j < length (a_component_ids a) \<Longrightarrow> c_elem_size (a_columns b ! j) = c_elem_size (a_columns a ! j)"
  shows "typed_columns reg b"
  using assms by (auto simp: typed_columns_def)

lemma typed_columns_add:
  assumes "wf_arch a" "typed_columns reg a"
  shows "typed_columns reg (snd (arch_add_entity h e t a))"
  by (rule typed_columns_cong [OF assms(2)]) (use wf_archD(2) [OF assms(1)] in auto)

lemma typed_columns_remove:
  assumes "wf_arch a" "typed_columns reg a" "a_entity_to_row a e = Some r"
  shows "typed_columns reg (snd (arch_remove_entity e a))"
  by (rule typed_columns_cong [OF assms(2)])
    (use arch_remove_entity_eq [OF assms(1,3)] wf_archD(2) [OF assms(1)] in auto)

lemma moved_by_located:
  assumes wf: "wf_store reg w" and l: "location_of w e = Some l"
  defines "m \<equiv> moved_by (loc_row l) (a_entities (arch w (loc_archetype l)))"
  assumes m: "m \<noteq> null_entity"
  shows "m \<noteq> e" "location_of w m = Some \<lparr>loc_archetype = loc_archetype l,
           loc_row = length (a_entities (arch w (loc_archetype l))) - 1\<rparr>"
proof -
  note d = wf_locationD [OF wf l]
  let ?a = "arch w (loc_archetype l)"
  have r: "loc_row l \<noteq> length (a_entities ?a) - 1" "m = last (a_entities ?a)"
    using m by (auto simp: m_def moved_by_def split: if_splits)
  have ne: "a_entities ?a \<noteq> []" using d(5) by auto
  then have mi: "m = a_entities ?a ! (length (a_entities ?a) - 1)" using r(2) by (simp add: last_conv_nth)
  then have "a_entity_to_row ?a m = Some (length (a_entities ?a) - 1)"
    using ne wf_archD(8) [OF d(3)] by simp
  then show "location_of w m = Some \<lparr>loc_archetype = loc_archetype l, loc_row = length (a_entities ?a) - 1\<rparr>"
    using wf_storeD(2) [OF wf] d(1) unfolding wf_locations_def by simp
  have "distinct (a_entities ?a)" by (rule wf_archD(6) [OF d(3)])
  then have "a_entities ?a ! (length (a_entities ?a) - 1) \<noteq> a_entities ?a ! loc_row l"
    using r(1) d(5) ne by (subst nth_eq_iff_index_eq) auto
  then show "m \<noteq> e" using mi d(6) by simp
qed

lemma unplace_entity_eq:
  "unplace_entity e l w = fix_moved_row (fst (arch_remove_entity e (arch w (loc_archetype l)))) (loc_row l)
     (erase_location e (set_arch (loc_archetype l) (snd (arch_remove_entity e (arch w (loc_archetype l)))) w))"
  by (simp add: unplace_entity_def case_prod_beta Let_def)

lemma unplace_entity_store:
  assumes wf: "wf_store reg w" and l: "location_of w e = Some l"
  defines "w' \<equiv> unplace_entity e l w"
  shows "wf_store reg w'" "content w' = (content w)(e := None)" "same_frame w w'"
    "location_of w' e = None" "x \<noteq> e \<Longrightarrow> location_of w' x = None \<longleftrightarrow> location_of w x = None"
proof -
  note d = wf_locationD [OF wf l]
  let ?a = "arch w (loc_archetype l)"
  let ?x = "snd (arch_remove_entity e ?a)"
  let ?m = "moved_by (loc_row l) (a_entities ?a)"
  note q = arch_remove_entity_eq [OF d(3,2)]
  have arch: "arch w' b = (if b = loc_archetype l then ?x else arch w b)" for b
    by (simp add: w'_def unplace_entity_eq)
  have loc: "location_of w' x = (if x = e then None
      else if x = ?m \<and> ?m \<noteq> null_entity then Some \<lparr>loc_archetype = loc_archetype l, loc_row = loc_row l\<rparr>
      else location_of w x)" for x
    using moved_by_located [OF wf l] by (auto simp: w'_def unplace_entity_eq q(1))
  show frame: "same_frame w w'"
    using d(1) wf_archsD(2) [OF wf_storeD(1) [OF wf]]
    unfolding same_frame_def
    by (simp add: arch q(2)) (simp add: w'_def unplace_entity_eq frame_simps insert_absorb)
  have "wf_locations w'"
    unfolding wf_locations_def
  proof (intro conjI allI)
    show "distinct (map fst (w_locations w'))"
      using wf_storeD(2) [OF wf] by (simp add: w'_def unplace_entity_eq frame_simps wf_locations_def)
    fix x k
    have list: "w_archetype_list w' = w_archetype_list w" using frame by (simp add: same_frame_def)
    have old: "location_of w x = Some k \<longleftrightarrow> loc_archetype k \<in> set (w_archetype_list w)
        \<and> a_entity_to_row (arch w (loc_archetype k)) x = Some (loc_row k)"
      using wf_storeD(2) [OF wf] by (auto simp: wf_locations_def)
    note e2r = arch_remove_e2r [OF d(3,2), of x]
    show "location_of w' x = Some k \<longleftrightarrow> loc_archetype k \<in> set (w_archetype_list w')
        \<and> a_entity_to_row (arch w' (loc_archetype k)) x = Some (loc_row k)"
    proof (cases "loc_archetype k = loc_archetype l")
      case True
      then show ?thesis using e2r old d(1) by (cases k) (auto simp: loc arch list)
    next
      case False
      have "a_entity_to_row (arch w (loc_archetype k)) x = None"
        if "x = e \<or> x = ?m \<and> ?m \<noteq> null_entity" "loc_archetype k \<in> set (w_archetype_list w)"
        using that located_once(1) [OF wf l _ False] located_once(1) [OF wf moved_by_located(2) [OF wf l], of "loc_archetype k"] False
        by auto
      then show ?thesis using False old by (cases k) (auto simp: loc arch list)
    qed
  qed
  then show "wf_store reg w'"
    using arch_remove_entity_wf [OF d(3), of e] typed_columns_remove [OF d(3,4,2)]
      wf_archsD(4,5) [OF wf_storeD(1) [OF wf]]
    by (intro same_frame_wf [OF wf frame]) (auto simp: arch)
  show "location_of w' e = None" by (simp add: loc)
  show "x \<noteq> e \<Longrightarrow> location_of w' x = None \<longleftrightarrow> location_of w x = None"
    using moved_by_located [OF wf l] by (auto simp: loc)
  show "content w' = (content w)(e := None)"
  proof
    fix x
    have cell: "cell ?x t x = cell ?a t x" if "x \<noteq> e" for t
      by (rule arch_remove_cell(1) [OF d(3,2) that])
    show "content w' x = ((content w)(e := None)) x"
    proof (cases "x = e")
      case True
      then show ?thesis by (simp add: content_def loc)
    next
      case False
      show ?thesis
      proof (cases "x = ?m \<and> ?m \<noteq> null_entity")
        case True
        then show ?thesis using False moved_by_located [OF wf l] cell by (auto simp: content_def loc arch)
      next
        case other: False
        show ?thesis
          using False other cell by (cases "location_of w x") (auto simp: content_def loc arch)
      qed
    qed
  qed
qed

section \<open>Inserting an entity\<close>

lemma insert_entity_store:
  assumes wf: "wf_store reg w" and a: "a \<in> set (w_archetype_list w)"
    and e: "location_of w e = None" "e \<noteq> null_entity"
    and x: "wf_arch x" "typed_columns reg x" "a_component_ids x = a_component_ids (arch w a)"
      "a_entity_to_row x = (a_entity_to_row (arch w a))(e \<mapsto> row)"
      "\<And>t y. y \<noteq> e \<Longrightarrow> cell x t y = cell (arch w a) t y"
  defines "w' \<equiv> set_location e a row (set_arch a x w)"
  shows "wf_store reg w'" "content w' = (content w)(e \<mapsto> (\<lambda>t. cell x t e))" "same_frame w w'"
    "location_of w' e = Some \<lparr>loc_archetype = a, loc_row = row\<rparr>"
proof -
  have arch: "arch w' b = (if b = a then x else arch w b)" for b by (simp add: w'_def)
  have loc: "location_of w' y = (if y = e then Some \<lparr>loc_archetype = a, loc_row = row\<rparr> else location_of w y)" for y
    by (simp add: w'_def)
  show "location_of w' e = Some \<lparr>loc_archetype = a, loc_row = row\<rparr>" by (simp add: loc)
  show frame: "same_frame w w'"
    using a wf_archsD(2) [OF wf_storeD(1) [OF wf]] unfolding same_frame_def
    by (simp add: arch x(3)) (simp add: w'_def frame_simps insert_absorb)
  have "wf_locations w'"
    unfolding wf_locations_def
  proof (intro conjI allI)
    show "distinct (map fst (w_locations w'))"
      using wf_storeD(2) [OF wf] by (simp add: w'_def frame_simps wf_locations_def)
    fix y k
    have list: "w_archetype_list w' = w_archetype_list w" using frame by (simp add: same_frame_def)
    have old: "location_of w y = Some k \<longleftrightarrow> loc_archetype k \<in> set (w_archetype_list w)
        \<and> a_entity_to_row (arch w (loc_archetype k)) y = Some (loc_row k)"
      using wf_storeD(2) [OF wf] by (auto simp: wf_locations_def)
    have none: "a_entity_to_row (arch w (loc_archetype k)) e = None" if "loc_archetype k \<in> set (w_archetype_list w)"
      using not_located(2) [OF wf e(1) that] .
    show "location_of w' y = Some k \<longleftrightarrow> loc_archetype k \<in> set (w_archetype_list w')
        \<and> a_entity_to_row (arch w' (loc_archetype k)) y = Some (loc_row k)"
      using old none a by (cases k) (auto simp: loc arch list x(4))
  qed
  then show "wf_store reg w'"
    using x wf_archsD(4,5) [OF wf_storeD(1) [OF wf]]
    by (intro same_frame_wf [OF wf frame]) (auto simp: arch)
  show "content w' = (content w)(e \<mapsto> (\<lambda>t. cell x t e))"
  proof
    fix y
    show "content w' y = ((content w)(e \<mapsto> (\<lambda>t. cell x t e))) y"
      using x(5) by (cases "location_of w y") (auto simp: content_def loc arch fun_eq_iff)
  qed
qed

lemma cell_no_components: "a_component_ids a = [] \<Longrightarrow> cell a t e = None"
  by (simp add: cell_def column_index_def lower_bound_def)

lemma cell_absent:
  assumes "wf_arch a" "t \<notin> set (a_component_ids a)"
  shows "cell a t e = None"
proof -
  have "column_index a t = None" using column_index_None [OF wf_archD(1) [OF assms(1)]] assms(2) by blast
  then show ?thesis by (simp add: cell_def)
qed

lemma cell_present:
  assumes "wf_arch a" "t \<in> set (a_component_ids a)" "a_entity_to_row a e = Some r"
  shows "\<exists>j. column_index a t = Some j \<and> cell a t e = Some (rows (a_columns a ! j) ! r)"
proof -
  obtain j where "column_index a t = Some j"
    using column_index_None [OF wf_archD(1) [OF assms(1)], of t] assms(2) by blast
  then show ?thesis by (simp add: cell_def assms(3))
qed

section \<open>Columns of an archetype\<close>

lemma update_column_fields [simp]:
  "a_component_ids (update_column t f a) = a_component_ids a" "a_entities (update_column t f a) = a_entities a"
  "a_entity_to_row (update_column t f a) = a_entity_to_row a" "a_enabled (update_column t f a) = a_enabled a"
  "length (a_columns (update_column t f a)) = length (a_columns a)"
  by (simp_all add: update_column_def)

lemma arch_with_columns:
  assumes wf: "wf_arch a" and ty: "typed_columns reg a" and len: "length cs = length (a_columns a)"
    and cs: "\<And>j. j < length cs \<Longrightarrow> wf_col (cs ! j) \<and> c_size (cs ! j) = c_size (a_columns a ! j)
        \<and> c_elem_size (cs ! j) = c_elem_size (a_columns a ! j)"
  shows "wf_arch (a\<lparr>a_columns := cs\<rparr>)" "typed_columns reg (a\<lparr>a_columns := cs\<rparr>)"
proof -
  have "wf_col c \<and> c_size c = length (a_entities a)" if "c \<in> set cs" for c
  proof -
    obtain j where j: "j < length cs" "c = cs ! j" using \<open>c \<in> set cs\<close> by (auto simp: in_set_conv_nth)
    then show ?thesis using cs [OF j(1)] wf_archD(4) [OF wf, of "a_columns a ! j"] len by simp
  qed
  then show "wf_arch (a\<lparr>a_columns := cs\<rparr>)" using wf len by (auto simp: wf_arch_def)
  show "typed_columns reg (a\<lparr>a_columns := cs\<rparr>)"
    by (rule typed_columns_cong [OF ty]) (use cs len wf_archD(2) [OF wf] in auto)
qed

lemma cell_with_columns:
  "cell (a\<lparr>a_columns := cs\<rparr>) t e = (case column_index a t of None \<Rightarrow> None | Some j \<Rightarrow>
     (case a_entity_to_row a e of None \<Rightarrow> None | Some r \<Rightarrow> Some (rows (cs ! j) ! r)))"
proof -
  have "column_index (a\<lparr>a_columns := cs\<rparr>) t = column_index a t" by (rule column_index_cong) simp
  then show ?thesis by (simp add: cell_def split: option.split)
qed

lemma update_column_arch:
  assumes wf: "wf_arch a" and ty: "typed_columns reg a" and t: "column_index a t = Some j"
    and f: "wf_col (f (a_columns a ! j))" "c_size (f (a_columns a ! j)) = c_size (a_columns a ! j)"
      "c_elem_size (f (a_columns a ! j)) = c_elem_size (a_columns a ! j)"
  shows "wf_arch (update_column t f a)" "typed_columns reg (update_column t f a)"
    "cell (update_column t f a) u e = (if u = t then map_option (\<lambda>r. rows (f (a_columns a ! j)) ! r) (a_entity_to_row a e)
       else cell a u e)"
proof -
  have j: "j < length (a_columns a)" using index_column [OF wf t] by simp
  have e: "update_column t f a = a\<lparr>a_columns := (a_columns a)[j := f (a_columns a ! j)]\<rparr>"
    by (simp add: update_column_def column_of_def t)
  have cs: "wf_col ((a_columns a)[j := f (a_columns a ! j)] ! k)
      \<and> c_size ((a_columns a)[j := f (a_columns a ! j)] ! k) = c_size (a_columns a ! k)
      \<and> c_elem_size ((a_columns a)[j := f (a_columns a ! j)] ! k) = c_elem_size (a_columns a ! k)"
    if "k < length (a_columns a)" for k
    using that j f wf_archD(3) [OF wf, of "a_columns a ! k"] by (auto simp: nth_list_update)
  show "wf_arch (update_column t f a)" "typed_columns reg (update_column t f a)"
    unfolding e using arch_with_columns [OF wf ty, of "(a_columns a)[j := f (a_columns a ! j)]"] cs by simp_all
  have other: "k \<noteq> j" if "column_index a u = Some k" "u \<noteq> t" for k
    using that t column_index_iff [OF wf_archD(1) [OF wf]] by auto
  show "cell (update_column t f a) u e = (if u = t then map_option (\<lambda>r. rows (f (a_columns a ! j)) ! r) (a_entity_to_row a e)
       else cell a u e)"
    unfolding e cell_with_columns using t j other
    by (auto simp: cell_def split: option.splits)
qed

section \<open>The merge walk\<close>

lemma sorted_nth_less:
  "sorted_wrt (<) (xs :: 'a::linorder list) \<Longrightarrow> i < length xs \<Longrightarrow> j < length xs \<Longrightarrow> xs ! i < xs ! j \<longleftrightarrow> i < j"
  using sorted_wrt_nth_less [of "(<)" xs] by (metis less_asym' linorder_neqE_nat)

lemma copy_shared_nth:
  assumes "sorted_wrt (<) src" "sorted_wrt (<) dst" "length cols = length dst"
  shows "length (copy_shared bytes frm r n src dst i j cols) = length cols
    \<and> (\<forall>k < length dst. copy_shared bytes frm r n src dst i j cols ! k =
        (if \<exists>m. i \<le> m \<and> m < length src \<and> src ! m = dst ! k \<and> j \<le> k
         then copy_column (bytes (dst ! k)) (a_columns frm ! lower_bound src (dst ! k)) r n (cols ! k)
         else cols ! k))"
  using assms
proof (induction bytes frm r n src dst i j cols rule: copy_shared.induct)
  case (1 bytes frm r n src dst i j cols)
  note srt = "1.prems"
  have simps: "copy_shared bytes frm r n src dst i j cols = (if i < length src \<and> j < length dst then
        (if src ! i < dst ! j then copy_shared bytes frm r n src dst (i + 1) j cols
         else if dst ! j < src ! i then copy_shared bytes frm r n src dst i (j + 1) cols
         else copy_shared bytes frm r n src dst (i + 1) (j + 1)
                (cols[j := copy_column (bytes (src ! i)) (a_columns frm ! i) r n (cols ! j)]))
      else cols)"
    by (rule copy_shared.simps)
  show ?case
  proof (cases "i < length src \<and> j < length dst")
    case False
    then show ?thesis unfolding simps by auto
  next
    case True
    consider "src ! i < dst ! j" | "dst ! j < src ! i" | "src ! i = dst ! j" by force
    then show ?thesis
    proof cases
      case 1
      have "(\<exists>m. i + 1 \<le> m \<and> m < length src \<and> src ! m = dst ! k \<and> j \<le> k) \<longleftrightarrow>
          (\<exists>m. i \<le> m \<and> m < length src \<and> src ! m = dst ! k \<and> j \<le> k)" if k: "k < length dst" for k
      proof -
        have "src ! i \<noteq> dst ! k" if "j \<le> k"
          using 1 sorted_nth_less [OF srt(2), of j k] that k True by (cases "j = k") (auto dest: less_trans)
        then show ?thesis by (metis Suc_eq_plus1 Suc_le_eq Suc_leD le_neq_implies_less)
      qed
      then show ?thesis
        unfolding simps using "1.IH"(1) [OF True 1 srt] True 1 by simp
    next
      case 2
      then have n: "\<not> src ! i < dst ! j" by simp
      have "(\<exists>m. i \<le> m \<and> m < length src \<and> src ! m = dst ! k \<and> j + 1 \<le> k) \<longleftrightarrow>
          (\<exists>m. i \<le> m \<and> m < length src \<and> src ! m = dst ! k \<and> j \<le> k)" if k: "k < length dst" for k
      proof -
        have "src ! m \<noteq> dst ! j" if "i \<le> m" "m < length src" for m
          using 2 sorted_nth_less [OF srt(1), of i m] that True by (cases "i = m") (auto dest: less_trans)
        then show ?thesis by (metis Suc_eq_plus1 Suc_le_eq Suc_leD le_neq_implies_less)
      qed
      then show ?thesis
        unfolding simps using "1.IH"(2) [OF True n 2 srt] True 2 n by simp
    next
      case 3
      then have n: "\<not> src ! i < dst ! j" "\<not> dst ! j < src ! i" by simp_all
      let ?cols = "cols[j := copy_column (bytes (src ! i)) (a_columns frm ! i) r n (cols ! j)]"
      have lb: "lower_bound src (dst ! j) = i" using 3 True by (intro lower_bound_nth [OF srt(1)]) auto
      have iff: "(\<exists>m. i + 1 \<le> m \<and> m < length src \<and> src ! m = dst ! k \<and> j + 1 \<le> k) \<longleftrightarrow>
          k \<noteq> j \<and> (\<exists>m. i \<le> m \<and> m < length src \<and> src ! m = dst ! k \<and> j \<le> k)" if k: "k < length dst" for k
      proof -
        have "src ! i \<noteq> dst ! k" if "j < k"
          using 3 sorted_nth_less [OF srt(2), of j k] that k True by auto
        moreover have "src ! m = dst ! j \<Longrightarrow> m < length src \<Longrightarrow> m = i" for m
          using 3 True sorted_nth_less [OF srt(1), of m i] sorted_nth_less [OF srt(1), of i m]
          by (metis less_irrefl linorder_neqE_nat)
        ultimately show ?thesis by (metis Suc_eq_plus1 Suc_le_eq Suc_leD le_neq_implies_less)
      qed
      have "length ?cols = length dst" using srt(3) by simp
      note IH = "1.IH"(3) [OF True n srt(1,2) this]
      show ?thesis
        unfolding simps using IH True 3 n iff lb srt(3) by (auto simp: nth_list_update)
    qed
  qed
qed

section \<open>Moving an entity\<close>

lemma copy_column_props:
  assumes c: "wf_col c" "n < c_size c" and f: "wf_col f" "r < c_size f"
    and b: "c_elem_size c = bytes" "c_elem_size f = bytes"
  shows "wf_col (copy_column bytes f r n c)" "c_size (copy_column bytes f r n c) = c_size c"
    "c_elem_size (copy_column bytes f r n c) = c_elem_size c"
    "rows (copy_column bytes f r n c) = (rows c)[n := rows f ! r]"
proof -
  have len: "length (row_read bytes r f) = bytes" using length_row_read [OF f] b(2) by simp
  have "n < c_capacity c" using c by (simp add: wf_col_def)
  then have w: "wf_col (row_write n (row_read bytes r f) c)"
    using wf_row_write [OF c(1), of n "row_read bytes r f"] len b(1) by simp
  then show "wf_col (copy_column bytes f r n c)"
    by (simp add: copy_column_def Let_def version_ops_wf)
  show "c_size (copy_column bytes f r n c) = c_size c" "c_elem_size (copy_column bytes f r n c) = c_elem_size c"
    by (simp_all add: copy_column_def Let_def)
  show "rows (copy_column bytes f r n c) = (rows c)[n := rows f ! r]"
    using rows_row_write [OF c, of "row_read bytes r f"] len b f(2)
    by (simp add: copy_column_def Let_def)
qed

definition moved_columns :: "('u, 'v) env \<Rightarrow> archetype \<Rightarrow> nat \<Rightarrow> archetype \<Rightarrow> nat \<Rightarrow> column list" where
  "moved_columns E frm r x n =
     copy_shared (schema_size E) frm r n (a_component_ids frm) (a_component_ids x) 0 0 (a_columns x)"

lemma typed_columnsD:
  "typed_columns (env_registry E) a \<Longrightarrow> column_index a t = Some j \<Longrightarrow> wf_arch a \<Longrightarrow>
   c_elem_size (a_columns a ! j) = schema_size E t"
  using index_column [of a t j] by (auto simp: typed_columns_def schema_size_def)

lemma typed_columns_registered:
  "typed_columns reg a \<Longrightarrow> t \<in> set (a_component_ids a) \<Longrightarrow> \<exists>s. schema_of reg t = Some s"
  by (auto simp: typed_columns_def in_set_conv_nth)

lemma moved_archetype:
  fixes h :: heap and tick :: u64
  assumes frm: "wf_arch frm" "typed_columns (env_registry E) frm" "a_entity_to_row frm e = Some r"
    and dst: "wf_arch a" "typed_columns (env_registry E) a" "e \<notin> set (a_entities a)" "e \<noteq> null_entity"
  defines "x \<equiv> snd (arch_add_entity h e tick a)"
  defines "y \<equiv> x\<lparr>a_columns := moved_columns E frm r x (length (a_entities a))\<rparr>"
  shows "wf_arch y" "typed_columns (env_registry E) y" "a_component_ids y = a_component_ids a"
    "a_entity_to_row y = (a_entity_to_row a)(e \<mapsto> length (a_entities a))"
    "a_entities y = a_entities a @ [e]"
    "z \<noteq> e \<Longrightarrow> cell y t z = cell a t z"
    "t \<in> set (a_component_ids a) \<Longrightarrow> t \<in> set (a_component_ids frm) \<Longrightarrow> cell y t e = cell frm t e"
    "t \<notin> set (a_component_ids a) \<Longrightarrow> cell y t e = None"
    "t \<in> set (a_component_ids a) \<Longrightarrow> \<exists>bs. cell y t e = Some bs \<and> length bs = schema_size E t"
proof -
  let ?n = "length (a_entities a)"
  have x: "wf_arch x" "typed_columns (env_registry E) x"
    unfolding x_def by (rule arch_add_entity_wf [OF dst(1,3,4)], rule typed_columns_add [OF dst(1,2)])
  have ids: "a_component_ids x = a_component_ids a" "a_entities x = a_entities a @ [e]" by (simp_all add: x_def)
  have srt: "sorted_wrt (<) (a_component_ids frm)" "sorted_wrt (<) (a_component_ids x)"
    using wf_archD(1) frm(1) x(1) by auto
  let ?cs = "moved_columns E frm r x ?n"
  note sh = copy_shared_nth [OF srt wf_archD(2) [OF x(1)], of "schema_size E" frm r ?n 0 0]
  have nth: "?cs ! k = (if a_component_ids x ! k \<in> set (a_component_ids frm)
       then copy_column (schema_size E (a_component_ids x ! k))
              (a_columns frm ! lower_bound (a_component_ids frm) (a_component_ids x ! k)) r ?n (a_columns x ! k)
       else a_columns x ! k)" if "k < length (a_component_ids x)" for k
    using sh that unfolding moved_columns_def by (auto simp: in_set_conv_nth)
  have len: "length ?cs = length (a_columns x)" using sh by (simp add: moved_columns_def)
  have col: "wf_col (?cs ! k) \<and> c_size (?cs ! k) = c_size (a_columns x ! k)
      \<and> c_elem_size (?cs ! k) = c_elem_size (a_columns x ! k)
      \<and> rows (?cs ! k) = (case cell frm (a_component_ids x ! k) e of None \<Rightarrow> rows (a_columns x ! k)
            | Some b \<Rightarrow> (rows (a_columns x ! k))[?n := b])"
    if k: "k < length (a_component_ids x)" for k
  proof -
    let ?t = "a_component_ids x ! k"
    have ci: "column_index x ?t = Some k" using k column_index_iff [OF srt(2)] by simp
    note i = index_column [OF x(1) ci]
    show ?thesis
    proof (cases "?t \<in> set (a_component_ids frm)")
      case False
      then have "cell frm ?t e = None" by (rule cell_absent [OF frm(1)])
      then show ?thesis using nth [OF k] False i by simp
    next
      case True
      then obtain m where m: "column_index frm ?t = Some m"
        using column_index_None [OF srt(1)] by blast
      note im = index_column [OF frm(1) m]
      have lb: "lower_bound (a_component_ids frm) ?t = m" using lower_bound_nth [OF srt(1) im(2,3)] .
      have r: "r < c_size (a_columns frm ! m)" using im(5) frm(3) wf_archD(8) [OF frm(1)] by auto
      have n: "?n < c_size (a_columns x ! k)" using i(5) ids(2) by simp
      note cp = copy_column_props [OF i(4) n im(4) r typed_columnsD [OF x(2) ci x(1)]
          typed_columnsD [OF frm(2) m frm(1)]]
      show ?thesis using nth [OF k] True lb cp by (simp add: cell_def m frm(3))
    qed
  qed
  show "wf_arch y" "typed_columns (env_registry E) y"
    unfolding y_def using arch_with_columns [OF x len] col len wf_archD(2) [OF x(1)] by auto
  show ids': "a_component_ids y = a_component_ids a" "a_entities y = a_entities a @ [e]"
    by (simp_all add: y_def ids)
  show e2r: "a_entity_to_row y = (a_entity_to_row a)(e \<mapsto> ?n)" by (simp add: y_def x_def)
  have celly: "cell y t z = (case column_index x t of None \<Rightarrow> None | Some j \<Rightarrow>
     (case a_entity_to_row x z of None \<Rightarrow> None | Some q \<Rightarrow> Some (rows (?cs ! j) ! q)))" for t z
    unfolding y_def by (rule cell_with_columns)
  have x2r: "a_entity_to_row x z = (if z = e then Some ?n else a_entity_to_row a z)" for z by (simp add: x_def)
  show "cell y t z = cell a t z" if "z \<noteq> e"
  proof -
    have "rows (?cs ! j) ! q = rows (a_columns x ! j) ! q"
      if "column_index x t = Some j" "a_entity_to_row a z = Some q" for j q
    proof -
      have "q < ?n" using that(2) wf_archD(8) [OF dst(1)] by blast
      then show ?thesis
        using col [of j] index_column [OF x(1) that(1)] by (simp split: option.splits)
    qed
    then have "cell y t z = cell x t z"
      using \<open>z \<noteq> e\<close> unfolding celly by (simp add: cell_def x2r split: option.splits)
    then show ?thesis using arch_add_cell(1) [OF dst(1,3) \<open>z \<noteq> e\<close>] by (simp add: x_def)
  qed
  show "cell y t e = None" if "t \<notin> set (a_component_ids a)"
    using that column_index_None [OF srt(2), of t] ids by (simp add: celly)
  assume t: "t \<in> set (a_component_ids a)"
  then obtain k where ci: "column_index x t = Some k"
    using column_index_None [OF srt(2), of t] ids by auto
  note i = index_column [OF x(1) ci]
  have row: "?n < length (rows (a_columns x ! k))" using i(6) ids(2) by simp
  have new: "cell y t e = Some (rows (?cs ! k) ! ?n)" by (simp add: celly ci x2r)
  show "t \<in> set (a_component_ids frm) \<Longrightarrow> cell y t e = cell frm t e"
  proof -
    assume "t \<in> set (a_component_ids frm)"
    then obtain m where "column_index frm t = Some m" using column_index_None [OF srt(1)] by blast
    then have "\<exists>b. cell frm t e = Some b" by (simp add: cell_def frm(3))
    then show ?thesis using new col [OF i(2)] i(3) row by auto
  qed
  have "c_size (?cs ! k) = c_size (a_columns x ! k)" using col [OF i(2)] by blast
  then have "rows (?cs ! k) ! ?n \<in> set (rows (?cs ! k))" using row by (intro nth_mem) simp
  then have "length (rows (?cs ! k) ! ?n) = c_elem_size (?cs ! k)"
    using rows_elem col [OF i(2)] by blast
  then show "\<exists>bs. cell y t e = Some bs \<and> length bs = schema_size E t"
    using new col [OF i(2)] typed_columnsD [OF x(2) ci x(1)] by auto
qed

definition same_store :: "'u world \<Rightarrow> 'u world \<Rightarrow> bool" where
  "same_store w w' \<longleftrightarrow> same_frame w w' \<and> arch w' = arch w \<and> location_of w' = location_of w
     \<and> (distinct (map fst (w_locations w)) \<longrightarrow> distinct (map fst (w_locations w')))"

lemma same_store_wf:
  assumes "same_store w w'" "wf_store reg w"
  shows "wf_store reg w'" "content w' = content w"
proof -
  have s: "same_frame w w'" "arch w' = arch w" "location_of w' = location_of w"
    "w_archetype_list w' = w_archetype_list w" "distinct (map fst (w_locations w'))"
    using assms wf_storeD(2) [OF assms(2)] by (auto simp: same_store_def same_frame_def wf_locations_def)
  then show "wf_store reg w'"
    using wf_archsD(4,5) [OF wf_storeD(1) [OF assms(2)]] wf_storeD(2) [OF assms(2)]
    by (intro same_frame_wf [OF assms(2)]) (auto simp: wf_locations_def)
  show "content w' = content w" by (intro ext) (simp only: content_def s(2,3))
qed

lemma same_frame_trans: "same_frame u v \<Longrightarrow> same_frame v w \<Longrightarrow> same_frame u w"
  by (simp add: same_frame_def)

lemma move_entity_to_eq:
  "move_entity_to E e p q r w =
     (length (a_entities (arch w q)),
      fix_moved_row (fst (arch_remove_entity e (arch w p))) r
        (set_arch p (snd (arch_remove_entity e (arch w p)))
          (set_arch q ((snd (arch_add_entity (env_heap E) e (w_change_tick w) (arch w q)))
             \<lparr>a_columns := moved_columns E (arch w p) r
                (snd (arch_add_entity (env_heap E) e (w_change_tick w) (arch w q)))
                (length (a_entities (arch w q)))\<rparr>) w)))"
  by (simp add: move_entity_to_def case_prod_beta Let_def moved_columns_def)

lemma move_entity_store:
  assumes wf: "wf_store (env_registry E) w" and l: "location_of w e = Some l"
    and q: "q \<in> set (w_archetype_list w)" "q \<noteq> loc_archetype l"
  defines "w' \<equiv> set_location e q (fst (move_entity_to E e (loc_archetype l) q (loc_row l) w))
     (snd (move_entity_to E e (loc_archetype l) q (loc_row l) w))"
  shows "wf_store (env_registry E) w'" "same_frame w w'"
    "location_of w' e = Some \<lparr>loc_archetype = q, loc_row = fst (move_entity_to E e (loc_archetype l) q (loc_row l) w)\<rparr>"
    "x \<noteq> e \<Longrightarrow> content w' x = content w x"
    "\<exists>c. content w' e = Some c
       \<and> (\<forall>t. c t = (if t \<in> set (a_component_ids (arch w q)) then
             (if t \<in> set (a_component_ids (arch w (loc_archetype l)))
              then cell (arch w (loc_archetype l)) t e else c t) else None))
       \<and> (\<forall>t\<in>set (a_component_ids (arch w q)). \<exists>bs. c t = Some bs \<and> length bs = schema_size E t)"
proof -
  note d = wf_locationD [OF wf l]
  let ?p = "loc_archetype l" and ?n = "length (a_entities (arch w q))"
  let ?u = "unplace_entity e l w"
  let ?y = "(snd (arch_add_entity (env_heap E) e (w_change_tick w) (arch w q)))
             \<lparr>a_columns := moved_columns E (arch w ?p) (loc_row l)
                (snd (arch_add_entity (env_heap E) e (w_change_tick w) (arch w q))) ?n\<rparr>"
  let ?u' = "set_location e q ?n (set_arch q ?y ?u)"
  note un = unplace_entity_store [OF wf l]
  have qa: "wf_arch (arch w q)" "typed_columns (env_registry E) (arch w q)"
    using wf_archsD(4,5) [OF wf_storeD(1) [OF wf] q(1)] .
  note ma = moved_archetype [OF d(3,4,2) qa located_once(2) [OF wf l q] d(7),
      where h = "env_heap E" and tick = "w_change_tick w"]
  have uq: "arch ?u q = arch w q" using q(2) by (simp add: unplace_entity_eq)
  have uql: "q \<in> set (w_archetype_list ?u)" using un(3) q(1) by (simp add: same_frame_def)
  have ids: "a_component_ids ?y = a_component_ids (arch ?u q)"
    and e2r: "a_entity_to_row ?y = (a_entity_to_row (arch ?u q))(e \<mapsto> ?n)"
    and oth: "\<And>t z. z \<noteq> e \<Longrightarrow> cell ?y t z = cell (arch ?u q) t z"
    using ma(3,4,6) uq by simp_all
  note ins = insert_entity_store [OF un(1) uql un(4) d(7) ma(1,2) ids e2r oth]
  have w'e: "w' = set_location e q ?n (fix_moved_row (fst (arch_remove_entity e (arch w ?p))) (loc_row l)
        (set_arch ?p (snd (arch_remove_entity e (arch w ?p))) (set_arch q ?y w)))"
    by (simp add: w'_def move_entity_to_eq)
  have st: "same_store ?u' w'"
    unfolding same_store_def
  proof (intro conjI impI)
    show "arch w' = arch ?u'"
      using q(2) by (intro ext) (simp add: w'e unplace_entity_eq)
    then have "\<forall>a\<in>set (w_archetype_list ?u'). a_component_ids (arch w' a) = a_component_ids (arch ?u' a)" by simp
    then show "same_frame ?u' w'"
      unfolding same_frame_def by (simp add: w'e unplace_entity_eq frame_simps insert_commute)
    show "location_of w' = location_of ?u'"
    proof
      fix x
      show "location_of w' x = location_of ?u' x"
      proof (cases "x = e")
        case True
        then show ?thesis by (simp add: w'e)
      next
        case False
        then show ?thesis
          using arch_remove_entity_eq(1) [OF d(3,2)] moved_by_located(1) [OF wf l]
          by (simp add: w'e unplace_entity_eq)
      qed
    qed
    show "distinct (map fst (w_locations w'))"
      unfolding w'e using wf_storeD(2) [OF wf] by (intro frame_simps) (simp add: wf_locations_def)
  qed
  note w' = same_store_wf [OF st ins(1)]
  have cont: "content w' = (content w)(e \<mapsto> (\<lambda>t. cell ?y t e))"
    using w'(2) ins(2) un(2) by simp
  show "wf_store (env_registry E) w'" by (rule w'(1))
  show "same_frame w w'"
    using un(3) ins(3) st by (auto simp: same_store_def intro: same_frame_trans)
  show "location_of w' e = Some \<lparr>loc_archetype = q, loc_row = fst (move_entity_to E e ?p q (loc_row l) w)\<rparr>"
    by (simp add: w'e move_entity_to_eq)
  show "x \<noteq> e \<Longrightarrow> content w' x = content w x"
    using fun_cong [OF cont, of x] by simp
  have c: "content w' e = Some (\<lambda>t. cell ?y t e)" using fun_cong [OF cont, of e] by simp
  show "\<exists>c. content w' e = Some c
       \<and> (\<forall>t. c t = (if t \<in> set (a_component_ids (arch w q)) then
             (if t \<in> set (a_component_ids (arch w ?p)) then cell (arch w ?p) t e else c t) else None))
       \<and> (\<forall>t\<in>set (a_component_ids (arch w q)). \<exists>bs. c t = Some bs \<and> length bs = schema_size E t)"
    using c ma(7,8,9) by (intro exI [where x = "\<lambda>t. cell ?y t e"] conjI allI ballI) auto
qed

end
