(* ===== verification/WorldStep.thy ===== *)
theory WorldStep
  imports WorldInv
begin

text \<open>
  The remaining primitives: creation of archetypes (with the incremental maintenance of the
  query cache), writes into columns, query matching, and the operations that touch nothing of
  the store. The invariant and the content of the world under each of them.
\<close>

section \<open>Creating archetypes\<close>

lemma qc_register_lookup:
  assumes "distinct (map fst qs)"
  shows "map_of (fold (\<lambda>(k, q) cache. if query_matches q x
          then AList.update k ((case map_of cache k of None \<Rightarrow> [] | Some l \<Rightarrow> l) @ [a]) cache
          else cache) qs c) k
    = (case map_of qs k of
         Some q \<Rightarrow> (if query_matches q x
            then Some ((case map_of c k of None \<Rightarrow> [] | Some l \<Rightarrow> l) @ [a]) else map_of c k)
       | None \<Rightarrow> map_of c k)"
  using assms
proof (induction qs arbitrary: c k)
  case Nil
  then show ?case by simp
next
  case (Cons kq qs)
  obtain k0 q0 where kq: "kq = (k0, q0)" by (cases kq)
  have none: "map_of qs k0 = None" using Cons.prems kq by (simp add: map_of_eq_None_iff)
  have "distinct (map fst qs)" using Cons.prems by simp
  note IH = Cons.IH [OF this]
  show ?case
    unfolding kq by (cases "k = k0") (simp_all add: IH none split: option.split)
qed

lemma query_matches_def2: "query_matches q a = arch_matches a q"
  by (rule query_matches_arch)

definition fresh_arch :: "('u, 'v) env \<Rightarrow> ctype list \<Rightarrow> archetype" where
  "fresh_arch E ids = empty_arch\<lparr>a_component_ids := ids, a_signature := fnv_signature ids,
     a_columns := map (\<lambda>t. let s = the (schema_of (env_registry E) t)
                          in column_init (cs_size s) (cs_alignment s) empty_column) ids\<rparr>"

lemma create_archetype_eq:
  "create_archetype E ids w = (w_next_aid w, w\<lparr>w_next_aid := w_next_aid w + 1,
     w_archs := (w_archs w)(w_next_aid w \<mapsto> fresh_arch E ids),
     w_archetypes := (w_archetypes w)(ids \<mapsto> w_next_aid w),
     w_archetype_list := w_archetype_list w @ [w_next_aid w],
     w_query_cache := qc_register_new_archetype (w_next_aid w) (fresh_arch E ids) (w_query_cache w)\<rparr>)"
  by (simp add: create_archetype_def fresh_arch_def Let_def)

lemma fresh_arch_fields [simp]:
  "a_component_ids (fresh_arch E ids) = ids" "a_entities (fresh_arch E ids) = []"
  "a_entity_to_row (fresh_arch E ids) = Map.empty"
  by (simp_all add: fresh_arch_def empty_arch_def)

lemma fresh_arch_wf:
  assumes "sorted_wrt (<) ids" "\<And>t. t \<in> set ids \<Longrightarrow> \<exists>s. schema_of (env_registry E) t = Some s"
  shows "wf_arch (fresh_arch E ids)" "typed_columns (env_registry E) (fresh_arch E ids)"
  using assms by (auto simp: wf_arch_def typed_columns_def fresh_arch_def empty_arch_def Let_def
      column_init_wf) (metis nth_mem option.sel)+

lemma ensure_archetype_store:
  assumes wf: "wf_store (env_registry E) w" and srt: "sorted_wrt (<) ids"
    and reg: "\<And>t. t \<in> set ids \<Longrightarrow> \<exists>s. schema_of (env_registry E) t = Some s"
  defines "a \<equiv> fst (ensure_archetype E ids w)" and "w' \<equiv> snd (ensure_archetype E ids w)"
  shows "wf_store (env_registry E) w'" "content w' = content w" "location_of w' = location_of w"
    "a \<in> set (w_archetype_list w')" "a_component_ids (arch w' a) = ids"
    "b \<in> set (w_archetype_list w) \<Longrightarrow> b \<in> set (w_archetype_list w') \<and> arch w' b = arch w b"
    "b \<in> set (w_archetype_list w) \<Longrightarrow> a_component_ids (arch w b) \<noteq> ids \<Longrightarrow> a \<noteq> b"
    "w_empty_archetype w' = w_empty_archetype w" "w_pending_ops w' = w_pending_ops w"
proof -
  note wa = wf_archsD [OF wf_storeD(1) [OF wf]]
  have "wf_store (env_registry E) w' \<and> content w' = content w \<and> location_of w' = location_of w
    \<and> a \<in> set (w_archetype_list w') \<and> a_component_ids (arch w' a) = ids
    \<and> (\<forall>b\<in>set (w_archetype_list w). b \<in> set (w_archetype_list w') \<and> arch w' b = arch w b)
    \<and> w_empty_archetype w' = w_empty_archetype w \<and> w_pending_ops w' = w_pending_ops w"
  proof (cases "w_archetypes w ids")
    case (Some b)
    then show ?thesis using wf wa(6) [of ids b] by (simp add: a_def w'_def ensure_archetype_def)
  next
    case None
    let ?n = "w_next_aid w" and ?x = "fresh_arch E ids"
    have nl: "?n \<notin> set (w_archetype_list w)" using wa(3) by blast
    have nl': "?n \<noteq> b" if "b \<in> set (w_archetype_list w)" for b using nl that by auto
    have e: "a = ?n" "w' = snd (create_archetype E ids w)"
      using None by (simp_all add: a_def w'_def ensure_archetype_def create_archetype_eq)
    have list: "w_archetype_list w' = w_archetype_list w @ [?n]" by (simp add: e create_archetype_eq)
    have arch: "arch w' b = (if b = ?n then ?x else arch w b)" for b
      by (simp add: e create_archetype_eq arch_def)
    have rest: "w_next_aid w' = w_next_aid w + 1" "w_archetypes w' = (w_archetypes w)(ids \<mapsto> ?n)"
      "w_empty_archetype w' = w_empty_archetype w" "w_pending_ops w' = w_pending_ops w"
      by (simp_all add: e create_archetype_eq)
    have loc: "location_of w' = location_of w" by (simp add: e create_archetype_eq location_of_def fun_eq_iff)
    have x: "wf_arch ?x" "typed_columns (env_registry E) ?x"
      using fresh_arch_wf [OF srt reg] by auto
    have noids: "a_component_ids (arch w b) \<noteq> ids" if "b \<in> set (w_archetype_list w)" for b
      using None wa(6) [of ids b] that by auto
    have "wf_archs (env_registry E) w'"
      unfolding wf_archs_def
    proof (intro conjI)
      show "distinct (w_archetype_list w')" using wa(1) nl by (simp add: list)
      show "set (w_archetype_list w') = dom (w_archs w')" using wa(2) by (auto simp: e create_archetype_eq)
      show "\<forall>b\<in>set (w_archetype_list w'). b < w_next_aid w' \<and> wf_arch (arch w' b)
          \<and> typed_columns (env_registry E) (arch w' b)"
        using wa(3-5) x by (auto simp: list arch rest less_Suc_eq)
      show "\<forall>js b. w_archetypes w' js = Some b \<longleftrightarrow> b \<in> set (w_archetype_list w') \<and> a_component_ids (arch w' b) = js"
        using wa(6) nl noids by (auto simp: list arch rest)
      have "ids \<noteq> []" using noids [OF wa(7)] wa(8) by auto
      then show "w_archetypes w' [] = Some (w_empty_archetype w')"
        using wf_storeD(1) [OF wf] by (simp add: wf_archs_def rest)
    qed
    moreover have "wf_locations w'"
      unfolding wf_locations_def
    proof (intro conjI allI)
      show "distinct (map fst (w_locations w'))"
        using wf_storeD(2) [OF wf] by (simp add: wf_locations_def e create_archetype_eq)
      fix y k
      have "location_of w y = Some k \<longleftrightarrow> loc_archetype k \<in> set (w_archetype_list w)
        \<and> a_entity_to_row (arch w (loc_archetype k)) y = Some (loc_row k)"
        using wf_storeD(2) [OF wf] by (auto simp: wf_locations_def)
      then show "location_of w' y = Some k \<longleftrightarrow> loc_archetype k \<in> set (w_archetype_list w')
        \<and> a_entity_to_row (arch w' (loc_archetype k)) y = Some (loc_row k)"
        using nl by (auto simp: loc list arch)
    qed
    moreover have "wf_query_cache w'"
    proof -
      let ?qc = "w_query_cache w"
      have q: "w_query_cache w' = qc_register_new_archetype ?n ?x ?qc" by (simp add: e create_archetype_eq)
      have dist: "distinct (map fst (qc_queries ?qc))"
        and old: "map_of (qc_queries ?qc) k = Some qq \<Longrightarrow> k = membership_signature qq
          \<and> map_of (qc_cache ?qc) k = Some (filter (\<lambda>a. query_matches qq (arch w a)) (w_archetype_list w))" for k qq
        using wf_storeD(3) [OF wf] by (auto simp: wf_query_cache_def)
      have fl: "filter (\<lambda>a. query_matches qq (arch w' a)) (w_archetype_list w')
          = filter (\<lambda>a. query_matches qq (arch w a)) (w_archetype_list w) @ (if query_matches qq ?x then [?n] else [])" for qq
        using nl' by (auto simp: list arch intro!: filter_cong)
      show ?thesis
        unfolding wf_query_cache_def q qc_register_new_archetype_def
        using dist old by (auto simp: qc_register_lookup [OF dist] fl)
    qed
    moreover have "wf_pending (env_registry E) w'"
      using wf_storeD(4) [OF wf] by (simp add: wf_pending_def rest)
    moreover have "content w' = content w"
    proof
      fix y
      show "content w' y = content w y"
        using wf_locationD(1) [OF wf, of y] nl by (auto simp: content_def loc arch split: option.split)
    qed
    ultimately show ?thesis
      using nl' loc by (auto simp: wf_store_def list arch e(1) rest)
  qed
  then show "wf_store (env_registry E) w'" "content w' = content w" "location_of w' = location_of w"
    "a \<in> set (w_archetype_list w')" "a_component_ids (arch w' a) = ids"
    "b \<in> set (w_archetype_list w) \<Longrightarrow> b \<in> set (w_archetype_list w') \<and> arch w' b = arch w b"
    "b \<in> set (w_archetype_list w) \<Longrightarrow> a_component_ids (arch w b) \<noteq> ids \<Longrightarrow> a \<noteq> b"
    "w_empty_archetype w' = w_empty_archetype w" "w_pending_ops w' = w_pending_ops w"
    by auto
qed

section \<open>Operations outside the store\<close>

lemma same_store_refl [simp]: "same_store w w"
  by (simp add: same_store_def same_frame_def)

lemma same_store_trans: "same_store u v \<Longrightarrow> same_store v w \<Longrightarrow> same_store u w"
  unfolding same_store_def using same_frame_trans [of u v w] by simp

lemma same_store_updates [simp]:
  "same_store w (w\<lparr>w_change_tick := x1\<rparr>)" "same_store w (w\<lparr>w_cache_version := x2\<rparr>)"
  "same_store w (w\<lparr>w_change_log := x3\<rparr>)" "same_store w (w\<lparr>w_change_log := x3, w_change_log_generation := x4\<rparr>)"
  "same_store w (w\<lparr>w_pending_cache_invalidation := x5\<rparr>)"
  "same_store w (w\<lparr>w_pending_cache_invalidation := x5, w_cache_version := x2\<rparr>)"
  "same_store w (w\<lparr>w_slot_generations := x6\<rparr>)" "same_store w (w\<lparr>w_free_slots := x7\<rparr>)"
  "same_store w (w\<lparr>w_slot_generations := x6, w_free_slots := x7\<rparr>)"
  "same_store w (w\<lparr>w_pool_slots := x8\<rparr>)" "same_store w (w\<lparr>w_suppress_depth := x9\<rparr>)"
  "same_store w (w\<lparr>w_iteration_depth := x10\<rparr>)" "same_store w (w\<lparr>w_defer_moves := x11\<rparr>)"
  "same_store w (w\<lparr>w_deferred_set := x12, w_deferred_entities := x13\<rparr>)"
  "same_store w (w\<lparr>w_pending_destroy := x14\<rparr>)" "same_store w (w\<lparr>w_command_buffer := x15\<rparr>)"
  "same_store w (w\<lparr>w_changed_baselines := x16\<rparr>)" "same_store w (w\<lparr>w_custom_commands := x17\<rparr>)"
  "same_store w (w\<lparr>w_observers := x18\<rparr>)" "same_store w (w\<lparr>w_client := x19\<rparr>)"
  by (simp_all add: same_store_def same_frame_def arch_def location_of_def fun_eq_iff)

lemma same_store_ops [simp]:
  "same_store w (bump_tick w)" "same_store w (log_change e t k w)" "same_store w (compact_change_log w)"
  "same_store w (invalidate_cache w)" "same_store w (free_entity_id e w)"
  "same_store w (snd (alloc_entity_id w))" "same_store w (queue_deferred_move e w)"
  "same_store w (begin_suppress w)" "same_store w (flush_invalidation w)"
  "same_store w (begin_deferred_moves w)" "same_store w (begin_iteration w)" "same_store w (end_iteration w)"
  "same_store w (set_entity_range n w)" "same_store w (cb_push c w)"
  by (simp_all add: bump_tick_def compact_change_log_def invalidate_cache_def free_entity_id_def
      alloc_entity_id_def Let_def queue_deferred_move_def begin_suppress_def flush_invalidation_def
      begin_deferred_moves_def begin_iteration_def end_iteration_def set_entity_range_def cb_push_def)
    (auto simp: log_change_def Let_def compact_change_log_def intro: same_store_trans)

lemma same_store_end_suppress [simp]: "same_store w (end_suppress w)"
proof -
  have "same_store w (w\<lparr>w_suppress_depth := w_suppress_depth w - 1\<rparr>)"
    "same_store (w\<lparr>w_suppress_depth := w_suppress_depth w - 1\<rparr>)
       (flush_invalidation (w\<lparr>w_suppress_depth := w_suppress_depth w - 1\<rparr>))"
    by simp_all
  from same_store_trans [OF this] show ?thesis by (simp add: end_suppress_def)
qed

section \<open>Writing into columns\<close>

lemma cell_no_row: "a_entity_to_row a e = None \<Longrightarrow> cell a t e = None"
  by (simp add: cell_def split: option.split)

lemma update_arch_column_store:
  assumes wf: "wf_store reg w" and a: "a \<in> set (w_archetype_list w)" "t \<in> set (a_component_ids (arch w a))"
    and f: "\<forall>c. wf_col c \<longrightarrow> c_size c = length (a_entities (arch w a)) \<longrightarrow> wf_col (f c)"
      "\<And>c. c_size (f c) = c_size c" "\<And>c. c_elem_size (f c) = c_elem_size c"
  defines "w' \<equiv> update_arch_column a t f w"
  shows "wf_store reg w'" "same_frame w w'" "location_of w' = location_of w"
    "b \<noteq> a \<Longrightarrow> arch w' b = arch w b" "a_entity_to_row (arch w' b) = a_entity_to_row (arch w b)"
    "cell (arch w' a) u e = (if u = t then map_option (\<lambda>r. rows (f (column_of (arch w a) t)) ! r)
        (a_entity_to_row (arch w a) e) else cell (arch w a) u e)"
    "a_entities (arch w' b) = a_entities (arch w b)" "a_enabled (arch w' b) = a_enabled (arch w b)"
    "column_of (arch w' a) t = f (column_of (arch w a) t)"
proof -
  note wa = wf_archsD [OF wf_storeD(1) [OF wf]]
  have ar: "wf_arch (arch w a)" "typed_columns reg (arch w a)" using wa(4,5) a(1) by auto
  obtain j where j: "column_index (arch w a) t = Some j"
    using column_index_None [OF wf_archD(1) [OF ar(1)]] a(2) by blast
  note i = index_column [OF ar(1) j]
  note up = update_column_arch [where f = f, OF ar j f(1) [rule_format, OF i(4,5)] f(2,3)]
  have arch: "arch w' b = (if b = a then update_column t f (arch w a) else arch w b)" for b
    by (simp add: w'_def update_arch_column_def)
  then show "b \<noteq> a \<Longrightarrow> arch w' b = arch w b"
    "a_entity_to_row (arch w' b) = a_entity_to_row (arch w b)"
    "a_entities (arch w' b) = a_entities (arch w b)" "a_enabled (arch w' b) = a_enabled (arch w b)"
    by auto
  show frame: "same_frame w w'"
    using a(1) wa(2) unfolding same_frame_def
    by (simp add: arch) (simp add: w'_def update_arch_column_def frame_simps insert_absorb)
  show loc: "location_of w' = location_of w" by (simp add: fun_eq_iff w'_def update_arch_column_def)
  have "wf_locations w'"
    using wf_storeD(2) [OF wf] frame
    by (auto simp: wf_locations_def loc arch same_frame_def)
      (auto simp: w'_def update_arch_column_def set_arch_def)
  then show "wf_store reg w'"
    using up(1,2) wa(4,5) by (intro same_frame_wf [OF wf frame]) (auto simp: arch)
  show "cell (arch w' a) u e = (if u = t then map_option (\<lambda>r. rows (f (column_of (arch w a) t)) ! r)
        (a_entity_to_row (arch w a) e) else cell (arch w a) u e)"
    using up(3) by (simp add: arch column_of_def j)
  have "column_index (update_column t f (arch w a)) t = Some j"
    using j column_index_cong [of "update_column t f (arch w a)" "arch w a" t] by simp
  then show "column_of (arch w' a) t = f (column_of (arch w a) t)"
    using i(1) j by (simp add: arch column_of_def update_column_def)
qed

lemma content_update_rows:
  assumes wf: "wf_store reg w" and a: "a \<in> set (w_archetype_list w)" "t \<in> set (a_component_ids (arch w a))"
    and f: "\<forall>c. wf_col c \<longrightarrow> c_size c = length (a_entities (arch w a)) \<longrightarrow> wf_col (f c)"
      "\<And>c. c_size (f c) = c_size c" "\<And>c. c_elem_size (f c) = c_elem_size c" "\<And>c. rows (f c) = rows c"
  shows "content (update_arch_column a t f w) = content w"
proof
  fix e
  note up = update_arch_column_store [OF wf a f(1) f(2,3)]
  have "cell (arch (update_arch_column a t f w) b) u e = cell (arch w b) u e" if "b \<in> set (w_archetype_list w)" for b u
  proof (cases "b = a")
    case True
    have "cell (arch w a) t e = Some (rows (column_of (arch w a) t) ! r)"
      if r: "a_entity_to_row (arch w a) e = Some r" for r
    proof -
      obtain j where "column_index (arch w a) t = Some j" "cell (arch w a) t e = Some (rows (a_columns (arch w a) ! j) ! r)"
        using cell_present [OF wf_archsD(4) [OF wf_storeD(1) [OF wf] a(1)] a(2) r] by blast
      then show ?thesis by (simp add: column_of_def)
    qed
    then have "map_option (\<lambda>r. rows (column_of (arch w a) t) ! r) (a_entity_to_row (arch w a) e) = cell (arch w a) t e"
      using cell_no_row [of "arch w a" e t] by (cases "a_entity_to_row (arch w a) e") simp_all
    then have "cell (arch (update_arch_column a t f w) a) u e = cell (arch w a) u e"
      unfolding up(6) f(4) by simp
    then show ?thesis using True by simp
  next
    case False
    then show ?thesis using up(4) by simp
  qed
  then show "content (update_arch_column a t f w) e = content w e"
    using wf_locationD(1) [OF wf, of e] up(3) by (auto simp: content_def split: option.splits)
qed

lemma store_row_store:
  assumes wf: "wf_store reg w" and l: "location_of w e = Some l"
    and t: "t \<in> set (a_component_ids (arch w (loc_archetype l)))"
    and s: "schema_of reg t = Some s" "length bs \<le> cs_size s"
  defines "w' \<equiv> store_row (loc_archetype l, t, loc_row l) bs w"
  shows "wf_store reg w'" "same_frame w w'" "location_of w' = location_of w"
    "x \<noteq> e \<Longrightarrow> content w' x = content w x"
    "length bs = cs_size s \<Longrightarrow> content w' e = Some ((the (content w e))(t \<mapsto> bs))"
    "\<exists>v. content w' e = Some ((the (content w e))(t \<mapsto> v))"
proof -
  note d = wf_locationD [OF wf l]
  let ?a = "arch w (loc_archetype l)"
  obtain j where j: "column_index ?a t = Some j" "cell ?a t e = Some (rows (a_columns ?a ! j) ! loc_row l)"
    using cell_present [OF d(3) t d(2)] by auto
  note i = index_column [OF d(3) j(1)]
  have es: "c_elem_size (a_columns ?a ! j) = cs_size s"
    using d(4) i(2,3) s(1) unfolding typed_columns_def by fastforce
  have lb: "c_size c = length (a_entities ?a) \<Longrightarrow> wf_col c \<Longrightarrow> loc_row l < c_capacity c" for c
    using d(5) by (simp add: wf_col_def)
  let ?f = "\<lambda>c. if c_elem_size c = cs_size s then row_write (loc_row l) bs c else c"
  have same: "update_arch_column (loc_archetype l) t ?f w = w'"
    using es by (simp add: w'_def store_row_def update_arch_column_def update_column_def column_of_def j(1))
  have f: "\<forall>c. wf_col c \<longrightarrow> c_size c = length (a_entities ?a) \<longrightarrow> wf_col (?f c)"
    using wf_row_write lb s(2) by simp
  have fs: "\<And>c. c_size (?f c) = c_size c" "\<And>c. c_elem_size (?f c) = c_elem_size c" by simp_all
  note up = update_arch_column_store [OF wf d(1) t f fs, unfolded same]
  show "wf_store reg w'" "same_frame w w'" "location_of w' = location_of w" using up(1-3) by auto
  have col: "column_of ?a t = a_columns ?a ! j" by (simp add: column_of_def j(1))
  have cap: "loc_row l < c_capacity (a_columns ?a ! j)" using lb i(4,5) by simp
  have rr: "r = loc_row l \<or> rows (row_write (loc_row l) bs (a_columns ?a ! j)) ! r = rows (a_columns ?a ! j) ! r"
    if "r < length (a_entities ?a)" for r
  proof (cases "r = loc_row l")
    case False
    have "row_offset (a_columns ?a ! j) (loc_row l) + length bs \<le> length (c_data (a_columns ?a ! j))"
      using row_end [OF i(4) cap] s(2) es by simp
    moreover have "row_offset (a_columns ?a ! j) r + cs_size s \<le> row_offset (a_columns ?a ! j) (loc_row l)
        \<or> row_offset (a_columns ?a ! j) (loc_row l) + length bs \<le> row_offset (a_columns ?a ! j) r"
      using row_apart [OF i(4) False] es s(2) by auto
    ultimately show ?thesis
      using that i(5) es by (simp add: row_read_def row_write_def row_offset_def mem_read_write_disjoint)
  qed simp
  have cell: "cell (arch w' (loc_archetype l)) u x = cell ?a u x" if "x \<noteq> e \<or> u \<noteq> t" for u x
  proof (cases "u = t")
    case False
    then show ?thesis using up(6) by simp
  next
    case True
    then have x: "x \<noteq> e" using that by simp
    show ?thesis
    proof (cases "a_entity_to_row ?a x")
      case None
      then show ?thesis using True up(6) cell_no_row [OF None] by simp
    next
      case (Some r)
      then have "r < length (a_entities ?a)" "r \<noteq> loc_row l" using wf_archD(8) [OF d(3)] d(5,6) x by auto
      then show ?thesis
        using True Some up(6) rr [of r] es by (simp add: cell_def j(1) col)
    qed
  qed
  show "content w' x = content w x" if "x \<noteq> e"
  proof -
    have "cell (arch w' b) u x = cell (arch w b) u x" for b u
      using cell [of x u] that up(4) [of b] by (cases "b = loc_archetype l") simp_all
    then show ?thesis by (simp add: content_def up(3) split: option.split)
  qed
  have new: "cell (arch w' (loc_archetype l)) t e = Some (rows (row_write (loc_row l) bs (a_columns ?a ! j)) ! loc_row l)"
    using up(6) d(2) es by (simp add: col)
  have ce: "content w' e = Some ((the (content w e))(t \<mapsto> rows (row_write (loc_row l) bs (a_columns ?a ! j)) ! loc_row l))"
    using up(3) l cell new by (auto simp: content_def fun_eq_iff)
  then show "\<exists>v. content w' e = Some ((the (content w e))(t \<mapsto> v))" by blast
  show "length bs = cs_size s \<Longrightarrow> content w' e = Some ((the (content w e))(t \<mapsto> bs))"
    using ce rows_row_write [OF i(4), of "loc_row l" bs] i(5,6) d(5) es by simp
qed

end
