(* ===== verification/Refine.thy ===== *)
theory Refine
  imports WorldStep
begin

text \<open>
  The operations of the world against the abstract world \<open>content\<close>: creation adds an entity
  without components, \<open>add_raw\<close> is a map update, \<open>remove_component\<close> and the destructions are
  deletions, archetype moves keep all shared data. The invariant survives any callbacks that
  keep it; the functional statements are for callbacks that do not write to the world
  (\<open>passive_env\<close>), which is what the events themselves amount to.
\<close>

section \<open>Callbacks\<close>

definition passive_env :: "('u, 'v) env \<Rightarrow> bool" where
  "passive_env E \<longleftrightarrow> (\<forall>f ev w. \<exists>u. env_callback E f ev w = w\<lparr>w_client := u\<rparr>)"

definition keeps_store :: "('u, 'v) env \<Rightarrow> bool" where
  "keeps_store E \<longleftrightarrow> (\<forall>f ev w. wf_store (env_registry E) w \<longrightarrow> wf_store (env_registry E) (env_callback E f ev w))"

text \<open>The control state that neither the store operations nor the client's state touch.\<close>

definition ctl :: "'u world \<Rightarrow> u32 list \<times> u32 list \<times> entity list \<times> bool \<times> int \<times> int \<times> entity list
    \<times> entity set \<times> entity set \<times> command list \<times> observer_dispatch" where
  "ctl w = (w_slot_generations w, w_free_slots w, w_pool_slots w, w_defer_moves w, w_iteration_depth w,
     w_suppress_depth w, w_deferred_entities w, w_deferred_set w, w_pending_destroy w,
     w_command_buffer w, w_observers w)"

lemma passive_deliver:
  assumes "passive_env E"
  shows "\<exists>u. fst (deliver (env_callback E) ev cbs (w, n)) = w\<lparr>w_client := u\<rparr>"
proof (induction cbs arbitrary: w n)
  case Nil
  have "w = w\<lparr>w_client := w_client w\<rparr>" by simp
  then show ?case by (metis deliver.simps(1) fst_conv)
next
  case (Cons cb cbs)
  have "\<exists>u. fst (deliver (env_callback E) ev cbs (env_callback E f ev w, m)) = w\<lparr>w_client := u\<rparr>" for f m
  proof -
    obtain u where u: "env_callback E f ev w = w\<lparr>w_client := u\<rparr>" using assms unfolding passive_env_def by blast
    obtain u' where "fst (deliver (env_callback E) ev cbs (w\<lparr>w_client := u\<rparr>, m)) = w\<lparr>w_client := u\<rparr>\<lparr>w_client := u'\<rparr>"
      using Cons.IH by blast
    then show ?thesis using u by auto
  qed
  then show ?case using Cons.IH by (auto split: option.split)
qed

lemma passive_dispatch: "passive_env E \<Longrightarrow> \<exists>u. fst (dispatch E ev w) = w\<lparr>w_client := u\<rparr>"
  unfolding dispatch_def observer_dispatch_event_def by (rule passive_deliver)

lemma passive_dispatch_store:
  assumes "passive_env E"
  shows "same_store w (fst (dispatch E ev w))" "ctl (fst (dispatch E ev w)) = ctl w"
proof -
  obtain u where "fst (dispatch E ev w) = w\<lparr>w_client := u\<rparr>" using passive_dispatch [OF assms] by blast
  then show "same_store w (fst (dispatch E ev w))" "ctl (fst (dispatch E ev w)) = ctl w"
    by (simp_all add: ctl_def)
qed

lemma passive_keeps: "passive_env E \<Longrightarrow> keeps_store E"
  unfolding passive_env_def keeps_store_def
  by (metis same_store_updates(20) same_store_wf(1))

lemma keeps_dispatch:
  assumes "keeps_store E" "wf_store (env_registry E) w"
  shows "wf_store (env_registry E) (fst (dispatch E ev w))"
proof -
  have "observer_contract (env_callback E) (wf_store (env_registry E))"
    using assms(1) by (simp add: observer_contract_def keeps_store_def)
  then show ?thesis
    unfolding dispatch_def using assms(2) by (rule observer_contract.dispatch_inv)
qed

lemma notify_store:
  "keeps_store E \<Longrightarrow> wf_store (env_registry E) w \<Longrightarrow> wf_store (env_registry E) (notify E ty e t w)"
  "passive_env E \<Longrightarrow> same_store w (notify E ty e t w)" "passive_env E \<Longrightarrow> ctl (notify E ty e t w) = ctl w"
  by (simp_all add: notify_def keeps_dispatch passive_dispatch_store)

lemma notify_removed_store:
  "keeps_store E \<Longrightarrow> wf_store (env_registry E) w \<Longrightarrow> wf_store (env_registry E) (notify_removed E e ts w)"
  "passive_env E \<Longrightarrow> same_store w (notify_removed E e ts w)" "passive_env E \<Longrightarrow> ctl (notify_removed E e ts w) = ctl w"
proof -
  show "keeps_store E \<Longrightarrow> wf_store (env_registry E) w \<Longrightarrow> wf_store (env_registry E) (notify_removed E e ts w)"
    unfolding notify_removed_def by (induction ts arbitrary: w) (auto simp: notify_store)
  show "passive_env E \<Longrightarrow> ctl (notify_removed E e ts w) = ctl w"
    unfolding notify_removed_def by (induction ts arbitrary: w) (auto simp: notify_store)
  show "passive_env E \<Longrightarrow> same_store w (notify_removed E e ts w)"
    unfolding notify_removed_def
  proof (induction ts arbitrary: w)
    case (Cons t ts)
    then show ?case using same_store_trans [OF notify_store(2) [OF Cons.prems] Cons.IH [OF Cons.prems]] by simp
  qed simp
qed

section \<open>Component writes\<close>

lemma write_component_store:
  assumes wf: "wf_store reg w" and l: "location_of w e = Some l"
    and t: "t \<in> set (a_component_ids (arch w (loc_archetype l)))"
    and s: "schema_of reg t = Some s" "length bs \<le> cs_size s"
  defines "w' \<equiv> write_component e t (loc_archetype l) (loc_row l) bs w"
  shows "wf_store reg w'" "same_frame w w'" "location_of w' = location_of w" "ctl w' = ctl w"
    "x \<noteq> e \<Longrightarrow> content w' x = content w x"
    "length bs = cs_size s \<Longrightarrow> content w' e = Some ((the (content w e))(t \<mapsto> bs))"
    "\<exists>v. content w' e = Some ((the (content w e))(t \<mapsto> v))"
proof -
  note st = store_row_store [OF wf l t s]
  let ?w0 = "store_row (loc_archetype l, t, loc_row l) bs w"
  let ?w1 = "bump_tick ?w0"
  let ?w2 = "update_arch_column (loc_archetype l) t (column_mark_changed (loc_row l) (w_change_tick ?w1)) ?w1"
  have s1: "same_store ?w0 ?w1" by simp
  note w1 = same_store_wf [OF s1 st(1)]
  have f1: "same_frame w ?w1" using st(2) s1 by (auto simp: same_store_def intro: same_frame_trans)
  have loc1: "location_of ?w1 = location_of w" using s1 st(3) by (simp add: same_store_def)
  have a1: "loc_archetype l \<in> set (w_archetype_list ?w1)" "t \<in> set (a_component_ids (arch ?w1 (loc_archetype l)))"
    using f1 t wf_locationD(1) [OF wf l] by (auto simp: same_frame_def)
  note up = update_arch_column_store [OF w1(1) a1, of "column_mark_changed (loc_row l) (w_change_tick ?w1)"]
  have u: "wf_store reg ?w2" "same_frame ?w1 ?w2" "location_of ?w2 = location_of ?w1"
    by (rule up; simp add: version_ops_wf)+
  have c2: "content ?w2 = content ?w1"
    by (rule content_update_rows [OF w1(1) a1]) (simp_all add: version_ops_wf)
  have w': "w' = (if c_tracking (column_of (arch ?w2 (loc_archetype l)) t) then log_change e t (w_change_tick ?w2) ?w2 else ?w2)"
    by (simp add: w'_def write_component_def Let_def)
  then have s2: "same_store ?w2 w'" by simp
  note w2 = same_store_wf [OF s2 u(1)]
  show "wf_store reg w'" by (rule w2(1))
  show "same_frame w w'" using f1 u(2) s2 by (auto simp: same_store_def intro: same_frame_trans)
  show "location_of w' = location_of w" using s2 u(3) loc1 by (simp add: same_store_def)
  show "ctl w' = ctl w"
    by (simp add: w' ctl_def log_change_def Let_def compact_change_log_def update_arch_column_def set_arch_def
        bump_tick_def store_row_def)
  have c: "content w' = content ?w0" using w2(2) c2 w1(2) by simp
  show "x \<noteq> e \<Longrightarrow> content w' x = content w x" using c st(4) by simp
  show "length bs = cs_size s \<Longrightarrow> content w' e = Some ((the (content w e))(t \<mapsto> bs))" using c st(5) by simp
  show "\<exists>v. content w' e = Some ((the (content w e))(t \<mapsto> v))" using c st(6) by simp
qed

section \<open>Creating and destroying entities\<close>

lemma place_entity_store:
  assumes wf: "wf_store (env_registry E) w" and e: "location_of w e = None" "e \<noteq> null_entity"
  defines "w' \<equiv> place_entity E e w"
  shows "wf_store (env_registry E) w'" "content w' = (content w)(e \<mapsto> Map.empty)" "same_frame w w'"
    "location_of w' = (location_of w)(e \<mapsto> \<lparr>loc_archetype = w_empty_archetype w,
        loc_row = length (a_entities (arch w (w_empty_archetype w)))\<rparr>)"
    "ctl w' = ctl w"
proof -
  let ?a = "w_empty_archetype w"
  let ?r = "arch_add_entity (env_heap E) e (w_change_tick w) (arch w ?a)"
  let ?v = "set_location e ?a (fst ?r) (set_arch ?a (snd ?r) w)"
  note wa = wf_archsD [OF wf_storeD(1) [OF wf]]
  have ar: "wf_arch (arch w ?a)" "typed_columns (env_registry E) (arch w ?a)" using wa(4,5,7) by auto
  note nl = not_located [OF wf e(1) wa(7)]
  have x: "wf_arch (snd ?r)" "typed_columns (env_registry E) (snd ?r)"
    "a_component_ids (snd ?r) = a_component_ids (arch w ?a)"
    "a_entity_to_row (snd ?r) = (a_entity_to_row (arch w ?a))(e \<mapsto> fst ?r)"
    "\<And>t y. y \<noteq> e \<Longrightarrow> cell (snd ?r) t y = cell (arch w ?a) t y"
    using arch_add_entity_wf [OF ar(1) nl(1) e(2)] typed_columns_add [OF ar] arch_add_cell(1) [OF ar(1) nl(1)]
    by simp_all
  note ins = insert_entity_store [OF wf wa(7) e x]
  have e': "w' = invalidate_cache ?v" by (simp add: w'_def place_entity_def Let_def case_prod_beta)
  have s: "same_store ?v w'" by (simp add: e')
  note r = same_store_wf [OF s ins(1)]
  show "wf_store (env_registry E) w'" by (rule r(1))
  have "cell (snd ?r) t e = None" for t by (rule cell_no_components) (simp add: wa(8))
  then show "content w' = (content w)(e \<mapsto> Map.empty)" using r(2) ins(2) by simp
  show "same_frame w w'" using ins(3) s by (auto simp: same_store_def intro: same_frame_trans)
  show "location_of w' = (location_of w)(e \<mapsto> \<lparr>loc_archetype = ?a, loc_row = length (a_entities (arch w ?a))\<rparr>)"
    using s by (simp add: same_store_def fun_eq_iff)
  show "ctl w' = ctl w" by (simp add: e' ctl_def invalidate_cache_def set_location_def set_arch_def)
qed

lemma ctl_unplace [simp]: "ctl (unplace_entity e l w) = ctl w"
  by (simp add: unplace_entity_eq ctl_def fix_moved_row_def set_location_def set_arch_def erase_location_def
      split: option.split)

lemma ctl_invalidate [simp]: "ctl (invalidate_cache w) = ctl w"
  by (simp add: ctl_def invalidate_cache_def)

text \<open>
  A destruction up to what it does with the id: \<open>g\<close> is \<open>_free_entity_id\<close> or the push to the pool.
\<close>

definition remove_entity_with :: "('u, 'v) env \<Rightarrow> ('u world \<Rightarrow> 'u world) \<Rightarrow> entity \<Rightarrow> location \<Rightarrow> 'u world \<Rightarrow> 'u world" where
  "remove_entity_with E g e l w = invalidate_cache (notify_removed E e
     (a_component_ids (arch w (loc_archetype l))) (g (unplace_entity e l w)))"

lemma destroy_entity_eq:
  "location_of w e = Some l \<Longrightarrow> \<not> in_iteration w \<Longrightarrow>
   destroy_entity E e w = remove_entity_with E (free_entity_id e) e l w"
  "location_of w e = Some l \<Longrightarrow> \<not> in_iteration w \<Longrightarrow>
   destroy_entity_pooled E e w = remove_entity_with E (\<lambda>v. v\<lparr>w_pool_slots := w_pool_slots v @ [e]\<rparr>) e l w"
  by (simp_all add: destroy_entity_def destroy_entity_pooled_def remove_entity_with_def Let_def)

lemma remove_entity_with_store:
  assumes wf: "wf_store (env_registry E) w" and l: "location_of w e = Some l"
    and g: "\<And>v. same_store v (g v)"
  defines "w' \<equiv> remove_entity_with E g e l w"
  shows "keeps_store E \<Longrightarrow> wf_store (env_registry E) w'"
    "passive_env E \<Longrightarrow> content w' = (content w)(e := None)"
    "passive_env E \<Longrightarrow> ctl w' = ctl (g (unplace_entity e l w))"
    "passive_env E \<Longrightarrow> location_of w' e = None"
    "passive_env E \<Longrightarrow> x \<noteq> e \<Longrightarrow> location_of w' x = None \<longleftrightarrow> location_of w x = None"
    "passive_env E \<Longrightarrow> same_frame w w'"
proof -
  let ?v = "g (unplace_entity e l w)"
  let ?ids = "a_component_ids (arch w (loc_archetype l))"
  note un = unplace_entity_store [OF wf l]
  note v = same_store_wf [OF g un(1)]
  show "wf_store (env_registry E) w'" if "keeps_store E"
  proof -
    have "wf_store (env_registry E) (notify_removed E e ?ids ?v)"
      by (rule notify_removed_store(1) [OF that v(1)])
    then show ?thesis
      unfolding w'_def remove_entity_with_def using same_store_wf(1) [OF same_store_ops(4)] by blast
  qed
  assume p: "passive_env E"
  have s: "same_store (unplace_entity e l w) w'"
    unfolding w'_def remove_entity_with_def
    using same_store_trans [OF g same_store_trans [OF notify_removed_store(2) [OF p] same_store_ops(4)]] .
  show "content w' = (content w)(e := None)" using same_store_wf(2) [OF s un(1)] un(2) by simp
  show "ctl w' = ctl ?v" by (simp add: w'_def remove_entity_with_def notify_removed_store(3) [OF p])
  show "location_of w' e = None" using s un(4) by (simp add: same_store_def)
  show "x \<noteq> e \<Longrightarrow> location_of w' x = None \<longleftrightarrow> location_of w x = None" using s un(5) by (simp add: same_store_def)
  show "same_frame w w'" using s un(3) by (auto simp: same_store_def intro: same_frame_trans)
qed

section \<open>Archetype moves\<close>

text \<open>
  \<open>_ensure_archetype\<close>, \<open>_move_entity_to\<close> and the location update, which \<open>add_raw\<close>,
  \<open>remove_component\<close> and the commit of deferred operations share.
\<close>

definition migrate :: "('u, 'v) env \<Rightarrow> entity \<Rightarrow> location \<Rightarrow> ctype list \<Rightarrow> 'u world \<Rightarrow> aid \<times> nat \<times> 'u world" where
  "migrate E e l ids w =
     (let (target, w1) = ensure_archetype E ids w;
          (row, w2) = move_entity_to E e (loc_archetype l) target (loc_row l) w1
      in (target, row, set_location e target row w2))"

lemma strict_sorted_sort: "distinct (xs :: 'a::linorder list) \<Longrightarrow> sorted_wrt (<) (sort xs)"
  by (simp add: strict_sorted_iff)

lemma ctl_ensure [simp]: "ctl (snd (ensure_archetype E ids w)) = ctl w"
  by (simp add: ensure_archetype_def create_archetype_eq ctl_def split: option.split)

lemma ctl_move [simp]: "ctl (snd (move_entity_to E e p q r w)) = ctl w" "ctl (set_location e q r w) = ctl w"
  by (simp_all add: move_entity_to_eq ctl_def fix_moved_row_def set_location_def set_arch_def split: option.split)

lemma cell_registered:
  "wf_store reg w \<Longrightarrow> location_of w e = Some l \<Longrightarrow> t \<in> set (a_component_ids (arch w (loc_archetype l))) \<Longrightarrow>
   \<exists>s. schema_of reg t = Some s"
  using typed_columns_registered wf_locationD(4) by blast

lemma migrate_store:
  assumes wf: "wf_store (env_registry E) w" and l: "location_of w e = Some l"
    and srt: "sorted_wrt (<) ids" and reg: "\<And>t. t \<in> set ids \<Longrightarrow> \<exists>s. schema_of (env_registry E) t = Some s"
    and ne: "a_component_ids (arch w (loc_archetype l)) \<noteq> ids"
    and m: "migrate E e l ids w = (target, row, w')"
  shows "wf_store (env_registry E) w'" "location_of w' e = Some \<lparr>loc_archetype = target, loc_row = row\<rparr>"
    "a_component_ids (arch w' target) = ids" "ctl w' = ctl w" "w_pending_ops w' = w_pending_ops w"
    "x \<noteq> e \<Longrightarrow> content w' x = content w x"
    "\<exists>c. content w' e = Some c
       \<and> (\<forall>t. c t = (if t \<in> set ids then
             (if t \<in> set (a_component_ids (arch w (loc_archetype l))) then the (content w e) t else c t) else None))
       \<and> (\<forall>t\<in>set ids. \<exists>bs. c t = Some bs \<and> length bs = schema_size E t)"
proof -
  let ?w1 = "snd (ensure_archetype E ids w)"
  note en = ensure_archetype_store [OF wf srt reg]
  have t: "target = fst (ensure_archetype E ids w)"
    and r: "row = fst (move_entity_to E e (loc_archetype l) target (loc_row l) ?w1)"
    and w': "w' = set_location e target row (snd (move_entity_to E e (loc_archetype l) target (loc_row l) ?w1))"
    using m by (auto simp: migrate_def case_prod_beta Let_def)
  note cur = wf_locationD(1) [OF wf l]
  have l1: "location_of ?w1 e = Some l" using en(3) l by simp
  have q: "target \<in> set (w_archetype_list ?w1)" "target \<noteq> loc_archetype l"
    using en(4) en(7) [OF _ cur ne] by (simp_all add: t)
  note mv = move_entity_store [OF en(1) l1 q, folded r, folded w', simplified]
  have ac: "arch ?w1 (loc_archetype l) = arch w (loc_archetype l)" using en(6) [OF _ cur] by simp
  have at: "a_component_ids (arch ?w1 target) = ids" using en(5) by (simp add: t)
  have mv': "wf_store (env_registry E) w'" "same_frame ?w1 w'"
     "location_of w' e = Some \<lparr>loc_archetype = target, loc_row = row\<rparr>"
     "\<And>x. x \<noteq> e \<Longrightarrow> content w' x = content ?w1 x"
    using mv by (simp_all add: r)
  show "wf_store (env_registry E) w'" "location_of w' e = Some \<lparr>loc_archetype = target, loc_row = row\<rparr>"
    by (rule mv')+
  show "a_component_ids (arch w' target) = ids" using mv'(2) q(1) at by (simp add: same_frame_def)
  show "ctl w' = ctl w" by (simp add: w')
  show "w_pending_ops w' = w_pending_ops w" using mv'(2) en(9) by (simp add: same_frame_def)
  show "x \<noteq> e \<Longrightarrow> content w' x = content w x" using mv'(4) en(2) by simp
  have ce: "the (content w e) = (\<lambda>t. cell (arch w (loc_archetype l)) t e)" by (simp add: content_def l)
  show "\<exists>c. content w' e = Some c
       \<and> (\<forall>t. c t = (if t \<in> set ids then
             (if t \<in> set (a_component_ids (arch w (loc_archetype l))) then the (content w e) t else c t) else None))
       \<and> (\<forall>t\<in>set ids. \<exists>bs. c t = Some bs \<and> length bs = schema_size E t)"
    using mv(5) by (simp only: ce ac at)
qed

section \<open>Reading\<close>

lemma content_Some:
  "content w e = Some m \<longleftrightarrow> (\<exists>l. location_of w e = Some l \<and> m = (\<lambda>t. cell (arch w (loc_archetype l)) t e))"
  by (auto simp: content_def split: option.split)

lemma cell_dom:
  assumes "wf_store reg w" "location_of w e = Some l"
  shows "cell (arch w (loc_archetype l)) t e \<noteq> None \<longleftrightarrow> t \<in> set (a_component_ids (arch w (loc_archetype l)))"
  using cell_absent [OF wf_locationD(3) [OF assms]] cell_present [OF wf_locationD(3) [OF assms] _ wf_locationD(2) [OF assms]]
  by (metis option.distinct(1))

lemma content_dom:
  "wf_store reg w \<Longrightarrow> location_of w e = Some l \<Longrightarrow> dom (the (content w e)) = set (a_component_ids (arch w (loc_archetype l)))"
  using cell_dom by (fastforce simp: content_def dom_def)

lemma has_ids:
  assumes "wf_store reg w" "location_of w e = Some l"
  shows "has_component (arch w (loc_archetype l)) t \<longleftrightarrow> t \<in> set (a_component_ids (arch w (loc_archetype l)))"
  by (rule has_component_iff [OF wf_archD(1) [OF wf_locationD(3) [OF assms]]])

lemma has_content:
  assumes "wf_store reg w"
  shows "has w e t \<longleftrightarrow> (\<exists>m. content w e = Some m \<and> m t \<noteq> None)"
proof (cases "location_of w e")
  case None
  then show ?thesis by (simp add: has_def content_def)
next
  case (Some l)
  then show ?thesis
    using cell_dom [OF assms Some, of t] has_ids [OF assms Some, of t] wf_locationD(7) [OF assms Some]
    by (simp add: has_def content_def entity_bool_iff)
qed

lemma get_raw_content:
  assumes wf: "wf_store reg w"
  shows "get_raw w e t = None \<longleftrightarrow> \<not> has w e t"
    and "get_raw w e t = Some p \<Longrightarrow> \<exists>m. content w e = Some m \<and> m t = Some (load_row w p)"
proof -
  show "get_raw w e t = None \<longleftrightarrow> \<not> has w e t"
    by (simp add: get_raw_def has_def split: option.split)
  assume g: "get_raw w e t = Some p"
  then obtain l where l: "location_of w e = Some l" "has_component (arch w (loc_archetype l)) t"
    "p = (loc_archetype l, t, loc_row l)"
    by (auto simp: get_raw_def split: if_splits option.splits)
  note d = wf_locationD [OF wf l(1)]
  obtain j where j: "column_index (arch w (loc_archetype l)) t = Some j"
    "cell (arch w (loc_archetype l)) t e = Some (rows (a_columns (arch w (loc_archetype l)) ! j) ! loc_row l)"
    using cell_present [OF d(3) _ d(2), of t] l(2) has_ids [OF wf l(1)] by blast
  then have "cell (arch w (loc_archetype l)) t e = Some (load_row w p)"
    using index_column(5) [OF d(3) j(1)] d(5) by (simp add: l(3) load_row_def Let_def column_of_def)
  then show "\<exists>m. content w e = Some m \<and> m t = Some (load_row w p)" by (simp add: content_def l(1))
qed

section \<open>Adding components\<close>

lemma push_pending_store:
  assumes wf: "wf_store reg w"
    and op: "po_add op \<Longrightarrow> \<exists>s. schema_of reg (po_type op) = Some s \<and> length (po_data op) \<le> cs_size s"
  shows "wf_store reg (push_pending e op w)" "content (push_pending e op w) = content w"
    "location_of (push_pending e op w) = location_of w"
proof -
  let ?w = "w\<lparr>w_pending_ops := (w_pending_ops w)(e \<mapsto>
          (case w_pending_ops w e of None \<Rightarrow> [] | Some ops \<Rightarrow> ops) @ [op])\<rparr>"
  have f: "arch ?w = arch w" "location_of ?w = location_of w" by (simp_all add: fun_eq_iff arch_def location_of_def)
  have "wf_pending reg ?w"
    using wf_storeD(4) [OF wf] op by (cases "w_pending_ops w e") (auto simp: wf_pending_def split: if_splits)
  moreover have "wf_archs reg ?w" "wf_locations ?w" "wf_query_cache ?w"
    using wf_storeD(1-3) [OF wf] by (simp_all add: wf_archs_def wf_locations_def wf_query_cache_def f)
  ultimately have w: "wf_store reg ?w" by (simp add: wf_store_def)
  have s: "same_store ?w (push_pending e op w)" by (simp add: push_pending_def)
  show "wf_store reg (push_pending e op w)" by (rule same_store_wf(1) [OF s w])
  show "content (push_pending e op w) = content w"
  proof -
    have "content ?w = content w" by (intro ext) (simp only: content_def f)
    then show ?thesis using same_store_wf(2) [OF s w] by simp
  qed
  show "location_of (push_pending e op w) = location_of w" using s f by (simp add: same_store_def)
qed

lemma add_raw_eq:
  assumes "location_of w e = Some l" "is_alive w e" "schema_of (env_registry E) t = Some s" "\<not> w_defer_moves w"
  shows "add_raw E e t d w =
    (if has_component (arch w (loc_archetype l)) t
     then notify E Changed e t (write_component e t (loc_archetype l) (loc_row l) (value_bytes s d) w)
     else if in_iteration w then w
     else (case migrate E e l (sort (a_component_ids (arch w (loc_archetype l)) @ [t])) w of
        (target, row, w3) \<Rightarrow>
          invalidate_cache (notify E Added e t (write_component e t target row (value_bytes s d) w3))))"
  using assms by (simp add: add_raw_def migrate_def Let_def case_prod_beta)

lemma value_bytes_length:
  "length (value_bytes s d) \<le> cs_size s"
  "(case d of Some bs \<Rightarrow> cs_size s \<le> length bs | None \<Rightarrow> True) \<Longrightarrow> length (value_bytes s d) = cs_size s"
  by (auto simp: value_bytes_def split: option.split)

lemma migrate_add:
  assumes wf: "wf_store (env_registry E) w" and l: "location_of w e = Some l"
    and t: "t \<notin> set (a_component_ids (arch w (loc_archetype l)))" "schema_of (env_registry E) t = Some s"
    and m: "migrate E e l (sort (a_component_ids (arch w (loc_archetype l)) @ [t])) w = (target, row, w3)"
    and bs: "length bs \<le> cs_size s"
  defines "w4 \<equiv> write_component e t target row bs w3"
  shows "wf_store (env_registry E) w4" "ctl w4 = ctl w" "x \<noteq> e \<Longrightarrow> content w4 x = content w x"
    "length bs = cs_size s \<Longrightarrow> content w4 e = Some ((the (content w e))(t \<mapsto> bs))"
    "w_pending_ops w4 = w_pending_ops w" "location_of w4 e \<noteq> None"
proof -
  let ?old = "a_component_ids (arch w (loc_archetype l))"
  note d = wf_locationD [OF wf l]
  have srt: "sorted_wrt (<) (sort (?old @ [t]))"
    using t(1) wf_archD(1) [OF d(3)] by (intro strict_sorted_sort) (simp add: strict_sorted_iff)
  have reg: "\<And>u. u \<in> set (sort (?old @ [t])) \<Longrightarrow> \<exists>s. schema_of (env_registry E) u = Some s"
    using cell_registered [OF wf l] t(2) by auto
  have "set ?old \<noteq> set (sort (?old @ [t]))" using t(1) by auto
  then have ne: "?old \<noteq> sort (?old @ [t])" by metis
  note mg = migrate_store [OF wf l srt reg ne m]
  have "t \<in> set (a_component_ids (arch w3 target))" using mg(3) by simp
  note wr = write_component_store [OF mg(1,2) _ t(2) bs, simplified, OF this, folded w4_def]
  show "wf_store (env_registry E) w4" "ctl w4 = ctl w" using wr(1,4) mg(4) by simp_all
  show "w_pending_ops w4 = w_pending_ops w" using wr(2) mg(5) by (simp add: same_frame_def)
  show "x \<noteq> e \<Longrightarrow> content w4 x = content w x" using wr(5) mg(6) by simp
  show "location_of w4 e \<noteq> None" using wr(3) mg(2) by simp
  obtain c where c: "content w3 e = Some c"
    "\<forall>u. c u = (if u \<in> set (sort (?old @ [t])) then (if u \<in> set ?old then the (content w e) u else c u) else None)"
    using mg(7) by blast
  have "c u = the (content w e) u" if "u \<noteq> t" for u
  proof (cases "u \<in> set ?old")
    case True
    then show ?thesis using c(2) [rule_format, of u] by simp
  next
    case False
    then have "c u = None" using c(2) [rule_format, of u] that by simp
    moreover have "the (content w e) u = None" using cell_absent [OF d(3) False] by (simp add: content_def l)
    ultimately show ?thesis by simp
  qed
  then have "c(t \<mapsto> bs) = (the (content w e))(t \<mapsto> bs)" by (simp add: fun_eq_iff)
  then show "length bs = cs_size s \<Longrightarrow> content w4 e = Some ((the (content w e))(t \<mapsto> bs))"
    using wr(6) c(1) by simp
qed

lemma add_raw_wf:
  assumes wf: "wf_store (env_registry E) w" and cb: "keeps_store E"
  shows "wf_store (env_registry E) (add_raw E e t d w)"
proof (cases "is_alive w e \<and> schema_of (env_registry E) t \<noteq> None")
  case False
  then show ?thesis using wf by (auto simp: add_raw_def)
next
  case True
  then obtain s l where s: "schema_of (env_registry E) t = Some s" and l: "location_of w e = Some l"
    using is_alive_iff [OF wf] by auto
  note vb = value_bytes_length(1) [of s d]
  show ?thesis
  proof (cases "w_defer_moves w")
    case True
    then show ?thesis
      using \<open>is_alive w e \<and> _\<close> s by (auto simp: add_raw_def split: option.split intro!: push_pending_store(1) [OF wf])
  next
    case False
    show ?thesis
    proof (cases "has_component (arch w (loc_archetype l)) t")
      case h: True
      have "wf_store (env_registry E) (write_component e t (loc_archetype l) (loc_row l) (value_bytes s d) w)"
        by (rule write_component_store(1) [OF wf l _ s vb]) (use h has_ids [OF wf l] in simp)
      then show ?thesis
        using add_raw_eq [OF l _ s False] True h \<open>is_alive w e \<and> _\<close> notify_store(1) [OF cb] by simp
    next
      case h: False
      obtain target row w3 where m: "migrate E e l (sort (a_component_ids (arch w (loc_archetype l)) @ [t])) w = (target, row, w3)"
        by (metis prod_cases3)
      have "wf_store (env_registry E) (write_component e t target row (value_bytes s d) w3)"
        by (rule migrate_add(1) [OF wf l _ s m vb]) (use h has_ids [OF wf l] in simp)
      from same_store_wf(1) [OF same_store_ops(4) notify_store(1) [OF cb this]]
      show ?thesis
        using add_raw_eq [OF l _ s False] h m wf \<open>is_alive w e \<and> _\<close> by simp
    qed
  qed
qed

lemma add_raw_content:
  assumes wf: "wf_store (env_registry E) w" and p: "passive_env E" and l: "location_of w e = Some l"
    and s: "schema_of (env_registry E) t = Some s" and mode: "\<not> w_defer_moves w" "\<not> in_iteration w"
    and d: "case d of Some bs \<Rightarrow> cs_size s \<le> length bs | None \<Rightarrow> True"
  shows "content (add_raw E e t d w) = (content w)(e \<mapsto> (the (content w e))(t \<mapsto> value_bytes s d))"
    "ctl (add_raw E e t d w) = ctl w" "w_pending_ops (add_raw E e t d w) = w_pending_ops w"
proof -
  note vb = value_bytes_length(1) [of s d] value_bytes_length(2) [OF d]
  have al: "is_alive w e" using is_alive_iff [OF wf] l by simp
  have "\<exists>v. wf_store (env_registry E) v \<and> same_store v (add_raw E e t d w) \<and> ctl (add_raw E e t d w) = ctl v
      \<and> ctl v = ctl w \<and> w_pending_ops v = w_pending_ops w
      \<and> (\<forall>x. x \<noteq> e \<longrightarrow> content v x = content w x) \<and> content v e = Some ((the (content w e))(t \<mapsto> value_bytes s d))"
  proof (cases "has_component (arch w (loc_archetype l)) t")
    case True
    then have t: "t \<in> set (a_component_ids (arch w (loc_archetype l)))" using has_ids [OF wf l] by simp
    let ?v = "write_component e t (loc_archetype l) (loc_row l) (value_bytes s d) w"
    note wr = write_component_store [OF wf l t s vb(1)]
    have "add_raw E e t d w = notify E Changed e t ?v" using add_raw_eq [OF l al s mode(1)] True by simp
    then have "same_store ?v (add_raw E e t d w)" "ctl (add_raw E e t d w) = ctl ?v"
      using notify_store(2,3) [OF p] by simp_all
    moreover have "w_pending_ops ?v = w_pending_ops w" using wr(2) by (simp add: same_frame_def)
    ultimately show ?thesis using wr(1,4,5) wr(6) [OF vb(2)] by (intro exI [where x = ?v]) simp
  next
    case False
    then have t: "t \<notin> set (a_component_ids (arch w (loc_archetype l)))" using has_ids [OF wf l] by simp
    obtain target row w3 where m: "migrate E e l (sort (a_component_ids (arch w (loc_archetype l)) @ [t])) w = (target, row, w3)"
      by (metis prod_cases3)
    let ?v = "write_component e t target row (value_bytes s d) w3"
    note mg = migrate_add [OF wf l t s m vb(1)]
    have e: "add_raw E e t d w = invalidate_cache (notify E Added e t ?v)"
      using add_raw_eq [OF l al s mode(1)] False mode(2) m by simp
    have "same_store ?v (add_raw E e t d w)" "ctl (add_raw E e t d w) = ctl ?v"
      unfolding e using same_store_trans [OF notify_store(2) [OF p] same_store_ops(4)] notify_store(3) [OF p] by simp_all
    then show ?thesis using mg(1,2,3,5) mg(4) [OF vb(2)] by (intro exI [where x = ?v]) simp
  qed
  then obtain v where v: "wf_store (env_registry E) v" "same_store v (add_raw E e t d w)"
    "ctl (add_raw E e t d w) = ctl v" "ctl v = ctl w" "w_pending_ops v = w_pending_ops w"
    "\<forall>x. x \<noteq> e \<longrightarrow> content v x = content w x" "content v e = Some ((the (content w e))(t \<mapsto> value_bytes s d))"
    by blast
  then show "ctl (add_raw E e t d w) = ctl w" "w_pending_ops (add_raw E e t d w) = w_pending_ops w"
    by (simp_all add: same_store_def same_frame_def)
  have "content (add_raw E e t d w) = content v" by (rule same_store_wf(2) [OF v(2,1)])
  then show "content (add_raw E e t d w) = (content w)(e \<mapsto> (the (content w e))(t \<mapsto> value_bytes s d))"
    using v(6,7) by (simp add: fun_eq_iff)
qed

section \<open>Removing components\<close>

lemma remove_component_eq:
  assumes "location_of w e = Some l" "is_alive w e" "\<not> w_defer_moves w"
  shows "remove_component E e t w =
    (if \<not> has_component (arch w (loc_archetype l)) t then w
     else if in_iteration w then w
     else (case migrate E e l (remove1 t (a_component_ids (arch w (loc_archetype l)))) w of
        (target, row, w3) \<Rightarrow> invalidate_cache (notify E Removed e t w3)))"
  using assms by (simp add: remove_component_def migrate_def Let_def case_prod_beta)

lemma migrate_remove:
  assumes wf: "wf_store (env_registry E) w" and l: "location_of w e = Some l"
    and t: "t \<in> set (a_component_ids (arch w (loc_archetype l)))"
    and m: "migrate E e l (remove1 t (a_component_ids (arch w (loc_archetype l)))) w = (target, row, w3)"
  shows "wf_store (env_registry E) w3" "ctl w3 = ctl w" "x \<noteq> e \<Longrightarrow> content w3 x = content w x"
    "content w3 e = Some ((the (content w e))(t := None))"
    "w_pending_ops w3 = w_pending_ops w"
proof -
  let ?old = "a_component_ids (arch w (loc_archetype l))"
  note d = wf_locationD [OF wf l]
  have dist: "distinct ?old" using wf_archD(1) [OF d(3)] by (simp add: strict_sorted_iff)
  have set: "set (remove1 t ?old) = set ?old - {t}" by (rule set_remove1_eq [OF dist])
  have srt: "sorted_wrt (<) (remove1 t ?old)"
    using wf_archD(1) [OF d(3)] dist by (simp add: strict_sorted_iff sorted_remove1)
  have reg: "\<And>u. u \<in> set (remove1 t ?old) \<Longrightarrow> \<exists>s. schema_of (env_registry E) u = Some s"
    using cell_registered [OF wf l] set by auto
  have ne: "?old \<noteq> remove1 t ?old" using set t by (metis Diff_iff singletonI)
  note mg = migrate_store [OF wf l srt reg ne m]
  show "wf_store (env_registry E) w3" "ctl w3 = ctl w" "x \<noteq> e \<Longrightarrow> content w3 x = content w x"
    "w_pending_ops w3 = w_pending_ops w"
    using mg(1,4,5,6) by auto
  obtain c where c: "content w3 e = Some c"
    "\<forall>u. c u = (if u \<in> set (remove1 t ?old) then (if u \<in> set ?old then the (content w e) u else c u) else None)"
    using mg(7) by blast
  have "c u = ((the (content w e))(t := None)) u" for u
  proof (cases "u \<in> set ?old")
    case True
    then show ?thesis using c(2) [rule_format, of u, unfolded set] by (cases "u = t") simp_all
  next
    case False
    then have "c u = None" using c(2) [rule_format, of u, unfolded set] by simp
    moreover have "the (content w e) u = None" using cell_absent [OF d(3) False] by (simp add: content_def l)
    ultimately show ?thesis by simp
  qed
  then have "c = (the (content w e))(t := None)" by (rule ext)
  then show "content w3 e = Some ((the (content w e))(t := None))" using c(1) by simp
qed

lemma remove_component_wf:
  assumes wf: "wf_store (env_registry E) w" and cb: "keeps_store E"
  shows "wf_store (env_registry E) (remove_component E e t w)"
proof (cases "is_alive w e \<and> \<not> w_defer_moves w")
  case False
  then show ?thesis
    using wf by (auto simp: remove_component_def intro!: push_pending_store(1) [OF wf])
next
  case True
  then obtain l where l: "location_of w e = Some l" using is_alive_iff [OF wf] by auto
  note eq = remove_component_eq [OF l, of E t]
  obtain target row w3 where m: "migrate E e l (remove1 t (a_component_ids (arch w (loc_archetype l)))) w = (target, row, w3)"
    by (metis prod_cases3)
  show ?thesis
  proof (cases "has_component (arch w (loc_archetype l)) t")
    case h: True
    then have "wf_store (env_registry E) w3" using migrate_remove(1) [OF wf l _ m] has_ids [OF wf l] by simp
    from same_store_wf(1) [OF same_store_ops(4) notify_store(1) [OF cb this]]
    show ?thesis using eq True h m wf by simp
  next
    case False
    then show ?thesis using eq True wf by simp
  qed
qed

lemma remove_component_content:
  assumes wf: "wf_store (env_registry E) w" and p: "passive_env E" and l: "location_of w e = Some l"
    and mode: "\<not> w_defer_moves w" "\<not> in_iteration w"
  shows "content (remove_component E e t w) = (content w)(e \<mapsto> (the (content w e))(t := None))"
    "ctl (remove_component E e t w) = ctl w" "w_pending_ops (remove_component E e t w) = w_pending_ops w"
proof -
  have al: "is_alive w e" using is_alive_iff [OF wf] l by simp
  note eq = remove_component_eq [OF l al mode(1), of E t]
  have "content (remove_component E e t w) = (content w)(e \<mapsto> (the (content w e))(t := None))
    \<and> ctl (remove_component E e t w) = ctl w \<and> w_pending_ops (remove_component E e t w) = w_pending_ops w"
  proof (cases "has_component (arch w (loc_archetype l)) t")
    case False
    then have "the (content w e) t = None"
      using cell_absent [OF wf_locationD(3) [OF wf l]] has_ids [OF wf l] by (simp add: content_def l)
    then have "(the (content w e))(t := None) = the (content w e)" by auto
    moreover have "content w e = Some (the (content w e))" by (simp add: content_def l)
    ultimately have "(content w)(e \<mapsto> (the (content w e))(t := None)) = content w" by (metis fun_upd_triv)
    then show ?thesis using eq False by simp
  next
    case True
    then have t: "t \<in> set (a_component_ids (arch w (loc_archetype l)))" using has_ids [OF wf l] by simp
    obtain target row w3 where m: "migrate E e l (remove1 t (a_component_ids (arch w (loc_archetype l)))) w = (target, row, w3)"
      by (metis prod_cases3)
    note mg = migrate_remove [OF wf l t m]
    have e: "remove_component E e t w = invalidate_cache (notify E Removed e t w3)"
      using eq True mode(2) m by simp
    have s: "same_store w3 (remove_component E e t w)" "ctl (remove_component E e t w) = ctl w3"
      unfolding e using same_store_trans [OF notify_store(2) [OF p] same_store_ops(4)] notify_store(3) [OF p] by simp_all
    have "content (remove_component E e t w) = content w3" by (rule same_store_wf(2) [OF s(1) mg(1)])
    moreover have "content w3 = (content w)(e \<mapsto> (the (content w e))(t := None))"
      using mg(3,4) by (simp add: fun_eq_iff)
    moreover have "w_pending_ops (remove_component E e t w) = w_pending_ops w"
      using s(1) mg(5) by (simp add: same_store_def same_frame_def)
    ultimately show ?thesis using s(2) mg(2) by simp
  qed
  then show "content (remove_component E e t w) = (content w)(e \<mapsto> (the (content w e))(t := None))"
    "ctl (remove_component E e t w) = ctl w" "w_pending_ops (remove_component E e t w) = w_pending_ops w"
    by simp_all
qed

section \<open>The client state\<close>

text \<open>Only callbacks touch the state of the code behind them.\<close>

lemma client_frame [simp]:
  "w_client (set_arch a x w) = w_client w" "w_client (set_location e a r w) = w_client w"
  "w_client (erase_location e w) = w_client w" "w_client (fix_moved_row m r w) = w_client w"
  "w_client (bump_tick w) = w_client w" "w_client (invalidate_cache w) = w_client w"
  "w_client (free_entity_id e w) = w_client w" "w_client (update_arch_column a t f w) = w_client w"
  "w_client (store_row p bs w) = w_client w" "w_client (log_change e t k w) = w_client w"
  "w_client (queue_deferred_move e w) = w_client w" "w_client (push_pending e op w) = w_client w"
  by (auto simp: set_arch_def set_location_def erase_location_def fix_moved_row_def bump_tick_def invalidate_cache_def
      free_entity_id_def update_arch_column_def store_row_def log_change_def compact_change_log_def
      queue_deferred_move_def push_pending_def Let_def split: option.split prod.split)

lemma client_frame2 [simp]:
  "w_client (write_component e t a r bs w) = w_client w" "w_client (unplace_entity e l w) = w_client w"
  "w_client (place_entity E e w) = w_client w" "w_client (snd (move_entity_to E e p q r w)) = w_client w"
  "w_client (snd (ensure_archetype E ids w)) = w_client w" "w_client (snd (create_entity_preassigned E i w)) = w_client w"
  by (auto simp: write_component_def unplace_entity_def place_entity_def move_entity_to_def ensure_archetype_def
      create_archetype_def create_entity_preassigned_def Let_def case_prod_beta split: option.split)

lemma client_migrate:
  "migrate E e l ids w = (target, row, w') \<Longrightarrow> w_client w' = w_client w"
  by (auto simp: migrate_def case_prod_beta dest!: sym [of _ w'])

section \<open>Destruction, marks and moves\<close>

lemma destroy_entity_wf:
  assumes wf: "wf_store (env_registry E) w" and cb: "keeps_store E"
  shows "wf_store (env_registry E) (destroy_entity E e w)"
    "wf_store (env_registry E) (destroy_entity_pooled E e w)"
proof -
  have "wf_store (env_registry E) (destroy_entity E e w) \<and> wf_store (env_registry E) (destroy_entity_pooled E e w)"
  proof (cases "location_of w e = None \<or> in_iteration w")
    case True
    then show ?thesis using wf by (auto simp: destroy_entity_def destroy_entity_pooled_def split: option.split)
  next
    case False
    then obtain l where l: "location_of w e = Some l" by auto
    then show ?thesis
      using remove_entity_with_store(1) [OF wf l _ cb] False by (simp add: destroy_entity_eq)
  qed
  then show "wf_store (env_registry E) (destroy_entity E e w)"
    "wf_store (env_registry E) (destroy_entity_pooled E e w)" by simp_all
qed

lemma update_versions_store:
  assumes wf: "wf_store reg w" and a: "a \<in> set (w_archetype_list w)" "t \<in> set (a_component_ids (arch w a))"
    and f: "f = ensure_versions k \<or> f = column_mark_changed r k"
  shows "wf_store reg (update_arch_column a t f w)" "same_frame w (update_arch_column a t f w)"
    "content (update_arch_column a t f w) = content w"
    "location_of (update_arch_column a t f w) = location_of w"
proof -
  have fs: "\<forall>c. wf_col c \<longrightarrow> c_size c = length (a_entities (arch w a)) \<longrightarrow> wf_col (f c)"
    "\<And>c. c_size (f c) = c_size c" "\<And>c. c_elem_size (f c) = c_elem_size c" "\<And>c. rows (f c) = rows c"
    using f by (auto simp: version_ops_wf)
  show "wf_store reg (update_arch_column a t f w)" "same_frame w (update_arch_column a t f w)"
    "location_of (update_arch_column a t f w) = location_of w"
    using update_arch_column_store(1-3) [OF wf a fs(1-3)] by auto
  show "content (update_arch_column a t f w) = content w" by (rule content_update_rows [OF wf a fs])
qed

lemma mark_changed_core:
  assumes wf: "wf_store (env_registry E) w" and al: "is_alive w e" "has w e t"
  shows "\<exists>v. mark_changed_field E e t fld w = fst (dispatch E (mk_event Changed e t fld None) v)
    \<and> wf_store (env_registry E) v \<and> content v = content w \<and> ctl v = ctl w \<and> w_pending_ops v = w_pending_ops w
    \<and> w_client v = w_client w"
proof -
  obtain l where l: "location_of w e = Some l" using is_alive_iff [OF wf] al(1) by auto
  have h: "has_component (arch w (loc_archetype l)) t" using al(2) l by (auto simp: has_def split: if_splits)
  let ?a = "loc_archetype l"
  have a: "?a \<in> set (w_archetype_list w)" "t \<in> set (a_component_ids (arch w ?a))"
    using wf_locationD(1) [OF wf l] h has_ids [OF wf l] by auto
  let ?w0 = "update_arch_column ?a t (ensure_versions (w_change_tick w)) w"
  let ?w1 = "bump_tick ?w0"
  let ?w2 = "update_arch_column ?a t (column_mark_changed (loc_row l) (w_change_tick ?w1)) ?w1"
  let ?w3 = "log_change e t (w_change_tick ?w2) ?w2"
  have e: "mark_changed_field E e t fld w = fst (dispatch E (mk_event Changed e t fld None) ?w3)"
    using al l h by (simp add: mark_changed_field_def Let_def)
  have u0: "wf_store (env_registry E) ?w0" "same_frame w ?w0" "content ?w0 = content w"
    using update_versions_store [OF wf a disjI1 [OF refl]] by simp_all
  have s1: "same_store ?w0 ?w1" by simp
  note r1 = same_store_wf [OF s1 u0(1)]
  have a1: "?a \<in> set (w_archetype_list ?w1)" "t \<in> set (a_component_ids (arch ?w1 ?a))"
    using a u0(2) s1 by (auto simp: same_store_def same_frame_def)
  have u2: "wf_store (env_registry E) ?w2" "content ?w2 = content ?w1" "same_frame ?w1 ?w2"
    using update_versions_store [OF r1(1) a1 disjI2 [OF refl]] by simp_all
  have s3: "same_store ?w2 ?w3" by simp
  note r3 = same_store_wf [OF s3 u2(1)]
  have c: "content ?w3 = content w" using r3(2) u2(2) r1(2) u0(3) by simp
  have "w_pending_ops ?w3 = w_pending_ops w"
    using s3 u2(3) s1 u0(2) by (simp add: same_store_def same_frame_def)
  moreover have "ctl ?w3 = ctl w"
    by (simp add: log_change_def compact_change_log_def Let_def bump_tick_def update_arch_column_def set_arch_def ctl_def)
  moreover have "w_client ?w3 = w_client w" by simp
  ultimately show ?thesis using e r3(1) c by blast
qed

lemma mark_changed_field_id: "\<not> (is_alive w e \<and> has w e t) \<Longrightarrow> mark_changed_field E e t fld w = w"
  by (auto simp: mark_changed_field_def has_def is_alive_def Let_def)

lemma mark_changed_field_wf:
  assumes wf: "wf_store (env_registry E) w" and cb: "keeps_store E"
  shows "wf_store (env_registry E) (mark_changed_field E e t fld w)"
    "passive_env E \<Longrightarrow> content (mark_changed_field E e t fld w) = content w"
proof -
  have "wf_store (env_registry E) (mark_changed_field E e t fld w)
    \<and> (passive_env E \<longrightarrow> content (mark_changed_field E e t fld w) = content w)"
  proof (cases "is_alive w e \<and> has w e t")
    case False
    then show ?thesis using wf by (simp add: mark_changed_field_id)
  next
    case True
    then obtain v where v: "mark_changed_field E e t fld w = fst (dispatch E (mk_event Changed e t fld None) v)"
      "wf_store (env_registry E) v" "content v = content w" using mark_changed_core [OF wf] by blast
    have "content (mark_changed_field E e t fld w) = content w" if "passive_env E"
      unfolding v(1) using same_store_wf(2) [OF passive_dispatch_store(1) [OF that] v(2)] v(3) by metis
    then show ?thesis using keeps_dispatch [OF cb v(2)] v(1) by simp
  qed
  then show "wf_store (env_registry E) (mark_changed_field E e t fld w)"
    "passive_env E \<Longrightarrow> content (mark_changed_field E e t fld w) = content w" by simp_all
qed

lemma move_entity_wf:
  assumes wf: "wf_store (env_registry E) w" and a: "a \<in> set (w_archetype_list w)"
  shows "wf_store (env_registry E) (snd (move_entity E e a w))"
    "x \<noteq> e \<Longrightarrow> content (snd (move_entity E e a w)) x = content w x"
    "ctl (snd (move_entity E e a w)) = ctl w" "content (snd (move_entity E e a w)) y = None \<longleftrightarrow> content w y = None"
proof -
  have "wf_store (env_registry E) (snd (move_entity E e a w))
    \<and> (\<forall>x. x \<noteq> e \<longrightarrow> content (snd (move_entity E e a w)) x = content w x)
    \<and> ctl (snd (move_entity E e a w)) = ctl w
    \<and> (content (snd (move_entity E e a w)) e = None \<longleftrightarrow> content w e = None)"
  proof (cases "is_alive w e \<and> \<not> in_iteration w")
    case False
    then show ?thesis using wf by (auto simp: move_entity_def)
  next
    case True
    then obtain l where l: "location_of w e = Some l" using is_alive_iff [OF wf] by auto
    show ?thesis
    proof (cases "loc_archetype l = a")
      case eq: True
      then show ?thesis using True l wf by (simp add: move_entity_def Let_def)
    next
      case False
      note mv = move_entity_store [OF wf l a False [symmetric]]
      let ?v = "set_location e a (fst (move_entity_to E e (loc_archetype l) a (loc_row l) w))
        (snd (move_entity_to E e (loc_archetype l) a (loc_row l) w))"
      have "snd (move_entity E e a w) = invalidate_cache ?v"
        using True l False by (simp add: move_entity_def Let_def case_prod_beta)
      moreover have "content w e \<noteq> None" "content ?v e \<noteq> None" using l mv(5) by (auto simp: content_def)
      ultimately show ?thesis using same_store_wf [OF same_store_ops(4) mv(1)] mv(4) by auto
    qed
  qed
  then show "wf_store (env_registry E) (snd (move_entity E e a w))"
    "x \<noteq> e \<Longrightarrow> content (snd (move_entity E e a w)) x = content w x"
    "ctl (snd (move_entity E e a w)) = ctl w" "content (snd (move_entity E e a w)) y = None \<longleftrightarrow> content w y = None"
    by (simp_all, metis+)
qed

end
