(* ===== verification/Alloc.thy ===== *)
theory Alloc
  imports Refine
begin

text \<open>
  Entity ids: every slot is in at most one of the three states live, free and pooled, and a
  live or pooled id carries the generation of its slot (\<open>wf_alloc\<close>). Under it a new id is never
  a live one and a destroyed id never comes back. \<open>create_entity_preassigned\<close> keeps it only for
  a slot that is neither free nor pooled; the last section shows what happens otherwise.
\<close>

section \<open>Invariant\<close>

definition valid_id :: "'u world \<Rightarrow> entity \<Rightarrow> bool" where
  "valid_id w e \<longleftrightarrow> unat (slot e) < length (w_slot_generations w)
     \<and> w_slot_generations w ! unat (slot e) = generation e \<and> slot e \<notin> set (w_free_slots w)"

definition wf_alloc :: "'u world \<Rightarrow> bool" where
  "wf_alloc w \<longleftrightarrow>
     length (w_slot_generations w) \<le> 0xFFFFFFFF
   \<and> distinct (w_free_slots w) \<and> (\<forall>s\<in>set (w_free_slots w). unat s < length (w_slot_generations w))
   \<and> distinct (w_pool_slots w) \<and> (\<forall>e\<in>set (w_pool_slots w). location_of w e = None)
   \<and> (\<forall>e. location_of w e \<noteq> None \<or> e \<in> set (w_pool_slots w) \<longrightarrow> valid_id w e)"

definition wf_world :: "registry \<Rightarrow> 'u world \<Rightarrow> bool" where
  "wf_world reg w \<longleftrightarrow> wf_store reg w \<and> wf_alloc w"

lemma ctl_alloc:
  assumes "ctl w' = ctl w"
  shows "w_slot_generations w' = w_slot_generations w" "w_free_slots w' = w_free_slots w"
    "w_pool_slots w' = w_pool_slots w" "w_defer_moves w' = w_defer_moves w"
    "w_iteration_depth w' = w_iteration_depth w" "w_suppress_depth w' = w_suppress_depth w"
    "w_deferred_entities w' = w_deferred_entities w" "w_pending_destroy w' = w_pending_destroy w"
    "w_deferred_set w' = w_deferred_set w" "w_observers w' = w_observers w"
    "w_command_buffer w' = w_command_buffer w" "in_iteration w' = in_iteration w"
  using assms by (simp_all add: ctl_def in_iteration_def)

lemma valid_id_cong: "ctl w' = ctl w \<Longrightarrow> valid_id w' e = valid_id w e"
  using ctl_alloc(1,2) [of w' w] by (simp add: valid_id_def)

lemma wf_alloc_cong:
  assumes "ctl w' = ctl w" "\<And>e. location_of w' e = None \<longleftrightarrow> location_of w e = None"
  shows "wf_alloc w' = wf_alloc w"
  unfolding wf_alloc_def ctl_alloc(1-3) [OF assms(1)] valid_id_cong [OF assms(1)] assms(2) ..

lemma unat_slot_max: "unat s < 0xFFFFFFFF \<Longrightarrow> s \<noteq> (0xFFFFFFFF :: u32)"
  by auto

lemma valid_id_unique:
  assumes "wf_alloc w" "valid_id w e" "valid_id w f" "slot e = slot f"
  shows "e = f"
proof -
  have "slot e \<noteq> 0xFFFFFFFF"
    using assms(1,2) by (intro unat_slot_max) (simp add: wf_alloc_def valid_id_def)
  then show ?thesis using assms by (intro entity_eq_fields) (auto simp: valid_id_def)
qed

lemma of_nat_u32: "n < 2 ^ 32 \<Longrightarrow> unat (of_nat n :: u32) = n"
  by (simp add: unsigned_of_nat take_bit_nat_eq_self)

text \<open>The slot an allocation hands out.\<close>

lemma alloc_entity_id_props:
  assumes wf: "wf_alloc w" and a: "alloc_entity_id w = (e, w1)" "e \<noteq> null_entity"
  shows "location_of w e = None" "e \<notin> set (w_pool_slots w)" "valid_id w1 e" "wf_alloc w1"
    "location_of w1 = location_of w" "w_pool_slots w1 = w_pool_slots w" "e \<noteq> null_entity"
    "entity_bool e" "arch w1 = arch w"
proof -
  let ?g = "w_slot_generations w"
  have valid: "location_of w x \<noteq> None \<or> x \<in> set (w_pool_slots w) \<Longrightarrow> valid_id w x" for x
    using wf unfolding wf_alloc_def by blast
  show "e \<noteq> null_entity" "entity_bool e" using a(2) by (simp_all add: entity_bool_iff)
  have "location_of w e = None \<and> e \<notin> set (w_pool_slots w) \<and> valid_id w1 e \<and> wf_alloc w1
    \<and> location_of w1 = location_of w \<and> w_pool_slots w1 = w_pool_slots w \<and> arch w1 = arch w"
  proof (cases "w_free_slots w = []")
    case True
    let ?idx = "of_nat (length ?g) :: u32"
    have lt: "length ?g < 0xFFFFFFFE"
      using True a by (auto simp: alloc_entity_id_def Let_def split: if_splits)
    have u: "unat ?idx = length ?g" using lt by (simp add: of_nat_u32)
    have w1: "w1 = w\<lparr>w_slot_generations := ?g @ [0]\<rparr>" "e = make_entity ?idx 0"
      using True a lt u by (auto simp: alloc_entity_id_def Let_def nth_append split: if_splits)
    have ne: "?idx \<noteq> 0xFFFFFFFF" by (rule unat_slot_max) (use u lt in simp)
    note mk = make_entity_fields [OF ne, of 0, folded w1(2)]
    have f: "location_of w1 = location_of w" "arch w1 = arch w"
      by (simp_all add: w1 location_of_def arch_def fun_eq_iff)
    have new: "\<not> valid_id w e" by (simp add: valid_id_def mk u)
    have ve: "valid_id w1 e" by (simp add: valid_id_def w1(1) mk u True)
    have vx: "valid_id w x \<Longrightarrow> valid_id w1 x" for x by (simp add: valid_id_def w1(1) nth_append True)
    have "wf_alloc w1"
      using wf lt vx by (auto simp: wf_alloc_def f) (auto simp: w1(1) True)
    moreover have "location_of w e = None" "e \<notin> set (w_pool_slots w)" using new valid [of e] by blast+
    ultimately show ?thesis using ve f by (simp add: w1(1))
  next
    case False
    let ?idx = "last (w_free_slots w)"
    have w1: "w1 = w\<lparr>w_free_slots := butlast (w_free_slots w)\<rparr>" "e = make_entity ?idx (?g ! unat ?idx)"
      using False a by (simp_all add: alloc_entity_id_def Let_def)
    have i: "?idx \<in> set (w_free_slots w)" using False by simp
    then have ui: "unat ?idx < length ?g" using wf by (simp add: wf_alloc_def)
    then have ne: "?idx \<noteq> 0xFFFFFFFF" using wf by (intro unat_slot_max) (simp add: wf_alloc_def)
    note mk = make_entity_fields [OF ne, of "?g ! unat ?idx", folded w1(2)]
    have f: "location_of w1 = location_of w" "arch w1 = arch w"
      by (simp_all add: w1 location_of_def arch_def fun_eq_iff)
    have new: "\<not> valid_id w e" using i by (simp add: valid_id_def mk)
    have dist: "distinct (w_free_slots w)" using wf by (simp add: wf_alloc_def)
    have "w_free_slots w = butlast (w_free_slots w) @ [?idx]" using False by simp
    then have nin: "?idx \<notin> set (butlast (w_free_slots w))" using dist by (metis distinct_append not_distinct_conv_prefix)
    have ve: "valid_id w1 e" using ui nin by (simp add: valid_id_def w1(1) mk)
    have vx: "valid_id w x \<Longrightarrow> valid_id w1 x" for x by (auto simp: valid_id_def w1(1) dest: in_set_butlastD)
    have "wf_alloc w1"
      using wf vx dist by (auto simp: wf_alloc_def f) (auto simp: w1(1) distinct_butlast dest: in_set_butlastD)
    moreover have "location_of w e = None" "e \<notin> set (w_pool_slots w)" using new valid [of e] by blast+
    ultimately show ?thesis using ve f by (simp add: w1(1))
  qed
  then show "location_of w e = None" "e \<notin> set (w_pool_slots w)" "valid_id w1 e" "wf_alloc w1"
    "location_of w1 = location_of w" "w_pool_slots w1 = w_pool_slots w" "arch w1 = arch w" by auto
qed

lemma alloc_entity_id_null: "alloc_entity_id w = (null_entity, w1) \<Longrightarrow> wf_alloc w \<Longrightarrow> w1 = w"
proof -
  assume a: "alloc_entity_id w = (null_entity, w1)" and wf: "wf_alloc w"
  have "make_entity idx g \<noteq> null_entity" if "unat idx < 0xFFFFFFFF" for idx g
    using make_entity_bool [OF unat_slot_max [OF that]] by (auto simp: entity_bool_iff)
  moreover have "w_free_slots w \<noteq> [] \<Longrightarrow> unat (last (w_free_slots w)) < 0xFFFFFFFF"
    using wf unfolding wf_alloc_def by (meson last_in_set less_le_trans)
  moreover have "length (w_slot_generations w) < 0xFFFFFFFE \<Longrightarrow>
      unat (of_nat (length (w_slot_generations w)) :: u32) < 0xFFFFFFFF" by (simp add: of_nat_u32)
  ultimately show "w1 = w" using a by (fastforce simp: alloc_entity_id_def Let_def split: if_splits)
qed

lemma place_entity_alloc:
  assumes wf: "wf_store (env_registry E) w" "wf_alloc w"
    and e: "location_of w e = None" "e \<noteq> null_entity" "e \<notin> set (w_pool_slots w)" "valid_id w e"
  shows "wf_world (env_registry E) (place_entity E e w)"
proof -
  note p = place_entity_store [OF wf(1) e(1,2)]
  note c = ctl_alloc [OF p(5)]
  have "wf_alloc (place_entity E e w)"
    using wf(2) e valid_id_cong [OF p(5)] unfolding wf_alloc_def c by (auto simp: p(4))
  then show ?thesis using p(1) by (simp add: wf_world_def)
qed

lemma unplace_valid:
  assumes wf: "wf_store reg w" "wf_alloc w" and l: "location_of w e = Some l"
  shows "wf_alloc (unplace_entity e l w)" "valid_id (unplace_entity e l w) e" "e \<notin> set (w_pool_slots w)"
proof -
  note un = unplace_entity_store [OF wf(1) l]
  note c = ctl_alloc [OF ctl_unplace, of e l w]
  have v: "valid_id w e" using wf(2) l by (simp add: wf_alloc_def)
  show np: "e \<notin> set (w_pool_slots w)" using wf(2) l by (auto simp: wf_alloc_def)
  show "valid_id (unplace_entity e l w) e" using v valid_id_cong [OF ctl_unplace] by blast
  show "wf_alloc (unplace_entity e l w)"
    unfolding wf_alloc_def c valid_id_cong [OF ctl_unplace]
  proof (intro conjI allI impI ballI)
    fix x
    assume "location_of (unplace_entity e l w) x \<noteq> None \<or> x \<in> set (w_pool_slots w)"
    then have "location_of w x \<noteq> None \<or> x \<in> set (w_pool_slots w)" using un(4,5) by metis
    then show "valid_id w x" using wf(2) unfolding wf_alloc_def by blast
  next
    fix x
    assume "x \<in> set (w_pool_slots w)"
    then show "location_of (unplace_entity e l w) x = None"
      using wf(2) un(4,5) unfolding wf_alloc_def by metis
  qed (use wf(2) in \<open>auto simp: wf_alloc_def\<close>)
qed

lemma free_entity_id_alloc:
  assumes wf: "wf_alloc w" and e: "valid_id w e" "location_of w e = None" "e \<notin> set (w_pool_slots w)"
  shows "wf_alloc (free_entity_id e w)"
    "w_pool_slots (free_entity_id e w) = w_pool_slots w"
    "generation e \<noteq> - 1 \<Longrightarrow> w_slot_generations (free_entity_id e w) ! unat (slot e) = generation e + 1"
proof -
  let ?s = "unat (slot e)"
  have v: "?s < length (w_slot_generations w)" "w_slot_generations w ! ?s = generation e" "slot e \<notin> set (w_free_slots w)"
    using e(1) by (auto simp: valid_id_def)
  let ?w = "free_entity_id e w"
  have loc: "location_of ?w = location_of w" using same_store_ops(5) [of w e] by (simp add: same_store_def)
  have eq: "?w = (if generation e = - 1 then w else w\<lparr>w_slot_generations := (w_slot_generations w)[?s := generation e + 1],
       w_free_slots := w_free_slots w @ [slot e]\<rparr>)"
  proof (cases "generation e = - 1")
    case True
    then have "(w_slot_generations w)[?s := - 1] = w_slot_generations w" using v(2) by (metis list_update_id)
    then show ?thesis using True v by (simp add: free_entity_id_def Let_def)
  next
    case False
    then show ?thesis using v by (simp add: free_entity_id_def Let_def)
  qed
  show "w_pool_slots ?w = w_pool_slots w" by (simp add: eq)
  show "generation e \<noteq> - 1 \<Longrightarrow> w_slot_generations ?w ! ?s = generation e + 1" using v by (simp add: eq)
  have other: "valid_id ?w x" if "valid_id w x" "x \<noteq> e" for x
  proof -
    have "slot x \<noteq> slot e" using valid_id_unique [OF wf that(1) e(1)] that(2) by blast
    then have "unat (slot e) \<noteq> unat (slot x)" by (simp add: word_unat_eq_iff)
    then show ?thesis using that(1) \<open>slot x \<noteq> slot e\<close> by (simp add: eq valid_id_def)
  qed
  have all: "valid_id ?w x" if "location_of w x \<noteq> None \<or> x \<in> set (w_pool_slots w)" for x
  proof -
    have "x \<noteq> e" using that e(2,3) by auto
    moreover have "valid_id w x" using wf that unfolding wf_alloc_def by blast
    ultimately show ?thesis by (intro other)
  qed
  have free: "length (w_slot_generations ?w) = length (w_slot_generations w)"
    "distinct (w_free_slots ?w)" "\<forall>s\<in>set (w_free_slots ?w). unat s < length (w_slot_generations w)"
    using wf v by (auto simp: eq wf_alloc_def)
  show "wf_alloc ?w"
    unfolding wf_alloc_def \<open>w_pool_slots ?w = w_pool_slots w\<close> loc free(1)
    using wf free(2,3) all by (auto simp: wf_alloc_def)
qed

section \<open>Callbacks that keep the invariant\<close>

definition keeps_world :: "('u, 'v) env \<Rightarrow> bool" where
  "keeps_world E \<longleftrightarrow> (\<forall>f ev w. wf_world (env_registry E) w \<longrightarrow> wf_world (env_registry E) (env_callback E f ev w))"

lemma keeps_world_dispatch:
  "keeps_world E \<Longrightarrow> wf_world (env_registry E) w \<Longrightarrow> wf_world (env_registry E) (fst (dispatch E ev w))"
  unfolding dispatch_def
  by (rule observer_contract.dispatch_inv) (simp_all add: observer_contract_def keeps_world_def)

lemma keeps_world_notify:
  "keeps_world E \<Longrightarrow> wf_world (env_registry E) w \<Longrightarrow> wf_world (env_registry E) (notify E ty e t w)"
  by (simp add: notify_def keeps_world_dispatch)

lemma keeps_world_notify_removed:
  "keeps_world E \<Longrightarrow> wf_world (env_registry E) w \<Longrightarrow> wf_world (env_registry E) (notify_removed E e ts w)"
  unfolding notify_removed_def by (induction ts arbitrary: w) (auto simp: keeps_world_notify)

lemma wf_alloc_cong3:
  assumes "w_slot_generations w' = w_slot_generations w" "w_free_slots w' = w_free_slots w"
    "w_pool_slots w' = w_pool_slots w" "\<And>e. location_of w' e = None \<longleftrightarrow> location_of w e = None"
  shows "wf_alloc w' = wf_alloc w"
proof -
  have v: "valid_id w' e = valid_id w e" for e by (simp add: valid_id_def assms(1,2))
  show ?thesis unfolding wf_alloc_def assms v ..
qed

lemma wf_world_same_store:
  assumes "wf_world reg w" "same_store w w'" "ctl w' = ctl w"
  shows "wf_world reg w'"
  using assms same_store_wf(1) [OF assms(2)] wf_alloc_cong [OF assms(3)]
  by (simp add: wf_world_def same_store_def)

lemma content_None: "content w e = None \<longleftrightarrow> location_of w e = None"
  by (simp add: content_def split: option.split)

lemma wf_world_content:
  assumes "wf_world reg w" "wf_store reg w'" "ctl w' = ctl w" "\<And>x. content w' x = None \<longleftrightarrow> content w x = None"
  shows "wf_world reg w'"
  using assms(1,2) wf_alloc_cong [OF assms(3)] assms(4) by (simp add: wf_world_def content_None)

lemma passive_keeps_world:
  fixes E :: "('u, 'v) env"
  assumes p: "passive_env E"
  shows "keeps_world E"
  unfolding keeps_world_def
proof (intro allI impI)
  fix f and ev :: "'v event" and w :: "'u world"
  assume wf: "wf_world (env_registry E) w"
  obtain u where "env_callback E f ev w = w\<lparr>w_client := u\<rparr>" using p unfolding passive_env_def by blast
  then show "wf_world (env_registry E) (env_callback E f ev w)"
    using wf_world_same_store [OF wf, of "w\<lparr>w_client := u\<rparr>"] by (simp add: ctl_def)
qed

section \<open>Creation\<close>

lemma create_entity_cases:
  assumes wf: "wf_world (env_registry E) w" and c: "create_entity E w = (e, w')"
  shows "(e = null_entity \<and> w' = w) \<or>
    (\<exists>w1. alloc_entity_id w = (e, w1) \<and> e \<noteq> null_entity \<and> w' = place_entity E e w1 \<and> wf_store (env_registry E) w1
       \<and> content w1 = content w)"
proof -
  obtain a w1 where a: "alloc_entity_id w = (a, w1)" by (cases "alloc_entity_id w")
  have s: "same_store w w1" using same_store_ops(6) [of w] a by simp
  have st: "wf_store (env_registry E) w1" "content w1 = content w"
    using same_store_wf [OF s] wf by (auto simp: wf_world_def)
  show ?thesis
  proof (cases "a = null_entity")
    case True
    then have "w1 = w" using alloc_entity_id_null a wf by (auto simp: wf_world_def)
    then show ?thesis using c a True by (simp add: create_entity_def)
  next
    case False
    then show ?thesis using c a st by (auto simp: create_entity_def entity_bool_iff)
  qed
qed

lemma create_entity_null:
  assumes wf: "wf_alloc w" and c: "create_entity E w = (e, w')"
  shows "e = null_entity \<longleftrightarrow> w_free_slots w = [] \<and> 0xFFFFFFFE \<le> length (w_slot_generations w)"
proof -
  have mk: "make_entity idx g \<noteq> null_entity" if "unat idx < 0xFFFFFFFF" for idx g
    using make_entity_bool [OF unat_slot_max [OF that]] by (auto simp: entity_bool_iff)
  have fr: "w_free_slots w \<noteq> [] \<Longrightarrow> unat (last (w_free_slots w)) < 0xFFFFFFFF"
    using wf unfolding wf_alloc_def by (meson last_in_set less_le_trans)
  have ln: "length (w_slot_generations w) < 0xFFFFFFFE \<Longrightarrow>
      unat (of_nat (length (w_slot_generations w)) :: u32) < 0xFFFFFFFF" by (simp add: of_nat_u32)
  have "fst (create_entity E w) = fst (alloc_entity_id w)"
    by (simp add: create_entity_def case_prod_beta entity_bool_iff)
  then have e: "e = fst (alloc_entity_id w)" using c by simp
  show ?thesis
  proof (cases "w_free_slots w = []")
    case True
    then show ?thesis using mk ln unfolding e by (simp add: alloc_entity_id_def Let_def not_le)
  next
    case False
    then show ?thesis using mk fr unfolding e by (simp add: alloc_entity_id_def Let_def)
  qed
qed

lemma create_entity_world:
  assumes wf: "wf_world (env_registry E) w" and c: "create_entity E w = (e, w')"
  shows "wf_world (env_registry E) w'"
    "e \<noteq> null_entity \<Longrightarrow> content w e = None \<and> content w' = (content w)(e \<mapsto> Map.empty)
        \<and> e \<notin> set (w_pool_slots w) \<and> w_pool_slots w' = w_pool_slots w"
proof -
  have "wf_world (env_registry E) w' \<and> (e \<noteq> null_entity \<longrightarrow> content w e = None
     \<and> content w' = (content w)(e \<mapsto> Map.empty) \<and> e \<notin> set (w_pool_slots w) \<and> w_pool_slots w' = w_pool_slots w)"
  proof (cases "e = null_entity")
    case True
    then show ?thesis using create_entity_cases [OF wf c] wf by auto
  next
    case False
    then obtain w1 where w1: "alloc_entity_id w = (e, w1)" "w' = place_entity E e w1"
      "wf_store (env_registry E) w1" "content w1 = content w"
      using create_entity_cases [OF wf c] by blast
    have wa: "wf_alloc w" using wf by (simp add: wf_world_def)
    note al = alloc_entity_id_props [OF wa w1(1) False]
    have n1: "location_of w1 e = None" "e \<notin> set (w_pool_slots w1)" using al(1,2,5,6) by simp_all
    show ?thesis
      using place_entity_alloc [OF w1(3) al(4) n1(1) False n1(2) al(3)] al(1,2,6)
        place_entity_store(2,5) [OF w1(3) n1(1) False] ctl_alloc(3) [OF place_entity_store(5) [OF w1(3) n1(1) False]]
      by (simp add: w1(2,4) content_None)
  qed
  then show "wf_world (env_registry E) w'"
    "e \<noteq> null_entity \<Longrightarrow> content w e = None \<and> content w' = (content w)(e \<mapsto> Map.empty)
       \<and> e \<notin> set (w_pool_slots w) \<and> w_pool_slots w' = w_pool_slots w" by auto
qed

lemma create_entity_pooled_world:
  assumes wf: "wf_world (env_registry E) w" and c: "create_entity_pooled E w = (e, w')"
  shows "wf_world (env_registry E) w'"
    "e \<noteq> null_entity \<Longrightarrow> content w e = None \<and> content w' = (content w)(e \<mapsto> Map.empty)"
proof -
  have wf': "wf_store (env_registry E) w" "wf_alloc w" using wf by (auto simp: wf_world_def)
  have "wf_world (env_registry E) w' \<and> (e \<noteq> null_entity \<longrightarrow> content w e = None \<and> content w' = (content w)(e \<mapsto> Map.empty))"
  proof (cases "w_pool_slots w = []")
    case True
    then have "create_entity E w = (e, w')" using c by (simp add: create_entity_pooled_def)
    then show ?thesis using create_entity_world [OF wf] by blast
  next
    case False
    let ?w1 = "w\<lparr>w_pool_slots := butlast (w_pool_slots w)\<rparr>"
    have e: "e = last (w_pool_slots w)" "w' = place_entity E e ?w1"
      using c False by (auto simp: create_entity_pooled_def Let_def)
    then have ep: "e \<in> set (w_pool_slots w)" using False by simp
    then have n: "location_of w e = None" "valid_id w e" using wf'(2) by (auto simp: wf_alloc_def)
    have s: "same_store w ?w1" by simp
    note st = same_store_wf [OF s wf'(1)]
    have l1: "location_of ?w1 = location_of w" using s by (simp add: same_store_def)
    have v1: "valid_id ?w1 x = valid_id w x" for x by (simp add: valid_id_def)
    have dist: "distinct (w_pool_slots w)" using wf'(2) by (simp add: wf_alloc_def)
    have "w_pool_slots w = butlast (w_pool_slots w) @ [e]" using False e(1) by simp
    then have nin: "e \<notin> set (butlast (w_pool_slots w))" using dist by (metis distinct_append not_distinct_conv_prefix)
    have a1: "wf_alloc ?w1"
      using wf'(2) dist unfolding wf_alloc_def l1 v1 by (auto simp: distinct_butlast dest: in_set_butlastD)
    have "unat (slot e) < 0xFFFFFFFF" using n(2) wf'(2) by (simp add: valid_id_def wf_alloc_def)
    then have e0: "e \<noteq> null_entity" using entity_bool_slot [OF unat_slot_max] by (auto simp: entity_bool_iff)
    have n1: "location_of ?w1 e = None" "e \<notin> set (w_pool_slots ?w1)" "valid_id ?w1 e"
      using l1 n(1) nin v1 n(2) by simp_all
    show ?thesis
      using place_entity_alloc [OF st(1) a1 n1(1) e0 n1(2,3)] place_entity_store(2) [OF st(1) n1(1) e0] n(1) st(2)
      by (simp add: e(2) content_None)
  qed
  then show "wf_world (env_registry E) w'"
    "e \<noteq> null_entity \<Longrightarrow> content w e = None \<and> content w' = (content w)(e \<mapsto> Map.empty)" by auto
qed

text \<open>
  \<open>create_entity_preassigned\<close> keeps the allocation invariant when the slot of the foreign id is
  unused: not free, not pooled, no live entity in it.
\<close>

definition slot_unused :: "'u world \<Rightarrow> entity \<Rightarrow> bool" where
  "slot_unused w e \<longleftrightarrow> slot e \<notin> set (w_free_slots w)
     \<and> (\<forall>x. location_of w x \<noteq> None \<or> x \<in> set (w_pool_slots w) \<longrightarrow> slot x \<noteq> slot e)"

lemma create_entity_preassigned_world:
  assumes wf: "wf_world (env_registry E) w" and c: "create_entity_preassigned E p w = (e, w')"
    and u: "slot_unused w (Entity p)"
  shows "wf_world (env_registry E) w'"
    "e \<noteq> null_entity \<Longrightarrow> e = Entity p \<and> content w e = None \<and> content w' = (content w)(e \<mapsto> Map.empty)"
    "e = null_entity \<Longrightarrow> content w' = content w"
proof -
  have wf': "wf_store (env_registry E) w" "wf_alloc w" using wf by (auto simp: wf_world_def)
  let ?f = "Entity p" let ?s = "unat (slot ?f)"
  let ?w1 = "if ?s \<ge> length (w_slot_generations w)
     then w\<lparr>w_slot_generations := resize_generations (?s + 1) (w_slot_generations w)\<rparr> else w"
  have "wf_world (env_registry E) w' \<and> (e \<noteq> null_entity \<longrightarrow> e = ?f \<and> content w e = None
      \<and> content w' = (content w)(e \<mapsto> Map.empty)) \<and> (e = null_entity \<longrightarrow> content w' = content w)"
  proof (cases "slot ?f = 0xFFFFFFFF \<or> K_MAX_SLOT \<le> ?s")
    case True
    then have "e = null_entity \<and> w' = w" using c by (auto simp: create_entity_preassigned_def Let_def split: if_splits)
    then show ?thesis using wf by simp
  next
    case False
    then have s: "?s < K_MAX_SLOT" "slot ?f \<noteq> 0xFFFFFFFF" by auto
    have f0: "?f \<noteq> null_entity" using entity_bool_slot [OF s(2)] by (simp add: entity_bool_iff)
    have st1: "same_store w ?w1" by simp
    have l1: "location_of ?w1 = location_of w" using st1 by (simp add: same_store_def)
    have len: "?s < length (w_slot_generations ?w1)" by (simp add: resize_generations_def)
    have keep: "i < length (w_slot_generations w) \<Longrightarrow> w_slot_generations ?w1 ! i = w_slot_generations w ! i
      \<and> i < length (w_slot_generations ?w1)" for i by (simp add: resize_generations_def nth_append)
    have fl: "w_free_slots ?w1 = w_free_slots w" "w_pool_slots ?w1 = w_pool_slots w" by simp_all
    have max: "length (w_slot_generations ?w1) \<le> 0xFFFFFFFF"
      using wf'(2) s(1) by (simp add: resize_generations_def wf_alloc_def K_MAX_SLOT_def)
    have res: "(e, w') = (if location_of ?w1 ?f \<noteq> None then (null_entity, ?w1)
        else (?f, place_entity E ?f (?w1\<lparr>w_slot_generations := (w_slot_generations ?w1)[?s := generation ?f]\<rparr>)))"
      using c False unfolding create_entity_preassigned_def Let_def by (simp split: if_splits)
    have nl: "location_of w ?f = None" using u by (auto simp: slot_unused_def)
    let ?w2 = "?w1\<lparr>w_slot_generations := (w_slot_generations ?w1)[?s := generation ?f]\<rparr>"
    have e: "e = ?f" "w' = place_entity E ?f ?w2" using res nl l1 by (auto split: if_splits)
    have st2: "same_store w ?w2" using same_store_trans [OF st1 same_store_updates(7)] .
    note st = same_store_wf [OF st2 wf'(1)]
    have l2: "location_of ?w2 = location_of w" using st2 by (simp add: same_store_def)
    have vx: "valid_id ?w2 x" if x: "location_of w x \<noteq> None \<or> x \<in> set (w_pool_slots w)" for x
    proof -
      have "slot x \<noteq> slot ?f" using u x unfolding slot_unused_def by blast
      then have "unat (slot x) \<noteq> ?s" by (simp add: word_unat_eq_iff)
      moreover have "valid_id w x" using wf'(2) x unfolding wf_alloc_def by blast
      ultimately show ?thesis using keep [of "unat (slot x)"] fl by (simp add: valid_id_def)
    qed
    have vf: "valid_id ?w2 ?f" using len u fl by (simp add: valid_id_def slot_unused_def)
    have fr: "\<forall>s\<in>set (w_free_slots w). unat s < length (w_slot_generations ?w2)"
      using wf'(2) keep by (simp add: wf_alloc_def)
    have a2: "wf_alloc ?w2"
      unfolding wf_alloc_def l2 using wf'(2) max vx fr fl by (simp add: wf_alloc_def)
    have np: "?f \<notin> set (w_pool_slots ?w2)" using u fl by (auto simp: slot_unused_def)
    have n2: "location_of ?w2 ?f = None" using l2 nl by simp
    show ?thesis
      using place_entity_alloc [OF st(1) a2 n2 f0 np vf] place_entity_store(2) [OF st(1) n2 f0] st(2) nl e f0
      by (simp add: content_None)
  qed
  then show "wf_world (env_registry E) w'"
    "e \<noteq> null_entity \<Longrightarrow> e = ?f \<and> content w e = None \<and> content w' = (content w)(e \<mapsto> Map.empty)"
    "e = null_entity \<Longrightarrow> content w' = content w" by auto
qed

section \<open>Destruction\<close>

lemma remove_entity_with_world:
  assumes wf: "wf_world (env_registry E) w" and l: "location_of w e = Some l" and cb: "keeps_world E"
    and g: "\<And>v. same_store v (g v)" and ga: "wf_alloc (g (unplace_entity e l w))"
  shows "wf_world (env_registry E) (remove_entity_with E g e l w)"
proof -
  have "wf_store (env_registry E) (g (unplace_entity e l w))"
    using same_store_wf(1) [OF g unplace_entity_store(1) [OF _ l]] wf by (simp add: wf_world_def)
  then have "wf_world (env_registry E) (g (unplace_entity e l w))" using ga by (simp add: wf_world_def)
  from keeps_world_notify_removed [OF cb this]
  show ?thesis
    unfolding remove_entity_with_def by (rule wf_world_same_store) simp_all
qed

lemma destroy_entity_world:
  assumes wf: "wf_world (env_registry E) w" and cb: "keeps_world E"
  shows "wf_world (env_registry E) (destroy_entity E e w)"
    "wf_world (env_registry E) (destroy_entity_pooled E e w)"
proof -
  have wf': "wf_store (env_registry E) w" "wf_alloc w" using wf by (auto simp: wf_world_def)
  have "wf_world (env_registry E) (destroy_entity E e w) \<and> wf_world (env_registry E) (destroy_entity_pooled E e w)"
  proof (cases "location_of w e = None \<or> in_iteration w")
    case True
    then show ?thesis using wf by (auto simp: destroy_entity_def destroy_entity_pooled_def split: option.split)
  next
    case False
    then obtain l where l: "location_of w e = Some l" by auto
    let ?u = "unplace_entity e l w"
    note un = unplace_valid [OF wf' l] unplace_entity_store(4) [OF wf'(1) l]
    have np: "e \<notin> set (w_pool_slots ?u)" using un(3) ctl_alloc(3) [OF ctl_unplace, of e l w] by simp
    have "wf_alloc (free_entity_id e ?u)" by (rule free_entity_id_alloc(1) [OF un(1,2,4) np])
    moreover have "wf_alloc (?u\<lparr>w_pool_slots := w_pool_slots ?u @ [e]\<rparr>)"
    proof -
      have v: "valid_id (?u\<lparr>w_pool_slots := p\<rparr>) x = valid_id ?u x" for p x by (simp add: valid_id_def)
      have lo: "location_of (?u\<lparr>w_pool_slots := p\<rparr>) = location_of ?u" for p by (simp add: location_of_def fun_eq_iff)
      show ?thesis
        using un np unfolding wf_alloc_def v lo by auto
    qed
    ultimately show ?thesis
      using remove_entity_with_world [OF wf l cb] False by (simp add: destroy_entity_eq [OF l])
  qed
  then show "wf_world (env_registry E) (destroy_entity E e w)"
    "wf_world (env_registry E) (destroy_entity_pooled E e w)" by simp_all
qed

lemma destroy_entity_content:
  assumes wf: "wf_store (env_registry E) w" and p: "passive_env E" and it: "\<not> in_iteration w"
  shows "content (destroy_entity E e w) = (content w)(e := None)"
    "content (destroy_entity_pooled E e w) = (content w)(e := None)"
proof -
  have "content (destroy_entity E e w) = (content w)(e := None) \<and> content (destroy_entity_pooled E e w) = (content w)(e := None)"
  proof (cases "location_of w e")
    case None
    then have "(content w)(e := None) = content w" by (simp add: fun_upd_idem content_None)
    then show ?thesis using None by (simp add: destroy_entity_def destroy_entity_pooled_def)
  next
    case (Some l)
    then show ?thesis
      using remove_entity_with_store(2) [OF wf Some _ p] it by (simp add: destroy_entity_eq [OF Some])
  qed
  then show "content (destroy_entity E e w) = (content w)(e := None)"
    "content (destroy_entity_pooled E e w) = (content w)(e := None)" by simp_all
qed

section \<open>Component operations\<close>

lemma push_pending_world:
  assumes wf: "wf_world reg w"
    and op: "po_add op \<Longrightarrow> \<exists>s. schema_of reg (po_type op) = Some s \<and> length (po_data op) \<le> cs_size s"
  shows "wf_world reg (push_pending e op w)"
proof -
  have "wf_alloc (push_pending e op w) = wf_alloc w"
    by (rule wf_alloc_cong3) (use push_pending_store(3) [of reg w op e] wf op in
        \<open>auto simp: push_pending_def queue_deferred_move_def wf_world_def\<close>)
  then show ?thesis using push_pending_store(1) [of reg w op e] wf op by (simp add: wf_world_def)
qed

lemma add_raw_world:
  assumes wf: "wf_world (env_registry E) w" and cb: "keeps_world E"
  shows "wf_world (env_registry E) (add_raw E e t d w)"
proof -
  have st: "wf_store (env_registry E) w" using wf by (simp add: wf_world_def)
  show ?thesis
  proof (cases "is_alive w e \<and> schema_of (env_registry E) t \<noteq> None")
    case False
    then show ?thesis using wf by (auto simp: add_raw_def)
  next
    case True
    then obtain s l where s: "schema_of (env_registry E) t = Some s" and l: "location_of w e = Some l"
      using is_alive_iff [OF st] by auto
    note vb = value_bytes_length(1) [of s d]
    have al: "is_alive w e" using True by simp
    show ?thesis
    proof (cases "w_defer_moves w")
      case dm: True
      show ?thesis
        using al s dm by (auto simp: add_raw_def split: option.split intro!: push_pending_world [OF wf])
    next
      case dm: False
      note eq = add_raw_eq [OF l al s dm]
      show ?thesis
      proof (cases "has_component (arch w (loc_archetype l)) t")
        case h: True
        then have t: "t \<in> set (a_component_ids (arch w (loc_archetype l)))" using has_ids [OF st l] by simp
        note wr = write_component_store [OF st l t s vb]
        have "wf_world (env_registry E) (write_component e t (loc_archetype l) (loc_row l) (value_bytes s d) w)"
          using wf_world_content [OF wf wr(1,4)] wr(5,7) l by (metis content_None option.distinct(1))
        then show ?thesis using eq h keeps_world_notify [OF cb] by simp
      next
        case h: False
        then have t: "t \<notin> set (a_component_ids (arch w (loc_archetype l)))" using has_ids [OF st l] by simp
        obtain target row w3 where m: "migrate E e l (sort (a_component_ids (arch w (loc_archetype l)) @ [t])) w = (target, row, w3)"
          by (metis prod_cases3)
        note mg = migrate_add [OF st l t s m vb]
        have "wf_world (env_registry E) (write_component e t target row (value_bytes s d) w3)"
          using wf_world_content [OF wf mg(1,2)] mg(3,6) l by (metis content_None option.distinct(1))
        from keeps_world_notify [OF cb this]
        have "wf_world (env_registry E) (invalidate_cache (notify E Added e t
            (write_component e t target row (value_bytes s d) w3)))"
          by (rule wf_world_same_store) simp_all
        then show ?thesis using eq h m wf by simp
      qed
    qed
  qed
qed

lemma remove_component_world:
  assumes wf: "wf_world (env_registry E) w" and cb: "keeps_world E"
  shows "wf_world (env_registry E) (remove_component E e t w)"
proof (cases "is_alive w e \<and> \<not> w_defer_moves w")
  case False
  then show ?thesis
    using wf by (auto simp: remove_component_def intro!: push_pending_world [OF wf])
next
  case True
  have st: "wf_store (env_registry E) w" using wf by (simp add: wf_world_def)
  then obtain l where l: "location_of w e = Some l" using True is_alive_iff [OF st] by auto
  note eq = remove_component_eq [OF l, of E t]
  obtain target row w3 where m: "migrate E e l (remove1 t (a_component_ids (arch w (loc_archetype l)))) w = (target, row, w3)"
    by (metis prod_cases3)
  show ?thesis
  proof (cases "has_component (arch w (loc_archetype l)) t")
    case h: True
    then have t: "t \<in> set (a_component_ids (arch w (loc_archetype l)))" using has_ids [OF st l] by simp
    note mg = migrate_remove [OF st l t m]
    have "wf_world (env_registry E) w3"
      using wf_world_content [OF wf mg(1,2)] mg(3,4) l by (metis content_None option.distinct(1))
    from keeps_world_notify [OF cb this]
    have "wf_world (env_registry E) (invalidate_cache (notify E Removed e t w3))"
      by (rule wf_world_same_store) simp_all
    then show ?thesis using eq True h m wf by simp
  next
    case False
    then show ?thesis using eq True wf by simp
  qed
qed

end
