(* ===== verification/Deferred.thy ===== *)
theory Deferred
  imports Alloc
begin

text \<open>
  Deferred moves and the command buffer: committing the operations queued for an entity has
  the effect of performing them one after the other, in one archetype move; a flush of the
  command buffer has the effect of its commands on the abstract world.
\<close>

section \<open>The abstract operations\<close>

definition op_bytes :: "('u, 'v) env \<Rightarrow> ctype \<Rightarrow> byte list option \<Rightarrow> byte list" where
  "op_bytes E t d = (case d of Some bs \<Rightarrow> bs | None \<Rightarrow> replicate (schema_size E t) 0)"

definition op_data :: "pending_op \<Rightarrow> byte list option" where
  "op_data op = (if po_data op = [] then None else Some (po_data op))"

definition apply_op :: "('u, 'v) env \<Rightarrow> pending_op \<Rightarrow> (ctype \<rightharpoonup> byte list) \<Rightarrow> (ctype \<rightharpoonup> byte list)" where
  "apply_op E op m = (if po_add op then m(po_type op \<mapsto> op_bytes E (po_type op) (op_data op))
     else m(po_type op := None))"

text \<open>The value of a replayed state: the set decides presence, the last write the bytes.\<close>

definition replay_value :: "('u, 'v) env \<Rightarrow> (ctype \<rightharpoonup> byte list) \<Rightarrow> ctype set \<times> (ctype \<rightharpoonup> byte list option)
    \<Rightarrow> (ctype \<rightharpoonup> byte list)" where
  "replay_value E m r = (\<lambda>t. if t \<in> fst r
     then (case snd r t of Some d \<Rightarrow> Some (op_bytes E t d) | None \<Rightarrow> m t) else None)"

lemma replay_ops_value:
  "replay_value E m (replay_ops ops (S, L)) = fold (apply_op E) ops (replay_value E m (S, L))"
proof (induction ops arbitrary: S L)
  case Nil
  then show ?case by simp
next
  case (Cons op ops)
  have "apply_op E op (replay_value E m (S, L)) =
    replay_value E m (if po_add op then (insert (po_type op) S, L(po_type op \<mapsto> op_data op))
      else (S - {po_type op}, L))"
    by (auto simp: apply_op_def replay_value_def fun_eq_iff)
  moreover have "replay_ops (op # ops) (S, L) = replay_ops ops
      (if po_add op then (insert (po_type op) S, L(po_type op \<mapsto> op_data op)) else (S - {po_type op}, L))"
    unfolding op_data_def by simp
  ultimately show ?case using Cons.IH by (cases "po_add op") (simp_all del: replay_ops.simps fun_upd_apply)
qed

lemma replay_ops_inv:
  assumes "replay_ops ops (S, L) = (S', L')"
  shows "finite S \<Longrightarrow> finite S'"
    "t \<in> S' \<Longrightarrow> t \<in> S \<or> (\<exists>op\<in>set ops. po_add op \<and> po_type op = t)"
    "L' t = Some d \<Longrightarrow> L t = Some d \<or> (\<exists>op\<in>set ops. po_add op \<and> po_type op = t \<and> d = op_data op)"
    "t \<in> S' \<Longrightarrow> t \<in> S \<or> L' t \<noteq> None"
    "L t \<noteq> None \<Longrightarrow> L' t \<noteq> None"
proof -
  have "(finite S \<longrightarrow> finite S')
    \<and> (\<forall>t\<in>S'. t \<in> S \<or> (\<exists>op\<in>set ops. po_add op \<and> po_type op = t))
    \<and> (\<forall>t d. L' t = Some d \<longrightarrow> L t = Some d \<or> (\<exists>op\<in>set ops. po_add op \<and> po_type op = t \<and> d = op_data op))
    \<and> (\<forall>t. L t \<noteq> None \<longrightarrow> L' t \<noteq> None) \<and> (\<forall>t\<in>S'. t \<in> S \<or> L' t \<noteq> None)"
    using assms
  proof (induction ops arbitrary: S L)
    case Nil
    then show ?case by simp
  next
    case (Cons op ops)
    show ?case
    proof (cases "po_add op")
      case True
      then have "replay_ops ops (insert (po_type op) S, L(po_type op \<mapsto> op_data op)) = (S', L')"
        using Cons.prems by (simp add: op_data_def)
      from Cons.IH [OF this] True show ?thesis by (auto split: if_splits)
    next
      case False
      then have "replay_ops ops (S - {po_type op}, L) = (S', L')" using Cons.prems by simp
      from Cons.IH [OF this] False show ?thesis by auto
    qed
  qed
  then show "finite S \<Longrightarrow> finite S'"
    "t \<in> S' \<Longrightarrow> t \<in> S \<or> (\<exists>op\<in>set ops. po_add op \<and> po_type op = t)"
    "L' t = Some d \<Longrightarrow> L t = Some d \<or> (\<exists>op\<in>set ops. po_add op \<and> po_type op = t \<and> d = op_data op)"
    "t \<in> S' \<Longrightarrow> t \<in> S \<or> L' t \<noteq> None" "L t \<noteq> None \<Longrightarrow> L' t \<noteq> None" by blast+
qed

section \<open>Committing the writes\<close>

lemma fold_commit_write:
  assumes "wf_store (env_registry E) w" "location_of w e = Some l"
    and "set ts \<subseteq> set (a_component_ids (arch w (loc_archetype l)))" "distinct ts"
    and "\<And>t d. t \<in> set ts \<Longrightarrow> L t = Some d \<Longrightarrow> length (op_bytes E t d) \<le> schema_size E t"
    and "content w e = Some c"
  defines "w' \<equiv> fold (commit_write E e (loc_archetype l) (loc_row l) L) ts w"
  shows "wf_store (env_registry E) w' \<and> same_frame w w' \<and> location_of w' = location_of w \<and> ctl w' = ctl w
    \<and> (\<forall>x. x \<noteq> e \<longrightarrow> content w' x = content w x) \<and> content w' e \<noteq> None
    \<and> ((\<forall>t\<in>set ts. \<forall>d. L t = Some d \<longrightarrow> length (op_bytes E t d) = schema_size E t) \<longrightarrow>
        content w' e = Some (\<lambda>t. if t \<in> set ts then (case L t of Some d \<Rightarrow> Some (op_bytes E t d) | None \<Rightarrow> c t) else c t))"
  unfolding w'_def using assms(1-6)
proof (induction ts arbitrary: w c)
  case Nil
  then show ?case by (simp add: same_frame_def)
next
  case (Cons t ts)
  let ?w1 = "commit_write E e (loc_archetype l) (loc_row l) L t w"
  have t: "t \<in> set (a_component_ids (arch w (loc_archetype l)))" using Cons.prems(3) by simp
  obtain s where s: "schema_of (env_registry E) t = Some s" using cell_registered [OF Cons.prems(1,2) t] by blast
  have sz: "cs_size s = schema_size E t" by (simp add: schema_size_def s)
  have step: "wf_store (env_registry E) ?w1 \<and> same_frame w ?w1 \<and> location_of ?w1 = location_of w \<and> ctl ?w1 = ctl w
    \<and> (\<forall>x. x \<noteq> e \<longrightarrow> content ?w1 x = content w x)
    \<and> (\<exists>v. content ?w1 e = Some v
        \<and> ((\<forall>d. L t = Some d \<longrightarrow> length (op_bytes E t d) = schema_size E t) \<longrightarrow>
            v = (case L t of Some d \<Rightarrow> c(t \<mapsto> op_bytes E t d) | None \<Rightarrow> c)))"
  proof (cases "L t")
    case None
    then show ?thesis using Cons.prems(1,6) by (simp add: commit_write_def same_frame_def)
  next
    case (Some d)
    have len: "length (op_bytes E t d) \<le> cs_size s" using Cons.prems(5) [of t d] Some sz by simp
    have e: "?w1 = write_component e t (loc_archetype l) (loc_row l) (op_bytes E t d) w"
      by (simp add: commit_write_def Some op_bytes_def)
    note wr = write_component_store [OF Cons.prems(1,2) t s len, folded e]
    have "\<exists>v. content ?w1 e = Some v \<and> (length (op_bytes E t d) = cs_size s \<longrightarrow> v = c(t \<mapsto> op_bytes E t d))"
      using wr(6,7) Cons.prems(6) by (cases "length (op_bytes E t d) = cs_size s") auto
    then show ?thesis using wr(1-5) Some sz by auto
  qed
  then obtain v where v: "content ?w1 e = Some v"
    "(\<forall>d. L t = Some d \<longrightarrow> length (op_bytes E t d) = schema_size E t) \<longrightarrow>
            v = (case L t of Some d \<Rightarrow> c(t \<mapsto> op_bytes E t d) | None \<Rightarrow> c)" by blast
  have w1: "wf_store (env_registry E) ?w1" "same_frame w ?w1" "location_of ?w1 = location_of w" "ctl ?w1 = ctl w"
    "\<forall>x. x \<noteq> e \<longrightarrow> content ?w1 x = content w x" using step by blast+
  have l1: "location_of ?w1 e = Some l" using w1(3) Cons.prems(2) by simp
  have sub: "set ts \<subseteq> set (a_component_ids (arch ?w1 (loc_archetype l)))"
    using Cons.prems(3) w1(2) wf_locationD(1) [OF Cons.prems(1,2)] by (auto simp: same_frame_def)
  have dist: "distinct ts" "t \<notin> set ts" using Cons.prems(4) by auto
  have len: "\<And>u d. u \<in> set ts \<Longrightarrow> L u = Some d \<Longrightarrow> length (op_bytes E u d) \<le> schema_size E u"
    using Cons.prems(5) by simp
  let ?w2 = "fold (commit_write E e (loc_archetype l) (loc_row l) L) ts ?w1"
  note IH = Cons.IH [OF w1(1) l1 sub dist(1) len v(1)]
  have "content ?w2 e = Some (\<lambda>u. if u \<in> set (t # ts) then (case L u of Some d \<Rightarrow> Some (op_bytes E u d) | None \<Rightarrow> c u) else c u)"
    if ex: "\<forall>u\<in>set (t # ts). \<forall>d. L u = Some d \<longrightarrow> length (op_bytes E u d) = schema_size E u"
  proof -
    have "content ?w2 e = Some (\<lambda>u. if u \<in> set ts then (case L u of Some d \<Rightarrow> Some (op_bytes E u d) | None \<Rightarrow> v u) else v u)"
      using IH ex by simp
    moreover have "v = (case L t of Some d \<Rightarrow> c(t \<mapsto> op_bytes E t d) | None \<Rightarrow> c)" using v(2) ex by simp
    ultimately show ?thesis using dist(2) by (cases "L t") (auto simp: fun_eq_iff split: option.split)
  qed
  moreover have "same_frame w ?w2" using IH w1(2) same_frame_trans by blast
  ultimately show ?case using IH w1 by simp
qed

section \<open>Committing one entity\<close>

lemma fold_notify:
  assumes g: "\<And>t u. g t u = u \<or> (\<exists>ty. g t u = notify E ty e t u)"
  shows "keeps_world E \<Longrightarrow> wf_world (env_registry E) w \<Longrightarrow> wf_world (env_registry E) (fold g ts w)"
    "passive_env E \<Longrightarrow> same_store w (fold g ts w)" "passive_env E \<Longrightarrow> ctl (fold g ts w) = ctl w"
proof -
  show "keeps_world E \<Longrightarrow> wf_world (env_registry E) w \<Longrightarrow> wf_world (env_registry E) (fold g ts w)"
  proof (induction ts arbitrary: w)
    case (Cons t ts)
    then show ?case using g [of t w] keeps_world_notify [of E w] by auto
  qed simp
  assume p: "passive_env E"
  have "same_store w (fold g ts w) \<and> ctl (fold g ts w) = ctl w"
  proof (induction ts arbitrary: w)
    case (Cons t ts)
    have "same_store w (g t w) \<and> ctl (g t w) = ctl w"
      using g [of t w] notify_store(2,3) [OF p] by (metis same_store_refl)
    then show ?case using Cons.IH [of "g t w"] same_store_trans by auto
  qed simp
  then show "same_store w (fold g ts w)" "ctl (fold g ts w) = ctl w" by simp_all
qed

definition commit_events :: "('u, 'v) env \<Rightarrow> entity \<Rightarrow> ctype list \<Rightarrow> ctype list \<Rightarrow> (ctype \<rightharpoonup> byte list option) \<Rightarrow> 'u world \<Rightarrow> 'u world" where
  "commit_events E e cur_ids final_ids L w =
     fold (\<lambda>t u. if t \<notin> set final_ids then notify E Removed e t u else u) cur_ids
       (fold (\<lambda>t u. if t \<notin> set cur_ids then notify E Added e t u
                    else if L t \<noteq> None then notify E Changed e t u else u) final_ids w)"

lemma commit_events_store:
  "keeps_world E \<Longrightarrow> wf_world (env_registry E) w \<Longrightarrow> wf_world (env_registry E) (commit_events E e cs fs L w)"
  "passive_env E \<Longrightarrow> same_store w (commit_events E e cs fs L w)"
  "passive_env E \<Longrightarrow> ctl (commit_events E e cs fs L w) = ctl w"
proof -
  let ?g = "\<lambda>t u. if t \<notin> set cs then notify E Added e t u else if L t \<noteq> None then notify E Changed e t u else u"
  let ?h = "\<lambda>t u. if t \<notin> set fs then notify E Removed e t u else u"
  have g: "?g t u = u \<or> (\<exists>ty. ?g t u = notify E ty e t u)" for t u by auto
  have h: "?h t u = u \<or> (\<exists>ty. ?h t u = notify E ty e t u)" for t u by auto
  note fg = fold_notify [where g = ?g, OF g] and fh = fold_notify [where g = ?h, OF h]
  show "keeps_world E \<Longrightarrow> wf_world (env_registry E) w \<Longrightarrow> wf_world (env_registry E) (commit_events E e cs fs L w)"
    unfolding commit_events_def by (intro fh(1) fg(1))
  show "passive_env E \<Longrightarrow> same_store w (commit_events E e cs fs L w)"
    unfolding commit_events_def using same_store_trans [OF fg(2) fh(2)] .
  show "passive_env E \<Longrightarrow> ctl (commit_events E e cs fs L w) = ctl w"
    unfolding commit_events_def using fg(3) fh(3) by simp
qed

lemma commit_deferred_move_eq:
  assumes "location_of w e = Some l" "w_pending_ops w e = Some ops"
    and "replay_ops ops (set (a_component_ids (arch w (loc_archetype l))), Map.empty) = (S, L)" "finite S"
  defines "cur \<equiv> a_component_ids (arch w (loc_archetype l))" and "fin \<equiv> sorted_list_of_set S"
  shows "commit_deferred_move E e w =
    (if fin \<noteq> cur then
       (case migrate E e l fin w of (host, row, w1) \<Rightarrow>
          invalidate_cache (commit_events E e cur fin L (fold (commit_write E e host row L) fin w1)))
     else commit_events E e cur fin L (fold (commit_write E e (loc_archetype l) (loc_row l) L) fin w))"
  using assms by (simp add: commit_deferred_move_def commit_events_def migrate_def Let_def case_prod_beta cong: if_cong)

definition exact_ops :: "('u, 'v) env \<Rightarrow> pending_op list \<Rightarrow> bool" where
  "exact_ops E ops \<longleftrightarrow> (\<forall>op\<in>set ops. po_add op \<longrightarrow> po_data op = [] \<or> length (po_data op) = schema_size E (po_type op))"

lemma commit_core:
  assumes wf: "wf_store (env_registry E) w" and l: "location_of w e = Some l" and ops: "w_pending_ops w e = Some ops"
  shows "\<exists>v. wf_store (env_registry E) v \<and> ctl v = ctl w \<and> w_pending_ops v = w_pending_ops w \<and> w_client v = w_client w
    \<and> (\<forall>x. x \<noteq> e \<longrightarrow> content v x = content w x) \<and> content v e \<noteq> None
    \<and> (exact_ops E ops \<longrightarrow> content v e = Some (fold (apply_op E) ops (the (content w e))))
    \<and> (\<exists>cs fs L. set cs = dom (the (content w e)) \<and> set fs = dom (the (content v e))
         \<and> (commit_deferred_move E e w = commit_events E e cs fs L v
              \<or> commit_deferred_move E e w = invalidate_cache (commit_events E e cs fs L v)))"
proof -
  have client: "w_client (fold (commit_write E e host row L) ts u) = w_client u" for host row L ts u
    by (induction ts arbitrary: u) (simp_all add: commit_write_def split: option.split)
  let ?cur = "a_component_ids (arch w (loc_archetype l))"
  note d = wf_locationD [OF wf l]
  obtain S L where r: "replay_ops ops (set ?cur, Map.empty) = (S, L)" by (cases "replay_ops ops (set ?cur, Map.empty)") auto
  note inv = replay_ops_inv [OF r]
  have fin: "finite S" using inv(1) by simp
  let ?fin = "sorted_list_of_set S"
  have fs: "set ?fin = S" "distinct ?fin" "sorted_wrt (<) ?fin" using fin by (simp_all add: strict_sorted_iff)
  have pend: "po_add op \<Longrightarrow> \<exists>s. schema_of (env_registry E) (po_type op) = Some s \<and> length (po_data op) \<le> cs_size s"
    if "op \<in> set ops" for op
    using wf_storeD(4) [OF wf] ops that unfolding wf_pending_def by blast
  have reg: "\<exists>s. schema_of (env_registry E) t = Some s" if "t \<in> set ?fin" for t
    using that inv(2) [of t] cell_registered [OF wf l] pend fs(1) by blast
  have Lop: "\<exists>op\<in>set ops. po_add op \<and> po_type op = t \<and> d = op_data op" if "L t = Some d" for t d
    using inv(3) [OF that] by simp
  have len: "length (op_bytes E t d) \<le> schema_size E t" if Lt: "L t = Some d" for t d
  proof -
    obtain op where op: "op \<in> set ops" "po_add op" "po_type op = t" "d = op_data op" using Lop [OF Lt] by blast
    obtain s where "schema_of (env_registry E) t = Some s" "length (po_data op) \<le> cs_size s"
      using pend [OF op(1,2)] op(3) by auto
    then show ?thesis by (simp add: op(4) op_bytes_def op_data_def schema_size_def)
  qed
  have exact: "length (op_bytes E t d) = schema_size E t" if ex: "exact_ops E ops" and Lt: "L t = Some d" for t d
  proof -
    obtain op where "op \<in> set ops" "po_add op" "po_type op = t" "d = op_data op" using Lop [OF Lt] by blast
    then show ?thesis using ex by (auto simp: exact_ops_def op_bytes_def op_data_def)
  qed
  let ?m = "the (content w e)"
  have m: "?m = (\<lambda>t. cell (arch w (loc_archetype l)) t e)" by (simp add: content_def l)
  have none: "?m t = None" if "t \<notin> set ?cur" for t using cell_absent [OF d(3) that] by (simp add: m)
  have val: "replay_value E ?m (S, L) = fold (apply_op E) ops ?m"
  proof -
    have "replay_value E ?m (set ?cur, Map.empty) = ?m" using none by (auto simp: replay_value_def fun_eq_iff)
    then show ?thesis using replay_ops_value [of E ?m ops "set ?cur" Map.empty] r by simp
  qed
  note eq = commit_deferred_move_eq [OF l ops r fin, of E]
  show ?thesis
  proof (cases "?fin = ?cur")
    case True
    have sub: "set ?fin \<subseteq> set (a_component_ids (arch w (loc_archetype l)))" using True by simp
    have c: "content w e = Some ?m" by (simp add: content_def l)
    let ?v = "fold (commit_write E e (loc_archetype l) (loc_row l) L) ?fin w"
    note fw = fold_commit_write [OF wf l sub fs(2) len c]
    have "content ?v e = Some (fold (apply_op E) ops ?m)" if "exact_ops E ops"
    proof -
      have "content ?v e = Some (\<lambda>t. if t \<in> S then (case L t of Some d \<Rightarrow> Some (op_bytes E t d) | None \<Rightarrow> ?m t) else ?m t)"
        using fw exact [OF that] fs(1) by simp
      also have "(\<lambda>t. if t \<in> S then (case L t of Some d \<Rightarrow> Some (op_bytes E t d) | None \<Rightarrow> ?m t) else ?m t)
          = replay_value E ?m (S, L)"
        using none True fs(1) by (auto simp: replay_value_def fun_eq_iff)
      finally show ?thesis using val by simp
    qed
    moreover have "commit_deferred_move E e w = commit_events E e ?cur ?fin L ?v" using eq True by simp
    moreover have "w_pending_ops ?v = w_pending_ops w" using fw by (simp add: same_frame_def)
    moreover have "dom (the (content ?v e)) = set ?fin"
      using content_dom [of "env_registry E" ?v e l] fw l True d(1) by (simp add: same_frame_def)
    ultimately show ?thesis using fw content_dom [OF wf l] client by (intro exI [where x = ?v]) blast
  next
    case False
    obtain host row w1 where mg: "migrate E e l ?fin w = (host, row, w1)" by (metis prod_cases3)
    note ms = migrate_store [OF wf l fs(3) reg not_sym [OF False] mg]
    obtain c where c: "content w1 e = Some c"
      "\<forall>t. c t = (if t \<in> set ?fin then (if t \<in> set ?cur then ?m t else c t) else None)" using ms(7) by blast
    let ?v = "fold (commit_write E e host row L) ?fin w1"
    have sub: "set ?fin \<subseteq> set (a_component_ids (arch w1 (loc_archetype \<lparr>loc_archetype = host, loc_row = row\<rparr>)))"
      using ms(3) by simp
    note fw = fold_commit_write [OF ms(1,2) sub fs(2) len c(1), simplified location.simps]
    have "content ?v e = Some (fold (apply_op E) ops ?m)" if "exact_ops E ops"
    proof -
      have "content ?v e = Some (\<lambda>t. if t \<in> S then (case L t of Some d \<Rightarrow> Some (op_bytes E t d) | None \<Rightarrow> c t) else c t)"
        using fw exact [OF that] fs(1) by simp
      also have "(\<lambda>t. if t \<in> S then (case L t of Some d \<Rightarrow> Some (op_bytes E t d) | None \<Rightarrow> c t) else c t)
          = replay_value E ?m (S, L)"
      proof
        fix t
        show "(if t \<in> S then (case L t of Some d \<Rightarrow> Some (op_bytes E t d) | None \<Rightarrow> c t) else c t) = replay_value E ?m (S, L) t"
        proof (cases "t \<in> S")
          case True
          then show ?thesis
            using inv(4) [OF True] c(2) [rule_format, of t] fs(1) by (cases "L t") (auto simp: replay_value_def)
        next
          case False
          then show ?thesis using c(2) [rule_format, of t] fs(1) by (simp add: replay_value_def)
        qed
      qed
      finally show ?thesis using val by simp
    qed
    moreover have "commit_deferred_move E e w = invalidate_cache (commit_events E e ?cur ?fin L ?v)"
      using eq False mg by simp
    moreover have "w_pending_ops ?v = w_pending_ops w" using fw ms(5) by (simp add: same_frame_def)
    moreover have "dom (the (content ?v e)) = set ?fin"
    proof -
      have fv: "wf_store (env_registry E) ?v" "location_of ?v = location_of w1" "same_frame w1 ?v" using fw by blast+
      have lv: "location_of ?v e = Some \<lparr>loc_archetype = host, loc_row = row\<rparr>" by (simp only: fv(2) ms(2))
      have "a_component_ids (arch ?v host) = ?fin"
        using fv(3) ms(3) wf_locationD(1) [OF ms(1,2)] by (simp add: same_frame_def)
      then show ?thesis using content_dom [OF fv(1) lv] by simp
    qed
    moreover have "w_client ?v = w_client w" using client client_migrate [OF mg] by simp
    moreover have "\<exists>cs fs L. set cs = dom (the (content w e)) \<and> set fs = dom (the (content ?v e))
        \<and> commit_deferred_move E e w = invalidate_cache (commit_events E e cs fs L ?v)"
      using calculation(2,4) content_dom [OF wf l] by blast
    ultimately show ?thesis using fw ms(4,6) by (intro exI [where x = ?v]) auto
  qed
qed

lemma commit_deferred_move_world:
  assumes wf: "wf_world (env_registry E) w" and cb: "keeps_world E"
  shows "wf_world (env_registry E) (commit_deferred_move E e w)"
proof (cases "location_of w e = None \<or> w_pending_ops w e = None")
  case True
  then show ?thesis using wf by (auto simp: commit_deferred_move_def split: option.split)
next
  case False
  then obtain l ops where l: "location_of w e = Some l" "w_pending_ops w e = Some ops" by auto
  have st: "wf_store (env_registry E) w" using wf by (simp add: wf_world_def)
  obtain v cs fs L where v: "wf_store (env_registry E) v" "ctl v = ctl w" "\<forall>x. x \<noteq> e \<longrightarrow> content v x = content w x"
    "content v e \<noteq> None" "commit_deferred_move E e w = commit_events E e cs fs L v
         \<or> commit_deferred_move E e w = invalidate_cache (commit_events E e cs fs L v)"
    using commit_core [OF st l] by blast
  have "content v x = None \<longleftrightarrow> content w x = None" for x
    using v(3,4) l(1) by (cases "x = e") (auto simp: content_None)
  then have "wf_world (env_registry E) v" by (rule wf_world_content [OF wf v(1,2)])
  from commit_events_store(1) [OF cb this]
  have 1: "wf_world (env_registry E) (commit_events E e cs fs L v)" .
  have "wf_world (env_registry E) (invalidate_cache (commit_events E e cs fs L v))"
    by (rule wf_world_same_store [OF 1]) simp_all
  then show ?thesis using 1 v(5) by auto
qed

lemma commit_deferred_move_content:
  assumes wf: "wf_store (env_registry E) w" and p: "passive_env E"
    and l: "location_of w e = Some l" and ops: "w_pending_ops w e = Some ops" "exact_ops E ops"
  shows "content (commit_deferred_move E e w) = (content w)(e \<mapsto> fold (apply_op E) ops (the (content w e)))"
    "ctl (commit_deferred_move E e w) = ctl w" "w_pending_ops (commit_deferred_move E e w) = w_pending_ops w"
    "wf_store (env_registry E) (commit_deferred_move E e w)"
proof -
  obtain v cs fs L where v: "wf_store (env_registry E) v" "ctl v = ctl w" "w_pending_ops v = w_pending_ops w"
    "\<forall>x. x \<noteq> e \<longrightarrow> content v x = content w x"
    "exact_ops E ops \<longrightarrow> content v e = Some (fold (apply_op E) ops (the (content w e)))"
    "commit_deferred_move E e w = commit_events E e cs fs L v
         \<or> commit_deferred_move E e w = invalidate_cache (commit_events E e cs fs L v)"
    using commit_core [OF wf l ops(1)] by blast
  have s: "same_store v (commit_deferred_move E e w)"
    using v(6) commit_events_store(2) [OF p] same_store_trans [OF commit_events_store(2) [OF p] same_store_ops(4)] by metis
  have "ctl (commit_deferred_move E e w) = ctl v"
    using v(6) commit_events_store(3) [OF p] by (metis ctl_invalidate)
  then show "ctl (commit_deferred_move E e w) = ctl w" using v(2) by simp
  show "w_pending_ops (commit_deferred_move E e w) = w_pending_ops w"
    using s v(3) by (simp add: same_store_def same_frame_def)
  show "wf_store (env_registry E) (commit_deferred_move E e w)" by (rule same_store_wf(1) [OF s v(1)])
  show "content (commit_deferred_move E e w) = (content w)(e \<mapsto> fold (apply_op E) ops (the (content w e)))"
    using same_store_wf(2) [OF s v(1)] v(4,5) ops(2) by (simp add: fun_eq_iff)
qed

section \<open>Ending the deferred window\<close>

lemma fold_world:
  assumes "\<And>x u. wf_world reg u \<Longrightarrow> wf_world reg (f x u)" "wf_world reg w"
  shows "wf_world reg (fold f xs w)"
  using assms(2) by (induction xs arbitrary: w) (auto simp: assms(1))

lemma same_store_pending:
  assumes "wf_world reg w" "w_pending_ops w' = Map.empty" "w_slot_generations w' = w_slot_generations w"
    "w_free_slots w' = w_free_slots w" "w_pool_slots w' = w_pool_slots w"
    "arch w' = arch w" "w_locations w' = w_locations w" "w_archetype_list w' = w_archetype_list w"
    "w_archetypes w' = w_archetypes w" "w_empty_archetype w' = w_empty_archetype w"
    "w_next_aid w' = w_next_aid w" "w_archs w' = w_archs w" "w_query_cache w' = w_query_cache w"
  shows "wf_world reg w'" "content w' = content w"
proof -
  have l: "location_of w' = location_of w" by (simp add: location_of_def fun_eq_iff assms)
  have "wf_store reg w'"
    using assms(1) unfolding wf_world_def wf_store_def wf_archs_def wf_locations_def wf_query_cache_def wf_pending_def l
    by (simp add: assms)
  moreover have "wf_alloc w' = wf_alloc w" by (rule wf_alloc_cong3) (simp_all add: assms l)
  ultimately show "wf_world reg w'" using assms(1) by (simp add: wf_world_def)
  show "content w' = content w" by (intro ext) (simp only: content_def l assms(6))
qed

lemma end_deferred_moves_world:
  assumes wf: "wf_world (env_registry E) w" and cb: "keeps_world E"
  shows "wf_world (env_registry E) (end_deferred_moves E w)"
proof (cases "w_defer_moves w")
  case False
  then show ?thesis using wf by (simp add: end_deferred_moves_def)
next
  case True
  let ?q = "w_deferred_entities w"
  let ?w1 = "w\<lparr>w_defer_moves := False\<rparr>"
  let ?w2 = "fold (\<lambda>e u. if e \<in> w_pending_destroy u then destroy_entity E e u else u) ?q ?w1"
  let ?w3 = "fold (\<lambda>e u. if e \<in> w_pending_destroy u then u else commit_deferred_move E e u) ?q ?w2"
  let ?w4 = "?w3\<lparr>w_pending_ops := Map.empty, w_pending_destroy := {}, w_deferred_entities := [], w_deferred_set := {}\<rparr>"
  have "wf_alloc ?w1 = wf_alloc w" by (rule wf_alloc_cong3) (simp_all add: location_of_def)
  then have "wf_world (env_registry E) ?w1"
    using same_store_wf(1) [OF same_store_updates(13) [of w False]] wf by (simp add: wf_world_def)
  then have "wf_world (env_registry E) ?w2" by (rule fold_world [rotated]) (simp add: destroy_entity_world [OF _ cb])
  then have "wf_world (env_registry E) ?w3" by (rule fold_world [rotated]) (simp add: commit_deferred_move_world [OF _ cb])
  then have "wf_world (env_registry E) ?w4" by (rule same_store_pending(1)) (simp_all add: arch_def fun_eq_iff)
  then have "wf_world (env_registry E) (flush_invalidation ?w4)"
    by (rule wf_world_same_store) (simp_all add: flush_invalidation_def ctl_def)
  then show ?thesis using True by (simp add: end_deferred_moves_def Let_def)
qed

lemma destroy_entity_frame:
  assumes wf: "wf_store (env_registry E) w" and p: "passive_env E"
  shows "w_pending_destroy (destroy_entity E e w) = w_pending_destroy w"
    "w_pending_ops (destroy_entity E e w) = w_pending_ops w"
    "w_iteration_depth (destroy_entity E e w) = w_iteration_depth w"
    "w_defer_moves (destroy_entity E e w) = w_defer_moves w"
    "w_command_buffer (destroy_entity E e w) = w_command_buffer w"
proof -
  have "w_pending_destroy (destroy_entity E e w) = w_pending_destroy w
    \<and> w_pending_ops (destroy_entity E e w) = w_pending_ops w
    \<and> w_iteration_depth (destroy_entity E e w) = w_iteration_depth w
    \<and> w_defer_moves (destroy_entity E e w) = w_defer_moves w
    \<and> w_command_buffer (destroy_entity E e w) = w_command_buffer w"
  proof (cases "location_of w e = None \<or> in_iteration w")
    case True
    then show ?thesis by (auto simp: destroy_entity_def split: option.split)
  next
    case False
    then obtain l where l: "location_of w e = Some l" by auto
    then have e: "destroy_entity E e w = remove_entity_with E (free_entity_id e) e l w"
      using False by (simp add: destroy_entity_eq)
    note r = remove_entity_with_store [OF wf l, where g = "free_entity_id e", OF same_store_ops(5), folded e]
    note c = ctl_alloc [OF r(3) [OF p]] and u = ctl_alloc [OF ctl_unplace [of e l w]]
    have "w_pending_destroy (free_entity_id e v) = w_pending_destroy v"
      "w_iteration_depth (free_entity_id e v) = w_iteration_depth v"
      "w_defer_moves (free_entity_id e v) = w_defer_moves v"
      "w_command_buffer (free_entity_id e v) = w_command_buffer v" for v :: "'a world"
      by (simp_all add: free_entity_id_def Let_def)
    then show ?thesis using c(4,5,8,11) u(4,5,8,11) r(6) [OF p] by (simp add: same_frame_def)
  qed
  then show "w_pending_destroy (destroy_entity E e w) = w_pending_destroy w"
    "w_pending_ops (destroy_entity E e w) = w_pending_ops w"
    "w_iteration_depth (destroy_entity E e w) = w_iteration_depth w"
    "w_defer_moves (destroy_entity E e w) = w_defer_moves w"
    "w_command_buffer (destroy_entity E e w) = w_command_buffer w" by simp_all
qed

lemma destroy_phase:
  fixes es :: "entity list"
  assumes "wf_store (env_registry E) w" "passive_env E" "\<not> in_iteration w"
  defines "w' \<equiv> fold (\<lambda>e u. if e \<in> w_pending_destroy u then destroy_entity E e u else u) es w"
  shows "wf_store (env_registry E) w' \<and> w_pending_destroy w' = w_pending_destroy w \<and> w_pending_ops w' = w_pending_ops w
    \<and> w_iteration_depth w' = w_iteration_depth w \<and> w_defer_moves w' = w_defer_moves w
    \<and> w_command_buffer w' = w_command_buffer w
    \<and> content w' = (\<lambda>e. if e \<in> set es \<and> e \<in> w_pending_destroy w then None else content w e)"
  unfolding w'_def using assms(1-3)
proof (induction es arbitrary: w)
  case Nil
  then show ?case by simp
next
  case (Cons e es)
  let ?w1 = "if e \<in> w_pending_destroy w then destroy_entity E e w else w"
  note fr = destroy_entity_frame [OF Cons.prems(1,2), of e]
  have st: "wf_store (env_registry E) ?w1"
    using destroy_entity_wf(1) [OF Cons.prems(1) passive_keeps [OF Cons.prems(2)]] Cons.prems(1) by simp
  have f: "w_pending_destroy ?w1 = w_pending_destroy w" "w_pending_ops ?w1 = w_pending_ops w"
    "w_iteration_depth ?w1 = w_iteration_depth w" "w_defer_moves ?w1 = w_defer_moves w"
    "w_command_buffer ?w1 = w_command_buffer w" using fr by simp_all
  then have it: "\<not> in_iteration ?w1" using Cons.prems(3) by (simp add: in_iteration_def)
  have c: "content ?w1 = (if e \<in> w_pending_destroy w then (content w)(e := None) else content w)"
    using destroy_entity_content(1) [OF Cons.prems] by simp
  show ?case using Cons.IH [OF st Cons.prems(2) it] f c by (auto simp: fun_eq_iff)
qed

definition queued_ops :: "'u world \<Rightarrow> entity \<Rightarrow> pending_op list" where
  "queued_ops w e = (case w_pending_ops w e of None \<Rightarrow> [] | Some ops \<Rightarrow> ops)"

lemma commit_phase:
  assumes "wf_store (env_registry E) w" "passive_env E" "distinct es"
    and "\<And>e. exact_ops E (queued_ops w e)"
  defines "w' \<equiv> fold (\<lambda>e u. if e \<in> w_pending_destroy u then u else commit_deferred_move E e u) es w"
  shows "wf_store (env_registry E) w' \<and> ctl w' = ctl w
    \<and> content w' = (\<lambda>e. if e \<in> set es \<and> e \<notin> w_pending_destroy w
          then map_option (fold (apply_op E) (queued_ops w e)) (content w e) else content w e)"
  unfolding w'_def using assms(1-4)
proof (induction es arbitrary: w)
  case Nil
  then show ?case by simp
next
  case (Cons e es)
  let ?w1 = "if e \<in> w_pending_destroy w then w else commit_deferred_move E e w"
  have "wf_store (env_registry E) ?w1 \<and> ctl ?w1 = ctl w \<and> w_pending_ops ?w1 = w_pending_ops w
    \<and> content ?w1 = (\<lambda>x. if x = e \<and> e \<notin> w_pending_destroy w
          then map_option (fold (apply_op E) (queued_ops w e)) (content w e) else content w x)"
  proof (cases "e \<in> w_pending_destroy w \<or> location_of w e = None \<or> w_pending_ops w e = None")
    case True
    have id: "fold (apply_op E) [] = id" by (simp add: fun_eq_iff)
    have "commit_deferred_move E e w = w" if "location_of w e = None \<or> w_pending_ops w e = None"
      using that by (auto simp: commit_deferred_move_def split: option.split)
    moreover have "map_option (fold (apply_op E) (queued_ops w e)) (content w e) = content w e"
      if "location_of w e = None \<or> w_pending_ops w e = None"
      using that content_None [of w e] by (auto simp: queued_ops_def id option.map_id)
    ultimately show ?thesis using True Cons.prems(1) by (auto simp: fun_eq_iff)
  next
    case False
    then obtain l ops where l: "location_of w e = Some l" "w_pending_ops w e = Some ops" by auto
    have ex: "exact_ops E ops" using Cons.prems(4) [of e] l(2) by (simp add: queued_ops_def)
    obtain c where ce: "content w e = Some c" using l(1) by (simp add: content_def)
    note cm = commit_deferred_move_content [OF Cons.prems(1,2) l ex]
    have "map_option (fold (apply_op E) (queued_ops w e)) (content w e) = Some (fold (apply_op E) ops (the (content w e)))"
      by (simp add: queued_ops_def l(2) ce)
    then have "(content w)(e \<mapsto> fold (apply_op E) ops (the (content w e)))
      = (\<lambda>x. if x = e then map_option (fold (apply_op E) (queued_ops w e)) (content w e) else content w x)"
      by (simp only: fun_eq_iff fun_upd_apply split: if_split) simp
    then show ?thesis using False cm by simp
  qed
  then have s: "wf_store (env_registry E) ?w1" "ctl ?w1 = ctl w" "w_pending_ops ?w1 = w_pending_ops w"
    "content ?w1 = (\<lambda>x. if x = e \<and> e \<notin> w_pending_destroy w
          then map_option (fold (apply_op E) (queued_ops w e)) (content w e) else content w x)" by blast+
  have q: "queued_ops ?w1 = queued_ops w" by (simp add: queued_ops_def fun_eq_iff s(3) del: if_split)
  have ex: "\<And>x. exact_ops E (queued_ops ?w1 x)" unfolding q by (rule Cons.prems(4))
  have dist: "distinct es" "e \<notin> set es" using Cons.prems(3) by auto
  have pd: "w_pending_destroy ?w1 = w_pending_destroy w" by (rule ctl_alloc(8) [OF s(2)])
  note IH = Cons.IH [OF s(1) Cons.prems(2) dist(1) ex, unfolded q pd s(4)]
  have "fold (\<lambda>e u. if e \<in> w_pending_destroy u then u else commit_deferred_move E e u) (e # es) w
     = fold (\<lambda>e u. if e \<in> w_pending_destroy u then u else commit_deferred_move E e u) es ?w1" by simp
  then show ?case using IH dist(2) s(2) by (auto simp: fun_eq_iff)
qed

end
