(* ===== verification/Commands.thy ===== *)
theory Commands
  imports Deferred
begin

text \<open>
  Flushing a command buffer (\<open>CommandBuffer::execute\<close>): the commands only queue their effects
  in the deferred window, the end of the window commits them, and the whole has the effect of
  the commands performed in order on the abstract world.
\<close>

section \<open>The abstract commands\<close>

fun abs_command :: "('u, 'v) env \<Rightarrow> command \<Rightarrow> (entity \<rightharpoonup> (ctype \<rightharpoonup> byte list)) \<Rightarrow> (entity \<rightharpoonup> (ctype \<rightharpoonup> byte list))" where
  "abs_command E (AddComponent e t d) K =
     (case (K e, schema_of (env_registry E) t) of
        (Some m, Some s) \<Rightarrow> K(e \<mapsto> m(t \<mapsto> value_bytes s (if d = [] then None else Some d)))
      | _ \<Rightarrow> K)"
| "abs_command E (RemoveComponent e t) K =
     (case K e of Some m \<Rightarrow> K(e \<mapsto> m(t := None)) | None \<Rightarrow> K)"
| "abs_command E (AddEntity e) K =
     (if K e = None \<and> slot e \<noteq> 0xFFFFFFFF \<and> unat (slot e) < K_MAX_SLOT then K(e \<mapsto> Map.empty) else K)"
| "abs_command E (RemoveEntity e) K = K(e := None)"
| "abs_command E (CustomCommand i d) K = K"

text \<open>
  Commands whose flush is their effect in order: the data of an add is empty or a whole value,
  there is no custom command, and no entity is added after it was removed.
\<close>

fun plain_commands :: "('u, 'v) env \<Rightarrow> command list \<Rightarrow> bool" where
  "plain_commands E [] = True"
| "plain_commands E (AddComponent e t d # cs) = ((d = [] \<or> schema_size E t \<le> length d) \<and> plain_commands E cs)"
| "plain_commands E (RemoveComponent e t # cs) = plain_commands E cs"
| "plain_commands E (AddEntity e # cs) = plain_commands E cs"
| "plain_commands E (RemoveEntity e # cs) = (AddEntity e \<notin> set cs \<and> plain_commands E cs)"
| "plain_commands E (CustomCommand i d # cs) = False"

section \<open>The queueing phase\<close>

definition queueing :: "('u, 'v) env \<Rightarrow> 'u world \<Rightarrow> bool" where
  "queueing E w \<longleftrightarrow> wf_store (env_registry E) w \<and> w_defer_moves w \<and> \<not> in_iteration w
   \<and> w_command_buffer w = [] \<and> distinct (w_deferred_entities w) \<and> w_deferred_set w = set (w_deferred_entities w)
   \<and> w_pending_destroy w \<subseteq> w_deferred_set w
   \<and> (\<forall>e. w_pending_ops w e \<noteq> None \<longrightarrow> e \<in> w_deferred_set w)
   \<and> (\<forall>e\<in>w_deferred_set w. content w e \<noteq> None)
   \<and> (\<forall>e. exact_ops E (queued_ops w e))"

text \<open>The world the queued operations stand for.\<close>

definition queued_view :: "('u, 'v) env \<Rightarrow> 'u world \<Rightarrow> entity \<rightharpoonup> (ctype \<rightharpoonup> byte list)" where
  "queued_view E w e = (if e \<in> w_pending_destroy w then None
     else map_option (fold (apply_op E) (queued_ops w e)) (content w e))"

lemma push_pending_fields:
  "queued_ops (push_pending e op w) = (queued_ops w)(e := queued_ops w e @ [op])"
  "w_pending_ops (push_pending e op w) x = None \<longleftrightarrow> x \<noteq> e \<and> w_pending_ops w x = None"
  "w_pending_destroy (push_pending e op w) = w_pending_destroy w"
  "w_defer_moves (push_pending e op w) = w_defer_moves w"
  "w_iteration_depth (push_pending e op w) = w_iteration_depth w"
  "w_command_buffer (push_pending e op w) = w_command_buffer w"
  "w_deferred_set (push_pending e op w) = insert e (w_deferred_set w)"
  "w_deferred_entities (push_pending e op w) =
     (if e \<in> w_deferred_set w then w_deferred_entities w else w_deferred_entities w @ [e])"
  by (auto simp: push_pending_def queue_deferred_move_def queued_ops_def fun_eq_iff)

lemma push_pending_queueing:
  assumes q: "queueing E w" and al: "content w e = Some m"
    and op: "po_add op \<Longrightarrow> \<exists>s. schema_of (env_registry E) (po_type op) = Some s \<and> length (po_data op) \<le> cs_size s"
    and ex: "exact_ops E [op]"
  shows "queueing E (push_pending e op w)" "content (push_pending e op w) = content w"
    "queued_view E (push_pending e op w) = (if queued_view E w e = None then queued_view E w
       else (queued_view E w)(e \<mapsto> apply_op E op (the (queued_view E w e))))"
    "w_pending_destroy (push_pending e op w) = w_pending_destroy w"
proof -
  have wf: "wf_store (env_registry E) w" using q by (simp add: queueing_def)
  note ps = push_pending_store [OF wf op, of e]
  note f = push_pending_fields [of e op w]
  show c: "content (push_pending e op w) = content w" by (rule ps(2))
  show "w_pending_destroy (push_pending e op w) = w_pending_destroy w" by (rule f(3))
  have "exact_ops E (queued_ops (push_pending e op w) x)" for x
    using q ex by (auto simp: f(1) queueing_def exact_ops_def)
  moreover have "in_iteration (push_pending e op w) = in_iteration w" by (simp add: in_iteration_def f)
  ultimately show "queueing E (push_pending e op w)"
    using q ps(1) al unfolding queueing_def f c by (auto simp: f(2))
  show "queued_view E (push_pending e op w) = (if queued_view E w e = None then queued_view E w
       else (queued_view E w)(e \<mapsto> apply_op E op (the (queued_view E w e))))"
    by (auto simp: queued_view_def fun_eq_iff f(1,3) c al)
qed

lemma queue_destroy_queueing:
  assumes q: "queueing E w" and al: "content w e = Some m"
  defines "w' \<equiv> queue_deferred_move e (w\<lparr>w_pending_destroy := insert e (w_pending_destroy w)\<rparr>)"
  shows "queueing E w'" "content w' = content w" "queued_view E w' = (queued_view E w)(e := None)"
    "w_pending_destroy w' = insert e (w_pending_destroy w)"
proof -
  have wf: "wf_store (env_registry E) w" using q by (simp add: queueing_def)
  have ss: "same_store w w'" unfolding w'_def using same_store_trans [OF same_store_updates(15) same_store_ops(7)] .
  note st = same_store_wf [OF ss wf]
  have f: "queued_ops w' = queued_ops w" "w_pending_ops w' = w_pending_ops w" "w_defer_moves w' = w_defer_moves w"
    "w_command_buffer w' = w_command_buffer w"
    "in_iteration w' = in_iteration w" "w_deferred_set w' = insert e (w_deferred_set w)"
    "w_deferred_entities w' = (if e \<in> w_deferred_set w then w_deferred_entities w else w_deferred_entities w @ [e])"
    by (auto simp: w'_def queue_deferred_move_def queued_ops_def fun_eq_iff in_iteration_def)
  show p: "w_pending_destroy w' = insert e (w_pending_destroy w)" by (simp add: w'_def queue_deferred_move_def)
  show "content w' = content w" by (rule st(2))
  show "queueing E w'" using q st al unfolding queueing_def f p by auto
  show "queued_view E w' = (queued_view E w)(e := None)"
    by (auto simp: queued_view_def fun_eq_iff f(1) p st(2))
qed

lemma create_preassigned_store:
  assumes wf: "wf_store (env_registry E) w" and l: "content w e = None"
  defines "w' \<equiv> snd (create_entity_preassigned E (eid e) w)"
  shows "wf_store (env_registry E) w'"
    "content w' = (if slot e \<noteq> 0xFFFFFFFF \<and> unat (slot e) < K_MAX_SLOT then (content w)(e \<mapsto> Map.empty) else content w)"
    "w_pending_ops w' = w_pending_ops w" "w_pending_destroy w' = w_pending_destroy w"
    "w_deferred_set w' = w_deferred_set w" "w_deferred_entities w' = w_deferred_entities w"
    "w_defer_moves w' = w_defer_moves w" "in_iteration w' = in_iteration w" "w_command_buffer w' = w_command_buffer w"
proof -
  let ?ok = "slot e \<noteq> 0xFFFFFFFF \<and> unat (slot e) < K_MAX_SLOT"
  have e: "Entity (eid e) = e" by (cases e) simp
  have "wf_store (env_registry E) w' \<and> content w' = (if ?ok then (content w)(e \<mapsto> Map.empty) else content w)
    \<and> w_pending_ops w' = w_pending_ops w \<and> w_pending_destroy w' = w_pending_destroy w
    \<and> w_deferred_set w' = w_deferred_set w \<and> w_deferred_entities w' = w_deferred_entities w
    \<and> w_defer_moves w' = w_defer_moves w \<and> in_iteration w' = in_iteration w
    \<and> w_command_buffer w' = w_command_buffer w"
  proof (cases ?ok)
    case False
    then have "w' = w" unfolding w'_def by (auto simp: create_entity_preassigned_def e Let_def)
    then show ?thesis using wf False by auto
  next
    case True
    let ?w1 = "if unat (slot e) \<ge> length (w_slot_generations w)
      then w\<lparr>w_slot_generations := resize_generations (unat (slot e) + 1) (w_slot_generations w)\<rparr> else w"
    let ?w2 = "?w1\<lparr>w_slot_generations := (w_slot_generations ?w1)[unat (slot e) := generation e]\<rparr>"
    have s1: "same_store w ?w1" by simp
    have st2: "same_store w ?w2" using same_store_trans [OF s1 same_store_updates(7)] .
    note st = same_store_wf [OF st2 wf]
    have n: "location_of ?w1 e = None" "location_of ?w2 e = None"
      using l s1 st2 by (simp_all add: same_store_def content_None)
    have f0: "e \<noteq> null_entity" using entity_bool_slot True by (auto simp: entity_bool_iff)
    have w': "w' = place_entity E e ?w2"
      unfolding w'_def create_entity_preassigned_def using True n(1) by (simp add: e Let_def)
    note ps = place_entity_store [OF st(1) n(2) f0]
    have "w_pending_ops w' = w_pending_ops w" using ps(3) by (simp add: w' same_frame_def)
    moreover have "w_pending_destroy w' = w_pending_destroy w"
      "w_deferred_set w' = w_deferred_set w" "w_deferred_entities w' = w_deferred_entities w"
      "w_defer_moves w' = w_defer_moves w" "in_iteration w' = in_iteration w" "w_command_buffer w' = w_command_buffer w"
      unfolding w' ctl_alloc [OF ps(5)] by (simp_all add: in_iteration_def)
    ultimately show ?thesis using ps(1,2) st(2) True by (simp add: w')
  qed
  then show "wf_store (env_registry E) w'" "content w' = (if ?ok then (content w)(e \<mapsto> Map.empty) else content w)"
    "w_pending_ops w' = w_pending_ops w" "w_pending_destroy w' = w_pending_destroy w"
    "w_deferred_set w' = w_deferred_set w" "w_deferred_entities w' = w_deferred_entities w"
    "w_defer_moves w' = w_defer_moves w" "in_iteration w' = in_iteration w"
    "w_command_buffer w' = w_command_buffer w" by simp_all
qed

lemma queue_create_queueing:
  assumes q: "queueing E w" and al: "content w e = None"
  defines "w' \<equiv> snd (create_entity_preassigned E (eid e) w)"
  shows "queueing E w'" "queued_view E w' = abs_command E (AddEntity e) (queued_view E w)"
    "w_pending_destroy w' = w_pending_destroy w"
proof -
  have wf: "wf_store (env_registry E) w" using q by (simp add: queueing_def)
  note c = create_preassigned_store [OF wf al, folded w'_def]
  have qo: "queued_ops w' = queued_ops w" by (simp add: queued_ops_def fun_eq_iff c(3))
  show "w_pending_destroy w' = w_pending_destroy w" by (rule c(4))
  show "queueing E w'"
    using q c(1) unfolding queueing_def c(3-9) qo by (auto simp: c(2))
  have e: "e \<notin> w_deferred_set w" using q al unfolding queueing_def by blast
  then have "w_pending_ops w e = None" "e \<notin> w_pending_destroy w" using q unfolding queueing_def by blast+
  then show "queued_view E w' = abs_command E (AddEntity e) (queued_view E w)"
    by (auto simp: queued_view_def fun_eq_iff qo c(2,4) al queued_ops_def)
qed

text \<open>One command in the deferred window.\<close>

lemma run_command_queueing:
  assumes q: "queueing E w" and pl: "plain_commands E (c # cs)"
    and na: "\<And>e. e \<in> w_pending_destroy w \<Longrightarrow> c \<noteq> AddEntity e"
  shows "queueing E (run_command E c w) \<and> queued_view E (run_command E c w) = abs_command E c (queued_view E w)
    \<and> w_pending_destroy (run_command E c w) \<subseteq> w_pending_destroy w \<union> {e. c = RemoveEntity e}"
proof -
  have wf: "wf_store (env_registry E) w" and dm: "w_defer_moves w" using q by (simp_all add: queueing_def)
  note alive = is_alive_content [OF wf]
  have dead: "queued_view E w e = None" if "content w e = None" for e using that by (simp add: queued_view_def)
  show ?thesis
  proof (cases c)
    case c: (AddComponent e t d)
    show ?thesis
    proof (cases "content w e = None \<or> schema_of (env_registry E) t = None")
      case True
      then have r: "run_command E c w = w" using alive by (auto simp: c add_raw_def)
      have "abs_command E c (queued_view E w) = queued_view E w"
        using True dead by (auto simp: c split: option.split)
      then show ?thesis using q r by simp
    next
      case False
      then obtain m s where m: "content w e = Some m" and s: "schema_of (env_registry E) t = Some s" by auto
      let ?op = "\<lparr>po_type = t, po_add = True, po_data = (if d = [] then [] else take (cs_size s) d)\<rparr>"
      have r: "run_command E c w = push_pending e ?op w"
        using alive m s dm by (simp add: c add_raw_def)
      have ss: "schema_size E t = cs_size s" by (simp add: schema_size_def s)
      have ex: "exact_ops E [?op]" using pl by (auto simp: c exact_ops_def ss)
      have b: "apply_op E ?op m' = m'(t \<mapsto> value_bytes s (if d = [] then None else Some d))" for m'
        using ss by (auto simp: apply_op_def op_bytes_def op_data_def value_bytes_def)
      have "po_add ?op \<Longrightarrow> \<exists>s. schema_of (env_registry E) (po_type ?op) = Some s \<and> length (po_data ?op) \<le> cs_size s"
        using s by simp
      note p = push_pending_queueing [OF q m this ex]
      have "abs_command E c (queued_view E w) = (if queued_view E w e = None then queued_view E w
         else (queued_view E w)(e \<mapsto> apply_op E ?op (the (queued_view E w e))))"
        unfolding b by (simp add: c s split: option.split)
      then show ?thesis using p r by simp
    qed
  next
    case c: (RemoveComponent e t)
    show ?thesis
    proof (cases "content w e")
      case None
      then have "run_command E c w = w" using alive by (auto simp: c remove_component_def)
      moreover have "abs_command E c (queued_view E w) = queued_view E w" using dead [OF None] by (simp add: c)
      ultimately show ?thesis using q by simp
    next
      case m: (Some m)
      let ?op = "\<lparr>po_type = t, po_add = False, po_data = []\<rparr>"
      have r: "run_command E c w = push_pending e ?op w" using alive m dm by (simp add: c remove_component_def)
      have ex: "exact_ops E [?op]" by (simp add: exact_ops_def)
      note p = push_pending_queueing [OF q m _ ex, simplified]
      have "abs_command E c (queued_view E w) = (if queued_view E w e = None then queued_view E w
         else (queued_view E w)(e \<mapsto> apply_op E ?op (the (queued_view E w e))))"
        by (simp add: c apply_op_def split: option.split)
      then show ?thesis using p r by simp
    qed
  next
    case c: (AddEntity e)
    show ?thesis
    proof (cases "content w e")
      case None
      then have "run_command E c w = snd (create_entity_preassigned E (eid e) w)" using alive by (simp add: c)
      then show ?thesis using queue_create_queueing [OF q None] by (simp add: c)
    next
      case (Some m)
      then have r: "run_command E c w = w" using alive by (simp add: c)
      have "e \<notin> w_pending_destroy w" using na c by blast
      then have "queued_view E w e \<noteq> None" using Some by (simp add: queued_view_def)
      then have "abs_command E c (queued_view E w) = queued_view E w" by (auto simp: c)
      then show ?thesis using q r by simp
    qed
  next
    case c: (RemoveEntity e)
    show ?thesis
    proof (cases "content w e")
      case None
      then have "run_command E c w = w" using alive dm by (simp add: c destroy_entity_deferred_def)
      moreover have "abs_command E c (queued_view E w) = queued_view E w" using dead [OF None] by (auto simp: c)
      ultimately show ?thesis using q by simp
    next
      case m: (Some m)
      have "run_command E c w = queue_deferred_move e (w\<lparr>w_pending_destroy := insert e (w_pending_destroy w)\<rparr>)"
        using alive m dm by (simp add: c destroy_entity_deferred_def)
      then show ?thesis using queue_destroy_queueing [OF q m] by (auto simp: c)
    qed
  next
    case (CustomCommand i d)
    then show ?thesis using pl by simp
  qed
qed

lemma plain_commands_tl: "plain_commands E (c # cs) \<Longrightarrow> plain_commands E cs"
  by (cases c) auto

lemma run_commands_queueing:
  assumes "queueing E w" "plain_commands E cs" "\<And>e. e \<in> w_pending_destroy w \<Longrightarrow> AddEntity e \<notin> set cs"
  shows "queueing E (fold (run_command E) cs w)
    \<and> queued_view E (fold (run_command E) cs w) = fold (abs_command E) cs (queued_view E w)"
  using assms
proof (induction cs arbitrary: w)
  case Nil
  then show ?case by simp
next
  case (Cons c cs)
  have na: "\<And>e. e \<in> w_pending_destroy w \<Longrightarrow> c \<noteq> AddEntity e" using Cons.prems(3) by auto
  note r = run_command_queueing [OF Cons.prems(1,2) na]
  have "AddEntity e \<notin> set cs" if "e \<in> w_pending_destroy (run_command E c w)" for e
  proof (cases "c = RemoveEntity e")
    case True
    then show ?thesis using Cons.prems(2) by simp
  next
    case False
    then show ?thesis using r that Cons.prems(3) by auto
  qed
  then show ?case using Cons.IH [OF _ plain_commands_tl [OF Cons.prems(2)], of "run_command E c w"] r by simp
qed

section \<open>The flush\<close>

definition quiescent :: "'u world \<Rightarrow> bool" where
  "quiescent w \<longleftrightarrow> w_pending_ops w = Map.empty \<and> w_pending_destroy w = {} \<and> w_deferred_entities w = []
     \<and> w_deferred_set w = {}"

lemma end_deferred_content:
  assumes q: "queueing E w" and p: "passive_env E"
  shows "content (end_deferred_moves E w) = queued_view E w"
    "wf_store (env_registry E) (end_deferred_moves E w)" "quiescent (end_deferred_moves E w)"
    "\<not> w_defer_moves (end_deferred_moves E w)" "w_command_buffer (end_deferred_moves E w) = w_command_buffer w"
proof -
  let ?q = "w_deferred_entities w"
  let ?w1 = "w\<lparr>w_defer_moves := False\<rparr>"
  let ?w2 = "fold (\<lambda>e u. if e \<in> w_pending_destroy u then destroy_entity E e u else u) ?q ?w1"
  let ?w3 = "fold (\<lambda>e u. if e \<in> w_pending_destroy u then u else commit_deferred_move E e u) ?q ?w2"
  let ?w4 = "?w3\<lparr>w_pending_ops := Map.empty, w_pending_destroy := {}, w_deferred_entities := [], w_deferred_set := {}\<rparr>"
  have wf: "wf_store (env_registry E) w" and it: "\<not> in_iteration ?w1" and dm: "w_defer_moves w" and ds: "distinct ?q"
    using q by (simp_all add: queueing_def in_iteration_def)
  note s1 = same_store_wf [OF same_store_updates(13) [of w False] wf]
  note d = destroy_phase [OF s1(1) p it, of ?q]
  have f2: "w_pending_ops ?w2 = w_pending_ops w" "w_pending_destroy ?w2 = w_pending_destroy w" using d by simp_all
  have qo: "queued_ops ?w2 = queued_ops w" by (simp add: queued_ops_def fun_eq_iff f2(1))
  have ex: "exact_ops E (queued_ops ?w2 e)" for e using q unfolding qo queueing_def by blast
  have st2: "wf_store (env_registry E) ?w2" using d by blast
  note c = commit_phase [OF st2 p ds ex]
  have c2: "content ?w2 x = (if x \<in> set ?q \<and> x \<in> w_pending_destroy w then None else content w x)" for x
    using d s1(2) by simp
  have st3: "wf_store (env_registry E) ?w3" using c by blast
  have l4: "location_of ?w4 = location_of ?w3" "arch ?w4 = arch ?w3"
    by (simp_all add: location_of_def arch_def fun_eq_iff)
  have st4: "wf_store (env_registry E) ?w4"
    using st3 unfolding wf_store_def wf_archs_def wf_locations_def wf_query_cache_def wf_pending_def l4 by simp
  have c4: "content ?w4 = content ?w3" by (intro ext) (simp only: content_def l4)
  note s5 = same_store_wf [OF same_store_ops(9) st4]
  have e: "end_deferred_moves E w = flush_invalidation ?w4" using dm by (simp add: end_deferred_moves_def Let_def)
  have "content ?w3 x = queued_view E w x" for x
  proof (cases "x \<in> set ?q")
    case True
    then show ?thesis using c c2 by (simp add: qo f2(2) queued_view_def)
  next
    case False
    then have "w_pending_ops w x = None" "x \<notin> w_pending_destroy w" using q unfolding queueing_def by blast+
    moreover have "fold (apply_op E) [] = id" by (simp add: fun_eq_iff)
    ultimately show ?thesis using c c2 False by (simp add: queued_view_def queued_ops_def option.map_id)
  qed
  then show "content (end_deferred_moves E w) = queued_view E w" using s5(2) c4 unfolding e by (simp add: fun_eq_iff)
  show "wf_store (env_registry E) (end_deferred_moves E w)" unfolding e by (rule s5(1))
  show "quiescent (end_deferred_moves E w)" unfolding e by (simp add: quiescent_def flush_invalidation_def)
  have ct: "ctl ?w3 = ctl ?w2" using c by blast
  show "\<not> w_defer_moves (end_deferred_moves E w)" "w_command_buffer (end_deferred_moves E w) = w_command_buffer w"
    unfolding e using ctl_alloc(4,11) [OF ct] d by (simp_all add: flush_invalidation_def)
qed

lemma start_queueing:
  assumes wf: "wf_store (env_registry E) w" and q: "quiescent w" "\<not> in_iteration w"
  defines "w' \<equiv> begin_deferred_moves (begin_suppress (w\<lparr>w_command_buffer := []\<rparr>))"
  shows "queueing E w'" "content w' = content w" "queued_view E w' = content w" "w_pending_destroy w' = {}"
proof -
  have "same_store w w'"
    unfolding w'_def using same_store_trans [OF same_store_trans [OF same_store_updates(16) same_store_ops(8)] same_store_ops(10)] .
  note st = same_store_wf [OF this wf]
  show c: "content w' = content w" by (rule st(2))
  have f: "w_defer_moves w'" "in_iteration w' = in_iteration w" "w_command_buffer w' = []" "w_deferred_entities w' = []"
    "w_deferred_set w' = {}" "w_pending_destroy w' = {}" "w_pending_ops w' = Map.empty"
    using q(1) by (simp_all add: w'_def begin_deferred_moves_def begin_suppress_def in_iteration_def quiescent_def)
  show "w_pending_destroy w' = {}" by (rule f(6))
  have qo: "queued_ops w' e = []" for e by (simp add: queued_ops_def f(7))
  show "queueing E w'" using st(1) q(2) by (simp add: queueing_def f qo exact_ops_def)
  have "fold (apply_op E) [] = id" by (simp add: fun_eq_iff)
  then show "queued_view E w' = content w" by (intro ext) (simp add: queued_view_def f(6) qo c option.map_id)
qed

end
