(* ===== verification/Lifecycle.thy ===== *)
theory Lifecycle
  imports Commands
begin

text \<open>
  The life of a world outside single entities: the new world is well formed and empty; a query
  gives the matching archetypes whatever the cache holds; \<open>compact\<close> drops empty archetypes and
  no data; \<open>clear\<close> destroys every entity; \<open>reset\<close> keeps the data. The change log is searched
  by bisection.
\<close>

section \<open>The new world\<close>

lemma new_world_fields:
  "w_archetype_list (new_world E u) = [0]" "w_archs (new_world E u) = [0 \<mapsto> fresh_arch E []]"
  "w_archetypes (new_world E u) = [[] \<mapsto> 0]" "w_next_aid (new_world E u) = 1"
  "w_empty_archetype (new_world E u) = 0" "w_locations (new_world E u) = []"
  "w_query_cache (new_world E u) = \<lparr>qc_cache = [], qc_queries = []\<rparr>"
  "w_pending_ops (new_world E u) = Map.empty" "w_slot_generations (new_world E u) = []"
  "w_free_slots (new_world E u) = []" "w_pool_slots (new_world E u) = []"
  "w_command_buffer (new_world E u) = []" "w_change_log (new_world E u) = []"
  "w_defer_moves (new_world E u) = False" "w_iteration_depth (new_world E u) = 0"
  "w_suppress_depth (new_world E u) = 0" "w_observers (new_world E u) = empty_dispatch"
  "quiescent (new_world E u)" "w_change_tick (new_world E u) = 1"
  by (simp_all add: new_world_def create_archetype_eq blank_world_def qc_register_new_archetype_def quiescent_def)

lemma new_world_wf:
  "wf_world (env_registry E) (new_world E u)" "content (new_world E u) = Map.empty"
proof -
  let ?w = "new_world E u"
  note f = new_world_fields [of E u]
  have a: "arch ?w 0 = fresh_arch E []" by (simp add: arch_def f)
  have l: "location_of ?w e = None" for e by (simp add: location_of_def f)
  have x: "wf_arch (fresh_arch E [])" "typed_columns (env_registry E) (fresh_arch E [])"
    using fresh_arch_wf [of "[]" E] by simp_all
  have "wf_archs (env_registry E) ?w" unfolding wf_archs_def f by (auto simp: a x)
  moreover have "wf_locations ?w" unfolding wf_locations_def f by (auto simp: a l)
  moreover have "wf_query_cache ?w" "wf_pending (env_registry E) ?w"
    by (simp_all add: wf_query_cache_def wf_pending_def f)
  moreover have "wf_alloc ?w" by (simp add: wf_alloc_def f l)
  ultimately show "wf_world (env_registry E) ?w" by (simp add: wf_world_def wf_store_def)
  show "content ?w = Map.empty" by (simp add: fun_eq_iff content_def l)
qed

section \<open>Queries\<close>

lemma world_match_result:
  assumes wf: "wf_store reg w" and m: "world_match q w = (r, w')"
  shows "r = filter (\<lambda>a. query_matches q (arch w a)) (w_archetype_list w)"
    "wf_store reg w'" "content w' = content w" "ctl w' = ctl w" "w_locations w' = w_locations w"
    "arch w' = arch w"
proof -
  let ?k = "membership_signature q" and ?qc = "w_query_cache w"
  let ?res = "filter (\<lambda>a. query_matches q (arch w a)) (w_archetype_list w)"
  have d: "distinct (map fst (qc_queries ?qc))"
    and old: "\<And>k q. map_of (qc_queries ?qc) k = Some q \<Longrightarrow> k = membership_signature q
      \<and> map_of (qc_cache ?qc) k = Some (filter (\<lambda>a. query_matches q (arch w a)) (w_archetype_list w))"
    using wf_storeD(3) [OF wf] by (auto simp: wf_query_cache_def)
  let ?hit = "\<exists>l. map_of (qc_cache ?qc) ?k = Some l \<and> map_of (qc_queries ?qc) ?k = Some q"
  let ?qc' = "if ?hit then ?qc else ?qc\<lparr>qc_queries := AList.update ?k q (qc_queries ?qc),
      qc_cache := AList.update ?k ?res (qc_cache ?qc)\<rparr>"
  have mm: "qc_match q (w_archetype_list w) (arch w) ?qc = (?res, ?qc')"
  proof (cases ?hit)
    case True
    then have "map_of (qc_cache ?qc) ?k = Some ?res" "map_of (qc_queries ?qc) ?k = Some q" using old by auto
    then show ?thesis by (simp add: qc_match_def Let_def)
  next
    case False
    then show ?thesis by (auto simp: qc_match_def Let_def split: option.split)
  qed
  have r: "r = ?res" "w' = w\<lparr>w_query_cache := ?qc'\<rparr>" using m mm by (auto simp: world_match_def)
  show "r = ?res" by (rule r(1))
  have l: "location_of w' = location_of w" "arch w' = arch w" by (simp_all add: r(2) location_of_def arch_def fun_eq_iff)
  have "wf_query_cache w'"
  proof (cases ?hit)
    case True
    have "w_query_cache w' = ?qc" unfolding r(2) if_P [OF True] by simp
    then show ?thesis using wf_storeD(3) [OF wf] unfolding wf_query_cache_def l by (simp add: r(2))
  next
    case False
    have f: "qc_queries (w_query_cache w') = AList.update ?k q (qc_queries ?qc)"
      "qc_cache (w_query_cache w') = AList.update ?k ?res (qc_cache ?qc)"
      unfolding r(2) if_not_P [OF False] by simp_all
    have "w_archetype_list w' = w_archetype_list w" by (simp add: r(2))
    then show ?thesis
      unfolding wf_query_cache_def l f update_conv'
      using d old by (simp add: distinct_update del: map_of_eq_Some_iff)
  qed
  then show "wf_store reg w'"
    using wf unfolding wf_store_def wf_archs_def wf_locations_def wf_pending_def l by (simp add: r(2))
  show "content w' = content w" by (intro ext) (simp only: content_def l)
  show "ctl w' = ctl w" "w_locations w' = w_locations w" by (simp_all add: r(2) ctl_def)
  show "arch w' = arch w" by (rule l(2))
qed

text \<open>Which entities a query selects: the live ones whose component set passes the three lists.\<close>

definition selects :: "query \<Rightarrow> (ctype \<rightharpoonup> byte list) \<Rightarrow> bool" where
  "selects q m \<longleftrightarrow> set (q_all q) \<subseteq> dom m \<and> set (q_none q) \<inter> dom m = {}
     \<and> (q_any q = [] \<or> set (q_any q) \<inter> dom m \<noteq> {})"

lemma matched_archetype_selects:
  assumes "wf_store reg w" "location_of w e = Some l"
  shows "query_matches q (arch w (loc_archetype l)) \<longleftrightarrow> selects q (the (content w e))"
proof -
  have "dom (the (content w e)) = set (a_component_ids (arch w (loc_archetype l)))"
    using cell_dom [OF assms] by (auto simp: content_def assms(2) dom_def)
  then show ?thesis
    using arch_matches_iff [OF wf_archD(1) [OF wf_locationD(3) [OF assms]], of q]
    by (auto simp: query_matches_def2 selects_def)
qed

lemma distinct_concat_map:
  assumes "distinct as" "\<And>a. a \<in> set as \<Longrightarrow> distinct (f a)"
    and "\<And>a b x. a \<in> set as \<Longrightarrow> b \<in> set as \<Longrightarrow> x \<in> set (f a) \<Longrightarrow> x \<in> set (f b) \<Longrightarrow> a = b"
  shows "distinct (concat (map f as))"
  using assms
proof (induction as)
  case Nil
  then show ?case by simp
next
  case (Cons a as)
  have "set (f a) \<inter> (\<Union>b\<in>set as. set (f b)) = {}" using Cons.prems(1) Cons.prems(3) [of a] by fastforce
  then show ?case using Cons by (auto simp: Cons.IH)
qed

lemma archetype_member:
  assumes wf: "wf_store reg w" and a: "a \<in> set (w_archetype_list w)"
  shows "e \<in> set (a_entities (arch w a)) \<longleftrightarrow> (\<exists>l. location_of w e = Some l \<and> loc_archetype l = a)"
proof -
  have ar: "wf_arch (arch w a)" using wf_archsD(4) [OF wf_storeD(1) [OF wf] a] .
  have "e \<in> set (a_entities (arch w a)) \<longleftrightarrow> (\<exists>r. a_entity_to_row (arch w a) e = Some r)"
    using wf_archD(8) [OF ar] by (auto simp: in_set_conv_nth)
  also have "\<dots> \<longleftrightarrow> (\<exists>l. location_of w e = Some l \<and> loc_archetype l = a)"
  proof
    assume "\<exists>r. a_entity_to_row (arch w a) e = Some r"
    then obtain r where "a_entity_to_row (arch w a) e = Some r" by blast
    then have "location_of w e = Some \<lparr>loc_archetype = a, loc_row = r\<rparr>"
      using wf_storeD(2) [OF wf] a by (simp add: wf_locations_def)
    then show "\<exists>l. location_of w e = Some l \<and> loc_archetype l = a" by auto
  qed (use wf_locationD(2) [OF wf] in blast)
  finally show ?thesis .
qed

text \<open>The entities a walk over the result of a query visits, in order.\<close>

definition visited :: "'u world \<Rightarrow> aid list \<Rightarrow> entity list" where
  "visited w as = concat (map (\<lambda>a. a_entities (arch w a)) as)"

lemma visited_result:
  fixes q :: query
  assumes wf: "wf_store reg w"
  defines "r \<equiv> filter (\<lambda>a. query_matches q (arch w a)) (w_archetype_list w)"
  shows "set (visited w r) = {e. \<exists>m. content w e = Some m \<and> selects q m}" "distinct (visited w r)"
proof -
  note wa = wf_archsD [OF wf_storeD(1) [OF wf]]
  have r: "set r \<subseteq> set (w_archetype_list w)" "distinct r" using wa(1) by (auto simp: r_def)
  have mem: "e \<in> set (a_entities (arch w a)) \<longleftrightarrow> (\<exists>l. location_of w e = Some l \<and> loc_archetype l = a)"
    if "a \<in> set r" for a e using archetype_member [OF wf] r(1) that by blast
  show "set (visited w r) = {e. \<exists>m. content w e = Some m \<and> selects q m}"
  proof (intro set_eqI iffI)
    fix e
    assume "e \<in> set (visited w r)"
    then obtain a l where "a \<in> set r" "location_of w e = Some l" "loc_archetype l = a"
      using mem by (auto simp: visited_def)
    then show "e \<in> {e. \<exists>m. content w e = Some m \<and> selects q m}"
      using matched_archetype_selects [OF wf, of e l q] by (auto simp: r_def content_def)
  next
    fix e
    assume "e \<in> {e. \<exists>m. content w e = Some m \<and> selects q m}"
    then obtain l where l: "location_of w e = Some l" "selects q (the (content w e))"
      by (auto simp: content_def split: option.splits)
    then have "loc_archetype l \<in> set r"
      using matched_archetype_selects [OF wf l(1), of q] wf_locationD(1) [OF wf l(1)] by (simp add: r_def)
    then show "e \<in> set (visited w r)" using mem l(1) by (auto simp: visited_def)
  qed
  show "distinct (visited w r)"
    unfolding visited_def
  proof (rule distinct_concat_map [OF r(2)])
    show "distinct (a_entities (arch w a))" if "a \<in> set r" for a
      using wf_archD(6) [OF wa(4)] r(1) that by blast
    show "a = b" if "a \<in> set r" "b \<in> set r" "x \<in> set (a_entities (arch w a))" "x \<in> set (a_entities (arch w b))" for a b x
      using mem that by auto
  qed
qed

lemma count_visited:
  "fold (\<lambda>a n. n + length (a_entities (arch w a))) as k = k + length (visited w as)"
  by (induction as arbitrary: k) (simp_all add: visited_def)

section \<open>The change log\<close>

lemma log_search_spec:
  assumes "sorted (map cl_tick log)" "lo \<le> hi" "hi \<le> length log"
    and "\<And>i. i < lo \<Longrightarrow> cl_tick (log ! i) \<le> p" "\<And>i. hi \<le> i \<Longrightarrow> i < length log \<Longrightarrow> p < cl_tick (log ! i)"
  shows "log_search log p lo hi \<le> length log
    \<and> (\<forall>i < log_search log p lo hi. cl_tick (log ! i) \<le> p)
    \<and> (\<forall>i. log_search log p lo hi \<le> i \<longrightarrow> i < length log \<longrightarrow> p < cl_tick (log ! i))"
  using assms
proof (induction log p lo hi rule: log_search.induct)
  case (1 log p lo hi)
  show ?case
  proof (cases "lo < hi")
    case False
    then show ?thesis using "1.prems" by (subst (1 2 3) log_search.simps) auto
  next
    case True
    let ?m = "lo + (hi - lo) div 2"
    have m: "lo \<le> ?m" "?m < hi" using True by auto
    have mono: "cl_tick (log ! i) \<le> cl_tick (log ! j)" if "i \<le> j" "j < length log" for i j
      using sorted_nth_mono [OF "1.prems"(1) that(1)] that by simp
    show ?thesis
    proof (cases "cl_tick (log ! ?m) \<le> p")
      case le: True
      have "cl_tick (log ! i) \<le> p" if "i < ?m + 1" for i
        using mono [of i ?m] that le m "1.prems"(3) by auto
      with "1.IH"(1) [OF True refl le "1.prems"(1)] m "1.prems"(3,5)
      have "log_search log p (?m + 1) hi \<le> length log \<and> (\<forall>i < log_search log p (?m + 1) hi. cl_tick (log ! i) \<le> p)
        \<and> (\<forall>i. log_search log p (?m + 1) hi \<le> i \<longrightarrow> i < length log \<longrightarrow> p < cl_tick (log ! i))" by simp
      moreover have "log_search log p lo hi = log_search log p (?m + 1) hi"
        using True le by (subst log_search.simps) (simp add: Let_def)
      ultimately show ?thesis by simp
    next
      case gt: False
      have "p < cl_tick (log ! i)" if "?m \<le> i" "i < length log" for i
        using mono [OF that] gt by simp
      with "1.IH"(2) [OF True refl gt "1.prems"(1)] m "1.prems"(3,4)
      have "log_search log p lo ?m \<le> length log \<and> (\<forall>i < log_search log p lo ?m. cl_tick (log ! i) \<le> p)
        \<and> (\<forall>i. log_search log p lo ?m \<le> i \<longrightarrow> i < length log \<longrightarrow> p < cl_tick (log ! i))" by simp
      moreover have "log_search log p lo hi = log_search log p lo ?m"
        using True gt by (subst log_search.simps) (simp add: Let_def)
      ultimately show ?thesis by simp
    qed
  qed
qed

lemma filter_take_split:
  assumes "n \<le> length xs" "\<And>i. i < n \<Longrightarrow> P (xs ! i)" "\<And>i. n \<le> i \<Longrightarrow> i < length xs \<Longrightarrow> \<not> P (xs ! i)"
  shows "filter P xs = take n xs"
proof -
  have "filter P (take n xs) = take n xs" using assms(1,2) by (auto simp: filter_id_conv in_set_conv_nth)
  moreover have "filter P (drop n xs) = []" using assms(3) by (auto simp: filter_empty_conv in_set_conv_nth)
  ultimately have "filter P (take n xs @ drop n xs) = take n xs" by (simp only: filter_append append_Nil2)
  then show ?thesis by simp
qed

section \<open>Compaction\<close>

definition droppable :: "'u world \<Rightarrow> aid \<Rightarrow> bool" where
  "droppable w a \<longleftrightarrow> a \<noteq> w_empty_archetype w \<and> a_entities (arch w a) = []"

text \<open>The world \<open>compact\<close> arrives at after the archetypes \<open>as\<close>, in closed form.\<close>

definition dropped :: "aid list \<Rightarrow> 'u world \<Rightarrow> 'u world" where
  "dropped as w =
     w\<lparr>w_archetypes := (\<lambda>ids. if \<exists>a\<in>set as. droppable w a \<and> a_component_ids (arch w a) = ids then None
                           else w_archetypes w ids),
       w_query_cache := (w_query_cache w)\<lparr>qc_cache :=
           map (apsnd (filter (\<lambda>a. a \<notin> {a \<in> set as. droppable w a}))) (qc_cache (w_query_cache w))\<rparr>,
       w_archs := (\<lambda>a. if a \<in> set as \<and> droppable w a then None else w_archs w a)\<rparr>"

lemma compact_fold:
  assumes "distinct as"
  shows "fold compact_step as (w, keep) = (dropped as w, keep @ filter (\<lambda>a. \<not> droppable w a) as)"
  using assms
proof (induction as arbitrary: w keep)
  case Nil
  have "map (apsnd (filter (\<lambda>a. True))) c = (c :: (u64 \<times> aid list) list)" for c by (simp add: map_idI apsnd_def map_prod_def case_prod_beta)
  then show ?case by (simp add: dropped_def)
next
  case (Cons a as)
  show ?case
  proof (cases "droppable w a")
    case False
    then have s: "compact_step a (w, keep) = (w, keep @ [a])" by (simp add: compact_step_def droppable_def)
    have "dropped (a # as) w = dropped as w"
    proof -
      have h: "(\<exists>x\<in>set (a # as). droppable w x \<and> P x) = (\<exists>x\<in>set as. droppable w x \<and> P x)"
        "{x \<in> set (a # as). droppable w x} = {x \<in> set as. droppable w x}"
        "(x \<in> set (a # as) \<and> droppable w x) = (x \<in> set as \<and> droppable w x)" for P x using False by auto
      show ?thesis unfolding dropped_def h ..
    qed
    then show ?thesis using Cons False by (simp add: s)
  next
    case True
    let ?w1 = "w\<lparr>w_archetypes := (w_archetypes w)(a_component_ids (arch w a) := None),
                w_query_cache := qc_erase_archetype a (w_query_cache w), w_archs := (w_archs w)(a := None)\<rparr>"
    have s: "compact_step a (w, keep) = (?w1, keep)" using True by (simp add: compact_step_def droppable_def)
    have ar: "arch ?w1 x = arch w x" if "x \<in> set as" for x using Cons.prems that by (auto simp: arch_def)
    then have dr: "droppable ?w1 x = droppable w x" if "x \<in> set as" for x
      using that by (simp add: droppable_def)
    have fl: "filter (\<lambda>a. \<not> droppable ?w1 a) as = filter (\<lambda>a. \<not> droppable w a) as"
      using dr by (intro filter_cong) simp_all
    have "dropped as ?w1 = dropped (a # as) w"
    proof -
      have "w_archetypes (dropped as ?w1) = w_archetypes (dropped (a # as) w)"
        using dr ar True by (auto simp: dropped_def fun_eq_iff)
      moreover have "w_archs (dropped as ?w1) = w_archs (dropped (a # as) w)"
        using dr True by (auto simp: dropped_def fun_eq_iff)
      moreover have "qc_cache (w_query_cache (dropped as ?w1)) = qc_cache (w_query_cache (dropped (a # as) w))"
        using dr True by (auto simp: dropped_def qc_erase_archetype_def intro!: filter_cong)
      moreover have "qc_queries (w_query_cache (dropped as ?w1)) = qc_queries (w_query_cache (dropped (a # as) w))"
        by (simp add: dropped_def qc_erase_archetype_def)
      ultimately show ?thesis by (simp add: dropped_def qc_erase_archetype_def)
    qed
    then show ?thesis using Cons True by (simp add: s fl)
  qed
qed

lemma compact_eq:
  assumes "distinct (w_archetype_list w)"
  shows "compact w = (dropped (w_archetype_list w) w)\<lparr>w_archetype_list := filter (\<lambda>a. \<not> droppable w a) (w_archetype_list w)\<rparr>"
  by (simp add: compact_def compact_fold [OF assms])

lemma compact_store:
  assumes wf: "wf_store reg w"
  shows "wf_store reg (compact w)" "content (compact w) = content w" "ctl (compact w) = ctl w"
    "w_archetype_list (compact w) = filter (\<lambda>a. \<not> droppable w a) (w_archetype_list w)"
    "location_of (compact w) = location_of w"
proof -
  note wa = wf_archsD [OF wf_storeD(1) [OF wf]]
  let ?w = "compact w"
  note eq = compact_eq [OF wa(1)]
  show list: "w_archetype_list ?w = filter (\<lambda>a. \<not> droppable w a) (w_archetype_list w)" by (simp add: eq)
  show loc: "location_of ?w = location_of w" by (simp add: eq dropped_def location_of_def fun_eq_iff)
  have arch: "arch ?w a = arch w a" if "\<not> droppable w a" for a using that by (simp add: eq dropped_def arch_def)
  have ae: "w_archetypes ?w = (\<lambda>ids. if \<exists>a\<in>set (w_archetype_list w). droppable w a \<and> a_component_ids (arch w a) = ids
      then None else w_archetypes w ids)"
    "w_empty_archetype ?w = w_empty_archetype w" "w_next_aid ?w = w_next_aid w" by (simp_all add: eq dropped_def)
  have dom: "dom (w_archs ?w) = {a \<in> dom (w_archs w). \<not> droppable w a}"
    using wa(2) by (auto simp: eq dropped_def dom_def)
  have live: "\<not> droppable w (loc_archetype l)" if "location_of w e = Some l" for e l
    using wf_locationD(5) [OF wf that] by (auto simp: droppable_def)
  have ne: "\<not> droppable w (w_empty_archetype w)" by (simp add: droppable_def)
  have inj: "a = b" if "a \<in> set (w_archetype_list w)" "b \<in> set (w_archetype_list w)"
    "a_component_ids (arch w a) = a_component_ids (arch w b)" for a b
    using wa(6) [of "a_component_ids (arch w b)"] that by (metis option.inject)
  have "wf_archs reg ?w"
    unfolding wf_archs_def
  proof (intro conjI allI)
    show "distinct (w_archetype_list ?w)" using wa(1) by (simp add: list)
    show "set (w_archetype_list ?w) = dom (w_archs ?w)" using wa(2) by (auto simp: list dom)
    show "\<forall>a\<in>set (w_archetype_list ?w). a < w_next_aid ?w \<and> wf_arch (arch ?w a) \<and> typed_columns reg (arch ?w a)"
      using wa(3-5) by (simp add: list ae arch)
    fix ids a
    show "(w_archetypes ?w ids = Some a) = (a \<in> set (w_archetype_list ?w) \<and> a_component_ids (arch ?w a) = ids)"
      using wa(6) [of ids a] arch [of a] inj by (auto simp: ae list)
    have "a_component_ids (arch w (w_empty_archetype w)) = []" using wa(6) [of "[]"] wf_storeD(1) [OF wf]
      by (auto simp: wf_archs_def)
    then have "\<not> (\<exists>a\<in>set (w_archetype_list w). droppable w a \<and> a_component_ids (arch w a) = [])"
      using inj [OF _ wa(7)] ne by metis
    then show "w_archetypes ?w [] = Some (w_empty_archetype ?w)"
      using wf_storeD(1) [OF wf] by (simp add: ae wf_archs_def)
  qed
  moreover have "wf_locations ?w"
    unfolding wf_locations_def
  proof (intro conjI allI)
    show "distinct (map fst (w_locations ?w))" using wf_storeD(2) [OF wf] by (simp add: wf_locations_def eq dropped_def)
    fix e l
    have "(location_of w e = Some l) = (loc_archetype l \<in> set (w_archetype_list w)
        \<and> a_entity_to_row (arch w (loc_archetype l)) e = Some (loc_row l))"
      using wf_storeD(2) [OF wf] unfolding wf_locations_def by blast
    then show "(location_of ?w e = Some l) = (loc_archetype l \<in> set (w_archetype_list ?w)
        \<and> a_entity_to_row (arch ?w (loc_archetype l)) e = Some (loc_row l))"
      using live [of e l] arch [of "loc_archetype l"] by (auto simp: loc list)
  qed
  moreover have "wf_query_cache ?w"
    unfolding wf_query_cache_def
  proof (intro conjI allI impI)
    have q: "qc_queries (w_query_cache ?w) = qc_queries (w_query_cache w)"
      "qc_cache (w_query_cache ?w) = map (apsnd (filter (\<lambda>a. a \<notin> {a \<in> set (w_archetype_list w). droppable w a})))
         (qc_cache (w_query_cache w))" by (simp_all add: eq dropped_def)
    show "distinct (map fst (qc_queries (w_query_cache ?w)))" using wf_storeD(3) [OF wf] by (simp add: wf_query_cache_def q)
    fix k p
    assume "map_of (qc_queries (w_query_cache ?w)) k = Some p"
    then have o: "k = membership_signature p"
      "map_of (qc_cache (w_query_cache w)) k = Some (filter (\<lambda>a. query_matches p (arch w a)) (w_archetype_list w))"
      using wf_storeD(3) [OF wf] unfolding wf_query_cache_def q by blast+
    show "k = membership_signature p" by (rule o(1))
    have m: "map_of (map (apsnd f) c) k = map_option f (map_of c k)" for f and c :: "(u64 \<times> aid list) list"
      by (induction c) auto
    have "filter (\<lambda>a. a \<notin> {a \<in> set (w_archetype_list w). droppable w a}) (filter (\<lambda>a. query_matches p (arch w a)) (w_archetype_list w))
      = filter (\<lambda>a. query_matches p (arch ?w a)) (w_archetype_list ?w)"
      using arch by (auto simp: list intro!: filter_cong)
    then show "map_of (qc_cache (w_query_cache ?w)) k
        = Some (filter (\<lambda>a. query_matches p (arch ?w a)) (w_archetype_list ?w))"
      using o(2) by (simp only: q m option.map)
  qed
  moreover have "wf_pending reg ?w" using wf_storeD(4) [OF wf] by (simp add: wf_pending_def eq dropped_def)
  ultimately show "wf_store reg ?w" by (simp add: wf_store_def)
  show "content ?w = content w"
  proof
    fix e
    show "content ?w e = content w e"
      using live [of e] arch by (cases "location_of w e") (simp_all add: content_def loc)
  qed
  show "ctl ?w = ctl w" by (simp add: eq dropped_def ctl_def)
qed

section \<open>Clearing\<close>

lemma clear_step_world:
  assumes wf: "wf_world reg w"
  shows "wf_world reg (clear_step e w)" "content (clear_step e w) = (content w)(e := None)"
proof -
  have "wf_world reg (clear_step e w) \<and> content (clear_step e w) = (content w)(e := None)"
  proof (cases "location_of w e")
    case None
    then have "(content w)(e := None) = content w" by (simp add: fun_eq_iff content_def)
    then show ?thesis using wf None by (simp add: clear_step_def)
  next
    case (Some l)
    have st: "wf_store reg w" "wf_alloc w" using wf by (simp_all add: wf_world_def)
    note un = unplace_entity_store [OF st(1) Some] and uv = unplace_valid [OF st Some]
    have n: "location_of (unplace_entity e l w) e = None" using un(2) by (simp add: content_None [symmetric])
    have np: "e \<notin> set (w_pool_slots (unplace_entity e l w))" using uv(3) ctl_alloc(3) [OF ctl_unplace [of e l w]] by simp
    have "same_store (unplace_entity e l w) (free_entity_id e (unplace_entity e l w))" by simp
    note s = same_store_wf [OF this un(1)]
    show ?thesis
      using Some s un(2) free_entity_id_alloc(1) [OF uv(1,2) n np] by (simp add: clear_step_def wf_world_def)
  qed
  then show "wf_world reg (clear_step e w)" "content (clear_step e w) = (content w)(e := None)" by simp_all
qed

lemma clear_fold_world:
  assumes "wf_world reg w"
  shows "wf_world reg (fold clear_step es w) \<and> content (fold clear_step es w) = (\<lambda>e. if e \<in> set es then None else content w e)"
  using assms
proof (induction es arbitrary: w)
  case Nil
  then show ?case by simp
next
  case (Cons e es)
  then show ?case using clear_step_world [OF Cons.prems, of e] by (auto simp: fun_eq_iff)
qed

text \<open>The hash map of entities is iterated over each of its keys.\<close>

definition visits_all :: "('u, 'v) env \<Rightarrow> bool" where
  "visits_all E \<longleftrightarrow> (\<forall>es. set (env_order E es) = set es)"

lemma world_clear_world:
  assumes wf: "wf_world (env_registry E) w" and cb: "keeps_world E"
  shows "wf_world (env_registry E) (world_clear E w)"
    "passive_env E \<Longrightarrow> visits_all E \<Longrightarrow> \<not> in_iteration w \<Longrightarrow> content (world_clear E w) = Map.empty"
proof -
  let ?es = "env_order E (map fst (w_locations w))"
  let ?w1 = "fold clear_step ?es w"
  let ?w2 = "(invalidate_cache ?w1)\<lparr>w_change_log := [], w_change_log_generation := w_change_log_generation (invalidate_cache ?w1) + 1\<rparr>"
  note c = clear_fold_world [OF wf, of ?es]
  have s: "same_store ?w1 ?w2" using same_store_trans [OF same_store_ops(4) same_store_updates(4)] .
  have w2: "wf_world (env_registry E) ?w2"
    by (rule wf_world_same_store [OF conjunct1 [OF c] s]) (simp add: invalidate_cache_def ctl_def)
  have eq: "world_clear E w = (if in_iteration w then w
      else fst (dispatch E (mk_event Custom null_entity 0 ''world_cleared'' None) ?w2))"
    by (simp add: world_clear_def Let_def)
  show "wf_world (env_registry E) (world_clear E w)"
    unfolding eq using wf keeps_world_dispatch [OF cb w2] by simp
  assume p: "passive_env E" and o: "visits_all E" and it: "\<not> in_iteration w"
  have "content ?w1 = Map.empty"
  proof
    fix e
    have "content w e = None" if "e \<notin> set ?es"
      using that o by (simp add: visits_all_def content_None location_of_def map_of_eq_None_iff)
    then show "content ?w1 e = None" using c by simp
  qed
  moreover have st: "wf_store (env_registry E) ?w1" using c by (simp add: wf_world_def)
  ultimately have c2: "content ?w2 = Map.empty" using same_store_wf(2) [OF s st] by simp
  have st2: "wf_store (env_registry E) ?w2" using w2 by (simp add: wf_world_def)
  show "content (world_clear E w) = Map.empty"
    unfolding eq using it same_store_wf(2) [OF passive_dispatch_store(1) [OF p] st2] c2 by simp
qed

section \<open>Reset and the operations on the control state\<close>

lemma world_reset_world:
  assumes wf: "wf_world reg w"
  shows "wf_world reg (world_reset w)" "content (world_reset w) = content w" "quiescent (world_reset w)"
proof -
  have l: "location_of (world_reset w) = location_of w" "arch (world_reset w) = arch w"
    by (simp_all add: world_reset_def location_of_def arch_def fun_eq_iff)
  have "wf_store reg (world_reset w)"
    using wf unfolding wf_world_def wf_store_def wf_archs_def wf_locations_def wf_query_cache_def l
    by (simp add: world_reset_def wf_pending_def)
  moreover have "wf_alloc (world_reset w)"
    using wf unfolding wf_world_def wf_alloc_def valid_id_def l by (auto simp: world_reset_def)
  ultimately show "wf_world reg (world_reset w)" by (simp add: wf_world_def)
  show "content (world_reset w) = content w" by (intro ext) (simp only: content_def l)
  show "quiescent (world_reset w)" by (simp add: quiescent_def world_reset_def)
qed

lemma control_step_world:
  assumes wf: "wf_world reg w" and s: "same_store w w'"
    and f: "w_slot_generations w' = w_slot_generations w" "w_free_slots w' = w_free_slots w" "w_pool_slots w' = w_pool_slots w"
  shows "wf_world reg w'" "content w' = content w"
proof -
  have l: "location_of w' = location_of w" using s by (simp add: same_store_def)
  have "wf_alloc w' = wf_alloc w" by (rule wf_alloc_cong3) (simp_all add: f l)
  then show "wf_world reg w'" "content w' = content w"
    using same_store_wf [OF s, of reg] wf by (simp_all add: wf_world_def)
qed

lemma set_entity_range_world:
  assumes wf: "wf_world reg w" and n: "n \<le> 0xFFFFFFFF"
  shows "wf_world reg (set_entity_range n w)" "content (set_entity_range n w) = content w"
proof -
  have s: "same_store w (set_entity_range n w)" by simp
  have st: "wf_store reg w" "wf_alloc w" using wf by (simp_all add: wf_world_def)
  have l: "location_of (set_entity_range n w) = location_of w" using s by (simp add: same_store_def)
  let ?g = "w_slot_generations w" and ?g' = "w_slot_generations (set_entity_range n w)"
  have g: "length ?g \<le> length ?g'" "length ?g' \<le> 0xFFFFFFFF" "i < length ?g \<Longrightarrow> ?g' ! i = ?g ! i" for i
    using st(2) n by (auto simp: set_entity_range_def resize_generations_def nth_append wf_alloc_def)
  have f: "w_free_slots (set_entity_range n w) = w_free_slots w" "w_pool_slots (set_entity_range n w) = w_pool_slots w"
    by (simp_all add: set_entity_range_def)
  have v: "valid_id (set_entity_range n w) e" if "valid_id w e" for e
    using that g(1) g(3) [of "unat (slot e)"] by (simp add: valid_id_def f)
  have "wf_alloc (set_entity_range n w)"
    unfolding wf_alloc_def f l using st(2) g(1,2) v by (auto simp: wf_alloc_def dest: less_le_trans)
  then show "wf_world reg (set_entity_range n w)" using same_store_wf(1) [OF s st(1)] by (simp add: wf_world_def)
  show "content (set_entity_range n w) = content w" by (rule same_store_wf(2) [OF s st(1)])
qed

lemma mark_changed_field_world:
  assumes wf: "wf_world (env_registry E) w" and cb: "keeps_world E"
  shows "wf_world (env_registry E) (mark_changed_field E e t fld w)"
proof (cases "is_alive w e \<and> has w e t")
  case False
  then show ?thesis using wf by (simp add: mark_changed_field_id)
next
  case True
  have st: "wf_store (env_registry E) w" using wf by (simp add: wf_world_def)
  obtain v where v: "mark_changed_field E e t fld w = fst (dispatch E (mk_event Changed e t fld None) v)"
    "wf_store (env_registry E) v" "content v = content w" "ctl v = ctl w"
    using mark_changed_core [OF st conjunct1 [OF True] conjunct2 [OF True]] by blast
  have "wf_world (env_registry E) v" by (rule wf_world_content [OF wf v(2,4)]) (simp add: v(3))
  then show ?thesis unfolding v(1) by (rule keeps_world_dispatch [OF cb])
qed

end
