(* ===== verification/Reach.thy ===== *)
theory Reach
  imports Lifecycle
begin

text \<open>
  The public operations of a world as a step relation, the worlds reachable by them, and the
  safety of entity handles: reachable worlds are well formed, and a destroyed handle stays dead
  whatever is called afterwards.
\<close>

section \<open>Steps\<close>

text \<open>
  A step is one call. The guards are the preconditions of the C++ interface: a component value
  has at least the bytes of its type, a target archetype is one of the world's, a slot range
  fits 32 bits. A flushed buffer creates no entity with a chosen id: like
  \<open>create_entity_preassigned\<close> that is a step of \<open>reachable\<close> below, for an unused slot.
\<close>

inductive api_step :: "('u, 'v) env \<Rightarrow> 'u world \<Rightarrow> 'u world \<Rightarrow> bool" for E where
  create: "api_step E w (snd (create_entity E w))"
| create_pooled: "api_step E w (snd (create_entity_pooled E w))"
| destroy: "api_step E w (destroy_entity E e w)"
| destroy_pooled: "api_step E w (destroy_entity_pooled E e w)"
| destroy_deferred: "api_step E w (destroy_entity_deferred E e w)"
| add: "(\<And>bs. d = Some bs \<Longrightarrow> schema_size E t \<le> length bs) \<Longrightarrow> api_step E w (add_raw E e t d w)"
| remove: "api_step E w (remove_component E e t w)"
| mark: "api_step E w (mark_changed_field E e t fld w)"
| move: "a \<in> set (w_archetype_list w) \<Longrightarrow> api_step E w (snd (move_entity E e a w))"
| match: "api_step E w (snd (world_match q w))"
| suppress: "api_step E w (begin_suppress w)"
| unsuppress: "api_step E w (end_suppress w)"
| defer_moves: "api_step E w (begin_deferred_moves w)"
| commit_moves: "api_step E w (end_deferred_moves E w)"
| iterate: "api_step E w (begin_iteration w)"
| iterated: "api_step E w (end_iteration w)"
| command: "api_step E w (cb_push c w)"
| execute: "(\<And>e. AddEntity e \<notin> set (w_command_buffer w)) \<Longrightarrow>
    (\<And>e t d. AddComponent e t d \<in> set (w_command_buffer w) \<Longrightarrow> d \<noteq> [] \<Longrightarrow> schema_size E t \<le> length d) \<Longrightarrow>
    api_step E w (execute_commands E w)"
| compact: "api_step E w (compact w)"
| clear: "api_step E w (world_clear E w)"
| reset: "api_step E w (world_reset w)"
| range: "n \<le> 0xFFFFFFFF \<Longrightarrow> api_step E w (set_entity_range n w)"
| emit: "api_step E w (snd (emit_event E nm e pl w))"
| observe: "api_step E w (w\<lparr>w_observers := od\<rparr>)"
| baseline: "api_step E w (set_changed_baseline sig tk w)"
| custom: "api_step E w (register_custom_command i f w)"

text \<open>
  The ids a command buffer recreates (\<open>AddEntity\<close>) are usable when each is alive already (the
  command does nothing) or has an unused slot, no two of them share a slot, and no custom command
  of the buffer can take a slot in between.
\<close>

definition added_ids :: "command list \<Rightarrow> entity set" where
  "added_ids cs = {e. AddEntity e \<in> set cs}"

definition ids_ready :: "'u world \<Rightarrow> command list \<Rightarrow> bool" where
  "ids_ready w cs \<longleftrightarrow> (\<forall>e \<in> added_ids cs. is_alive w e \<or> slot_unused w e)
     \<and> (\<forall>e \<in> added_ids cs. \<forall>f \<in> added_ids cs. slot e = slot f \<longrightarrow> e = f)
     \<and> (\<forall>i d. CustomCommand i d \<notin> set cs)"

inductive reachable :: "('u, 'v) env \<Rightarrow> 'u world \<Rightarrow> bool" for E where
  start: "reachable E (new_world E u)"
| step: "reachable E w \<Longrightarrow> api_step E w w' \<Longrightarrow> reachable E w'"
| preassign: "reachable E w \<Longrightarrow> slot_unused w (Entity p) \<Longrightarrow> reachable E (snd (create_entity_preassigned E p w))"
| recreate: "reachable E w \<Longrightarrow> ids_ready w (w_command_buffer w) \<Longrightarrow>
    (\<And>e t d. AddComponent e t d \<in> set (w_command_buffer w) \<Longrightarrow> d \<noteq> [] \<Longrightarrow> schema_size E t \<le> length d) \<Longrightarrow>
    reachable E (execute_commands E w)"

section \<open>Well-formedness of reachable worlds\<close>

definition keeps_custom :: "('u, 'v) env \<Rightarrow> bool" where
  "keeps_custom E \<longleftrightarrow> (\<forall>f d w. wf_world (env_registry E) w \<longrightarrow> wf_world (env_registry E) (env_custom E f d w))"

lemma destroy_entity_deferred_world:
  assumes wf: "wf_world (env_registry E) w" and cb: "keeps_world E"
  shows "wf_world (env_registry E) (destroy_entity_deferred E e w)"
proof -
  have "same_store w (queue_deferred_move e (w\<lparr>w_pending_destroy := insert e (w_pending_destroy w)\<rparr>))"
    using same_store_trans [OF same_store_updates(15) same_store_ops(7)] .
  from control_step_world(1) [OF wf this]
  have "wf_world (env_registry E) (queue_deferred_move e (w\<lparr>w_pending_destroy := insert e (w_pending_destroy w)\<rparr>))"
    by (simp add: queue_deferred_move_def)
  then show ?thesis using wf destroy_entity_world(1) [OF wf cb] by (simp add: destroy_entity_deferred_def)
qed

lemma run_command_world:
  assumes wf: "wf_world (env_registry E) w" and cb: "keeps_world E" "keeps_custom E" and c: "\<And>e. c \<noteq> AddEntity e"
  shows "wf_world (env_registry E) (run_command E c w)"
proof (cases c)
  case (CustomCommand i d)
  then show ?thesis using wf cb(2) by (simp add: run_custom_command_def keeps_custom_def split: option.split)
qed (use c add_raw_world [OF wf cb(1)] remove_component_world [OF wf cb(1)]
      destroy_entity_deferred_world [OF wf cb(1)] in auto)

lemma run_commands_world:
  assumes "wf_world (env_registry E) w" "keeps_world E" "keeps_custom E" "\<And>e. AddEntity e \<notin> set cs"
  shows "wf_world (env_registry E) (fold (run_command E) cs w)"
  using assms
proof (induction cs arbitrary: w)
  case Nil
  then show ?case by simp
next
  case (Cons c cs)
  have "wf_world (env_registry E) (run_command E c w)"
    by (rule run_command_world [OF Cons.prems(1-3)]) (use Cons.prems(4) in auto)
  then show ?case using Cons.IH [OF _ Cons.prems(2,3)] Cons.prems(4) by simp
qed

lemma flush_world:
  assumes wf: "wf_world (env_registry E) w" and cb: "keeps_world E"
    and c: "\<And>v. wf_world (env_registry E) v \<Longrightarrow> same_store w v \<Longrightarrow> w_slot_generations v = w_slot_generations w \<Longrightarrow>
      w_free_slots v = w_free_slots w \<Longrightarrow> w_pool_slots v = w_pool_slots w \<Longrightarrow> w_defer_moves v \<Longrightarrow>
      wf_world (env_registry E) (fold (run_command E) (w_command_buffer w) v)"
  shows "wf_world (env_registry E) (execute_commands E w)"
proof -
  let ?w1 = "begin_deferred_moves (begin_suppress (w\<lparr>w_command_buffer := []\<rparr>))"
  have s: "same_store w ?w1"
    using same_store_trans [OF same_store_trans [OF same_store_updates(16) same_store_ops(8)] same_store_ops(10)] .
  then have "wf_world (env_registry E) ?w1"
    by (rule control_step_world(1) [OF wf]) (simp_all add: begin_deferred_moves_def begin_suppress_def)
  from c [OF this s] have "wf_world (env_registry E) (fold (run_command E) (w_command_buffer w) ?w1)"
    by (simp add: begin_deferred_moves_def begin_suppress_def)
  from end_deferred_moves_world [OF this cb]
  have w3: "wf_world (env_registry E) (end_deferred_moves E (fold (run_command E) (w_command_buffer w) ?w1))" .
  have "wf_world (env_registry E) (end_suppress (end_deferred_moves E (fold (run_command E) (w_command_buffer w) ?w1)))"
    by (rule control_step_world(1) [OF w3 same_store_end_suppress]) (simp_all add: end_suppress_def flush_invalidation_def)
  then show ?thesis using wf by (simp add: execute_commands_def Let_def)
qed

lemma execute_commands_world:
  assumes "wf_world (env_registry E) w" "keeps_world E" "keeps_custom E"
    and "\<And>e. AddEntity e \<notin> set (w_command_buffer w)"
  shows "wf_world (env_registry E) (execute_commands E w)"
  by (rule flush_world [OF assms(1,2)]) (rule run_commands_world [OF _ assms(2-4)])

lemma move_entity_world:
  assumes wf: "wf_world (env_registry E) w" and a: "a \<in> set (w_archetype_list w)"
  shows "wf_world (env_registry E) (snd (move_entity E e a w))"
proof -
  have st: "wf_store (env_registry E) w" using wf by (simp add: wf_world_def)
  note m = move_entity_wf [OF st a, of e]
  show ?thesis by (rule wf_world_content [OF wf m(1,3,4)])
qed

theorem api_step_wf_world:
  assumes st: "api_step E w w'" and wf: "wf_world (env_registry E) w" and cb: "keeps_world E" "keeps_custom E"
  shows "wf_world (env_registry E) w'"
  using st
proof cases
  case create
  then show ?thesis using create_entity_world(1) [OF wf] by (metis prod.collapse)
next
  case create_pooled
  then show ?thesis using create_entity_pooled_world(1) [OF wf] by (metis prod.collapse)
next
  case (destroy e)
  then show ?thesis using destroy_entity_world(1) [OF wf cb(1)] by simp
next
  case (destroy_pooled e)
  then show ?thesis using destroy_entity_world(2) [OF wf cb(1)] by simp
next
  case (destroy_deferred e)
  then show ?thesis using destroy_entity_deferred_world [OF wf cb(1)] by simp
next
  case (add d t e)
  then show ?thesis using add_raw_world [OF wf cb(1)] by simp
next
  case (remove e t)
  then show ?thesis using remove_component_world [OF wf cb(1)] by simp
next
  case (mark e t fld)
  then show ?thesis using mark_changed_field_world [OF wf cb(1)] by simp
next
  case (move a e)
  then show ?thesis using move_entity_world [OF wf] by simp
next
  case (match q)
  have st: "wf_store (env_registry E) w" using wf by (simp add: wf_world_def)
  obtain r v where m: "world_match q w = (r, v)" by fastforce
  note mr = world_match_result [OF st m]
  have "wf_world (env_registry E) v" by (rule wf_world_content [OF wf mr(2,4)]) (simp add: mr(3))
  then show ?thesis using match m by simp
next
  case commit_moves
  then show ?thesis using end_deferred_moves_world [OF wf cb(1)] by simp
next
  case execute
  then show ?thesis using execute_commands_world [OF wf cb] by simp
next
  case compact
  have st: "wf_store (env_registry E) w" using wf by (simp add: wf_world_def)
  note cs = compact_store [OF st]
  have "wf_world (env_registry E) (compact w)" by (rule wf_world_content [OF wf cs(1,3)]) (simp add: cs(2))
  then show ?thesis using compact by simp
next
  case clear
  then show ?thesis using world_clear_world(1) [OF wf cb(1)] by simp
next
  case reset
  then show ?thesis using world_reset_world(1) [OF wf] by simp
next
  case (range n)
  then show ?thesis using set_entity_range_world(1) [OF wf] by simp
next
  case (emit nm e pl)
  then show ?thesis using keeps_world_dispatch [OF cb(1) wf] by (simp add: emit_event_def case_prod_beta)
next
  case unsuppress
  show ?thesis unfolding unsuppress
    by (rule control_step_world(1) [OF wf same_store_end_suppress]) (simp_all add: end_suppress_def flush_invalidation_def)
qed (auto intro!: control_step_world(1) [OF wf] simp: begin_suppress_def begin_deferred_moves_def
    begin_iteration_def end_iteration_def cb_push_def set_changed_baseline_def register_custom_command_def)

section \<open>Handles\<close>

text \<open>A handle that was destroyed: its slot moved on, or it is the last id of an exhausted slot.\<close>

definition retired :: "'u world \<Rightarrow> entity \<Rightarrow> bool" where
  "retired w e \<longleftrightarrow> unat (slot e) < length (w_slot_generations w) \<and> content w e = None \<and> e \<notin> set (w_pool_slots w)
   \<and> (generation e < w_slot_generations w ! unat (slot e)
      \<or> generation e = - 1 \<and> w_slot_generations w ! unat (slot e) = - 1 \<and> slot e \<notin> set (w_free_slots w))"

definition retires :: "'u world \<Rightarrow> 'u world \<Rightarrow> bool" where
  "retires w w' \<longleftrightarrow> (\<forall>e. retired w e \<longrightarrow> retired w' e)"

lemma retires_refl [simp]: "retires w w"
  by (simp add: retires_def)

lemma retires_trans: "retires u v \<Longrightarrow> retires v w \<Longrightarrow> retires u w"
  by (simp add: retires_def)

lemma retires_ids:
  assumes "w_slot_generations w' = w_slot_generations w" "w_free_slots w' = w_free_slots w"
    "set (w_pool_slots w') \<subseteq> set (w_pool_slots w)" "\<And>e. content w e = None \<Longrightarrow> content w' e = None"
  shows "retires w w'"
  unfolding retires_def
proof (intro allI impI)
  fix e
  assume "retired w e"
  then show "retired w' e" using assms(3) assms(4) [of e] unfolding retired_def assms(1,2) by (simp add: subset_iff) blast
qed

lemma retires_ctl:
  assumes "ctl w' = ctl w" "\<And>e. content w e = None \<Longrightarrow> content w' e = None"
  shows "retires w w'"
  using retires_ids [OF ctl_alloc(1,2) [OF assms(1)] _ assms(2)] ctl_alloc(3) [OF assms(1)] by simp

lemma retired_not_valid:
  assumes "retired w e" "valid_id w f" "slot f = slot e" "content w f \<noteq> None \<or> f \<in> set (w_pool_slots w)" "wf_alloc w"
  shows "generation e < generation f"
proof -
  have g: "w_slot_generations w ! unat (slot e) = generation f" using assms(2,3) by (simp add: valid_id_def)
  have ne: "e \<noteq> f" using assms(1,4) unfolding retired_def by metis
  have "length (w_slot_generations w) \<le> 0xFFFFFFFF" using assms(5) by (simp add: wf_alloc_def)
  then have "unat (slot e) < 0xFFFFFFFF" using assms(2,3) by (simp add: valid_id_def)
  then have m: "slot e \<noteq> 0xFFFFFFFF" by (rule unat_slot_max)
  show ?thesis
  proof (rule ccontr)
    assume "\<not> generation e < generation f"
    moreover have "generation e < generation f \<or> generation e = - 1 \<and> generation f = - 1"
      using assms(1) unfolding retired_def g by blast
    ultimately have "generation e = generation f" by metis
    then show False using entity_eq_fields [OF m assms(3) [symmetric]] ne by blast
  qed
qed

lemma free_entity_id_retires:
  assumes wf: "wf_alloc w" and e: "valid_id w e" "content w e = None" "e \<notin> set (w_pool_slots w)"
    and old: "\<And>x. retired w0 x \<Longrightarrow> slot x = slot e \<Longrightarrow> generation x < generation e"
    and frame: "w_slot_generations w = w_slot_generations w0" "w_free_slots w = w_free_slots w0"
      "w_pool_slots w = w_pool_slots w0" "\<And>x. content w0 x = None \<Longrightarrow> content w x = None"
  shows "retires w0 (free_entity_id e w)" "retired (free_entity_id e w) e"
proof -
  let ?w = "free_entity_id e w" and ?s = "unat (slot e)"
  have s: "?s < length (w_slot_generations w)" "w_slot_generations w ! ?s = generation e" "slot e \<notin> set (w_free_slots w)"
    using e(1) by (simp_all add: valid_id_def)
  have loc: "content ?w = content w"
  proof -
    have "location_of ?w = location_of w" "arch ?w = arch w"
      by (simp_all add: free_entity_id_def Let_def location_of_def arch_def fun_eq_iff)
    then show ?thesis by (intro ext) (simp only: content_def)
  qed
  have pool: "w_pool_slots ?w = w_pool_slots w" by (simp add: free_entity_id_def Let_def)
  have g: "w_slot_generations ?w = (w_slot_generations w)[?s := (if generation e = - 1 then - 1 else generation e + 1)]"
    using s by (simp add: free_entity_id_def Let_def)
  have fr: "w_free_slots ?w = w_free_slots w @ (if generation e = - 1 then [] else [slot e])"
    using s by (simp add: free_entity_id_def Let_def)
  have lt: "generation e < generation e + 1" if "generation e \<noteq> - 1"
    using that unatSuc [of "generation e"] by (simp add: word_less_nat_alt add.commute eq_neg_iff_add_eq_0)
  show "retired ?w e"
    using e(2,3) s lt by (cases "generation e = - 1") (simp_all add: retired_def g fr loc pool)
  show "retires w0 ?w"
    unfolding retires_def
  proof (intro allI impI)
    fix x
    assume r: "retired w0 x"
    show "retired ?w x"
    proof (cases "slot x = slot e")
      case True
      have "generation x < generation e" using old [OF r True] .
      then have "generation x < (if generation e = - 1 then - 1 else generation e + 1)"
        using lt by (auto intro: less_trans)
      then show ?thesis using r True s(1) frame by (simp add: retired_def g loc pool)
    next
      case False
      then have "unat (slot x) \<noteq> ?s" by (simp add: word_unat_eq_iff)
      then show ?thesis using r False frame by (auto simp: retired_def g fr loc pool)
    qed
  qed
qed

lemma retires_same:
  assumes "wf_store reg w" "same_store w w'" "ctl w' = ctl w"
  shows "retires w w'"
  using retires_ctl [OF assms(3)] same_store_wf(2) [OF assms(2,1)] by simp

lemma retires_control:
  assumes "wf_store reg w" "same_store w w'" "w_slot_generations w' = w_slot_generations w"
    "w_free_slots w' = w_free_slots w" "set (w_pool_slots w') \<subseteq> set (w_pool_slots w)"
  shows "retires w w'"
  using retires_ids [OF assms(3-5)] same_store_wf(2) [OF assms(2,1)] by simp

lemma retires_place:
  assumes st: "wf_store (env_registry E) w" and n: "location_of w e = None" "e \<noteq> null_entity"
    and k: "\<And>x. retired w0 x \<Longrightarrow> x \<noteq> e \<and> retired w x"
  shows "retires w0 (place_entity E e w)"
proof -
  note p = place_entity_store [OF st n]
  note c = ctl_alloc(1-3) [OF p(5)]
  show ?thesis
    unfolding retires_def
  proof (intro allI impI)
    fix x
    assume "retired w0 x"
    from k [OF this] show "retired (place_entity E e w) x" unfolding retired_def c p(2) by simp
  qed
qed

lemma alloc_entity_id_fresh:
  assumes wf: "wf_alloc w" and a: "alloc_entity_id w = (e, w1)" "e \<noteq> null_entity" and r: "retired w x"
  shows "x \<noteq> e \<and> retired w1 x"
proof -
  have sx: "unat (slot x) < length (w_slot_generations w)" "generation x < w_slot_generations w ! unat (slot x)
      \<or> generation x = - 1 \<and> w_slot_generations w ! unat (slot x) = - 1 \<and> slot x \<notin> set (w_free_slots w)"
    "content w x = None" "x \<notin> set (w_pool_slots w)"
    using r unfolding retired_def by blast+
  have c: "content w1 x = content w x" "w_pool_slots w1 = w_pool_slots w"
    using alloc_entity_id_props(5,6,9) [OF wf a] by (simp_all add: content_def split: option.split)
  show ?thesis
  proof (cases "w_free_slots w = []")
    case True
    let ?idx = "of_nat (length (w_slot_generations w)) :: u32"
    have lt: "length (w_slot_generations w) < 0xFFFFFFFE" using True a by (auto simp: alloc_entity_id_def split: if_splits)
    then have u: "unat ?idx = length (w_slot_generations w)" by (simp add: of_nat_u32)
    have w1: "w1 = w\<lparr>w_slot_generations := w_slot_generations w @ [0]\<rparr>" "e = make_entity ?idx 0"
      using True a lt u by (auto simp: alloc_entity_id_def Let_def nth_append split: if_splits)
    have "?idx \<noteq> 0xFFFFFFFF" by (rule unat_slot_max) (use u lt in simp)
    then have "slot e = ?idx" by (simp add: w1(2) make_entity_fields)
    then have "x \<noteq> e" using sx(1) u by auto
    then show ?thesis using sx c by (simp add: retired_def nth_append w1(1))
  next
    case False
    let ?idx = "last (w_free_slots w)"
    have w1: "w1 = w\<lparr>w_free_slots := butlast (w_free_slots w)\<rparr>"
      "e = make_entity ?idx (w_slot_generations w ! unat ?idx)"
      using False a by (simp_all add: alloc_entity_id_def Let_def)
    have i: "?idx \<in> set (w_free_slots w)" using False by simp
    then have "unat ?idx < length (w_slot_generations w)" using wf by (simp add: wf_alloc_def)
    then have "?idx \<noteq> 0xFFFFFFFF" using wf by (intro unat_slot_max) (simp add: wf_alloc_def)
    then have "slot e = ?idx" "generation e = w_slot_generations w ! unat ?idx" by (simp_all add: w1(2) make_entity_fields)
    then have "x \<noteq> e" using sx(2) i by auto
    then show ?thesis using sx c by (auto simp: retired_def w1(1) dest: in_set_butlastD)
  qed
qed

lemma create_retires:
  assumes wf: "wf_world (env_registry E) w"
  shows "retires w (snd (create_entity E w))" "retires w (snd (create_entity_pooled E w))"
proof -
  obtain e w' where c: "create_entity E w = (e, w')" by fastforce
  show 1: "retires w (snd (create_entity E w))"
  proof (cases "e = null_entity")
    case True
    then show ?thesis using create_entity_cases [OF wf c] c by auto
  next
    case False
    then obtain w1 where w1: "alloc_entity_id w = (e, w1)" "w' = place_entity E e w1" "wf_store (env_registry E) w1"
      using create_entity_cases [OF wf c] by blast
    have wa: "wf_alloc w" using wf by (simp add: wf_world_def)
    have "location_of w1 e = None" using alloc_entity_id_props(1,5) [OF wa w1(1) False] by simp
    then have "retires w w'"
      unfolding w1(2) by (rule retires_place [OF w1(3) _ False alloc_entity_id_fresh [OF wa w1(1) False]])
    then show ?thesis by (simp add: c)
  qed
  show "retires w (snd (create_entity_pooled E w))"
  proof (cases "w_pool_slots w = []")
    case True
    then show ?thesis using 1 by (simp add: create_entity_pooled_def)
  next
    case False
    let ?e = "last (w_pool_slots w)" and ?w1 = "w\<lparr>w_pool_slots := butlast (w_pool_slots w)\<rparr>"
    have ep: "?e \<in> set (w_pool_slots w)" using False by simp
    have st: "wf_store (env_registry E) w" "wf_alloc w" using wf by (simp_all add: wf_world_def)
    have n: "location_of w ?e = None" "valid_id w ?e" using ep st(2) by (auto simp: wf_alloc_def)
    then have "unat (slot ?e) < 0xFFFFFFFF" using st(2) by (simp add: valid_id_def wf_alloc_def)
    then have e0: "?e \<noteq> null_entity" using entity_bool_slot [OF unat_slot_max] by (auto simp: entity_bool_iff)
    have s: "same_store w ?w1" by simp
    note s1 = same_store_wf [OF s st(1)]
    have n1: "location_of ?w1 ?e = None" using s n(1) by (simp add: same_store_def)
    have "x \<noteq> ?e \<and> retired ?w1 x" if "retired w x" for x
      using that ep s1(2) by (auto simp: retired_def dest: in_set_butlastD)
    then have "retires w (place_entity E ?e ?w1)" by (rule retires_place [OF s1(1) n1 e0])
    then show ?thesis using False by (simp add: create_entity_pooled_def Let_def)
  qed
qed

lemma unplace_free_retires:
  assumes wf: "wf_world reg w" and l: "location_of w e = Some l"
  shows "retires w (free_entity_id e (unplace_entity e l w))" "retired (free_entity_id e (unplace_entity e l w)) e"
proof -
  have st: "wf_store reg w" "wf_alloc w" using wf by (simp_all add: wf_world_def)
  let ?u = "unplace_entity e l w"
  note un = unplace_entity_store [OF st(1) l] and uv = unplace_valid [OF st l]
  note cu = ctl_alloc [OF ctl_unplace [of e l w]]
  have ev: "valid_id w e" using st(2) l by (simp add: wf_alloc_def)
  have ce: "content w e \<noteq> None" using l by (simp add: content_def)
  have np: "e \<notin> set (w_pool_slots ?u)" "content ?u e = None" using uv(3) cu(3) un(2) by simp_all
  have old: "generation x < generation e" if "retired w x" "slot x = slot e" for x
    using retired_not_valid [OF that(1) ev that(2) [symmetric] _ st(2)] ce by blast
  have cn: "content ?u x = None" if "content w x = None" for x using that un(2) by simp
  show "retires w (free_entity_id e ?u)" "retired (free_entity_id e ?u) e"
    using free_entity_id_retires [OF uv(1,2) np(2,1) old cu(1-3) cn] by blast+
qed

lemma destroy_retires:
  assumes wf: "wf_world (env_registry E) w" and p: "passive_env E"
  shows "retires w (destroy_entity E e w)" "retires w (destroy_entity_pooled E e w)"
    "\<not> in_iteration w \<Longrightarrow> content w e \<noteq> None \<Longrightarrow> retired (destroy_entity E e w) e"
proof -
  have st: "wf_store (env_registry E) w" "wf_alloc w" using wf by (simp_all add: wf_world_def)
  have "retires w (destroy_entity E e w) \<and> retires w (destroy_entity_pooled E e w)
    \<and> (\<not> in_iteration w \<longrightarrow> content w e \<noteq> None \<longrightarrow> retired (destroy_entity E e w) e)"
  proof (cases "location_of w e = None \<or> in_iteration w")
    case True
    then show ?thesis
      by (auto simp: destroy_entity_def destroy_entity_pooled_def content_None split: option.split)
  next
    case False
    then obtain l where l: "location_of w e = Some l" by auto
    let ?u = "unplace_entity e l w"
    note un = unplace_entity_store [OF st(1) l]
    note cu = ctl_alloc [OF ctl_unplace [of e l w]]
    have ce: "content w e \<noteq> None" using l by (simp add: content_def)
    note fr = unplace_free_retires [OF wf l]
    have tail: "same_store (g ?u) (remove_entity_with E g e l w) \<and> ctl (remove_entity_with E g e l w) = ctl (g ?u)" for g
      unfolding remove_entity_with_def
      using same_store_trans [OF notify_removed_store(2) [OF p] same_store_ops(4)] notify_removed_store(3) [OF p] by simp
    have sf: "wf_store (env_registry E) (free_entity_id e ?u)"
      using same_store_wf(1) [OF same_store_ops(5) un(1)] .
    have d: "retires (free_entity_id e ?u) (destroy_entity E e w)"
      unfolding destroy_entity_eq(1) [OF l conjunct2 [OF False [unfolded de_Morgan_disj]]]
      using retires_same [OF sf] tail by blast
    let ?p = "?u\<lparr>w_pool_slots := w_pool_slots ?u @ [e]\<rparr>"
    have sp: "same_store ?u ?p" by simp
    note pp = same_store_wf [OF sp un(1)]
    have "retires w ?p"
      unfolding retires_def
    proof (intro allI impI)
      fix x
      assume r: "retired w x"
      then have "x \<noteq> e" using ce by (auto simp: retired_def)
      then show "retired ?p x" using r un(2) pp(2) cu(1-3) by (simp add: retired_def)
    qed
    moreover have "retires ?p (destroy_entity_pooled E e w)"
      unfolding destroy_entity_eq(2) [OF l conjunct2 [OF False [unfolded de_Morgan_disj]]]
      using retires_same [OF pp(1)] tail [of "\<lambda>v. v\<lparr>w_pool_slots := w_pool_slots v @ [e]\<rparr>"] by blast
    ultimately show ?thesis using retires_trans fr d by (metis retires_def)
  qed
  then show "retires w (destroy_entity E e w)" "retires w (destroy_entity_pooled E e w)"
    "\<not> in_iteration w \<Longrightarrow> content w e \<noteq> None \<Longrightarrow> retired (destroy_entity E e w) e" by blast+
qed

lemma queue_destroy_retires:
  assumes "wf_world (env_registry E) w" "passive_env E"
  shows "retires w (destroy_entity_deferred E e w)"
proof -
  have "same_store w (queue_deferred_move e (w\<lparr>w_pending_destroy := insert e (w_pending_destroy w)\<rparr>))"
    using same_store_trans [OF same_store_updates(15) same_store_ops(7)] .
  then have "retires w (queue_deferred_move e (w\<lparr>w_pending_destroy := insert e (w_pending_destroy w)\<rparr>))"
    using assms(1) by (intro retires_control [of "env_registry E"]) (simp_all add: wf_world_def queue_deferred_move_def)
  then show ?thesis using destroy_retires(1) [OF assms] by (simp add: destroy_entity_deferred_def)
qed

lemma push_pending_retires: "retires w (push_pending e op w)"
proof -
  have l: "location_of (push_pending e op w) = location_of w" "arch (push_pending e op w) = arch w"
    by (simp_all add: push_pending_def queue_deferred_move_def location_of_def arch_def fun_eq_iff)
  have "content (push_pending e op w) = content w" by (intro ext) (simp only: content_def l)
  then show ?thesis by (intro retires_ids) (simp_all add: push_pending_def queue_deferred_move_def)
qed

lemma add_remove_retires:
  assumes wf: "wf_world (env_registry E) w" and p: "passive_env E"
  shows "(\<And>bs. d = Some bs \<Longrightarrow> schema_size E t \<le> length bs) \<Longrightarrow> retires w (add_raw E e t d w)"
    "retires w (remove_component E e t w)"
proof -
  have st: "wf_store (env_registry E) w" using wf by (simp add: wf_world_def)
  show "retires w (add_raw E e t d w)" if len: "\<And>bs. d = Some bs \<Longrightarrow> schema_size E t \<le> length bs"
  proof (cases "is_alive w e \<and> schema_of (env_registry E) t \<noteq> None \<and> \<not> w_defer_moves w")
    case False
    then show ?thesis using push_pending_retires by (auto simp: add_raw_def split: option.split)
  next
    case True
    then obtain l s where l: "location_of w e = Some l" and s: "schema_of (env_registry E) t = Some s"
      using is_alive_iff [OF st] by auto
    have ce: "content w e \<noteq> None" using l by (simp add: content_def)
    show ?thesis
    proof (cases "in_iteration w")
      case False
      have "case d of Some bs \<Rightarrow> cs_size s \<le> length bs | None \<Rightarrow> True"
        using len by (cases d) (auto simp: schema_size_def s)
      note a = add_raw_content [OF st p l s _ False this, of]
      show ?thesis
        by (rule retires_ctl) (use a True ce in auto)
    next
      case it: True
      show ?thesis
      proof (cases "has_component (arch w (loc_archetype l)) t")
        case False
        then show ?thesis using add_raw_eq [OF l _ s] True it by simp
      next
        case h: True
        then have t: "t \<in> set (a_component_ids (arch w (loc_archetype l)))" using has_ids [OF st l] by simp
        let ?v = "write_component e t (loc_archetype l) (loc_row l) (value_bytes s d) w"
        note wr = write_component_store [OF st l t s value_bytes_length(1) [of s d]]
        have "add_raw E e t d w = notify E Changed e t ?v" using add_raw_eq [OF l _ s] True h by simp
        moreover have "retires ?v (notify E Changed e t ?v)"
          by (rule retires_same [OF wr(1) notify_store(2,3) [OF p]])
        moreover have "retires w ?v"
        proof (rule retires_ctl [OF wr(4)])
          show "content ?v x = None" if "content w x = None" for x using wr(5) [of x] that ce by (cases "x = e") auto
        qed
        ultimately show ?thesis using retires_trans by metis
      qed
    qed
  qed
  show "retires w (remove_component E e t w)"
  proof (cases "is_alive w e \<and> \<not> w_defer_moves w")
    case False
    then show ?thesis using push_pending_retires by (auto simp: remove_component_def)
  next
    case True
    then obtain l where l: "location_of w e = Some l" using is_alive_iff [OF st] by auto
    have ce: "content w e \<noteq> None" using l by (simp add: content_def)
    show ?thesis
    proof (cases "in_iteration w")
      case False
      note r = remove_component_content [OF st p l _ False, of t]
      show ?thesis by (rule retires_ctl) (use r True ce in auto)
    next
      case it: True
      then show ?thesis using True l by (simp add: remove_component_def Let_def)
    qed
  qed
qed

lemma commit_deferred_move_retires:
  assumes wf: "wf_world (env_registry E) w" and p: "passive_env E"
  shows "retires w (commit_deferred_move E e w)"
proof (cases "location_of w e = None \<or> w_pending_ops w e = None")
  case True
  then show ?thesis by (auto simp: commit_deferred_move_def split: option.split)
next
  case False
  then obtain l ops where l: "location_of w e = Some l" "w_pending_ops w e = Some ops" by auto
  have st: "wf_store (env_registry E) w" using wf by (simp add: wf_world_def)
  obtain v cs fs L where v: "wf_store (env_registry E) v" "ctl v = ctl w" "\<forall>x. x \<noteq> e \<longrightarrow> content v x = content w x"
    "commit_deferred_move E e w = commit_events E e cs fs L v
         \<or> commit_deferred_move E e w = invalidate_cache (commit_events E e cs fs L v)"
    using commit_core [OF st l] by blast
  have ce: "content w e \<noteq> None" using l by (simp add: content_def)
  have 1: "retires w v"
  proof (rule retires_ctl [OF v(2)])
    show "content v x = None" if "content w x = None" for x using v(3) that ce by (cases "x = e") auto
  qed
  have s: "same_store v (commit_events E e cs fs L v)" by (rule commit_events_store(2) [OF p])
  have 2: "retires v (commit_events E e cs fs L v)"
    by (rule retires_same [OF v(1) s commit_events_store(3) [OF p]])
  have 3: "retires (commit_events E e cs fs L v) (invalidate_cache (commit_events E e cs fs L v))"
    by (rule retires_same [OF same_store_wf(1) [OF s v(1)]]) simp_all
  show ?thesis using v(4) retires_trans [OF 1 2] retires_trans [OF retires_trans [OF 1 2] 3] by auto
qed

lemma fold_retires:
  assumes "\<And>x u. wf_world reg u \<Longrightarrow> wf_world reg (f x u) \<and> retires u (f x u)" "wf_world reg w"
  shows "wf_world reg (fold f xs w) \<and> retires w (fold f xs w)"
  using assms(2)
proof (induction xs arbitrary: w)
  case Nil
  then show ?case by simp
next
  case (Cons x xs)
  have f: "wf_world reg (f x w)" "retires w (f x w)" using assms(1) [OF Cons.prems] by simp_all
  show ?case using Cons.IH [OF f(1)] retires_trans [OF f(2)] by simp
qed

definition passive_custom :: "('u, 'v) env \<Rightarrow> bool" where
  "passive_custom E \<longleftrightarrow> (\<forall>f d w. \<exists>u. env_custom E f d w = w\<lparr>w_client := u\<rparr>)"

lemma passive_custom_step:
  assumes "passive_custom E" "wf_world (env_registry E) w"
  shows "wf_world (env_registry E) (env_custom E f d w)" "retires w (env_custom E f d w)"
proof -
  obtain u where u: "env_custom E f d w = w\<lparr>w_client := u\<rparr>" using assms(1) unfolding passive_custom_def by blast
  show "wf_world (env_registry E) (env_custom E f d w)"
    unfolding u by (rule control_step_world(1) [OF assms(2)]) simp_all
  show "retires w (env_custom E f d w)"
    unfolding u using assms(2) by (intro retires_control [of "env_registry E"]) (simp_all add: wf_world_def)
qed

lemma end_deferred_retires:
  assumes wf: "wf_world (env_registry E) w" and p: "passive_env E"
  shows "retires w (end_deferred_moves E w)"
proof (cases "w_defer_moves w")
  case False
  then show ?thesis by (simp add: end_deferred_moves_def)
next
  case True
  note cb = passive_keeps_world [OF p]
  let ?q = "w_deferred_entities w"
  let ?w1 = "w\<lparr>w_defer_moves := False\<rparr>"
  let ?w2 = "fold (\<lambda>e u. if e \<in> w_pending_destroy u then destroy_entity E e u else u) ?q ?w1"
  let ?w3 = "fold (\<lambda>e u. if e \<in> w_pending_destroy u then u else commit_deferred_move E e u) ?q ?w2"
  let ?w4 = "?w3\<lparr>w_pending_ops := Map.empty, w_pending_destroy := {}, w_deferred_entities := [], w_deferred_set := {}\<rparr>"
  have w1: "wf_world (env_registry E) ?w1" by (rule control_step_world(1) [OF wf]) simp_all
  have r1: "retires w ?w1" using wf by (intro retires_control [of "env_registry E"]) (simp_all add: wf_world_def)
  have w2: "wf_world (env_registry E) ?w2 \<and> retires ?w1 ?w2"
    by (rule fold_retires [OF _ w1]) (simp add: destroy_entity_world(1) [OF _ cb] destroy_retires(1) [OF _ p])
  have w3: "wf_world (env_registry E) ?w3 \<and> retires ?w2 ?w3"
    by (rule fold_retires [OF _ conjunct1 [OF w2]])
      (simp add: commit_deferred_move_world [OF _ cb] commit_deferred_move_retires [OF _ p])
  have a: "arch ?w4 = arch ?w3" by (simp add: arch_def fun_eq_iff)
  have w4: "wf_world (env_registry E) ?w4" "content ?w4 = content ?w3"
    by (rule same_store_pending [OF conjunct1 [OF w3]], simp_all add: a)+
  have r4: "retires ?w3 ?w4" by (rule retires_ids) (simp_all add: w4(2))
  have r5: "retires ?w4 (flush_invalidation ?w4)"
    using w4(1) by (intro retires_control [of "env_registry E"]) (simp_all add: wf_world_def flush_invalidation_def)
  have "retires w (flush_invalidation ?w4)"
    using retires_trans [OF r1 retires_trans [OF conjunct2 [OF w2] retires_trans [OF conjunct2 [OF w3] retires_trans [OF r4 r5]]]] .
  then show ?thesis using True by (simp add: end_deferred_moves_def Let_def)
qed

lemma execute_retires:
  assumes wf: "wf_world (env_registry E) w" and p: "passive_env E" "passive_custom E"
    and c: "\<And>e. AddEntity e \<notin> set (w_command_buffer w)"
    and len: "\<And>e t d. AddComponent e t d \<in> set (w_command_buffer w) \<Longrightarrow> d \<noteq> [] \<Longrightarrow> schema_size E t \<le> length d"
  shows "retires w (execute_commands E w)"
proof -
  note cb = passive_keeps_world [OF p(1)]
  have kc: "keeps_custom E" using passive_custom_step(1) [OF p(2)] by (simp add: keeps_custom_def)
  let ?w1 = "begin_deferred_moves (begin_suppress (w\<lparr>w_command_buffer := []\<rparr>))"
  have s: "same_store w ?w1"
    using same_store_trans [OF same_store_trans [OF same_store_updates(16) same_store_ops(8)] same_store_ops(10)] .
  have w1: "wf_world (env_registry E) ?w1"
    by (rule control_step_world(1) [OF wf s]) (simp_all add: begin_deferred_moves_def begin_suppress_def)
  have r1: "retires w ?w1"
    using wf s by (intro retires_control [of "env_registry E"])
      (simp_all add: wf_world_def begin_deferred_moves_def begin_suppress_def)
  have step: "wf_world (env_registry E) (run_command E cm u) \<and> retires u (run_command E cm u)"
    if cm: "cm \<in> set (w_command_buffer w)" and u: "wf_world (env_registry E) u" for cm u
  proof -
    have "wf_world (env_registry E) (run_command E cm u)" by (rule run_command_world [OF u cb kc]) (use cm c in blast)
    moreover have "retires u (run_command E cm u)"
    proof (cases cm)
      case (AddComponent e t d)
      have "retires u (add_raw E e t (if d = [] then None else Some d) u)"
        by (rule add_remove_retires(1) [OF u p(1)]) (use len cm AddComponent in \<open>auto split: if_splits\<close>)
      then show ?thesis using AddComponent by simp
    next
      case (CustomCommand i d)
      then show ?thesis using passive_custom_step(2) [OF p(2) u] by (simp add: run_custom_command_def split: option.split)
    qed (use add_remove_retires(2) [OF u p(1)] queue_destroy_retires [OF u p(1)] cm c in auto)
    ultimately show ?thesis by simp
  qed
  have "wf_world (env_registry E) (fold (run_command E) cs ?w1) \<and> retires ?w1 (fold (run_command E) cs ?w1)"
    if "set cs \<subseteq> set (w_command_buffer w)" for cs
    using that
  proof (induction cs rule: rev_induct)
    case Nil
    then show ?case using w1 by simp
  next
    case (snoc cm cs)
    then show ?case using step [of cm "fold (run_command E) cs ?w1"] retires_trans by simp blast
  qed
  from this [OF subset_refl]
  have w2: "wf_world (env_registry E) (fold (run_command E) (w_command_buffer w) ?w1)"
    "retires ?w1 (fold (run_command E) (w_command_buffer w) ?w1)" by simp_all
  let ?w3 = "end_deferred_moves E (fold (run_command E) (w_command_buffer w) ?w1)"
  note w3 = end_deferred_moves_world [OF w2(1) cb] and r3 = end_deferred_retires [OF w2(1) p(1)]
  have "retires ?w3 (end_suppress ?w3)"
    using w3 by (intro retires_control [OF _ same_store_end_suppress, of "env_registry E"])
      (simp_all add: wf_world_def, simp_all add: end_suppress_def flush_invalidation_def)
  then have "retires w (end_suppress ?w3)" using retires_trans [OF r1 retires_trans [OF w2(2) retires_trans [OF r3]]] by blast
  then show ?thesis by (simp add: execute_commands_def Let_def)
qed

lemma clear_retires:
  assumes wf: "wf_world (env_registry E) w" and p: "passive_env E"
  shows "retires w (world_clear E w)"
proof -
  let ?w1 = "fold clear_step (env_order E (map fst (w_locations w))) w"
  let ?w2 = "(invalidate_cache ?w1)\<lparr>w_change_log := [], w_change_log_generation := w_change_log_generation (invalidate_cache ?w1) + 1\<rparr>"
  let ?w3 = "fst (dispatch E (mk_event Custom null_entity 0 ''world_cleared'' None) ?w2)"
  have c: "wf_world (env_registry E) (clear_step e u) \<and> retires u (clear_step e u)"
    if "wf_world (env_registry E) u" for e u
    using clear_step_world(1) [OF that, of e] unplace_free_retires(1) [OF that, of e]
    by (auto simp: clear_step_def split: option.split)
  have w1: "wf_world (env_registry E) ?w1 \<and> retires w ?w1" by (rule fold_retires [OF c wf])
  have st1: "wf_store (env_registry E) ?w1" using w1 by (simp add: wf_world_def)
  have s2: "same_store ?w1 ?w2" using same_store_trans [OF same_store_ops(4) same_store_updates(4)] .
  have r2: "retires ?w1 ?w2" by (rule retires_same [OF st1 s2]) (simp add: invalidate_cache_def ctl_def)
  have "retires ?w2 ?w3" by (rule retires_same [OF same_store_wf(1) [OF s2 st1] passive_dispatch_store [OF p]])
  then have "retires w ?w3" using retires_trans [OF conjunct2 [OF w1] retires_trans [OF r2]] by blast
  then show ?thesis by (simp add: world_clear_def Let_def)
qed

lemma set_entity_range_retires:
  assumes "wf_store reg w"
  shows "retires w (set_entity_range n w)"
  unfolding retires_def
proof (intro allI impI)
  fix x
  assume "retired w x"
  then show "retired (set_entity_range n w) x"
    using same_store_wf(2) [OF same_store_ops(13) assms, of n]
    unfolding retired_def by (simp add: set_entity_range_def resize_generations_def nth_append)
qed

lemma api_step_retires:
  assumes st: "api_step E w w'" and wf: "wf_world (env_registry E) w" and p: "passive_env E" "passive_custom E"
  shows "retires w w'"
proof -
  have ws: "wf_store (env_registry E) w" using wf by (simp add: wf_world_def)
  note ctrl = retires_control [OF ws]
  show ?thesis
    using st
  proof cases
    case create
    then show ?thesis using create_retires(1) [OF wf] by simp
  next
    case create_pooled
    then show ?thesis using create_retires(2) [OF wf] by simp
  next
    case (destroy e)
    then show ?thesis using destroy_retires(1) [OF wf p(1)] by simp
  next
    case (destroy_pooled e)
    then show ?thesis using destroy_retires(2) [OF wf p(1)] by simp
  next
    case (destroy_deferred e)
    then show ?thesis using queue_destroy_retires [OF wf p(1)] by simp
  next
    case (add d t e)
    then show ?thesis using add_remove_retires(1) [OF wf p(1)] by simp
  next
    case (remove e t)
    then show ?thesis using add_remove_retires(2) [OF wf p(1)] by simp
  next
    case (mark e t fld)
    show ?thesis
    proof (cases "is_alive w e \<and> has w e t")
      case False
      then show ?thesis using mark by (simp add: mark_changed_field_id)
    next
      case True
      obtain v where v: "mark_changed_field E e t fld w = fst (dispatch E (mk_event Changed e t fld None) v)"
        "wf_store (env_registry E) v" "content v = content w" "ctl v = ctl w"
        using mark_changed_core [OF ws conjunct1 [OF True] conjunct2 [OF True]] by blast
      have "retires w v" by (rule retires_ctl [OF v(4)]) (simp add: v(3))
      moreover have "retires v w'" unfolding mark(1) v(1) by (rule retires_same [OF v(2) passive_dispatch_store [OF p(1)]])
      ultimately show ?thesis by (rule retires_trans)
    qed
  next
    case (move a e)
    then show ?thesis using move_entity_wf(3,4) [OF ws move(2), of e] by (intro retires_ctl) simp_all
  next
    case (match q)
    obtain r v where m: "world_match q w = (r, v)" by fastforce
    note mr = world_match_result [OF ws m]
    show ?thesis using match m mr by (intro retires_ctl) simp_all
  next
    case commit_moves
    then show ?thesis using end_deferred_retires [OF wf p(1)] by simp
  next
    case execute
    then show ?thesis using execute_retires [OF wf p] by blast
  next
    case compact
    then show ?thesis using compact_store(2,3) [OF ws] by (intro retires_ctl) simp_all
  next
    case clear
    then show ?thesis using clear_retires [OF wf p(1)] by simp
  next
    case reset
    then show ?thesis using world_reset_world(2) [OF wf] by (intro retires_ids) (simp_all add: world_reset_def)
  next
    case (range n)
    then show ?thesis using set_entity_range_retires [OF ws] by simp
  next
    case (emit nm e pl)
    then show ?thesis using retires_same [OF ws passive_dispatch_store [OF p(1)]] by (simp add: emit_event_def case_prod_beta)
  next
    case unsuppress
    show ?thesis unfolding unsuppress
      by (rule ctrl [OF same_store_end_suppress]) (simp_all add: end_suppress_def flush_invalidation_def)
  qed (auto intro!: ctrl simp: begin_suppress_def begin_deferred_moves_def
      begin_iteration_def end_iteration_def cb_push_def set_changed_baseline_def register_custom_command_def)
qed

section \<open>Flushes that recreate ids\<close>

lemma slot_unused_frame:
  assumes "location_of w' = location_of w" "w_free_slots w' = w_free_slots w" "w_pool_slots w' = w_pool_slots w"
  shows "slot_unused w' e = slot_unused w e" "is_alive w' e = is_alive w e"
  by (simp_all add: slot_unused_def is_alive_def assms)

lemma push_pending_frame:
  "location_of (push_pending e op w) = location_of w" "w_free_slots (push_pending e op w) = w_free_slots w"
  "w_pool_slots (push_pending e op w) = w_pool_slots w" "w_defer_moves (push_pending e op w) = w_defer_moves w"
  by (simp_all add: push_pending_def queue_deferred_move_def location_of_def fun_eq_iff)

text \<open>Inside the window of a flush only \<open>AddEntity\<close> touches the entities or the slots.\<close>

lemma deferred_command_frame:
  assumes "w_defer_moves w" "\<And>e. c \<noteq> AddEntity e" "\<And>i d. c \<noteq> CustomCommand i d"
  shows "location_of (run_command E c w) = location_of w \<and> w_free_slots (run_command E c w) = w_free_slots w
    \<and> w_pool_slots (run_command E c w) = w_pool_slots w \<and> w_defer_moves (run_command E c w)"
proof (cases c)
  case (AddComponent e t d)
  then show ?thesis using assms(1)
    by (simp add: add_raw_def push_pending_frame split: option.split)
next
  case (RemoveComponent e t)
  then show ?thesis using assms(1) by (simp add: remove_component_def push_pending_frame)
next
  case (RemoveEntity e)
  then show ?thesis using assms(1)
    by (simp add: destroy_entity_deferred_def queue_deferred_move_def location_of_def fun_eq_iff)
qed (use assms in auto)


lemma preassigned_frame:
  fixes p :: u64
  assumes wf: "wf_store (env_registry E) w"
  defines "w' \<equiv> snd (create_entity_preassigned E p w)"
  shows "w_free_slots w' = w_free_slots w" "w_pool_slots w' = w_pool_slots w" "w_defer_moves w' = w_defer_moves w"
    "\<And>x. x \<noteq> Entity p \<Longrightarrow> location_of w' x = location_of w x"
    "\<And>x. slot x \<noteq> slot (Entity p) \<Longrightarrow> retired w x \<Longrightarrow> retired w' x"
proof -
  let ?f = "Entity p" let ?s = "unat (slot ?f)"
  let ?w1 = "if ?s \<ge> length (w_slot_generations w)
     then w\<lparr>w_slot_generations := resize_generations (?s + 1) (w_slot_generations w)\<rparr> else w"
  let ?w2 = "?w1\<lparr>w_slot_generations := (w_slot_generations ?w1)[?s := generation ?f]\<rparr>"
  have st1: "same_store w ?w1" by simp
  have st2: "same_store w ?w2" using same_store_trans [OF st1 same_store_updates(7)] .
  note st = same_store_wf [OF st2 wf] and stb = same_store_wf [OF st1 wf]
  have l: "location_of ?w1 = location_of w" "location_of ?w2 = location_of w"
    using st1 st2 by (simp_all only: same_store_def)
  have "w' = w \<or> w' = ?w1 \<or> location_of w ?f = None \<and> slot ?f \<noteq> 0xFFFFFFFF \<and> w' = place_entity E ?f ?w2"
  proof (cases "slot ?f = 0xFFFFFFFF \<or> K_MAX_SLOT \<le> ?s")
    case True
    then show ?thesis by (auto simp: w'_def create_entity_preassigned_def Let_def)
  next
    case False
    then have "create_entity_preassigned E p w =
      (if location_of ?w1 ?f \<noteq> None then (null_entity, ?w1) else (?f, place_entity E ?f ?w2))"
      by (simp only: create_entity_preassigned_def Let_def de_Morgan_disj if_False)
    then show ?thesis using False unfolding w'_def l(1) by (cases "location_of w ?f = None") simp_all
  qed
  then consider "w' = w" | "w' = ?w1" | "location_of w ?f = None" "slot ?f \<noteq> 0xFFFFFFFF" "w' = place_entity E ?f ?w2"
    by (elim disjE conjE)
  then have "w_free_slots w' = w_free_slots w \<and> w_pool_slots w' = w_pool_slots w \<and> w_defer_moves w' = w_defer_moves w
    \<and> (\<forall>x. x \<noteq> ?f \<longrightarrow> location_of w' x = location_of w x)
    \<and> (\<forall>x. slot x \<noteq> slot ?f \<longrightarrow> retired w x \<longrightarrow> retired w' x)"
  proof cases
    case 1
    then show ?thesis by simp
  next
    case 2
    have "retired ?w1 x" if "retired w x" for x
      using that stb(2) by (simp add: retired_def resize_generations_def nth_append)
    then show ?thesis unfolding 2 using l(1) by simp
  next
    case 3
    have f0: "?f \<noteq> null_entity" using entity_bool_slot [OF 3(2)] by (simp add: entity_bool_iff)
    note pl = place_entity_store [OF st(1) _ f0, unfolded l(2), OF 3(1)]
    note c = ctl_alloc [OF pl(5)]
    have "retired w' x" if "retired w x" "slot x \<noteq> slot ?f" for x
    proof -
      have "unat (slot x) \<noteq> ?s" using that(2) by (simp add: word_unat_eq_iff)
      moreover have "x \<noteq> ?f" using that(2) by auto
      ultimately show ?thesis unfolding 3(3) using that(1) c(1-3) pl(2) st(2)
        by (auto simp: retired_def resize_generations_def nth_append)
    qed
    then show ?thesis unfolding 3(3) using c(2,3,4) pl(4) l(2) by simp
  qed
  then show "w_free_slots w' = w_free_slots w" "w_pool_slots w' = w_pool_slots w" "w_defer_moves w' = w_defer_moves w"
    "\<And>x. x \<noteq> Entity p \<Longrightarrow> location_of w' x = location_of w x"
    "\<And>x. slot x \<noteq> slot (Entity p) \<Longrightarrow> retired w x \<Longrightarrow> retired w' x" by blast+
qed

lemma run_added_world:
  assumes "wf_world (env_registry E) w" "keeps_world E" "keeps_custom E" "ids_ready w cs" "w_defer_moves w"
  shows "wf_world (env_registry E) (fold (run_command E) cs w)"
  using assms
proof (induction cs arbitrary: w)
  case Nil
  then show ?case by simp
next
  case (Cons c cs)
  have "wf_world (env_registry E) (run_command E c w) \<and> ids_ready (run_command E c w) cs \<and> w_defer_moves (run_command E c w)"
  proof (cases "\<exists>e. c = AddEntity e")
    case False
    have f: "location_of (run_command E c w) = location_of w \<and> w_free_slots (run_command E c w) = w_free_slots w
      \<and> w_pool_slots (run_command E c w) = w_pool_slots w \<and> w_defer_moves (run_command E c w)"
      by (rule deferred_command_frame [OF Cons.prems(5)]) (use False Cons.prems(4) in \<open>auto simp: ids_ready_def\<close>)
    have "ids_ready w cs" using Cons.prems(4) by (auto simp: ids_ready_def added_ids_def)
    then show ?thesis
      using f slot_unused_frame [of "run_command E c w" w] run_command_world [OF Cons.prems(1-3)] False
      by (auto simp: ids_ready_def)
  next
    case True
    then obtain e where c: "c = AddEntity e" by blast
    have r: "ids_ready w cs" using Cons.prems(4) by (auto simp: ids_ready_def added_ids_def)
    show ?thesis
    proof (cases "is_alive w e")
      case True
      then show ?thesis using r Cons.prems by (simp add: c)
    next
      case False
      have e: "Entity (eid e) = e" by (cases e) simp
      have u: "slot_unused w e" using Cons.prems(4) False by (auto simp: ids_ready_def added_ids_def c)
      obtain e' w' where p: "create_entity_preassigned E (eid e) w = (e', w')" by fastforce
      have wf': "wf_world (env_registry E) w'"
        by (rule create_entity_preassigned_world(1) [OF Cons.prems(1) p]) (simp add: e u)
      have st: "wf_store (env_registry E) w" using Cons.prems(1) by (simp add: wf_world_def)
      note fr = preassigned_frame [OF st, where p = "eid e", unfolded p e snd_conv]
      have "is_alive w' x \<or> slot_unused w' x" if x: "x \<in> added_ids cs" for x
      proof (cases "x = e")
        case True
        have st': "wf_store (env_registry E) w'" using wf' by (simp add: wf_world_def)
        show ?thesis
        proof (cases "e' = null_entity")
          case True
          have "content w' = content w" by (rule create_entity_preassigned_world(3) [OF Cons.prems(1) p _ True]) (simp add: e u)
          then have "location_of w' y = None \<longleftrightarrow> location_of w y = None" for y by (simp add: content_None [symmetric])
          then show ?thesis using u \<open>x = e\<close> fr(1,2) by (auto simp: slot_unused_def)
        next
          case False
          then have "content w' e = Some Map.empty"
            using create_entity_preassigned_world(2) [OF Cons.prems(1) p _ False] e u by simp
          then show ?thesis using is_alive_content [OF st'] \<open>x = e\<close> by simp
        qed
      next
        case False
        have s: "slot x \<noteq> slot e" using Cons.prems(4) x False by (auto simp: ids_ready_def added_ids_def c)
        have "is_alive w x \<or> slot_unused w x" using r x by (simp add: ids_ready_def)
        moreover have "location_of w' y = location_of w y" if "slot y = slot x" for y
          using fr(4) [of y] s that by (cases "y = e") auto
        ultimately show ?thesis using fr(1,2) by (simp add: is_alive_def slot_unused_def) metis
      qed
      then show ?thesis using False wf' p r fr(3) Cons.prems(5) by (auto simp: c ids_ready_def)
    qed
  qed
  then show ?case using Cons.IH [OF _ Cons.prems(2,3)] by simp
qed

lemma execute_added_world:
  assumes "wf_world (env_registry E) w" "keeps_world E" "keeps_custom E" "ids_ready w (w_command_buffer w)"
  shows "wf_world (env_registry E) (execute_commands E w)"
proof (rule flush_world [OF assms(1,2)])
  fix v
  assume v: "wf_world (env_registry E) v" "same_store w v" "w_free_slots v = w_free_slots w"
    "w_pool_slots v = w_pool_slots w" "w_defer_moves v"
  have "location_of v = location_of w" using v(2) by (simp add: same_store_def)
  then have "ids_ready v (w_command_buffer w)"
    using assms(4) slot_unused_frame [of v w] v(3,4) by (simp add: ids_ready_def)
  then show "wf_world (env_registry E) (fold (run_command E) (w_command_buffer w) v)"
    by (rule run_added_world [OF v(1) assms(2,3) _ v(5)])
qed

text \<open>
  Runs that leave one slot to the allocator: any number of calls, and preassigned ids in other,
  unused slots.
\<close>

inductive run_outside :: "('u, 'v) env \<Rightarrow> u32 \<Rightarrow> 'u world \<Rightarrow> 'u world \<Rightarrow> bool" for E s where
  stop: "run_outside E s w w"
| call: "api_step E w v \<Longrightarrow> run_outside E s v w' \<Longrightarrow> run_outside E s w w'"
| preassign: "slot_unused w (Entity p) \<Longrightarrow> slot (Entity p) \<noteq> s \<Longrightarrow>
    run_outside E s (snd (create_entity_preassigned E p w)) w' \<Longrightarrow> run_outside E s w w'"

lemma reachable_wf:
  assumes "reachable E w" "keeps_world E" "keeps_custom E"
  shows "wf_world (env_registry E) w"
  using assms
proof induction
  case (start u)
  show ?case by (rule new_world_wf(1))
next
  case (step w w')
  then show ?case using api_step_wf_world by blast
next
  case (preassign w p)
  then show ?case using create_entity_preassigned_world(1) [of E w p] by (metis prod.collapse)
next
  case (recreate w)
  then show ?case using execute_added_world by blast
qed

lemma run_retired:
  assumes "run_outside E s w w'" "wf_world (env_registry E) w" "passive_env E" "passive_custom E"
    and "retired w e" "slot e = s"
  shows "wf_world (env_registry E) w' \<and> retired w' e"
  using assms
proof induction
  case (stop w)
  then show ?case by simp
next
  case (call w v w')
  have kc: "keeps_custom E" using passive_custom_step(1) [OF call.prems(3)] by (simp add: keeps_custom_def)
  have v: "wf_world (env_registry E) v"
    by (rule api_step_wf_world [OF call.hyps(1) call.prems(1) passive_keeps_world [OF call.prems(2)] kc])
  have "retired v e" using api_step_retires [OF call.hyps(1) call.prems(1-3)] call.prems(4) by (simp add: retires_def)
  then show ?case using call.IH [OF v call.prems(2,3)] call.prems(5) by blast
next
  case (preassign w p w')
  have st: "wf_store (env_registry E) w" using preassign.prems(1) by (simp add: wf_world_def)
  have v: "wf_world (env_registry E) (snd (create_entity_preassigned E p w))"
    using create_entity_preassigned_world(1) [OF preassign.prems(1) _ preassign.hyps(1)] by (metis prod.collapse)
  have "retired (snd (create_entity_preassigned E p w)) e"
    by (rule preassigned_frame(5) [OF st]) (use preassign.hyps(2) preassign.prems(4,5) in auto)
  then show ?case using preassign.IH [OF v preassign.prems(2,3)] preassign.prems(5) by blast
qed

end
