(* ===== verification/WorldSpec.thy ===== *)
theory WorldSpec
  imports Reach
begin

text \<open>
  What a world promises its clients, over the abstraction \<open>content\<close> (entity to component type to
  bytes): the properties of \<open>World\<close>, \<open>QueryCache\<close> and \<open>CommandBuffer\<close>, each with a concrete
  instance on a small world of two component types.
\<close>

section \<open>A small world\<close>

definition sample_schema :: "string \<Rightarrow> ctype \<Rightarrow> nat \<Rightarrow> component_schema" where
  "sample_schema n i k = \<lparr>cs_type_name = n, cs_type_id = i, cs_size = k, cs_alignment = 1, cs_fields = [],
     cs_is_networked = False\<rparr>"

definition sample_registry :: registry where
  "sample_registry = \<lparr>rg_schemas = [sample_schema ''Pos'' 1 2, sample_schema ''Hp'' 2 1],
     rg_id_by_name = [''Pos'' \<mapsto> 1, ''Hp'' \<mapsto> 2]\<rparr>"

text \<open>The callbacks count their calls.\<close>

definition sample_env :: "(nat, unit) env" where
  "sample_env = \<lparr>env_registry = sample_registry, env_heap = (\<lambda>n k. 0),
     env_callback = (\<lambda>f ev w. w\<lparr>w_client := w_client w + 1\<rparr>),
     env_custom = (\<lambda>f d w. w\<lparr>w_client := w_client w + 1\<rparr>), env_order = (\<lambda>es. es)\<rparr>"

definition e1 :: entity where
  "e1 = make_entity 0 0"

definition sample_world :: "nat world" where
  "sample_world = snd (create_entity sample_env (new_world sample_env 0))"

lemma sample_env_ok:
  "passive_env sample_env" "passive_custom sample_env" "keeps_world sample_env" "keeps_custom sample_env"
  "visits_all sample_env"
proof -
  show p: "passive_env sample_env" "passive_custom sample_env"
    by (auto simp: passive_env_def passive_custom_def sample_env_def)
  show "keeps_world sample_env" by (rule passive_keeps_world [OF p(1)])
  show "keeps_custom sample_env" using passive_custom_step(1) [OF p(2)] by (simp add: keeps_custom_def)
  show "visits_all sample_env" by (simp add: visits_all_def sample_env_def)
qed

lemma sample_schemas:
  "schema_of (env_registry sample_env) 1 = Some (sample_schema ''Pos'' 1 2)"
  "schema_of (env_registry sample_env) 2 = Some (sample_schema ''Hp'' 2 1)"
  "schema_size sample_env 1 = 2" "schema_size sample_env 2 = 1"
  by (simp_all add: schema_size_def schema_of_def sample_env_def sample_registry_def sample_schema_def
      INVALID_COMPONENT_TYPE_def)

lemma e1_ok: "e1 \<noteq> null_entity" "entity_bool e1" "slot e1 = 0"
proof -
  have "(0 :: u32) \<noteq> 0xFFFFFFFF" by simp
  from make_entity_bool [OF this] show "entity_bool e1" "e1 \<noteq> null_entity" by (auto simp: e1_def entity_bool_iff)
  show "slot e1 = 0" by (simp add: e1_def make_entity_fields)
qed

lemma sample_create: "create_entity sample_env (new_world sample_env 0) = (e1, sample_world)"
proof -
  have "fst (create_entity sample_env (new_world sample_env 0)) = e1"
    by (simp add: create_entity_def alloc_entity_id_def new_world_fields Let_def e1_def case_prod_beta)
  then show ?thesis by (simp add: sample_world_def prod_eq_iff)
qed

lemma sample_world_ok:
  "wf_world (env_registry sample_env) sample_world" "wf_store (env_registry sample_env) sample_world"
  "content sample_world = [e1 \<mapsto> Map.empty]" "quiescent sample_world" "\<not> in_iteration sample_world"
  "\<not> w_defer_moves sample_world" "reachable sample_env sample_world" "is_alive sample_world e1"
proof -
  note c = create_entity_world [OF new_world_wf(1) sample_create]
  show w: "wf_world (env_registry sample_env) sample_world" by (rule c(1))
  then show st: "wf_store (env_registry sample_env) sample_world" by (simp add: wf_world_def)
  show cn: "content sample_world = [e1 \<mapsto> Map.empty]" using c(2) e1_ok(1) by (simp add: new_world_wf(2))
  have "w_pending_ops (place_entity E e v) = w_pending_ops v \<and> w_pending_destroy (place_entity E e v) = w_pending_destroy v
    \<and> w_deferred_entities (place_entity E e v) = w_deferred_entities v \<and> w_deferred_set (place_entity E e v) = w_deferred_set v
    \<and> w_iteration_depth (place_entity E e v) = w_iteration_depth v \<and> w_defer_moves (place_entity E e v) = w_defer_moves v"
    for E :: "(nat, unit) env" and e v
    by (simp add: place_entity_def Let_def case_prod_beta invalidate_cache_def set_location_def set_arch_def)
  then have f: "w_pending_ops sample_world = w_pending_ops (new_world sample_env 0)"
    "w_pending_destroy sample_world = w_pending_destroy (new_world sample_env 0)"
    "w_deferred_entities sample_world = w_deferred_entities (new_world sample_env 0)"
    "w_deferred_set sample_world = w_deferred_set (new_world sample_env 0)"
    "w_iteration_depth sample_world = w_iteration_depth (new_world sample_env 0)"
    "w_defer_moves sample_world = w_defer_moves (new_world sample_env 0)"
    by (simp_all add: sample_world_def create_entity_def alloc_entity_id_def new_world_fields case_prod_beta Let_def)
  show "quiescent sample_world" using new_world_fields(18) [of sample_env 0] by (simp add: quiescent_def f)
  show "\<not> in_iteration sample_world" "\<not> w_defer_moves sample_world" by (simp_all add: in_iteration_def f new_world_fields)
  show "reachable sample_env sample_world"
    unfolding sample_world_def by (rule reachable.step [OF reachable.start api_step.create])
  show "is_alive sample_world e1" using is_alive_content [OF st] cn by simp
qed

section \<open>Invariants and handles\<close>

text \<open>
  C1. The public calls of \<open>api_step\<close> (creation, pooling, immediate and deferred destruction, add,
  remove, mark, move, queries, iteration and deferred windows, command buffers, observers,
  compact, clear, reset, range, events) in any order, together with preassigned ids and
  recreating flushes that only use free-standing slots (\<open>slot_unused\<close>, \<open>ids_ready\<close>), keep the world
  well formed: a location leads to the row that holds the entity, the caches and columns are
  coherent, and no two live entities share a slot. The guard on foreign ids is needed: the code
  accepts an id in a slot that is free or taken by another generation (world.cpp:59) and the
  claim fails there. Snapshot loads and network packets are not among the calls here.
\<close>

theorem reachable_worlds_sound:
  assumes "reachable E w" "keeps_world E" "keeps_custom E"
  shows "wf_store (env_registry E) w \<and> wf_alloc w
    \<and> (\<forall>e l. location_of w e = Some l \<longrightarrow> loc_row l < length (a_entities (arch w (loc_archetype l)))
          \<and> a_entities (arch w (loc_archetype l)) ! loc_row l = e)
    \<and> (\<forall>e f. is_alive w e \<longrightarrow> is_alive w f \<longrightarrow> slot e = slot f \<longrightarrow> e = f)"
proof -
  have wf: "wf_store (env_registry E) w" "wf_alloc w" using reachable_wf [OF assms] by (simp_all add: wf_world_def)
  have "e = f" if "is_alive w e" "is_alive w f" "slot e = slot f" for e f
  proof -
    have "valid_id w e" "valid_id w f" using that(1,2) wf(2) by (auto simp: is_alive_def wf_alloc_def)
    then show ?thesis using valid_id_unique [OF wf(2)] that(3) by blast
  qed
  then show ?thesis using wf wf_locationD(5,6) [OF wf(1)] by blast
qed

theorem reachable_worlds_sound_witness:
  "let l = the (location_of sample_world e1) in
     a_entities (arch sample_world (loc_archetype l)) ! loc_row l = e1 \<and> wf_alloc sample_world"
proof -
  obtain l where "location_of sample_world e1 = Some l" using sample_world_ok(8) by (auto simp: is_alive_def)
  then show ?thesis using reachable_worlds_sound [OF sample_world_ok(7) sample_env_ok(3,4)] by simp
qed

text \<open>
  C2. A destroyed handle stays dead: after \<open>destroy_entity\<close> on a live entity, no sequence of the
  calls of \<open>api_step\<close> and of preassigned creations in other, unused slots makes the same id alive
  again or gives access to a component through it, although its slot is reused. Observers and
  custom commands are passive (they do not change entities), and the calls that take an id from
  outside are left out where they may name that slot: the code revives the id when it is
  preassigned again, recreated by \<open>AddEntity\<close>, or named by a loaded snapshot or a packet.
\<close>

theorem destroyed_handle_stays_dead:
  assumes "reachable E w" "passive_env E" "passive_custom E" "is_alive w e" "\<not> in_iteration w"
    and "run_outside E (slot e) (destroy_entity E e w) w'"
  shows "\<not> is_alive w' e \<and> get_raw w' e t = None \<and> \<not> has w' e t"
proof -
  have kc: "keeps_custom E" using passive_custom_step(1) [OF assms(3)] by (simp add: keeps_custom_def)
  note wf = reachable_wf [OF assms(1) passive_keeps_world [OF assms(2)] kc]
  have st: "wf_store (env_registry E) w" using wf by (simp add: wf_world_def)
  have "content w e \<noteq> None" using is_alive_content [OF st] assms(4) by simp
  then have r: "retired (destroy_entity E e w) e" by (rule destroy_retires(3) [OF wf assms(2,5)])
  have d: "wf_world (env_registry E) (destroy_entity E e w)"
    by (rule destroy_entity_world(1) [OF wf passive_keeps_world [OF assms(2)]])
  have "content w' e = None" using run_retired [OF assms(6) d assms(2,3) r refl] by (simp add: retired_def)
  then show ?thesis by (simp add: content_None is_alive_def get_raw_def has_def)
qed

theorem destroyed_handle_stays_dead_witness:
  "let w = destroy_entity sample_env e1 sample_world in
     \<not> is_alive (snd (create_entity sample_env w)) e1 \<and> has (snd (create_entity sample_env w)) e1 1 = False"
proof -
  have "run_outside sample_env (slot e1) (destroy_entity sample_env e1 sample_world)
      (snd (create_entity sample_env (destroy_entity sample_env e1 sample_world)))"
    by (rule run_outside.call [OF api_step.create run_outside.stop])
  from destroyed_handle_stays_dead [OF sample_world_ok(7) sample_env_ok(1,2) sample_world_ok(8,5) this]
  show ?thesis by simp
qed

text \<open>
  C3. Creation succeeds exactly while an id is left, a freed slot or one below the limit of
  2^32 - 2 slots; then the new id was not alive, it is alive with no component afterwards, and
  nothing else changes. With no id left the result is the null entity and the world is
  unchanged. The world stays well formed.
\<close>

theorem create_entity_fresh:
  assumes "wf_world (env_registry E) w" "create_entity E w = (e, w')"
  shows "wf_world (env_registry E) w'
    \<and> (e = null_entity \<longleftrightarrow> w_free_slots w = [] \<and> 0xFFFFFFFE \<le> length (w_slot_generations w))
    \<and> (if e = null_entity then w' = w
       else \<not> is_alive w e \<and> is_alive w' e \<and> content w' = (content w)(e \<mapsto> Map.empty))"
proof -
  have a: "wf_alloc w" using assms(1) by (simp add: wf_world_def)
  have n: "e = null_entity \<longleftrightarrow> w_free_slots w = [] \<and> 0xFFFFFFFE \<le> length (w_slot_generations w)"
    using create_entity_null [OF a assms(2)] .
  show ?thesis
  proof (cases "e = null_entity")
    case True
    then show ?thesis using create_entity_cases [OF assms] assms(1) n by auto
  next
    case False
    note c = create_entity_world [OF assms]
    have st: "wf_store (env_registry E) w" "wf_store (env_registry E) w'" using assms(1) c(1) by (simp_all add: wf_world_def)
    show ?thesis
      by (intro conjI c(1) n) (use c(2) [OF False] False st in \<open>simp add: is_alive_content\<close>)
  qed
qed

theorem create_entity_fresh_witness:
  "content (snd (create_entity sample_env (new_world sample_env 0))) = [e1 \<mapsto> Map.empty]"
  using create_entity_fresh [OF new_world_wf(1) sample_create] e1_ok(1) by (simp add: sample_create new_world_wf(2))

section \<open>Component operations\<close>

lemma add_raw_existing:
  assumes wf: "wf_store (env_registry E) w" and p: "passive_env E" and l: "location_of w e = Some l"
    and s: "schema_of (env_registry E) t = Some s" and m: "content w e = Some m" "m t \<noteq> None" "\<not> w_defer_moves w"
    and d: "case d of Some bs \<Rightarrow> cs_size s \<le> length bs | None \<Rightarrow> True"
  shows "content (add_raw E e t d w) = (content w)(e \<mapsto> m(t \<mapsto> value_bytes s d))"
proof -
  have al: "is_alive w e" using is_alive_content [OF wf] m(1) by simp
  have h: "t \<in> set (a_component_ids (arch w (loc_archetype l)))"
    using cell_dom [OF wf l, of t] m(1,2) l by (auto simp: content_def)
  let ?v = "write_component e t (loc_archetype l) (loc_row l) (value_bytes s d) w"
  note wr = write_component_store [OF wf l h s value_bytes_length(1) [of s d]]
  have "add_raw E e t d w = notify E Changed e t ?v"
    using add_raw_eq [OF l al s m(3)] h has_ids [OF wf l] by simp
  then have "content (add_raw E e t d w) = content ?v"
    using same_store_wf(2) [OF notify_store(2) [OF p] wr(1)] by simp
  then show ?thesis using wr(5,6) value_bytes_length(2) [OF d] m(1) by (auto simp: fun_eq_iff)
qed

text \<open>
  C4. \<open>add_raw\<close> outside a deferred window, on every branch: a dead entity or an unregistered type
  changes nothing; during iteration an absent component is refused and a present one is
  overwritten in place; otherwise the component has the given bytes (zero bytes for a null
  pointer), every other component and entity keeps its data through the archetype move.
\<close>

theorem add_raw_sets_component:
  assumes "wf_store (env_registry E) w" "passive_env E" "\<not> w_defer_moves w"
    and "\<forall>bs. d = Some bs \<longrightarrow> schema_size E t \<le> length bs"
  shows "content (add_raw E e t d w) =
    (case (content w e, schema_of (env_registry E) t) of
       (Some m, Some s) \<Rightarrow> if in_iteration w \<and> m t = None then content w
                          else (content w)(e \<mapsto> m(t \<mapsto> value_bytes s d))
     | _ \<Rightarrow> content w)"
proof (cases "content w e = None \<or> schema_of (env_registry E) t = None")
  case True
  then have "add_raw E e t d w = w" using is_alive_content [OF assms(1)] by (auto simp: add_raw_def)
  then show ?thesis using True by (auto split: option.split)
next
  case False
  then obtain m s where m: "content w e = Some m" and s: "schema_of (env_registry E) t = Some s" by auto
  then obtain l where l: "location_of w e = Some l" using content_None [of w e] by auto
  have len: "case d of Some bs \<Rightarrow> cs_size s \<le> length bs | None \<Rightarrow> True"
    using assms(4) by (cases d) (auto simp: schema_size_def s)
  have al: "is_alive w e" using is_alive_content [OF assms(1)] m by simp
  show ?thesis
  proof (cases "in_iteration w")
    case False
    then show ?thesis using add_raw_content(1) [OF assms(1,2) l s assms(3) False len] m s by simp
  next
    case it: True
    show ?thesis
    proof (cases "m t = None")
      case True
      then have "t \<notin> set (a_component_ids (arch w (loc_archetype l)))"
        using cell_dom [OF assms(1) l, of t] m l by (auto simp: content_def)
      then have "add_raw E e t d w = w" using add_raw_eq [OF l al s assms(3)] has_ids [OF assms(1) l] it by simp
      then show ?thesis using True it m s by simp
    next
      case False
      then show ?thesis using add_raw_existing [OF assms(1,2) l s m False assms(3) len] m s by auto
    qed
  qed
qed

theorem add_raw_sets_component_witness:
  "content (add_raw sample_env e1 1 (Some [10, 20]) sample_world) = [e1 \<mapsto> [1 \<mapsto> [10, 20]]]"
  using add_raw_sets_component [OF sample_world_ok(2) sample_env_ok(1) sample_world_ok(6), of "Some [10, 20]" 1 e1]
  by (simp add: sample_world_ok(3,5) sample_schemas value_bytes_def sample_schema_def)

text \<open>
  C5. \<open>remove_component\<close> outside a deferred window removes exactly the component: the entity keeps
  the bytes of its other components through the archetype move, the other entities are
  untouched; for a dead entity, an absent component or during iteration nothing changes.
\<close>

theorem remove_component_drops_component:
  assumes "wf_store (env_registry E) w" "passive_env E" "\<not> w_defer_moves w"
  shows "content (remove_component E e t w) =
    (case content w e of
       Some m \<Rightarrow> if in_iteration w then content w else (content w)(e \<mapsto> m(t := None))
     | None \<Rightarrow> content w)"
proof (cases "content w e")
  case None
  then have "remove_component E e t w = w" using is_alive_content [OF assms(1)] by (auto simp: remove_component_def)
  then show ?thesis using None by simp
next
  case (Some m)
  then obtain l where l: "location_of w e = Some l" using content_None [of w e] by auto
  have al: "is_alive w e" using is_alive_content [OF assms(1)] Some by simp
  show ?thesis
  proof (cases "in_iteration w")
    case True
    then have "remove_component E e t w = w" using al assms(3) by (simp add: remove_component_def Let_def)
    then show ?thesis using True Some by simp
  next
    case False
    then show ?thesis using remove_component_content(1) [OF assms(1,2) l assms(3) False] Some by simp
  qed
qed

theorem remove_component_drops_component_witness:
  "content (remove_component sample_env e1 1 sample_world) = [e1 \<mapsto> Map.empty]"
  using remove_component_drops_component [OF sample_world_ok(2) sample_env_ok(1) sample_world_ok(6), of e1 1]
  by (simp add: sample_world_ok(3,5))

text \<open>
  The typed access path: \<open>get_raw\<close> returns a pointer exactly for the components of a live
  entity, and the row it points to holds the bytes the component was last given.
\<close>

theorem get_raw_reads_component:
  assumes "wf_store reg w"
  shows "(case get_raw w e t of
      None \<Rightarrow> \<not> has w e t \<and> (\<forall>m. content w e = Some m \<longrightarrow> m t = None)
    | Some p \<Rightarrow> has w e t \<and> (\<exists>m. content w e = Some m \<and> m t = Some (load_row w p)))"
  using get_raw_content [OF assms, of e t] has_content [OF assms, of e t]
  by (cases "get_raw w e t") auto

theorem get_raw_reads_component_witness:
  "get_raw sample_world e1 1 = None"
  using get_raw_reads_component [OF sample_world_ok(2), of e1 1] sample_world_ok(3)
    has_content [OF sample_world_ok(2), of e1 1] by (auto split: option.splits)

section \<open>Command buffers and deferred windows\<close>

lemma flush_content:
  assumes "wf_store (env_registry E) w" "passive_env E" "quiescent w" "\<not> in_iteration w"
    and "w_command_buffer w \<noteq> []" "plain_commands E (w_command_buffer w)"
  shows "content (execute_commands E w) = fold (abs_command E) (w_command_buffer w) (content w)
    \<and> wf_store (env_registry E) (execute_commands E w) \<and> quiescent (execute_commands E w)
    \<and> w_command_buffer (execute_commands E w) = [] \<and> \<not> w_defer_moves (execute_commands E w)"
proof -
  let ?w1 = "begin_deferred_moves (begin_suppress (w\<lparr>w_command_buffer := []\<rparr>))"
  let ?w2 = "fold (run_command E) (w_command_buffer w) ?w1"
  let ?w3 = "end_deferred_moves E ?w2"
  note s = start_queueing [OF assms(1,3,4)]
  have r: "queueing E ?w2 \<and> queued_view E ?w2 = fold (abs_command E) (w_command_buffer w) (queued_view E ?w1)"
    by (rule run_commands_queueing [OF s(1) assms(6)]) (simp add: s(4))
  then have q2: "queueing E ?w2" by blast
  note d = end_deferred_content [OF q2 assms(2)]
  note e = same_store_wf [OF same_store_end_suppress d(2)]
  have eq: "execute_commands E w = end_suppress ?w3"
    using assms(4,5) by (simp add: execute_commands_def Let_def)
  have "quiescent (end_suppress ?w3)" "w_command_buffer (end_suppress ?w3) = []" "\<not> w_defer_moves (end_suppress ?w3)"
    using d(3-5) q2 by (simp_all add: end_suppress_def flush_invalidation_def quiescent_def queueing_def)
  then show ?thesis unfolding eq using e d(1) r s(3) by simp
qed

subsection \<open>What a flush computes\<close>

text \<open>
  What a flush really does with the removals: an entity that exists when a \<open>RemoveEntity\<close> for it
  is reached is doomed; the other commands run in order, and the doomed entities go at the end,
  whatever the buffer does with them later.
\<close>

fun doomed :: "('u, 'v) env \<Rightarrow> (entity \<rightharpoonup> (ctype \<rightharpoonup> byte list)) \<Rightarrow> command list \<Rightarrow> entity set" where
  "doomed E K [] = {}"
| "doomed E K (RemoveEntity e # cs) = (if K e = None then {} else {e}) \<union> doomed E K cs"
| "doomed E K (c # cs) = doomed E (abs_command E c K) cs"

fun is_removal :: "command \<Rightarrow> bool" where
  "is_removal (RemoveEntity e) = True"
| "is_removal c = False"

definition flushed :: "('u, 'v) env \<Rightarrow> command list \<Rightarrow> (entity \<rightharpoonup> (ctype \<rightharpoonup> byte list)) \<Rightarrow> (entity \<rightharpoonup> (ctype \<rightharpoonup> byte list))" where
  "flushed E cs K = (\<lambda>e. if e \<in> doomed E K cs then None
     else fold (abs_command E) (filter (\<lambda>c. \<not> is_removal c) cs) K e)"

definition sized_commands :: "('u, 'v) env \<Rightarrow> command list \<Rightarrow> bool" where
  "sized_commands E cs \<longleftrightarrow> (\<forall>e t d. AddComponent e t d \<in> set cs \<longrightarrow> d = [] \<or> schema_size E t \<le> length d)"

text \<open>The queued operations, without the removals.\<close>

definition live_view :: "('u, 'v) env \<Rightarrow> 'u world \<Rightarrow> entity \<rightharpoonup> (ctype \<rightharpoonup> byte list)" where
  "live_view E w e = map_option (fold (apply_op E) (queued_ops w e)) (content w e)"

lemma queued_view_live: "queued_view E w = (\<lambda>e. if e \<in> w_pending_destroy w then None else live_view E w e)"
  by (simp add: queued_view_def live_view_def fun_eq_iff)

lemma live_view_None: "live_view E w e = None \<longleftrightarrow> content w e = None"
  by (simp add: live_view_def)

lemma push_pending_live:
  assumes "content (push_pending e op w) = content w" "content w e = Some m"
  shows "live_view E (push_pending e op w) = (live_view E w)(e \<mapsto> apply_op E op (the (live_view E w e)))"
  by (auto simp: live_view_def fun_eq_iff push_pending_fields(1) assms)

lemma run_command_live:
  assumes q: "queueing E w" and pl: "sized_commands E [c]" and pc: "passive_custom E"
  shows "queueing E (run_command E c w)
    \<and> live_view E (run_command E c w) = (if is_removal c then live_view E w else abs_command E c (live_view E w))
    \<and> w_pending_destroy (run_command E c w) = w_pending_destroy w \<union> doomed E (live_view E w) [c]"
proof -
  have wf: "wf_store (env_registry E) w" and dm: "w_defer_moves w" using q by (simp_all add: queueing_def)
  note alive = is_alive_content [OF wf]
  show ?thesis
  proof (cases c)
    case c: (AddComponent e t d)
    show ?thesis
    proof (cases "content w e = None \<or> schema_of (env_registry E) t = None")
      case True
      then have r: "run_command E c w = w" using alive by (auto simp: c add_raw_def)
      have "abs_command E c (live_view E w) = live_view E w"
        using True live_view_None [of E w e] by (auto simp: c split: option.split)
      then show ?thesis using q r by (simp add: c)
    next
      case False
      then obtain m s where m: "content w e = Some m" and s: "schema_of (env_registry E) t = Some s" by auto
      let ?op = "\<lparr>po_type = t, po_add = True, po_data = (if d = [] then [] else take (cs_size s) d)\<rparr>"
      have r: "run_command E c w = push_pending e ?op w"
        using alive m s dm by (simp add: c add_raw_def)
      have ss: "schema_size E t = cs_size s" by (simp add: schema_size_def s)
      have ex: "exact_ops E [?op]" using pl by (auto simp: c exact_ops_def ss sized_commands_def)
      have b: "apply_op E ?op m' = m'(t \<mapsto> value_bytes s (if d = [] then None else Some d))" for m'
        using ss by (auto simp: apply_op_def op_bytes_def op_data_def value_bytes_def)
      have "po_add ?op \<Longrightarrow> \<exists>s. schema_of (env_registry E) (po_type ?op) = Some s \<and> length (po_data ?op) \<le> cs_size s"
        using s by simp
      note p = push_pending_queueing [OF q m this ex]
      have c2: "content (push_pending e ?op w) = content w" using p(2) by simp
      obtain k where k: "live_view E w e = Some k" using m live_view_None [of E w e] by auto
      have "abs_command E c (live_view E w) = (live_view E w)(e \<mapsto> apply_op E ?op k)"
        unfolding b by (simp add: c s k)
      moreover have "live_view E (run_command E c w) = (live_view E w)(e \<mapsto> apply_op E ?op k)"
        unfolding r push_pending_live [OF c2 m] k option.sel ..
      moreover have "queueing E (run_command E c w)" "w_pending_destroy (run_command E c w) = w_pending_destroy w"
        unfolding r using p(1,4) by simp_all
      ultimately show ?thesis by (simp only: c is_removal.simps doomed.simps) simp
    qed
  next
    case c: (RemoveComponent e t)
    show ?thesis
    proof (cases "content w e")
      case None
      then have "run_command E c w = w" using alive by (auto simp: c remove_component_def)
      moreover have "abs_command E c (live_view E w) = live_view E w" using None live_view_None [of E w e] by (simp add: c)
      ultimately show ?thesis using q by (simp add: c)
    next
      case m: (Some m)
      let ?op = "\<lparr>po_type = t, po_add = False, po_data = []\<rparr>"
      have r: "run_command E c w = push_pending e ?op w" using alive m dm by (simp add: c remove_component_def)
      have ex: "exact_ops E [?op]" by (simp add: exact_ops_def)
      note p = push_pending_queueing [OF q m _ ex, simplified]
      obtain k where k: "live_view E w e = Some k" using m live_view_None [of E w e] by auto
      have "abs_command E c (live_view E w) = (live_view E w)(e \<mapsto> apply_op E ?op k)"
        by (simp add: c apply_op_def k)
      then show ?thesis using p r push_pending_live [OF p(2) m, where E = E] k by (simp add: c)
    qed
  next
    case c: (AddEntity e)
    show ?thesis
    proof (cases "content w e")
      case None
      let ?w' = "snd (create_entity_preassigned E (eid e) w)"
      have r: "run_command E c w = ?w'" using None alive by (simp add: c)
      note cs = create_preassigned_store [OF wf None]
      have qo: "queued_ops ?w' = queued_ops w" by (simp add: queued_ops_def fun_eq_iff cs(3))
      have "e \<notin> w_deferred_set w" using q None unfolding queueing_def by blast
      then have "w_pending_ops w e = None" using q unfolding queueing_def by blast
      then have "live_view E ?w' = abs_command E c (live_view E w)"
        using live_view_None [of E w e] None by (auto simp: live_view_def fun_eq_iff qo cs(2) queued_ops_def c)
      then show ?thesis using queue_create_queueing [OF q None] unfolding r by (simp add: c)
    next
      case (Some m)
      then have r: "run_command E c w = w" using alive by (simp add: c)
      have "abs_command E c (live_view E w) = live_view E w" using Some live_view_None [of E w e] by (auto simp: c)
      then show ?thesis using q r by (simp add: c)
    qed
  next
    case c: (RemoveEntity e)
    show ?thesis
    proof (cases "content w e")
      case None
      then have "run_command E c w = w" using alive dm by (simp add: c destroy_entity_deferred_def)
      then show ?thesis using q None live_view_None [of E w e] by (simp add: c)
    next
      case m: (Some m)
      let ?w' = "queue_deferred_move e (w\<lparr>w_pending_destroy := insert e (w_pending_destroy w)\<rparr>)"
      have r: "run_command E c w = ?w'"
        using alive m dm by (simp add: c destroy_entity_deferred_def)
      note d = queue_destroy_queueing [OF q m]
      have "queued_ops ?w' = queued_ops w" by (simp add: queue_deferred_move_def queued_ops_def fun_eq_iff)
      then have "live_view E ?w' = live_view E w" by (simp add: live_view_def fun_eq_iff d(2))
      then show ?thesis using d(1,4) m live_view_None [of E w e] unfolding r by (auto simp: c)
    qed
  next
    case c: (CustomCommand i d)
    obtain u where "run_command E c w = w \<or> run_command E c w = w\<lparr>w_client := u\<rparr>"
      using pc unfolding passive_custom_def
      by (cases "w_custom_commands w i") (simp_all add: c run_custom_command_def, blast+)
    moreover have "queueing E (w\<lparr>w_client := u\<rparr>) \<and> live_view E (w\<lparr>w_client := u\<rparr>) = live_view E w"
    proof -
      note s = same_store_wf [OF same_store_updates(20) [of w u] wf]
      have qo: "queued_ops (w\<lparr>w_client := u\<rparr>) = queued_ops w" by (simp add: queued_ops_def fun_eq_iff)
      have "in_iteration (w\<lparr>w_client := u\<rparr>) = in_iteration w" by (simp add: in_iteration_def)
      then show ?thesis using q s(1) unfolding queueing_def live_view_def fun_eq_iff qo s(2) by auto
    qed
    ultimately show ?thesis using q by (auto simp: c)
  qed
qed

lemma sized_commands_Cons: "sized_commands E (c # cs) \<longleftrightarrow> sized_commands E [c] \<and> sized_commands E cs"
  by (simp add: sized_commands_def) blast

lemma doomed_Cons:
  "doomed E K (c # cs) = doomed E K [c] \<union> doomed E (if is_removal c then K else abs_command E c K) cs"
  by (cases c) auto

lemma run_commands_live:
  assumes "queueing E w" "sized_commands E cs" "passive_custom E"
  shows "queueing E (fold (run_command E) cs w)
    \<and> live_view E (fold (run_command E) cs w) = fold (abs_command E) (filter (\<lambda>c. \<not> is_removal c) cs) (live_view E w)
    \<and> w_pending_destroy (fold (run_command E) cs w) = w_pending_destroy w \<union> doomed E (live_view E w) cs"
  using assms
proof (induction cs arbitrary: w)
  case Nil
  then show ?case by simp
next
  case (Cons c cs)
  have sz: "sized_commands E [c]" "sized_commands E cs" using Cons.prems(2) sized_commands_Cons by blast+
  note r = run_command_live [OF Cons.prems(1) sz(1) Cons.prems(3)]
  have "queueing E (run_command E c w)" using r by blast
  note ih = Cons.IH [OF this sz(2) Cons.prems(3)]
  show ?case using ih r by (subst doomed_Cons) auto
qed

lemma flush_refines:
  assumes "wf_store (env_registry E) w" "passive_env E" "passive_custom E" "quiescent w" "\<not> in_iteration w"
    and "w_command_buffer w \<noteq> []" "sized_commands E (w_command_buffer w)"
  shows "content (execute_commands E w) = flushed E (w_command_buffer w) (content w)
    \<and> wf_store (env_registry E) (execute_commands E w) \<and> quiescent (execute_commands E w)
    \<and> w_command_buffer (execute_commands E w) = [] \<and> \<not> w_defer_moves (execute_commands E w)"
proof -
  let ?w1 = "begin_deferred_moves (begin_suppress (w\<lparr>w_command_buffer := []\<rparr>))"
  let ?w2 = "fold (run_command E) (w_command_buffer w) ?w1"
  let ?w3 = "end_deferred_moves E ?w2"
  note s = start_queueing [OF assms(1,4,5)]
  have l1: "live_view E ?w1 = content w" using s(3,4) by (simp add: queued_view_live fun_eq_iff)
  note r = run_commands_live [OF s(1) assms(7,3), unfolded l1 s(4)]
  then have q2: "queueing E ?w2" by blast
  note d = end_deferred_content [OF q2 assms(2)]
  note e = same_store_wf [OF same_store_end_suppress d(2)]
  have eq: "execute_commands E w = end_suppress ?w3"
    using assms(5,6) by (simp add: execute_commands_def Let_def)
  have "queued_view E ?w2 = flushed E (w_command_buffer w) (content w)"
    using r by (simp add: queued_view_live flushed_def fun_eq_iff)
  moreover have "quiescent (end_suppress ?w3)" "w_command_buffer (end_suppress ?w3) = []" "\<not> w_defer_moves (end_suppress ?w3)"
    using d(3-5) q2 by (simp_all add: end_suppress_def flush_invalidation_def quiescent_def queueing_def)
  ultimately show ?thesis unfolding eq using e d(1) by simp
qed


text \<open>
  C6. What flushing the command buffer does, for every buffer whose add commands carry whole
  values, with passive observers and custom commands, although the code queues the effects and
  moves every entity once: the commands other than \<open>RemoveEntity\<close> take effect in order on the
  abstract world (entity to component to bytes), and every entity that existed when a
  \<open>RemoveEntity\<close> for it was reached is gone at the end, also when a later \<open>AddEntity\<close> names it (the
  recreation is lost). When no entity is added after its removal and there is no custom command,
  that is the commands performed in order. The world is well formed afterwards, the buffer and
  the deferral queues are empty, the window is closed.
\<close>

theorem execute_commands_refines:
  assumes "wf_store (env_registry E) w" "passive_env E" "passive_custom E" "quiescent w" "\<not> in_iteration w"
    and "w_command_buffer w \<noteq> []" "sized_commands E (w_command_buffer w)"
  shows "content (execute_commands E w) = flushed E (w_command_buffer w) (content w)
    \<and> (plain_commands E (w_command_buffer w) \<longrightarrow>
        flushed E (w_command_buffer w) (content w) = fold (abs_command E) (w_command_buffer w) (content w))
    \<and> wf_store (env_registry E) (execute_commands E w) \<and> quiescent (execute_commands E w)
    \<and> w_command_buffer (execute_commands E w) = [] \<and> \<not> w_defer_moves (execute_commands E w)"
  using flush_refines [OF assms] flush_content [OF assms(1,2,4-6)] by auto

definition sample_commands :: "command list" where
  "sample_commands = [AddComponent e1 1 [10, 20], RemoveComponent e1 1, AddComponent e1 2 [7]]"

lemma sample_effect:
  "fold (abs_command sample_env) sample_commands [e1 \<mapsto> Map.empty] = [e1 \<mapsto> [2 \<mapsto> [7]]]"
  by (simp add: sample_commands_def sample_schemas sample_schema_def value_bytes_def)

definition lost_commands :: "command list" where
  "lost_commands = [AddComponent e1 1 [10, 20], RemoveEntity e1, AddEntity e1, AddComponent e1 2 [7], CustomCommand 3 []]"

theorem execute_commands_refines_witness:
  "content (execute_commands sample_env (sample_world\<lparr>w_command_buffer := sample_commands\<rparr>)) = [e1 \<mapsto> [2 \<mapsto> [7]]]
   \<and> content (execute_commands sample_env (sample_world\<lparr>w_command_buffer := lost_commands\<rparr>)) = Map.empty"
proof -
  have sw: "content (execute_commands sample_env (sample_world\<lparr>w_command_buffer := cs\<rparr>))
      = flushed sample_env cs [e1 \<mapsto> Map.empty]
    \<and> (plain_commands sample_env cs \<longrightarrow> flushed sample_env cs [e1 \<mapsto> Map.empty]
        = fold (abs_command sample_env) cs [e1 \<mapsto> Map.empty])"
    if "cs \<noteq> []" "sized_commands sample_env cs" for cs
  proof -
    let ?w = "sample_world\<lparr>w_command_buffer := cs\<rparr>"
    note s = same_store_wf [OF same_store_updates(16) [of sample_world cs] sample_world_ok(2)]
    have "quiescent ?w" "\<not> in_iteration ?w" using sample_world_ok(4,5) by (simp_all add: quiescent_def in_iteration_def)
    from execute_commands_refines [OF s(1) sample_env_ok(1,2) this] show ?thesis
      using that s(2) by (simp add: sample_world_ok(3))
  qed
  have "sized_commands sample_env sample_commands" "sized_commands sample_env lost_commands"
    by (auto simp: sized_commands_def sample_commands_def lost_commands_def sample_schemas)
  note r = sw [OF _ this(1)] sw [OF _ this(2)]
  have "plain_commands sample_env sample_commands" by (simp add: sample_commands_def sample_schemas)
  moreover have "flushed sample_env lost_commands [e1 \<mapsto> Map.empty] = Map.empty"
    by (auto simp: flushed_def lost_commands_def sample_schemas fun_eq_iff)
  ultimately show ?thesis using r sample_effect by (simp add: sample_commands_def lost_commands_def)
qed

lemma run_command_immediate:
  assumes wf: "wf_store (env_registry E) w" and p: "passive_env E" and m: "\<not> w_defer_moves w" "\<not> in_iteration w"
    and pl: "plain_commands E (c # cs)" and na: "\<And>e. c \<noteq> AddEntity e"
  shows "wf_store (env_registry E) (run_command E c w) \<and> content (run_command E c w) = abs_command E c (content w)
    \<and> \<not> w_defer_moves (run_command E c w) \<and> \<not> in_iteration (run_command E c w)"
proof (cases c)
  case c: (AddComponent e t d)
  let ?d = "if d = [] then None else Some d"
  have r: "run_command E c w = add_raw E e t ?d w" by (simp add: c)
  show ?thesis
  proof (cases "content w e = None \<or> schema_of (env_registry E) t = None")
    case True
    then have "add_raw E e t ?d w = w" using is_alive_content [OF wf] by (auto simp: add_raw_def)
    then show ?thesis using True wf m by (auto simp: c split: option.split)
  next
    case False
    then obtain k s where k: "content w e = Some k" and s: "schema_of (env_registry E) t = Some s" by auto
    then obtain l where l: "location_of w e = Some l" using content_None [of w e] by auto
    have len: "case ?d of Some bs \<Rightarrow> cs_size s \<le> length bs | None \<Rightarrow> True"
      using pl by (auto simp: c schema_size_def s)
    note a = add_raw_content [OF wf p l s m len]
    have "wf_store (env_registry E) (add_raw E e t ?d w)" by (rule add_raw_wf [OF wf passive_keeps [OF p]])
    then show ?thesis unfolding r using a(1) ctl_alloc(4,12) [OF a(2)] m by (simp add: c k s)
  qed
next
  case c: (RemoveComponent e t)
  have wf': "wf_store (env_registry E) (remove_component E e t w)" by (rule remove_component_wf [OF wf passive_keeps [OF p]])
  show ?thesis
  proof (cases "location_of w e")
    case None
    then have "remove_component E e t w = w" "content w e = None"
      using is_alive_content [OF wf] content_None [of w e] by (auto simp: remove_component_def)
    then show ?thesis using wf m by (simp add: c)
  next
    case (Some l)
    obtain k where k: "content w e = Some k" using Some content_None [of w e] by auto
    note a = remove_component_content [OF wf p Some m, of t]
    show ?thesis using wf' a(1) ctl_alloc(4,12) [OF a(2)] m by (simp add: c k)
  qed
next
  case (AddEntity e)
  then show ?thesis using na by blast
next
  case c: (RemoveEntity e)
  have "run_command E c w = destroy_entity E e w" using m(1) by (simp add: c destroy_entity_deferred_def)
  moreover have "wf_store (env_registry E) (destroy_entity E e w)" by (rule destroy_entity_wf(1) [OF wf passive_keeps [OF p]])
  moreover note destroy_entity_content(1) [OF wf p m(2), of e] destroy_entity_frame [OF wf p, of e]
  ultimately show ?thesis using m by (simp add: c in_iteration_def)
next
  case (CustomCommand i d)
  then show ?thesis using pl by simp
qed

lemma run_commands_immediate:
  assumes "wf_store (env_registry E) w" "passive_env E" "\<not> w_defer_moves w" "\<not> in_iteration w"
    and "plain_commands E cs" "\<And>e. AddEntity e \<notin> set cs"
  shows "content (fold (run_command E) cs w) = fold (abs_command E) cs (content w)"
  using assms
proof (induction cs arbitrary: w)
  case Nil
  then show ?case by simp
next
  case (Cons c cs)
  have na: "\<And>e. c \<noteq> AddEntity e" "\<And>e. AddEntity e \<notin> set cs" using Cons.prems(6) by auto
  note r = run_command_immediate [OF Cons.prems(1-5) na(1)]
  show ?case using Cons.IH [OF _ Cons.prems(2) _ _ plain_commands_tl [OF Cons.prems(5)] na(2)] r by simp
qed

text \<open>
  C7. Deferring is invisible in the result: performing component and destruction commands inside
  a deferred window and committing it gives the same data as performing the same commands
  directly, although the window moves every entity at most once and drops overwritten writes.
\<close>

theorem deferred_equals_immediate:
  assumes "wf_store (env_registry E) w" "passive_env E" "quiescent w" "\<not> w_defer_moves w" "\<not> in_iteration w"
    and "w_command_buffer w = []" "plain_commands E cs" "\<forall>e. AddEntity e \<notin> set cs"
  shows "content (end_deferred_moves E (fold (run_command E) cs (begin_deferred_moves w)))
    = content (fold (run_command E) cs w)"
proof -
  let ?w1 = "begin_deferred_moves w"
  note s = same_store_wf [OF same_store_ops(10) assms(1)]
  have f: "w_deferred_entities ?w1 = []" "w_deferred_set ?w1 = {}" "w_pending_destroy ?w1 = {}" "w_pending_ops ?w1 = Map.empty"
    "w_defer_moves ?w1" "in_iteration ?w1 = in_iteration w" "w_command_buffer ?w1 = []"
    using assms(3,6) by (simp_all add: quiescent_def begin_deferred_moves_def in_iteration_def)
  have q0: "queued_ops ?w1 e = []" for e by (simp add: queued_ops_def f)
  have q: "queueing E ?w1" using s(1) assms(5) by (simp add: queueing_def f q0 exact_ops_def)
  have "fold (apply_op E) [] = id" by (simp add: fun_eq_iff)
  then have v: "queued_view E ?w1 = content w" by (intro ext) (simp add: queued_view_def f q0 s(2) option.map_id)
  have r: "queueing E (fold (run_command E) cs ?w1)
    \<and> queued_view E (fold (run_command E) cs ?w1) = fold (abs_command E) cs (queued_view E ?w1)"
    by (rule run_commands_queueing [OF q assms(7)]) (simp add: f)
  have "content (end_deferred_moves E (fold (run_command E) cs ?w1)) = fold (abs_command E) cs (content w)"
    using end_deferred_content(1) [OF conjunct1 [OF r] assms(2)] r v by simp
  moreover have "\<And>e. AddEntity e \<notin> set cs" using assms(8) by blast
  note run_commands_immediate [OF assms(1,2,4,5,7) this]
  ultimately show ?thesis by simp
qed

theorem deferred_equals_immediate_witness:
  "content (end_deferred_moves sample_env (fold (run_command sample_env) sample_commands
      (begin_deferred_moves (sample_world\<lparr>w_command_buffer := []\<rparr>))))
   = content (fold (run_command sample_env) sample_commands (sample_world\<lparr>w_command_buffer := []\<rparr>))"
proof -
  let ?w = "sample_world\<lparr>w_command_buffer := []\<rparr>"
  note s = same_store_wf [OF same_store_updates(16) [of sample_world "[]"] sample_world_ok(2)]
  have "quiescent ?w" "\<not> w_defer_moves ?w" "\<not> in_iteration ?w"
    using sample_world_ok(4-6) by (simp_all add: quiescent_def in_iteration_def)
  moreover have "plain_commands sample_env sample_commands" "\<forall>e. AddEntity e \<notin> set sample_commands"
    by (simp_all add: sample_commands_def sample_schemas)
  moreover have "w_command_buffer ?w = []" by simp
  ultimately show ?thesis using deferred_equals_immediate [OF s(1) sample_env_ok(1)] by blast
qed

section \<open>Destruction\<close>

text \<open>
  C8. Destroying an entity removes exactly its data: every other entity keeps its components
  although the last row of the archetype moves into the hole; the pooled variant has the same
  effect on the data; during iteration the call is refused.
\<close>

theorem destroy_entity_removes_only_it:
  assumes "wf_store (env_registry E) w" "passive_env E"
  shows "content (destroy_entity E e w) = (if in_iteration w then content w else (content w)(e := None))
    \<and> content (destroy_entity_pooled E e w) = (if in_iteration w then content w else (content w)(e := None))"
proof (cases "in_iteration w")
  case True
  then have "destroy_entity E e w = w" "destroy_entity_pooled E e w = w"
    by (auto simp: destroy_entity_def destroy_entity_pooled_def split: option.split)
  then show ?thesis using True by simp
next
  case False
  then show ?thesis using destroy_entity_content [OF assms False] by simp
qed

theorem destroy_entity_removes_only_it_witness:
  "content (destroy_entity sample_env e1 sample_world) = Map.empty"
  using destroy_entity_removes_only_it [OF sample_world_ok(2) sample_env_ok(1), of e1] by (simp add: sample_world_ok(3,5))

section \<open>Queries\<close>

text \<open>
  C9. A query answers from the cache what a scan answers: whatever was cached before and
  whichever signatures collide, the archetypes returned are those matching now, and walking
  their rows visits each live entity whose components pass the filter exactly once and
  nothing else. Matching changes no data.
\<close>

theorem match_visits_selected:
  assumes "wf_store reg w" "world_match q w = (r, w')"
  shows "r = filter (\<lambda>a. arch_matches (arch w a) q) (w_archetype_list w)
    \<and> set (visited w' r) = {e. \<exists>m. content w e = Some m \<and> selects q m} \<and> distinct (visited w' r)
    \<and> content w' = content w \<and> wf_store reg w'"
proof -
  note m = world_match_result [OF assms]
  have v: "visited w' r = visited w r" by (simp add: visited_def m(6))
  show ?thesis using m visited_result [OF assms(1), of q] unfolding v by (simp add: query_matches_def2 [symmetric])
qed

theorem match_visits_selected_witness:
  "let (r, w') = world_match \<lparr>q_all = [], q_any = [], q_none = [1]\<rparr> sample_world in set (visited w' r) = {e1}"
proof -
  let ?q = "\<lparr>q_all = [], q_any = [], q_none = [1]\<rparr> :: query"
  obtain r w' where m: "world_match ?q sample_world = (r, w')" by fastforce
  have "set (visited w' r) = {e. \<exists>m. content sample_world e = Some m \<and> selects ?q m}"
    using match_visits_selected [OF sample_world_ok(2) m] by blast
  also have "\<dots> = {e1}" by (auto simp: sample_world_ok(3) selects_def)
  finally show ?thesis by (simp add: m)
qed

text \<open>
  The number \<open>View::count\<close> reports is the number of live entities that have all the
  component types of the view.
\<close>

theorem view_count_is_number_of_entities:
  assumes "wf_store reg w" "view_count ts w = (n, w')"
  shows "n = card {e. \<exists>m. content w e = Some m \<and> set ts \<subseteq> dom m}"
proof -
  let ?q = "comps_query ts"
  obtain r v where m: "world_match ?q w = (r, v)" by fastforce
  note mr = world_match_result [OF assms(1) m]
  note vr = visited_result [OF assms(1), of ?q, folded mr(1)]
  have "n = length (visited v r)" using assms(2) m by (auto simp: view_count_def count_visited)
  also have "visited v r = visited w r" by (simp add: visited_def mr(6))
  also have "length (visited w r) = card (set (visited w r))" using vr(2) by (simp add: distinct_card)
  also have "set (visited w r) = {e. \<exists>m. content w e = Some m \<and> set ts \<subseteq> dom m}"
    using vr(1) by (simp add: selects_def comps_query_def)
  finally show ?thesis .
qed

theorem view_count_is_number_of_entities_witness:
  "fst (view_count [1] sample_world) = 0"
  using view_count_is_number_of_entities [OF sample_world_ok(2) prod.collapse [symmetric], of "[1]"]
  by (simp add: sample_world_ok(3))

section \<open>Lifecycle\<close>

text \<open>
  C10. \<open>compact\<close> loses no data: it removes exactly the archetypes with no entity (never the
  empty-set archetype), the world stays well formed (the cache drops the removed archetypes)
  and every entity keeps every component.
\<close>

theorem compact_keeps_data:
  assumes "wf_store reg w"
  shows "wf_store reg (compact w) \<and> content (compact w) = content w
    \<and> w_archetype_list (compact w)
       = filter (\<lambda>a. a = w_empty_archetype w \<or> a_entities (arch w a) \<noteq> []) (w_archetype_list w)"
proof -
  have "(\<lambda>a. \<not> droppable w a) = (\<lambda>a. a = w_empty_archetype w \<or> a_entities (arch w a) \<noteq> [])"
    by (auto simp: droppable_def)
  then show ?thesis using compact_store(1,2,4) [OF assms] by simp
qed

theorem compact_keeps_data_witness:
  "content (compact sample_world) = [e1 \<mapsto> Map.empty]"
  using compact_keeps_data [OF sample_world_ok(2)] by (simp add: sample_world_ok(3))

text \<open>
  \<open>clear\<close> outside iteration leaves a well formed world with no entity, in whatever order
  the hash map of entities is walked.
\<close>

theorem clear_leaves_no_entity:
  assumes "wf_world (env_registry E) w" "passive_env E" "visits_all E" "\<not> in_iteration w"
  shows "content (world_clear E w) = Map.empty \<and> wf_world (env_registry E) (world_clear E w)
    \<and> (\<forall>e. \<not> is_alive (world_clear E w) e)"
proof -
  note c = world_clear_world [OF assms(1) passive_keeps_world [OF assms(2)]]
  have "wf_store (env_registry E) (world_clear E w)" using c(1) by (simp add: wf_world_def)
  then show ?thesis using c(1) c(2) [OF assms(2-4)] by (simp add: is_alive_content)
qed

theorem clear_leaves_no_entity_witness:
  "\<not> is_alive (world_clear sample_env sample_world) e1"
  using clear_leaves_no_entity [OF sample_world_ok(1) sample_env_ok(1,5) sample_world_ok(5)] by blast

text \<open>
  The bisection of the change log is exact: in a log ordered by tick, the entries before the
  returned position are those not newer than the tick, so reading from there yields all newer
  changes and only them.
\<close>

theorem change_log_lower_bound_splits:
  assumes "sorted (map cl_tick (w_change_log w))"
  shows "filter (\<lambda>c. cl_tick c \<le> p) (w_change_log w) = take (change_log_lower_bound w p) (w_change_log w)
    \<and> filter (\<lambda>c. p < cl_tick c) (w_change_log w) = drop (change_log_lower_bound w p) (w_change_log w)"
proof -
  let ?log = "w_change_log w" and ?n = "change_log_lower_bound w p"
  have s: "?n \<le> length ?log" "\<And>i. i < ?n \<Longrightarrow> cl_tick (?log ! i) \<le> p"
    "\<And>i. ?n \<le> i \<Longrightarrow> i < length ?log \<Longrightarrow> p < cl_tick (?log ! i)"
    using log_search_spec [OF assms, of 0 "length ?log" p] by (auto simp: change_log_lower_bound_def)
  have t: "filter (\<lambda>c. cl_tick c \<le> p) ?log = take ?n ?log"
    by (rule filter_take_split [OF s(1)]) (use s(2,3) in \<open>auto simp: not_le\<close>)
  have "filter (\<lambda>c. p < cl_tick c) (take ?n ?log) = []"
    using s(1,2) by (auto simp: filter_empty_conv in_set_conv_nth not_less)
  moreover have "filter (\<lambda>c. p < cl_tick c) (drop ?n ?log) = drop ?n ?log"
    using s(1,3) by (auto simp: filter_id_conv in_set_conv_nth)
  ultimately have "filter (\<lambda>c. p < cl_tick c) (take ?n ?log @ drop ?n ?log) = drop ?n ?log" by (simp only: filter_append append_Nil)
  then show ?thesis using t by simp
qed

definition sample_log :: "change_log_entry list" where
  "sample_log = [\<lparr>cl_entity = e1, cl_comp = 1, cl_tick = 3\<rparr>, \<lparr>cl_entity = e1, cl_comp = 2, cl_tick = 5\<rparr>]"

theorem change_log_lower_bound_splits_witness:
  "take (change_log_lower_bound (sample_world\<lparr>w_change_log := sample_log\<rparr>) 4) sample_log
     = [\<lparr>cl_entity = e1, cl_comp = 1, cl_tick = 3\<rparr>]"
  using change_log_lower_bound_splits [of "sample_world\<lparr>w_change_log := sample_log\<rparr>" 4]
  by (simp add: sample_log_def)

end
