(* ===== verification/Blocks.thy ===== *)
theory Blocks
  imports ComponentSerializer WorldSpec
begin

text \<open>
  The component records that a world snapshot, a spawn packet and a full-state packet share:
  per component the type id, then a payload in one of two formats (the whole component, or a
  field mask with the masked fields). A validating pass skips the records with a cursor of its
  own; a second pass applies them: \<open>add_raw\<close> with a null pointer, \<open>get_raw\<close>, deserialization
  into the row. What the two passes may rely on is the locale \<open>component_format\<close>; its clients are
  proved once, the formats are interpretations of it.
\<close>

section \<open>The loops\<close>

definition in_buffer :: "binary_buffer \<Rightarrow> bool" where
  "in_buffer b \<longleftrightarrow> buf_pos b \<le> length (buf_data b)"

text \<open>\<open>if (in.pos() + sz > in.size()) return false; in.seek(in.pos() + sz)\<close>\<close>

definition skip_bytes :: "nat \<Rightarrow> binary_buffer \<Rightarrow> binary_buffer option" where
  "skip_bytes n b = (if buf_pos b + n > length (buf_data b) then None else Some (seek (buf_pos b + n) b))"

definition skip_component :: "component_schema \<Rightarrow> binary_buffer \<Rightarrow> binary_buffer option" where
  "skip_component s b = skip_bytes (serialized_component_size s) b"

fun skip_components :: "registry \<Rightarrow> (component_schema \<Rightarrow> binary_buffer \<Rightarrow> binary_buffer option) \<Rightarrow> nat
    \<Rightarrow> binary_buffer \<Rightarrow> binary_buffer option" where
  "skip_components reg skip 0 b = Some b"
| "skip_components reg skip (Suc n) b =
     (case read_u32 b of None \<Rightarrow> None
      | Some (t, b1) \<Rightarrow> (case schema_of reg t of None \<Rightarrow> None
          | Some s \<Rightarrow> (case skip s b1 of None \<Rightarrow> None
              | Some b2 \<Rightarrow> skip_components reg skip n b2)))"

text \<open>
  The result is the success flag, the world and the buffer when the loop ends or returns. The
  bytes a failing read has already stored into the row stay there.
\<close>

fun apply_components :: "('u, 'v) env \<Rightarrow> (component_schema \<Rightarrow> byte list \<Rightarrow> binary_buffer \<Rightarrow> read_result) \<Rightarrow> nat
    \<Rightarrow> entity \<Rightarrow> 'u world \<Rightarrow> binary_buffer \<Rightarrow> bool \<times> 'u world \<times> binary_buffer" where
  "apply_components E rd 0 e w b = (True, w, b)"
| "apply_components E rd (Suc n) e w b =
     (case read_u32 b of None \<Rightarrow> (False, w, b)
      | Some (t, b1) \<Rightarrow> (case schema_of (env_registry E) t of None \<Rightarrow> (False, w, b1)
          | Some s \<Rightarrow>
              (let w1 = add_raw E e t None w
               in (case get_raw w1 e t of None \<Rightarrow> (False, w1, b1)
                   | Some dst \<Rightarrow>
                       (case rd s (load_row w1 dst) b1 of (ok, row, b2) \<Rightarrow>
                          (let w2 = store_row dst row w1
                           in if ok then apply_components E rd n e w2 b2 else (False, w2, b2)))))))"

section \<open>Reading a component\<close>

lemma in_buffer_adv: "in_buffer b \<Longrightarrow> in_buffer (adv n b) \<longleftrightarrow> n \<le> length (rest b)"
  by (auto simp: in_buffer_def rest_def byte_simps)

lemma skip_bytes_Some:
  assumes "in_buffer b"
  shows "skip_bytes n b = (if n \<le> length (rest b) then Some (adv n b) else None)"
  using assms by (auto simp: skip_bytes_def seek_def adv_def rest_def in_buffer_def)

lemma read_field_enough:
  assumes b: "in_buffer b" and n: "field_size fd \<le> length (rest b)"
  shows "read_field fd m off b = (True, mem_write off (take (field_size fd) (rest b)) m, adv (field_size fd) b)"
  using b n by (intro read_field_rest [where r = "drop (field_size fd) (rest b)"]) (auto simp: in_buffer_def)

lemma read_field_length:
  assumes b: "in_buffer b" and fit: "off + field_size fd \<le> length m" and r: "read_field fd m off b = (ok, m', b')"
  shows "length m' = length m" "in_buffer b'"
proof -
  have "length m' = length m \<and> in_buffer b'"
  proof (cases "field_size fd \<le> length (rest b)")
    case True
    then show ?thesis
      using r fit in_buffer_adv [OF b] by (auto simp: read_field_enough [OF b True] length_mem_write)
  next
    case False
    then show ?thesis using r b by (auto simp: read_field_short)
  qed
  then show "length m' = length m" "in_buffer b'" by simp_all
qed

lemma read_fields_enough:
  assumes "in_buffer b" "sum_list (map field_size fds) \<le> length (rest b)"
  shows "\<exists>m'. read_fields fds m b = (True, m', adv (sum_list (map field_size fds)) b)"
  using assms
proof (induction fds arbitrary: m b)
  case Nil
  then show ?case by (simp add: byte_simps)
next
  case (Cons f fds)
  have n: "field_size f \<le> length (rest b)" using Cons.prems by simp
  then have "in_buffer (adv (field_size f) b)" using Cons.prems by (simp add: in_buffer_adv)
  moreover have "sum_list (map field_size fds) \<le> length (rest (adv (field_size f) b))"
    using Cons.prems by (simp add: byte_simps)
  ultimately obtain m' where "read_fields fds (mem_write (fd_offset f) (take (field_size f) (rest b)) m) (adv (field_size f) b)
      = (True, m', adv (sum_list (map field_size fds)) (adv (field_size f) b))"
    using Cons.IH by blast
  then show ?case using read_field_enough [OF Cons.prems(1) n] by (simp add: byte_simps)
qed

lemma read_field_True:
  assumes b: "in_buffer b" and r: "read_field fd m off b = (True, m', b')"
  shows "field_size fd \<le> length (rest b)" "b' = adv (field_size fd) b"
proof -
  show n: "field_size fd \<le> length (rest b)" using r read_field_short [of b fd m off] by (cases "field_size fd \<le> length (rest b)") auto
  show "b' = adv (field_size fd) b" using r read_field_enough [OF b n] by simp
qed

lemma read_fields_True:
  assumes "in_buffer b" "read_fields fds m b = (True, m', b')"
  shows "sum_list (map field_size fds) \<le> length (rest b) \<and> b' = adv (sum_list (map field_size fds)) b"
  using assms
proof (induction fds arbitrary: m b)
  case Nil
  then show ?case by (simp add: byte_simps)
next
  case (Cons f fds)
  obtain m1 b1 where f: "read_field f m (fd_offset f) b = (True, m1, b1)" "read_fields fds m1 b1 = (True, m', b')"
    using Cons.prems(2) by (auto split: prod.splits if_splits)
  note t = read_field_True [OF Cons.prems(1) f(1)]
  have i: "in_buffer b1" using t in_buffer_adv [OF Cons.prems(1)] by simp
  have "length (rest b1) = length (rest b) - field_size f" by (simp add: t(2) rest_adv)
  then show ?case using Cons.IH [OF i f(2)] t by (auto simp: byte_simps)
qed

lemma read_fields_length:
  assumes "in_buffer b" "fields_fit fds (length m)" "read_fields fds m b = (ok, m', b')"
  shows "length m' = length m \<and> in_buffer b'"
  using assms
proof (induction fds arbitrary: m b)
  case (Cons f fds)
  obtain k m1 b1 where r: "read_field f m (fd_offset f) b = (k, m1, b1)" by (cases "read_field f m (fd_offset f) b")
  have fit: "fd_offset f + field_size f \<le> length m" using Cons.prems(2) by simp
  note l = read_field_length [OF Cons.prems(1) fit r]
  show ?case using Cons.IH [OF l(2), of m1] Cons.prems l by (auto simp: r split: if_splits)
qed simp

section \<open>The interface of a payload format\<close>

text \<open>
  \<open>enc s src\<close> are the bytes written for a row, \<open>merge s src old\<close> is the row a reader holding
  \<open>old\<close> ends with. A payload the validating pass skips is one that is read successfully, with the
  same final cursor; reading never changes the length of the row.
\<close>

locale component_format =
  fixes wr :: "component_schema \<Rightarrow> byte list \<Rightarrow> binary_buffer \<Rightarrow> binary_buffer"
    and rd :: "component_schema \<Rightarrow> byte list \<Rightarrow> binary_buffer \<Rightarrow> read_result"
    and skip :: "component_schema \<Rightarrow> binary_buffer \<Rightarrow> binary_buffer option"
    and enc :: "component_schema \<Rightarrow> byte list \<Rightarrow> byte list"
    and merge :: "component_schema \<Rightarrow> byte list \<Rightarrow> byte list \<Rightarrow> byte list"
  assumes wr_data: "fields_fit (cs_fields s) (length src) \<Longrightarrow> buf_data (wr s src b) = buf_data b @ enc s src"
    and rd_enc: "fields_fit (cs_fields s) (length src) \<Longrightarrow> in_buffer b \<Longrightarrow> rest b = enc s src @ r \<Longrightarrow>
        rd s m b = (True, merge s src m, adv (length (enc s src)) b)"
    and skip_enc: "fields_fit (cs_fields s) (length src) \<Longrightarrow> in_buffer b \<Longrightarrow> rest b = enc s src @ r \<Longrightarrow>
        skip s b = Some (adv (length (enc s src)) b)"
    and skip_rd: "in_buffer b \<Longrightarrow> skip s b = Some b' \<Longrightarrow> in_buffer b' \<and> (\<exists>m'. rd s m b = (True, m', b'))"
    and rd_skip: "in_buffer b \<Longrightarrow> rd s m b = (True, m', b') \<Longrightarrow> skip s b = Some b'"
    and rd_length: "in_buffer b \<Longrightarrow> fields_fit (cs_fields s) (length m) \<Longrightarrow> rd s m b = (ok, m', b') \<Longrightarrow>
        length m' = length m \<and> in_buffer b'"

lemma skip_component_Some:
  assumes "in_buffer b"
  shows "skip_component s b = (if serialized_component_size s \<le> length (rest b)
     then Some (adv (serialized_component_size s) b) else None)"
  by (simp add: skip_component_def skip_bytes_Some [OF assms])

interpretation whole: component_format serialize_component deserialize_component skip_component
  "\<lambda>s src. fields_bytes (cs_fields s) src" "\<lambda>s src old. store_fields (cs_fields s) src old"
proof
  fix s :: component_schema and src r :: "byte list" and b m
  assume fit: "fields_fit (cs_fields s) (length src)"
  then show "buf_data (serialize_component s src b) = buf_data b @ fields_bytes (cs_fields s) src"
    by (simp add: serialize_component_def write_fields_data)
  assume b: "in_buffer b" and r: "rest b = fields_bytes (cs_fields s) src @ r"
  have n: "length (fields_bytes (cs_fields s) src) = serialized_component_size s"
    by (simp add: length_fields_bytes [OF fit] serialized_size_sum)
  show "deserialize_component s m b = (True, store_fields (cs_fields s) src m, adv (length (fields_bytes (cs_fields s) src)) b)"
    using read_fields_rest [OF r fit] b by (simp add: deserialize_component_def n serialized_size_sum in_buffer_def)
  show "skip_component s b = Some (adv (length (fields_bytes (cs_fields s) src)) b)"
    using r n by (simp add: skip_component_Some [OF b])
next
  fix s :: component_schema and b b' m
  assume b: "in_buffer b" and k: "skip_component s b = Some b'"
  then show "in_buffer b' \<and> (\<exists>m'. deserialize_component s m b = (True, m', b'))"
    using read_fields_enough [OF b, of "cs_fields s" m]
    by (auto simp: skip_component_Some [OF b] in_buffer_adv deserialize_component_def serialized_size_sum split: if_splits)
next
  fix s :: component_schema and b b' m m'
  assume b: "in_buffer b" and r: "deserialize_component s m b = (True, m', b')"
  then show "skip_component s b = Some b'"
    using read_fields_True [OF b, of "cs_fields s" m m' b']
    by (simp add: skip_component_Some [OF b] deserialize_component_def serialized_size_sum)
next
  fix s :: component_schema and b b' m m' ok
  assume "in_buffer b" "fields_fit (cs_fields s) (length m)" "deserialize_component s m b = (ok, m', b')"
  then show "length m' = length m \<and> in_buffer b'" unfolding deserialize_component_def by (rule read_fields_length)
qed

section \<open>Applying records to an entity\<close>

definition open_mode :: "'u world \<Rightarrow> bool" where
  "open_mode w \<longleftrightarrow> \<not> w_defer_moves w \<and> \<not> in_iteration w"

lemma open_mode_ctl: "ctl w' = ctl w \<Longrightarrow> open_mode w' = open_mode w"
  using ctl_alloc(4,12) [of w' w] by (simp add: open_mode_def)

lemma ctl_store_row [simp]: "ctl (store_row p bs w) = ctl w"
  by (cases p) (simp add: store_row_def update_arch_column_def set_arch_def ctl_def)

text \<open>Every schema describes rows whose fields are in bounds and disjoint.\<close>

definition fitting :: "registry \<Rightarrow> bool" where
  "fitting reg \<longleftrightarrow> (\<forall>t s. schema_of reg t = Some s \<longrightarrow> fields_fit (cs_fields s) (cs_size s))"

text \<open>One record: the new row is reached, holds zeros, and takes what is stored.\<close>

lemma fresh_component:
  assumes wf: "wf_store (env_registry E) w" and p: "passive_env E" and m: "content w e = Some m"
    and s: "schema_of (env_registry E) t = Some s" and md: "open_mode w"
  defines "w1 \<equiv> add_raw E e t None w"
  shows "\<exists>dst. get_raw w1 e t = Some dst \<and> load_row w1 dst = replicate (cs_size s) 0
    \<and> (\<forall>v. length v = cs_size s \<longrightarrow> wf_store (env_registry E) (store_row dst v w1)
         \<and> content (store_row dst v w1) = (content w)(e \<mapsto> m(t \<mapsto> v)) \<and> ctl (store_row dst v w1) = ctl w
         \<and> w_pending_ops (store_row dst v w1) = w_pending_ops w)"
proof -
  obtain l where l: "location_of w e = Some l" using m by (auto simp: content_Some)
  note ac = add_raw_content [OF wf p l s, where d = None, folded w1_def]
  have c1: "content w1 = (content w)(e \<mapsto> m(t \<mapsto> replicate (cs_size s) 0))" and ctl1: "ctl w1 = ctl w"
    and po1: "w_pending_ops w1 = w_pending_ops w"
    using ac md m by (simp_all add: open_mode_def value_bytes_def)
  have wf1: "wf_store (env_registry E) w1" unfolding w1_def by (rule add_raw_wf [OF wf passive_keeps [OF p]])
  have "has w1 e t" using has_content [OF wf1] c1 by simp
  then obtain dst where dst: "get_raw w1 e t = Some dst" using get_raw_content(1) [OF wf1, of e t]
    by (cases "get_raw w1 e t") simp_all
  then obtain l1 where l1: "location_of w1 e = Some l1" "dst = (loc_archetype l1, t, loc_row l1)"
    "has_component (arch w1 (loc_archetype l1)) t"
    by (auto simp: get_raw_def split: if_splits option.splits)
  have t1: "t \<in> set (a_component_ids (arch w1 (loc_archetype l1)))" using has_ids [OF wf1 l1(1)] l1(3) by simp
  have "wf_store (env_registry E) (store_row dst v w1)
      \<and> content (store_row dst v w1) = (content w)(e \<mapsto> m(t \<mapsto> v)) \<and> ctl (store_row dst v w1) = ctl w
      \<and> w_pending_ops (store_row dst v w1) = w_pending_ops w"
    if v: "length v = cs_size s" for v
  proof -
    note st = store_row_store [OF wf1 l1(1) t1 s eq_refl [OF v], folded l1(2)]
    have "content (store_row dst v w1) x = ((content w)(e \<mapsto> m(t \<mapsto> v))) x" for x
      using st(4) [of x] st(5) [OF v] by (cases "x = e") (simp_all add: c1)
    then show ?thesis using st(1,2) ctl1 po1 by (auto simp: same_frame_def)
  qed
  moreover have "load_row w1 dst = replicate (cs_size s) 0"
    using get_raw_content(2) [OF wf1 dst] c1 by auto
  ultimately show ?thesis using dst by blast
qed

lemma content_length:
  assumes wf: "wf_store reg w" and m: "content w e = Some m" "m t = Some v"
  shows "\<exists>s. schema_of reg t = Some s \<and> length v = cs_size s"
proof -
  obtain l where l: "location_of w e = Some l" "m = (\<lambda>t. cell (arch w (loc_archetype l)) t e)" using m(1) by (auto simp: content_Some)
  note wl = wf_locationD [OF wf l(1)]
  let ?a = "arch w (loc_archetype l)"
  have "t \<in> set (a_component_ids ?a)" using cell_absent [OF wl(3), of t e] m(2) l(2) by auto
  then obtain j where j: "column_index ?a t = Some j" "v = rows (a_columns ?a ! j) ! loc_row l"
    using cell_present [OF wl(3) _ wl(2), of t] m(2) l(2) by auto
  note ix = index_column(1-3) [OF wl(3) j(1)]
  have "wf_col (a_columns ?a ! j)" "c_size (a_columns ?a ! j) = length (a_entities ?a)"
    using wf_archD(3,4) [OF wl(3)] ix(1) by simp_all
  then show ?thesis
    using wl(4,5) ix j(2) by (auto simp: typed_columns_def length_row_read dest!: spec [of _ j])
qed

lemma store_through:
  assumes wf: "wf_store reg w" and d: "get_raw w e t = Some dst"
    and s: "schema_of reg t = Some s" "length v = cs_size s"
  shows "wf_store reg (store_row dst v w)" "content (store_row dst v w) = (content w)(e \<mapsto> (the (content w e))(t \<mapsto> v))"
    "get_raw (store_row dst v w) x u = get_raw w x u" "is_alive (store_row dst v w) x = is_alive w x"
    "open_mode (store_row dst v w) = open_mode w"
proof -
  obtain l where l: "location_of w e = Some l" "dst = (loc_archetype l, t, loc_row l)" "has_component (arch w (loc_archetype l)) t"
    using d by (auto simp: get_raw_def split: if_splits option.splits)
  have t: "t \<in> set (a_component_ids (arch w (loc_archetype l)))" using has_ids [OF wf l(1)] l(3) by simp
  note st = store_row_store [OF wf l(1) t s(1) eq_refl [OF s(2)], folded l(2)]
  show "wf_store reg (store_row dst v w)" by (rule st(1))
  have "content (store_row dst v w) x = ((content w)(e \<mapsto> (the (content w e))(t \<mapsto> v))) x" for x
    using st(4) [of x] st(5) [OF s(2)] by (cases "x = e") simp_all
  then show "content (store_row dst v w) = (content w)(e \<mapsto> (the (content w e))(t \<mapsto> v))" by blast
  have ids: "has_component (arch (store_row dst v w) b) u = has_component (arch w b) u" for b
    by (rule has_component_cong) (simp add: l(2) store_row_def update_arch_column_def)
  show "get_raw (store_row dst v w) x u = get_raw w x u" by (simp add: get_raw_def st(3) ids cong: option.case_cong)
  show "is_alive (store_row dst v w) x = is_alive w x" by (simp add: is_alive_def st(3))
  show "open_mode (store_row dst v w) = open_mode w" by (rule open_mode_ctl) simp
qed

lemma pointer_length:
  assumes wf: "wf_store reg w" and d: "get_raw w e t = Some dst" and s: "schema_of reg t = Some s"
  shows "length (load_row w dst) = cs_size s"
proof -
  obtain m where m: "content w e = Some m" "m t = Some (load_row w dst)" using get_raw_content(2) [OF wf d] by blast
  show ?thesis using content_length [OF wf m] s by auto
qed

lemma apply_components_step:
  assumes wf: "wf_store (env_registry E) w" and p: "passive_env E" and m: "content w e = Some m"
    and s: "schema_of (env_registry E) t = Some s" and md: "open_mode w"
    and b: "read_u32 b = Some (t, b1)"
    and r: "rd s (replicate (cs_size s) 0) b1 = (True, v, b2)" "length v = cs_size s"
  shows "\<exists>w2. apply_components E rd (Suc n) e w b = apply_components E rd n e w2 b2
    \<and> wf_store (env_registry E) w2 \<and> content w2 = (content w)(e \<mapsto> m(t \<mapsto> v)) \<and> ctl w2 = ctl w
    \<and> w_pending_ops w2 = w_pending_ops w"
proof -
  obtain dst where d: "get_raw (add_raw E e t None w) e t = Some dst"
    "load_row (add_raw E e t None w) dst = replicate (cs_size s) 0"
    "wf_store (env_registry E) (store_row dst v (add_raw E e t None w))
     \<and> content (store_row dst v (add_raw E e t None w)) = (content w)(e \<mapsto> m(t \<mapsto> v))
     \<and> ctl (store_row dst v (add_raw E e t None w)) = ctl w
     \<and> w_pending_ops (store_row dst v (add_raw E e t None w)) = w_pending_ops w"
    using fresh_component [OF wf p m s md] r(2) by blast
  then show ?thesis using r b s by (intro exI [of _ "store_row dst v (add_raw E e t None w)"]) (simp add: Let_def)
qed

declare apply_components.simps(2) [simp del]

text \<open>A list of components as records on the wire, and as a map.\<close>

definition records :: "registry \<Rightarrow> (component_schema \<Rightarrow> byte list \<Rightarrow> byte list) \<Rightarrow> (ctype \<times> byte list) list \<Rightarrow> byte list" where
  "records reg enc cs = concat (map (\<lambda>(t, src). le32 t @ enc (the (schema_of reg t)) src) cs)"

definition zero_row :: "component_schema \<Rightarrow> byte list" where
  "zero_row s = replicate (cs_size s) 0"

definition loaded :: "registry \<Rightarrow> (component_schema \<Rightarrow> byte list \<Rightarrow> byte list \<Rightarrow> byte list) \<Rightarrow> (ctype \<times> byte list) list
    \<Rightarrow> (ctype \<rightharpoonup> byte list) \<Rightarrow> (ctype \<rightharpoonup> byte list)" where
  "loaded reg merge cs = fold (\<lambda>(t, src) m. m(t \<mapsto> (let s = the (schema_of reg t) in merge s src (zero_row s)))) cs"

definition encodable :: "registry \<Rightarrow> (ctype \<times> byte list) list \<Rightarrow> bool" where
  "encodable reg cs \<longleftrightarrow> (\<forall>(t, src)\<in>set cs. \<exists>s. schema_of reg t = Some s \<and> length src = cs_size s)"

lemma encodable_Cons [simp]:
  "encodable reg ((t, src) # cs) \<longleftrightarrow> (\<exists>s. schema_of reg t = Some s \<and> length src = cs_size s) \<and> encodable reg cs"
  by (auto simp: encodable_def)

text \<open>
  What a sequence of component records says, with no world involved: each record gives its
  type the value its payload has over a row of zeros, and a later record replaces an earlier
  one. \<open>None\<close> when the records are cut short or name an unknown type.
\<close>

fun decode_components :: "registry \<Rightarrow> (component_schema \<Rightarrow> byte list \<Rightarrow> binary_buffer \<Rightarrow> read_result) \<Rightarrow> nat
    \<Rightarrow> (ctype \<rightharpoonup> byte list) \<Rightarrow> binary_buffer \<Rightarrow> ((ctype \<rightharpoonup> byte list) \<times> binary_buffer) option" where
  "decode_components reg rd 0 m b = Some (m, b)"
| "decode_components reg rd (Suc n) m b =
     (case read_u32 b of None \<Rightarrow> None
      | Some (t, b1) \<Rightarrow> (case schema_of reg t of None \<Rightarrow> None
          | Some s \<Rightarrow> (case rd s (zero_row s) b1 of (ok, v, b2) \<Rightarrow>
              if ok then decode_components reg rd n (m(t \<mapsto> v)) b2 else None)))"

context component_format
begin

text \<open>The validating pass accepts the records that have a meaning.\<close>

lemma skip_decode:
  assumes "in_buffer b"
  shows "(\<exists>b'. skip_components reg skip n b = Some b') \<longleftrightarrow> (\<exists>m' b'. decode_components reg rd n m b = Some (m', b'))"
    "skip_components reg skip n b = Some b' \<Longrightarrow> \<exists>m'. decode_components reg rd n m b = Some (m', b')"
    "decode_components reg rd n m b = Some (m', b') \<Longrightarrow> skip_components reg skip n b = Some b' \<and> in_buffer b'"
proof -
  have 1: "\<exists>m'. decode_components reg rd n m b = Some (m', b')" if "skip_components reg skip n b = Some b'" "in_buffer b" for b m b'
    using that
  proof (induction n arbitrary: b m)
    case (Suc n)
    obtain t b1 s b2 where k: "read_u32 b = Some (t, b1)" "schema_of reg t = Some s" "skip s b1 = Some b2"
      "skip_components reg skip n b2 = Some b'"
      using Suc.prems(1) by (auto split: option.splits prod.splits)
    have i1: "in_buffer b1" using u32c.rd_SomeD [OF k(1)] Suc.prems(2) by (auto simp: in_buffer_adv)
    obtain v where v: "rd s (zero_row s) b1 = (True, v, b2)" and i2: "in_buffer b2" using skip_rd [OF i1 k(3)] by blast
    show ?case using Suc.IH [OF k(4) i2] k(1,2) v by simp
  qed simp
  have 2: "skip_components reg skip n b = Some b' \<and> in_buffer b'" if "decode_components reg rd n m b = Some (m', b')" "in_buffer b" for b m m' b'
    using that
  proof (induction n arbitrary: b m)
    case (Suc n)
    obtain t b1 s v b2 where k: "read_u32 b = Some (t, b1)" "schema_of reg t = Some s" "rd s (zero_row s) b1 = (True, v, b2)"
      "decode_components reg rd n (m(t \<mapsto> v)) b2 = Some (m', b')"
      using Suc.prems(1) by (auto split: option.splits prod.splits if_splits)
    have i1: "in_buffer b1" using u32c.rd_SomeD [OF k(1)] Suc.prems(2) by (auto simp: in_buffer_adv)
    note sk = rd_skip [OF i1 k(3)]
    have "in_buffer b2" using skip_rd [OF i1 sk] by blast
    then show ?case using Suc.IH [OF k(4)] k(1,2) sk by simp
  qed simp
  show "(\<exists>b'. skip_components reg skip n b = Some b') \<longleftrightarrow> (\<exists>m' b'. decode_components reg rd n m b = Some (m', b'))"
    using 1 [OF _ assms] 2 [OF _ assms] by blast
  show "skip_components reg skip n b = Some b' \<Longrightarrow> \<exists>m'. decode_components reg rd n m b = Some (m', b')"
    using 1 [OF _ assms] by blast
  show "decode_components reg rd n m b = Some (m', b') \<Longrightarrow> skip_components reg skip n b = Some b' \<and> in_buffer b'"
    using 2 [OF _ assms] by blast
qed

lemma skip_records:
  assumes "encodable reg cs" "fitting reg" "in_buffer b" "rest b = records reg enc cs @ r"
  shows "skip_components reg skip (length cs) b = Some (adv (length (records reg enc cs)) b)"
  using assms
proof (induction cs arbitrary: b)
  case Nil
  then show ?case by (simp add: records_def byte_simps)
next
  case (Cons c cs)
  obtain t src where c: "c = (t, src)" by (cases c)
  obtain s where s: "schema_of reg t = Some s" "length src = cs_size s" using Cons.prems(1) c by auto
  have fit: "fields_fit (cs_fields s) (length src)" using Cons.prems(2) s by (simp add: fitting_def)
  have r: "rest b = le32 t @ enc s src @ records reg enc cs @ r"
    using Cons.prems(4) by (simp add: c records_def s)
  have 1: "read_u32 b = Some (t, adv 4 b)" using r by (rule u32c.rd_enc)
  have r1: "rest (adv 4 b) = enc s src @ records reg enc cs @ r" using r by (simp add: byte_simps)
  have i1: "in_buffer (adv 4 b)" using Cons.prems(3) r by (simp add: in_buffer_adv)
  note 2 = skip_enc [OF fit i1 r1]
  have i2: "in_buffer (adv (length (enc s src)) (adv 4 b))" using i1 r1 by (simp add: in_buffer_adv)
  have "rest (adv (length (enc s src)) (adv 4 b)) = records reg enc cs @ r" using r1 by (simp add: rest_adv)
  from Cons.IH [OF _ Cons.prems(2) i2 this] show ?case
    using Cons.prems(1) by (simp add: c 1 2 s records_def byte_simps)
qed

lemma apply_records:
  assumes "encodable (env_registry E) cs" "fitting (env_registry E)" "in_buffer b"
    "rest b = records (env_registry E) enc cs @ r"
    and "wf_store (env_registry E) w" "passive_env E" "content w e = Some m" "open_mode w"
  shows "\<exists>w'. apply_components E rd (length cs) e w b
      = (True, w', adv (length (records (env_registry E) enc cs)) b)
    \<and> wf_store (env_registry E) w' \<and> content w' = (content w)(e \<mapsto> loaded (env_registry E) merge cs m)
    \<and> ctl w' = ctl w \<and> w_pending_ops w' = w_pending_ops w"
  using assms
proof (induction cs arbitrary: b w m)
  case Nil
  then show ?case by (auto simp: records_def loaded_def byte_simps)
next
  case (Cons c cs)
  let ?reg = "env_registry E"
  obtain t src where c: "c = (t, src)" by (cases c)
  obtain s where s: "schema_of ?reg t = Some s" "length src = cs_size s" using Cons.prems(1) c by auto
  have fit: "fields_fit (cs_fields s) (length src)" using Cons.prems(2) s by (simp add: fitting_def)
  have r: "rest b = le32 t @ enc s src @ records ?reg enc cs @ r"
    using Cons.prems(4) by (simp add: c records_def s)
  have 1: "read_u32 b = Some (t, adv 4 b)" using r by (rule u32c.rd_enc)
  have r1: "rest (adv 4 b) = enc s src @ records ?reg enc cs @ r" using r by (simp add: byte_simps)
  have i1: "in_buffer (adv 4 b)" using Cons.prems(3) r by (simp add: in_buffer_adv)
  let ?b2 = "adv (length (enc s src)) (adv 4 b)"
  note 2 = rd_enc [OF fit i1 r1, of "replicate (cs_size s) 0"]
  have len: "length (merge s src (replicate (cs_size s) 0)) = cs_size s"
    using rd_length [OF i1 _ 2, THEN conjunct1] fit s by simp
  obtain w2 where w2: "apply_components E rd (Suc (length cs)) e w b = apply_components E rd (length cs) e w2 ?b2"
    "wf_store ?reg w2" "content w2 = (content w)(e \<mapsto> m(t \<mapsto> merge s src (replicate (cs_size s) 0)))" "ctl w2 = ctl w"
    "w_pending_ops w2 = w_pending_ops w"
    using apply_components_step [where rd = rd, OF Cons.prems(5-7) s(1) Cons.prems(8) 1 2 len] by blast
  have i2: "in_buffer ?b2" using i1 r1 by (simp add: in_buffer_adv)
  have r2: "rest ?b2 = records ?reg enc cs @ r" using r1 by (simp add: rest_adv)
  have e2: "encodable ?reg cs" using Cons.prems(1) by (simp add: c)
  have m2: "content w2 e = Some (m(t \<mapsto> merge s src (replicate (cs_size s) 0)))" by (simp add: w2(3))
  have o2: "open_mode w2" using open_mode_ctl [OF w2(4)] Cons.prems(8) by simp
  from Cons.IH [OF e2 Cons.prems(2) i2 r2 w2(2) Cons.prems(6) m2 o2] obtain w' where
    w': "apply_components E rd (length cs) e w2 ?b2 = (True, w', adv (length (records ?reg enc cs)) ?b2)"
    "wf_store ?reg w'" "content w' = (content w2)(e \<mapsto> loaded ?reg merge cs (m(t \<mapsto> merge s src (replicate (cs_size s) 0))))"
    "ctl w' = ctl w2" "w_pending_ops w' = w_pending_ops w2" by blast
  have "content w' = (content w)(e \<mapsto> loaded ?reg merge (c # cs) m)"
    unfolding w'(3) w2(3) by (simp add: c loaded_def s zero_row_def del: fun_upd_apply)
  moreover have "apply_components E rd (length (c # cs)) e w b = (True, w', adv (length (records ?reg enc (c # cs))) b)"
    using w2(1) w'(1) by (simp add: c s records_def byte_simps)
  ultimately show ?case using w' w2 by auto
qed

text \<open>What the records say, the applying pass gives the entity, to the end and with the same cursor.\<close>

lemma apply_decoded:
  assumes "decode_components (env_registry E) rd n m b = Some (m', b')" "fitting (env_registry E)" "in_buffer b"
    and "wf_store (env_registry E) w" "passive_env E" "content w e = Some m" "open_mode w"
  shows "in_buffer b' \<and> (\<exists>w'. apply_components E rd n e w b = (True, w', b')
    \<and> wf_store (env_registry E) w' \<and> content w' = (content w)(e \<mapsto> m') \<and> ctl w' = ctl w
    \<and> w_pending_ops w' = w_pending_ops w)"
  using assms
proof (induction n arbitrary: b w m)
  case 0
  then have "(content w)(e \<mapsto> m) = content w" by (simp add: fun_upd_idem)
  with 0 show ?case by auto
next
  case (Suc n)
  let ?reg = "env_registry E"
  obtain t b1 s v b2 where k: "read_u32 b = Some (t, b1)" "schema_of ?reg t = Some s" "rd s (zero_row s) b1 = (True, v, b2)"
    "decode_components ?reg rd n (m(t \<mapsto> v)) b2 = Some (m', b')"
    using Suc.prems(1) by (auto split: option.splits prod.splits if_splits)
  have i1: "in_buffer b1" using u32c.rd_SomeD [OF k(1)] Suc.prems(3) by (auto simp: in_buffer_adv)
  note v = k(3) [unfolded zero_row_def]
  have len: "length v = cs_size s" and i2: "in_buffer b2"
    using rd_length [OF i1 _ v] Suc.prems(2) k(2) by (simp_all add: fitting_def)
  obtain w2 where w2: "apply_components E rd (Suc n) e w b = apply_components E rd n e w2 b2"
    "wf_store ?reg w2" "content w2 = (content w)(e \<mapsto> m(t \<mapsto> v))" "ctl w2 = ctl w"
    "w_pending_ops w2 = w_pending_ops w"
    using apply_components_step [where rd = rd, OF Suc.prems(4-6) k(2) Suc.prems(7) k(1) v len] by blast
  have m2: "content w2 e = Some (m(t \<mapsto> v))" by (simp add: w2(3))
  have o2: "open_mode w2" using open_mode_ctl [OF w2(4)] Suc.prems(7) by simp
  from Suc.IH [OF k(4) Suc.prems(2) i2 w2(2) Suc.prems(5) m2 o2] obtain w' where
    w': "in_buffer b'" "apply_components E rd n e w2 b2 = (True, w', b')" "wf_store ?reg w'"
    "content w' = (content w2)(e \<mapsto> m')" "ctl w' = ctl w2" "w_pending_ops w' = w_pending_ops w2" by blast
  have "content w' = (content w)(e \<mapsto> m')" unfolding w'(4) w2(3) by (simp del: fun_upd_apply)
  then have "apply_components E rd (Suc n) e w b = (True, w', b') \<and> wf_store ?reg w'
      \<and> content w' = (content w)(e \<mapsto> m') \<and> ctl w' = ctl w \<and> w_pending_ops w' = w_pending_ops w"
    using w' w2 by simp
  with w'(1) show ?case by blast
qed

end

section \<open>Entities on the wire\<close>

text \<open>\<open>create_entity_preassigned\<close> refuses these ids; the validating passes check for them up front.\<close>

definition id_refused :: "u64 \<Rightarrow> bool" where
  "id_refused i \<longleftrightarrow> slot (Entity i) = 0xFFFFFFFF \<or> unat (slot (Entity i)) \<ge> 16777216"

fun scan_entities :: "registry \<Rightarrow> (component_schema \<Rightarrow> binary_buffer \<Rightarrow> binary_buffer option) \<Rightarrow> nat \<Rightarrow> u64 set
    \<Rightarrow> binary_buffer \<Rightarrow> binary_buffer option" where
  "scan_entities reg skip 0 ids b = Some b"
| "scan_entities reg skip (Suc n) ids b =
     (case read_u64 b of None \<Rightarrow> None
      | Some (i, b1) \<Rightarrow>
          if id_refused i then None
          else if i \<in> ids then None
          else (case read_u16 b1 of None \<Rightarrow> None
                | Some (ncomp, b2) \<Rightarrow> (case skip_components reg skip (unat ncomp) b2 of None \<Rightarrow> None
                    | Some b3 \<Rightarrow> scan_entities reg skip n (insert i ids) b3)))"

text \<open>What a sequence of entity records says: each entity, named once, with its components.\<close>

fun decode_entities :: "registry \<Rightarrow> (component_schema \<Rightarrow> byte list \<Rightarrow> binary_buffer \<Rightarrow> read_result) \<Rightarrow> nat
    \<Rightarrow> (entity \<rightharpoonup> (ctype \<rightharpoonup> byte list)) \<Rightarrow> binary_buffer \<Rightarrow> ((entity \<rightharpoonup> (ctype \<rightharpoonup> byte list)) \<times> binary_buffer) option" where
  "decode_entities reg rd 0 K b = Some (K, b)"
| "decode_entities reg rd (Suc n) K b =
     (case read_u64 b of None \<Rightarrow> None
      | Some (i, b1) \<Rightarrow>
          if id_refused i \<or> K (Entity i) \<noteq> None then None
          else (case read_u16 b1 of None \<Rightarrow> None
                | Some (ncomp, b2) \<Rightarrow> (case decode_components reg rd (unat ncomp) Map.empty b2 of None \<Rightarrow> None
                    | Some (m, b3) \<Rightarrow> decode_entities reg rd n (K(Entity i \<mapsto> m)) b3)))"

lemma Entity_eid_image: "eid ` dom (K(Entity i \<mapsto> m)) = insert i (eid ` dom K)"
  by auto

context component_format
begin

lemma scan_decode:
  assumes "in_buffer b"
  shows "scan_entities reg skip n (eid ` dom K) b = Some b' \<longleftrightarrow> (\<exists>K'. decode_entities reg rd n K b = Some (K', b'))"
  using assms
proof (induction n arbitrary: b K)
  case 0
  then show ?case by simp
next
  case (Suc n)
  show ?case
  proof (cases "read_u64 b")
    case None
    then show ?thesis by simp
  next
    case r1: (Some x)
    obtain i b1 where x: "x = (i, b1)" by (cases x)
    have i1: "in_buffer b1" using u64c.rd_SomeD [of b i b1] r1 x Suc.prems by (auto simp: in_buffer_adv)
    have d: "i \<in> eid ` dom K \<longleftrightarrow> K (Entity i) \<noteq> None"
    proof
      assume "i \<in> eid ` dom K"
      then obtain e where "e \<in> dom K" "i = eid e" by blast
      moreover from this(2) have "Entity i = e" by (cases e) simp
      ultimately show "K (Entity i) \<noteq> None" by (simp add: dom_def)
    next
      assume "K (Entity i) \<noteq> None"
      then show "i \<in> eid ` dom K" by (intro image_eqI [of _ _ "Entity i"]) auto
    qed
    show ?thesis
    proof (cases "id_refused i \<or> K (Entity i) \<noteq> None \<or> read_u16 b1 = None")
      case True
      then show ?thesis using d by (auto simp: r1 x)
    next
      case False
      then obtain k b2 where r2: "read_u16 b1 = Some (k, b2)" by auto
      have i2: "in_buffer b2" using u16c.rd_SomeD [OF r2] i1 by (auto simp: in_buffer_adv)
      have l: "scan_entities reg skip (Suc n) (eid ` dom K) b = Some b' \<longleftrightarrow>
          (\<exists>b3. skip_components reg skip (unat k) b2 = Some b3 \<and> scan_entities reg skip n (insert i (eid ` dom K)) b3 = Some b')"
        using False d r1 x r2 by (simp split: option.split)
      have r: "(\<exists>K'. decode_entities reg rd (Suc n) K b = Some (K', b')) \<longleftrightarrow>
          (\<exists>m b3 K'. decode_components reg rd (unat k) Map.empty b2 = Some (m, b3)
             \<and> decode_entities reg rd n (K(Entity i \<mapsto> m)) b3 = Some (K', b'))"
        using False r1 x r2 by (simp split: option.split)
      have st: "scan_entities reg skip n (insert i (eid ` dom K)) b3 = Some b'
          \<longleftrightarrow> (\<exists>K'. decode_entities reg rd n (K(Entity i \<mapsto> m)) b3 = Some (K', b'))" if "in_buffer b3" for b3 m
        using Suc.IH [OF that, of "K(Entity i \<mapsto> m)"] unfolding Entity_eid_image .
      show ?thesis
        unfolding l r using skip_decode(2,3) [OF i2, of reg "unat k"] st by blast
    qed
  qed
qed

end

type_synonym entity_block = "entity \<times> (ctype \<times> byte list) list"

definition entity_record :: "registry \<Rightarrow> (component_schema \<Rightarrow> byte list \<Rightarrow> byte list) \<Rightarrow> entity_block \<Rightarrow> byte list" where
  "entity_record reg enc x = le64 (eid (fst x)) @ le16 (of_nat (length (snd x))) @ records reg enc (snd x)"

definition good_block :: "registry \<Rightarrow> entity_block \<Rightarrow> bool" where
  "good_block reg x \<longleftrightarrow> \<not> id_refused (eid (fst x)) \<and> length (snd x) < 2 ^ 16 \<and> encodable reg (snd x)"

lemma of_nat_u16: "n < 2 ^ 16 \<Longrightarrow> unat (of_nat n :: u16) = n"
  by (simp add: unsigned_of_nat take_bit_nat_eq_self)

lemma entity_record_head:
  assumes "rest b = entity_record reg enc x @ r" "in_buffer b" "length (snd x) < 2 ^ 16"
  defines "b2 \<equiv> adv 2 (adv 8 b)"
  shows "read_u64 b = Some (eid (fst x), adv 8 b)"
    "read_u16 (adv 8 b) = Some (of_nat (length (snd x)), b2)" "unat (of_nat (length (snd x)) :: u16) = length (snd x)"
    "rest b2 = records reg enc (snd x) @ r" "in_buffer b2"
    "adv (length (records reg enc (snd x))) b2 = adv (length (entity_record reg enc x)) b"
    "rest (adv (length (entity_record reg enc x)) b) = r" "in_buffer (adv (length (entity_record reg enc x)) b)"
proof -
  have r: "rest b = le64 (eid (fst x)) @ le16 (of_nat (length (snd x))) @ records reg enc (snd x) @ r"
    using assms(1) by (simp add: entity_record_def)
  show "read_u64 b = Some (eid (fst x), adv 8 b)" using r by (rule u64c.rd_enc)
  have r1: "rest (adv 8 b) = le16 (of_nat (length (snd x))) @ records reg enc (snd x) @ r" using r by (simp add: byte_simps)
  then show "read_u16 (adv 8 b) = Some (of_nat (length (snd x)), b2)" unfolding b2_def by (rule u16c.rd_enc)
  show "unat (of_nat (length (snd x)) :: u16) = length (snd x)" by (rule of_nat_u16 [OF assms(3)])
  show "rest b2 = records reg enc (snd x) @ r" using r1 by (simp add: b2_def rest_adv)
  show "in_buffer b2" using assms(2) r by (simp add: b2_def byte_simps in_buffer_adv)
  show "adv (length (records reg enc (snd x))) b2 = adv (length (entity_record reg enc x)) b"
    by (simp add: b2_def byte_simps entity_record_def)
  show "rest (adv (length (entity_record reg enc x)) b) = r" using assms(1) by (simp add: rest_adv)
  show "in_buffer (adv (length (entity_record reg enc x)) b)" using assms(1,2) by (simp add: in_buffer_adv)
qed

context component_format
begin

lemma scan_records:
  assumes "list_all (good_block reg) xs" "distinct (map fst xs)" "\<forall>x\<in>set xs. eid (fst x) \<notin> ids"
    and "fitting reg" "in_buffer b" "rest b = concat (map (entity_record reg enc) xs) @ r"
  shows "scan_entities reg skip (length xs) ids b = Some (adv (length (concat (map (entity_record reg enc) xs))) b)"
  using assms
proof (induction xs arbitrary: ids b)
  case Nil
  then show ?case by (simp add: byte_simps)
next
  case (Cons x xs)
  have g: "\<not> id_refused (eid (fst x))" "length (snd x) < 2 ^ 16" "encodable reg (snd x)"
    using Cons.prems(1) by (simp_all add: good_block_def)
  have r: "rest b = entity_record reg enc x @ concat (map (entity_record reg enc) xs) @ r" using Cons.prems(6) by simp
  note h = entity_record_head [OF r Cons.prems(5) g(2)]
  note sk = skip_records [OF g(3) Cons.prems(4) h(5,4), unfolded h(6)]
  have "\<forall>y\<in>set xs. eid (fst y) \<notin> insert (eid (fst x)) ids"
    using Cons.prems(2,3) by (auto simp: image_iff entity.expand)
  from Cons.IH [OF _ _ this Cons.prems(4) h(8,7)] Cons.prems(1,2,3) g(1) h(1,2,3) sk
  show ?case by (simp add: byte_simps)
qed

end

section \<open>A small world whose component has fields\<close>

definition wire_registry :: registry where
  "wire_registry = \<lparr>rg_schemas = [demo_schema], rg_id_by_name = [''Demo'' \<mapsto> 1]\<rparr>"

definition wire_env :: "(nat, unit) env" where
  "wire_env = sample_env\<lparr>env_registry := wire_registry\<rparr>"

definition wire_start :: "('u, 'v) env \<Rightarrow> 'u \<Rightarrow> 'u world" where
  "wire_start E u = snd (create_entity E (new_world E u))"

definition wire_world :: "('u, 'v) env \<Rightarrow> 'u \<Rightarrow> 'u world" where
  "wire_world E u = add_raw E e1 1 (Some demo_row) (wire_start E u)"

lemma wire_registry_ok:
  "schema_of wire_registry 1 = Some demo_schema" "schema_of wire_registry t = Some s \<Longrightarrow> s = demo_schema"
  "fitting wire_registry"
proof -
  show one: "s = demo_schema" if "schema_of wire_registry t = Some s" for t s
    using that by (auto simp: schema_of_def wire_registry_def split: if_splits)
  show "schema_of wire_registry 1 = Some demo_schema"
    by (simp add: schema_of_def wire_registry_def INVALID_COMPONENT_TYPE_def)
  show "fitting wire_registry"
    unfolding fitting_def
  proof (intro allI impI)
    fix t s
    assume "schema_of wire_registry t = Some s"
    then have "s = demo_schema" by (rule one)
    then show "fields_fit (cs_fields s) (cs_size s)" using demo_fit by (simp add: demo_schema_def demo_row_def)
  qed
qed

lemma wire_env_ok:
  "passive_env wire_env" "visits_all wire_env" "env_registry wire_env = wire_registry"
  by (auto simp: passive_env_def visits_all_def sample_env_def wire_env_def)

lemma wire_start_ok:
  fixes E :: "('u, 'v) env"
  shows "create_entity E (new_world E u) = (e1, wire_start E u)" "wf_world (env_registry E) (wire_start E u)"
    "content (wire_start E u) = [e1 \<mapsto> Map.empty]" "open_mode (wire_start E u)"
    "wf_store (env_registry E) (wire_start E u)"
proof -
  have "fst (create_entity E (new_world E u)) = e1"
    by (simp add: create_entity_def alloc_entity_id_def new_world_fields Let_def e1_def case_prod_beta)
  then show c: "create_entity E (new_world E u) = (e1, wire_start E u)"
    by (simp add: wire_start_def prod_eq_iff)
  note w = create_entity_world [OF new_world_wf(1) c]
  show "wf_world (env_registry E) (wire_start E u)" by (rule w(1))
  then show "wf_store (env_registry E) (wire_start E u)" by (simp add: wf_world_def)
  show "content (wire_start E u) = [e1 \<mapsto> Map.empty]" using w(2) e1_ok(1) by (simp add: new_world_wf(2))
  have "w_iteration_depth (place_entity E e v) = w_iteration_depth v \<and> w_defer_moves (place_entity E e v) = w_defer_moves v"
    for e v
    by (simp add: place_entity_def Let_def case_prod_beta invalidate_cache_def set_location_def set_arch_def)
  then show "open_mode (wire_start E u)"
    by (simp add: open_mode_def in_iteration_def wire_start_def create_entity_def alloc_entity_id_def new_world_fields
        case_prod_beta Let_def)
qed

lemma wire_world_ok:
  fixes E :: "('u, 'v) env"
  assumes E: "passive_env E" "env_registry E = wire_registry"
  shows "wf_world (env_registry E) (wire_world E u)" "content (wire_world E u) = [e1 \<mapsto> [1 \<mapsto> demo_row]]"
    "open_mode (wire_world E u)" "wf_store (env_registry E) (wire_world E u)" "is_alive (wire_world E u) e1"
proof -
  let ?w = "wire_start E u"
  obtain l where l: "location_of ?w e1 = Some l" using content_None [of ?w e1] by (auto simp: wire_start_ok(3))
  have s: "schema_of (env_registry E) 1 = Some demo_schema" using wire_registry_ok(1) E(2) by simp
  have d: "case Some demo_row of Some bs \<Rightarrow> cs_size demo_schema \<le> length bs | None \<Rightarrow> True"
    by (simp add: demo_schema_def demo_row_def)
  have md: "\<not> w_defer_moves ?w" "\<not> in_iteration ?w" using wire_start_ok(4) [of E u] by (simp_all add: open_mode_def)
  note ac = add_raw_content [OF wire_start_ok(5) E(1) l s md d, folded wire_world_def]
  have "value_bytes demo_schema (Some demo_row) = demo_row" by (simp add: value_bytes_def demo_schema_def demo_row_def)
  then show c: "content (wire_world E u) = [e1 \<mapsto> [1 \<mapsto> demo_row]]" using ac(1) by (simp add: wire_start_ok(3))
  show "open_mode (wire_world E u)" using open_mode_ctl [OF ac(2)] wire_start_ok(4) [of E u] by simp
  show wf: "wf_world (env_registry E) (wire_world E u)"
    unfolding wire_world_def by (rule add_raw_world [OF wire_start_ok(2) passive_keeps_world [OF E(1)]])
  then show st': "wf_store (env_registry E) (wire_world E u)" by (simp add: wf_world_def)
  show "is_alive (wire_world E u) e1" using is_alive_content [OF st'] c by simp
qed

lemma e1_id: "\<not> id_refused (eid e1)"
  using e1_ok(3) by (simp add: id_refused_def)

end
