(* ===== verification/SyncPlan.thy ===== *)
theory SyncPlan
  imports Complex_Main Blocks
begin

text \<open>
  The file-local helpers of \<open>src/network/network_sync.cpp\<close>: the interval of a sync priority, the
  per-schema replication plan (which fields ride a spawn packet, which delta bucket carries
  which field) and the field masks of wire version 2. Intervals are \<open>double\<close> in the code and
  rational numbers here. \<open>sync_plan_for\<close> memoizes the plan per type id; its callers only ask for
  registered types, whose schemas never change, so the model computes the plan each time.
\<close>

unbundle bit_operations_syntax

section \<open>Plans\<close>

definition SYNC_VERSION :: u16 where
  "SYNC_VERSION = 2"

definition SYNC_VERSION_MIN :: u16 where
  "SYNC_VERSION_MIN = 1"

definition priority_interval :: "byte \<Rightarrow> rat" where
  "priority_interval p_priority =
     (if p_priority = SYNC_REALTIME then 0
      else if p_priority = SYNC_HIGH then 5 / 100
      else if p_priority = SYNC_MEDIUM then 1 / 10
      else if p_priority = SYNC_LOW then 5 / 10
      else - 1)"

definition component_interval :: "registry \<Rightarrow> ctype \<Rightarrow> rat" where
  "component_interval reg p_t =
     (case schema_of reg p_t of None \<Rightarrow> - 1
      | Some s \<Rightarrow> fold (\<lambda>f fastest.
          if \<not> fd_is_networked f then fastest
          else (let iv = priority_interval (fd_sync_priority f)
                in if iv < 0 then fastest
                   else if fastest < 0 \<or> iv < fastest then iv else fastest)) (cs_fields s) (- 1))"

record field_sync_plan =
  fp_spawn_mask :: "bool list"
  fp_bucket_intervals :: "rat list"
  fp_bucket_masks :: "bool list list"
  fp_any_delta :: bool

definition field_replicates :: "field_descriptor \<Rightarrow> bool" where
  "field_replicates f \<longleftrightarrow> fd_is_networked f \<and> fd_sync_priority f \<noteq> SYNC_LOCAL"

definition delta_intervals :: "field_descriptor list \<Rightarrow> rat list" where
  "delta_intervals fds = sort (fold (\<lambda>f intervals.
     let iv = (if field_replicates f then priority_interval (fd_sync_priority f) else - 1)
     in if iv \<ge> 0 \<and> iv \<notin> set intervals then intervals @ [iv] else intervals) fds [])"

definition bucket_mask :: "field_descriptor list \<Rightarrow> rat \<Rightarrow> bool list" where
  "bucket_mask fds iv = map (\<lambda>f. field_replicates f \<and> priority_interval (fd_sync_priority f) = iv) fds"

definition spawn_mask :: "component_schema \<Rightarrow> bool list" where
  "spawn_mask s = map field_replicates (cs_fields s)"

definition sync_plan_for :: "registry \<Rightarrow> ctype \<Rightarrow> field_sync_plan" where
  "sync_plan_for reg p_t =
     (case schema_of reg p_t of
        None \<Rightarrow> \<lparr>fp_spawn_mask = [], fp_bucket_intervals = [], fp_bucket_masks = [], fp_any_delta = False\<rparr>
      | Some s \<Rightarrow>
          (let intervals = delta_intervals (cs_fields s)
           in \<lparr>fp_spawn_mask = spawn_mask s, fp_bucket_intervals = intervals,
               fp_bucket_masks = map (bucket_mask (cs_fields s)) intervals,
               fp_any_delta = (intervals \<noteq> [])\<rparr>))"

text \<open>\<open>VECSSnapshotReplication::is_networked\<close>\<close>

definition is_networked :: "registry \<Rightarrow> ctype \<Rightarrow> bool" where
  "is_networked reg p_t =
     (case schema_of reg p_t of None \<Rightarrow> False
      | Some s \<Rightarrow> cs_is_networked s \<and> (\<exists>f\<in>set (cs_fields s). fd_sync_priority f \<noteq> SYNC_LOCAL))"

section \<open>Field masks on the wire\<close>

definition mask_byte :: "bool list \<Rightarrow> nat \<Rightarrow> byte" where
  "mask_byte p_mask b = fold (\<lambda>j bits. let i = b * 8 + j in
     if i < length p_mask \<and> p_mask ! i then bits OR push_bit j 1 else bits) [0..<8] 0"

definition write_field_mask :: "bool list \<Rightarrow> binary_buffer \<Rightarrow> binary_buffer" where
  "write_field_mask p_mask p_buf =
     fold (\<lambda>b. write_u8 (mask_byte p_mask b)) [0..<field_mask_bytes (length p_mask)] p_buf"

definition set_mask_bits :: "nat \<Rightarrow> nat \<Rightarrow> byte \<Rightarrow> bool list \<Rightarrow> bool list" where
  "set_mask_bits p_field_count b bits r_mask = fold (\<lambda>j m. let i = b * 8 + j in
     if i < p_field_count \<and> bits AND push_bit j 1 \<noteq> 0 then m[i := True] else m) [0..<8] r_mask"

fun read_mask_bytes :: "nat \<Rightarrow> nat list \<Rightarrow> bool list \<Rightarrow> binary_buffer \<Rightarrow> (bool list \<times> binary_buffer) option" where
  "read_mask_bytes p_field_count [] r_mask p_buf = Some (r_mask, p_buf)"
| "read_mask_bytes p_field_count (b # bs) r_mask p_buf =
     (case read_u8 p_buf of None \<Rightarrow> None
      | Some (bits, p_buf') \<Rightarrow> read_mask_bytes p_field_count bs (set_mask_bits p_field_count b bits r_mask) p_buf')"

definition read_field_mask :: "nat \<Rightarrow> binary_buffer \<Rightarrow> (bool list \<times> binary_buffer) option" where
  "read_field_mask p_field_count p_buf =
     read_mask_bytes p_field_count [0..<field_mask_bytes p_field_count] (replicate p_field_count False) p_buf"

section \<open>Reading back a mask\<close>

lemma mask_byte_bit: "bit (mask_byte msk b) j \<longleftrightarrow> j < 8 \<and> b * 8 + j < length msk \<and> msk ! (b * 8 + j)"
proof -
  have "bit (fold (\<lambda>j bits. let i = b * 8 + j in
        if i < length msk \<and> msk ! i then bits OR push_bit j 1 else bits) js (a :: byte)) n
      \<longleftrightarrow> bit a n \<or> n < 8 \<and> n \<in> set js \<and> b * 8 + n < length msk \<and> msk ! (b * 8 + n)" for js a n
    by (induction js arbitrary: a) (auto simp: Let_def bit_simps)
  then show ?thesis by (auto simp: mask_byte_def)
qed

lemma set_mask_bits_nth:
  shows "length (set_mask_bits n b bits m) = length m"
    and "length m = n \<Longrightarrow> i < n \<Longrightarrow>
      set_mask_bits n b bits m ! i = (m ! i \<or> b * 8 \<le> i \<and> i < b * 8 + 8 \<and> bit bits (i - b * 8))"
proof -
  let ?step = "\<lambda>j m. let i = b * 8 + j in if i < n \<and> bits AND push_bit j 1 \<noteq> 0 then m[i := True] else m"
  have len: "length (fold ?step js m) = length m" for js and m :: "bool list"
    by (induction js arbitrary: m) (simp_all add: Let_def)
  then show "length (set_mask_bits n b bits m) = length m" by (simp add: set_mask_bits_def)
  have "fold ?step js m ! i = (m ! i \<or> (\<exists>j\<in>set js. i = b * 8 + j \<and> bit bits j))" if "length m = n" "i < n" for js m
    using that
    by (induction js arbitrary: m)
      (auto simp: Let_def nth_list_update bit_iff_and_push_bit_not_eq_0 simp del: push_bit_of_1)
  then show "set_mask_bits n b bits m ! i = (m ! i \<or> b * 8 \<le> i \<and> i < b * 8 + 8 \<and> bit bits (i - b * 8))"
    if "length m = n" "i < n" using that by (auto simp: set_mask_bits_def intro: bexI [of _ "i - b * 8"])
qed

definition mask_bytes :: "bool list \<Rightarrow> byte list" where
  "mask_bytes msk = map (mask_byte msk) [0..<field_mask_bytes (length msk)]"

lemma length_mask_bytes [simp]: "length (mask_bytes msk) = field_mask_bytes (length msk)"
  by (simp add: mask_bytes_def)

lemma write_field_mask_data: "buf_data (write_field_mask msk b) = buf_data b @ mask_bytes msk"
proof -
  have "buf_data (fold (\<lambda>k. write_u8 (mask_byte msk k)) ks b) = buf_data b @ map (mask_byte msk) ks" for ks
    by (induction ks arbitrary: b) (simp_all add: write_u8_data)
  then show ?thesis by (simp add: write_field_mask_def mask_bytes_def)
qed

lemma read_mask_bytes_written:
  assumes "rest b = map (mask_byte msk) ks @ r" "length m = length msk" "length msk = n"
  shows "\<exists>m'. read_mask_bytes n ks m b = Some (m', adv (length ks) b) \<and> length m' = n
    \<and> (\<forall>i < n. m' ! i = (m ! i \<or> i div 8 \<in> set ks \<and> msk ! i))"
  using assms
proof (induction ks arbitrary: b m)
  case Nil
  then show ?case by (simp add: byte_simps)
next
  case (Cons k ks)
  have 1: "read_u8 b = Some (mask_byte msk k, adv 1 b)"
    using u8c.rd_enc [of b "mask_byte msk k" "map (mask_byte msk) ks @ r"] Cons.prems(1) by simp
  have r: "rest (adv 1 b) = map (mask_byte msk) ks @ r" using Cons.prems(1) by (simp add: byte_simps)
  let ?m = "set_mask_bits n k (mask_byte msk k) m"
  have len: "length ?m = length msk" using Cons.prems(2) by (simp add: set_mask_bits_nth(1))
  obtain m' where m': "read_mask_bytes n ks ?m (adv 1 b) = Some (m', adv (length ks) (adv 1 b))" "length m' = n"
    "\<forall>i < n. m' ! i = (?m ! i \<or> i div 8 \<in> set ks \<and> msk ! i)"
    using Cons.IH [OF r len Cons.prems(3)] by blast
  have "?m ! i = (m ! i \<or> i div 8 = k \<and> msk ! i)" if "i < n" for i
  proof -
    have "k * 8 \<le> i \<and> i < k * 8 + 8 \<longleftrightarrow> i div 8 = k" by linarith
    then show ?thesis
      using set_mask_bits_nth(2) [of m n i k "mask_byte msk k"] that Cons.prems(2,3) by (auto simp: mask_byte_bit)
  qed
  then show ?case using 1 m' by (auto simp: byte_simps)
qed

lemma div8_mask_bytes: "i < n \<Longrightarrow> i div 8 < field_mask_bytes n"
  by (simp add: field_mask_bytes_def)

text \<open>Every mask survives the wire.\<close>

lemma read_field_mask_written:
  assumes "rest b = mask_bytes msk @ r"
  shows "read_field_mask (length msk) b = Some (msk, adv (field_mask_bytes (length msk)) b)"
proof -
  obtain m' where m': "read_mask_bytes (length msk) [0..<field_mask_bytes (length msk)] (replicate (length msk) False) b
      = Some (m', adv (field_mask_bytes (length msk)) b)"
    "length m' = length msk" "\<forall>i < length msk. m' ! i = (i div 8 \<in> set [0..<field_mask_bytes (length msk)] \<and> msk ! i)"
    using read_mask_bytes_written [OF assms [unfolded mask_bytes_def], of "replicate (length msk) False" "length msk"]
    by auto
  have "m' = msk" using m'(2,3) div8_mask_bytes by (intro nth_equalityI) auto
  then show ?thesis using m'(1) by (simp add: read_field_mask_def)
qed

lemma read_field_mask_Some:
  assumes "in_buffer b" "read_field_mask n b = Some (msk, b')"
  shows "length msk = n" "b' = adv (field_mask_bytes n) b" "in_buffer b'"
proof -
  have "length msk = length m \<and> b' = adv (length ks) b \<and> in_buffer b'"
    if "read_mask_bytes n ks m b = Some (msk, b')" "in_buffer b" for ks m b
    using that
  proof (induction ks arbitrary: m b)
    case Nil
    then show ?case by (simp add: byte_simps)
  next
    case (Cons k ks)
    then obtain v b1 where v: "read_u8 b = Some (v, b1)" by (auto split: option.splits)
    note d = u8c.rd_SomeD [OF v]
    have i: "in_buffer b1" using d Cons.prems(2) by (simp add: in_buffer_adv)
    show ?case using Cons.IH [of _ b1] Cons.prems(1) v d i by (auto simp: set_mask_bits_nth(1) byte_simps)
  qed
  from this [OF assms(2) [unfolded read_field_mask_def] assms(1)]
  show "length msk = n" "b' = adv (field_mask_bytes n) b" "in_buffer b'" by auto
qed

section \<open>The masked format\<close>

text \<open>Both versions of a component payload, chosen by the packet's version field.\<close>

definition write_masked :: "component_schema \<Rightarrow> byte list \<Rightarrow> binary_buffer \<Rightarrow> binary_buffer" where
  "write_masked s src b = serialize_component_fields s src (write_field_mask (spawn_mask s) b) (spawn_mask s)"

definition read_version :: "u16 \<Rightarrow> component_schema \<Rightarrow> byte list \<Rightarrow> binary_buffer \<Rightarrow> read_result" where
  "read_version version s row b =
     (if version = 1 then deserialize_component s row b
      else (case read_field_mask (length (cs_fields s)) b of None \<Rightarrow> (False, row, b)
            | Some (msk, b1) \<Rightarrow> deserialize_component_fields s row b1 msk))"

definition skip_version :: "u16 \<Rightarrow> component_schema \<Rightarrow> binary_buffer \<Rightarrow> binary_buffer option" where
  "skip_version version s b =
     (if version = 1 then skip_component s b
      else (case read_field_mask (length (cs_fields s)) b of None \<Rightarrow> None
            | Some (msk, b1) \<Rightarrow> skip_bytes (serialized_component_fields_size s msk) b1))"

definition replicated :: "component_schema \<Rightarrow> field_descriptor list" where
  "replicated s = selected_from (spawn_mask s) 0 (cs_fields s)"

definition masked_bytes :: "component_schema \<Rightarrow> byte list \<Rightarrow> byte list" where
  "masked_bytes s src = mask_bytes (spawn_mask s) @ fields_bytes (replicated s) src"

lemma selected_from_map:
  "selected_from (map P (pre @ fds)) (length pre) fds = filter P fds"
proof (induction fds arbitrary: pre)
  case (Cons f fds)
  have "selected_from (map P ((pre @ [f]) @ fds)) (length (pre @ [f])) fds = filter P fds"
    by (rule Cons.IH)
  then show ?case by (cases "P f") (simp_all add: mask_skips_def nth_append)
qed simp

lemma replicated_eq: "replicated s = filter field_replicates (cs_fields s)"
  using selected_from_map [of field_replicates "[]" "cs_fields s"] by (simp add: replicated_def spawn_mask_def)

lemma masked_payload:
  assumes fit: "fields_fit (cs_fields s) (length src)" and v: "v \<noteq> 1"
  shows "buf_data (write_masked s src b) = buf_data b @ masked_bytes s src"
    "in_buffer b \<Longrightarrow> rest b = masked_bytes s src @ r \<Longrightarrow>
       read_version v s m b = (True, store_fields (replicated s) src m, adv (length (masked_bytes s src)) b)
       \<and> skip_version v s b = Some (adv (length (masked_bytes s src)) b)"
proof -
  have fit': "fields_fit (replicated s) (length src)" unfolding replicated_def by (rule fields_fit_selected [OF fit])
  show "buf_data (write_masked s src b) = buf_data b @ masked_bytes s src"
    using write_fields_data [OF fit'] write_field_mask_data [of "spawn_mask s" b]
    by (simp add: write_masked_def serialize_component_fields_def write_fields_from_selected replicated_def masked_bytes_def)
  assume b: "in_buffer b" and r: "rest b = masked_bytes s src @ r"
  let ?n = "field_mask_bytes (length (cs_fields s))" and ?sz = "length (fields_bytes (replicated s) src)"
  have len: "length (spawn_mask s) = length (cs_fields s)" by (simp add: spawn_mask_def)
  have 1: "read_field_mask (length (cs_fields s)) b = Some (spawn_mask s, adv ?n b)"
    using read_field_mask_written [of b "spawn_mask s" "fields_bytes (replicated s) src @ r"] r
    by (simp add: masked_bytes_def len)
  have r1: "rest (adv ?n b) = fields_bytes (replicated s) src @ r"
    using r by (simp add: rest_adv masked_bytes_def len)
  have i1: "in_buffer (adv ?n b)" using b r by (simp add: in_buffer_adv masked_bytes_def len)
  have n: "?sz = sum_list (map field_size (replicated s))" by (rule length_fields_bytes [OF fit'])
  have "read_version v s m b = (True, store_fields (replicated s) src m, adv (length (masked_bytes s src)) b)"
    using read_fields_rest [OF r1 fit', of m] i1 v
    by (simp add: read_version_def 1 deserialize_component_fields_def read_fields_from_selected in_buffer_def n len
        adv_adv masked_bytes_def flip: replicated_def)
  moreover have "skip_version v s b = Some (adv (length (masked_bytes s src)) b)"
    using skip_bytes_Some [OF i1] r1 v n
    by (simp add: skip_version_def 1 serialized_component_fields_size_def fields_size_from_selected len adv_adv
        masked_bytes_def flip: replicated_def)
  ultimately show "read_version v s m b = (True, store_fields (replicated s) src m, adv (length (masked_bytes s src)) b)
       \<and> skip_version v s b = Some (adv (length (masked_bytes s src)) b)" by simp
qed

text \<open>For every version, what the validating pass skips is read without failure.\<close>

lemma masked_skip_read:
  assumes b: "in_buffer b" and k: "skip_version v s b = Some b'" and v: "v \<noteq> 1"
  shows "in_buffer b' \<and> (\<exists>m'. read_version v s m b = (True, m', b'))"
proof -
  obtain msk b1 where m: "read_field_mask (length (cs_fields s)) b = Some (msk, b1)"
    "skip_bytes (serialized_component_fields_size s msk) b1 = Some b'"
    using v k by (auto simp: skip_version_def split: option.splits)
  have i1: "in_buffer b1" using read_field_mask_Some [OF b m(1)] by simp
  then have e: "sum_list (map field_size (selected_from msk 0 (cs_fields s))) \<le> length (rest b1)"
    "b' = adv (sum_list (map field_size (selected_from msk 0 (cs_fields s)))) b1"
    using m(2) by (auto simp: skip_bytes_Some serialized_component_fields_size_def fields_size_from_selected split: if_splits)
  obtain m' where "read_fields (selected_from msk 0 (cs_fields s)) m b1 = (True, m', b')"
    using read_fields_enough [OF i1 e(1)] e(2) by blast
  then show ?thesis
    using v e i1 by (simp add: read_version_def m(1) deserialize_component_fields_def read_fields_from_selected in_buffer_adv)
qed

lemma masked_read_skip:
  assumes b: "in_buffer b" and r: "read_version v s m b = (True, m', b')" and v: "v \<noteq> 1"
  shows "skip_version v s b = Some b'"
proof -
  obtain msk b1 where m: "read_field_mask (length (cs_fields s)) b = Some (msk, b1)"
    "deserialize_component_fields s m b1 msk = (True, m', b')"
    using r v by (auto simp: read_version_def split: option.splits)
  have i1: "in_buffer b1" using read_field_mask_Some [OF b m(1)] by simp
  from read_fields_True [OF i1, of "selected_from msk 0 (cs_fields s)" m m' b'] m(2)
  show ?thesis
    using v by (simp add: skip_version_def m(1) skip_bytes_Some [OF i1] serialized_component_fields_size_def
        fields_size_from_selected deserialize_component_fields_def read_fields_from_selected)
qed

lemma masked_read_length:
  assumes b: "in_buffer b" and fit: "fields_fit (cs_fields s) (length m)"
    and r: "read_version v s m b = (ok, m', b')" and v: "v \<noteq> 1"
  shows "length m' = length m \<and> in_buffer b'"
proof (cases "read_field_mask (length (cs_fields s)) b")
  case None
  then show ?thesis using r v b by (simp add: read_version_def)
next
  case (Some x)
  obtain msk b1 where x: "read_field_mask (length (cs_fields s)) b = Some (msk, b1)" using Some by (cases x) simp
  have i1: "in_buffer b1" using read_field_mask_Some [OF b x] by simp
  show ?thesis
    using read_fields_length [OF i1 fields_fit_selected [OF fit]] r v
    by (simp add: read_version_def x deserialize_component_fields_def read_fields_from_selected)
qed

definition write_version :: "u16 \<Rightarrow> component_schema \<Rightarrow> byte list \<Rightarrow> binary_buffer \<Rightarrow> binary_buffer" where
  "write_version v s src b = (if v = 1 then serialize_component s src b else write_masked s src b)"

definition version_bytes :: "u16 \<Rightarrow> component_schema \<Rightarrow> byte list \<Rightarrow> byte list" where
  "version_bytes v s src = (if v = 1 then fields_bytes (cs_fields s) src else masked_bytes s src)"

definition version_merge :: "u16 \<Rightarrow> component_schema \<Rightarrow> byte list \<Rightarrow> byte list \<Rightarrow> byte list" where
  "version_merge v s src old = store_fields (if v = 1 then cs_fields s else replicated s) src old"

interpretation packet: component_format "write_version v" "read_version v" "skip_version v" "version_bytes v"
  "version_merge v" for v
proof
  fix s :: component_schema and src r :: "byte list" and b m
  assume fit: "fields_fit (cs_fields s) (length src)"
  show "buf_data (write_version v s src b) = buf_data b @ version_bytes v s src"
    using whole.wr_data [OF fit] masked_payload(1) [OF fit, of v]
    by (cases "v = 1") (simp_all add: write_version_def version_bytes_def)
  assume b: "in_buffer b" and r: "rest b = version_bytes v s src @ r"
  show "read_version v s m b = (True, version_merge v s src m, adv (length (version_bytes v s src)) b)"
    using whole.rd_enc [OF fit b, of r m] masked_payload(2) [OF fit _ b, of v r m] r
    by (cases "v = 1") (simp_all add: read_version_def version_merge_def version_bytes_def)
  show "skip_version v s b = Some (adv (length (version_bytes v s src)) b)"
    using whole.skip_enc [OF fit b, of r] masked_payload(2) [OF fit _ b, of v r m] r
    by (cases "v = 1") (simp_all add: skip_version_def version_bytes_def)
next
  fix s :: component_schema and b b' m
  assume b: "in_buffer b" and k: "skip_version v s b = Some b'"
  then show "in_buffer b' \<and> (\<exists>m'. read_version v s m b = (True, m', b'))"
    using whole.skip_rd [OF b, of s b' m] masked_skip_read [OF b k]
    by (cases "v = 1") (simp_all add: skip_version_def read_version_def)
next
  fix s :: component_schema and b b' m m'
  assume b: "in_buffer b" and r: "read_version v s m b = (True, m', b')"
  then show "skip_version v s b = Some b'"
    using whole.rd_skip [OF b, of s m m' b'] masked_read_skip [OF b r]
    by (cases "v = 1") (simp_all add: skip_version_def read_version_def)
next
  fix s :: component_schema and b b' m m' ok
  assume b: "in_buffer b" and fit: "fields_fit (cs_fields s) (length m)" and r: "read_version v s m b = (ok, m', b')"
  then show "length m' = length m \<and> in_buffer b'"
    using whole.rd_length [OF b fit, of ok m' b'] masked_read_length [OF b fit r]
    by (cases "v = 1") (simp_all add: read_version_def)
qed

section \<open>What the plan says\<close>

lemma delta_intervals_set:
  "set (delta_intervals fds) = {iv. iv \<ge> 0 \<and> (\<exists>f\<in>set fds. field_replicates f \<and> priority_interval (fd_sync_priority f) = iv)}"
  "sorted_wrt (<) (delta_intervals fds)"
proof -
  let ?step = "\<lambda>f intervals. let iv = (if field_replicates f then priority_interval (fd_sync_priority f) else - 1)
     in if iv \<ge> 0 \<and> iv \<notin> set intervals then intervals @ [iv] else intervals"
  have s: "set (fold ?step fds ivs) = set ivs \<union> {iv. iv \<ge> 0 \<and> (\<exists>f\<in>set fds. field_replicates f
        \<and> priority_interval (fd_sync_priority f) = iv)}" for ivs
    by (induction fds arbitrary: ivs) (auto simp: Let_def)
  have d: "distinct ivs \<Longrightarrow> distinct (fold ?step fds ivs)" for ivs
    by (induction fds arbitrary: ivs) (auto simp: Let_def)
  show "set (delta_intervals fds) = {iv. iv \<ge> 0 \<and> (\<exists>f\<in>set fds. field_replicates f \<and> priority_interval (fd_sync_priority f) = iv)}"
    using s [of "[]"] by (simp add: delta_intervals_def)
  show "sorted_wrt (<) (delta_intervals fds)"
    using d [of "[]"] unfolding delta_intervals_def by (intro strict_sorted_sort) simp
qed

lemma fastest_interval:
  defines "step \<equiv> \<lambda>f fastest. if \<not> fd_is_networked f then fastest
          else (let iv = priority_interval (fd_sync_priority f)
                in if iv < 0 then fastest else if fastest < 0 \<or> iv < fastest then iv else fastest)"
  assumes "\<forall>f\<in>set fds. fd_is_networked f \<longrightarrow> priority_interval (fd_sync_priority f) \<ge> 0 \<longrightarrow> x \<le> priority_interval (fd_sync_priority f)"
    and "\<exists>f\<in>set fds. fd_is_networked f \<and> priority_interval (fd_sync_priority f) = x \<or> x = a" "0 \<le> x"
    and "a < 0 \<or> x \<le> a" "a = x \<or> (\<exists>f\<in>set fds. fd_is_networked f \<and> priority_interval (fd_sync_priority f) = x)"
  shows "fold step fds a = x"
  using assms(2,4-6)
proof (induction fds arbitrary: a)
  case Nil
  then show ?case by simp
next
  case (Cons f fds)
  have "fold step fds (step f a) = x"
    using Cons.prems by (intro Cons.IH) (auto simp: step_def Let_def)
  then show ?case by simp
qed

lemma no_interval:
  assumes "\<forall>f\<in>set fds. fd_is_networked f \<longrightarrow> priority_interval (fd_sync_priority f) < 0"
  shows "fold (\<lambda>f fastest. if \<not> fd_is_networked f then fastest
          else (let iv = priority_interval (fd_sync_priority f)
                in if iv < 0 then fastest else if fastest < 0 \<or> iv < fastest then iv else fastest)) fds a = a"
  using assms by (induction fds arbitrary: a) (simp_all add: Let_def)

lemma local_has_no_interval: "0 \<le> priority_interval p \<Longrightarrow> p \<noteq> SYNC_LOCAL"
  by (auto simp: priority_interval_def split: if_splits)

lemma component_interval_plan:
  assumes s: "schema_of reg t = Some s"
  shows "component_interval reg t = (if delta_intervals (cs_fields s) = [] then - 1 else hd (delta_intervals (cs_fields s)))"
proof (cases "delta_intervals (cs_fields s)")
  case Nil
  then have "\<not> (\<exists>f\<in>set (cs_fields s). field_replicates f \<and> 0 \<le> priority_interval (fd_sync_priority f))"
    using delta_intervals_set(1) [of "cs_fields s"] by auto
  then have "\<forall>f\<in>set (cs_fields s). fd_is_networked f \<longrightarrow> priority_interval (fd_sync_priority f) < 0"
    using local_has_no_interval unfolding field_replicates_def by (meson not_less)
  then show ?thesis using Nil no_interval [of "cs_fields s" "- 1"] by (simp add: component_interval_def s)
next
  case (Cons x xs)
  have x: "x \<in> set (delta_intervals (cs_fields s))" by (simp add: Cons)
  have min: "x \<le> y" if "y \<in> set (delta_intervals (cs_fields s))" for y
    using delta_intervals_set(2) [of "cs_fields s"] that by (auto simp: Cons)
  have "component_interval reg t = x"
    unfolding component_interval_def s option.case
  proof (rule fastest_interval)
    show "\<forall>f\<in>set (cs_fields s). fd_is_networked f \<longrightarrow> 0 \<le> priority_interval (fd_sync_priority f)
        \<longrightarrow> x \<le> priority_interval (fd_sync_priority f)"
      using min local_has_no_interval by (auto simp: delta_intervals_set field_replicates_def)
  qed (use x in \<open>auto simp: delta_intervals_set field_replicates_def\<close>)
  then show ?thesis by (simp add: Cons)
qed

section \<open>Properties\<close>

text \<open>
  Field masks survive the wire: from any cursor, \<open>read_field_mask\<close> returns the mask that
  \<open>write_field_mask\<close> wrote, for every number of fields (also when it is no multiple of 8), and
  consumes exactly \<open>field_mask_bytes\<close> bytes.
\<close>

theorem field_mask_roundtrip:
  assumes "rest b = drop (length (buf_data c)) (buf_data (write_field_mask msk c)) @ r"
  shows "read_field_mask (length msk) b = Some (msk, adv (field_mask_bytes (length msk)) b)"
  using assms by (intro read_field_mask_written) (simp add: write_field_mask_data)

theorem field_mask_roundtrip_witness:
  "read_field_mask 9 (from_packed [5, 1]) = Some ([True, False, True, False, False, False, False, False, True], adv 2 (from_packed [5, 1]))"
proof -
  let ?m = "[True, False, True, False, False, False, False, False, True]"
  have "buf_data (write_field_mask ?m empty_buffer) = [5, 1]" by code_simp
  then have "rest (from_packed [5, 1]) = drop (length (buf_data empty_buffer)) (buf_data (write_field_mask ?m empty_buffer)) @ []"
    by (simp add: from_packed_def rest_def empty_buffer_def)
  moreover have "length ?m = 9" "field_mask_bytes 9 = 2" by (simp_all add: field_mask_bytes_def)
  ultimately show ?thesis using field_mask_roundtrip [of "from_packed [5, 1]" empty_buffer ?m "[]"] by (simp only:)
qed

text \<open>
  C40. The replication plan of a registered component: the bucket intervals are strictly
  ascending; the spawn mask selects exactly the networked fields that are not \<open>SYNC_LOCAL\<close>;
  every such field with a delta interval is in exactly one bucket, the one of its interval, and
  every other field in none; \<open>any_delta\<close> says whether there is a bucket, and
  \<open>component_interval\<close> is the fastest of them.
\<close>

theorem sync_plan_partitions_fields:
  assumes s: "schema_of reg t = Some s"
  shows "let p = sync_plan_for reg t; fds = cs_fields s; n = length (fp_bucket_intervals p) in
     sorted_wrt (<) (fp_bucket_intervals p) \<and> length (fp_bucket_masks p) = n
   \<and> length (fp_spawn_mask p) = length fds
   \<and> (\<forall>i < length fds.
        (fp_spawn_mask p ! i \<longleftrightarrow> fd_is_networked (fds ! i) \<and> fd_sync_priority (fds ! i) \<noteq> SYNC_LOCAL)
      \<and> card {k. k < n \<and> fp_bucket_masks p ! k ! i}
          = (if fp_spawn_mask p ! i \<and> 0 \<le> priority_interval (fd_sync_priority (fds ! i)) then 1 else 0)
      \<and> (\<forall>k < n. fp_bucket_masks p ! k ! i \<longrightarrow> priority_interval (fd_sync_priority (fds ! i)) = fp_bucket_intervals p ! k))
   \<and> (fp_any_delta p \<longleftrightarrow> 0 < n)
   \<and> component_interval reg t = (if fp_any_delta p then hd (fp_bucket_intervals p) else - 1)"
proof -
  let ?ivs = "delta_intervals (cs_fields s)"
  note d = delta_intervals_set [of "cs_fields s"]
  have inj: "distinct ?ivs" using d(2) strict_sorted_iff by blast
  have card: "card {k. k < length ?ivs \<and> bucket_mask (cs_fields s) (?ivs ! k) ! i}
      = (if field_replicates f \<and> 0 \<le> priority_interval (fd_sync_priority f) then 1 else 0)"
    if i: "i < length (cs_fields s)" and f: "f = cs_fields s ! i" for i f
  proof -
    have m: "bucket_mask (cs_fields s) iv ! i \<longleftrightarrow> field_replicates f \<and> priority_interval (fd_sync_priority f) = iv" for iv
      using i by (simp add: bucket_mask_def f)
    show ?thesis
    proof (cases "field_replicates f \<and> 0 \<le> priority_interval (fd_sync_priority f)")
      case True
      then have "priority_interval (fd_sync_priority f) \<in> set ?ivs" using d(1) i f by auto
      then obtain k where k: "k < length ?ivs" "?ivs ! k = priority_interval (fd_sync_priority f)"
        by (auto simp: in_set_conv_nth)
      then have "{k. k < length ?ivs \<and> bucket_mask (cs_fields s) (?ivs ! k) ! i} = {k}"
        using True inj by (auto simp: m nth_eq_iff_index_eq)
      then show ?thesis using True by simp
    next
      case False
      have "0 \<le> ?ivs ! k" if "k < length ?ivs" for k using d(1) nth_mem [OF that] by auto
      then have "{k. k < length ?ivs \<and> bucket_mask (cs_fields s) (?ivs ! k) ! i} = {}"
        using False by (auto simp: m)
      then show ?thesis unfolding if_not_P [OF False] by simp
    qed
  qed
  have set: "{k. k < length ?ivs \<and> map (bucket_mask (cs_fields s)) ?ivs ! k ! i}
      = {k. k < length ?ivs \<and> bucket_mask (cs_fields s) (?ivs ! k) ! i}" for i by auto
  show ?thesis
    using d(2) card component_interval_plan [OF s]
    by (simp add: Let_def sync_plan_for_def s spawn_mask_def set field_replicates_def bucket_mask_def)
qed

theorem sync_plan_partitions_fields_witness:
  "sorted_wrt (<) (fp_bucket_intervals (sync_plan_for wire_registry 1))
   \<and> length (fp_bucket_masks (sync_plan_for wire_registry 1)) = length (fp_bucket_intervals (sync_plan_for wire_registry 1))"
  using sync_plan_partitions_fields [of wire_registry 1 demo_schema] wire_registry_ok(1)
  by (simp add: Let_def)

end
