(* ===== verification/SyncPacket.thy ===== *)
theory SyncPacket
  imports SyncPlan
begin

text \<open>
  \<open>validate_packet\<close> of \<open>src/network/network_sync.cpp\<close>: the dry run over a packet, before the
  receiving side touches its world. Each \<open>consume\<close> step returns the advanced cursor, or \<open>None\<close>
  where the code returns false.
\<close>

section \<open>Packets\<close>

text \<open>\<open>enum class SyncPacketKind\<close>; a value outside the enumeration (refused by the code) has no counterpart.\<close>

datatype sync_packet_kind = Spawn | Delta | FullState | Despawn

fun consume_delta_records :: "component_schema \<Rightarrow> nat \<Rightarrow> binary_buffer \<Rightarrow> binary_buffer option" where
  "consume_delta_records s 0 b = Some b"
| "consume_delta_records s (Suc n) b =
     (case read_u8 b of None \<Rightarrow> None
      | Some (bidx, b1) \<Rightarrow> (case read_field_mask (length (cs_fields s)) b1 of None \<Rightarrow> None
          | Some (msk, b2) \<Rightarrow> (case skip_bytes (serialized_component_fields_size s msk) b2 of None \<Rightarrow> None
              | Some b3 \<Rightarrow> consume_delta_records s n b3)))"

definition consume_delta_component_v2 :: "component_schema \<Rightarrow> binary_buffer \<Rightarrow> binary_buffer option" where
  "consume_delta_component_v2 s b =
     (case read_u8 b of None \<Rightarrow> None | Some (nrec, b1) \<Rightarrow> consume_delta_records s (unat nrec) b1)"

fun consume_delta_entities :: "registry \<Rightarrow> u16 \<Rightarrow> nat \<Rightarrow> binary_buffer \<Rightarrow> binary_buffer option" where
  "consume_delta_entities reg version 0 b = Some b"
| "consume_delta_entities reg version (Suc n) b =
     (case read_u64 b of None \<Rightarrow> None
      | Some (i, b1) \<Rightarrow> (case read_u8 b1 of None \<Rightarrow> None
          | Some (ncomp, b2) \<Rightarrow>
              (case skip_components reg (if version = 1 then skip_component else consume_delta_component_v2)
                     (unat ncomp) b2 of None \<Rightarrow> None
               | Some b3 \<Rightarrow> consume_delta_entities reg version n b3)))"

fun consume_full_entities :: "registry \<Rightarrow> u16 \<Rightarrow> nat \<Rightarrow> binary_buffer \<Rightarrow> binary_buffer option" where
  "consume_full_entities reg version 0 b = Some b"
| "consume_full_entities reg version (Suc n) b =
     (case read_u64 b of None \<Rightarrow> None
      | Some (i, b1) \<Rightarrow> (case read_u16 b1 of None \<Rightarrow> None
          | Some (ncomp, b2) \<Rightarrow> (case skip_components reg (skip_version version) (unat ncomp) b2 of None \<Rightarrow> None
              | Some b3 \<Rightarrow> consume_full_entities reg version n b3)))"

definition version_ok :: "u16 \<Rightarrow> bool" where
  "version_ok version \<longleftrightarrow> \<not> (version < SYNC_VERSION_MIN \<or> version > SYNC_VERSION)"

definition consumed :: "binary_buffer option \<Rightarrow> bool" where
  "consumed r = (case r of None \<Rightarrow> False | Some b \<Rightarrow> at_end b)"

definition validate_packet :: "registry \<Rightarrow> binary_buffer \<Rightarrow> sync_packet_kind \<Rightarrow> bool" where
  "validate_packet reg p_data p_kind =
     (let b = seek 0 p_data
      in if p_kind = Despawn then consumed (map_option snd (read_u64 b))
         else (case read_u16 b of None \<Rightarrow> False
               | Some (version, b1) \<Rightarrow>
                   if \<not> version_ok version then False
                   else if p_kind = Spawn then
                     (case read_u64 b1 of None \<Rightarrow> False
                      | Some (i, b2) \<Rightarrow> (case read_u16 b2 of None \<Rightarrow> False
                          | Some (ncomp, b3) \<Rightarrow> consumed (skip_components reg (skip_version version) (unat ncomp) b3)))
                   else
                     (case read_u32 b1 of None \<Rightarrow> False
                      | Some (n, b2) \<Rightarrow>
                          consumed (if p_kind = Delta then consume_delta_entities reg version (unat n) b2
                                    else consume_full_entities reg version (unat n) b2))))"

section \<open>A full-state scan\<close>

text \<open>
  \<open>apply_full_state\<close> scans the entities once more, with the id checks that \<open>validate_packet\<close> does
  not make; what that scan accepts, \<open>validate_packet\<close> has accepted up to the same position.
\<close>

lemma scan_consumes:
  "scan_entities reg (skip_version version) n ids b = Some b' \<Longrightarrow> consume_full_entities reg version n b = Some b'"
proof (induction n arbitrary: ids b)
  case (Suc n)
  obtain i b1 ncomp b2 b3 where k: "read_u64 b = Some (i, b1)" "read_u16 b1 = Some (ncomp, b2)"
    "skip_components reg (skip_version version) (unat ncomp) b2 = Some b3"
    "scan_entities reg (skip_version version) n (insert i ids) b3 = Some b'"
    using Suc.prems by (auto split: option.splits prod.splits if_splits)
  then show ?case using Suc.IH [OF k(4)] by simp
qed simp

end
