(* ===== verification/Snapshot.thy ===== *)
theory Snapshot
  imports Blocks
begin

text \<open>
  \<open>src/serialization/snapshot.{h,cpp}\<close> (\<open>World::serialize_snapshot\<close> and
  \<open>World::deserialize_snapshot\<close> forward to it): the whole world as bytes, and the two-pass load
  that validates the bytes before it clears the world. Archetypes are written in the order of
  their 64-bit signature; \<open>std::sort\<close> leaves the order of two archetypes with equal signatures (a
  hash collision) open, the model keeps their creation order.
\<close>

section \<open>Writing and loading\<close>

definition SNAPSHOT_VERSION :: u16 where
  "SNAPSHOT_VERSION = 1"

definition write_snapshot_row :: "registry \<Rightarrow> archetype \<Rightarrow> nat \<Rightarrow> binary_buffer \<Rightarrow> binary_buffer" where
  "write_snapshot_row reg x row b =
     (let e = a_entities x ! row;
          b1 = write_u16 (of_nat (length (a_component_ids x))) (write_u64 (eid e) b)
      in fold (\<lambda>i b. let t = a_component_ids x ! i;
                         s = the (schema_of reg t);
                         c = a_columns x ! i
                     in serialize_component s (row_read (c_elem_size c) row c) (write_u32 t b))
           [0..<length (a_component_ids x)] b1)"

definition by_signature :: "'u world \<Rightarrow> aid list" where
  "by_signature w = sort_key (\<lambda>a. a_signature (arch w a)) (w_archetype_list w)"

definition serialize_world_snapshot :: "('u, 'v) env \<Rightarrow> 'u world \<Rightarrow> binary_buffer \<Rightarrow> binary_buffer" where
  "serialize_world_snapshot E w b =
     (let b1 = write_u32 (entity_count w) (write_u16 SNAPSHOT_VERSION b)
      in fold (\<lambda>a. fold (write_snapshot_row (env_registry E) (arch w a)) [0..<length (a_entities (arch w a))])
           (by_signature w) b1)"

definition snapshot_valid :: "registry \<Rightarrow> binary_buffer \<Rightarrow> bool" where
  "snapshot_valid reg b =
     (case read_u16 b of None \<Rightarrow> False
      | Some (version, b1) \<Rightarrow>
          if version \<noteq> SNAPSHOT_VERSION then False
          else (case read_u32 b1 of None \<Rightarrow> False
                | Some (count, b2) \<Rightarrow> scan_entities reg skip_component (unat count) {} b2 \<noteq> None))"

fun load_entities :: "('u, 'v) env \<Rightarrow> nat \<Rightarrow> 'u world \<Rightarrow> binary_buffer \<Rightarrow> bool \<times> 'u world \<times> binary_buffer" where
  "load_entities E 0 w b = (True, w, b)"
| "load_entities E (Suc n) w b =
     (case read_u64 b of None \<Rightarrow> (False, w, b)
      | Some (i, b1) \<Rightarrow>
          (case create_entity_preassigned E i w of (e, w1) \<Rightarrow>
             if \<not> entity_bool e then (False, w1, b1)
             else (case read_u16 b1 of None \<Rightarrow> (False, w1, b1)
                   | Some (ncomp, b2) \<Rightarrow>
                       (case apply_components E deserialize_component (unat ncomp) e w1 b2 of
                          (ok, w2, b3) \<Rightarrow> if ok then load_entities E n w2 b3 else (False, w2, b3)))))"

definition deserialize_world_snapshot :: "('u, 'v) env \<Rightarrow> 'u world \<Rightarrow> binary_buffer \<Rightarrow> bool \<times> 'u world \<times> binary_buffer" where
  "deserialize_world_snapshot E w b =
     (if \<not> snapshot_valid (env_registry E) b then (False, w, b)
      else
        (let w1 = world_clear E w
         in (case read_u16 b of None \<Rightarrow> (False, w1, b)
             | Some (version, b1) \<Rightarrow>
                 if version \<noteq> SNAPSHOT_VERSION then (False, w1, b1)
                 else (case read_u32 b1 of None \<Rightarrow> (False, w1, b1)
                       | Some (count, b2) \<Rightarrow> load_entities E (unat count) w1 b2))))"

section \<open>Loading\<close>

lemma preassigned_entity:
  assumes wf: "wf_store (env_registry E) w" and i: "\<not> id_refused i" "content w (Entity i) = None"
    and md: "open_mode w" and c: "create_entity_preassigned E i w = (e, w1)"
  shows "e = Entity i" "entity_bool e" "wf_store (env_registry E) w1"
    "content w1 = (content w)(e \<mapsto> Map.empty)" "open_mode w1" "w_pending_ops w1 = w_pending_ops w"
proof -
  have sl: "slot (Entity i) \<noteq> 0xFFFFFFFF" "unat (slot (Entity i)) < K_MAX_SLOT"
    using i(1) by (auto simp: id_refused_def K_MAX_SLOT_def)
  have w1: "w1 = snd (create_entity_preassigned E (eid (Entity i)) w)" using c by simp
  note cp = create_preassigned_store [OF wf i(2), folded w1]
  show "entity_bool e" "e = Entity i"
  proof -
    have "location_of (if unat (slot (Entity i)) \<ge> length (w_slot_generations w)
        then w\<lparr>w_slot_generations := resize_generations (unat (slot (Entity i)) + 1) (w_slot_generations w)\<rparr> else w) (Entity i) = None"
      using i(2) by (simp add: content_None location_of_def)
    then show ei: "e = Entity i"
      using c sl by (auto simp: create_entity_preassigned_def Let_def split: if_splits)
    show "entity_bool e" unfolding ei by (rule entity_bool_slot [OF sl(1)])
  qed
  then show "wf_store (env_registry E) w1" "content w1 = (content w)(e \<mapsto> Map.empty)" "open_mode w1"
    "w_pending_ops w1 = w_pending_ops w"
    using cp sl md by (simp_all add: open_mode_def)
qed

text \<open>The second pass loads what the records say, without a failure.\<close>

lemma load_decoded:
  assumes "decode_entities (env_registry E) deserialize_component n K b = Some (K', b')"
    and "fitting (env_registry E)" "in_buffer b" "passive_env E"
    and "wf_store (env_registry E) w" "open_mode w" "content w = K"
  shows "\<exists>w'. load_entities E n w b = (True, w', b') \<and> wf_store (env_registry E) w' \<and> content w' = K'"
  using assms
proof (induction n arbitrary: K b w)
  case 0
  then show ?case by simp
next
  case (Suc n)
  let ?reg = "env_registry E"
  obtain i b1 ncomp b2 m b3 where k: "read_u64 b = Some (i, b1)" "\<not> id_refused i" "K (Entity i) = None"
    "read_u16 b1 = Some (ncomp, b2)" "decode_components ?reg deserialize_component (unat ncomp) Map.empty b2 = Some (m, b3)"
    "decode_entities ?reg deserialize_component n (K(Entity i \<mapsto> m)) b3 = Some (K', b')"
    using Suc.prems(1) by (auto split: option.splits prod.splits if_splits)
  have i1: "in_buffer b1" using u64c.rd_SomeD [OF k(1)] Suc.prems(3) by (auto simp: in_buffer_adv)
  have i2: "in_buffer b2" using u16c.rd_SomeD [OF k(4)] i1 by (auto simp: in_buffer_adv)
  obtain e w1 where c: "create_entity_preassigned E i w = (e, w1)" by (cases "create_entity_preassigned E i w")
  have n: "content w (Entity i) = None" using Suc.prems(7) k(3) by simp
  note pe = preassigned_entity [OF Suc.prems(5) k(2) n Suc.prems(6) c]
  have m: "content w1 e = Some Map.empty" by (simp add: pe(4))
  obtain w2 where a: "in_buffer b3" "apply_components E deserialize_component (unat ncomp) e w1 b2 = (True, w2, b3)"
    "wf_store ?reg w2" "content w2 = (content w1)(e \<mapsto> m)" "ctl w2 = ctl w1"
    using whole.apply_decoded [OF k(5) Suc.prems(2) i2 pe(3) Suc.prems(4) m pe(5)] by blast
  have o2: "open_mode w2" using open_mode_ctl [OF a(5)] pe(5) by simp
  have "content w2 = K(Entity i \<mapsto> m)" unfolding a(4) pe(4) pe(1) Suc.prems(7) by (simp del: fun_upd_apply)
  from Suc.IH [OF k(6) Suc.prems(2) a(1) Suc.prems(4) a(3) o2 this] show ?case
    using k(1,4) c pe(2) a(2) by simp
qed

lemma load_records:
  assumes "list_all (good_block (env_registry E)) xs" "distinct (map fst xs)" "\<forall>x\<in>set xs. content w (fst x) = None"
    and "fitting (env_registry E)" "in_buffer b" "passive_env E" "wf_store (env_registry E) w" "open_mode w"
    and "rest b = concat (map (entity_record (env_registry E) (\<lambda>s. fields_bytes (cs_fields s))) xs) @ r"
  shows "\<exists>w' b'. load_entities E (length xs) w b = (True, w', b') \<and> wf_store (env_registry E) w'
    \<and> content w' = (\<lambda>e. case map_of xs e of None \<Rightarrow> content w e
         | Some cs \<Rightarrow> Some (loaded (env_registry E) (\<lambda>s. store_fields (cs_fields s)) cs Map.empty))"
  using assms
proof (induction xs arbitrary: b w)
  case Nil
  then show ?case by auto
next
  case (Cons x xs)
  let ?reg = "env_registry E" and ?enc = "\<lambda>s. fields_bytes (cs_fields s)" and ?mg = "\<lambda>s. store_fields (cs_fields s)"
  have g: "\<not> id_refused (eid (fst x))" "length (snd x) < 2 ^ 16" "encodable ?reg (snd x)"
    using Cons.prems(1) by (simp_all add: good_block_def)
  have r: "rest b = entity_record ?reg ?enc x @ concat (map (entity_record ?reg ?enc) xs) @ r" using Cons.prems(9) by simp
  note h = entity_record_head [OF r Cons.prems(5) g(2)]
  have n: "content w (Entity (eid (fst x))) = None" using Cons.prems(3) by simp
  obtain e w1 where c: "create_entity_preassigned E (eid (fst x)) w = (e, w1)"
    by (cases "create_entity_preassigned E (eid (fst x)) w")
  note pe = preassigned_entity [OF Cons.prems(7) g(1) n Cons.prems(8) c]
  have e: "e = fst x" using pe(1) by simp
  have m: "content w1 e = Some Map.empty" by (simp add: pe(4))
  obtain w2 where w2: "apply_components E deserialize_component (length (snd x)) e w1 (adv 2 (adv 8 b))
      = (True, w2, adv (length (entity_record ?reg ?enc x)) b)"
    "wf_store ?reg w2" "content w2 = (content w1)(e \<mapsto> loaded ?reg ?mg (snd x) Map.empty)" "ctl w2 = ctl w1"
    using whole.apply_records [OF g(3) Cons.prems(4) h(5,4) pe(3) Cons.prems(6) m pe(5), unfolded h(6)] by blast
  have c2: "content w2 = (content w)(e \<mapsto> loaded ?reg ?mg (snd x) Map.empty)"
    unfolding w2(3) pe(4) by (simp del: fun_upd_apply)
  have o2: "open_mode w2" using open_mode_ctl [OF w2(4)] pe(5) by simp
  have fresh: "\<forall>y\<in>set xs. content w2 (fst y) = None" using Cons.prems(2,3) by (auto simp: c2 e image_iff)
  obtain w' b' where w': "load_entities E (length xs) w2 (adv (length (entity_record ?reg ?enc x)) b) = (True, w', b')"
    "wf_store ?reg w'" "content w' = (\<lambda>e. case map_of xs e of None \<Rightarrow> content w2 e
         | Some cs \<Rightarrow> Some (loaded ?reg ?mg cs Map.empty))"
    using Cons.IH [OF _ _ fresh Cons.prems(4) h(8) Cons.prems(6) w2(2) o2 h(7)] Cons.prems(1,2) by auto
  have "load_entities E (length (x # xs)) w b = (True, w', b')"
    using h(1,2,3) c pe(2) w2(1) w'(1) by simp
  moreover have "content w' = (\<lambda>y. case map_of (x # xs) y of None \<Rightarrow> content w y
         | Some cs \<Rightarrow> Some (loaded ?reg ?mg cs Map.empty))"
  proof
    fix y
    have "map_of xs (fst x) = None" using Cons.prems(2) by (simp add: map_of_eq_None_iff)
    then show "content w' y = (case map_of (x # xs) y of None \<Rightarrow> content w y
         | Some cs \<Rightarrow> Some (loaded ?reg ?mg cs Map.empty))"
      by (cases x; cases "y = fst x") (simp_all add: w'(3) c2 e cong: option.case_cong)
  qed
  ultimately show ?case using w'(2) by blast
qed

section \<open>Rows as entity records\<close>

definition row_block :: "(ctype \<Rightarrow> bool) \<Rightarrow> archetype \<Rightarrow> nat \<Rightarrow> entity_block" where
  "row_block P x row = (a_entities x ! row,
     map (\<lambda>i. (a_component_ids x ! i, rows (a_columns x ! i) ! row))
       (filter (\<lambda>i. P (a_component_ids x ! i)) [0..<length (a_component_ids x)]))"

definition world_blocks :: "(ctype \<Rightarrow> bool) \<Rightarrow> 'u world \<Rightarrow> entity_block list" where
  "world_blocks P w =
     concat (map (\<lambda>a. map (row_block P (arch w a)) [0..<length (a_entities (arch w a))]) (by_signature w))"

lemma by_signature_perm:
  "set (by_signature w) = set (w_archetype_list w)" "distinct (by_signature w) = distinct (w_archetype_list w)"
  by (simp_all add: by_signature_def)

lemma world_blocks_entities: "map fst (world_blocks P w) = visited w (by_signature w)"
proof -
  have "map fst (map (row_block P x) [0..<length (a_entities x)]) = a_entities x" for x
    by (simp add: row_block_def comp_def map_nth)
  then show ?thesis by (simp add: world_blocks_def visited_def map_concat comp_def)
qed

lemma visited_perm:
  assumes wf: "wf_store reg w" and as: "set as = set (w_archetype_list w)" "distinct as"
  shows "distinct (visited w as)" "set (visited w as) = {e. content w e \<noteq> None}"
proof -
  show "distinct (visited w as)"
    unfolding visited_def
  proof (rule distinct_concat_map [OF as(2)])
    show "distinct (a_entities (arch w a))" if "a \<in> set as" for a
      using wf_archD(6) [OF wf_archsD(4) [OF wf_storeD(1) [OF wf]]] as(1) that by blast
    show "a = b" if "a \<in> set as" "b \<in> set as" "x \<in> set (a_entities (arch w a))" "x \<in> set (a_entities (arch w b))" for a b x
      using archetype_member [OF wf] as(1) that by auto
  qed
  show "set (visited w as) = {e. content w e \<noteq> None}"
    using archetype_member [OF wf] wf_locationD(1) [OF wf] as(1)
    by (auto simp: visited_def content_None)
qed

lemma row_block_content:
  fixes P :: "ctype \<Rightarrow> bool"
  assumes wf: "wf_store reg w" and a: "a \<in> set (w_archetype_list w)" and r: "row < length (a_entities (arch w a))"
  defines "x \<equiv> row_block P (arch w a) row"
  shows "content w (fst x) = Some m \<Longrightarrow> map_of (snd x) = m |` {t. P t}"
    "encodable reg (snd x)" "distinct (map fst (snd x))"
    "map fst (snd x) = filter P (a_component_ids (arch w a))"
proof -
  let ?a = "arch w a"
  have ar: "wf_arch ?a" and ty: "typed_columns reg ?a"
    using wf_archsD(4,5) [OF wf_storeD(1) [OF wf] a] by simp_all
  show ids: "map fst (snd x) = filter P (a_component_ids ?a)"
  proof -
    have "map fst (snd x) = map ((!) (a_component_ids ?a)) (filter (\<lambda>i. P (a_component_ids ?a ! i)) [0..<length (a_component_ids ?a)])"
      by (simp add: x_def row_block_def)
    also have "\<dots> = filter P (map ((!) (a_component_ids ?a)) [0..<length (a_component_ids ?a)])"
      by (simp add: filter_map comp_def)
    finally show ?thesis by (simp add: map_nth)
  qed
  show d: "distinct (map fst (snd x))"
    unfolding ids using wf_archD(1) [OF ar] by (simp add: strict_sorted_iff)
  have e2r: "a_entity_to_row ?a (fst x) = Some row"
    using wf_archD(8) [OF ar] r by (simp add: x_def row_block_def)
  then have l: "location_of w (fst x) = Some \<lparr>loc_archetype = a, loc_row = row\<rparr>"
    using wf_storeD(2) [OF wf] a by (simp add: wf_locations_def)
  have cols: "wf_col (a_columns ?a ! i) \<and> c_size (a_columns ?a ! i) = length (a_entities ?a)"
    if "i < length (a_component_ids ?a)" for i
    using wf_archD(2,3,4) [OF ar] that by simp
  show "encodable reg (snd x)"
    using ty r cols by (auto simp: encodable_def x_def row_block_def typed_columns_def length_row_read)
  show "map_of (snd x) = m |` {t. P t}" if m: "content w (fst x) = Some m"
  proof
    fix t
    have mt: "m t = cell ?a t (fst x)" using m l by (auto simp: content_def)
    show "map_of (snd x) t = (m |` {t. P t}) t"
    proof (cases "t \<in> set (a_component_ids ?a) \<and> P t")
      case True
      then obtain i where i: "i < length (a_component_ids ?a)" "a_component_ids ?a ! i = t" by (auto simp: in_set_conv_nth)
      then have ci: "column_index ?a t = Some i" using column_index_iff [OF wf_archD(1) [OF ar]] by simp
      have "(t, rows (a_columns ?a ! i) ! row) \<in> set (snd x)" using i True by (auto simp: x_def row_block_def)
      then have "map_of (snd x) t = Some (rows (a_columns ?a ! i) ! row)" using d by simp
      then show ?thesis using True by (simp add: mt cell_def ci e2r)
    next
      case False
      then have "t \<notin> set (map fst (snd x))" by (auto simp: ids)
      then have "map_of (snd x) t = None" by (simp add: map_of_eq_None_iff)
      then show ?thesis using False cell_absent [OF ar] by (auto simp: mt restrict_map_def)
    qed
  qed
qed

lemma write_snapshot_row_data:
  assumes wf: "wf_store reg w" and a: "a \<in> set (w_archetype_list w)" and r: "row < length (a_entities (arch w a))"
    and fit: "fitting reg"
  shows "buf_data (write_snapshot_row reg (arch w a) row b)
    = buf_data b @ entity_record reg (\<lambda>s. fields_bytes (cs_fields s)) (row_block (\<lambda>t. True) (arch w a) row)"
proof -
  let ?a = "arch w a" and ?enc = "\<lambda>s. fields_bytes (cs_fields s)"
  let ?f = "\<lambda>i b. let t = a_component_ids ?a ! i; s = the (schema_of reg t); c = a_columns ?a ! i
                  in serialize_component s (row_read (c_elem_size c) row c) (write_u32 t b)"
  have ar: "wf_arch ?a" and ty: "typed_columns reg ?a"
    using wf_archsD(4,5) [OF wf_storeD(1) [OF wf] a] by simp_all
  have "buf_data (fold ?f is b)
      = buf_data b @ records reg ?enc (map (\<lambda>i. (a_component_ids ?a ! i, rows (a_columns ?a ! i) ! row)) is)"
    if "set is \<subseteq> {0..<length (a_component_ids ?a)}" for "is" b
    using that
  proof (induction "is" arbitrary: b)
    case Nil
    then show ?case by (simp add: records_def)
  next
    case (Cons i ks)
    then have i: "i < length (a_component_ids ?a)" by simp
    obtain s where s: "schema_of reg (a_component_ids ?a ! i) = Some s" "c_elem_size (a_columns ?a ! i) = cs_size s"
      using ty i by (auto simp: typed_columns_def)
    have col: "wf_col (a_columns ?a ! i)" "row < c_size (a_columns ?a ! i)"
      using wf_archD(2,3,4) [OF ar] i r by simp_all
    let ?v = "row_read (c_elem_size (a_columns ?a ! i)) row (a_columns ?a ! i)"
    have "fields_fit (cs_fields s) (length ?v)" using fit s length_row_read [OF col] by (simp add: fitting_def)
    then have "buf_data (?f i b) = buf_data b @ le32 (a_component_ids ?a ! i) @ ?enc s ?v"
      using whole.wr_data [of s ?v] s by (simp add: Let_def write_u32_data)
    then show ?case using Cons col s by (simp add: records_def Let_def)
  qed
  note f = this [of "[0..<length (a_component_ids ?a)]" "write_u16 (of_nat (length (a_component_ids ?a))) (write_u64 (eid (a_entities ?a ! row)) b)"]
  show ?thesis
    using f by (simp add: write_snapshot_row_def Let_def entity_record_def row_block_def write_u16_data write_u64_data)
qed

lemma serialize_world_snapshot_data:
  assumes wf: "wf_store (env_registry E) w" and fit: "fitting (env_registry E)"
  shows "buf_data (serialize_world_snapshot E w b) = buf_data b @ le16 SNAPSHOT_VERSION @ le32 (entity_count w)
    @ concat (map (entity_record (env_registry E) (\<lambda>s. fields_bytes (cs_fields s))) (world_blocks (\<lambda>t. True) w))"
proof -
  let ?rec = "entity_record (env_registry E) (\<lambda>s. fields_bytes (cs_fields s))"
  have row: "buf_data (fold (write_snapshot_row (env_registry E) (arch w a)) rs b)
      = buf_data b @ concat (map (\<lambda>r. ?rec (row_block (\<lambda>t. True) (arch w a) r)) rs)"
    if "a \<in> set (w_archetype_list w)" "set rs \<subseteq> {0..<length (a_entities (arch w a))}" for a rs b
    using that(2) by (induction rs arbitrary: b) (simp_all add: write_snapshot_row_data [OF wf that(1) _ fit])
  have "buf_data (fold (\<lambda>a. fold (write_snapshot_row (env_registry E) (arch w a)) [0..<length (a_entities (arch w a))]) as b)
      = buf_data b @ concat (map ?rec (concat (map (\<lambda>a. map (row_block (\<lambda>t. True) (arch w a)) [0..<length (a_entities (arch w a))]) as)))"
    if "set as \<subseteq> set (w_archetype_list w)" for as b
    using that
  proof (induction as arbitrary: b)
    case (Cons a as)
    have "a \<in> set (w_archetype_list w)" using Cons.prems by simp
    from row [OF this, of "[0..<length (a_entities (arch w a))]"] Cons show ?case by (simp add: comp_def)
  qed simp
  from this [of "by_signature w"] show ?thesis
    by (simp add: serialize_world_snapshot_def Let_def world_blocks_def by_signature_perm write_u32_data write_u16_data)
qed

section \<open>Clearing keeps the mode\<close>

lemma clear_step_mode:
  "open_mode (clear_step e w) = open_mode w" "w_pending_ops (clear_step e w) = w_pending_ops w"
proof -
  have u: "ctl (unplace_entity e l v) = ctl v" for l and v :: "'a world" by simp
  show "open_mode (clear_step e w) = open_mode w"
    using ctl_alloc(4,12) [OF u]
    by (auto simp: clear_step_def open_mode_def in_iteration_def free_entity_id_def Let_def split: option.split)
  show "w_pending_ops (clear_step e w) = w_pending_ops w"
    by (auto simp: clear_step_def free_entity_id_def Let_def unplace_entity_eq fix_moved_row_def set_location_def
        erase_location_def set_arch_def split: option.split)
qed

lemma world_clear_mode:
  fixes w :: "'u world"
  assumes "passive_env E" "open_mode w"
  shows "open_mode (world_clear E w)"
proof -
  have f: "open_mode (fold clear_step es w)" for es
    using assms(2) by (induction es arbitrary: w) (simp_all add: clear_step_mode)
  have i: "\<not> in_iteration w" using assms(2) by (simp add: open_mode_def)
  let ?w2 = "\<lambda>v. (invalidate_cache v)\<lparr>w_change_log := [], w_change_log_generation := w_change_log_generation (invalidate_cache v) + 1\<rparr>"
  have "ctl (?w2 v) = ctl v" for v :: "'u world" using ctl_invalidate [of v] by (simp add: ctl_def)
  then have "open_mode (?w2 v) = open_mode v" for v :: "'u world" by (rule open_mode_ctl)
  moreover have "open_mode (fst (dispatch E ev v)) = open_mode v" for ev v
    by (rule open_mode_ctl [OF passive_dispatch_store(2) [OF assms(1)]])
  ultimately show ?thesis using f i by (simp add: world_clear_def Let_def)
qed

section \<open>The two directions together\<close>

definition restored :: "registry \<Rightarrow> (component_schema \<Rightarrow> byte list \<Rightarrow> byte list \<Rightarrow> byte list) \<Rightarrow> (ctype \<rightharpoonup> byte list)
    \<Rightarrow> (ctype \<rightharpoonup> byte list)" where
  "restored reg merge m t = map_option (\<lambda>src. let s = the (schema_of reg t) in merge s src (zero_row s)) (m t)"

lemma loaded_restored:
  assumes "distinct (map fst cs)"
  shows "loaded reg merge cs Map.empty = restored reg merge (map_of cs)"
proof -
  have "loaded reg merge cs m t = (case map_of cs t of None \<Rightarrow> m t
      | Some src \<Rightarrow> Some (let s = the (schema_of reg t) in merge s src (zero_row s)))" for m t
    using assms
  proof (induction cs arbitrary: m)
    case Nil
    then show ?case by (simp add: loaded_def)
  next
    case (Cons c cs)
    have "map_of cs (fst c) = None" using Cons.prems by (simp add: map_of_eq_None_iff)
    then show ?case using Cons by (cases c; cases "t = fst c") (simp_all add: loaded_def Let_def cong: option.case_cong)
  qed
  then show ?thesis by (auto simp: restored_def fun_eq_iff split: option.split)
qed

text \<open>The second map has the components of the first, and each carries the same field values.\<close>

definition carries :: "registry \<Rightarrow> (ctype \<rightharpoonup> byte list) \<Rightarrow> (ctype \<rightharpoonup> byte list) \<Rightarrow> bool" where
  "carries reg m m' \<longleftrightarrow> dom m' = dom m
   \<and> (\<forall>t s v v'. schema_of reg t = Some s \<longrightarrow> m t = Some v \<longrightarrow> m' t = Some v' \<longrightarrow>
        (\<forall>fd\<in>set (cs_fields s). field_bytes fd v' = field_bytes fd v))"

lemma carries_restored:
  assumes "fitting reg" "\<And>t s v. schema_of reg t = Some s \<Longrightarrow> m t = Some v \<Longrightarrow> length v = cs_size s"
  shows "carries reg m (restored reg (\<lambda>s. store_fields (cs_fields s)) m)"
  unfolding carries_def
proof (intro conjI allI impI ballI)
  show "dom (restored reg (\<lambda>s. store_fields (cs_fields s)) m) = dom m" by (auto simp: restored_def)
  fix t s v v' fd
  assume s: "schema_of reg t = Some s" and v: "m t = Some v" and fd: "fd \<in> set (cs_fields s)"
    and v': "restored reg (\<lambda>s. store_fields (cs_fields s)) m t = Some v'"
  have "v' = store_fields (cs_fields s) v (zero_row s)" using v v' s by (simp add: restored_def Let_def)
  moreover have "fields_fit (cs_fields s) (length (zero_row s))" using assms(1) s by (simp add: fitting_def zero_row_def)
  ultimately show "field_bytes fd v' = field_bytes fd v"
    using store_fields_field_bytes [of "cs_fields s" "zero_row s" v fd] fd assms(2) [OF s v] by (simp add: zero_row_def)
qed

lemma located_entities:
  assumes wf: "wf_world reg w"
  shows "length (w_locations w) < 2 ^ 32" "unat (entity_count w) = length (w_locations w)"
    "length (world_blocks P w) = length (w_locations w)"
proof -
  have st: "wf_store reg w" and al: "wf_alloc w" using wf by (simp_all add: wf_world_def)
  have d: "distinct (map fst (w_locations w))" using wf_storeD(2) [OF st] by (simp add: wf_locations_def)
  have loc: "set (map fst (w_locations w)) = {e. content w e \<noteq> None}"
    by (auto simp: content_None location_of_def map_of_eq_None_iff)
  have v: "valid_id w e" if "e \<in> set (map fst (w_locations w))" for e
    using al that loc by (auto simp: wf_alloc_def content_None)
  have "inj_on (\<lambda>e. unat (slot e)) (set (map fst (w_locations w)))"
    using valid_id_unique [OF al] v by (intro inj_onI) (auto simp: word_unat_eq_iff)
  then have "card (set (map fst (w_locations w))) \<le> card {..<length (w_slot_generations w)}"
    using v by (intro card_inj_on_le) (auto simp: valid_id_def)
  then have "length (w_locations w) \<le> 0xFFFFFFFF"
    using al distinct_card [OF d] by (simp add: wf_alloc_def)
  then show n: "length (w_locations w) < 2 ^ 32" by simp
  then show "unat (entity_count w) = length (w_locations w)" unfolding entity_count_def by (rule of_nat_u32)
  have "length (world_blocks P w) = length (visited w (by_signature w))"
    using arg_cong [OF world_blocks_entities, of length P w] by simp
  also have "\<dots> = card {e. content w e \<noteq> None}"
    using visited_perm [OF st by_signature_perm(1)] wf_archsD(1) [OF wf_storeD(1) [OF st]]
    by (simp add: by_signature_perm distinct_card [symmetric])
  finally show "length (world_blocks P w) = length (w_locations w)"
    using distinct_card [OF d] loc by simp
qed

lemma world_blocks_rows:
  assumes wf: "wf_store reg w"
  shows "distinct (map fst (world_blocks P w))" "fst ` set (world_blocks P w) = {e. content w e \<noteq> None}"
    "x \<in> set (world_blocks P w) \<Longrightarrow> \<exists>m. content w (fst x) = Some m \<and> map_of (snd x) = m |` {t. P t}
       \<and> encodable reg (snd x) \<and> distinct (map fst (snd x))"
proof -
  have vp: "distinct (visited w (by_signature w))" "set (visited w (by_signature w)) = {e. content w e \<noteq> None}"
    using visited_perm [OF wf by_signature_perm(1)] wf_archsD(1) [OF wf_storeD(1) [OF wf]] by (simp_all add: by_signature_perm)
  then show "distinct (map fst (world_blocks P w))" "fst ` set (world_blocks P w) = {e. content w e \<noteq> None}"
    by (simp_all add: world_blocks_entities flip: list.set_map)
  assume x: "x \<in> set (world_blocks P w)"
  obtain a row where a: "a \<in> set (w_archetype_list w)" "row < length (a_entities (arch w a))"
    "x = row_block P (arch w a) row"
    using x by (auto simp: world_blocks_def by_signature_perm)
  have "fst x \<in> set (visited w (by_signature w))" using x world_blocks_entities [of P w] by (metis image_eqI list.set_map)
  then obtain m where "content w (fst x) = Some m" using vp(2) by auto
  then show "\<exists>m. content w (fst x) = Some m \<and> map_of (snd x) = m |` {t. P t} \<and> encodable reg (snd x)
      \<and> distinct (map fst (snd x))"
    using row_block_content [OF wf a(1,2), of P, folded a(3)] by blast
qed

lemma world_blocks_good:
  assumes wf: "wf_store reg w"
    and ids: "\<forall>e. content w e \<noteq> None \<longrightarrow> \<not> id_refused (eid e)"
    and few: "\<forall>e m. content w e = Some m \<longrightarrow> card (dom m) < 2 ^ 16"
  shows "list_all (good_block reg) (world_blocks P w)" "distinct (map fst (world_blocks P w))"
    "map_of (world_blocks P w) e = Some cs \<Longrightarrow> distinct (map fst cs)
       \<and> (\<exists>m. content w e = Some m \<and> map_of cs = m |` {t. P t})"
    "map_of (world_blocks P w) e = None \<longleftrightarrow> content w e = None"
proof -
  note vp = world_blocks_rows(1,2) [OF wf, of P]
  show d: "distinct (map fst (world_blocks P w))" by (rule vp(1))
  note blk = world_blocks_rows(3) [OF wf, of _ P]
  show "list_all (good_block reg) (world_blocks P w)"
    unfolding list_all_iff
  proof
    fix x assume x: "x \<in> set (world_blocks P w)"
    obtain m where m: "content w (fst x) = Some m" "map_of (snd x) = m |` {t. P t}" "encodable reg (snd x)"
      "distinct (map fst (snd x))" using blk [OF x] by blast
    have fin: "finite (dom m)" using few m(1)
      by (auto simp: content_Some cell_dom [OF wf] dom_def)
    have "length (snd x) = card (dom (map_of (snd x)))"
      using distinct_card [OF m(4)] by (simp add: dom_map_of_conv_image_fst)
    also have "\<dots> \<le> card (dom m)" using fin by (intro card_mono) (auto simp: m(2))
    finally show "good_block reg x" using ids few m(1,3) by (fastforce simp: good_block_def)
  qed
  show "map_of (world_blocks P w) e = None \<longleftrightarrow> content w e = None"
    using vp(2) by (auto simp: map_of_eq_None_iff)
  show "distinct (map fst cs) \<and> (\<exists>m. content w e = Some m \<and> map_of cs = m |` {t. P t})"
    if "map_of (world_blocks P w) e = Some cs"
    using blk [OF map_of_SomeD [OF that]] by auto
qed

section \<open>Properties\<close>

text \<open>What the bytes of a snapshot say: the entities it holds, or \<open>None\<close> when it is malformed.\<close>

definition decode_snapshot :: "registry \<Rightarrow> binary_buffer \<Rightarrow> ((entity \<rightharpoonup> (ctype \<rightharpoonup> byte list)) \<times> binary_buffer) option" where
  "decode_snapshot reg b =
     (case read_u16 b of None \<Rightarrow> None
      | Some (version, b1) \<Rightarrow>
          if version \<noteq> SNAPSHOT_VERSION then None
          else (case read_u32 b1 of None \<Rightarrow> None
                | Some (count, b2) \<Rightarrow> decode_entities reg deserialize_component (unat count) Map.empty b2))"

lemma snapshot_valid_decode:
  assumes "in_buffer b"
  shows "snapshot_valid reg b \<longleftrightarrow> decode_snapshot reg b \<noteq> None"
proof (cases "read_u16 b")
  case None
  then show ?thesis by (simp add: snapshot_valid_def decode_snapshot_def)
next
  case r1: (Some x)
  obtain v b1 where x: "x = (v, b1)" by (cases x)
  have i1: "in_buffer b1" using u16c.rd_SomeD [of b v b1] r1 x assms by (auto simp: in_buffer_adv)
  show ?thesis
  proof (cases "read_u32 b1")
    case None
    then show ?thesis by (simp add: snapshot_valid_def decode_snapshot_def r1 x)
  next
    case r2: (Some y)
    obtain k b2 where y: "y = (k, b2)" by (cases y)
    have "in_buffer b2" using u32c.rd_SomeD [of b1 k b2] r2 y i1 by (auto simp: in_buffer_adv)
    from whole.scan_decode [OF this, of reg "unat k" Map.empty]
    have "(\<exists>b'. scan_entities reg skip_component (unat k) {} b2 = Some b')
        \<longleftrightarrow> (\<exists>b' K. decode_entities reg deserialize_component (unat k) Map.empty b2 = Some (K, b'))" by auto
    then have "scan_entities reg skip_component (unat k) {} b2 \<noteq> None
        \<longleftrightarrow> decode_entities reg deserialize_component (unat k) Map.empty b2 \<noteq> None" by auto
    then show ?thesis by (simp add: snapshot_valid_def decode_snapshot_def r1 x r2 y)
  qed
qed

text \<open>
  C17. Loading a snapshot is all or nothing, whatever the bytes: when they are malformed
  (\<open>decode_snapshot\<close>: wrong version, cut short, an unknown type, a bad or repeated id), the load
  fails and leaves the world and the buffer untouched; otherwise it succeeds, and afterwards the
  world holds exactly the entities and component bytes the snapshot says and nothing of what it
  held before, and is well formed. The world is outside iteration and deferred windows.
\<close>

theorem snapshot_load_all_or_nothing:
  assumes wf: "wf_world (env_registry E) w" and p: "passive_env E" "visits_all E"
    and fit: "fitting (env_registry E)" and md: "open_mode w" and b: "in_buffer b"
  shows "case decode_snapshot (env_registry E) b of
      None \<Rightarrow> deserialize_world_snapshot E w b = (False, w, b)
    | Some (K, b') \<Rightarrow> \<exists>w'. deserialize_world_snapshot E w b = (True, w', b') \<and> content w' = K
        \<and> wf_store (env_registry E) w'"
proof (cases "decode_snapshot (env_registry E) b")
  case None
  then show ?thesis using snapshot_valid_decode [OF b, of "env_registry E"] by (simp add: deserialize_world_snapshot_def)
next
  case (Some x)
  obtain K b3 where x: "x = (K, b3)" by (cases x)
  obtain b1 count b2 where v: "read_u16 b = Some (SNAPSHOT_VERSION, b1)" "read_u32 b1 = Some (count, b2)"
    "decode_entities (env_registry E) deserialize_component (unat count) Map.empty b2 = Some (K, b3)"
    using Some by (cases "read_u16 b"; cases "read_u32 (snd (the (read_u16 b)))")
      (auto simp: decode_snapshot_def x split: if_splits)
  have i2: "in_buffer b2"
    using u16c.rd_SomeD [OF v(1)] u32c.rd_SomeD [OF v(2)] b by (auto simp: in_buffer_adv)
  note cl = world_clear_world [OF wf passive_keeps_world [OF p(1)]]
  have wf1: "wf_store (env_registry E) (world_clear E w)" using cl(1) by (simp add: wf_world_def)
  have none: "content (world_clear E w) = Map.empty" using cl(2) [OF p] md by (simp add: open_mode_def)
  obtain w' where "load_entities E (unat count) (world_clear E w) b2 = (True, w', b3)" "wf_store (env_registry E) w'"
    "content w' = K"
    using load_decoded [OF v(3) fit i2 p(1) wf1 world_clear_mode [OF p(1) md] none] by blast
  moreover have "snapshot_valid (env_registry E) b" using Some snapshot_valid_decode [OF b] by simp
  ultimately show ?thesis using Some x v by (simp add: deserialize_world_snapshot_def Let_def)
qed

text \<open>
  C16. A snapshot reproduces the world: whatever world the bytes are loaded into (of the same
  component registry), loading what \<open>serialize_world_snapshot\<close> wrote succeeds, and the loaded
  world has exactly the source's entities, under their ids, each with exactly its component
  types, every field of every component carrying the source's value (fixed strings up to their
  terminator); the previous content of the target is gone.
\<close>

theorem snapshot_roundtrip:
  assumes src: "wf_world (env_registry E) w" and dst: "wf_world (env_registry E) w0"
    and p: "passive_env E" "visits_all E" and fit: "fitting (env_registry E)" and md: "open_mode w0"
    and ids: "\<forall>e. content w e \<noteq> None \<longrightarrow> \<not> id_refused (eid e)"
    and few: "\<forall>e m. content w e = Some m \<longrightarrow> card (dom m) < 2 ^ 16"
    and b: "in_buffer b" and wire: "rest b = drop (length (buf_data b0)) (buf_data (serialize_world_snapshot E w b0)) @ r"
  shows "\<exists>w' b'. deserialize_world_snapshot E w0 b = (True, w', b') \<and> wf_store (env_registry E) w'
    \<and> (\<forall>e. rel_option (carries (env_registry E)) (content w e) (content w' e))"
proof -
  let ?reg = "env_registry E" and ?mg = "\<lambda>s. store_fields (cs_fields s)" and ?bl = "world_blocks (\<lambda>t. True) w"
  let ?wire = "concat (map (entity_record ?reg (\<lambda>s. fields_bytes (cs_fields s))) ?bl)"
  have st: "wf_store ?reg w" using src by (simp add: wf_world_def)
  note g = world_blocks_good [OF st, of "\<lambda>t. True", OF ids few]
  note n = located_entities(1,2) [OF src] located_entities(3) [OF src, of "\<lambda>t. True"]
  have r0: "rest b = le16 SNAPSHOT_VERSION @ le32 (entity_count w) @ ?wire @ r"
    using wire by (simp add: serialize_world_snapshot_data [OF st fit])
  have 1: "read_u16 b = Some (SNAPSHOT_VERSION, adv 2 b)" using r0 by (rule u16c.rd_enc)
  have r1: "rest (adv 2 b) = le32 (entity_count w) @ ?wire @ r" using r0 by (simp add: rest_adv)
  have 2: "read_u32 (adv 2 b) = Some (entity_count w, adv 4 (adv 2 b))" using r1 by (rule u32c.rd_enc)
  have r2: "rest (adv 4 (adv 2 b)) = ?wire @ r" using r1 by (simp add: rest_adv)
  have i2: "in_buffer (adv 4 (adv 2 b))" using b r0 by (simp add: in_buffer_adv byte_simps)
  have cnt: "unat (entity_count w) = length ?bl" using n by simp
  have valid: "snapshot_valid ?reg b"
    using whole.scan_records [OF g(1,2) _ fit i2 r2, where ids = "{}"] by (simp add: snapshot_valid_def 1 2 cnt)
  note cl = world_clear_world [OF dst passive_keeps_world [OF p(1)]]
  have wf1: "wf_store ?reg (world_clear E w0)" using cl(1) by (simp add: wf_world_def)
  have none: "content (world_clear E w0) = Map.empty" using cl(2) [OF p] md by (simp add: open_mode_def)
  obtain w' b' where l: "load_entities E (length ?bl) (world_clear E w0) (adv 4 (adv 2 b)) = (True, w', b')"
    "wf_store ?reg w'" "content w' = (\<lambda>e. case map_of ?bl e of None \<Rightarrow> content (world_clear E w0) e
         | Some cs \<Rightarrow> Some (loaded ?reg ?mg cs Map.empty))"
    using load_records [OF g(1,2) _ fit i2 p(1) wf1 world_clear_mode [OF p(1) md] r2] none by auto
  have "rel_option (carries ?reg) (content w e) (content w' e)" for e
  proof (cases "map_of ?bl e")
    case None
    then show ?thesis using g(4) [of e] None by (simp add: l(3) none)
  next
    case (Some cs)
    obtain m where m: "distinct (map fst cs)" "content w e = Some m" "map_of cs = m" using g(3) [OF Some] by (auto simp: restrict_map_def)
    have enc: "encodable ?reg cs" using g(1) map_of_SomeD [OF Some] by (auto simp: list_all_iff good_block_def)
    have "length v = cs_size s" if "schema_of ?reg t = Some s" "m t = Some v" for t s v
      using enc map_of_SomeD [of cs t v] that by (auto simp: m(3) encodable_def)
    then have "carries ?reg m (restored ?reg ?mg m)" using carries_restored [OF fit] by blast
    then show ?thesis using m Some by (simp add: l(3) loaded_restored)
  qed
  then show ?thesis using valid l(1,2) by (auto simp: deserialize_world_snapshot_def Let_def 1 2 cnt)
qed

text \<open>The bytes of a small world, loaded over another one.\<close>

definition wire_snapshot :: binary_buffer where
  "wire_snapshot = from_packed (buf_data (serialize_world_snapshot wire_env (wire_world wire_env 0) empty_buffer))"

text \<open>A snapshot of one entity with one component, and the same bytes cut short.\<close>

definition small_snapshot :: "byte list" where
  "small_snapshot = [1, 0] @ [1, 0, 0, 0] @ [1, 0, 0, 0, 0, 0, 0, 0] @ [1, 0] @ [1, 0, 0, 0] @ [1, 5, 6, 7, 8, 104, 105, 0, 0]"

lemma small_snapshot_decoded:
  "\<exists>b'. decode_snapshot wire_registry (from_packed small_snapshot) = Some ([e1 \<mapsto> [1 \<mapsto> [1, 0, 0, 0, 5, 6, 7, 8, 104, 105, 0, 0]]], b')"
  "decode_snapshot wire_registry (from_packed (butlast small_snapshot)) = None"
proof -
  let ?b = "\<lambda>p. \<lparr>buf_data = small_snapshot, buf_pos = p\<rparr>" and ?c = "\<lambda>p. \<lparr>buf_data = butlast small_snapshot, buf_pos = p\<rparr>"
  have h: "read_u16 (?b 0) = Some (SNAPSHOT_VERSION, ?b 2)" "read_u32 (?b 2) = Some (1, ?b 6)" "read_u64 (?b 6) = Some (1, ?b 14)"
    "read_u16 (?b 14) = Some (1, ?b 16)" "read_u32 (?b 16) = Some (1, ?b 20)"
    "deserialize_component demo_schema (zero_row demo_schema) (?b 20) = (True, [1, 0, 0, 0, 5, 6, 7, 8, 104, 105, 0, 0], ?b 29)"
    by code_simp+
  have k: "read_u16 (?c 0) = Some (SNAPSHOT_VERSION, ?c 2)" "read_u32 (?c 2) = Some (1, ?c 6)" "read_u64 (?c 6) = Some (1, ?c 14)"
    "read_u16 (?c 14) = Some (1, ?c 16)" "read_u32 (?c 16) = Some (1, ?c 20)"
    "\<not> fst (deserialize_component demo_schema (zero_row demo_schema) (?c 20))"
    by code_simp+
  have e: "Entity 1 = e1" "\<not> id_refused 1" using e1_id by (auto simp: e1_def make_entity_def)
  have u: "unat (1 :: u32) = Suc 0" "unat (1 :: u16) = Suc 0" by simp_all
  have f: "from_packed bs = \<lparr>buf_data = bs, buf_pos = 0\<rparr>" for bs by (simp add: from_packed_def)
  show "\<exists>b'. decode_snapshot wire_registry (from_packed small_snapshot) = Some ([e1 \<mapsto> [1 \<mapsto> [1, 0, 0, 0, 5, 6, 7, 8, 104, 105, 0, 0]]], b')"
    using e by (simp add: decode_snapshot_def f h u wire_registry_ok(1))
  obtain m' b' where "deserialize_component demo_schema (zero_row demo_schema) (?c 20) = (False, m', b')"
    using k(6) by (cases "deserialize_component demo_schema (zero_row demo_schema) (?c 20)") auto
  then show "decode_snapshot wire_registry (from_packed (butlast small_snapshot)) = None"
    using e by (simp add: decode_snapshot_def f k u wire_registry_ok(1))
qed

theorem snapshot_load_all_or_nothing_witness:
  "content (fst (snd (deserialize_world_snapshot wire_env (wire_world wire_env 0) (from_packed small_snapshot))))
     = [e1 \<mapsto> [1 \<mapsto> [1, 0, 0, 0, 5, 6, 7, 8, 104, 105, 0, 0]]]
   \<and> deserialize_world_snapshot wire_env (wire_world wire_env 0) (from_packed (butlast small_snapshot))
     = (False, wire_world wire_env 0, from_packed (butlast small_snapshot))"
proof -
  note ww = wire_world_ok [OF wire_env_ok(1,3), of 0]
  have i: "in_buffer (from_packed bs)" for bs by (simp add: in_buffer_def from_packed_def)
  have f: "fitting (env_registry wire_env)" by (simp add: wire_env_ok(3) wire_registry_ok(3))
  have o: "open_mode (wire_world wire_env 0)" by (rule ww(3))
  note t = snapshot_load_all_or_nothing [OF ww(1) wire_env_ok(1,2) f o i, unfolded wire_env_ok(3)]
  from t [of small_snapshot] t [of "butlast small_snapshot"] small_snapshot_decoded show ?thesis by auto
qed

theorem snapshot_roundtrip_witness:
  "\<exists>w' b'. deserialize_world_snapshot wire_env (wire_start wire_env 0) wire_snapshot = (True, w', b')
     \<and> (\<exists>v. content w' e1 = Some [1 \<mapsto> v])"
proof -
  let ?w = "wire_world wire_env 0"
  note ww = wire_world_ok [OF wire_env_ok(1,3), of 0]
  have "in_buffer wire_snapshot" "rest wire_snapshot = drop (length (buf_data empty_buffer))
      (buf_data (serialize_world_snapshot wire_env ?w empty_buffer)) @ []"
    by (simp_all add: in_buffer_def wire_snapshot_def from_packed_def rest_def empty_buffer_def)
  moreover have "\<forall>e. content ?w e \<noteq> None \<longrightarrow> \<not> id_refused (eid e)"
    "\<forall>e m. content ?w e = Some m \<longrightarrow> card (dom m) < 2 ^ 16"
    by (simp_all add: ww(2) e1_id)
  moreover have "fitting (env_registry wire_env)" by (simp add: wire_env_ok(3) wire_registry_ok(3))
  ultimately obtain w' b'
    where w': "deserialize_world_snapshot wire_env (wire_start wire_env 0) wire_snapshot = (True, w', b')"
      "rel_option (carries (env_registry wire_env)) (content ?w e1) (content w' e1)"
    using snapshot_roundtrip [OF ww(1) wire_start_ok(2) wire_env_ok(1,2) _ wire_start_ok(4)] by blast
  then obtain m where m: "content w' e1 = Some m" "dom m = {1}"
    by (auto simp: ww(2) carries_def option_rel_Some1)
  then obtain v where "m = [1 \<mapsto> v]" by (auto simp: dom_eq_singleton_conv)
  then show ?thesis using w'(1) m(1) by blast
qed

end
