(* ===== verification/Replication.thy ===== *)
theory Replication
  imports SyncPacket Snapshot
begin

text \<open>
  The server side of \<open>VECSSnapshotReplication\<close> and \<open>VECSNetworkSync\<close> (\<open>src/network/network_sync.{h,cpp}\<close>):
  what is tracked, dirty and pending, the packets built from it, and the observer callback that
  feeds it from the world. The node and its strategy are part of the world's client state; the
  rest of that state belongs to the other callbacks. A packet that is sent goes to an outbox: to
  the direct peer, or to the engine's RPC layer with the session id. The replication strategy is
  the built-in one or none (\<open>Ref\<close> null); user-written strategies are not modelled. Iteration over
  a hash container follows the parameter \<open>iteration\<close>.
\<close>

section \<open>State\<close>

record replication =
  rp_tracked :: "entity set"
  rp_dirty :: "(entity \<times> ctype set) list"
  rp_pending_spawn :: "entity set"
  rp_pending_despawn :: "entity set"
  rp_client_replicated :: "entity set"
  rp_tick_count :: int
  rp_reconcile_accum :: rat
  rp_reconciliation_interval :: rat
  rp_elapsed_time :: rat
  rp_next_send_tick :: "entity \<rightharpoonup> (ctype \<rightharpoonup> rat list)"

datatype outgoing =
    DirectPacket sync_packet_kind binary_buffer
  | RpcPacket sync_packet_kind "byte list" u32 int

record network_sync =
  ns_world :: bool
  ns_observer_id :: int
  ns_strategy :: "replication option"
  ns_server :: bool
  ns_session_id :: u32
  ns_applying :: bool
  ns_direct_peer :: bool
  ns_sent :: "outgoing list"

text \<open>
  \<open>apply_delta\<close> keeps a \<open>static thread_local std::vector\<close> for the records of dead entities: its size,
  which only grows, and whether a write ever went past its end. Such a write is undefined
  behaviour in C++; the flag records it, and nothing is claimed of a world after it.
\<close>

record scratch_vector =
  sv_size :: nat
  sv_overrun :: bool

record 'c client =
  cl_net :: network_sync
  cl_scratch :: scratch_vector
  cl_rest :: 'c

record iteration =
  it_entities :: "entity set \<Rightarrow> entity list"
  it_types :: "ctype set \<Rightarrow> ctype list"

definition fresh_replication :: replication where
  "fresh_replication = \<lparr>rp_tracked = {}, rp_dirty = [], rp_pending_spawn = {}, rp_pending_despawn = {},
     rp_client_replicated = {}, rp_tick_count = 0, rp_reconcile_accum = 0, rp_reconciliation_interval = 30,
     rp_elapsed_time = 0, rp_next_send_tick = Map.empty\<rparr>"

definition new_network_sync :: network_sync where
  "new_network_sync = \<lparr>ns_world = False, ns_observer_id = 0, ns_strategy = Some fresh_replication,
     ns_server = False, ns_session_id = 1, ns_applying = False, ns_direct_peer = False, ns_sent = []\<rparr>"

definition empty_scratch :: scratch_vector where
  "empty_scratch = \<lparr>sv_size = 0, sv_overrun = False\<rparr>"

definition net_of :: "'c client world \<Rightarrow> network_sync" where
  "net_of w = cl_net (w_client w)"

definition set_net :: "network_sync \<Rightarrow> 'c client world \<Rightarrow> 'c client world" where
  "set_net n w = w\<lparr>w_client := (w_client w)\<lparr>cl_net := n\<rparr>\<rparr>"

section \<open>Reactions to world events\<close>

definition dirty_types :: "replication \<Rightarrow> entity \<Rightarrow> ctype set" where
  "dirty_types rp e = (case map_of (rp_dirty rp) e of None \<Rightarrow> {} | Some ts \<Rightarrow> ts)"

definition mark_dirty :: "entity \<Rightarrow> ctype \<Rightarrow> replication \<Rightarrow> replication" where
  "mark_dirty e t rp = rp\<lparr>rp_dirty := AList.update e (insert t (dirty_types rp e)) (rp_dirty rp)\<rparr>"

definition on_entity_component_added :: "registry \<Rightarrow> network_sync \<Rightarrow> entity \<Rightarrow> ctype \<Rightarrow> replication \<Rightarrow> replication" where
  "on_entity_component_added reg p_ns p_e p_t rp =
     (if \<not> ns_server p_ns \<or> ns_applying p_ns \<or> \<not> is_networked reg p_t then rp
      else if p_e \<notin> rp_tracked rp
      then rp\<lparr>rp_tracked := insert p_e (rp_tracked rp), rp_pending_spawn := insert p_e (rp_pending_spawn rp)\<rparr>
      else mark_dirty p_e p_t rp)"

definition on_entity_component_changed :: "registry \<Rightarrow> network_sync \<Rightarrow> entity \<Rightarrow> ctype \<Rightarrow> replication \<Rightarrow> replication" where
  "on_entity_component_changed reg p_ns p_e p_t rp =
     (if \<not> ns_server p_ns \<or> ns_applying p_ns \<or> \<not> is_networked reg p_t then rp
      else if p_e \<in> rp_tracked rp then mark_dirty p_e p_t rp else rp)"

definition drop_dirty :: "entity \<Rightarrow> ctype \<Rightarrow> replication \<Rightarrow> replication" where
  "drop_dirty p_e p_t rp =
     (if map_of (rp_dirty rp) p_e \<noteq> None
      then rp\<lparr>rp_dirty := AList.update p_e (dirty_types rp p_e - {p_t}) (rp_dirty rp)\<rparr> else rp)"

definition untrack :: "entity \<Rightarrow> replication \<Rightarrow> replication" where
  "untrack p_e rp = rp\<lparr>rp_tracked := rp_tracked rp - {p_e}, rp_dirty := AList.delete p_e (rp_dirty rp),
     rp_next_send_tick := (rp_next_send_tick rp)(p_e := None), rp_pending_despawn := insert p_e (rp_pending_despawn rp)\<rparr>"

definition on_entity_component_removed ::
    "registry \<Rightarrow> 'u world \<Rightarrow> network_sync \<Rightarrow> entity \<Rightarrow> ctype \<Rightarrow> replication \<Rightarrow> replication" where
  "on_entity_component_removed reg w p_ns p_e p_t rp =
     (if \<not> ns_server p_ns \<or> ns_applying p_ns \<or> \<not> is_networked reg p_t then rp
      else (let rp1 = drop_dirty p_e p_t rp
            in if p_e \<in> rp_tracked rp1 \<and> \<not> list_ex (is_networked reg) (get_entity_component_types w p_e)
               then untrack p_e rp1 else rp1))"

definition reset_state :: "replication \<Rightarrow> replication" where
  "reset_state rp = rp\<lparr>rp_tracked := {}, rp_dirty := [], rp_pending_spawn := {}, rp_pending_despawn := {},
     rp_client_replicated := {}, rp_tick_count := 0, rp_reconcile_accum := 0, rp_elapsed_time := 0,
     rp_next_send_tick := Map.empty\<rparr>"

text \<open>\<open>VECSNetworkSync::_on_world_event\<close>: the strategy's reaction; the world is only read.\<close>

definition react :: "registry \<Rightarrow> 'u world \<Rightarrow> network_sync \<Rightarrow> 'v event \<Rightarrow> replication \<Rightarrow> replication" where
  "react reg w p_ns ev rp =
     (case ev_type ev of
        Added \<Rightarrow> on_entity_component_added reg p_ns (ev_entity ev) (ev_comp ev) rp
      | Changed \<Rightarrow> on_entity_component_changed reg p_ns (ev_entity ev) (ev_comp ev) rp
      | Removed \<Rightarrow> on_entity_component_removed reg w p_ns (ev_entity ev) (ev_comp ev) rp
      | Custom \<Rightarrow> if ev_name ev = ''world_cleared'' then reset_state rp else rp
      | _ \<Rightarrow> rp)"

definition on_world_event :: "registry \<Rightarrow> 'v event \<Rightarrow> 'c client world \<Rightarrow> 'c client world" where
  "on_world_event reg ev w =
     (case ns_strategy (net_of w) of
        None \<Rightarrow> w
      | Some rp \<Rightarrow> set_net ((net_of w)\<lparr>ns_strategy := Some (react reg w (net_of w) ev rp)\<rparr>) w)"

definition seed_row :: "registry \<Rightarrow> archetype \<Rightarrow> nat \<Rightarrow> replication \<Rightarrow> replication" where
  "seed_row reg a row rp =
     (if list_ex (is_networked reg) (a_component_ids a)
      then (let e = a_entities a ! row
            in if e \<in> rp_tracked rp then rp
               else rp\<lparr>rp_tracked := insert e (rp_tracked rp), rp_pending_spawn := insert e (rp_pending_spawn rp)\<rparr>)
      else rp)"

definition seed_from_world :: "registry \<Rightarrow> 'u world \<Rightarrow> network_sync \<Rightarrow> replication \<Rightarrow> replication" where
  "seed_from_world reg w p_ns rp =
     (if \<not> ns_server p_ns then rp
      else fold (\<lambda>a. fold (seed_row reg (arch w a)) [0..<length (a_entities (arch w a))]) (w_archetype_list w) rp)"

section \<open>Building packets\<close>

definition serialize_component_block :: "registry \<Rightarrow> 'u world \<Rightarrow> entity \<Rightarrow> ctype \<Rightarrow> binary_buffer \<Rightarrow> binary_buffer" where
  "serialize_component_block reg w p_e p_t r_buf =
     (case schema_of reg p_t of None \<Rightarrow> r_buf
      | Some s \<Rightarrow> (case get_raw w p_e p_t of None \<Rightarrow> r_buf
          | Some data \<Rightarrow>
              (let plan = sync_plan_for reg p_t
               in serialize_component_fields s (load_row w data)
                    (write_field_mask (fp_spawn_mask plan) (write_u32 p_t r_buf)) (fp_spawn_mask plan))))"

text \<open>The loop over an entity's types that spawn and full-state packets share: buffer and \<open>ncomp\<close>.\<close>

definition networked_blocks :: "registry \<Rightarrow> 'u world \<Rightarrow> entity \<Rightarrow> ctype list \<Rightarrow> binary_buffer \<times> u16" where
  "networked_blocks reg w e ts = fold (\<lambda>t (comp_buf, ncomp).
     if is_networked reg t then (serialize_component_block reg w e t comp_buf, ncomp + 1) else (comp_buf, ncomp))
     ts (empty_buffer, 0)"

definition spawn_packet :: "registry \<Rightarrow> 'u world \<Rightarrow> entity \<Rightarrow> binary_buffer" where
  "spawn_packet reg w e =
     (let buf = write_u64 (eid e) (write_u16 SYNC_VERSION empty_buffer);
          (comp_buf, ncomp) = networked_blocks reg w e (get_entity_component_types w e)
      in write_bytes (buf_data comp_buf) (write_u16 ncomp buf))"

definition full_state_row :: "registry \<Rightarrow> 'u world \<Rightarrow> archetype \<Rightarrow> nat \<Rightarrow> binary_buffer \<times> u32 \<Rightarrow> binary_buffer \<times> u32" where
  "full_state_row reg w a row r =
     (case r of (out, n) \<Rightarrow>
        (let e = a_entities a ! row;
             (comp_buf, ncomp) = networked_blocks reg w e (a_component_ids a)
         in if ncomp = 0 then (out, n)
            else (write_bytes (buf_data comp_buf) (write_u16 ncomp (write_u64 (eid e) out)), n + 1)))"

definition finish_counted :: "nat \<Rightarrow> binary_buffer \<times> u32 \<Rightarrow> binary_buffer" where
  "finish_counted count_pos r = (case r of (out, n) \<Rightarrow> if n > 0 then overwrite_u32 count_pos n out else empty_buffer)"

definition serialize_full_state :: "registry \<Rightarrow> 'u world \<Rightarrow> binary_buffer" where
  "serialize_full_state reg w =
     (let out = write_u16 SYNC_VERSION empty_buffer;
          count_pos = buf_pos out
      in finish_counted count_pos
           (fold (\<lambda>a. fold (full_state_row reg w (arch w a)) [0..<length (a_entities (arch w a))])
              (by_signature w) (write_u32 0 out, 0)))"

text \<open>One sync-priority bucket of a dirty component: \<open>(ticks, rec_buf, nrec, all_sent)\<close>.\<close>

definition send_bucket :: "component_schema \<Rightarrow> field_sync_plan \<Rightarrow> byte list \<Rightarrow> rat \<Rightarrow> nat
    \<Rightarrow> rat list \<times> binary_buffer \<times> byte \<times> bool \<Rightarrow> rat list \<times> binary_buffer \<times> byte \<times> bool" where
  "send_bucket s plan row elapsed_time b r =
     (case r of (ticks, rec_buf, nrec, all_sent) \<Rightarrow>
        if elapsed_time < ticks ! b then (ticks, rec_buf, nrec, False)
        else (let msk = fp_bucket_masks plan ! b;
                  buf1 = write_field_mask msk (write_u8 (of_nat b) rec_buf)
              in (ticks[b := elapsed_time + fp_bucket_intervals plan ! b],
                  serialize_component_fields s row buf1 msk, nrec + 1, all_sent)))"

definition extend_ticks :: "nat \<Rightarrow> rat list \<Rightarrow> rat list" where
  "extend_ticks n ticks = ticks @ replicate (n - length ticks) 0"

type_synonym send_ticks = "entity \<rightharpoonup> (ctype \<rightharpoonup> rat list)"

definition ticks_of :: "send_ticks \<Rightarrow> entity \<Rightarrow> ctype \<rightharpoonup> rat list" where
  "ticks_of next e = (case next e of None \<Rightarrow> Map.empty | Some m \<Rightarrow> m)"

text \<open>One dirty component of an entity: \<open>(next_send_tick_, comp_set, comp_buf, ncomp)\<close>.\<close>

definition delta_component :: "registry \<Rightarrow> 'u world \<Rightarrow> rat \<Rightarrow> entity \<Rightarrow> ctype
    \<Rightarrow> send_ticks \<times> ctype set \<times> binary_buffer \<times> byte \<Rightarrow> send_ticks \<times> ctype set \<times> binary_buffer \<times> byte" where
  "delta_component reg w elapsed_time e t r =
     (case r of (next, comp_set, comp_buf, ncomp) \<Rightarrow>
        if \<not> is_networked reg t \<or> \<not> has w e t then (next, comp_set - {t}, comp_buf, ncomp)
        else
          (let plan = sync_plan_for reg t
           in if \<not> fp_any_delta plan then (next, comp_set - {t}, comp_buf, ncomp)
              else
                (let nb = length (fp_bucket_intervals plan);
                     ticks = extend_ticks nb (case ticks_of next e t of None \<Rightarrow> [] | Some ts \<Rightarrow> ts);
                     row = load_row w (the (get_raw w e t));
                     s = the (schema_of reg t);
                     (ticks', rec_buf, nrec, all_sent) =
                        fold (send_bucket s plan row elapsed_time) [0..<nb] (ticks, empty_buffer, 0, True);
                     next' = next(e \<mapsto> (ticks_of next e)(t \<mapsto> ticks'));
                     (comp_buf', ncomp') =
                        (if nrec > 0
                         then (write_bytes (buf_data rec_buf) (write_u8 nrec (write_u32 t comp_buf)), ncomp + 1)
                         else (comp_buf, ncomp))
                 in (next', if all_sent then comp_set - {t} else comp_set, comp_buf', ncomp'))))"

text \<open>One dirty entity: the strategy's state, the packet and the number of entities in it.\<close>

definition delta_entity :: "registry \<Rightarrow> iteration \<Rightarrow> 'u world \<Rightarrow> entity
    \<Rightarrow> replication \<times> binary_buffer \<times> u32 \<Rightarrow> replication \<times> binary_buffer \<times> u32" where
  "delta_entity reg it w e r =
     (case r of (rp, out, n) \<Rightarrow>
        if \<not> is_alive w e then (rp\<lparr>rp_dirty := AList.delete e (rp_dirty rp)\<rparr>, out, n)
        else
          (let (next, comp_set, comp_buf, ncomp) =
                 fold (delta_component reg w (rp_elapsed_time rp) e) (it_types it (dirty_types rp e))
                   (rp_next_send_tick rp, dirty_types rp e, empty_buffer, 0);
               rp1 = rp\<lparr>rp_next_send_tick := next,
                        rp_dirty := (if comp_set = {} then AList.delete e (rp_dirty rp)
                                     else AList.update e comp_set (rp_dirty rp))\<rparr>
           in if ncomp > 0
              then (rp1, write_bytes (buf_data comp_buf) (write_u8 ncomp (write_u64 (eid e) out)), n + 1)
              else (rp1, out, n)))"

definition build_delta :: "registry \<Rightarrow> iteration \<Rightarrow> 'u world \<Rightarrow> replication \<Rightarrow> replication \<times> binary_buffer" where
  "build_delta reg it w rp =
     (let out = write_u16 SYNC_VERSION empty_buffer;
          count_pos = buf_pos out;
          (rp', out', n) = fold (delta_entity reg it w) (it_entities it (fst ` set (rp_dirty rp)))
                             (rp, write_u32 0 out, 0)
      in (rp', finish_counted count_pos (out', n)))"

section \<open>Sending\<close>

definition send_packet :: "sync_packet_kind \<Rightarrow> binary_buffer \<Rightarrow> int \<Rightarrow> network_sync \<Rightarrow> network_sync" where
  "send_packet p_kind p_data p_target_peer n =
     n\<lparr>ns_sent := ns_sent n @
        [if ns_direct_peer n then DirectPacket p_kind p_data
         else RpcPacket p_kind (to_packed p_data) (ns_session_id n)
                (if p_kind = FullState \<and> p_target_peer > 0 then p_target_peer else 0)]\<rparr>"

definition send_unless_empty :: "sync_packet_kind \<Rightarrow> binary_buffer \<Rightarrow> int \<Rightarrow> network_sync \<Rightarrow> network_sync" where
  "send_unless_empty p_kind buf peer n = (if length (buf_data buf) > 0 then send_packet p_kind buf peer n else n)"

definition replication_tick :: "registry \<Rightarrow> iteration \<Rightarrow> rat \<Rightarrow> 'u world \<Rightarrow> network_sync \<times> replication
    \<Rightarrow> network_sync \<times> replication" where
  "replication_tick reg it p_delta w r =
     (case r of (n0, rp0) \<Rightarrow>
        if \<not> ns_server n0 then (n0, rp0)
        else
          (let rp1 = rp0\<lparr>rp_tick_count := rp_tick_count rp0 + 1, rp_elapsed_time := rp_elapsed_time rp0 + p_delta\<rparr>;
               n1 = fold (\<lambda>e n. if is_alive w e then send_packet Spawn (spawn_packet reg w e) 0 n else n)
                      (it_entities it (rp_pending_spawn rp1)) n0;
               rp2 = rp1\<lparr>rp_pending_spawn := {}\<rparr>;
               (rp3, delta) = (if rp_dirty rp2 \<noteq> [] then build_delta reg it w rp2 else (rp2, empty_buffer));
               n2 = send_unless_empty Delta delta 0 n1;
               (n3, rp4) = fold (\<lambda>e (n, rp). (send_packet Despawn (write_u64 (eid e) empty_buffer) 0 n,
                                               rp\<lparr>rp_next_send_tick := (rp_next_send_tick rp)(e := None)\<rparr>))
                             (it_entities it (rp_pending_despawn rp3)) (n2, rp3);
               rp5 = rp4\<lparr>rp_pending_despawn := {}, rp_reconcile_accum := rp_reconcile_accum rp4 + p_delta\<rparr>
           in if rp_reconcile_accum rp5 \<ge> rp_reconciliation_interval rp5
              then (send_unless_empty FullState (serialize_full_state reg w) 0 n3, rp5\<lparr>rp_reconcile_accum := 0\<rparr>)
              else (n3, rp5)))"

definition send_full_state :: "registry \<Rightarrow> int \<Rightarrow> 'u world \<Rightarrow> network_sync \<Rightarrow> network_sync" where
  "send_full_state reg p_peer w n =
     (if \<not> ns_server n then n else send_unless_empty FullState (serialize_full_state reg w) p_peer n)"

section \<open>The node\<close>

definition net_tick :: "registry \<Rightarrow> iteration \<Rightarrow> rat \<Rightarrow> 'c client world \<Rightarrow> 'c client world" where
  "net_tick reg it p_delta w =
     (case ns_strategy (net_of w) of None \<Rightarrow> w
      | Some rp \<Rightarrow> (case replication_tick reg it p_delta w (net_of w, rp) of
          (n, rp') \<Rightarrow> set_net (n\<lparr>ns_strategy := Some rp'\<rparr>) w))"

definition request_full_state :: "registry \<Rightarrow> 'c client world \<Rightarrow> 'c client world" where
  "request_full_state reg w =
     (case ns_strategy (net_of w) of None \<Rightarrow> w
      | Some rp \<Rightarrow> set_net (send_full_state reg 0 w (net_of w)) w)"

definition set_server :: "bool \<Rightarrow> network_sync \<Rightarrow> network_sync" where
  "set_server p_v n = n\<lparr>ns_server := p_v\<rparr>"

definition reset_session :: "network_sync \<Rightarrow> network_sync" where
  "reset_session n = n\<lparr>ns_session_id := ns_session_id n + 1\<rparr>"

definition set_strategy :: "registry \<Rightarrow> replication option \<Rightarrow> 'c client world \<Rightarrow> 'c client world" where
  "set_strategy reg p_strategy w =
     (let n = (net_of w)\<lparr>ns_strategy := p_strategy\<rparr>
      in case p_strategy of None \<Rightarrow> set_net n w
         | Some rp \<Rightarrow> set_net (if ns_world n then n\<lparr>ns_strategy := Some (seed_from_world reg w n rp)\<rparr> else n) w)"

text \<open>
  \<open>net_fn\<close> is the number under which the callback of this node is registered. The node is bound
  to this world or to none; \<open>bind_world True\<close> binds it, \<open>bind_world False\<close> is the null pointer.
\<close>

definition unobserve :: "'c client world \<Rightarrow> 'c client world" where
  "unobserve w =
     (if ns_world (net_of w) \<and> ns_observer_id (net_of w) > 0
      then set_net ((net_of w)\<lparr>ns_observer_id := 0\<rparr>)
             (w\<lparr>w_observers := observer_remove (ns_observer_id (net_of w)) (w_observers w)\<rparr>)
      else w)"

definition net_callback_entry :: "nat \<Rightarrow> observer_callback" where
  "net_callback_entry net_fn = \<lparr>cb_id = 0, cb_fn = Some net_fn,
     cb_event_mask = EVENT_ADDED OR EVENT_CHANGED OR EVENT_REMOVED OR EVENT_CUSTOM,
     cb_component_filter = [], cb_watch_all = True, cb_custom_name = ''''\<rparr>"

definition bind_world :: "registry \<Rightarrow> nat \<Rightarrow> bool \<Rightarrow> 'c client world \<Rightarrow> 'c client world" where
  "bind_world reg net_fn p_world w =
     (if ns_world (net_of w) = p_world then w
      else
        (let w1 = unobserve w;
             w2 = set_net ((net_of w1)\<lparr>ns_world := p_world\<rparr>) w1
         in if \<not> p_world then w2
            else
              (let (i, d) = observer_add (net_callback_entry net_fn) (w_observers w2);
                   w3 = set_net ((net_of w2)\<lparr>ns_observer_id := i\<rparr>) (w2\<lparr>w_observers := d\<rparr>)
               in case ns_strategy (net_of w3) of None \<Rightarrow> w3
                  | Some rp \<Rightarrow> set_net ((net_of w3)\<lparr>ns_strategy := Some (seed_from_world reg w3 (net_of w3) rp)\<rparr>) w3)))"

definition net_reset :: "'c client world \<Rightarrow> 'c client world" where
  "net_reset w =
     (let w1 = unobserve w
      in case ns_strategy (net_of w1) of None \<Rightarrow> w1
         | Some rp \<Rightarrow> set_net ((net_of w1)\<lparr>ns_strategy := Some (reset_state rp)\<rparr>) w1)"

end
