(* ===== verification/ReplicationApply.thy ===== *)
theory ReplicationApply
  imports Replication
begin

text \<open>
  The receiving side of \<open>src/network/network_sync.cpp\<close>: the four \<open>apply_*\<close> functions of
  \<open>VECSSnapshotReplication\<close>, \<open>VECSNetworkSync::apply_packet\<close> and the RPC entry points. The result of
  an \<open>apply_*\<close> function that returns early is the world as it stands at that point.
\<close>

section \<open>Applying packets\<close>

definition update_replication :: "(replication \<Rightarrow> replication) \<Rightarrow> 'c client world \<Rightarrow> 'c client world" where
  "update_replication f w = set_net ((net_of w)\<lparr>ns_strategy := map_option f (ns_strategy (net_of w))\<rparr>) w"

definition client_replicated :: "'c client world \<Rightarrow> entity set" where
  "client_replicated w = (case ns_strategy (net_of w) of None \<Rightarrow> {} | Some rp \<Rightarrow> rp_client_replicated rp)"

definition add_replicated :: "entity \<Rightarrow> replication \<Rightarrow> replication" where
  "add_replicated e rp = rp\<lparr>rp_client_replicated := insert e (rp_client_replicated rp)\<rparr>"

definition apply_spawn :: "('c client, 'v) env \<Rightarrow> binary_buffer \<Rightarrow> 'c client world \<Rightarrow> 'c client world" where
  "apply_spawn E p_data w =
     (case read_u16 (seek 0 p_data) of None \<Rightarrow> w
      | Some (version, b1) \<Rightarrow>
          if \<not> version_ok version then w
          else (case read_u64 b1 of None \<Rightarrow> w
                | Some (i, b2) \<Rightarrow> (case create_entity_preassigned E i w of (e, w1) \<Rightarrow>
                    if \<not> entity_bool e then w1
                    else (case read_u16 b2 of None \<Rightarrow> w1
                          | Some (ncomp, b3) \<Rightarrow>
                              (case apply_components E (read_version version) (unat ncomp) e w1 b3 of
                                 (ok, w2, b4) \<Rightarrow> if ok then update_replication (add_replicated e) w2 else w2)))))"

definition scratch_of :: "'c client world \<Rightarrow> scratch_vector" where
  "scratch_of w = cl_scratch (w_client w)"

definition set_scratch :: "scratch_vector \<Rightarrow> 'c client world \<Rightarrow> 'c client world" where
  "set_scratch sv w = w\<lparr>w_client := (w_client w)\<lparr>cl_scratch := sv\<rparr>\<rparr>"

text \<open>
  Records of an entity that died locally are drained into the scratch vector. The vector is grown
  to the length of the masked payload (\<open>scratch.resize(sz)\<close>), but \<open>deserialize_component_fields\<close>
  writes each selected field at its offset in the whole component; a field that ends past the
  vector is written outside it. The bytes in the vector are never read, so of the vector only
  its size and that it was overrun count.
\<close>

definition writes_past :: "component_schema \<Rightarrow> bool list \<Rightarrow> nat \<Rightarrow> bool" where
  "writes_past s msk len \<longleftrightarrow>
     (\<exists>fd\<in>set (selected_from msk 0 (cs_fields s)). 0 < field_size fd \<and> len < fd_offset fd + field_size fd)"

fun drain_delta_records :: "component_schema \<Rightarrow> nat \<Rightarrow> scratch_vector \<Rightarrow> binary_buffer
    \<Rightarrow> bool \<times> scratch_vector \<times> binary_buffer" where
  "drain_delta_records s 0 sv b = (True, sv, b)"
| "drain_delta_records s (Suc n) sv b =
     (case read_u8 b of None \<Rightarrow> (False, sv, b)
      | Some (bidx, b1) \<Rightarrow> (case read_field_mask (length (cs_fields s)) b1 of None \<Rightarrow> (False, sv, b1)
          | Some (msk, b2) \<Rightarrow>
              (let sz = serialized_component_fields_size s msk
               in if buf_pos b2 + sz > length (buf_data b2) then (False, sv, b2)
                  else (let len = max (sv_size sv) sz;
                            sv1 = \<lparr>sv_size = len, sv_overrun = sv_overrun sv \<or> writes_past s msk len\<rparr>
                        in (case deserialize_component_fields s (replicate len 0) b2 msk of (ok, scratch, b3) \<Rightarrow>
                              if ok then drain_delta_records s n sv1 b3 else (False, sv1, b3))))))"

fun apply_delta_records :: "component_schema \<Rightarrow> nat \<Rightarrow> row_ptr \<Rightarrow> 'u world \<Rightarrow> binary_buffer
    \<Rightarrow> bool \<times> 'u world \<times> binary_buffer" where
  "apply_delta_records s 0 dst w b = (True, w, b)"
| "apply_delta_records s (Suc n) dst w b =
     (case read_u8 b of None \<Rightarrow> (False, w, b)
      | Some (bidx, b1) \<Rightarrow> (case read_field_mask (length (cs_fields s)) b1 of None \<Rightarrow> (False, w, b1)
          | Some (msk, b2) \<Rightarrow> (case deserialize_component_fields s (load_row w dst) b2 msk of (ok, row, b3) \<Rightarrow>
              (let w1 = store_row dst row w
               in if ok then apply_delta_records s n dst w1 b3 else (False, w1, b3)))))"

definition apply_delta_component_v1 :: "('u, 'v) env \<Rightarrow> component_schema \<Rightarrow> entity \<Rightarrow> ctype \<Rightarrow> 'u world \<Rightarrow> binary_buffer
    \<Rightarrow> bool \<times> 'u world \<times> binary_buffer" where
  "apply_delta_component_v1 E s e t w b =
     (if \<not> is_alive w e
      then (case deserialize_component s (replicate (cs_size s) 0) b of (ok, scratch, b1) \<Rightarrow> (ok, w, b1))
      else (let w1 = add_raw E e t None w
            in (case get_raw w1 e t of None \<Rightarrow> (False, w1, b)
                | Some dst \<Rightarrow> (case deserialize_component s (load_row w1 dst) b of (ok, row, b1) \<Rightarrow>
                    (ok, store_row dst row w1, b1)))))"

definition apply_delta_component_v2 :: "('c client, 'v) env \<Rightarrow> component_schema \<Rightarrow> entity \<Rightarrow> ctype \<Rightarrow> 'c client world
    \<Rightarrow> binary_buffer \<Rightarrow> bool \<times> 'c client world \<times> binary_buffer" where
  "apply_delta_component_v2 E s e t w b =
     (case read_u8 b of None \<Rightarrow> (False, w, b)
      | Some (nrec, b1) \<Rightarrow>
          if \<not> is_alive w e
          then (case drain_delta_records s (unat nrec) (scratch_of w) b1 of (ok, sv, b2) \<Rightarrow> (ok, set_scratch sv w, b2))
          else (let w1 = (if \<not> has w e t then add_raw E e t None w else w)
                in (case get_raw w1 e t of None \<Rightarrow> (False, w1, b1)
                    | Some dst \<Rightarrow> apply_delta_records s (unat nrec) dst w1 b1)))"

fun apply_delta_components :: "('c client, 'v) env \<Rightarrow> u16 \<Rightarrow> nat \<Rightarrow> entity \<Rightarrow> 'c client world \<Rightarrow> binary_buffer
    \<Rightarrow> bool \<times> 'c client world \<times> binary_buffer" where
  "apply_delta_components E version 0 e w b = (True, w, b)"
| "apply_delta_components E version (Suc n) e w b =
     (case read_u32 b of None \<Rightarrow> (False, w, b)
      | Some (t, b1) \<Rightarrow> (case schema_of (env_registry E) t of None \<Rightarrow> (False, w, b1)
          | Some s \<Rightarrow>
              (case (if version = 1 then apply_delta_component_v1 E s e t w b1
                     else apply_delta_component_v2 E s e t w b1) of (ok, w1, b2) \<Rightarrow>
                 if ok then apply_delta_components E version n e w1 b2 else (False, w1, b2))))"

fun apply_delta_entities :: "('c client, 'v) env \<Rightarrow> u16 \<Rightarrow> nat \<Rightarrow> 'c client world \<Rightarrow> binary_buffer \<Rightarrow> 'c client world" where
  "apply_delta_entities E version 0 w b = w"
| "apply_delta_entities E version (Suc n) w b =
     (case read_u64 b of None \<Rightarrow> w
      | Some (i, b1) \<Rightarrow> (case read_u8 b1 of None \<Rightarrow> w
          | Some (ncomp, b2) \<Rightarrow>
              (case apply_delta_components E version (unat ncomp) (Entity i) w b2 of (ok, w1, b3) \<Rightarrow>
                 if \<not> ok then w1
                 else apply_delta_entities E version n
                        (if is_alive w1 (Entity i) then update_replication (add_replicated (Entity i)) w1 else w1) b3)))"

definition apply_delta :: "('c client, 'v) env \<Rightarrow> binary_buffer \<Rightarrow> 'c client world \<Rightarrow> 'c client world" where
  "apply_delta E p_data w =
     (case read_u16 (seek 0 p_data) of None \<Rightarrow> w
      | Some (version, b1) \<Rightarrow>
          if \<not> version_ok version then w
          else (case read_u32 b1 of None \<Rightarrow> w
                | Some (n, b2) \<Rightarrow> apply_delta_entities E version (unat n) w b2))"

text \<open>The second pass of a full state: the flag, the world and the set of entities received.\<close>

fun apply_full_entities :: "('u, 'v) env \<Rightarrow> u16 \<Rightarrow> nat \<Rightarrow> entity set \<Rightarrow> 'u world \<Rightarrow> binary_buffer
    \<Rightarrow> bool \<times> 'u world \<times> entity set" where
  "apply_full_entities E version 0 incoming w b = (True, w, incoming)"
| "apply_full_entities E version (Suc n) incoming w b =
     (case read_u64 b of None \<Rightarrow> (False, w, incoming)
      | Some (i, b1) \<Rightarrow>
          (let w1 = (if is_alive w (Entity i) then destroy_entity E (Entity i) w else w)
           in (case create_entity_preassigned E i w1 of (e, w2) \<Rightarrow>
                 if \<not> entity_bool e then (False, w2, incoming)
                 else (case read_u16 b1 of None \<Rightarrow> (False, w2, insert e incoming)
                       | Some (ncomp, b2) \<Rightarrow>
                           (case apply_components E (read_version version) (unat ncomp) e w2 b2 of (ok, w3, b3) \<Rightarrow>
                              if ok then apply_full_entities E version n (insert e incoming) w3 b3
                              else (False, w3, insert e incoming))))))"

definition remove_ghosts :: "('c client, 'v) env \<Rightarrow> iteration \<Rightarrow> entity set \<Rightarrow> 'c client world \<Rightarrow> 'c client world" where
  "remove_ghosts E it incoming w =
     update_replication (\<lambda>rp. rp\<lparr>rp_client_replicated := incoming\<rparr>)
       (fold (\<lambda>e u. if e \<notin> incoming \<and> is_alive u e then destroy_entity E e u else u)
          (it_entities it (client_replicated w)) w)"

definition apply_full_state :: "('c client, 'v) env \<Rightarrow> iteration \<Rightarrow> binary_buffer \<Rightarrow> 'c client world \<Rightarrow> 'c client world" where
  "apply_full_state E it p_data w =
     (case read_u16 (seek 0 p_data) of None \<Rightarrow> w
      | Some (version, b1) \<Rightarrow>
          if \<not> version_ok version then w
          else (case read_u32 b1 of None \<Rightarrow> w
                | Some (n, b2) \<Rightarrow>
                    if scan_entities (env_registry E) (skip_version version) (unat n) {} b2 = None then w
                    else (case apply_full_entities E version (unat n) {} w b2 of (ok, w1, incoming) \<Rightarrow>
                            if ok then remove_ghosts E it incoming w1 else w1)))"

definition apply_despawn :: "('c client, 'v) env \<Rightarrow> binary_buffer \<Rightarrow> 'c client world \<Rightarrow> 'c client world" where
  "apply_despawn E p_data w =
     (case read_u64 (seek 0 p_data) of None \<Rightarrow> w
      | Some (i, b1) \<Rightarrow>
          (let w1 = update_replication (\<lambda>rp. rp\<lparr>rp_client_replicated := rp_client_replicated rp - {Entity i}\<rparr>) w
           in if is_alive w1 (Entity i) then destroy_entity E (Entity i) w1 else w1))"

definition set_applying :: "bool \<Rightarrow> 'c client world \<Rightarrow> 'c client world" where
  "set_applying v w = set_net ((net_of w)\<lparr>ns_applying := v\<rparr>) w"

definition apply_packet :: "('c client, 'v) env \<Rightarrow> iteration \<Rightarrow> sync_packet_kind \<Rightarrow> binary_buffer
    \<Rightarrow> 'c client world \<Rightarrow> 'c client world" where
  "apply_packet E it p_kind p_data w =
     (if \<not> ns_world (net_of w) \<or> ns_strategy (net_of w) = None then w
      else if \<not> validate_packet (env_registry E) p_data p_kind then w
      else
        (let w1 = set_applying True w;
             w2 = (case p_kind of
                     Spawn \<Rightarrow> apply_spawn E p_data w1
                   | Delta \<Rightarrow> apply_delta E p_data w1
                   | FullState \<Rightarrow> apply_full_state E it p_data w1
                   | Despawn \<Rightarrow> apply_despawn E p_data w1)
         in set_applying False w2))"

text \<open>The RPC entry points drop a packet of another session.\<close>

definition rpc_spawn :: "('c client, 'v) env \<Rightarrow> iteration \<Rightarrow> byte list \<Rightarrow> u32 \<Rightarrow> 'c client world \<Rightarrow> 'c client world" where
  "rpc_spawn E it p_bytes p_session w =
     (if p_session \<noteq> ns_session_id (net_of w) then w else apply_packet E it Spawn (from_packed p_bytes) w)"

definition rpc_despawn :: "('c client, 'v) env \<Rightarrow> iteration \<Rightarrow> byte list \<Rightarrow> u32 \<Rightarrow> 'c client world \<Rightarrow> 'c client world" where
  "rpc_despawn E it p_bytes p_session w =
     (if p_session \<noteq> ns_session_id (net_of w) then w else apply_packet E it Despawn (from_packed p_bytes) w)"

definition rpc_delta :: "('c client, 'v) env \<Rightarrow> iteration \<Rightarrow> byte list \<Rightarrow> u32 \<Rightarrow> 'c client world \<Rightarrow> 'c client world" where
  "rpc_delta E it p_bytes p_session w =
     (if p_session \<noteq> ns_session_id (net_of w) then w else apply_packet E it Delta (from_packed p_bytes) w)"

definition rpc_full_state :: "('c client, 'v) env \<Rightarrow> iteration \<Rightarrow> byte list \<Rightarrow> u32 \<Rightarrow> 'c client world \<Rightarrow> 'c client world" where
  "rpc_full_state E it p_bytes p_session w =
     (if p_session \<noteq> ns_session_id (net_of w) then w else apply_packet E it FullState (from_packed p_bytes) w)"

text \<open>What the engine delivers to the RPC of a kind.\<close>

fun deliver_packet :: "('c client, 'v) env \<Rightarrow> iteration \<Rightarrow> outgoing \<Rightarrow> 'c client world \<Rightarrow> 'c client world" where
  "deliver_packet E it (DirectPacket p_kind p_data) w = apply_packet E it p_kind p_data w"
| "deliver_packet E it (RpcPacket p_kind p_bytes p_session p_peer) w =
     (case p_kind of
        Spawn \<Rightarrow> rpc_spawn E it p_bytes p_session w
      | Despawn \<Rightarrow> rpc_despawn E it p_bytes p_session w
      | Delta \<Rightarrow> rpc_delta E it p_bytes p_session w
      | FullState \<Rightarrow> rpc_full_state E it p_bytes p_session w)"

section \<open>The node as an observer\<close>

text \<open>The callbacks of a world with a sync node: \<open>net_fn\<close> is the node's, the others change their own state.\<close>

definition net_callback :: "registry \<Rightarrow> nat \<Rightarrow> (nat \<Rightarrow> 'v event \<Rightarrow> 'c client world \<Rightarrow> 'c) \<Rightarrow> nat \<Rightarrow> 'v event
    \<Rightarrow> 'c client world \<Rightarrow> 'c client world" where
  "net_callback reg net_fn other f ev w =
     (if f = net_fn then on_world_event reg ev w
      else w\<lparr>w_client := (w_client w)\<lparr>cl_rest := other f ev w\<rparr>\<rparr>)"

definition net_env :: "nat \<Rightarrow> (nat \<Rightarrow> 'v event \<Rightarrow> 'c client world \<Rightarrow> 'c) \<Rightarrow> ('c client, 'v) env \<Rightarrow> ('c client, 'v) env" where
  "net_env net_fn other E = E\<lparr>env_callback := net_callback (env_registry E) net_fn other\<rparr>"

end
