(* ===== verification/ReplicationSpec.thy ===== *)
theory ReplicationSpec
  imports ReplicationApply
begin

text \<open>
  What replication promises: the node as an observer (it never changes the world, whose
  invariants every delivery keeps), the packets as records of components, the receiving side
  applied to them.
\<close>

section \<open>The node as an observer\<close>

lemma set_net_fields [simp]:
  "net_of (set_net n w) = n" "set_net n (set_net n' w) = set_net n w" "set_net (net_of w) w = w"
  "cl_rest (w_client (set_net n w)) = cl_rest (w_client w)"
  by (simp_all add: net_of_def set_net_def)

lemma set_net_world [simp]:
  "w_locations (set_net n w) = w_locations w" "w_archs (set_net n w) = w_archs w"
  "w_archetype_list (set_net n w) = w_archetype_list w" "w_pending_ops (set_net n w) = w_pending_ops w"
  "w_iteration_depth (set_net n w) = w_iteration_depth w" "w_defer_moves (set_net n w) = w_defer_moves w"
  "same_store w (set_net n w)" "ctl (set_net n w) = ctl w"
  by (simp_all add: set_net_def ctl_def)

lemma set_net_store [simp]: "location_of (set_net n w) = location_of w" "arch (set_net n w) = arch w"
  by (simp_all add: location_of_def arch_def fun_eq_iff)

lemma set_net_content [simp]: "content (set_net n w) = content w"
  by (simp add: content_def fun_eq_iff cong: option.case_cong)

lemma set_net_view [simp]:
  "is_alive (set_net n w) e = is_alive w e" "has (set_net n w) e t = has w e t"
  "get_raw (set_net n w) e t = get_raw w e t" "load_row (set_net n w) p = load_row w p"
  "get_entity_component_types (set_net n w) e = get_entity_component_types w e" "open_mode (set_net n w) = open_mode w"
  by (simp_all add: is_alive_def has_def get_raw_def load_row_def get_entity_component_types_def open_mode_def
      in_iteration_def cong: option.case_cong)

text \<open>The size of the scratch vector is no part of the world.\<close>

lemma set_scratch_fields [simp]:
  "net_of (set_scratch sv w) = net_of w" "scratch_of (set_scratch sv w) = sv" "scratch_of (set_net n w) = scratch_of w"
  "same_store w (set_scratch sv w)" "ctl (set_scratch sv w) = ctl w" "location_of (set_scratch sv w) = location_of w"
  "arch (set_scratch sv w) = arch w" "cl_net (w_client (set_scratch sv w)) = cl_net (w_client w)"
  by (simp_all add: set_scratch_def set_net_def scratch_of_def net_of_def ctl_def location_of_def arch_def fun_eq_iff)

lemma set_scratch_content [simp]:
  "content (set_scratch sv w) = content w" "is_alive (set_scratch sv w) e = is_alive w e" "open_mode (set_scratch sv w) = open_mode w"
  by (simp_all add: content_def fun_eq_iff is_alive_def open_mode_def in_iteration_def set_scratch_def location_of_def arch_def
      cong: option.case_cong)

lemma set_scratch_wf: "wf_store reg w \<Longrightarrow> wf_store reg (set_scratch sv w)"
  using same_store_wf(1) [of w "set_scratch sv w" reg] by simp

lemma update_replication_eq: "\<exists>n. update_replication f w = set_net n w"
  by (auto simp: update_replication_def)

lemma on_world_event_client: "\<exists>n. on_world_event reg ev w = set_net n w"
proof (cases "ns_strategy (net_of w)")
  case None
  then have "on_world_event reg ev w = set_net (net_of w) w" by (simp add: on_world_event_def)
  then show ?thesis by blast
qed (auto simp: on_world_event_def)

lemma net_callback_client: "\<exists>u. net_callback reg net_fn other f ev w = w\<lparr>w_client := u\<rparr>"
  using on_world_event_client [of reg ev w] by (auto simp: net_callback_def set_net_def)

lemma net_env_passive:
  "passive_env (net_env net_fn other E)" "env_registry (net_env net_fn other E) = env_registry E"
  using net_callback_client by (auto simp: passive_env_def net_env_def)

lemma net_callback_world:
  assumes "wf_world reg w"
  shows "wf_world reg (net_callback reg net_fn other f ev w)"
proof -
  obtain u where u: "net_callback reg net_fn other f ev w = w\<lparr>w_client := u\<rparr>" using net_callback_client by blast
  have "same_store w (w\<lparr>w_client := u\<rparr>)" by simp
  moreover have "ctl (w\<lparr>w_client := u\<rparr>) = ctl w" by (simp add: ctl_def)
  ultimately show ?thesis unfolding u by (rule wf_world_same_store [OF assms])
qed

text \<open>Delivery through the node keeps the invariant of the world \<dots>\<close>

interpretation net_world: observer_contract "net_callback reg net_fn other" "wf_world reg" for reg net_fn other
  by unfold_locales (rule net_callback_world)

text \<open>
  \<dots> and of the node: only tracked entities are dirty, and the throttle state belongs to tracked
  entities, so it cannot outlive them.
\<close>

definition rp_ok :: "replication \<Rightarrow> bool" where
  "rp_ok rp \<longleftrightarrow> distinct (map fst (rp_dirty rp)) \<and> fst ` set (rp_dirty rp) \<subseteq> rp_tracked rp
     \<and> dom (rp_next_send_tick rp) \<subseteq> rp_tracked rp"

definition net_ok :: "'c client world \<Rightarrow> bool" where
  "net_ok w \<longleftrightarrow> (\<forall>rp. ns_strategy (net_of w) = Some rp \<longrightarrow> rp_ok rp)"

lemma keys_AList:
  "distinct (map fst al) \<Longrightarrow> distinct (map fst (AList.update k v al))"
  "distinct (map fst al) \<Longrightarrow> distinct (map fst (AList.delete k al))"
  "fst ` set (AList.update k v al) = insert k (fst ` set al)"
  "fst ` set (AList.delete k al) = fst ` set al - {k}"
proof -
  show "fst ` set (AList.delete k al) = fst ` set al - {k}"
    using delete_keys [of k al] by (metis list.set_map set_removeAll)
qed (simp_all add: distinct_update distinct_delete dom_update del: delete_keys)

lemma mark_dirty_ok: "rp_ok rp \<Longrightarrow> e \<in> rp_tracked rp \<Longrightarrow> rp_ok (mark_dirty e t rp)"
  by (simp add: rp_ok_def mark_dirty_def keys_AList)

lemma drop_dirty_ok: "rp_ok rp \<Longrightarrow> rp_ok (drop_dirty e t rp)"
proof -
  have k: "map_of (rp_dirty rp) e \<noteq> None \<Longrightarrow> e \<in> fst ` set (rp_dirty rp)" by (simp add: map_of_eq_None_iff)
  show "rp_ok rp \<Longrightarrow> rp_ok (drop_dirty e t rp)"
    using k by (auto simp: rp_ok_def drop_dirty_def keys_AList simp del: map_of_eq_Some_iff)
qed

lemma untrack_ok: "rp_ok rp \<Longrightarrow> rp_ok (untrack e rp)"
  by (auto simp: rp_ok_def untrack_def keys_AList)

lemma react_ok:
  assumes "rp_ok rp"
  shows "rp_ok (react reg w n ev rp)"
proof -
  have a: "rp_ok (on_entity_component_added reg n e t rp)" for e t
  proof (cases "e \<in> rp_tracked rp")
    case True
    then show ?thesis using mark_dirty_ok [OF assms True] assms by (simp add: on_entity_component_added_def)
  qed (use assms in \<open>auto simp: on_entity_component_added_def rp_ok_def\<close>)
  have c: "rp_ok (on_entity_component_changed reg n e t rp)" for e t
    using assms mark_dirty_ok by (simp add: on_entity_component_changed_def)
  have r: "rp_ok (on_entity_component_removed reg w n e t rp)" for e t
    using assms drop_dirty_ok untrack_ok by (simp add: on_entity_component_removed_def Let_def)
  have "rp_ok (reset_state rp)" by (simp add: rp_ok_def reset_state_def)
  then show ?thesis using assms a c r by (simp add: react_def split: observer_event_type.split)
qed

lemma net_callback_ok: "net_ok w \<Longrightarrow> net_ok (net_callback reg net_fn other f ev w)"
  using react_ok by (auto simp: net_callback_def on_world_event_def net_ok_def net_of_def set_net_def split: option.split)

interpretation net_state: observer_contract "net_callback reg net_fn other" net_ok for reg net_fn other
  by unfold_locales (rule net_callback_ok)

section \<open>What world operations do to the client state\<close>

text \<open>
  The client state is only touched by callbacks. A predicate that the callbacks keep for
  component events is kept by the operations the receiving side uses.
\<close>

definition keeps_client :: "('u \<Rightarrow> bool) \<Rightarrow> ('u, 'v) env \<Rightarrow> bool" where
  "keeps_client P E \<longleftrightarrow>
     (\<forall>f ev w. ev_type ev \<noteq> Custom \<longrightarrow> P (w_client w) \<longrightarrow> P (w_client (env_callback E f ev w)))"

locale client_guard =
  fixes P :: "'u \<Rightarrow> bool" and E :: "('u, 'v) env"
  assumes keep: "keeps_client P E"
begin

lemma notify_client: "ty \<noteq> Custom \<Longrightarrow> P (w_client w) \<Longrightarrow> P (w_client (notify E ty e t w))"
proof -
  assume ty: "ty \<noteq> Custom"
  have "P (w_client w) \<Longrightarrow> P (w_client (fst (deliver (env_callback E) (mk_event ty e t '''' None) cbs (w, n))))" for cbs w n
    using keep ty
    by (induction cbs arbitrary: w n) (auto simp: keeps_client_def mk_event_def split: option.split)
  then show "P (w_client w) \<Longrightarrow> P (w_client (notify E ty e t w))"
    by (simp add: notify_def dispatch_def observer_dispatch_event_def)
qed

lemma notify_removed_client: "P (w_client w) \<Longrightarrow> P (w_client (notify_removed E e ts w))"
  unfolding notify_removed_def by (induction ts arbitrary: w) (simp_all add: notify_client)

lemma add_raw_client:
  assumes "P (w_client w)"
  shows "P (w_client (add_raw E e t d w))"
proof (cases "is_alive w e \<and> schema_of (env_registry E) t \<noteq> None \<and> \<not> w_defer_moves w")
  case False
  then show ?thesis using assms by (auto simp: add_raw_def split: option.split)
next
  case True
  then obtain l s where l: "location_of w e = Some l" "schema_of (env_registry E) t = Some s" by (auto simp: is_alive_def)
  obtain target row w3 where m: "migrate E e l (sort (a_component_ids (arch w (loc_archetype l)) @ [t])) w = (target, row, w3)"
    by (cases "migrate E e l (sort (a_component_ids (arch w (loc_archetype l)) @ [t])) w") auto
  show ?thesis
    using True assms client_migrate [OF m] by (simp add: add_raw_eq [OF l(1) _ l(2)] m notify_client)
qed

lemma destroy_entity_client:
  assumes "P (w_client w)"
  shows "P (w_client (destroy_entity E e w))"
  using assms by (auto simp: destroy_entity_def Let_def notify_removed_client split: option.split)

lemma apply_components_client:
  "P (w_client w) \<Longrightarrow> P (w_client (fst (snd (apply_components E rd n e w b))))"
proof (induction n arbitrary: w b)
  case (Suc n)
  show ?case
    using Suc add_raw_client [OF Suc.prems]
    by (subst apply_components.simps)
      (auto simp: Let_def split: option.split prod.split)
qed simp

lemma apply_full_entities_client:
  "P (w_client w) \<Longrightarrow> P (w_client (fst (snd (apply_full_entities E v k inc w b))))"
proof (induction k arbitrary: w b inc)
  case (Suc k)
  show ?case
  proof (cases "read_u64 b")
    case None
    then show ?thesis using Suc.prems by simp
  next
    case r: (Some x)
    obtain i b1 where x: "x = (i, b1)" by (cases x)
    let ?w1 = "if is_alive w (Entity i) then destroy_entity E (Entity i) w else w"
    obtain e w2 where c: "create_entity_preassigned E i ?w1 = (e, w2)" by (cases "create_entity_preassigned E i ?w1")
    have 2: "P (w_client w2)"
      using Suc.prems destroy_entity_client [of w "Entity i"] c client_frame2(6) [of E i ?w1] by simp
    have 3: "P (w_client w3)" if "apply_components E rd m e w2 b2 = (ok, w3, b3)" for m rd b2 ok w3 b3
      using apply_components_client [of w2 rd m e b2] 2 that by simp
    show ?thesis
      using Suc.IH 2 3 by (simp add: r x Let_def c split: option.split prod.split)
  qed
qed simp

end

text \<open>
  While a packet is applied, the node's own callback changes nothing: whatever component events
  the changes raise, the sending state (everything but \<open>client_replicated_\<close>) is fixed.
\<close>

definition sending_state :: "network_sync \<Rightarrow> network_sync" where
  "sending_state n = n\<lparr>ns_strategy := map_option (\<lambda>rp. rp\<lparr>rp_client_replicated := {}\<rparr>) (ns_strategy n)\<rparr>"

definition applying_with :: "(network_sync \<Rightarrow> bool) \<Rightarrow> 'c client \<Rightarrow> bool" where
  "applying_with Q c \<longleftrightarrow> ns_applying (cl_net c) \<and> Q (cl_net c)"

abbreviation applying_state :: "network_sync \<Rightarrow> 'c client \<Rightarrow> bool" where
  "applying_state n \<equiv> applying_with (\<lambda>x. sending_state x = n)"

lemma react_applying: "ns_applying n \<Longrightarrow> ev_type ev \<noteq> Custom \<Longrightarrow> react reg w n ev rp = rp"
  by (cases "ev_type ev") (simp_all add: react_def on_entity_component_added_def on_entity_component_changed_def
      on_entity_component_removed_def)

lemma net_env_keeps_applying: "keeps_client (applying_with Q) (net_env net_fn other E)"
  unfolding keeps_client_def
proof (intro allI impI)
  fix f and ev :: "'b event" and w :: "'a client world"
  assume ev: "ev_type ev \<noteq> Custom" and a: "applying_with Q (w_client w)"
  then have ap: "ns_applying (net_of w)" by (simp add: applying_with_def net_of_def)
  show "applying_with Q (w_client (env_callback (net_env net_fn other E) f ev w))"
  proof (cases "f = net_fn")
    case False
    then show ?thesis using a by (simp add: net_env_def net_callback_def applying_with_def)
  next
    case True
    have "on_world_event (env_registry E) ev w = w"
    proof (cases "ns_strategy (net_of w)")
      case (Some rp)
      then have "set_net ((net_of w)\<lparr>ns_strategy := Some rp\<rparr>) w = w" by (cases "net_of w") (simp add: set_net_def net_of_def)
      then show ?thesis using Some react_applying [OF ap ev, of "env_registry E" w rp] by (simp add: on_world_event_def)
    qed (simp add: on_world_event_def)
    then show ?thesis using a True by (simp add: net_env_def net_callback_def)
  qed
qed

text \<open>
  What the receiving side keeps of the node's state: \<open>P\<close> is kept by the callbacks and does not
  look at the set of replicated entities.
\<close>

locale receiver = client_guard P E for P :: "'c client \<Rightarrow> bool" and E :: "('c client, 'v) env" +
  assumes upd: "P (w_client w) \<Longrightarrow> (\<And>rp. (f rp)\<lparr>rp_client_replicated := {}\<rparr> = rp\<lparr>rp_client_replicated := {}\<rparr>)
      \<Longrightarrow> P (w_client (update_replication f w))"
begin

lemma add_client: "P (w_client w) \<Longrightarrow> P (w_client (update_replication (add_replicated e) w))"
  by (rule upd) (simp_all add: add_replicated_def)

lemma apply_spawn_client:
  assumes "P (w_client w)"
  shows "P (w_client (apply_spawn E d w))"
proof -
  have 1: "P (w_client w1)" if "create_entity_preassigned E i w = (e, w1)" for i e w1
    using client_frame2(6) [of E i w] that assms by simp
  have 2: "P (w_client w2)"
    if "create_entity_preassigned E i w = (e, w1)" "apply_components E rd m e w1 b = (ok, w2, b')" for i e w1 rd m b ok w2 b'
    using apply_components_client [of w1 rd m e b] 1 [OF that(1)] that(2) by simp
  show ?thesis using assms by (auto simp: apply_spawn_def split: option.split prod.split intro: 1 2 add_client)
qed

lemma remove_ghosts_client:
  assumes "P (w_client w)"
  shows "P (w_client (remove_ghosts E it inc w))"
proof -
  have "P (w_client (fold (\<lambda>e u. if e \<notin> inc \<and> is_alive u e then destroy_entity E e u else u) es w))" for es
    using assms
  proof (induction es arbitrary: w)
    case (Cons e es)
    then show ?case using destroy_entity_client [of w e] by simp
  qed simp
  then show ?thesis unfolding remove_ghosts_def by (rule upd) simp
qed

lemma apply_full_state_client:
  assumes a: "P (w_client w)"
  shows "P (w_client (apply_full_state E it d w))"
proof -
  have 1: "P (w_client w1)" if "apply_full_entities E v k {} w b = (ok, w1, inc)" for v k b ok w1 inc
    using apply_full_entities_client [OF a, of v k "{}" b] that by simp
  show ?thesis using a by (auto simp: apply_full_state_def split: option.split prod.split intro: 1 remove_ghosts_client)
qed

lemma apply_despawn_client:
  assumes "P (w_client w)"
  shows "P (w_client (apply_despawn E d w))"
proof -
  have "P (w_client (update_replication (\<lambda>rp. rp\<lparr>rp_client_replicated := f rp\<rparr>) w))" for f
    using assms by (rule upd) simp
  then show ?thesis using assms destroy_entity_client by (simp add: apply_despawn_def Let_def split: option.split prod.split)
qed

end

interpretation applying: client_guard "applying_with Q" "net_env net_fn other E" for Q net_fn other E
  by unfold_locales (rule net_env_keeps_applying)

lemma applying_update:
  assumes "applying_state n (w_client w)" "\<And>rp. (f rp)\<lparr>rp_client_replicated := {}\<rparr> = rp\<lparr>rp_client_replicated := {}\<rparr>"
  shows "applying_state n (w_client (update_replication f w))"
  using assms
  by (cases "ns_strategy (cl_net (w_client w))")
    (auto simp: applying_with_def update_replication_def set_net_def net_of_def sending_state_def)

lemma applying_scratch [simp]: "applying_with Q (w_client (set_scratch sv w)) = applying_with Q (w_client w)"
  by (simp add: applying_with_def)

lemma applying_add [simp]:
  "applying_state n (w_client w) \<Longrightarrow> applying_state n (w_client (update_replication (add_replicated e) w))"
  by (rule applying_update) (simp_all add: add_replicated_def)

interpretation applying_side: receiver "applying_state n" "net_env net_fn other E" for n net_fn other E
  by unfold_locales (auto intro: net_env_keeps_applying applying_update)

text \<open>Only records of dead entities touch the scratch vector.\<close>

lemma scratch_kept:
  "keeps_client (\<lambda>c. cl_scratch c = sv) (net_env net_fn other E)"
  "cl_scratch (w_client (update_replication f w)) = cl_scratch (w_client w)"
proof -
  have "cl_scratch (w_client (on_world_event reg ev w)) = cl_scratch (w_client w)" for reg and ev :: "'b event" and w :: "'a client world"
    using on_world_event_client [of reg ev w] by (auto simp: set_net_def)
  then show "keeps_client (\<lambda>c. cl_scratch c = sv) (net_env net_fn other E)"
    by (simp add: keeps_client_def net_env_def net_callback_def)
qed (simp add: update_replication_def set_net_def)

interpretation scratch_side: receiver "\<lambda>c. cl_scratch c = sv" "net_env net_fn other E" for sv net_fn other E
  by unfold_locales (simp_all add: scratch_kept)

lemma apply_delta_records_client: "w_client (fst (snd (apply_delta_records s k dst w b))) = w_client w"
  by (induction s k dst w b rule: apply_delta_records.induct) (auto simp: Let_def split: option.split prod.split)

lemma apply_delta_component_applying:
  assumes a: "applying_with Q (w_client w)"
  shows "applying_with Q (w_client (fst (snd (apply_delta_component_v1 (net_env net_fn other E) s e t w b))))"
    "applying_with Q (w_client (fst (snd (apply_delta_component_v2 (net_env net_fn other E) s e t w b))))"
  using a applying.add_raw_client [OF a]
  by (auto simp: apply_delta_component_v1_def apply_delta_component_v2_def Let_def apply_delta_records_client
      split: option.split prod.split)

lemma apply_delta_components_applying:
  "applying_with Q (w_client w) \<Longrightarrow>
   applying_with Q (w_client (fst (snd (apply_delta_components (net_env net_fn other E) v k e w b))))"
proof (induction k arbitrary: w b)
  case (Suc k)
  show ?case
  proof (cases "read_u32 b")
    case None
    then show ?thesis using Suc.prems by simp
  next
    case r: (Some x)
    obtain t b1 where x: "x = (t, b1)" by (cases x)
    show ?thesis
    proof (cases "schema_of (env_registry (net_env net_fn other E)) t")
      case None
      then show ?thesis using Suc.prems r x by simp
    next
      case s: (Some s)
      let ?r = "if v = 1 then apply_delta_component_v1 (net_env net_fn other E) s e t w b1
        else apply_delta_component_v2 (net_env net_fn other E) s e t w b1"
      obtain ok w1 b2 where r1: "?r = (ok, w1, b2)" by (cases ?r) auto
      have "applying_with Q (w_client (fst (snd ?r)))" using apply_delta_component_applying [OF Suc.prems, of net_fn other E s e t b1] by simp
      then have "applying_with Q (w_client w1)" unfolding r1 by simp
      then show ?thesis using Suc.IH r x s r1 by simp
    qed
  qed
qed simp

lemma apply_delta_entities_applying:
  "applying_state n (w_client w) \<Longrightarrow>
   applying_state n (w_client (apply_delta_entities (net_env net_fn other E) v k w b))"
proof (induction k arbitrary: w b)
  case (Suc k)
  have "applying_state n (w_client w1)"
    if "apply_delta_components (net_env net_fn other E) v m e w b2 = (ok, w1, b3)" for m e b2 ok w1 b3
    using apply_delta_components_applying [OF Suc.prems, of net_fn other E v m e b2] that by simp
  then show ?case using Suc by (auto split: option.split prod.split)
qed simp

section \<open>Components as records\<close>

text \<open>The components of an entity that replicate, with the bytes of their rows.\<close>

definition net_cells :: "registry \<Rightarrow> 'u world \<Rightarrow> entity \<Rightarrow> ctype list \<Rightarrow> (ctype \<times> byte list) list" where
  "net_cells reg w e ts = map (\<lambda>t. (t, load_row w (the (get_raw w e t)))) (filter (is_networked reg) ts)"

lemma net_cells_encodable:
  assumes wf: "wf_store reg w" and ts: "\<forall>t\<in>set ts. has w e t"
  shows "encodable reg (net_cells reg w e ts)"
    and "content w e = Some m \<Longrightarrow> t \<in> set ts \<Longrightarrow> m t = Some (load_row w (the (get_raw w e t)))"
proof -
  have c: "\<exists>m. content w e = Some m \<and> m t = Some (load_row w (the (get_raw w e t)))" if "has w e t" for t
    using get_raw_content [OF wf, of e t] that by (cases "get_raw w e t") auto
  then show "content w e = Some m \<Longrightarrow> t \<in> set ts \<Longrightarrow> m t = Some (load_row w (the (get_raw w e t)))"
    using ts by auto
  have "\<exists>s. schema_of reg t = Some s \<and> length (load_row w (the (get_raw w e t))) = cs_size s" if t: "t \<in> set ts" for t
  proof -
    obtain m where m: "content w e = Some m" "m t = Some (load_row w (the (get_raw w e t)))" using c ts t by blast
    show ?thesis by (rule content_length [OF wf m])
  qed
  then show "encodable reg (net_cells reg w e ts)" by (auto simp: encodable_def net_cells_def)
qed

lemma serialize_component_block_data:
  assumes wf: "wf_store reg w" and fit: "fitting reg" and t: "has w e t"
  shows "buf_data (serialize_component_block reg w e t b)
    = buf_data b @ le32 t @ masked_bytes (the (schema_of reg t)) (load_row w (the (get_raw w e t)))"
proof -
  obtain dst where d: "get_raw w e t = Some dst" using get_raw_content(1) [OF wf, of e t] t by (cases "get_raw w e t") auto
  obtain m where m: "content w e = Some m" "m t = Some (load_row w dst)" using get_raw_content(2) [OF wf d] by blast
  obtain s where s: "schema_of reg t = Some s" "length (load_row w dst) = cs_size s" using content_length [OF wf m] by blast
  have "fields_fit (cs_fields s) (length (load_row w dst))" using fit s by (simp add: fitting_def)
  from masked_payload(1) [OF this, of 2 "write_u32 t b"] show ?thesis
    by (simp add: serialize_component_block_def s d sync_plan_for_def Let_def write_masked_def write_u32_data)
qed

lemma networked_blocks_data:
  assumes wf: "wf_store reg w" and fit: "fitting reg" and ts: "\<forall>t\<in>set ts. has w e t"
  shows "buf_data (fst (networked_blocks reg w e ts)) = records reg masked_bytes (net_cells reg w e ts)"
    "snd (networked_blocks reg w e ts) = of_nat (length (net_cells reg w e ts))"
proof -
  have "buf_data (fst (fold (\<lambda>t (b, n). if is_networked reg t then (serialize_component_block reg w e t b, n + 1) else (b, n)) ts (b, n)))
        = buf_data b @ records reg masked_bytes (net_cells reg w e ts)
      \<and> snd (fold (\<lambda>t (b, n). if is_networked reg t then (serialize_component_block reg w e t b, n + 1) else (b, n)) ts (b, n))
        = n + of_nat (length (net_cells reg w e ts))" for b :: binary_buffer and n :: u16
    using ts
    by (induction ts arbitrary: b n)
      (simp_all add: net_cells_def records_def serialize_component_block_data [OF wf fit] algebra_simps)
  from this [of empty_buffer 0]
  show "buf_data (fst (networked_blocks reg w e ts)) = records reg masked_bytes (net_cells reg w e ts)"
    "snd (networked_blocks reg w e ts) = of_nat (length (net_cells reg w e ts))"
    by (simp_all add: networked_blocks_def empty_buffer_def)
qed

lemma entity_types_has:
  assumes wf: "wf_store reg w"
  shows "t \<in> set (get_entity_component_types w e) \<longleftrightarrow> has w e t" "distinct (get_entity_component_types w e)"
proof -
  show "t \<in> set (get_entity_component_types w e) \<longleftrightarrow> has w e t"
    using has_ids [OF wf] by (auto simp: get_entity_component_types_def has_def is_alive_def split: option.split)
  show "distinct (get_entity_component_types w e)"
    using wf_archD(1) [OF wf_locationD(3) [OF wf]]
    by (auto simp: get_entity_component_types_def is_alive_def strict_sorted_iff)
qed

lemma spawn_packet_data:
  assumes wf: "wf_store reg w" and fit: "fitting reg"
  shows "buf_data (spawn_packet reg w e)
    = le16 2 @ entity_record reg masked_bytes (e, net_cells reg w e (get_entity_component_types w e))"
proof -
  have "\<forall>t\<in>set (get_entity_component_types w e). has w e t" using entity_types_has(1) [OF wf] by blast
  note nb = networked_blocks_data [OF wf fit this]
  show ?thesis
    using nb by (simp add: spawn_packet_def Let_def case_prod_beta entity_record_def write_bytes_data write_u16_data
        write_u64_data empty_buffer_def SYNC_VERSION_def)
qed

end
