(* ===== verification/NetworkSpec.thy ===== *)
theory NetworkSpec
  imports ReplicationSpec
begin

text \<open>
  The properties of replication: what a peer's world is after it applied what a server sent, what
  is dropped, what is never sent, and when.
\<close>

section \<open>A node and a peer\<close>

definition node_env :: "(unit client, unit) env" where
  "node_env = net_env 7 (\<lambda>f ev w. ())
     \<lparr>env_registry = wire_registry, env_heap = (\<lambda>n k. 0), env_callback = (\<lambda>f ev w. w),
      env_custom = (\<lambda>f d w. w), env_order = (\<lambda>es. es)\<rparr>"

definition node_client :: "unit client" where
  "node_client = \<lparr>cl_net = new_network_sync\<lparr>ns_world := True\<rparr>, cl_scratch = empty_scratch, cl_rest = ()\<rparr>"

definition node_iteration :: iteration where
  "node_iteration = \<lparr>it_entities = sorted_list_of_set, it_types = sorted_list_of_set\<rparr>"

lemma node_env_ok:
  "passive_env node_env" "env_registry node_env = wire_registry"
  unfolding node_env_def by (rule net_env_passive, simp add: net_env_passive)

definition peer_world :: "unit client world" where
  "peer_world = new_world node_env node_client"

lemma peer_world_ok:
  "wf_store wire_registry peer_world" "content peer_world = Map.empty" "open_mode peer_world"
  "net_of peer_world = new_network_sync\<lparr>ns_world := True\<rparr>"
proof -
  show "wf_store wire_registry peer_world" using new_world_wf(1) [of node_env] by (simp add: peer_world_def wf_world_def node_env_ok)
  show "content peer_world = Map.empty" by (simp add: peer_world_def new_world_wf(2))
  show "open_mode peer_world" by (simp add: peer_world_def open_mode_def in_iteration_def new_world_fields)
  show "net_of peer_world = new_network_sync\<lparr>ns_world := True\<rparr>"
    by (simp add: peer_world_def net_of_def new_world_def create_archetype_eq blank_world_def node_client_def)
qed

section \<open>Cursors at the start and the end\<close>

lemma seek_start: "rest (seek 0 b) = buf_data b" "in_buffer (seek 0 b)" "buf_data (seek 0 b) = buf_data b"
  by (simp_all add: seek_def rest_def in_buffer_def)

lemma at_end_rest: "in_buffer b \<Longrightarrow> at_end b \<longleftrightarrow> rest b = []"
  by (auto simp: at_end_def in_buffer_def rest_def)

section \<open>Replicas\<close>

text \<open>
  The replica of an entity's components: the networked types; in each the replicating fields
  carry the source's values, the others are those of a zeroed row.
\<close>

definition replica :: "registry \<Rightarrow> (ctype \<rightharpoonup> byte list) \<Rightarrow> (ctype \<rightharpoonup> byte list) \<Rightarrow> bool" where
  "replica reg m m' \<longleftrightarrow> dom m' = {t \<in> dom m. is_networked reg t}
   \<and> (\<forall>t s v v'. schema_of reg t = Some s \<longrightarrow> m t = Some v \<longrightarrow> m' t = Some v' \<longrightarrow>
        (\<forall>fd\<in>set (cs_fields s). field_bytes fd v' = field_bytes fd (if field_replicates fd then v else zero_row s)))"

lemma fields_fit_apart:
  assumes "fields_fit fds n" "f \<in> set fds" "g \<in> set fds" "f \<noteq> g"
  shows "apart f g"
proof -
  have "apart f g \<or> apart g f" if "sorted_wrt apart fds"
    using that assms(2-4) by (induction fds) auto
  then show ?thesis using assms(1) by (auto simp: fields_fit_def apart_def)
qed

lemma masked_merge_fields:
  assumes fit: "fields_fit (cs_fields s) (cs_size s)" and v: "length v = cs_size s" and fd: "fd \<in> set (cs_fields s)"
  shows "field_bytes fd (version_merge 2 s v (zero_row s)) = field_bytes fd (if field_replicates fd then v else zero_row s)"
proof -
  have fit': "fields_fit (replicated s) (length (zero_row s))"
    unfolding replicated_def using fields_fit_selected [OF fit] by (simp add: zero_row_def)
  have len: "length v = length (zero_row s)" using v by (simp add: zero_row_def)
  show ?thesis
  proof (cases "field_replicates fd")
    case True
    then have "fd \<in> set (replicated s)" using fd by (simp add: replicated_eq)
    then show ?thesis using True store_fields_field_bytes [OF fit' len] by (simp add: version_merge_def)
  next
    case False
    then have "list_all (apart fd) (replicated s)"
      using fields_fit_apart [OF fit fd] by (auto simp: replicated_eq list_all_iff)
    then have "field_bytes fd (store_fields (replicated s) v (zero_row s)) = field_bytes fd (zero_row s)"
      by (intro field_bytes_cong mem_read_store_fields [OF fit' len]) (simp add: apart_def list_all_iff)
    then show ?thesis using False by (simp add: version_merge_def)
  qed
qed

lemma replica_loaded:
  assumes fit: "fitting reg" and enc: "encodable reg cs" and d: "distinct (map fst cs)"
    and cs: "map_of cs = m |` {t. is_networked reg t}"
  shows "replica reg m (loaded reg (version_merge 2) cs Map.empty)"
  unfolding replica_def loaded_restored [OF d] cs
proof (intro conjI allI impI ballI)
  show "dom (restored reg (version_merge 2) (m |` {t. is_networked reg t})) = {t \<in> dom m. is_networked reg t}"
    by (auto simp: restored_def restrict_map_def split: if_splits)
  fix t s v v' fd
  assume s: "schema_of reg t = Some s" and v: "m t = Some v" and fd: "fd \<in> set (cs_fields s)"
    and v': "restored reg (version_merge 2) (m |` {t. is_networked reg t}) t = Some v'"
  have n: "is_networked reg t" using v' by (auto simp: restored_def restrict_map_def split: if_splits)
  then have "map_of cs t = Some v" using cs v by (simp add: restrict_map_def)
  then have len: "length v = cs_size s" using enc s by (auto simp: encodable_def dest!: map_of_SomeD)
  have "v' = version_merge 2 s v (zero_row s)" using v' v s n by (simp add: restored_def restrict_map_def Let_def)
  moreover have "fields_fit (cs_fields s) (cs_size s)" using fit s by (simp add: fitting_def)
  ultimately show "field_bytes fd v' = field_bytes fd (if field_replicates fd then v else zero_row s)"
    using masked_merge_fields [OF _ len fd] by simp
qed

lemma net_cells_replica:
  assumes wf: "wf_store reg w" and m: "content w e = Some m"
  defines "cs \<equiv> net_cells reg w e (get_entity_component_types w e)"
  shows "encodable reg cs" "distinct (map fst cs)" "map_of cs = m |` {t. is_networked reg t}" "length cs \<le> card (dom m)"
proof -
  let ?ts = "get_entity_component_types w e"
  have ts: "\<forall>t\<in>set ?ts. has w e t" using entity_types_has(1) [OF wf] by blast
  note nc = net_cells_encodable [OF wf ts]
  have keys: "map fst cs = filter (is_networked reg) ?ts" by (simp add: cs_def net_cells_def comp_def)
  show "encodable reg cs" unfolding cs_def by (rule nc(1))
  show d: "distinct (map fst cs)" unfolding keys using entity_types_has(2) [OF wf] by simp
  have dom: "set ?ts = dom m" using entity_types_has(1) [OF wf] has_content [OF wf, of e] m by auto
  show "map_of cs = m |` {t. is_networked reg t}"
  proof
    fix t
    show "map_of cs t = (m |` {t. is_networked reg t}) t"
    proof (cases "t \<in> set ?ts \<and> is_networked reg t")
      case True
      then have "(t, load_row w (the (get_raw w e t))) \<in> set cs" by (simp add: cs_def net_cells_def)
      then have "map_of cs t = Some (load_row w (the (get_raw w e t)))" using d by simp
      then show ?thesis using nc(2) [OF m] True by simp
    next
      case False
      then have "map_of cs t = None" unfolding map_of_eq_None_iff keys set_map [symmetric] by auto
      then show ?thesis using False dom by (auto simp: restrict_map_def)
    qed
  qed
  have "length cs \<le> length ?ts" by (simp add: cs_def net_cells_def)
  also have "length ?ts = card (dom m)" using distinct_card [OF entity_types_has(2) [OF wf]] dom by metis
  finally show "length cs \<le> card (dom m)" .
qed

section \<open>Applying a spawn packet\<close>

lemma applying_start:
  assumes "ns_strategy (net_of w) = Some rp"
  defines "w1 \<equiv> set_applying True w"
  shows "applying_state (sending_state (net_of w1)) (w_client w1)" "ns_strategy (net_of w1) = Some rp"
    "content w1 = content w" "wf_store reg w \<Longrightarrow> wf_store reg w1" "open_mode w1 = open_mode w"
    "w_pending_ops w1 = w_pending_ops w"
  using assms same_store_wf(1) [of w w1 reg]
  by (simp_all add: set_applying_def applying_with_def flip: net_of_def)

lemma applying_strategy:
  assumes "applying_state (sending_state n) (w_client w)" "ns_strategy n = Some rp"
  shows "\<exists>rp'. ns_strategy (net_of w) = Some rp'"
  using assms by (cases "ns_strategy (cl_net (w_client w))")
    (auto simp: applying_with_def sending_state_def net_of_def dest!: arg_cong [where f = ns_strategy])

lemma update_replicated:
  "content (update_replication f w) = content w" "wf_store reg (update_replication f w) = wf_store reg w"
  "open_mode (update_replication f w) = open_mode w" "is_alive (update_replication f w) e = is_alive w e"
  "ns_strategy (net_of w) = Some rp \<Longrightarrow> client_replicated (update_replication f w) = rp_client_replicated (f rp)"
proof -
  show "wf_store reg (update_replication f w) = wf_store reg w"
  proof
    assume "wf_store reg w"
    then show "wf_store reg (update_replication f w)"
      unfolding update_replication_def by (rule same_store_wf(1) [rotated]) simp
  next
    assume a: "wf_store reg (update_replication f w)"
    obtain n where n: "update_replication f w = set_net n w" using update_replication_eq by blast
    have "same_store (set_net n w) (set_net (net_of w) (set_net n w))" by (rule set_net_world)
    from same_store_wf(1) [OF this a [unfolded n]] show "wf_store reg w" by simp
  qed
qed (simp_all add: update_replication_def client_replicated_def)

lemma set_applying_end:
  "content (set_applying v w) = content w" "wf_store reg w \<Longrightarrow> wf_store reg (set_applying v w)"
  "client_replicated (set_applying v w) = client_replicated w" "is_alive (set_applying v w) e = is_alive w e"
  using same_store_wf(1) [of w "set_applying v w" reg]
  by (simp_all add: set_applying_def client_replicated_def)

text \<open>
  C22. Receiving never causes sending: whatever packet arrives, valid or not, and whatever world
  changes and events it causes, the sending side of the node that applies it (tracked, dirty,
  pending sets, throttle times, session, outbox) is the same afterwards. So peers cannot echo
  each other's packets.
\<close>

theorem applying_does_not_echo:
  assumes "\<not> ns_applying (net_of w)"
  shows "sending_state (net_of (apply_packet (net_env net_fn other E) it kind data w)) = sending_state (net_of w)"
proof (cases "ns_world (net_of w) \<and> ns_strategy (net_of w) \<noteq> None
    \<and> validate_packet (env_registry (net_env net_fn other E)) data kind")
  case False
  then show ?thesis by (auto simp: apply_packet_def)
next
  case True
  let ?E = "net_env net_fn other E" and ?w1 = "set_applying True w"
  let ?n = "sending_state (net_of ?w1)"
  let ?w2 = "case kind of Spawn \<Rightarrow> apply_spawn ?E data ?w1 | Delta \<Rightarrow> apply_delta ?E data ?w1
     | FullState \<Rightarrow> apply_full_state ?E it data ?w1 | Despawn \<Rightarrow> apply_despawn ?E data ?w1"
  have a: "applying_state ?n (w_client ?w1)" using True applying_start(1) by blast
  have "applying_state ?n (w_client (apply_delta ?E data ?w1))"
    using a apply_delta_entities_applying [OF a, of net_fn other E] by (simp add: apply_delta_def split: option.split)
  then have "applying_state ?n (w_client ?w2)"
    using applying_side.apply_spawn_client [OF a] applying_side.apply_full_state_client [OF a]
      applying_side.apply_despawn_client [OF a] by (cases kind) simp_all
  then have 2: "sending_state (net_of ?w2) = ?n" by (simp add: applying_with_def net_of_def)
  have fa: "sending_state (n\<lparr>ns_applying := v\<rparr>) = (sending_state n)\<lparr>ns_applying := v\<rparr>" for n v
    by (simp add: sending_state_def)
  have "sending_state (net_of (set_applying False ?w2)) = (sending_state (net_of ?w1))\<lparr>ns_applying := False\<rparr>"
    unfolding set_applying_def [of False] set_net_fields(1) fa 2 ..
  also have "\<dots> = sending_state ((net_of w)\<lparr>ns_applying := False\<rparr>)"
    by (simp add: set_applying_def sending_state_def)
  also have "\<dots> = sending_state (net_of w)" using assms by (cases "net_of w") simp
  finally show ?thesis using True by (simp add: apply_packet_def Let_def)
qed

theorem applying_does_not_echo_witness:
  "ns_sent (net_of (apply_packet node_env node_iteration Spawn (from_packed [2, 0]) peer_world)) = []"
proof -
  have "\<not> ns_applying (net_of peer_world)" by (simp add: peer_world_ok(4) new_network_sync_def)
  from applying_does_not_echo [OF this] have "sending_state (net_of (apply_packet node_env node_iteration Spawn (from_packed [2, 0]) peer_world))
      = sending_state (net_of peer_world)" unfolding node_env_def by blast
  then show ?thesis
    by (auto simp: sending_state_def peer_world_ok(4) new_network_sync_def dest: arg_cong [where f = ns_sent])
qed

lemma apply_spawn_packet:
  fixes E :: "('c client, 'v) env" and e :: entity and cs :: "(ctype \<times> byte list) list"
  assumes data: "buf_data data = le16 2 @ entity_record (env_registry E) masked_bytes (e, cs)"
    and cs: "encodable (env_registry E) cs" "length cs < 2 ^ 16" and fit: "fitting (env_registry E)"
    and e: "\<not> id_refused (eid e)" "content w e = None"
    and w: "wf_store (env_registry E) w" "passive_env E" "open_mode w"
  shows "validate_packet (env_registry E) data Spawn"
    "\<exists>w'. apply_spawn E data w = update_replication (add_replicated e) w' \<and> wf_store (env_registry E) w'
       \<and> content w' = (content w)(e \<mapsto> loaded (env_registry E) (version_merge 2) cs Map.empty)"
proof -
  let ?reg = "env_registry E" and ?x = "(e, cs)" and ?enc = "version_bytes 2"
  have enc: "masked_bytes = ?enc" by (simp add: version_bytes_def fun_eq_iff)
  let ?b = "seek 0 data"
  have r0: "rest ?b = le16 2 @ entity_record ?reg ?enc ?x @ []" and i0: "in_buffer ?b"
    using data enc by (simp_all add: seek_start)
  have 1: "read_u16 ?b = Some (2, adv 2 ?b)" using r0 by (rule u16c.rd_enc)
  have r1: "rest (adv 2 ?b) = entity_record ?reg ?enc ?x @ []" using r0 by (simp add: rest_adv)
  have i1: "in_buffer (adv 2 ?b)" using i0 r0 by (simp add: in_buffer_adv)
  have l: "length (snd ?x) < 2 ^ 16" using cs(2) by simp
  note h = entity_record_head [OF r1 i1 l, unfolded fst_conv snd_conv]
  have v: "version_ok 2" by (simp add: version_ok_def SYNC_VERSION_MIN_def SYNC_VERSION_def)
  have "skip_components ?reg (skip_version 2) (length cs) (adv 2 (adv 8 (adv 2 ?b)))
      = Some (adv (length (entity_record ?reg ?enc ?x)) (adv 2 ?b))"
    using packet.skip_records [OF cs(1) fit h(5), of 2 "[]"] h(4) h(6) by simp
  then show "validate_packet ?reg data Spawn"
    using 1 v h(1,2,3) h(7) at_end_rest [OF h(8)] by (simp add: validate_packet_def Let_def consumed_def)
  obtain f w1 where c: "create_entity_preassigned E (eid e) w = (f, w1)" by (cases "create_entity_preassigned E (eid e) w")
  have n: "content w (Entity (eid e)) = None" using e(2) by simp
  note pe = preassigned_entity [OF w(1) e(1) n w(3) c]
  have f: "f = e" using pe(1) by simp
  have m: "content w1 e = Some Map.empty" using pe(4) by (simp add: f)
  have rr: "rest (adv 2 (adv 8 (adv 2 ?b))) = records ?reg (version_bytes 2) cs @ []" using h(4) .
  obtain w2 where w2: "apply_components E (read_version 2) (length cs) e w1 (adv 2 (adv 8 (adv 2 ?b)))
      = (True, w2, adv (length (entity_record ?reg ?enc ?x)) (adv 2 ?b))"
    "wf_store ?reg w2" "content w2 = (content w1)(e \<mapsto> loaded ?reg (version_merge 2) cs Map.empty)"
    using packet.apply_records [OF cs(1) fit h(5) rr pe(3) w(2) m pe(5), unfolded h(6)] by blast
  have "apply_spawn E data w = update_replication (add_replicated e) w2"
    using 1 v h(1,2,3) c pe(2) w2(1) by (simp add: apply_spawn_def f)
  moreover have "content w2 = (content w)(e \<mapsto> loaded ?reg (version_merge 2) cs Map.empty)"
    unfolding w2(3) pe(4) f by (simp del: fun_upd_apply)
  ultimately show "\<exists>w'. apply_spawn E data w = update_replication (add_replicated e) w' \<and> wf_store ?reg w'
       \<and> content w' = (content w)(e \<mapsto> loaded ?reg (version_merge 2) cs Map.empty)" using w2(2) by blast
qed

text \<open>
  C21. A spawned entity arrives: when the server's spawn packet of a live entity reaches a peer
  that does not know the entity, the peer's world afterwards holds it under the same id with
  exactly its networked components; every field that replicates has the server's value, every
  \<open>SYNC_LOCAL\<close> or not networked field the value of a zeroed row; no other entity is affected and
  the peer remembers the entity as replicated.
\<close>

theorem spawn_replicates_entity:
  fixes E :: "('c client, 'v) env" and net_fn :: nat and it :: iteration
    and other :: "nat \<Rightarrow> 'v event \<Rightarrow> 'c client world \<Rightarrow> 'c"
  assumes server: "wf_store (env_registry E) w" "content w e = Some m" "card (dom m) < 2 ^ 16"
    and fit: "fitting (env_registry E)" and id: "\<not> id_refused (eid e)"
    and peer: "wf_store (env_registry E) w0" "open_mode w0" "content w0 e = None"
      "ns_world (net_of w0)" "ns_strategy (net_of w0) = Some rp"
  defines "w' \<equiv> apply_packet (net_env net_fn other E) it Spawn (spawn_packet (env_registry E) w e) w0"
  shows "wf_store (env_registry E) w' \<and> (\<exists>m'. content w' = (content w0)(e \<mapsto> m') \<and> replica (env_registry E) m m')
    \<and> e \<in> client_replicated w'"
proof -
  let ?E = "net_env net_fn other E" and ?reg = "env_registry E" and ?d = "spawn_packet (env_registry E) w e"
  let ?cs = "net_cells ?reg w e (get_entity_component_types w e)" and ?w1 = "set_applying True w0"
  have reg: "env_registry ?E = ?reg" by (rule net_env_passive)
  note nc = net_cells_replica [OF server(1,2)]
  note st = applying_start [OF peer(5)]
  have few: "length ?cs < 2 ^ 16" using nc(4) server(3) by simp
  note data = spawn_packet_data [OF server(1) fit, of e]
  have d: "buf_data ?d = le16 2 @ entity_record (env_registry ?E) masked_bytes (e, ?cs)" using data by (simp add: reg)
  have none: "content ?w1 e = None" using st(3) peer(3) by simp
  have pr: "encodable (env_registry ?E) ?cs" "fitting (env_registry ?E)" "wf_store (env_registry ?E) ?w1" "open_mode ?w1"
    using nc(1) fit st(4) [OF peer(1)] peer(2) st(5) by (simp_all only: reg)
  note sp = apply_spawn_packet [OF d pr(1) few pr(2) id none pr(3) net_env_passive(1) pr(4)]
  obtain w2 where w2: "apply_spawn ?E ?d ?w1 = update_replication (add_replicated e) w2" "wf_store ?reg w2"
    "content w2 = (content w0)(e \<mapsto> loaded ?reg (version_merge 2) ?cs Map.empty)"
    using sp(2) st(3) by (auto simp: reg)
  have "applying_state (sending_state (net_of ?w1)) (w_client (apply_spawn ?E ?d ?w1))"
    by (rule applying_side.apply_spawn_client [OF st(1)])
  then obtain rp' where "ns_strategy (net_of (update_replication (add_replicated e) w2)) = Some rp'"
    using applying_strategy [OF _ st(2)] w2(1) by fastforce
  then obtain rp2 where "ns_strategy (net_of w2) = Some rp2" by (auto simp: update_replication_def)
  then have cl: "e \<in> client_replicated (update_replication (add_replicated e) w2)"
    by (simp add: update_replicated(5) add_replicated_def)
  have w': "w' = set_applying False (update_replication (add_replicated e) w2)"
    using sp(1) peer(4,5) w2(1) by (simp add: w'_def apply_packet_def reg)
  have "content w' = (content w0)(e \<mapsto> loaded ?reg (version_merge 2) ?cs Map.empty)"
    by (simp add: w' set_applying_end update_replicated w2(3))
  moreover have "replica ?reg m (loaded ?reg (version_merge 2) ?cs Map.empty)"
    by (rule replica_loaded [OF fit nc(1-3)])
  moreover have "wf_store ?reg w'" using w2(2) by (simp add: w' set_applying_end update_replicated)
  ultimately show ?thesis using cl by (auto simp: w' set_applying_end)
qed

theorem spawn_replicates_entity_witness:
  "e1 \<in> client_replicated (apply_packet node_env node_iteration Spawn
     (spawn_packet wire_registry (wire_world node_env node_client) e1) peer_world)"
proof -
  let ?E0 = "\<lparr>env_registry = wire_registry, env_heap = (\<lambda>n k. 0), env_callback = (\<lambda>f ev w. w),
      env_custom = (\<lambda>f d w. w), env_order = (\<lambda>es. es)\<rparr> :: (unit client, unit) env"
  note ww = wire_world_ok [OF node_env_ok, of node_client, unfolded node_env_ok(2)]
  have m: "content (wire_world node_env node_client) e1 = Some [1 \<mapsto> demo_row]" by (simp add: ww(2))
  have "ns_world (net_of peer_world)" "ns_strategy (net_of peer_world) = Some fresh_replication" "content peer_world e1 = None"
    by (simp_all add: peer_world_ok new_network_sync_def)
  note sp = spawn_replicates_entity [of ?E0 "wire_world node_env node_client" e1 "[1 \<mapsto> demo_row]" peer_world
      fresh_replication 7 "\<lambda>f ev w. ()" node_iteration]
  show ?thesis
    using sp ww(4) m wire_registry_ok(3) e1_id peer_world_ok(1,3) \<open>ns_world (net_of peer_world)\<close>
      \<open>ns_strategy (net_of peer_world) = Some fresh_replication\<close> \<open>content peer_world e1 = None\<close>
    by (simp add: node_env_def)
qed

end
