(* ===== verification/FullState.thy ===== *)
theory FullState
  imports NetworkSpec
begin

text \<open>
  Full-state reconciliation: the bytes \<open>serialize_full_state\<close> writes, the two passes of
  \<open>apply_full_state\<close> and the removal of ghosts, and what a peer's world is after them.
\<close>

section \<open>The packet\<close>

lemma net_cells_row:
  assumes wf: "wf_store reg w" and a: "a \<in> set (w_archetype_list w)" and r: "row < length (a_entities (arch w a))"
  shows "(a_entities (arch w a) ! row, net_cells reg w (a_entities (arch w a) ! row) (a_component_ids (arch w a)))
    = row_block (is_networked reg) (arch w a) row"
    and "\<forall>t\<in>set (a_component_ids (arch w a)). has w (a_entities (arch w a) ! row) t"
proof -
  let ?a = "arch w a"
  let ?e = "a_entities ?a ! row"
  have ar: "wf_arch ?a" and ty: "typed_columns reg ?a" using wf_archsD(4,5) [OF wf_storeD(1) [OF wf] a] by simp_all
  have "a_entity_to_row ?a ?e = Some row" using wf_archD(8) [OF ar] r by simp
  then have l: "location_of w ?e = Some \<lparr>loc_archetype = a, loc_row = row\<rparr>"
    using wf_storeD(2) [OF wf] a by (simp add: wf_locations_def)
  have nn: "?e \<noteq> null_entity" using wf_archD(7) [OF ar] nth_mem [OF r] by metis
  show has: "\<forall>t\<in>set (a_component_ids ?a). has w ?e t"
    using nn l has_ids [OF wf l] by (simp add: has_def entity_bool_iff)
  have cell: "load_row w (the (get_raw w ?e (a_component_ids ?a ! i))) = rows (a_columns ?a ! i) ! row"
    if i: "i < length (a_component_ids ?a)" for i
  proof -
    have ci: "column_index ?a (a_component_ids ?a ! i) = Some i" using column_index_iff [OF wf_archD(1) [OF ar]] i by simp
    have "has_component ?a (a_component_ids ?a ! i)" using has_ids [OF wf l] i by simp
    then have "get_raw w ?e (a_component_ids ?a ! i) = Some (a, a_component_ids ?a ! i, row)"
      using nn l by (simp add: get_raw_def entity_bool_iff)
    moreover have "c_size (a_columns ?a ! i) = length (a_entities ?a)"
      using wf_archD(2,4) [OF ar] i by simp
    ultimately show ?thesis using r ci by (simp add: load_row_def column_of_def Let_def)
  qed
  have "net_cells reg w ?e (a_component_ids ?a)
      = map (\<lambda>t. (t, load_row w (the (get_raw w ?e t)))) (filter (is_networked reg) (map ((!) (a_component_ids ?a)) [0..<length (a_component_ids ?a)]))"
    by (simp add: net_cells_def map_nth)
  also have "\<dots> = map (\<lambda>i. (a_component_ids ?a ! i, rows (a_columns ?a ! i) ! row))
      (filter (\<lambda>i. is_networked reg (a_component_ids ?a ! i)) [0..<length (a_component_ids ?a)])"
    by (simp add: filter_map comp_def cell)
  finally show "(?e, net_cells reg w ?e (a_component_ids ?a)) = row_block (is_networked reg) ?a row"
    by (simp add: row_block_def)
qed

definition sent_blocks :: "registry \<Rightarrow> 'u world \<Rightarrow> entity_block list" where
  "sent_blocks reg w = filter (\<lambda>x. snd x \<noteq> []) (world_blocks (is_networked reg) w)"

lemma full_state_row_data:
  assumes wf: "wf_store reg w" and fit: "fitting reg"
    and a: "a \<in> set (w_archetype_list w)" and r: "row < length (a_entities (arch w a))"
    and few: "length (snd (row_block (is_networked reg) (arch w a) row)) < 2 ^ 16"
  shows "buf_data (fst (full_state_row reg w (arch w a) row (out, n)))
      = buf_data out @ concat (map (entity_record reg masked_bytes) (filter (\<lambda>x. snd x \<noteq> []) [row_block (is_networked reg) (arch w a) row]))"
    "snd (full_state_row reg w (arch w a) row (out, n))
      = n + of_nat (length (filter (\<lambda>x. snd x \<noteq> []) [row_block (is_networked reg) (arch w a) row]))"
proof -
  let ?e = "a_entities (arch w a) ! row" and ?ids = "a_component_ids (arch w a)"
  let ?x = "row_block (is_networked reg) (arch w a) row"
  note nr = net_cells_row [OF wf a r]
  have x: "fst ?x = ?e" "snd ?x = net_cells reg w ?e ?ids" using nr(1) by (metis fst_conv snd_conv)+
  note nb = networked_blocks_data [OF wf fit nr(2), folded x(2)]
  have z: "snd (networked_blocks reg w ?e ?ids) = 0 \<longleftrightarrow> snd ?x = []"
    using of_nat_u16 [OF few] unfolding nb(2) by (cases "snd ?x") auto
  show "buf_data (fst (full_state_row reg w (arch w a) row (out, n)))
      = buf_data out @ concat (map (entity_record reg masked_bytes) (filter (\<lambda>x. snd x \<noteq> []) [?x]))"
    using z nb by (simp add: full_state_row_def Let_def case_prod_beta entity_record_def x(1) write_bytes_data
        write_u16_data write_u64_data)
  show "snd (full_state_row reg w (arch w a) row (out, n)) = n + of_nat (length (filter (\<lambda>x. snd x \<noteq> []) [?x]))"
    using z by (simp add: full_state_row_def Let_def case_prod_beta)
qed

lemma sent_blocks_few:
  assumes "wf_store reg w" "a \<in> set (w_archetype_list w)" "row < length (a_entities (arch w a))"
    and few: "\<forall>e m. content w e = Some m \<longrightarrow> card (dom m) < 2 ^ 16"
  shows "length (snd (row_block (is_networked reg) (arch w a) row)) < 2 ^ 16"
proof -
  let ?e = "a_entities (arch w a) ! row"
  have "wf_arch (arch w a)" using wf_archsD(4) [OF wf_storeD(1) [OF assms(1)] assms(2)] .
  then have e2r: "a_entity_to_row (arch w a) ?e = Some row" using wf_archD(8) assms(3) by blast
  then have l: "location_of w ?e = Some \<lparr>loc_archetype = a, loc_row = row\<rparr>"
    using wf_storeD(2) [OF assms(1)] assms(2) by (simp add: wf_locations_def)
  then obtain m where m: "content w ?e = Some m" by (simp add: content_Some)
  have "dom m = set (a_component_ids (arch w a))"
    using m l cell_dom [OF assms(1) l] by (auto simp: content_Some dom_def)
  then have "length (a_component_ids (arch w a)) = card (dom m)"
    using wf_archD(1) [OF \<open>wf_arch (arch w a)\<close>] by (simp add: strict_sorted_iff distinct_card)
  moreover have "length (snd (row_block (is_networked reg) (arch w a) row)) \<le> length (a_component_ids (arch w a))"
    using length_filter_le [of "\<lambda>i. is_networked reg (a_component_ids (arch w a) ! i)" "[0..<length (a_component_ids (arch w a))]"]
    by (simp add: row_block_def)
  ultimately show ?thesis using few m by fastforce
qed

lemma full_state_walk:
  assumes wf: "wf_store reg w" and fit: "fitting reg" and few: "\<forall>e m. content w e = Some m \<longrightarrow> card (dom m) < 2 ^ 16"
    and as: "set as \<subseteq> set (w_archetype_list w)"
  defines "bl \<equiv> filter (\<lambda>x. snd x \<noteq> [])
     (concat (map (\<lambda>a. map (row_block (is_networked reg) (arch w a)) [0..<length (a_entities (arch w a))]) as))"
  shows "buf_data (fst (fold (\<lambda>a. fold (full_state_row reg w (arch w a)) [0..<length (a_entities (arch w a))]) as (out, n)))
      = buf_data out @ concat (map (entity_record reg masked_bytes) bl)"
    "snd (fold (\<lambda>a. fold (full_state_row reg w (arch w a)) [0..<length (a_entities (arch w a))]) as (out, n))
      = n + of_nat (length bl)"
proof -
  have row: "buf_data (fst (fold (full_state_row reg w (arch w a)) rs (out, n)))
        = buf_data out @ concat (map (entity_record reg masked_bytes) (filter (\<lambda>x. snd x \<noteq> []) (map (row_block (is_networked reg) (arch w a)) rs)))
      \<and> snd (fold (full_state_row reg w (arch w a)) rs (out, n))
        = n + of_nat (length (filter (\<lambda>x. snd x \<noteq> []) (map (row_block (is_networked reg) (arch w a)) rs)))"
    if a: "a \<in> set (w_archetype_list w)" and rs: "set rs \<subseteq> {0..<length (a_entities (arch w a))}"
    for a rs and out :: binary_buffer and n :: u32
    using rs
  proof (induction rs arbitrary: out n)
    case (Cons r rs)
    then have r: "r < length (a_entities (arch w a))" by simp
    obtain out1 n1 where o: "full_state_row reg w (arch w a) r (out, n) = (out1, n1)"
      by (cases "full_state_row reg w (arch w a) r (out, n)")
    note d = full_state_row_data [OF wf fit a r sent_blocks_few [OF wf a r few], of out n, unfolded o]
    show ?case using Cons d by (simp add: o)
  qed simp
  have "buf_data (fst (fold (\<lambda>a. fold (full_state_row reg w (arch w a)) [0..<length (a_entities (arch w a))]) as (out, n)))
      = buf_data out @ concat (map (entity_record reg masked_bytes) bl)
    \<and> snd (fold (\<lambda>a. fold (full_state_row reg w (arch w a)) [0..<length (a_entities (arch w a))]) as (out, n))
      = n + of_nat (length bl)"
    using as unfolding bl_def
  proof (induction as arbitrary: out n)
    case (Cons a as)
    then have a: "a \<in> set (w_archetype_list w)" by simp
    obtain out1 n1 where o: "fold (full_state_row reg w (arch w a)) [0..<length (a_entities (arch w a))] (out, n) = (out1, n1)"
      by (cases "fold (full_state_row reg w (arch w a)) [0..<length (a_entities (arch w a))] (out, n)")
    have "set [0..<length (a_entities (arch w a))] \<subseteq> {0..<length (a_entities (arch w a))}" by simp
    from row [OF a this, of out n] Cons show ?case by (simp add: o)
  qed simp
  then show "buf_data (fst (fold (\<lambda>a. fold (full_state_row reg w (arch w a)) [0..<length (a_entities (arch w a))]) as (out, n)))
      = buf_data out @ concat (map (entity_record reg masked_bytes) bl)"
    "snd (fold (\<lambda>a. fold (full_state_row reg w (arch w a)) [0..<length (a_entities (arch w a))]) as (out, n))
      = n + of_nat (length bl)" by simp_all
qed

lemma serialize_full_state_data:
  assumes wf: "wf_store reg w" and fit: "fitting reg" and few: "\<forall>e m. content w e = Some m \<longrightarrow> card (dom m) < 2 ^ 16"
    and n: "length (w_locations w) < 2 ^ 32" "length (world_blocks (is_networked reg) w) = length (w_locations w)"
    and some: "sent_blocks reg w \<noteq> []"
  shows "buf_data (serialize_full_state reg w) = le16 2 @ le32 (of_nat (length (sent_blocks reg w)))
      @ concat (map (entity_record reg masked_bytes) (sent_blocks reg w))"
    "unat (of_nat (length (sent_blocks reg w)) :: u32) = length (sent_blocks reg w)"
proof -
  let ?bl = "sent_blocks reg w"
  have "length ?bl \<le> length (world_blocks (is_networked reg) w)" by (simp add: sent_blocks_def)
  then have len: "length ?bl < 2 ^ 32" using n by simp
  show cnt: "unat (of_nat (length ?bl) :: u32) = length ?bl" by (rule of_nat_u32 [OF len])
  let ?out = "write_u16 SYNC_VERSION empty_buffer"
  have as: "set (by_signature w) \<subseteq> set (w_archetype_list w)" by (simp add: by_signature_perm)
  note wk = full_state_walk [OF wf fit few as, of "write_u32 0 ?out" 0]
  obtain b k where r: "fold (\<lambda>a. fold (full_state_row reg w (arch w a)) [0..<length (a_entities (arch w a))])
      (by_signature w) (write_u32 0 ?out, 0) = (b, k)" by (cases "fold (\<lambda>a. fold (full_state_row reg w (arch w a)) [0..<length (a_entities (arch w a))])
      (by_signature w) (write_u32 0 ?out, 0)")
  have b: "buf_data b = le16 2 @ le32 0 @ concat (map (entity_record reg masked_bytes) ?bl)" "k = of_nat (length ?bl)"
    using wk unfolding r by (simp_all add: sent_blocks_def world_blocks_def write_u16_data write_u32_data empty_buffer_def SYNC_VERSION_def)
  have "k \<noteq> 0" using cnt some unfolding b(2) by (metis length_0_conv unsigned_0)
  then have "0 < k" by (simp add: word_neq_0_conv)
  then show "buf_data (serialize_full_state reg w) = le16 2 @ le32 (of_nat (length ?bl)) @ concat (map (entity_record reg masked_bytes) ?bl)"
    using overwrite_u32_patch [of "le32 0" b "le16 2" "concat (map (entity_record reg masked_bytes) ?bl)" k] b r
    by (simp add: serialize_full_state_def Let_def finish_counted_def write_pos empty_buffer_def eval_nat_numeral)
qed

section \<open>The second pass\<close>

lemma destroy_entity_mode:
  assumes wf: "wf_store (env_registry E) w" and p: "passive_env E" and md: "open_mode w"
  shows "wf_store (env_registry E) (destroy_entity E e w)" "content (destroy_entity E e w) = (content w)(e := None)"
    "open_mode (destroy_entity E e w)"
proof -
  have it: "\<not> in_iteration w" using md by (simp add: open_mode_def)
  show "wf_store (env_registry E) (destroy_entity E e w)" by (rule destroy_entity_wf(1) [OF wf passive_keeps [OF p]])
  show "content (destroy_entity E e w) = (content w)(e := None)" by (rule destroy_entity_content(1) [OF wf p it])
  show "open_mode (destroy_entity E e w)"
  proof (cases "location_of w e")
    case None
    then show ?thesis using md by (simp add: destroy_entity_def)
  next
    case (Some l)
    have g: "same_store v (free_entity_id e v)" for v by simp
    have c: "ctl (destroy_entity E e w) = ctl (free_entity_id e (unplace_entity e l w))"
      using remove_entity_with_store(3) [OF wf Some g p] destroy_entity_eq(1) [OF Some it, of E] by simp
    have u: "open_mode (unplace_entity e l w)" using open_mode_ctl [of "unplace_entity e l w" w] md by simp
    have "open_mode (free_entity_id e v) = open_mode v" for v :: "'a world"
      by (auto simp: free_entity_id_def open_mode_def in_iteration_def Let_def)
    then show ?thesis using open_mode_ctl [OF c] u by simp
  qed
qed

lemma apply_full_records:
  fixes v :: u16
  assumes "list_all (good_block (env_registry E)) xs" "distinct (map fst xs)"
    and "fitting (env_registry E)" "in_buffer b" "passive_env E" "wf_store (env_registry E) w" "open_mode w"
    and "rest b = concat (map (entity_record (env_registry E) (version_bytes v)) xs) @ r"
  shows "\<exists>w'. apply_full_entities E v (length xs) inc w b = (True, w', inc \<union> fst ` set xs)
    \<and> wf_store (env_registry E) w' \<and> open_mode w'
    \<and> content w' = (\<lambda>e. case map_of xs e of None \<Rightarrow> content w e
         | Some cs \<Rightarrow> Some (loaded (env_registry E) (version_merge v) cs Map.empty))"
  using assms
proof (induction xs arbitrary: b w inc)
  case Nil
  then show ?case by auto
next
  case (Cons x xs)
  let ?reg = "env_registry E" and ?enc = "version_bytes v" and ?mg = "version_merge v"
  have g: "\<not> id_refused (eid (fst x))" "length (snd x) < 2 ^ 16" "encodable ?reg (snd x)"
    using Cons.prems(1) by (simp_all add: good_block_def)
  have r: "rest b = entity_record ?reg ?enc x @ concat (map (entity_record ?reg ?enc) xs) @ r" using Cons.prems(8) by simp
  note h = entity_record_head [OF r Cons.prems(4) g(2)]
  let ?w0 = "if is_alive w (Entity (eid (fst x))) then destroy_entity E (Entity (eid (fst x))) w else w"
  note de = destroy_entity_mode [OF Cons.prems(6,5,7), of "fst x"]
  have c0: "content ?w0 = (content w)(fst x := None)" "wf_store ?reg ?w0" "open_mode ?w0"
    using de Cons.prems(6,7) is_alive_content [OF Cons.prems(6), of "fst x"] by (auto simp: fun_eq_iff)
  have n: "content ?w0 (Entity (eid (fst x))) = None" using c0(1) by simp
  obtain e w1 where c: "create_entity_preassigned E (eid (fst x)) ?w0 = (e, w1)"
    by (cases "create_entity_preassigned E (eid (fst x)) ?w0")
  note pe = preassigned_entity [OF c0(2) g(1) n c0(3) c]
  have e: "e = fst x" using pe(1) by simp
  have m: "content w1 e = Some Map.empty" by (simp add: pe(4))
  obtain w2 where w2: "apply_components E (read_version v) (length (snd x)) e w1 (adv 2 (adv 8 b))
      = (True, w2, adv (length (entity_record ?reg ?enc x)) b)"
    "wf_store ?reg w2" "content w2 = (content w1)(e \<mapsto> loaded ?reg ?mg (snd x) Map.empty)" "ctl w2 = ctl w1"
    using packet.apply_records [OF g(3) Cons.prems(3) h(5,4) pe(3) Cons.prems(5) m pe(5), unfolded h(6)] by blast
  have c2: "content w2 = (content w)(e \<mapsto> loaded ?reg ?mg (snd x) Map.empty)"
    unfolding w2(3) pe(4) c0(1) e by (simp del: fun_upd_apply)
  have o2: "open_mode w2" using open_mode_ctl [OF w2(4)] pe(5) by simp
  obtain w' where w': "apply_full_entities E v (length xs) (insert e inc) w2 (adv (length (entity_record ?reg ?enc x)) b)
        = (True, w', insert e inc \<union> fst ` set xs)"
    "wf_store ?reg w'" "open_mode w'" "content w' = (\<lambda>e. case map_of xs e of None \<Rightarrow> content w2 e
         | Some cs \<Rightarrow> Some (loaded ?reg ?mg cs Map.empty))"
    using Cons.IH [OF _ _ Cons.prems(3) h(8) Cons.prems(5) w2(2) o2 h(7), of "insert e inc"] Cons.prems(1,2) by auto
  have "apply_full_entities E v (length (x # xs)) inc w b = (True, w', inc \<union> fst ` set (x # xs))"
    using h(1,2,3) c pe(2) w2(1) w'(1) by (simp add: Let_def e)
  moreover have "content w' = (\<lambda>y. case map_of (x # xs) y of None \<Rightarrow> content w y
         | Some cs \<Rightarrow> Some (loaded ?reg ?mg cs Map.empty))"
  proof
    fix y
    have "map_of xs (fst x) = None" using Cons.prems(2) by (simp add: map_of_eq_None_iff)
    then show "content w' y = (case map_of (x # xs) y of None \<Rightarrow> content w y
         | Some cs \<Rightarrow> Some (loaded ?reg ?mg cs Map.empty))"
      by (cases x; cases "y = fst x") (simp_all add: w'(4) c2 e cong: option.case_cong)
  qed
  ultimately show ?case using w'(2,3) by blast
qed

lemma remove_ghosts_content:
  assumes wf: "wf_store (env_registry E) w" and p: "passive_env E" and md: "open_mode w"
    and it: "set (it_entities it (client_replicated w)) = client_replicated w"
  shows "wf_store (env_registry E) (remove_ghosts E it inc w)"
    "content (remove_ghosts E it inc w) e = (if e \<in> client_replicated w - inc then None else content w e)"
proof -
  let ?f = "\<lambda>e u. if e \<notin> inc \<and> is_alive u e then destroy_entity E e u else u"
  have "wf_store (env_registry E) (fold ?f es w) \<and> open_mode (fold ?f es w)
      \<and> content (fold ?f es w) = (\<lambda>e. if e \<in> set es - inc then None else content w e)" for es
    using wf md
  proof (induction es arbitrary: w)
    case (Cons x es)
    note de = destroy_entity_mode [OF Cons.prems(1) p Cons.prems(2), of x]
    have "wf_store (env_registry E) (?f x w)" "open_mode (?f x w)"
      "content (?f x w) = (\<lambda>e. if e = x \<and> x \<notin> inc then None else content w e)"
      using de Cons.prems is_alive_content [OF Cons.prems(1), of x] by (auto simp: fun_eq_iff)
    note x = this
    have "content (fold ?f es (?f x w)) = (\<lambda>e. if e \<in> set es - inc then None else content (?f x w) e)"
      using Cons.IH [OF x(1,2)] by blast
    then have "content (fold ?f es (?f x w)) = (\<lambda>e. if e \<in> set (x # es) - inc then None else content w e)"
      unfolding x(3) by (auto simp: fun_eq_iff)
    then show ?case using Cons.IH [OF x(1,2)] by simp
  qed simp
  from this [of "it_entities it (client_replicated w)"] it
  show "wf_store (env_registry E) (remove_ghosts E it inc w)"
    "content (remove_ghosts E it inc w) e = (if e \<in> client_replicated w - inc then None else content w e)"
    by (simp_all add: remove_ghosts_def update_replicated)
qed

section \<open>Reconciliation\<close>

definition networked_entity :: "registry \<Rightarrow> 'u world \<Rightarrow> entity \<Rightarrow> bool" where
  "networked_entity reg w e \<longleftrightarrow> (\<exists>m t. content w e = Some m \<and> m t \<noteq> None \<and> is_networked reg t)"

lemma sent_blocks_lookup:
  assumes wf: "wf_store reg w"
    and ids: "\<forall>e. content w e \<noteq> None \<longrightarrow> \<not> id_refused (eid e)"
    and few: "\<forall>e m. content w e = Some m \<longrightarrow> card (dom m) < 2 ^ 16"
  shows "list_all (good_block reg) (sent_blocks reg w)" "distinct (map fst (sent_blocks reg w))"
    "fst ` set (sent_blocks reg w) = {e. networked_entity reg w e}"
    "map_of (sent_blocks reg w) e = Some cs \<Longrightarrow> encodable reg cs \<and> distinct (map fst cs)
       \<and> (\<exists>m. content w e = Some m \<and> map_of cs = m |` {t. is_networked reg t})"
proof -
  let ?wb = "world_blocks (is_networked reg) w"
  note g = world_blocks_good [OF wf ids few, where P = "is_networked reg"]
  show l: "list_all (good_block reg) (sent_blocks reg w)" using g(1) by (auto simp: sent_blocks_def list_all_iff)
  show d: "distinct (map fst (sent_blocks reg w))"
    using g(2) unfolding sent_blocks_def by (rule distinct_map_filter)
  show "encodable reg cs \<and> distinct (map fst cs) \<and> (\<exists>m. content w e = Some m \<and> map_of cs = m |` {t. is_networked reg t})"
    if s: "map_of (sent_blocks reg w) e = Some cs" for e cs
  proof -
    have m: "(e, cs) \<in> set (sent_blocks reg w)" using s by (rule map_of_SomeD)
    then have "map_of ?wb e = Some cs" using g(2) by (simp add: sent_blocks_def)
    from g(3) [OF this] show ?thesis using l m by (auto simp: list_all_iff good_block_def)
  qed
  show "fst ` set (sent_blocks reg w) = {e. networked_entity reg w e}"
  proof (intro set_eqI iffI)
    fix e
    assume "e \<in> fst ` set (sent_blocks reg w)"
    then obtain cs where cs: "(e, cs) \<in> set ?wb" "cs \<noteq> []" by (auto simp: sent_blocks_def)
    then have "map_of ?wb e = Some cs" using g(2) by simp
    from g(3) [OF this] obtain m where m: "content w e = Some m" "map_of cs = m |` {t. is_networked reg t}" by blast
    obtain t v where "(t, v) \<in> set cs" using cs(2) by (cases cs) auto
    then have "map_of cs t \<noteq> None" by (auto simp: map_of_eq_None_iff intro: image_eqI [where x = "(t, v)"])
    then show "e \<in> {e. networked_entity reg w e}"
      using m by (auto simp: networked_entity_def restrict_map_def split: if_splits)
  next
    fix e
    assume "e \<in> {e. networked_entity reg w e}"
    then obtain m t where m: "content w e = Some m" "m t \<noteq> None" "is_networked reg t" by (auto simp: networked_entity_def)
    then obtain cs where cs: "map_of ?wb e = Some cs" using g(4) [of e] by auto
    from g(3) [OF cs] m have "map_of cs t \<noteq> None" by (auto simp: restrict_map_def)
    then have "cs \<noteq> []" by auto
    then have "(e, cs) \<in> set (sent_blocks reg w)" using map_of_SomeD [OF cs] by (simp add: sent_blocks_def)
    then show "e \<in> fst ` set (sent_blocks reg w)" by force
  qed
qed

text \<open>The packet of a server with a networked entity passes the validation and the scan of every peer.\<close>

lemma full_state_packet_read:
  fixes reg :: registry and w :: "'u world"
  defines "bl \<equiv> sent_blocks reg w" and "d \<equiv> serialize_full_state reg w"
  assumes wf: "wf_world reg w" and ids: "\<forall>e. content w e \<noteq> None \<longrightarrow> \<not> id_refused (eid e)"
    and few: "\<forall>e m. content w e = Some m \<longrightarrow> card (dom m) < 2 ^ 16"
    and fit: "fitting reg" and ne: "bl \<noteq> []"
  obtains b1 n b2 b3 where "read_u16 (seek 0 d) = Some (2, b1)" "read_u32 b1 = Some (n, b2)"
    "unat n = length bl" "in_buffer b2" "rest b2 = concat (map (entity_record reg (version_bytes 2)) bl) @ []"
    "scan_entities reg (skip_version 2) (length bl) {} b2 = Some b3" "validate_packet reg d FullState"
proof -
  have st: "wf_store reg w" using wf by (simp add: wf_world_def)
  note sb = sent_blocks_lookup [OF st ids few, folded bl_def]
  note le = located_entities(1) [OF wf] located_entities(3) [OF wf, of "is_networked reg"]
  note data = serialize_full_state_data [OF st fit few le ne [unfolded bl_def], folded bl_def d_def]
  have enc: "masked_bytes = version_bytes 2" by (simp add: version_bytes_def fun_eq_iff)
  have r0: "rest (seek 0 d) = le16 2 @ le32 (of_nat (length bl)) @ concat (map (entity_record reg (version_bytes 2)) bl) @ []"
    and i0: "in_buffer (seek 0 d)" using data(1) enc by (simp_all add: seek_start)
  have 1: "read_u16 (seek 0 d) = Some (2, adv 2 (seek 0 d))" using r0 by (rule u16c.rd_enc)
  have r1: "rest (adv 2 (seek 0 d)) = le32 (of_nat (length bl)) @ concat (map (entity_record reg (version_bytes 2)) bl) @ []"
    using r0 by (simp add: rest_adv)
  let ?b2 = "adv 4 (adv 2 (seek 0 d))"
  have 2: "read_u32 (adv 2 (seek 0 d)) = Some (of_nat (length bl), ?b2)" using r1 by (rule u32c.rd_enc)
  have r2: "rest ?b2 = concat (map (entity_record reg (version_bytes 2)) bl) @ []" using r1 by (simp add: rest_adv)
  have i2: "in_buffer ?b2" using i0 r0 by (simp add: in_buffer_adv byte_simps)
  have v: "version_ok 2" by (simp add: version_ok_def SYNC_VERSION_MIN_def SYNC_VERSION_def)
  let ?last = "adv (length (concat (map (entity_record reg (version_bytes 2)) bl))) ?b2"
  have fresh: "\<forall>x\<in>set bl. eid (fst x) \<notin> {}" by simp
  note scan = packet.scan_records [OF sb(1,2) fresh fit i2 r2]
  have "at_end ?last" using r2 by (subst at_end_rest) (simp_all add: in_buffer_adv [OF i2] rest_adv)
  then have "validate_packet reg d FullState"
    using scan_consumes [OF scan] 1 2 v data(2) by (simp add: validate_packet_def Let_def consumed_def)
  then show ?thesis by (rule that [OF 1 2 data(2) i2 r2 scan])
qed

text \<open>What follows the second pass: the ghosts go, and the node remembers the packet's entities.\<close>

lemma full_state_applied:
  fixes E :: "('c client, 'v) env" and net_fn :: nat and it :: iteration and w w2 :: "'c client world" and d :: binary_buffer
    and other :: "nat \<Rightarrow> 'v event \<Rightarrow> 'c client world \<Rightarrow> 'c"
  defines "F \<equiv> net_env net_fn other E" and "w1 \<equiv> set_applying True w"
  assumes net: "ns_world (net_of w)" "ns_strategy (net_of w) = Some rp" "validate_packet (env_registry E) d FullState"
    and rd: "read_u16 (seek 0 d) = Some (v, b1)" "version_ok v" "read_u32 b1 = Some (n, b2)"
      "scan_entities (env_registry E) (skip_version v) (unat n) {} b2 = Some b3"
    and ap: "apply_full_entities F v (unat n) {} w1 b2 = (True, w2, new)" "wf_store (env_registry E) w2" "open_mode w2"
    and it: "set (it_entities it (client_replicated w)) = client_replicated w"
  shows "wf_store (env_registry E) (apply_packet F it FullState d w)"
    "client_replicated (apply_packet F it FullState d w) = new"
    "content (apply_packet F it FullState d w) e = (if e \<in> client_replicated w - new then None else content w2 e)"
proof -
  have reg: "env_registry F = env_registry E" unfolding F_def by (rule net_env_passive)
  have pas: "passive_env F" unfolding F_def by (rule net_env_passive)
  note st1 = applying_start [OF net(2), folded w1_def]
  have "applying_with (\<lambda>x. x = net_of w1) (w_client w1)"
    by (simp add: applying_with_def w1_def set_applying_def flip: net_of_def)
  from applying.apply_full_entities_client [OF this, of net_fn other E v "unat n" "{}" b2]
  have net2: "net_of w2 = net_of w1" using ap(1) unfolding F_def by (simp add: applying_with_def net_of_def)
  have cr2: "client_replicated w2 = client_replicated w"
    by (simp add: client_replicated_def net2) (simp add: w1_def set_applying_def)
  have it2: "set (it_entities it (client_replicated w2)) = client_replicated w2" using it by (simp add: cr2)
  have wf2: "wf_store (env_registry F) w2" using ap(2) by (simp add: reg)
  note gh = remove_ghosts_content [OF wf2 pas ap(3) it2, of new]
  let ?w3 = "remove_ghosts F it new w2"
  have full: "apply_full_state F it d w1 = ?w3" using rd ap(1) by (simp add: apply_full_state_def reg)
  have w': "apply_packet F it FullState d w = set_applying False ?w3"
    using net full by (simp add: apply_packet_def reg w1_def)
  have "applying_state (sending_state (net_of w1)) (w_client ?w3)"
    using applying_side.apply_full_state_client [OF st1(1), of net_fn other E it d] full unfolding F_def by simp
  then obtain rp' where "ns_strategy (net_of ?w3) = Some rp'" using applying_strategy [OF _ st1(2)] by blast
  then show "client_replicated (apply_packet F it FullState d w) = new"
    unfolding w' set_applying_end
    by (auto simp: client_replicated_def) (auto simp: remove_ghosts_def update_replication_def)
  show "wf_store (env_registry E) (apply_packet F it FullState d w)" using gh(1) by (simp add: w' set_applying_end reg)
  show "content (apply_packet F it FullState d w) e = (if e \<in> client_replicated w - new then None else content w2 e)"
    using gh(2) [of e] by (simp add: w' set_applying_end cr2)
qed

text \<open>
  C18. Full-state reconciliation converges: after a peer applied the server's full-state packet
  (sent whenever some entity replicates), its world holds a replica of exactly the server's
  networked components for every entity that has one, whatever it held under that id before; the
  entities it had replicated and the server no longer has are gone; entities of its own are
  untouched; and it remembers exactly the server's entities as replicated.
\<close>

theorem full_state_converges:
  fixes E :: "('c client, 'v) env" and net_fn :: nat and it :: iteration
    and other :: "nat \<Rightarrow> 'v event \<Rightarrow> 'c client world \<Rightarrow> 'c"
  assumes server: "wf_world (env_registry E) w" "networked_entity (env_registry E) w x"
    and ids: "\<forall>e. content w e \<noteq> None \<longrightarrow> \<not> id_refused (eid e)"
    and few: "\<forall>e m. content w e = Some m \<longrightarrow> card (dom m) < 2 ^ 16"
    and fit: "fitting (env_registry E)"
    and peer: "wf_store (env_registry E) w0" "open_mode w0" "ns_world (net_of w0)" "ns_strategy (net_of w0) = Some rp"
    and it: "set (it_entities it (client_replicated w0)) = client_replicated w0"
  defines "w' \<equiv> apply_packet (net_env net_fn other E) it FullState (serialize_full_state (env_registry E) w) w0"
  shows "wf_store (env_registry E) w' \<and> client_replicated w' = {e. networked_entity (env_registry E) w e}
    \<and> (\<forall>e. if networked_entity (env_registry E) w e
            then \<exists>m m'. content w e = Some m \<and> content w' e = Some m' \<and> replica (env_registry E) m m'
            else content w' e = (if e \<in> client_replicated w0 then None else content w0 e))"
proof -
  let ?E = "net_env net_fn other E" and ?reg = "env_registry E" and ?d = "serialize_full_state (env_registry E) w"
  let ?bl = "sent_blocks (env_registry E) w" and ?w1 = "set_applying True w0"
  have reg: "env_registry ?E = ?reg" by (rule net_env_passive)
  have st: "wf_store ?reg w" using server(1) by (simp add: wf_world_def)
  note sb = sent_blocks_lookup [OF st ids few]
  have "?bl \<noteq> []" using sb(3) server(2) by auto
  then obtain b1 n b2 b3 where rd: "read_u16 (seek 0 ?d) = Some (2, b1)" "read_u32 b1 = Some (n, b2)" "unat n = length ?bl"
    "in_buffer b2" "rest b2 = concat (map (entity_record ?reg (version_bytes 2)) ?bl) @ []"
    "scan_entities ?reg (skip_version 2) (length ?bl) {} b2 = Some b3" "validate_packet ?reg ?d FullState"
    using full_state_packet_read [OF server(1) ids few fit] by blast
  have v: "version_ok 2" by (simp add: version_ok_def SYNC_VERSION_MIN_def SYNC_VERSION_def)
  note st1 = applying_start [OF peer(4)]
  have wf1: "wf_store (env_registry ?E) ?w1" "open_mode ?w1" "fitting (env_registry ?E)"
    "list_all (good_block (env_registry ?E)) ?bl"
    "rest b2 = concat (map (entity_record (env_registry ?E) (version_bytes 2)) ?bl) @ []"
    using st1(4) [OF peer(1)] st1(5) peer(2) fit sb(1) rd(5) by (simp_all add: reg)
  obtain w2 where w2: "apply_full_entities ?E 2 (unat n) {} ?w1 b2 = (True, w2, fst ` set ?bl)"
    "wf_store ?reg w2" "open_mode w2" "content w2 = (\<lambda>e. case map_of ?bl e of None \<Rightarrow> content w0 e
         | Some cs \<Rightarrow> Some (loaded ?reg (version_merge 2) cs Map.empty))"
    using apply_full_records [OF wf1(4) sb(2) wf1(3) rd(4) net_env_passive(1) wf1(1,2,5), of "{}",
      unfolded reg st1(3) Un_empty_left, folded rd(3)] by blast
  note fin = full_state_applied [OF peer(3,4) rd(7,1) v rd(2) rd(6) [folded rd(3)] w2(1-3) it, folded w'_def]
  have "if networked_entity ?reg w e
        then \<exists>m m'. content w e = Some m \<and> content w' e = Some m' \<and> replica ?reg m m'
        else content w' e = (if e \<in> client_replicated w0 then None else content w0 e)" for e
  proof (cases "map_of ?bl e")
    case None
    then have "e \<notin> fst ` set ?bl" by (simp add: map_of_eq_None_iff)
    then show ?thesis using None sb(3) fin(3) [of e] by (auto simp: w2(4))
  next
    case (Some cs)
    then have k: "e \<in> fst ` set ?bl" by (metis domI dom_map_of_conv_image_fst)
    obtain m where m: "content w e = Some m" "map_of cs = m |` {t. is_networked ?reg t}" "encodable ?reg cs" "distinct (map fst cs)"
      using sb(4) [OF Some] by blast
    have "replica ?reg m (loaded ?reg (version_merge 2) cs Map.empty)" by (rule replica_loaded [OF fit m(3,4,2)])
    then show ?thesis using k sb(3) m(1) fin(3) [of e] Some by (auto simp: w2(4))
  qed
  then show ?thesis using fin(1,2) sb(3) by blast
qed

text \<open>The server holds one entity, the peer none.\<close>

theorem full_state_converges_witness:
  "client_replicated (apply_packet node_env node_iteration FullState
     (serialize_full_state wire_registry (wire_world node_env node_client)) peer_world) = {e1}"
proof -
  let ?E0 = "\<lparr>env_registry = wire_registry, env_heap = (\<lambda>n k. 0), env_callback = (\<lambda>f ev w. w),
      env_custom = (\<lambda>f d w. w), env_order = (\<lambda>es. es)\<rparr> :: (unit client, unit) env"
  let ?w = "wire_world node_env node_client"
  note ww = wire_world_ok [OF node_env_ok, of node_client, unfolded node_env_ok(2)]
  have n: "is_networked wire_registry 1"
    by (simp add: is_networked_def wire_registry_ok(1)) (simp add: demo_schema_def plain_field_def)
  have e: "networked_entity wire_registry ?w e \<longleftrightarrow> e = e1" for e
    using n by (auto simp: networked_entity_def ww(2))
  have c: "client_replicated peer_world = {}" "ns_world (net_of peer_world)" "ns_strategy (net_of peer_world) = Some fresh_replication"
    by (simp_all add: client_replicated_def peer_world_ok(4) new_network_sync_def fresh_replication_def)
  have "client_replicated (apply_packet (net_env 7 (\<lambda>f ev w. ()) ?E0) node_iteration FullState
      (serialize_full_state (env_registry ?E0) ?w) peer_world) = {e. networked_entity (env_registry ?E0) ?w e}"
    using full_state_converges [of ?E0 ?w e1 peer_world fresh_replication node_iteration 7 "\<lambda>f ev w. ()"]
      ww(1) wire_registry_ok(3) peer_world_ok(1,3) c by (simp add: e ww(2) e1_id node_iteration_def)
  moreover have "{x. networked_entity (env_registry ?E0) ?w x} = {e1}" by (simp add: e)
  ultimately show ?thesis by (simp add: node_env_def)
qed

end
