(* ===== verification/Delta.thy ===== *)
theory Delta
  imports FullState
begin

text \<open>
  Delta packets on the server (\<open>VECSSnapshotReplication::build_delta\<close>): which sync-priority buckets
  of a dirty component are due, what is written for them, and what stays dirty for a later tick.
\<close>

section \<open>Buckets\<close>

definition bucket_record :: "component_schema \<Rightarrow> field_sync_plan \<Rightarrow> byte list \<Rightarrow> nat \<Rightarrow> byte list" where
  "bucket_record s plan row k = [of_nat k] @ mask_bytes (fp_bucket_masks plan ! k)
     @ fields_bytes (selected_from (fp_bucket_masks plan ! k) 0 (cs_fields s)) row"

definition due_buckets :: "rat \<Rightarrow> rat list \<Rightarrow> nat \<Rightarrow> nat list" where
  "due_buckets now ticks n = filter (\<lambda>k. ticks ! k \<le> now) [0..<n]"

definition advance_ticks :: "field_sync_plan \<Rightarrow> rat \<Rightarrow> rat list \<Rightarrow> nat \<Rightarrow> rat list" where
  "advance_ticks plan now ticks n = map (\<lambda>k. if k < n \<and> ticks ! k \<le> now then now + fp_bucket_intervals plan ! k
     else ticks ! k) [0..<length ticks]"

lemma due_buckets_Suc:
  "due_buckets now ticks (Suc n) = due_buckets now ticks n @ (if ticks ! n \<le> now then [n] else [])"
  by (simp add: due_buckets_def)

lemma advance_ticks_Suc:
  "n < length ticks \<Longrightarrow> advance_ticks plan now ticks (Suc n)
     = (if ticks ! n \<le> now then (advance_ticks plan now ticks n)[n := now + fp_bucket_intervals plan ! n]
        else advance_ticks plan now ticks n)"
  by (auto simp: advance_ticks_def nth_list_update less_Suc_eq intro!: nth_equalityI)

lemma send_buckets:
  assumes fit: "fields_fit (cs_fields s) (length row)" and n: "n \<le> length ticks"
  shows "\<exists>buf. fold (send_bucket s plan row now) [0..<n] (ticks, empty_buffer, 0, True)
      = (advance_ticks plan now ticks n, buf, of_nat (length (due_buckets now ticks n)), length (due_buckets now ticks n) = n)
    \<and> buf_data buf = concat (map (bucket_record s plan row) (due_buckets now ticks n))"
  using n
proof (induction n)
  case 0
  then show ?case by (simp add: due_buckets_def advance_ticks_def empty_buffer_def map_nth)
next
  case (Suc n)
  then obtain buf where b: "fold (send_bucket s plan row now) [0..<n] (ticks, empty_buffer, 0, True)
      = (advance_ticks plan now ticks n, buf, of_nat (length (due_buckets now ticks n)), length (due_buckets now ticks n) = n)"
    "buf_data buf = concat (map (bucket_record s plan row) (due_buckets now ticks n))" by auto
  have t: "advance_ticks plan now ticks n ! n = ticks ! n" using Suc.prems by (simp add: advance_ticks_def)
  have l: "length (due_buckets now ticks n) \<le> n"
    using length_filter_le [of _ "[0..<n]"] by (simp add: due_buckets_def)
  have w: "buf_data (serialize_component_fields s row (write_field_mask msk (write_u8 (of_nat n) buf)) msk)
      = buf_data buf @ [of_nat n] @ mask_bytes msk @ fields_bytes (selected_from msk 0 (cs_fields s)) row" for msk
    using write_fields_data [OF fields_fit_selected [OF fit]]
    by (simp add: serialize_component_fields_def write_fields_from_selected write_field_mask_data write_u8_data)
  have f: "fold (send_bucket s plan row now) [0..<Suc n] (ticks, empty_buffer, 0, True)
      = send_bucket s plan row now n (advance_ticks plan now ticks n, buf, of_nat (length (due_buckets now ticks n)),
          length (due_buckets now ticks n) = n)" by (simp add: b(1))
  show ?case
  proof (cases "ticks ! n \<le> now")
    case True
    then have "\<not> now < advance_ticks plan now ticks n ! n" by (simp add: t)
    then show ?thesis unfolding f
      using True Suc.prems b(2) w advance_ticks_Suc [of n ticks plan now]
      by (simp add: send_bucket_def due_buckets_Suc bucket_record_def [of s plan row n] Let_def add.commute)
  next
    case False
    then have "now < advance_ticks plan now ticks n ! n" by (simp add: t)
    then show ?thesis unfolding f
      using False Suc.prems b(2) l advance_ticks_Suc [of n ticks plan now]
      by (simp add: send_bucket_def due_buckets_Suc)
  qed
qed

text \<open>There are only four delta intervals, so the bucket index and the record count fit in a byte.\<close>

lemma few_buckets: "length (fp_bucket_intervals (sync_plan_for reg t)) \<le> 4"
proof (cases "schema_of reg t")
  case (Some s)
  have d: "distinct (delta_intervals (cs_fields s))" using delta_intervals_set(2) strict_sorted_iff by blast
  have "set (delta_intervals (cs_fields s)) \<subseteq> {0, 5 / 100, 1 / 10, 5 / 10}"
    by (auto simp: delta_intervals_set(1) priority_interval_def split: if_splits)
  then have "card (set (delta_intervals (cs_fields s))) \<le> card {0, 5 / 100, 1 / 10, 5 / 10 :: rat}"
    by (rule card_mono [rotated]) simp
  also have "\<dots> \<le> 4" by (simp add: card_insert_if)
  finally show ?thesis using d by (simp add: sync_plan_for_def Some Let_def distinct_card)
qed (simp add: sync_plan_for_def)


section \<open>Dirty components\<close>

text \<open>What the throttle state says of a bucket: a bucket never sent is due at time 0.\<close>

definition next_ticks :: "registry \<Rightarrow> send_ticks \<Rightarrow> entity \<Rightarrow> ctype \<Rightarrow> rat list" where
  "next_ticks reg nx e t = extend_ticks (length (fp_bucket_intervals (sync_plan_for reg t)))
     (case ticks_of nx e t of None \<Rightarrow> [] | Some ts \<Rightarrow> ts)"

definition sendable :: "registry \<Rightarrow> 'u world \<Rightarrow> entity \<Rightarrow> ctype \<Rightarrow> bool" where
  "sendable reg w e t \<longleftrightarrow> is_networked reg t \<and> has w e t \<and> fp_any_delta (sync_plan_for reg t)"

definition due :: "registry \<Rightarrow> rat \<Rightarrow> send_ticks \<Rightarrow> entity \<Rightarrow> ctype \<Rightarrow> nat list" where
  "due reg now nx e t = due_buckets now (next_ticks reg nx e t) (length (fp_bucket_intervals (sync_plan_for reg t)))"

type_synonym delta_cell = "ctype \<times> byte list \<times> nat list"

definition delta_record :: "registry \<Rightarrow> delta_cell \<Rightarrow> byte list" where
  "delta_record reg c = (case c of (t, row, ks) \<Rightarrow> le32 t @ [of_nat (length ks)]
     @ concat (map (bucket_record (the (schema_of reg t)) (sync_plan_for reg t) row) ks))"

definition delta_cell :: "registry \<Rightarrow> 'u world \<Rightarrow> rat \<Rightarrow> send_ticks \<Rightarrow> entity \<Rightarrow> ctype \<Rightarrow> delta_cell" where
  "delta_cell reg w now nx e t = (t, load_row w (the (get_raw w e t)), due reg now nx e t)"

definition delta_cells :: "registry \<Rightarrow> 'u world \<Rightarrow> rat \<Rightarrow> send_ticks \<Rightarrow> entity \<Rightarrow> ctype list \<Rightarrow> delta_cell list" where
  "delta_cells reg w now nx e ts = map (delta_cell reg w now nx e)
     (filter (\<lambda>t. sendable reg w e t \<and> due reg now nx e t \<noteq> []) ts)"

definition stays_dirty :: "registry \<Rightarrow> 'u world \<Rightarrow> rat \<Rightarrow> send_ticks \<Rightarrow> entity \<Rightarrow> ctype \<Rightarrow> bool" where
  "stays_dirty reg w now nx e t \<longleftrightarrow> sendable reg w e t
     \<and> length (due reg now nx e t) \<noteq> length (fp_bucket_intervals (sync_plan_for reg t))"

definition ticks_after :: "registry \<Rightarrow> 'u world \<Rightarrow> rat \<Rightarrow> entity \<Rightarrow> send_ticks \<Rightarrow> ctype \<Rightarrow> send_ticks" where
  "ticks_after reg w now e nx t =
     (if sendable reg w e t
      then nx(e \<mapsto> (ticks_of nx e)(t \<mapsto> advance_ticks (sync_plan_for reg t) now (next_ticks reg nx e t)
             (length (fp_bucket_intervals (sync_plan_for reg t)))))
      else nx)"

lemma length_due: "length (due reg now nx e t) \<le> 4"
  using few_buckets [of reg t] length_filter_le [of _ "[0..<length (fp_bucket_intervals (sync_plan_for reg t))]"]
  by (simp add: due_def due_buckets_def) (meson le_trans)

lemma delta_component_step:
  assumes wf: "wf_store reg w" and fit: "fitting reg"
  shows "\<exists>buf. delta_component reg w now e t (nx, cs, b, n)
     = (ticks_after reg w now e nx t, if stays_dirty reg w now nx e t then cs else cs - {t}, buf,
        n + of_nat (length (delta_cells reg w now nx e [t])))
   \<and> buf_data buf = buf_data b @ concat (map (delta_record reg) (delta_cells reg w now nx e [t]))"
proof (cases "sendable reg w e t")
  case False
  then show ?thesis
    by (auto simp: delta_component_def Let_def sendable_def stays_dirty_def ticks_after_def delta_cells_def)
next
  case True
  let ?plan = "sync_plan_for reg t" and ?ticks = "next_ticks reg nx e t" and ?row = "load_row w (the (get_raw w e t))"
  let ?nb = "length (fp_bucket_intervals ?plan)" and ?s = "the (schema_of reg t)"
  obtain dst where d: "get_raw w e t = Some dst"
    using get_raw_content(1) [OF wf, of e t] True by (cases "get_raw w e t") (auto simp: sendable_def)
  obtain m where m: "content w e = Some m" "m t = Some (load_row w dst)" using get_raw_content(2) [OF wf d] by blast
  obtain s where s: "schema_of reg t = Some s" "length (load_row w dst) = cs_size s" using content_length [OF wf m] by blast
  have f: "fields_fit (cs_fields ?s) (length ?row)" using fit s d by (simp add: fitting_def)
  have "?nb \<le> length ?ticks" by (simp add: next_ticks_def extend_ticks_def)
  from send_buckets [OF f this, of ?plan now] obtain buf where
    b: "fold (send_bucket ?s ?plan ?row now) [0..<?nb] (?ticks, empty_buffer, 0, True)
      = (advance_ticks ?plan now ?ticks ?nb, buf, of_nat (length (due reg now nx e t)), length (due reg now nx e t) = ?nb)"
    "buf_data buf = concat (map (bucket_record ?s ?plan ?row) (due reg now nx e t))"
    unfolding due_def by blast
  have z: "0 < (of_nat (length (due reg now nx e t)) :: byte) \<longleftrightarrow> due reg now nx e t \<noteq> []"
    using length_due [of reg now nx e t]
    by (cases "due reg now nx e t = []") (auto simp: word_of_nat_eq_0_iff word_neq_0_conv [symmetric] dest: dvd_imp_le)
  have p: "fp_any_delta ?plan" "is_networked reg t" "has w e t" using True by (simp_all add: sendable_def)
  show ?thesis
    using z b p True
    by (auto simp: delta_component_def Let_def next_ticks_def [symmetric] ticks_after_def stays_dirty_def
        delta_cells_def delta_cell_def delta_record_def write_bytes_data write_u8_data write_u32_data)
qed


lemma ticks_after_other:
  assumes "e' \<noteq> e \<or> t' \<noteq> t"
  shows "ticks_of (ticks_after reg w now e nx t) e' t' = ticks_of nx e' t'"
    "next_ticks reg (ticks_after reg w now e nx t) e' t' = next_ticks reg nx e' t'"
    "due reg now (ticks_after reg w now e nx t) e' t' = due reg now nx e' t'"
    "stays_dirty reg w now (ticks_after reg w now e nx t) e' t' = stays_dirty reg w now nx e' t'"
    "delta_cell reg w now (ticks_after reg w now e nx t) e' t' = delta_cell reg w now nx e' t'"
proof -
  show k: "ticks_of (ticks_after reg w now e nx t) e' t' = ticks_of nx e' t'"
    using assms by (auto simp: ticks_after_def ticks_of_def)
  then show n: "next_ticks reg (ticks_after reg w now e nx t) e' t' = next_ticks reg nx e' t'"
    by (simp add: next_ticks_def)
  then show d: "due reg now (ticks_after reg w now e nx t) e' t' = due reg now nx e' t'" by (simp add: due_def)
  then show "stays_dirty reg w now (ticks_after reg w now e nx t) e' t' = stays_dirty reg w now nx e' t'"
    by (simp add: stays_dirty_def)
  show "delta_cell reg w now (ticks_after reg w now e nx t) e' t' = delta_cell reg w now nx e' t'"
    using d by (simp add: delta_cell_def)
qed

definition ticks_all :: "registry \<Rightarrow> 'u world \<Rightarrow> rat \<Rightarrow> entity \<Rightarrow> ctype list \<Rightarrow> send_ticks \<Rightarrow> send_ticks" where
  "ticks_all reg w now e ts nx = fold (\<lambda>t nx. ticks_after reg w now e nx t) ts nx"

lemma ticks_all_of:
  "distinct ts \<Longrightarrow> ticks_of (ticks_all reg w now e ts nx) e' t' =
     (if e' = e \<and> t' \<in> set ts \<and> sendable reg w e t'
      then Some (advance_ticks (sync_plan_for reg t') now (next_ticks reg nx e t') (length (fp_bucket_intervals (sync_plan_for reg t'))))
      else ticks_of nx e' t')"
proof (induction ts arbitrary: nx)
  case (Cons t ts)
  show ?case
  proof (cases "e' = e \<and> t' = t")
    case True
    then show ?thesis using Cons by (simp add: ticks_all_def) (simp add: ticks_after_def ticks_of_def)
  next
    case False
    then have "e' \<noteq> e \<or> t' \<noteq> t" by blast
    from ticks_after_other(1,2) [OF this, of reg w now nx] show ?thesis
      using Cons False by (auto simp: ticks_all_def)
  qed
qed (simp add: ticks_all_def)

lemma delta_components:
  assumes wf: "wf_store reg w" and fit: "fitting reg" and d: "distinct ts"
  shows "\<exists>buf. fold (delta_component reg w now e) ts (nx, cs, b, n)
     = (ticks_all reg w now e ts nx, cs - {t \<in> set ts. \<not> stays_dirty reg w now nx e t}, buf,
        n + of_nat (length (delta_cells reg w now nx e ts)))
   \<and> buf_data buf = buf_data b @ concat (map (delta_record reg) (delta_cells reg w now nx e ts))"
  using d
proof (induction ts arbitrary: nx cs b n)
  case (Cons t ts)
  let ?nx = "ticks_after reg w now e nx t" and ?cs = "if stays_dirty reg w now nx e t then cs else cs - {t}"
  have o: "e \<noteq> e \<or> t' \<noteq> t" if "t' \<in> set ts" for t' using that Cons.prems by auto
  obtain b1 where 1: "delta_component reg w now e t (nx, cs, b, n) = (?nx, ?cs, b1, n + of_nat (length (delta_cells reg w now nx e [t])))"
    "buf_data b1 = buf_data b @ concat (map (delta_record reg) (delta_cells reg w now nx e [t]))"
    using delta_component_step [OF wf fit] by blast
  obtain b2 where 2: "fold (delta_component reg w now e) ts (?nx, ?cs, b1, n + of_nat (length (delta_cells reg w now nx e [t])))
     = (ticks_all reg w now e ts ?nx, ?cs - {t \<in> set ts. \<not> stays_dirty reg w now ?nx e t}, b2,
        n + of_nat (length (delta_cells reg w now nx e [t])) + of_nat (length (delta_cells reg w now ?nx e ts)))"
    "buf_data b2 = buf_data b1 @ concat (map (delta_record reg) (delta_cells reg w now ?nx e ts))"
    using Cons.IH Cons.prems by force
  have c: "delta_cells reg w now ?nx e ts = delta_cells reg w now nx e ts"
    using ticks_after_other(3) [OF o, where reg = reg and now = now and w = w and nx = nx] ticks_after_other(5) [OF o, where reg = reg and now = now and w = w and nx = nx] unfolding delta_cells_def
    by (intro map_cong filter_cong) simp_all
  have s: "{t' \<in> set ts. \<not> stays_dirty reg w now ?nx e t'} = {t' \<in> set ts. \<not> stays_dirty reg w now nx e t'}"
    using ticks_after_other(4) [OF o, where reg = reg and now = now and w = w and nx = nx] by auto
  have a: "delta_cells reg w now nx e (t # ts) = delta_cells reg w now nx e [t] @ delta_cells reg w now nx e ts"
    by (simp add: delta_cells_def)
  have m: "?cs - {t' \<in> set ts. \<not> stays_dirty reg w now nx e t'} = cs - {t' \<in> set (t # ts). \<not> stays_dirty reg w now nx e t'}"
    using Cons.prems by auto
  show ?case using 2 unfolding c s m
    by (simp add: 1 a ticks_all_def add.assoc)
qed (simp add: ticks_all_def delta_cells_def)


section \<open>Dirty entities\<close>

text \<open>Iteration over a hash set visits every element once, in an order of its own.\<close>

definition visits_once :: "iteration \<Rightarrow> bool" where
  "visits_once it \<longleftrightarrow> (\<forall>S. set (it_entities it S) = S \<and> distinct (it_entities it S))
     \<and> (\<forall>T. set (it_types it T) = T \<and> distinct (it_types it T))"

type_synonym delta_block = "entity \<times> delta_cell list"

definition delta_block :: "registry \<Rightarrow> iteration \<Rightarrow> 'u world \<Rightarrow> replication \<Rightarrow> entity \<Rightarrow> delta_block" where
  "delta_block reg it w rp e = (e, if is_alive w e
     then delta_cells reg w (rp_elapsed_time rp) (rp_next_send_tick rp) e (it_types it (dirty_types rp e)) else [])"

definition delta_entity_record :: "registry \<Rightarrow> delta_block \<Rightarrow> byte list" where
  "delta_entity_record reg x = le64 (eid (fst x)) @ [of_nat (length (snd x))] @ concat (map (delta_record reg) (snd x))"

definition sends :: "delta_block \<Rightarrow> bool" where
  "sends x \<longleftrightarrow> snd x \<noteq> []"

lemma same_ticks:
  assumes "\<forall>t. ticks_of nx' e t = ticks_of nx e t"
  shows "next_ticks reg nx' e t = next_ticks reg nx e t" "due reg now nx' e t = due reg now nx e t"
    "stays_dirty reg w now nx' e t = stays_dirty reg w now nx e t" "delta_cells reg w now nx' e ts = delta_cells reg w now nx e ts"
proof -
  show n: "next_ticks reg nx' e t = next_ticks reg nx e t" for t using assms by (simp add: next_ticks_def)
  show d: "due reg now nx' e t = due reg now nx e t" for t by (simp add: due_def n)
  show "stays_dirty reg w now nx' e t = stays_dirty reg w now nx e t" by (simp add: stays_dirty_def d)
  show "delta_cells reg w now nx' e ts = delta_cells reg w now nx e ts"
    unfolding delta_cells_def d delta_cell_def ..
qed

text \<open>The strategy's state after the delta of the entities \<open>es\<close>.\<close>

definition delta_state :: "registry \<Rightarrow> 'u world \<Rightarrow> entity set \<Rightarrow> replication \<Rightarrow> replication \<Rightarrow> bool" where
  "delta_state reg w es rp rp' \<longleftrightarrow> rp_elapsed_time rp' = rp_elapsed_time rp
   \<and> (\<forall>e. dirty_types rp' e = (if e \<notin> es then dirty_types rp e
        else if is_alive w e then {t \<in> dirty_types rp e. stays_dirty reg w (rp_elapsed_time rp) (rp_next_send_tick rp) e t} else {}))
   \<and> (\<forall>e t. ticks_of (rp_next_send_tick rp') e t =
        (if e \<in> es \<and> is_alive w e \<and> t \<in> dirty_types rp e \<and> sendable reg w e t
         then Some (advance_ticks (sync_plan_for reg t) (rp_elapsed_time rp) (next_ticks reg (rp_next_send_tick rp) e t)
           (length (fp_bucket_intervals (sync_plan_for reg t))))
         else ticks_of (rp_next_send_tick rp) e t))"

lemma delta_entity_step:
  assumes wf: "wf_store reg w" and fit: "fitting reg" and it: "visits_once it" and few: "card (dirty_types rp e) < 256"
  shows "\<exists>rp' out'. delta_entity reg it w e (rp, out, n) = (rp', out', if sends (delta_block reg it w rp e) then n + 1 else n)
    \<and> delta_state reg w {e} rp rp'
    \<and> buf_data out' = buf_data out @ concat (map (delta_entity_record reg) (filter sends [delta_block reg it w rp e]))"
proof (cases "is_alive w e")
  case False
  then show ?thesis
    by (auto simp: delta_entity_def delta_state_def delta_block_def sends_def dirty_types_def map_of_AList_delete)
next
  case True
  let ?ts = "it_types it (dirty_types rp e)" and ?now = "rp_elapsed_time rp" and ?nx = "rp_next_send_tick rp"
  let ?cells = "delta_cells reg w ?now ?nx e ?ts"
  let ?cs = "dirty_types rp e - {t \<in> set ?ts. \<not> stays_dirty reg w ?now ?nx e t}"
  have ts: "set ?ts = dirty_types rp e" "distinct ?ts" using it by (simp_all add: visits_once_def)
  obtain buf where b: "fold (delta_component reg w ?now e) ?ts (?nx, dirty_types rp e, empty_buffer, 0)
     = (ticks_all reg w ?now e ?ts ?nx, ?cs, buf, 0 + of_nat (length ?cells))"
    "buf_data buf = buf_data empty_buffer @ concat (map (delta_record reg) ?cells)"
    using delta_components [OF wf fit ts(2)] by blast
  have len: "length ?cells < 256"
    using few ts distinct_card [OF ts(2)]
      le_less_trans [OF length_filter_le [of "\<lambda>t. sendable reg w e t \<and> due reg ?now ?nx e t \<noteq> []" ?ts], of 256]
    by (simp add: delta_cells_def)
  then have z: "0 < (of_nat (length ?cells) :: byte) \<longleftrightarrow> ?cells \<noteq> []"
    by (cases "?cells = []") (auto simp: word_of_nat_eq_0_iff word_neq_0_conv [symmetric] dest: dvd_imp_le)
  have cs: "?cs = {t \<in> dirty_types rp e. stays_dirty reg w ?now ?nx e t}" using ts(1) by auto
  define rp1 where "rp1 = rp\<lparr>rp_next_send_tick := ticks_all reg w ?now e ?ts ?nx,
    rp_dirty := (if ?cs = {} then AList.delete e (rp_dirty rp) else AList.update e ?cs (rp_dirty rp))\<rparr>"
  have "dirty_types rp1 e' = (if e' = e then ?cs else dirty_types rp e')" for e'
    by (auto simp: rp1_def dirty_types_def map_of_AList_delete map_of_AList_update split: option.split)
  then have st: "delta_state reg w {e} rp rp1"
    using True ts unfolding cs by (simp add: delta_state_def ticks_all_of) (simp add: rp1_def ticks_all_of)
  have r: "delta_entity reg it w e (rp, out, n) = (if 0 < (of_nat (length ?cells) :: byte)
      then (rp1, write_bytes (buf_data buf) (write_u8 (of_nat (length ?cells)) (write_u64 (eid e) out)), n + 1)
      else (rp1, out, n))"
    using True b(1) by (simp add: delta_entity_def rp1_def Let_def)
  show ?thesis
    using st b(2) True unfolding r z
    by (auto simp: sends_def delta_block_def delta_entity_record_def write_bytes_data write_u8_data write_u64_data empty_buffer_def)
qed


lemma delta_state_block:
  assumes st: "delta_state reg w {e} rp rp1" and e: "e' \<noteq> e"
  shows "delta_block reg it w rp1 e' = delta_block reg it w rp e'"
proof -
  have "\<forall>t. ticks_of (rp_next_send_tick rp1) e' t = ticks_of (rp_next_send_tick rp) e' t"
    using st e by (simp add: delta_state_def)
  from same_ticks(4) [OF this, where reg = reg and w = w] st e show ?thesis by (simp add: delta_block_def delta_state_def)
qed

lemma delta_state_insert:
  assumes 1: "delta_state reg w {e} rp rp1" and 2: "delta_state reg w es rp1 rp2" and e: "e \<notin> es"
  shows "delta_state reg w (insert e es) rp rp2"
proof -
  let ?now = "rp_elapsed_time rp"
  have now: "rp_elapsed_time rp1 = ?now" using 1 by (simp add: delta_state_def)
  have t1: "ticks_of (rp_next_send_tick rp1) e' t = ticks_of (rp_next_send_tick rp) e' t" if "e' \<noteq> e" for e' t
    using 1 that by (simp add: delta_state_def)
  have n1: "next_ticks reg (rp_next_send_tick rp1) e' t = next_ticks reg (rp_next_send_tick rp) e' t" if "e' \<noteq> e" for e' t
    using same_ticks(1) [of "rp_next_send_tick rp1" e' "rp_next_send_tick rp"] t1 [OF that] by blast
  have s1: "stays_dirty reg w ?now (rp_next_send_tick rp1) e' t = stays_dirty reg w ?now (rp_next_send_tick rp) e' t"
    if "e' \<noteq> e" for e' t
    using same_ticks(3) [of "rp_next_send_tick rp1" e' "rp_next_send_tick rp"] t1 [OF that] by blast
  have d: "dirty_types rp2 e' = (if e' \<notin> insert e es then dirty_types rp e'
        else if is_alive w e' then {t \<in> dirty_types rp e'. stays_dirty reg w ?now (rp_next_send_tick rp) e' t} else {})" for e'
    using 1 2 e s1 [of e'] by (cases "e' = e") (simp_all add: delta_state_def)
  have t: "ticks_of (rp_next_send_tick rp2) e' t =
        (if e' \<in> insert e es \<and> is_alive w e' \<and> t \<in> dirty_types rp e' \<and> sendable reg w e' t
         then Some (advance_ticks (sync_plan_for reg t) ?now (next_ticks reg (rp_next_send_tick rp) e' t)
           (length (fp_bucket_intervals (sync_plan_for reg t))))
         else ticks_of (rp_next_send_tick rp) e' t)" for e' t
    using 1 2 e n1 [of e' t] t1 [of e' t] by (cases "e' = e") (simp_all add: delta_state_def)
  show ?thesis using d t 2 now by (simp add: delta_state_def)
qed

definition delta_blocks :: "registry \<Rightarrow> iteration \<Rightarrow> 'u world \<Rightarrow> replication \<Rightarrow> entity list \<Rightarrow> delta_block list" where
  "delta_blocks reg it w rp es = filter sends (map (delta_block reg it w rp) es)"

lemma delta_entities:
  assumes wf: "wf_store reg w" and fit: "fitting reg" and it: "visits_once it"
    and few: "\<forall>e. card (dirty_types rp e) < 256" and d: "distinct es"
  shows "\<exists>rp' out'. fold (delta_entity reg it w) es (rp, out, n)
      = (rp', out', n + of_nat (length (delta_blocks reg it w rp es)))
    \<and> delta_state reg w (set es) rp rp'
    \<and> buf_data out' = buf_data out @ concat (map (delta_entity_record reg) (delta_blocks reg it w rp es))"
  using few d
proof (induction es arbitrary: rp out n)
  case Nil
  then show ?case by (simp add: delta_blocks_def delta_state_def)
next
  case (Cons e es)
  obtain rp1 out1 where 1: "delta_entity reg it w e (rp, out, n) = (rp1, out1, if sends (delta_block reg it w rp e) then n + 1 else n)"
    "delta_state reg w {e} rp rp1"
    "buf_data out1 = buf_data out @ concat (map (delta_entity_record reg) (filter sends [delta_block reg it w rp e]))"
    using delta_entity_step [OF wf fit it, of rp e out n] Cons.prems(1) by blast
  have "dirty_types rp1 e' \<subseteq> dirty_types rp e'" for e' using 1(2) by (auto simp: delta_state_def)
  then have f1: "\<forall>e'. card (dirty_types rp1 e') < 256" using Cons.prems(1) by (meson card_mono finite le_less_trans)
  have b: "delta_blocks reg it w rp1 es = delta_blocks reg it w rp es"
  proof -
    have "delta_block reg it w rp1 x = delta_block reg it w rp x" if "x \<in> set es" for x
      by (rule delta_state_block [OF 1(2)]) (use that Cons.prems(2) in auto)
    then have "map (delta_block reg it w rp1) es = map (delta_block reg it w rp) es" by (rule map_cong [OF refl])
    then show ?thesis unfolding delta_blocks_def by (rule arg_cong)
  qed
  let ?n1 = "if sends (delta_block reg it w rp e) then n + 1 else n"
  obtain rp2 out2 where 2: "fold (delta_entity reg it w) es (rp1, out1, ?n1)
      = (rp2, out2, ?n1 + of_nat (length (delta_blocks reg it w rp1 es)))" "delta_state reg w (set es) rp1 rp2"
    "buf_data out2 = buf_data out1 @ concat (map (delta_entity_record reg) (delta_blocks reg it w rp1 es))"
    using Cons.IH [OF f1] Cons.prems(2) by force
  have "delta_state reg w (set (e # es)) rp rp2" using delta_state_insert [OF 1(2) 2(2)] Cons.prems(2) by simp
  then show ?case using 1(1,3) 2(1,3) unfolding b by (simp add: delta_blocks_def)
qed


text \<open>The packet and the state that \<open>build_delta\<close> returns.\<close>

definition dirty_blocks :: "registry \<Rightarrow> iteration \<Rightarrow> 'u world \<Rightarrow> replication \<Rightarrow> delta_block list" where
  "dirty_blocks reg it w rp = delta_blocks reg it w rp (it_entities it (fst ` set (rp_dirty rp)))"

lemma build_delta_state:
  assumes wf: "wf_store reg w" and fit: "fitting reg" and it: "visits_once it" and few: "\<forall>e. card (dirty_types rp e) < 256"
  shows "delta_state reg w (fst ` set (rp_dirty rp)) rp (fst (build_delta reg it w rp))"
    "\<exists>b. buf_data b = le16 2 @ le32 0 @ concat (map (delta_entity_record reg) (dirty_blocks reg it w rp))
       \<and> snd (build_delta reg it w rp) = finish_counted 2 (b, of_nat (length (dirty_blocks reg it w rp)))"
proof -
  let ?es = "it_entities it (fst ` set (rp_dirty rp))" and ?out = "write_u32 0 (write_u16 SYNC_VERSION empty_buffer)"
  have es: "set ?es = fst ` set (rp_dirty rp)" "distinct ?es" using it by (simp_all add: visits_once_def)
  obtain rp' b where r: "fold (delta_entity reg it w) ?es (rp, ?out, 0) = (rp', b, 0 + of_nat (length (delta_blocks reg it w rp ?es)))"
    "delta_state reg w (set ?es) rp rp'"
    "buf_data b = buf_data ?out @ concat (map (delta_entity_record reg) (delta_blocks reg it w rp ?es))"
    using delta_entities [OF wf fit it few es(2)] by blast
  have out: "buf_data ?out = le16 2 @ le32 0" by (simp add: write_u16_data write_u32_data empty_buffer_def SYNC_VERSION_def)
  have bd: "build_delta reg it w rp = (rp', finish_counted 2 (b, of_nat (length (dirty_blocks reg it w rp))))"
    using r(1) by (simp add: build_delta_def Let_def dirty_blocks_def write_pos empty_buffer_def numeral_2_eq_2)
  show "delta_state reg w (fst ` set (rp_dirty rp)) rp (fst (build_delta reg it w rp))" using r(2) es(1) by (simp add: bd)
  show "\<exists>b. buf_data b = le16 2 @ le32 0 @ concat (map (delta_entity_record reg) (dirty_blocks reg it w rp))
       \<and> snd (build_delta reg it w rp) = finish_counted 2 (b, of_nat (length (dirty_blocks reg it w rp)))"
    using r(3) out by (intro exI [of _ b]) (simp add: bd dirty_blocks_def)
qed

lemma finish_counted_data:
  assumes b: "buf_data b = le16 2 @ le32 0 @ r" and n: "n \<noteq> 0"
  shows "buf_data (finish_counted 2 (b, n)) = le16 2 @ le32 n @ r"
proof -
  have "0 < n" using n by (simp add: word_neq_0_conv)
  then show ?thesis
    using overwrite_u32_patch [of "le32 0" b "le16 2" r n] b by (simp add: finish_counted_def eval_nat_numeral)
qed

lemma dirty_blocks_few:
  assumes wf: "wf_world reg w" and it: "visits_once it"
  shows "length (dirty_blocks reg it w rp) < 2 ^ 32" "distinct (map fst (dirty_blocks reg it w rp))"
    "x \<in> set (dirty_blocks reg it w rp) \<Longrightarrow> is_alive w (fst x)"
proof -
  have st: "wf_store reg w" using wf by (simp add: wf_world_def)
  let ?es = "it_entities it (fst ` set (rp_dirty rp))" and ?bl = "dirty_blocks reg it w rp"
  have es: "distinct ?es" using it by (simp add: visits_once_def)
  have f: "map fst (map (delta_block reg it w rp) ?es) = ?es" by (simp add: comp_def delta_block_def)
  show d: "distinct (map fst ?bl)"
    unfolding dirty_blocks_def delta_blocks_def by (rule distinct_map_filter) (simp only: f es)
  show al: "is_alive w (fst x)" if "x \<in> set ?bl" for x
    using that by (auto simp: dirty_blocks_def delta_blocks_def sends_def delta_block_def split: if_splits)
  have "set (map fst ?bl) \<subseteq> fst ` set (w_locations w)"
    using al by (auto simp: is_alive_iff [OF st] location_of_def map_of_eq_None_iff)
  then have "card (set (map fst ?bl)) \<le> card (fst ` set (w_locations w))" by (intro card_mono) simp_all
  also have "\<dots> \<le> length (w_locations w)" by (metis card_image_le List.finite_set card_length le_trans)
  finally show "length ?bl < 2 ^ 32" using located_entities(1) [OF wf] distinct_card [OF d] by simp
qed


section \<open>The schedule\<close>

text \<open>\<open>next_send_tick_[e][t][k]\<close>, where a missing entry is 0.\<close>

definition next_tick :: "replication \<Rightarrow> entity \<Rightarrow> ctype \<Rightarrow> nat \<Rightarrow> rat" where
  "next_tick rp e t k = (case ticks_of (rp_next_send_tick rp) e t of None \<Rightarrow> 0
     | Some ts \<Rightarrow> if k < length ts then ts ! k else 0)"

definition buckets :: "registry \<Rightarrow> ctype \<Rightarrow> nat" where
  "buckets reg t = length (fp_bucket_intervals (sync_plan_for reg t))"

lemma next_ticks_nth:
  assumes "k < buckets reg t"
  shows "next_ticks reg (rp_next_send_tick rp) e t ! k = next_tick rp e t k"
    "k < length (next_ticks reg (rp_next_send_tick rp) e t)"
  using assms by (auto simp: next_ticks_def next_tick_def extend_ticks_def buckets_def nth_append split: option.split)

lemma due_iff:
  "k \<in> set (due reg now (rp_next_send_tick rp) e t) \<longleftrightarrow> k < buckets reg t \<and> next_tick rp e t k \<le> now"
  using next_ticks_nth(1) [of k reg t rp e] by (auto simp: due_def due_buckets_def buckets_def)

lemma all_due_iff:
  "length (due reg now (rp_next_send_tick rp) e t) = length (fp_bucket_intervals (sync_plan_for reg t))
     \<longleftrightarrow> (\<forall>k < buckets reg t. next_tick rp e t k \<le> now)"
proof -
  let ?P = "\<lambda>k. next_ticks reg (rp_next_send_tick rp) e t ! k \<le> now"
  have "length (filter ?P [0..<n]) = n \<longleftrightarrow> (\<forall>k<n. ?P k)" for n
  proof (induction n)
    case (Suc n)
    have "length (filter ?P [0..<n]) \<le> n" using length_filter_le [of ?P "[0..<n]"] by simp
    then show ?case using Suc.IH by (auto simp: less_Suc_eq)
  qed simp
  then show ?thesis using next_ticks_nth(1) [of _ reg t rp e] by (simp add: due_def due_buckets_def buckets_def)
qed

lemma has_alive:
  assumes "wf_store reg w" "has w e t"
  shows "is_alive w e"
  using assms by (auto simp: has_content [OF assms(1)] is_alive_content [OF assms(1)])

lemma any_delta_iff: "is_networked reg t \<Longrightarrow> fp_any_delta (sync_plan_for reg t) \<longleftrightarrow> 0 < buckets reg t"
  by (auto simp: sync_plan_for_def buckets_def is_networked_def Let_def split: option.splits)

lemma dirty_key: "t \<in> dirty_types rp e \<Longrightarrow> e \<in> fst ` set (rp_dirty rp)"
  by (auto simp: dirty_types_def split: option.splits) (metis map_of_SomeD fst_conv image_eqI)

text \<open>
  C25. The throttling of \<open>build_delta\<close>, bucket by bucket: after it a component is dirty exactly if
  it was, is networked, still attached, and some bucket of its plan was not yet due; the next
  send time of a dirty component's bucket that was due moves to one interval after now, and no
  other send time changes.
\<close>

theorem delta_schedule:
  assumes wf: "wf_store reg w" and fit: "fitting reg" and it: "visits_once it" and few: "\<forall>e. card (dirty_types rp e) < 256"
  defines "rp' \<equiv> fst (build_delta reg it w rp)"
  shows "(t \<in> dirty_types rp' e \<longleftrightarrow> t \<in> dirty_types rp e \<and> is_networked reg t \<and> has w e t
        \<and> (\<exists>k < buckets reg t. rp_elapsed_time rp < next_tick rp e t k))
    \<and> (\<forall>k < buckets reg t. next_tick rp' e t k =
        (if t \<in> dirty_types rp e \<and> is_networked reg t \<and> has w e t \<and> next_tick rp e t k \<le> rp_elapsed_time rp
         then rp_elapsed_time rp + fp_bucket_intervals (sync_plan_for reg t) ! k else next_tick rp e t k))"
proof (intro conjI allI impI)
  note st = build_delta_state(1) [OF wf fit it few, folded rp'_def]
  have al: "sendable reg w e t \<Longrightarrow> is_alive w e" using has_alive [OF wf, of e t] by (simp add: sendable_def)
  show "t \<in> dirty_types rp' e \<longleftrightarrow> t \<in> dirty_types rp e \<and> is_networked reg t \<and> has w e t
        \<and> (\<exists>k < buckets reg t. rp_elapsed_time rp < next_tick rp e t k)"
    using st dirty_key [of t rp e] al any_delta_iff [of reg t] all_due_iff [of reg "rp_elapsed_time rp" rp e t]
    by (auto simp: delta_state_def stays_dirty_def sendable_def not_le)
  show "next_tick rp' e t k = (if t \<in> dirty_types rp e \<and> is_networked reg t \<and> has w e t \<and> next_tick rp e t k \<le> rp_elapsed_time rp
         then rp_elapsed_time rp + fp_bucket_intervals (sync_plan_for reg t) ! k else next_tick rp e t k)"
    if k: "k < buckets reg t" for k
  proof (cases "t \<in> dirty_types rp e \<and> sendable reg w e t")
    case True
    then have "ticks_of (rp_next_send_tick rp') e t = Some (advance_ticks (sync_plan_for reg t) (rp_elapsed_time rp)
        (next_ticks reg (rp_next_send_tick rp) e t) (buckets reg t))"
      using st dirty_key [of t rp e] al by (simp add: delta_state_def buckets_def)
    then show ?thesis
      using True next_ticks_nth [OF k, of rp e] k by (simp add: next_tick_def [of rp'] advance_ticks_def sendable_def)
  next
    case False
    then have "ticks_of (rp_next_send_tick rp') e t = ticks_of (rp_next_send_tick rp) e t"
      using st by (auto simp: delta_state_def)
    moreover have "\<not> (t \<in> dirty_types rp e \<and> is_networked reg t \<and> has w e t)"
      using False any_delta_iff [of reg t] k by (auto simp: sendable_def)
    ultimately show ?thesis by (auto simp: next_tick_def)
  qed
qed


text \<open>The server at rest: only time passes between the deltas.\<close>

definition after_time :: "rat \<Rightarrow> replication \<Rightarrow> replication" where
  "after_time d rp = rp\<lparr>rp_elapsed_time := rp_elapsed_time rp + d\<rparr>"

definition delta_run :: "registry \<Rightarrow> iteration \<Rightarrow> 'u world \<Rightarrow> rat list \<Rightarrow> replication \<Rightarrow> replication" where
  "delta_run reg it w ds rp = fold (\<lambda>d rp. fst (build_delta reg it w (after_time d rp))) ds rp"

definition bucket_sent :: "registry \<Rightarrow> iteration \<Rightarrow> 'u world \<Rightarrow> replication \<Rightarrow> entity \<Rightarrow> ctype \<Rightarrow> nat \<Rightarrow> bool" where
  "bucket_sent reg it w rp e t k \<longleftrightarrow> (\<exists>cells row ks. (e, cells) \<in> set (dirty_blocks reg it w rp)
     \<and> (t, row, ks) \<in> set cells \<and> k \<in> set ks \<and> get_raw w e t \<noteq> None \<and> row = load_row w (the (get_raw w e t)))"

lemma after_time_simps [simp]:
  "dirty_types (after_time d rp) = dirty_types rp" "rp_elapsed_time (after_time d rp) = rp_elapsed_time rp + d"
  "next_tick (after_time d rp) = next_tick rp" "rp_dirty (after_time d rp) = rp_dirty rp"
  by (simp_all add: after_time_def dirty_types_def next_tick_def fun_eq_iff)

lemma bucket_sent_due:
  assumes wf: "wf_store reg w" and it: "visits_once it"
  shows "bucket_sent reg it w rp e t k \<longleftrightarrow> t \<in> dirty_types rp e \<and> is_networked reg t \<and> has w e t
    \<and> k < buckets reg t \<and> next_tick rp e t k \<le> rp_elapsed_time rp"
proof -
  let ?due = "due reg (rp_elapsed_time rp) (rp_next_send_tick rp) e"
  have es: "set (it_entities it (fst ` set (rp_dirty rp))) = fst ` set (rp_dirty rp)"
    and ts: "set (it_types it (dirty_types rp e)) = dirty_types rp e" using it by (simp_all add: visits_once_def)
  have "bucket_sent reg it w rp e t k \<longleftrightarrow> t \<in> dirty_types rp e \<and> sendable reg w e t \<and> k \<in> set (?due t)
      \<and> e \<in> fst ` set (rp_dirty rp) \<and> is_alive w e \<and> get_raw w e t \<noteq> None" (is "?l = ?r")
  proof
    show "?l \<Longrightarrow> ?r"
      using es ts by (auto simp: bucket_sent_def dirty_blocks_def delta_blocks_def delta_block_def delta_cells_def delta_cell_def)
    assume r: ?r
    then have "(t, load_row w (the (get_raw w e t)), ?due t) \<in> set (snd (delta_block reg it w rp e))"
      using ts by (auto simp: delta_block_def delta_cells_def delta_cell_def)
    moreover have "sends (delta_block reg it w rp e)" using calculation by (auto simp: sends_def)
    then have "(e, snd (delta_block reg it w rp e)) \<in> set (dirty_blocks reg it w rp)"
      using r es by (force simp: dirty_blocks_def delta_blocks_def delta_block_def)
    ultimately show ?l using r unfolding bucket_sent_def by blast
  qed
  moreover have "has w e t \<longleftrightarrow> get_raw w e t \<noteq> None" using get_raw_content(1) [OF wf, of e t] by simp
  ultimately show ?thesis
    using dirty_key [of t rp e] has_alive [OF wf, of e t] any_delta_iff [of reg t] due_iff [of k reg "rp_elapsed_time rp" rp e t]
    by (auto simp: sendable_def)
qed


lemma delta_step:
  fixes d :: rat
  assumes wf: "wf_store reg w" and fit: "fitting reg" and it: "visits_once it" and few: "\<forall>e. card (dirty_types rp e) < 256"
    and t: "t \<in> dirty_types rp e" "is_networked reg t" "has w e t" "k < buckets reg t"
  defines "rp1 \<equiv> fst (build_delta reg it w (after_time d rp))"
  shows "\<forall>e. card (dirty_types rp1 e) < 256" "rp_elapsed_time rp1 = rp_elapsed_time rp + d"
    "rp_elapsed_time rp + d < next_tick rp e t k \<Longrightarrow> t \<in> dirty_types rp1 e \<and> next_tick rp1 e t k = next_tick rp e t k"
proof -
  have few': "\<forall>e. card (dirty_types (after_time d rp) e) < 256" using few by simp
  note st = build_delta_state(1) [OF wf fit it few', folded rp1_def]
  have "dirty_types rp1 e' \<subseteq> dirty_types rp e'" for e' using st by (auto simp: delta_state_def)
  then show "\<forall>e. card (dirty_types rp1 e) < 256" using few by (meson card_mono finite le_less_trans)
  show "rp_elapsed_time rp1 = rp_elapsed_time rp + d" using st by (simp add: delta_state_def)
  show "t \<in> dirty_types rp1 e \<and> next_tick rp1 e t k = next_tick rp e t k" if "rp_elapsed_time rp + d < next_tick rp e t k"
    using delta_schedule [OF wf fit it few', of t e, folded rp1_def] t that by auto
qed

lemma due_bucket_sent:
  assumes wf: "wf_store reg w" and fit: "fitting reg" and it: "visits_once it" and few: "\<forall>e. card (dirty_types rp e) < 256"
    and t: "t \<in> dirty_types rp e" "is_networked reg t" "has w e t" "k < buckets reg t"
    and time: "ds \<noteq> []" "next_tick rp e t k \<le> rp_elapsed_time rp + sum_list ds"
  shows "\<exists>i < length ds. bucket_sent reg it w (after_time (ds ! i) (delta_run reg it w (take i ds) rp)) e t k
    \<and> (\<forall>e. card (dirty_types (delta_run reg it w (take i ds) rp) e) < 256)"
  using few t(1) time
proof (induction ds arbitrary: rp)
  case (Cons d ds)
  let ?rp1 = "fst (build_delta reg it w (after_time d rp))"
  show ?case
  proof (cases "next_tick rp e t k \<le> rp_elapsed_time rp + d")
    case True
    then have "bucket_sent reg it w (after_time d rp) e t k"
      using Cons.prems(2) t(2-4) by (simp add: bucket_sent_due [OF wf it])
    then show ?thesis using Cons.prems(1) by (intro exI [of _ 0]) (simp add: delta_run_def)
  next
    case False
    note st = delta_step [OF wf fit it Cons.prems(1,2) t(2-4), of d]
    have s: "t \<in> dirty_types ?rp1 e" "next_tick ?rp1 e t k = next_tick rp e t k" using st(3) False by simp_all
    have "ds \<noteq> []" using False Cons.prems(4) by (cases ds) auto
    moreover have "next_tick ?rp1 e t k \<le> rp_elapsed_time ?rp1 + sum_list ds"
      using s(2) st(2) Cons.prems(4) by (simp add: add.assoc)
    ultimately obtain i where i: "i < length ds"
      "bucket_sent reg it w (after_time (ds ! i) (delta_run reg it w (take i ds) ?rp1)) e t k"
      "\<forall>e. card (dirty_types (delta_run reg it w (take i ds) ?rp1) e) < 256"
      using Cons.IH [OF st(1) s(1)] by blast
    then show ?thesis by (intro exI [of _ "Suc i"]) (simp add: delta_run_def)
  qed
qed simp

text \<open>
  \<open>record_in_packet reg bs e t k row\<close>: the bytes \<open>bs\<close> are a delta packet (version, number of
  entities, per entity its id, number of components and their records, per component its type,
  number of buckets and their records), and among its records is one of bucket \<open>k\<close> of the
  component \<open>t\<close> of \<open>e\<close>: the bucket's index, its mask and the bytes of its fields in \<open>row\<close>.
\<close>

definition record_in_packet :: "registry \<Rightarrow> byte list \<Rightarrow> entity \<Rightarrow> ctype \<Rightarrow> nat \<Rightarrow> byte list \<Rightarrow> bool" where
  "record_in_packet reg bs e t k row \<longleftrightarrow> (\<exists>blocks cells ks.
     bs = le16 2 @ le32 (of_nat (length blocks)) @ concat (map (delta_entity_record reg) blocks)
     \<and> length blocks < 2 ^ 32 \<and> distinct (map fst blocks)
     \<and> (\<forall>(e, cells)\<in>set blocks. length cells < 256 \<and> (\<forall>(t, row, ks)\<in>set cells. length ks < 256))
     \<and> (e, cells) \<in> set blocks \<and> (t, row, ks) \<in> set cells \<and> k \<in> set ks)"

lemma sent_in_packet:
  assumes wf: "wf_world reg w" and fit: "fitting reg" and it: "visits_once it" and few: "\<forall>e. card (dirty_types rp e) < 256"
    and sent: "bucket_sent reg it w rp e t k"
  shows "\<exists>m row. content w e = Some m \<and> m t = Some row \<and> record_in_packet reg (buf_data (snd (build_delta reg it w rp))) e t k row"
proof -
  let ?bl = "dirty_blocks reg it w rp"
  have st: "wf_store reg w" using wf by (simp add: wf_world_def)
  note fb = dirty_blocks_few [OF wf it, where rp = rp]
  obtain cells row ks where c: "(e, cells) \<in> set ?bl" "(t, row, ks) \<in> set cells" "k \<in> set ks" "get_raw w e t \<noteq> None"
    "row = load_row w (the (get_raw w e t))" using sent by (auto simp: bucket_sent_def)
  obtain m where m: "content w e = Some m" "m t = Some row" using c(4,5) get_raw_content(2) [OF st, of e t] by auto
  have n: "unat (of_nat (length ?bl) :: u32) = length ?bl" by (rule of_nat_u32 [OF fb(1)])
  have nz: "(of_nat (length ?bl) :: u32) \<noteq> 0" using n c(1) by (metis length_pos_if_in_set less_numeral_extra(3) unsigned_0)
  obtain b where b: "buf_data b = le16 2 @ le32 0 @ concat (map (delta_entity_record reg) ?bl)"
    "snd (build_delta reg it w rp) = finish_counted 2 (b, of_nat (length ?bl))"
    using build_delta_state(2) [OF st fit it few] by blast
  have "buf_data (snd (build_delta reg it w rp)) = le16 2 @ le32 (of_nat (length ?bl)) @ concat (map (delta_entity_record reg) ?bl)"
    using finish_counted_data [OF b(1) nz] by (simp add: b(2))
  moreover have "length cells < 256 \<and> (\<forall>(t, row, ks)\<in>set cells. length ks < 256)" if x: "(e, cells) \<in> set ?bl" for e cells
  proof -
    let ?ts = "it_types it (dirty_types rp e)"
    have cs: "cells = delta_cells reg w (rp_elapsed_time rp) (rp_next_send_tick rp) e ?ts"
      using x by (auto simp: dirty_blocks_def delta_blocks_def delta_block_def sends_def split: if_splits)
    have ts: "set ?ts = dirty_types rp e" "distinct ?ts" using it by (simp_all add: visits_once_def)
    have "length cells \<le> length ?ts" by (simp add: cs delta_cells_def)
    also have "\<dots> < 256" using few distinct_card [OF ts(2)] ts(1) by metis
    finally have "length cells < 256" .
    moreover have "length ks < 256" if "(t, row, ks) \<in> set cells" for t row ks
      using that le_less_trans [OF length_due] by (auto simp: cs delta_cells_def delta_cell_def)
    ultimately show ?thesis by blast
  qed
  ultimately have "record_in_packet reg (buf_data (snd (build_delta reg it w rp))) e t k row"
    using fb(1,2) c(1-3) unfolding record_in_packet_def
    by (intro exI [of _ ?bl] exI [of _ cells] exI [of _ ks]) blast
  then show ?thesis using m by blast
qed

text \<open>
  C26. No field starves. While only time passes between the deltas of a server (its world and
  dirty marks as they are), every bucket of a dirty replicated component is in one of the packets
  that follow, at the latest in the first whose time reaches the bucket's next send time: the
  bytes \<open>build_delta\<close> returns hold a record with the bucket's index, mask and the current values
  of its fields. At most 255 types of an entity are dirty (the packet counts them in a byte).
\<close>

theorem dirty_bucket_is_sent:
  assumes wf: "wf_world reg w" and fit: "fitting reg" and it: "visits_once it" and few: "\<forall>e. card (dirty_types rp e) < 256"
    and t: "t \<in> dirty_types rp e" "is_networked reg t" "has w e t" "k < buckets reg t"
    and time: "ds \<noteq> []" "next_tick rp e t k \<le> rp_elapsed_time rp + sum_list ds"
  shows "\<exists>i < length ds. \<exists>m row. content w e = Some m \<and> m t = Some row \<and> record_in_packet reg
     (buf_data (snd (build_delta reg it w (after_time (ds ! i) (delta_run reg it w (take i ds) rp))))) e t k row"
proof -
  have st: "wf_store reg w" using wf by (simp add: wf_world_def)
  obtain i where i: "i < length ds" "bucket_sent reg it w (after_time (ds ! i) (delta_run reg it w (take i ds) rp)) e t k"
    "\<forall>e. card (dirty_types (after_time (ds ! i) (delta_run reg it w (take i ds) rp)) e) < 256"
    using due_bucket_sent [OF st fit it few t time] by auto
  show ?thesis using i(1) sent_in_packet [OF wf fit it i(3,2)] by blast
qed

end
