(* ===== verification/PacketSafety.thy ===== *)
theory PacketSafety
  imports FullState
begin

text \<open>
  What holds for every packet, whatever its bytes and whatever the peer is doing: the world
  stays well formed, a full state is applied as a whole or not at all, and a packet of another
  session or a malformed one changes nothing.
\<close>

section \<open>Steps that keep the world well formed\<close>

lemma preassigned_wf:
  assumes wf: "wf_store (env_registry E) w"
  shows "wf_store (env_registry E) (snd (create_entity_preassigned E i w))"
proof (cases "content w (Entity i)")
  case None
  then show ?thesis using create_preassigned_store(1) [OF wf, of "Entity i"] by simp
next
  case (Some m)
  then have "location_of w (Entity i) \<noteq> None" by (simp add: content_None [symmetric])
  then have "same_store w (snd (create_entity_preassigned E i w))"
    by (auto simp: create_entity_preassigned_def Let_def location_of_def)
  from same_store_wf(1) [OF this wf] show ?thesis .
qed

context component_format
begin

lemma apply_components_wf:
  assumes "in_buffer b" "wf_store (env_registry E) w" "fitting (env_registry E)" "keeps_store E"
  shows "wf_store (env_registry E) (fst (snd (apply_components E rd n e w b)))
    \<and> in_buffer (snd (snd (apply_components E rd n e w b)))"
  using assms
proof (induction n arbitrary: w b)
  case (Suc n)
  let ?reg = "env_registry E"
  show ?case
  proof (cases "read_u32 b = None \<or> schema_of ?reg (fst (the (read_u32 b))) = None")
    case True
    then show ?thesis using Suc.prems(1,2) u32c.rd_SomeD [of b]
      by (auto simp: apply_components.simps(2) in_buffer_adv split: option.split)
  next
    case False
    then obtain t b1 s where k: "read_u32 b = Some (t, b1)" "schema_of ?reg t = Some s" by auto
    let ?w1 = "add_raw E e t None w"
    have wf1: "wf_store ?reg ?w1" by (rule add_raw_wf [OF Suc.prems(2,4)])
    have i1: "in_buffer b1" using u32c.rd_SomeD [OF k(1)] Suc.prems(1) by (auto simp: in_buffer_adv)
    show ?thesis
    proof (cases "get_raw ?w1 e t")
      case None
      then show ?thesis using k wf1 i1 by (simp add: apply_components.simps(2) Let_def)
    next
      case (Some dst)
      obtain ok v b2 where r: "rd s (load_row ?w1 dst) b1 = (ok, v, b2)" by (cases "rd s (load_row ?w1 dst) b1") auto
      note len = pointer_length [OF wf1 Some k(2)]
      have v: "length v = cs_size s" "in_buffer b2"
        using rd_length [OF i1 _ r] len Suc.prems(3) k(2) by (simp_all add: fitting_def)
      note st = store_through(1) [OF wf1 Some k(2) v(1)]
      show ?thesis using k Some r st v(2) Suc.IH [OF v(2) st Suc.prems(3,4)]
        by (simp add: apply_components.simps(2) Let_def)
    qed
  qed
qed simp

end

lemma masked_read:
  assumes "in_buffer b" "fields_fit (cs_fields s) (length m)" "deserialize_component_fields s m b msk = (ok, m', b')"
  shows "length m' = length m" "in_buffer b'"
  using read_fields_length [OF assms(1) fields_fit_selected [OF assms(2)], of msk 0 ok m' b'] assms(3)
  by (simp_all add: deserialize_component_fields_def read_fields_from_selected)

lemma apply_delta_records_wf:
  assumes "in_buffer b" "wf_store reg w" "fitting reg" "get_raw w e t = Some dst" "schema_of reg t = Some s"
    "apply_delta_records s n dst w b = (ok, w', b')"
  shows "wf_store reg w' \<and> in_buffer b'"
  using assms
proof (induction n arbitrary: w b)
  case (Suc n)
  show ?case
  proof (cases "read_u8 b")
    case None
    then show ?thesis using Suc.prems by simp
  next
    case r1: (Some x)
    obtain bi b1 where x: "x = (bi, b1)" by (cases x)
    have i1: "in_buffer b1" using u8c.rd_SomeD [of b bi b1] r1 x Suc.prems(1) by (auto simp: in_buffer_adv)
    show ?thesis
    proof (cases "read_field_mask (length (cs_fields s)) b1")
      case None
      then show ?thesis using Suc.prems r1 x i1 by simp
    next
      case r2: (Some y)
      obtain msk b2 where y: "y = (msk, b2)" by (cases y)
      have i2: "in_buffer b2" using read_field_mask_Some [OF i1] r2 y by blast
      obtain ok1 v b3 where r3: "deserialize_component_fields s (load_row w dst) b2 msk = (ok1, v, b3)"
        by (cases "deserialize_component_fields s (load_row w dst) b2 msk") auto
      note len = pointer_length [OF Suc.prems(2,4,5)]
      have fit: "fields_fit (cs_fields s) (length (load_row w dst))" using Suc.prems(3,5) len by (simp add: fitting_def)
      note mr = masked_read [OF i2 fit r3]
      have v: "length v = cs_size s" using mr(1) len by simp
      note st = store_through [OF Suc.prems(2,4,5) v]
      have g: "get_raw (store_row dst v w) e t = Some dst" using st(3) Suc.prems(4) by simp
      show ?thesis
      proof (cases ok1)
        case True
        then have "apply_delta_records s n dst (store_row dst v w) b3 = (ok, w', b')"
          using Suc.prems(6) r1 x r2 y r3 by (simp add: Let_def)
        then show ?thesis by (rule Suc.IH [OF mr(2) st(1) Suc.prems(3) g Suc.prems(5)])
      next
        case False
        then show ?thesis using Suc.prems(6) r1 x r2 y r3 st(1) mr(2) by (simp add: Let_def)
      qed
    qed
  qed
qed simp

lemma read_fields_in_buffer:
  "in_buffer b \<Longrightarrow> read_fields fds m b = (ok, m', b') \<Longrightarrow> in_buffer b'"
proof (induction fds arbitrary: m b)
  case (Cons f fds)
  have "in_buffer b1" if "read_field f m (fd_offset f) b = (k, m1, b1)" for k m1 b1
    using that Cons.prems(1) in_buffer_adv [OF Cons.prems(1), of "field_size f"]
      read_field_enough [OF Cons.prems(1), of f m "fd_offset f"] read_field_short [of b f m "fd_offset f"]
    by (cases "field_size f \<le> length (rest b)") auto
  then show ?case using Cons by (auto split: prod.splits if_splits)
qed simp

lemma drain_in_buffer: "in_buffer b \<Longrightarrow> in_buffer (snd (snd (drain_delta_records s n sv b)))"
proof (induction n arbitrary: b sv)
  case (Suc n)
  show ?case
  proof (cases "read_u8 b = None \<or> read_field_mask (length (cs_fields s)) (snd (the (read_u8 b))) = None")
    case True
    then show ?thesis using Suc.prems u8c.rd_SomeD [of b] by (auto simp: in_buffer_adv split: option.split)
  next
    case False
    then obtain bi b1 msk b2 where k: "read_u8 b = Some (bi, b1)" "read_field_mask (length (cs_fields s)) b1 = Some (msk, b2)" by auto
    have "in_buffer b1" using u8c.rd_SomeD [OF k(1)] Suc.prems by (auto simp: in_buffer_adv)
    then have i2: "in_buffer b2" using read_field_mask_Some(3) [OF _ k(2)] by blast
    obtain ok scratch b3 where r: "deserialize_component_fields s
        (replicate (max (sv_size sv) (serialized_component_fields_size s msk)) 0) b2 msk = (ok, scratch, b3)"
      by (cases "deserialize_component_fields s (replicate (max (sv_size sv) (serialized_component_fields_size s msk)) 0) b2 msk") auto
    have "in_buffer b3"
      by (rule read_fields_in_buffer [OF i2 r [unfolded deserialize_component_fields_def read_fields_from_selected]])
    then show ?thesis using Suc.IH [of b3] k r i2 by (simp add: Let_def)
  qed
qed simp

lemma apply_delta_component_wf:
  fixes E :: "('c client, 'v) env" and w :: "'c client world"
  assumes b: "in_buffer b" and wf: "wf_store (env_registry E) w" and fit: "fitting (env_registry E)" and cb: "keeps_store E"
    and s: "schema_of (env_registry E) t = Some s"
  shows "apply_delta_component_v1 E s e t w b = (ok, w', b') \<Longrightarrow> wf_store (env_registry E) w' \<and> in_buffer b'"
    and "apply_delta_component_v2 E s e t w b = (ok, w', b') \<Longrightarrow> wf_store (env_registry E) w' \<and> in_buffer b'"
proof -
  let ?reg = "env_registry E"
  have wf1: "wf_store ?reg (add_raw E e t None w)" by (rule add_raw_wf [OF wf cb])
  have fs: "fields_fit (cs_fields s) (cs_size s)" using fit s by (simp add: fitting_def)
  show "wf_store ?reg w' \<and> in_buffer b'" if r: "apply_delta_component_v1 E s e t w b = (ok, w', b')"
  proof (cases "is_alive w e")
    case False
    then show ?thesis
      using r wf read_fields_in_buffer [OF b] by (auto simp: apply_delta_component_v1_def deserialize_component_def split: prod.splits)
  next
    case True
    show ?thesis
    proof (cases "get_raw (add_raw E e t None w) e t")
      case None
      then show ?thesis using r True wf1 b by (simp add: apply_delta_component_v1_def Let_def)
    next
      case (Some dst)
      note len = pointer_length [OF wf1 Some s]
      obtain k v b1 where d: "deserialize_component s (load_row (add_raw E e t None w) dst) b = (k, v, b1)"
        by (cases "deserialize_component s (load_row (add_raw E e t None w) dst) b") auto
      have "length v = cs_size s \<and> in_buffer b1" using whole.rd_length [OF b _ d] fs len by simp
      then show ?thesis
        using r True Some d store_through(1) [OF wf1 Some s] by (auto simp: apply_delta_component_v1_def Let_def)
    qed
  qed
  show "wf_store ?reg w' \<and> in_buffer b'" if r: "apply_delta_component_v2 E s e t w b = (ok, w', b')"
  proof (cases "read_u8 b")
    case None
    then show ?thesis using r wf b by (simp add: apply_delta_component_v2_def)
  next
    case r1: (Some x)
    obtain nrec b1 where x: "x = (nrec, b1)" by (cases x)
    have i1: "in_buffer b1" using u8c.rd_SomeD [of b nrec b1] r1 x b by (auto simp: in_buffer_adv)
    show ?thesis
    proof (cases "is_alive w e")
      case False
      then show ?thesis
        using r r1 x set_scratch_wf [OF wf] drain_in_buffer [OF i1, of s "unat nrec" "scratch_of w"]
        by (auto simp: apply_delta_component_v2_def split: prod.splits)
    next
      case True
      let ?w1 = "if \<not> has w e t then add_raw E e t None w else w"
      have wf': "wf_store ?reg ?w1" using wf wf1 by simp
      show ?thesis
      proof (cases "get_raw ?w1 e t")
        case None
        then show ?thesis using r True r1 x wf' i1 by (simp add: apply_delta_component_v2_def Let_def)
      next
        case (Some dst)
        then have "apply_delta_records s (unat nrec) dst ?w1 b1 = (ok, w', b')"
          using r True r1 x by (simp add: apply_delta_component_v2_def Let_def)
        then show ?thesis by (rule apply_delta_records_wf [OF i1 wf' fit Some s])
      qed
    qed
  qed
qed

lemma apply_delta_components_wf:
  assumes "in_buffer b" "wf_store (env_registry E) w" "fitting (env_registry E)" "keeps_store E"
    "apply_delta_components E v n e w b = (ok, w', b')"
  shows "wf_store (env_registry E) w' \<and> in_buffer b'"
  using assms
proof (induction n arbitrary: w b)
  case (Suc n)
  show ?case
  proof (cases "read_u32 b")
    case None
    then show ?thesis using Suc.prems by simp
  next
    case r: (Some x)
    obtain t b1 where x: "x = (t, b1)" by (cases x)
    have i1: "in_buffer b1" using u32c.rd_SomeD [of b t b1] r x Suc.prems(1) by (auto simp: in_buffer_adv)
    show ?thesis
    proof (cases "schema_of (env_registry E) t")
      case None
      then show ?thesis using Suc.prems r x i1 by simp
    next
      case s: (Some s)
      let ?r = "if v = 1 then apply_delta_component_v1 E s e t w b1 else apply_delta_component_v2 E s e t w b1"
      obtain k w1 b2 where r1: "?r = (k, w1, b2)" by (cases ?r) auto
      have st: "wf_store (env_registry E) w1 \<and> in_buffer b2"
        using r1 apply_delta_component_wf [OF i1 Suc.prems(2,3,4) s] by (auto split: if_splits)
      show ?thesis using Suc.prems(5) st Suc.IH [of b2 w1] Suc.prems(3,4) r x s r1 by (cases k) simp_all
    qed
  qed
qed simp

lemma apply_delta_entities_wf:
  assumes "in_buffer b" "wf_store (env_registry E) w" "fitting (env_registry E)" "keeps_store E"
  shows "wf_store (env_registry E) (apply_delta_entities E v n w b)"
  using assms
proof (induction n arbitrary: w b)
  case (Suc n)
  show ?case
  proof (cases "read_u64 b = None \<or> read_u8 (snd (the (read_u64 b))) = None")
    case True
    then show ?thesis using Suc.prems by (auto split: option.split)
  next
    case False
    then obtain i b1 k b2 where r: "read_u64 b = Some (i, b1)" "read_u8 b1 = Some (k, b2)" by auto
    have "in_buffer b1" using u64c.rd_SomeD [OF r(1)] Suc.prems(1) by (auto simp: in_buffer_adv)
    then have i2: "in_buffer b2" using u8c.rd_SomeD [OF r(2)] by (auto simp: in_buffer_adv)
    obtain ok w1 b3 where a: "apply_delta_components E v (unat k) (Entity i) w b2 = (ok, w1, b3)"
      by (cases "apply_delta_components E v (unat k) (Entity i) w b2") auto
    note st = apply_delta_components_wf [OF i2 Suc.prems(2-4) a]
    then have "wf_store (env_registry E) (if is_alive w1 (Entity i) then update_replication (add_replicated (Entity i)) w1 else w1)"
      by (simp add: update_replicated)
    then show ?thesis using st Suc.IH Suc.prems(3,4) r a by simp
  qed
qed simp

lemma apply_full_entities_wf:
  assumes "in_buffer b" "wf_store (env_registry E) w" "fitting (env_registry E)" "keeps_store E"
  shows "wf_store (env_registry E) (fst (snd (apply_full_entities E v n inc w b)))"
  using assms
proof (induction n arbitrary: w b inc)
  case (Suc n)
  let ?reg = "env_registry E"
  show ?case
  proof (cases "read_u64 b")
    case None
    then show ?thesis using Suc.prems by simp
  next
    case r: (Some x)
    obtain i b1 where x: "x = (i, b1)" by (cases x)
    have i1: "in_buffer b1" using u64c.rd_SomeD [of b i b1] r x Suc.prems(1) by (auto simp: in_buffer_adv)
    let ?w1 = "if is_alive w (Entity i) then destroy_entity E (Entity i) w else w"
    have wf1: "wf_store ?reg ?w1" using destroy_entity_wf(1) [OF Suc.prems(2,4)] Suc.prems(2) by simp
    obtain e w2 where c: "create_entity_preassigned E i ?w1 = (e, w2)" by (cases "create_entity_preassigned E i ?w1")
    have wf2: "wf_store ?reg w2" using preassigned_wf [OF wf1, of i] c by simp
    show ?thesis
    proof (cases "\<not> entity_bool e \<or> read_u16 b1 = None")
      case True
      then show ?thesis using wf2 by (auto simp: r x Let_def c)
    next
      case False
      then obtain k b2 where k: "read_u16 b1 = Some (k, b2)" "entity_bool e" by auto
      have i2: "in_buffer b2" using u16c.rd_SomeD [OF k(1)] i1 by (auto simp: in_buffer_adv)
      obtain ok w3 b3 where a: "apply_components E (read_version v) (unat k) e w2 b2 = (ok, w3, b3)"
        by (cases "apply_components E (read_version v) (unat k) e w2 b2") auto
      have wf3: "wf_store ?reg w3" "in_buffer b3"
        using packet.apply_components_wf [OF i2 wf2 Suc.prems(3,4), of v "unat k" e] a by simp_all
      then show ?thesis using Suc.IH [OF wf3(2,1) Suc.prems(3,4)] k a by (simp add: r x Let_def c)
    qed
  qed
qed simp

lemma remove_ghosts_wf:
  assumes "wf_store (env_registry E) w" "keeps_store E"
  shows "wf_store (env_registry E) (remove_ghosts E it inc w)"
proof -
  have "wf_store (env_registry E) (fold (\<lambda>e u. if e \<notin> inc \<and> is_alive u e then destroy_entity E e u else u) es w)" for es
    using assms(1)
  proof (induction es arbitrary: w)
    case (Cons x es)
    then show ?case using destroy_entity_wf(1) [OF Cons.prems assms(2), of x] by simp
  qed simp
  then show ?thesis by (simp add: remove_ghosts_def update_replicated)
qed

lemma apply_functions_wf:
  assumes wf: "wf_store (env_registry E) w" and fit: "fitting (env_registry E)" and cb: "keeps_store E"
  shows "wf_store (env_registry E) (apply_spawn E d w)" "wf_store (env_registry E) (apply_delta E d w)"
    "wf_store (env_registry E) (apply_full_state E it d w)" "wf_store (env_registry E) (apply_despawn E d w)"
proof -
  let ?reg = "env_registry E"
  have hd: "in_buffer b1" if "read_u16 (seek 0 d) = Some (v, b1)" for v b1
    using u16c.rd_SomeD [OF that] seek_start(2) [of d] by (auto simp: in_buffer_adv)
  have cnt: "in_buffer b2" if "in_buffer b1" "read_u32 b1 = Some (k, b2)" for b1 k b2
    using u32c.rd_SomeD [OF that(2)] that(1) by (auto simp: in_buffer_adv)
  show "wf_store ?reg (apply_spawn E d w)"
  proof (cases "read_u16 (seek 0 d)")
    case None
    then show ?thesis using wf by (simp add: apply_spawn_def)
  next
    case r1: (Some x)
    obtain v b1 where x: "x = (v, b1)" by (cases x)
    show ?thesis
    proof (cases "\<not> version_ok v \<or> read_u64 b1 = None")
      case True
      then show ?thesis using wf r1 x by (auto simp: apply_spawn_def)
    next
      case False
      then obtain i b2 where r2: "read_u64 b1 = Some (i, b2)" "version_ok v" by auto
      have i2: "in_buffer b2" using u64c.rd_SomeD [OF r2(1)] hd r1 x by (auto simp: in_buffer_adv)
      obtain e w1 where c: "create_entity_preassigned E i w = (e, w1)" by (cases "create_entity_preassigned E i w")
      have wf1: "wf_store ?reg w1" using preassigned_wf [OF wf, of i] c by simp
      show ?thesis
      proof (cases "\<not> entity_bool e \<or> read_u16 b2 = None")
        case True
        then show ?thesis using wf1 r1 x r2 c by (auto simp: apply_spawn_def)
      next
        case False
        then obtain k b3 where r3: "read_u16 b2 = Some (k, b3)" "entity_bool e" by auto
        have i3: "in_buffer b3" using u16c.rd_SomeD [OF r3(1)] i2 by (auto simp: in_buffer_adv)
        obtain ok w2 b4 where a: "apply_components E (read_version v) (unat k) e w1 b3 = (ok, w2, b4)"
          by (cases "apply_components E (read_version v) (unat k) e w1 b3") auto
        have "wf_store ?reg w2" using packet.apply_components_wf [OF i3 wf1 fit cb, of v "unat k" e] a by simp
        then show ?thesis using r1 x r2 c r3 a by (simp add: apply_spawn_def update_replicated)
      qed
    qed
  qed
  show "wf_store ?reg (apply_delta E d w)"
    using wf hd cnt apply_delta_entities_wf [OF _ wf fit cb] by (auto simp: apply_delta_def split: option.split)
  show "wf_store ?reg (apply_full_state E it d w)"
  proof (cases "read_u16 (seek 0 d)")
    case None
    then show ?thesis using wf by (simp add: apply_full_state_def)
  next
    case r1: (Some x)
    obtain v b1 where x: "x = (v, b1)" by (cases x)
    show ?thesis
    proof (cases "\<not> version_ok v \<or> read_u32 b1 = None")
      case True
      then show ?thesis using wf r1 x by (auto simp: apply_full_state_def)
    next
      case False
      then obtain k b2 where r2: "read_u32 b1 = Some (k, b2)" "version_ok v" by auto
      have i2: "in_buffer b2" using cnt [OF hd r2(1)] r1 x by simp
      obtain ok w1 inc where a: "apply_full_entities E v (unat k) {} w b2 = (ok, w1, inc)"
        by (cases "apply_full_entities E v (unat k) {} w b2") auto
      have wf1: "wf_store ?reg w1" using apply_full_entities_wf [OF i2 wf fit cb, of v "unat k" "{}"] a by simp
      show ?thesis
        by (cases "scan_entities ?reg (skip_version v) (unat k) {} b2")
          (use remove_ghosts_wf [OF wf1 cb, of it inc] wf wf1 r1 x r2 a in \<open>simp_all add: apply_full_state_def\<close>)
    qed
  qed
  show "wf_store ?reg (apply_despawn E d w)"
    using wf destroy_entity_wf(1) [OF _ cb]
    by (auto simp: apply_despawn_def Let_def update_replicated split: option.split)
qed

section \<open>The scratch vector\<close>

text \<open>
  The vector only grows, and a write can leave it only while it is shorter than some component;
  \<open>grown reg sv sv'\<close> is what a sequence of records may have done to it.
\<close>

definition too_short :: "registry \<Rightarrow> scratch_vector \<Rightarrow> bool" where
  "too_short reg sv \<longleftrightarrow> (\<exists>t s. schema_of reg t = Some s \<and> sv_size sv < cs_size s)"

definition grown :: "registry \<Rightarrow> scratch_vector \<Rightarrow> scratch_vector \<Rightarrow> bool" where
  "grown reg sv sv' \<longleftrightarrow> sv_size sv \<le> sv_size sv' \<and> (sv_overrun sv' \<longrightarrow> sv_overrun sv \<or> too_short reg sv)"

lemma grown_refl [simp]: "grown reg sv sv"
  by (simp add: grown_def)

lemma grown_trans: "grown reg sv sv1 \<Longrightarrow> grown reg sv1 sv2 \<Longrightarrow> grown reg sv sv2"
  unfolding grown_def too_short_def by (meson le_less_trans le_trans)

lemma drain_grown:
  assumes s: "schema_of reg t = Some s" and fit: "fitting reg"
  shows "grown reg sv (fst (snd (drain_delta_records s n sv b)))"
proof (induction n arbitrary: b sv)
  case (Suc n)
  have st: "grown reg sv \<lparr>sv_size = max (sv_size sv) sz, sv_overrun = sv_overrun sv \<or> writes_past s msk (max (sv_size sv) sz)\<rparr>" for sz msk
  proof -
    have "fd_offset fd + field_size fd \<le> cs_size s" if "fd \<in> set (selected_from msk 0 (cs_fields s))" for fd
      using that fields_fit_selected [of "cs_fields s" "cs_size s" msk 0] fit s
      by (auto simp: fitting_def fields_fit_def list_all_iff)
    then have "writes_past s msk (max (sv_size sv) sz) \<Longrightarrow> too_short reg sv"
      using s by (fastforce simp: writes_past_def too_short_def)
    then show ?thesis by (auto simp: grown_def)
  qed
  show ?case using grown_trans [OF st Suc.IH] st by (auto simp: Let_def split: option.split prod.split)
qed simp

lemma delta_components_grown:
  fixes E :: "('c client, 'v) env"
  assumes fit: "fitting (env_registry E)"
  shows "grown (env_registry E) (scratch_of w) (scratch_of (fst (snd (apply_delta_components (net_env net_fn other E) v n e w b))))"
proof (induction n arbitrary: w b)
  case (Suc n)
  let ?E = "net_env net_fn other E"
  have reg: "env_registry ?E = env_registry E" by (rule net_env_passive)
  have ar: "scratch_of (add_raw ?E e t None w) = scratch_of w" for t
    using scratch_side.add_raw_client [of w "scratch_of w" net_fn other E e t None] by (simp add: scratch_of_def)
  have sr: "scratch_of (store_row dst r u) = scratch_of u" for dst r and u :: "'c client world"
    by (cases dst) (simp add: scratch_of_def store_row_def update_arch_column_def set_arch_def)
  have rc: "scratch_of (fst (snd (apply_delta_records s k dst u b))) = scratch_of u" for s k dst b and u :: "'c client world"
    by (simp add: scratch_of_def apply_delta_records_client)
  have 1: "grown (env_registry E) (scratch_of w) (scratch_of (fst (snd (apply_delta_component_v1 ?E s e t w b))))" for s t b
    by (auto simp: apply_delta_component_v1_def Let_def ar sr split: option.split prod.split)
  have 2: "grown (env_registry E) (scratch_of w) (scratch_of (fst (snd (apply_delta_component_v2 ?E s e t w b))))"
    if s: "schema_of (env_registry E) t = Some s" for s t b
  proof -
    have dg: "grown (env_registry E) (scratch_of w) sv" if "drain_delta_records s m (scratch_of w) b' = (ok, sv, b'')" for m b' ok sv b''
      using drain_grown [OF s fit, of "scratch_of w" m b'] that by simp
    show ?thesis by (auto simp: apply_delta_component_v2_def Let_def ar rc split: option.split prod.split intro: dg)
  qed
  show ?case
  proof (cases "read_u32 b = None \<or> schema_of (env_registry E) (fst (the (read_u32 b))) = None")
    case True
    then show ?thesis by (auto simp: reg split: option.split)
  next
    case False
    then obtain t b1 s where k: "read_u32 b = Some (t, b1)" "schema_of (env_registry E) t = Some s" by auto
    let ?r = "if v = 1 then apply_delta_component_v1 ?E s e t w b1 else apply_delta_component_v2 ?E s e t w b1"
    obtain ok w1 b2 where r: "?r = (ok, w1, b2)" by (cases ?r) auto
    have "grown (env_registry E) (scratch_of w) (scratch_of (fst (snd ?r)))" using 1 [of s t b1] 2 [OF k(2), of b1] by simp
    then have g: "grown (env_registry E) (scratch_of w) (scratch_of w1)" unfolding r by simp
    show ?thesis using k r g grown_trans [OF g Suc.IH] by (simp add: reg)
  qed
qed simp

lemma delta_entities_grown:
  fixes E :: "('c client, 'v) env"
  assumes fit: "fitting (env_registry E)"
  shows "grown (env_registry E) (scratch_of w) (scratch_of (apply_delta_entities (net_env net_fn other E) v n w b))"
proof (induction n arbitrary: w b)
  case (Suc n)
  let ?E = "net_env net_fn other E"
  show ?case
  proof (cases "read_u64 b = None \<or> read_u8 (snd (the (read_u64 b))) = None")
    case True
    then show ?thesis by (auto split: option.split)
  next
    case False
    then obtain i b1 k b2 where r: "read_u64 b = Some (i, b1)" "read_u8 b1 = Some (k, b2)" by auto
    obtain ok w1 b3 where a: "apply_delta_components ?E v (unat k) (Entity i) w b2 = (ok, w1, b3)"
      by (cases "apply_delta_components ?E v (unat k) (Entity i) w b2") auto
    have g: "grown (env_registry E) (scratch_of w) (scratch_of w1)"
      using delta_components_grown [OF fit, of w net_fn other v "unat k" "Entity i" b2] a by simp
    have u: "scratch_of (update_replication f w1) = scratch_of w1" for f by (simp add: scratch_of_def scratch_kept)
    show ?thesis using g r a grown_trans [OF g] Suc.IH [of "if is_alive w1 (Entity i) then update_replication (add_replicated (Entity i)) w1 else w1" b3]
      by (auto simp: u split: if_splits)
  qed
qed simp

lemma packet_scratch:
  fixes E :: "('c client, 'v) env" and net_fn :: nat and other :: "nat \<Rightarrow> 'v event \<Rightarrow> 'c client world \<Rightarrow> 'c"
  defines "F \<equiv> net_env net_fn other E"
  shows "kind \<noteq> Delta \<Longrightarrow> scratch_of (apply_packet F it kind data w) = scratch_of w"
    "fitting (env_registry E) \<Longrightarrow> grown (env_registry E) (scratch_of w) (scratch_of (apply_packet F it kind data w))"
proof -
  let ?w1 = "set_applying True w"
  have s1: "scratch_of (set_applying v u) = scratch_of u" for v and u :: "'c client world" by (simp add: set_applying_def)
  have a: "cl_scratch (w_client ?w1) = scratch_of w" using s1 [of True w] by (simp add: scratch_of_def)
  have sp: "scratch_of (apply_spawn F data ?w1) = scratch_of w" "scratch_of (apply_full_state F it data ?w1) = scratch_of w"
    "scratch_of (apply_despawn F data ?w1) = scratch_of w"
    unfolding F_def using scratch_side.apply_spawn_client [OF a] scratch_side.apply_full_state_client [OF a]
      scratch_side.apply_despawn_client [OF a] by (simp_all add: scratch_of_def)
  show "scratch_of (apply_packet F it kind data w) = scratch_of w" if "kind \<noteq> Delta"
    using that sp by (cases kind) (simp_all add: apply_packet_def Let_def s1)
  show "grown (env_registry E) (scratch_of w) (scratch_of (apply_packet F it kind data w))" if "fitting (env_registry E)"
  proof -
    have "grown (env_registry E) (scratch_of w) (scratch_of (apply_delta F data ?w1))"
      using delta_entities_grown [OF that, of ?w1 net_fn other] unfolding F_def
      by (auto simp: apply_delta_def s1 split: option.split)
    then show ?thesis using sp by (cases kind) (simp_all add: apply_packet_def Let_def s1)
  qed
qed

section \<open>Properties\<close>

text \<open>
  C20. What a packet can do to a peer, for every kind and every sequence of bytes (well formed or
  not, with any ids, type ids, counts and masks) and in every mode of the world (iteration,
  deferred moves): unless a record of a delta is written past the scratch vector, the world after
  \<open>apply_packet\<close> satisfies the store invariant (locations and rows agree, columns have their
  archetype's row count and their schema's row size, the query cache is coherent). Only a delta
  can overrun the vector, and only while the vector is shorter than some registered component;
  \<open>scratch_overrun\<close> below is such a record. The callbacks of the other observers change their own
  state only, and the fields of every schema lie within its row.
\<close>

theorem any_packet_keeps_world_wellformed:
  fixes E :: "('c client, 'v) env" and net_fn :: nat and it :: iteration and data :: binary_buffer and kind :: sync_packet_kind
    and other :: "nat \<Rightarrow> 'v event \<Rightarrow> 'c client world \<Rightarrow> 'c"
  assumes wf: "wf_store (env_registry E) w" and fits: "fitting (env_registry E)" and ok: "\<not> sv_overrun (scratch_of w)"
  defines "w' \<equiv> apply_packet (net_env net_fn other E) it kind data w"
  shows "if sv_overrun (scratch_of w') then kind = Delta \<and> too_short (env_registry E) (scratch_of w)
    else wf_store (env_registry E) w'"
proof -
  let ?E = "net_env net_fn other E" and ?w1 = "set_applying True w"
  have reg: "env_registry ?E = env_registry E" by (rule net_env_passive)
  have wf1: "wf_store (env_registry ?E) ?w1" using set_applying_end(2) [OF wf] by (simp add: reg)
  have fit: "fitting (env_registry ?E)" using fits by (simp add: reg)
  note af = apply_functions_wf [OF wf1 fit passive_keeps [OF net_env_passive(1)], unfolded reg]
  let ?w2 = "case kind of Spawn \<Rightarrow> apply_spawn ?E data ?w1 | Delta \<Rightarrow> apply_delta ?E data ?w1
     | FullState \<Rightarrow> apply_full_state ?E it data ?w1 | Despawn \<Rightarrow> apply_despawn ?E data ?w1"
  have "wf_store (env_registry E) ?w2" using af by (cases kind) simp_all
  then have "wf_store (env_registry E) (set_applying False ?w2)" by (rule set_applying_end(2))
  then have "wf_store (env_registry E) w'" using wf by (simp add: w'_def apply_packet_def Let_def)
  moreover have "kind = Delta" if "sv_overrun (scratch_of w')"
    using packet_scratch(1) [of kind net_fn other E it data w] that ok unfolding w'_def by metis
  moreover have "too_short (env_registry E) (scratch_of w)" if "sv_overrun (scratch_of w')"
    using packet_scratch(2) [OF fits, of w net_fn other it kind data] that ok by (auto simp: w'_def grown_def)
  ultimately show ?thesis by simp
qed

text \<open>
  The overrun: a record that selects the second field of the demo component (4 bytes at offset 4)
  is drained into a vector of 4 bytes.
\<close>

lemma scratch_overrun: "sv_overrun (fst (snd (drain_delta_records demo_schema 1 empty_scratch (from_packed [0, 2, 5, 6, 7, 8]))))"
  by code_simp

text \<open>A despawn of the only entity of a world.\<close>

lemma node_base:
  obtains E0 :: "(unit client, unit) env" where "env_registry E0 = wire_registry" "net_env 7 (\<lambda>f ev w. ()) E0 = node_env"
  by (rule that [of "\<lparr>env_registry = wire_registry, env_heap = (\<lambda>n k. 0), env_callback = (\<lambda>f ev w. w),
      env_custom = (\<lambda>f d w. w), env_order = (\<lambda>es. es)\<rparr>"]) (simp_all add: node_env_def)

lemma peer_start:
  defines "w0 \<equiv> wire_start node_env node_client"
  shows "wf_store wire_registry w0" "open_mode w0" "content w0 = [e1 \<mapsto> Map.empty]" "ns_world (net_of w0)"
    "ns_strategy (net_of w0) = Some fresh_replication" "scratch_of w0 = empty_scratch"
proof -
  note ws = wire_start_ok [where E = node_env and u = node_client, folded w0_def, unfolded node_env_ok(2)]
  show "wf_store wire_registry w0" "open_mode w0" "content w0 = [e1 \<mapsto> Map.empty]" using ws(3,4,5) by simp_all
  have "w_client w0 = node_client"
    by (simp add: w0_def wire_start_def create_entity_def new_world_def Let_def alloc_entity_id_def place_entity_def
        invalidate_cache_def create_archetype_def ensure_archetype_def blank_world_def split: prod.split)
  then show "ns_world (net_of w0)" "ns_strategy (net_of w0) = Some fresh_replication" "scratch_of w0 = empty_scratch"
    by (simp_all add: net_of_def scratch_of_def node_client_def new_network_sync_def)
qed

theorem any_packet_keeps_world_wellformed_witness:
  "wf_store wire_registry (apply_packet node_env node_iteration Despawn (from_packed [1, 0, 0, 0, 0, 0, 0, 0]) (wire_start node_env node_client))
   \<and> content (apply_packet node_env node_iteration Despawn (from_packed [1, 0, 0, 0, 0, 0, 0, 0]) (wire_start node_env node_client)) = Map.empty"
proof -
  let ?w = "wire_start node_env node_client" and ?d = "from_packed [1, 0, 0, 0, 0, 0, 0, 0]"
  let ?u = "update_replication (\<lambda>rp. rp\<lparr>rp_client_replicated := rp_client_replicated rp - {e1}\<rparr>) (set_applying True ?w)"
  note ps = peer_start
  obtain E0 :: "(unit client, unit) env" where E0: "env_registry E0 = wire_registry" "net_env 7 (\<lambda>f ev w. ()) E0 = node_env"
    by (rule node_base)
  have wf: "wf_store (env_registry E0) ?w" "fitting (env_registry E0)" "\<not> sv_overrun (scratch_of ?w)"
    using ps wire_registry_ok(3) by (simp_all add: E0 empty_scratch_def)
  note t = any_packet_keeps_world_wellformed [OF wf, where net_fn = 7 and other = "\<lambda>f ev w. ()" and it = node_iteration
      and data = ?d and kind = Despawn, unfolded E0]
  have "buf_data ?d = [1, 0, 0, 0, 0, 0, 0, 0]" by (simp add: from_packed_def)
  have rd: "read_u64 (seek 0 ?d) = Some (1, \<lparr>buf_data = [1, 0, 0, 0, 0, 0, 0, 0], buf_pos = 8\<rparr>)" by code_simp
  have e: "Entity 1 = e1" by (simp add: e1_def make_entity_def)
  have v: "validate_packet (env_registry node_env) ?d Despawn"
    using rd by (simp add: validate_packet_def consumed_def at_end_def)
  have u: "wf_store (env_registry node_env) ?u" "open_mode ?u" "content ?u = [e1 \<mapsto> Map.empty]" "is_alive ?u e1"
    using ps(1-3) is_alive_content [OF ps(1), of e1] applying_start(3,4,5) [OF ps(5)]
    by (simp_all add: update_replicated set_applying_end node_env_ok(2))
  have "apply_packet node_env node_iteration Despawn ?d ?w = set_applying False (destroy_entity node_env e1 ?u)"
    using rd v ps(4,5) e u(4) by (simp add: apply_packet_def apply_despawn_def Let_def)
  then have "content (apply_packet node_env node_iteration Despawn ?d ?w) = Map.empty"
    using destroy_entity_mode(2) [OF u(1) node_env_ok(1) u(2), of e1] u(3) by (simp add: set_applying_end)
  moreover have "wf_store wire_registry (apply_packet node_env node_iteration Despawn ?d ?w)" using t by (simp split: if_splits)
  ultimately show ?thesis by simp
qed

section \<open>Full states as a whole\<close>

text \<open>
  What the bytes of a full state say: the entities it names, each once, with their components;
  \<open>None\<close> when the packet is cut short, longer than its content, of another version, or names an
  unknown type, a refused id or an id twice.
\<close>

definition decode_full_state :: "registry \<Rightarrow> binary_buffer \<Rightarrow> (entity \<rightharpoonup> (ctype \<rightharpoonup> byte list)) option" where
  "decode_full_state reg data =
     (case read_u16 (seek 0 data) of None \<Rightarrow> None
      | Some (version, b1) \<Rightarrow>
          if \<not> version_ok version then None
          else (case read_u32 b1 of None \<Rightarrow> None
                | Some (n, b2) \<Rightarrow> (case decode_entities reg (read_version version) (unat n) Map.empty b2 of None \<Rightarrow> None
                    | Some (K, b3) \<Rightarrow> if at_end b3 then Some K else None)))"

text \<open>The second pass replaces exactly the entities the records name.\<close>

lemma apply_full_decoded:
  assumes "decode_entities (env_registry E) (read_version v) n K b = Some (K', b')"
    and "fitting (env_registry E)" "in_buffer b" "passive_env E" "wf_store (env_registry E) w" "open_mode w"
    and "content w = C ++ K"
  shows "\<exists>w'. apply_full_entities E v n (dom K) w b = (True, w', dom K') \<and> wf_store (env_registry E) w' \<and> open_mode w'
    \<and> content w' = C ++ K'"
  using assms
proof (induction n arbitrary: K b w)
  case 0
  then show ?case by simp
next
  case (Suc n)
  let ?reg = "env_registry E"
  obtain i b1 ncomp b2 m b3 where k: "read_u64 b = Some (i, b1)" "\<not> id_refused i" "K (Entity i) = None"
    "read_u16 b1 = Some (ncomp, b2)" "decode_components ?reg (read_version v) (unat ncomp) Map.empty b2 = Some (m, b3)"
    "decode_entities ?reg (read_version v) n (K(Entity i \<mapsto> m)) b3 = Some (K', b')"
    using Suc.prems(1) by (auto split: option.splits prod.splits if_splits)
  have i1: "in_buffer b1" using u64c.rd_SomeD [OF k(1)] Suc.prems(3) by (auto simp: in_buffer_adv)
  have i2: "in_buffer b2" using u16c.rd_SomeD [OF k(4)] i1 by (auto simp: in_buffer_adv)
  let ?w0 = "if is_alive w (Entity i) then destroy_entity E (Entity i) w else w"
  note de = destroy_entity_mode [OF Suc.prems(5,4,6), of "Entity i"]
  have c0: "content ?w0 = (content w)(Entity i := None)" "wf_store ?reg ?w0" "open_mode ?w0"
    using de Suc.prems(5,6) is_alive_content [OF Suc.prems(5), of "Entity i"] by (auto simp: fun_eq_iff)
  have n: "content ?w0 (Entity i) = None" using c0(1) by simp
  obtain e w1 where c: "create_entity_preassigned E i ?w0 = (e, w1)" by (cases "create_entity_preassigned E i ?w0")
  note pe = preassigned_entity [OF c0(2) k(2) n c0(3) c]
  have m: "content w1 e = Some Map.empty" by (simp add: pe(4))
  obtain w2 where a: "in_buffer b3" "apply_components E (read_version v) (unat ncomp) e w1 b2 = (True, w2, b3)"
    "wf_store ?reg w2" "content w2 = (content w1)(e \<mapsto> m)" "ctl w2 = ctl w1"
    using packet.apply_decoded [OF k(5) Suc.prems(2) i2 pe(3) Suc.prems(4) m pe(5)] by blast
  have o2: "open_mode w2" using open_mode_ctl [OF a(5)] pe(5) by simp
  have "content w2 = (content w)(Entity i \<mapsto> m)" unfolding a(4) pe(4) c0(1) pe(1) by (simp del: fun_upd_apply)
  then have c2: "content w2 = C ++ K(Entity i \<mapsto> m)" by (simp only: Suc.prems(7) map_add_upd)
  have inc: "insert e (dom K) = dom (K(Entity i \<mapsto> m))" by (simp add: pe(1))
  from Suc.IH [OF k(6) Suc.prems(2) a(1) Suc.prems(4) a(3) o2 c2] show ?case
    using k(1,4) c pe(2) a(2) unfolding inc [symmetric] by (simp add: Let_def)
qed

text \<open>
  C19. A full state is applied as a whole or not at all, whatever its bytes. At a node that is
  bound to a world and has a strategy, and for bytes that have a meaning (\<open>decode_full_state\<close>),
  afterwards every entity the packet names has exactly the components and bytes the packet gives
  it, every entity replicated before and not named is gone, all other entities have the content
  they had, and the named entities are what is remembered as replicated. In every other case
  nothing of the peer changes. There is no state in between. The world is outside iteration and
  deferred windows, and no packet is being applied; the iteration order of the replicated set
  visits each of its entities.
\<close>

theorem full_state_all_or_nothing:
  fixes E :: "('c client, 'v) env" and net_fn :: nat and it :: iteration and data :: binary_buffer
    and other :: "nat \<Rightarrow> 'v event \<Rightarrow> 'c client world \<Rightarrow> 'c"
  assumes wf: "wf_store (env_registry E) w" and fit: "fitting (env_registry E)" and md: "open_mode w"
    and na: "\<not> ns_applying (net_of w)"
    and it: "set (it_entities it (client_replicated w)) = client_replicated w"
  defines "w' \<equiv> apply_packet (net_env net_fn other E) it FullState data w"
  shows "case (if ns_world (net_of w) \<and> ns_strategy (net_of w) \<noteq> None then decode_full_state (env_registry E) data else None) of
      None \<Rightarrow> w' = w
    | Some K \<Rightarrow> client_replicated w' = dom K \<and> content w' =
        (\<lambda>e. if e \<in> client_replicated w - dom K then None else (content w ++ K) e)"
proof -
  let ?E = "net_env net_fn other E" and ?reg = "env_registry E" and ?w1 = "set_applying True w"
  have reg: "env_registry ?E = ?reg" by (rule net_env_passive)
  have undo: "set_applying False ?w1 = w"
    using na by (cases w, cases "w_client w", cases "cl_net (w_client w)")
      (simp add: set_applying_def set_net_def net_of_def)
  have bi: "in_buffer (seek 0 data)" by (rule seek_start)
  show ?thesis
  proof (cases "ns_world (net_of w) \<and> ns_strategy (net_of w) \<noteq> None \<and> version_ok (fst (the (read_u16 (seek 0 data))))
      \<and> read_u16 (seek 0 data) \<noteq> None \<and> read_u32 (snd (the (read_u16 (seek 0 data)))) \<noteq> None")
    case False
    then have "w' = w" using undo by (auto simp: w'_def apply_packet_def apply_full_state_def Let_def split: option.split)
    moreover have "(if ns_world (net_of w) \<and> ns_strategy (net_of w) \<noteq> None then decode_full_state ?reg data else None) = None"
      using False by (auto simp: decode_full_state_def split: option.split)
    ultimately show ?thesis by simp
  next
    case True
    then obtain rp v b1 n b2 where h: "ns_world (net_of w)" "ns_strategy (net_of w) = Some rp" "version_ok v"
      "read_u16 (seek 0 data) = Some (v, b1)" "read_u32 b1 = Some (n, b2)" by auto
    have i2: "in_buffer b2" using u16c.rd_SomeD [OF h(4)] u32c.rd_SomeD [OF h(5)] bi by (auto simp: in_buffer_adv)
    note sd = packet.scan_decode [OF i2, where reg = ?reg and n = "unat n" and K = Map.empty and v = v, simplified]
    have dec: "decode_full_state ?reg data = (case decode_entities ?reg (read_version v) (unat n) Map.empty b2 of None \<Rightarrow> None
        | Some (K, b3) \<Rightarrow> if at_end b3 then Some K else None)" by (simp add: decode_full_state_def h)
    have val: "validate_packet ?reg data FullState \<longleftrightarrow> at_end b3" if "scan_entities ?reg (skip_version v) (unat n) {} b2 = Some b3" for b3
      using scan_consumes [OF that] h by (simp add: validate_packet_def Let_def consumed_def)
    show ?thesis
    proof (cases "decode_full_state ?reg data")
      case None
      have "\<not> validate_packet ?reg data FullState" if sc: "scan_entities ?reg (skip_version v) (unat n) {} b2 = Some b3" for b3
      proof -
        obtain K where "decode_entities ?reg (read_version v) (unat n) Map.empty b2 = Some (K, b3)" using sd sc by blast
        then show ?thesis using None dec val [OF sc] by (auto split: if_splits)
      qed
      then have "\<not> validate_packet ?reg data FullState \<or> scan_entities ?reg (skip_version v) (unat n) {} b2 = None" by blast
      then have "w' = w" using undo h by (auto simp: w'_def apply_packet_def apply_full_state_def Let_def reg)
      then show ?thesis using None by simp
    next
      case (Some K)
      then obtain b3 where d: "decode_entities ?reg (read_version v) (unat n) Map.empty b2 = Some (K, b3)" "at_end b3"
        using dec by (auto split: option.splits if_splits)
      have sc: "scan_entities ?reg (skip_version v) (unat n) {} b2 = Some b3" using sd d(1) by blast
      note st1 = applying_start [OF h(2)]
      have pr: "decode_entities (env_registry ?E) (read_version v) (unat n) Map.empty b2 = Some (K, b3)" "fitting (env_registry ?E)"
        "wf_store (env_registry ?E) ?w1" "open_mode ?w1" "content ?w1 = content w ++ Map.empty"
        using d(1) fit st1(4) [OF wf] st1(3,5) md by (simp_all add: reg)
      obtain w2 where w2: "apply_full_entities ?E v (unat n) {} ?w1 b2 = (True, w2, dom K)" "wf_store ?reg w2" "open_mode w2"
        "content w2 = content w ++ K"
        using apply_full_decoded [OF pr(1,2) i2 net_env_passive(1) pr(3-5)] unfolding reg by auto
      have "validate_packet ?reg data FullState" using val [OF sc] d(2) by simp
      note fin = full_state_applied [OF h(1,2) this h(4,3,5) sc w2(1-3) it, folded w'_def]
      show ?thesis using fin(2,3) h(1,2) Some by (simp add: w2(4) fun_eq_iff)
    qed
  qed
qed

text \<open>A full state of one entity, applied to a peer that holds none, and the same bytes cut short.\<close>

definition small_full_state :: "byte list" where
  "small_full_state = [2, 0] @ [1, 0, 0, 0] @ [1, 0, 0, 0, 0, 0, 0, 0] @ [1, 0] @ [1, 0, 0, 0] @ [7] @ [1, 5, 6, 7, 8, 104, 105, 0, 0]"

lemma small_full_state_decoded:
  "decode_full_state wire_registry (from_packed small_full_state) = Some [e1 \<mapsto> [1 \<mapsto> [1, 0, 0, 0, 5, 6, 7, 8, 104, 105, 0, 0]]]"
  "decode_full_state wire_registry (from_packed (butlast small_full_state)) = None"
proof -
  let ?b = "\<lambda>p. \<lparr>buf_data = small_full_state, buf_pos = p\<rparr>" and ?c = "\<lambda>p. \<lparr>buf_data = butlast small_full_state, buf_pos = p\<rparr>"
  have h: "read_u16 (?b 0) = Some (2, ?b 2)" "read_u32 (?b 2) = Some (1, ?b 6)" "read_u64 (?b 6) = Some (1, ?b 14)"
    "read_u16 (?b 14) = Some (1, ?b 16)" "read_u32 (?b 16) = Some (1, ?b 20)"
    "read_version 2 demo_schema (zero_row demo_schema) (?b 20) = (True, [1, 0, 0, 0, 5, 6, 7, 8, 104, 105, 0, 0], ?b 30)" "at_end (?b 30)"
    by code_simp+
  have k: "read_u16 (?c 0) = Some (2, ?c 2)" "read_u32 (?c 2) = Some (1, ?c 6)" "read_u64 (?c 6) = Some (1, ?c 14)"
    "read_u16 (?c 14) = Some (1, ?c 16)" "read_u32 (?c 16) = Some (1, ?c 20)"
    "\<not> fst (read_version 2 demo_schema (zero_row demo_schema) (?c 20))"
    by code_simp+
  have e: "Entity 1 = e1" "\<not> id_refused 1" using e1_id by (auto simp: e1_def make_entity_def)
  have u: "unat (1 :: u32) = Suc 0" "unat (1 :: u16) = Suc 0" by simp_all
  have f: "seek 0 (from_packed bs) = \<lparr>buf_data = bs, buf_pos = 0\<rparr>" for bs by (simp add: from_packed_def seek_def)
  have v: "version_ok 2" by (simp add: version_ok_def SYNC_VERSION_MIN_def SYNC_VERSION_def)
  show "decode_full_state wire_registry (from_packed small_full_state) = Some [e1 \<mapsto> [1 \<mapsto> [1, 0, 0, 0, 5, 6, 7, 8, 104, 105, 0, 0]]]"
    using e v by (simp add: decode_full_state_def f h u wire_registry_ok(1))
  obtain m' b' where "read_version 2 demo_schema (zero_row demo_schema) (?c 20) = (False, m', b')"
    using k(6) by (cases "read_version 2 demo_schema (zero_row demo_schema) (?c 20)") auto
  then show "decode_full_state wire_registry (from_packed (butlast small_full_state)) = None"
    using e v by (simp add: decode_full_state_def f k u wire_registry_ok(1))
qed

theorem full_state_all_or_nothing_witness:
  "content (apply_packet node_env node_iteration FullState (from_packed small_full_state) peer_world)
     = [e1 \<mapsto> [1 \<mapsto> [1, 0, 0, 0, 5, 6, 7, 8, 104, 105, 0, 0]]]
   \<and> apply_packet node_env node_iteration FullState (from_packed (butlast small_full_state)) peer_world = peer_world"
proof -
  have c: "\<not> ns_applying (net_of peer_world)" "ns_world (net_of peer_world)" "ns_strategy (net_of peer_world) \<noteq> None"
    "client_replicated peer_world = {}" "set (it_entities node_iteration (client_replicated peer_world)) = client_replicated peer_world"
    by (simp_all add: client_replicated_def peer_world_ok(4) new_network_sync_def fresh_replication_def node_iteration_def)
  obtain E0 :: "(unit client, unit) env" where E0: "env_registry E0 = wire_registry" "net_env 7 (\<lambda>f ev w. ()) E0 = node_env"
    by (rule node_base)
  have pr: "wf_store (env_registry E0) peer_world" "fitting (env_registry E0)"
    using peer_world_ok(1) wire_registry_ok(3) by (simp_all add: E0)
  note t = full_state_all_or_nothing [OF pr peer_world_ok(3) c(1,5), of 7 "\<lambda>f ev w. ()", unfolded E0]
  show ?thesis
    using t [of "from_packed small_full_state"] t [of "from_packed (butlast small_full_state)"]
    by (simp add: small_full_state_decoded c(2-4) peer_world_ok(2) fun_eq_iff)
qed



end
