(* ===== verification/DeltaApply.thy ===== *)
theory DeltaApply
  imports Delta PacketSafety
begin

text \<open>
  Delta packets on the peer (\<open>VECSSnapshotReplication::apply_delta\<close>): the packet that \<open>build_delta\<close>
  wrote is validated, its records are read back, fields of the buckets that were due take the
  server's values and everything else stays as it was. Records of entities that died locally
  are drained.
\<close>

section \<open>One record\<close>

abbreviation bucket_fields :: "component_schema \<Rightarrow> field_sync_plan \<Rightarrow> nat \<Rightarrow> field_descriptor list" where
  "bucket_fields s plan k \<equiv> selected_from (fp_bucket_masks plan ! k) 0 (cs_fields s)"

definition bucket_merge :: "component_schema \<Rightarrow> field_sync_plan \<Rightarrow> byte list \<Rightarrow> nat list \<Rightarrow> byte list \<Rightarrow> byte list" where
  "bucket_merge s plan row ks old = fold (\<lambda>k. store_fields (bucket_fields s plan k) row) ks old"

definition plan_fits :: "component_schema \<Rightarrow> field_sync_plan \<Rightarrow> nat list \<Rightarrow> bool" where
  "plan_fits s plan ks \<longleftrightarrow> (\<forall>k\<in>set ks. length (fp_bucket_masks plan ! k) = length (cs_fields s))"

lemma bucket_record_read:
  assumes b: "rest b = bucket_record s plan row k @ r" "in_buffer b"
    and m: "length (fp_bucket_masks plan ! k) = length (cs_fields s)" and fit: "fields_fit (cs_fields s) (length row)"
  defines "b1 \<equiv> adv 1 b" and "b2 \<equiv> adv (field_mask_bytes (length (cs_fields s))) (adv 1 b)"
    and "b3 \<equiv> adv (length (bucket_record s plan row k)) b"
  shows "read_u8 b = Some (of_nat k, b1)" "read_field_mask (length (cs_fields s)) b1 = Some (fp_bucket_masks plan ! k, b2)"
    "deserialize_component_fields s old b2 (fp_bucket_masks plan ! k) = (True, store_fields (bucket_fields s plan k) row old, b3)"
    "skip_bytes (serialized_component_fields_size s (fp_bucket_masks plan ! k)) b2 = Some b3"
    "rest b3 = r" "in_buffer b3"
proof -
  let ?m = "fp_bucket_masks plan ! k" and ?fs = "bucket_fields s plan k"
  have ff: "fields_fit ?fs (length row)" by (rule fields_fit_selected [OF fit])
  have r0: "rest b = [of_nat k] @ mask_bytes ?m @ fields_bytes ?fs row @ r" using b(1) by (simp add: bucket_record_def)
  show "read_u8 b = Some (of_nat k, b1)" unfolding b1_def by (rule u8c.rd_enc [OF r0])
  have r1: "rest b1 = mask_bytes ?m @ fields_bytes ?fs row @ r" using r0 by (simp add: b1_def rest_adv)
  show "read_field_mask (length (cs_fields s)) b1 = Some (?m, b2)"
    using read_field_mask_written [OF r1] m by (simp add: b2_def b1_def)
  have b2: "b2 = adv (field_mask_bytes (length (cs_fields s))) b1" by (simp add: b2_def b1_def)
  have i1: "in_buffer b1" using b(2) r0 by (simp add: b1_def in_buffer_adv)
  have i2: "in_buffer b2" using i1 r1 m by (simp add: b2 in_buffer_adv)
  have r2: "rest b2 = fields_bytes ?fs row @ r" using r1 m by (simp add: b2 rest_adv)
  have sz: "length (fields_bytes ?fs row) = sum_list (map field_size ?fs)" by (rule length_fields_bytes [OF ff])
  have b3: "b3 = adv (sum_list (map field_size ?fs)) b2"
    using sz m by (simp add: b3_def b2_def bucket_record_def adv_adv)
  show "deserialize_component_fields s old b2 ?m = (True, store_fields ?fs row old, b3)"
    using read_fields_rest [OF r2 ff] i2 by (simp add: deserialize_component_fields_def read_fields_from_selected b3 in_buffer_def)
  show "skip_bytes (serialized_component_fields_size s ?m) b2 = Some b3"
    using r2 sz by (simp add: skip_bytes_Some [OF i2] serialized_component_fields_size_def fields_size_from_selected b3)
  show "rest b3 = r" using r2 sz by (simp add: b3 rest_adv)
  show "in_buffer b3" using r2 sz by (simp add: b3 in_buffer_adv [OF i2])
qed

lemma bucket_merge_length:
  "fields_fit (cs_fields s) (length row) \<Longrightarrow> length old = length row \<Longrightarrow> length (bucket_merge s plan row ks old) = length row"
  by (induction ks arbitrary: old) (simp_all add: bucket_merge_def length_store_fields fields_fit_selected)

text \<open>The fields of the buckets sent have the sender's value, the others keep theirs.\<close>

lemma bucket_merge_fields:
  assumes "fields_fit (cs_fields s) (length row)" "length old = length row" "i < length (cs_fields s)" "plan_fits s plan ks"
  shows "field_bytes (cs_fields s ! i) (bucket_merge s plan row ks old)
    = field_bytes (cs_fields s ! i) (if \<exists>k\<in>set ks. fp_bucket_masks plan ! k ! i then row else old)"
  using assms
proof (induction ks arbitrary: old)
  case (Cons k ks)
  let ?old = "store_fields (bucket_fields s plan k) row old"
  have l: "length ?old = length row" using Cons.prems(1,2) by (simp add: length_store_fields fields_fit_selected)
  have sk: "mask_skips (fp_bucket_masks plan ! k) i \<longleftrightarrow> \<not> fp_bucket_masks plan ! k ! i"
    using Cons.prems(3,4) by (simp add: mask_skips_def plan_fits_def)
  have "field_bytes (cs_fields s ! i) ?old = field_bytes (cs_fields s ! i) (if fp_bucket_masks plan ! k ! i then row else old)"
    using masked_store_fields [OF Cons.prems(1,2,3), of "fp_bucket_masks plan ! k"] sk by simp
  moreover have "plan_fits s plan ks" using Cons.prems(4) by (simp add: plan_fits_def)
  moreover have "bucket_merge s plan row (k # ks) old = bucket_merge s plan row ks ?old" by (simp add: bucket_merge_def)
  ultimately show ?case using Cons.IH [OF Cons.prems(1) l Cons.prems(3)] by auto
qed (simp add: bucket_merge_def)


section \<open>The records of a component\<close>

definition bucket_records :: "component_schema \<Rightarrow> field_sync_plan \<Rightarrow> byte list \<Rightarrow> nat list \<Rightarrow> byte list" where
  "bucket_records s plan row ks = concat (map (bucket_record s plan row) ks)"

lemma bucket_records_Cons:
  assumes "rest b = bucket_records s plan row (k # ks) @ r" "plan_fits s plan (k # ks)"
  shows "rest b = bucket_record s plan row k @ (bucket_records s plan row ks @ r)"
    "length (fp_bucket_masks plan ! k) = length (cs_fields s)" "plan_fits s plan ks"
    "adv (length (bucket_records s plan row ks)) (adv (length (bucket_record s plan row k)) b)
      = adv (length (bucket_records s plan row (k # ks))) b"
  using assms by (simp_all add: bucket_records_def plan_fits_def adv_adv)

lemma consume_records:
  assumes "rest b = bucket_records s plan row ks @ r" "in_buffer b" "plan_fits s plan ks" "fields_fit (cs_fields s) (length row)"
  shows "consume_delta_records s (length ks) b = Some (adv (length (bucket_records s plan row ks)) b)"
  using assms(1-3)
proof (induction ks arbitrary: b)
  case (Cons k ks)
  note c = bucket_records_Cons [OF Cons.prems(1,3)]
  note br = bucket_record_read [OF c(1) Cons.prems(2) c(2) assms(4)]
  show ?case using Cons.IH [OF br(5,6) c(3)] br(1,2,4) c(4) by simp
qed (simp add: bucket_records_def byte_simps)

text \<open>
  \<open>stays_within s plan ks n\<close>: no record of the buckets \<open>ks\<close> is written past a vector of \<open>n\<close> bytes.
\<close>

definition stays_within :: "component_schema \<Rightarrow> field_sync_plan \<Rightarrow> nat list \<Rightarrow> nat \<Rightarrow> bool" where
  "stays_within s plan ks n \<longleftrightarrow> (\<forall>k\<in>set ks. \<not> writes_past s (fp_bucket_masks plan ! k) n)"

definition drained :: "(nat \<Rightarrow> bool) \<Rightarrow> scratch_vector \<Rightarrow> scratch_vector \<Rightarrow> bool" where
  "drained P sv sv' \<longleftrightarrow> sv_size sv \<le> sv_size sv' \<and> (P (sv_size sv) \<longrightarrow> sv_overrun sv' = sv_overrun sv)"

lemma writes_past_mono: "writes_past s msk n' \<Longrightarrow> n \<le> n' \<Longrightarrow> writes_past s msk n"
  by (auto simp: writes_past_def)

lemma stays_within_mono: "stays_within s plan ks n \<Longrightarrow> n \<le> n' \<Longrightarrow> stays_within s plan ks n'"
  unfolding stays_within_def using writes_past_mono by blast

lemma drained_refl [simp]: "drained P sv sv"
  by (simp add: drained_def)

lemma drained_trans:
  "drained P sv sv1 \<Longrightarrow> drained Q sv1 sv2 \<Longrightarrow> (\<And>n n'. Q n \<Longrightarrow> n \<le> n' \<Longrightarrow> Q n') \<Longrightarrow> drained (\<lambda>n. P n \<and> Q n) sv sv2"
  unfolding drained_def by (meson le_trans)

lemma drain_records:
  assumes "rest b = bucket_records s plan row ks @ r" "in_buffer b" "plan_fits s plan ks" "fields_fit (cs_fields s) (length row)"
  shows "\<exists>sv'. drain_delta_records s (length ks) sv b = (True, sv', adv (length (bucket_records s plan row ks)) b)
    \<and> drained (stays_within s plan ks) sv sv'"
  using assms(1-3)
proof (induction ks arbitrary: b sv)
  case (Cons k ks)
  note c = bucket_records_Cons [OF Cons.prems(1,3)]
  note br = bucket_record_read [OF c(1) Cons.prems(2) c(2) assms(4)]
  let ?b2 = "adv (field_mask_bytes (length (cs_fields s))) (adv 1 b)" and ?m = "fp_bucket_masks plan ! k"
  let ?n = "max (sv_size sv) (serialized_component_fields_size s ?m)"
  let ?sv = "\<lparr>sv_size = ?n, sv_overrun = sv_overrun sv \<or> writes_past s ?m ?n\<rparr>"
  have "\<not> length (buf_data ?b2) < buf_pos ?b2 + serialized_component_fields_size s ?m"
    using br(4) by (simp add: skip_bytes_def split: if_splits)
  then have st: "drain_delta_records s (length (k # ks)) sv b
      = drain_delta_records s (length ks) ?sv (adv (length (bucket_record s plan row k)) b)"
    using br(1-3) by (simp add: Let_def)
  obtain sv' where sv': "drain_delta_records s (length ks) ?sv (adv (length (bucket_record s plan row k)) b)
      = (True, sv', adv (length (bucket_records s plan row (k # ks))) b)" "drained (stays_within s plan ks) ?sv sv'"
    using Cons.IH [OF br(5,6) c(3), of ?sv] c(4) by auto
  have "drained (\<lambda>n. \<not> writes_past s ?m n) sv ?sv" using writes_past_mono [of s ?m ?n] by (auto simp: drained_def)
  then have "drained (\<lambda>n. \<not> writes_past s ?m n \<and> stays_within s plan ks n) sv sv'"
    by (rule drained_trans [OF _ sv'(2)]) (rule stays_within_mono)
  then show ?case using st sv'(1) by (simp add: stays_within_def)
qed (simp add: bucket_records_def byte_simps)

lemma apply_records_of_component:
  assumes "rest b = bucket_records s plan row ks @ r" "in_buffer b" "plan_fits s plan ks" "fields_fit (cs_fields s) (cs_size s)"
    "length row = cs_size s" and reg: "schema_of reg t = Some s"
    and "wf_store reg w" "get_raw w e t = Some dst" "content w e = Some m" "m t = Some old" "length old = cs_size s"
  shows "\<exists>w'. apply_delta_records s (length ks) dst w b = (True, w', adv (length (bucket_records s plan row ks)) b)
    \<and> wf_store reg w' \<and> content w' = (content w)(e \<mapsto> m(t \<mapsto> bucket_merge s plan row ks old)) \<and> ctl w' = ctl w"
  using assms(1-3,7-11)
proof (induction ks arbitrary: b w m old)
  case Nil
  then have "(content w)(e \<mapsto> m(t \<mapsto> old)) = content w" by (auto simp: fun_eq_iff)
  then show ?case using Nil by (simp add: bucket_merge_def bucket_records_def byte_simps del: fun_upd_apply)
next
  case (Cons k ks)
  have fit: "fields_fit (cs_fields s) (length row)" using assms(4,5) by simp
  note c = bucket_records_Cons [OF Cons.prems(1,3)]
  note br = bucket_record_read [OF c(1) Cons.prems(2) c(2) fit]
  let ?old = "store_fields (bucket_fields s plan k) row old" and ?w1 = "store_row dst (store_fields (bucket_fields s plan k) row old) w"
  have l: "load_row w dst = old" using get_raw_content(2) [OF Cons.prems(4,5)] Cons.prems(6,7) by auto
  have v: "length ?old = cs_size s"
    using fields_fit_selected [OF assms(4)] assms(5) Cons.prems(8) by (simp add: length_store_fields)
  note st = store_through [OF Cons.prems(4,5) reg v]
  have g: "get_raw ?w1 e t = Some dst" using st(3) Cons.prems(5) by simp
  have ct: "content ?w1 e = Some (m(t \<mapsto> ?old))" by (simp add: st(2) Cons.prems(6))
  have mt: "(m(t \<mapsto> ?old)) t = Some ?old" by simp
  obtain w' where w': "apply_delta_records s (length ks) dst ?w1 (adv (length (bucket_record s plan row k)) b)
      = (True, w', adv (length (bucket_records s plan row (k # ks))) b)" "wf_store reg w'"
    "content w' = (content ?w1)(e \<mapsto> (m(t \<mapsto> ?old))(t \<mapsto> bucket_merge s plan row ks ?old))" "ctl w' = ctl ?w1"
    using Cons.IH [OF br(5,6) c(3) st(1) g ct mt v] c(4) by (auto simp del: fun_upd_apply)
  have "content w' = (content w)(e \<mapsto> m(t \<mapsto> bucket_merge s plan row (k # ks) old))"
    using w'(3) by (simp add: st(2) bucket_merge_def Cons.prems(6) fun_eq_iff)
  then show ?case using w' br(1-3) l by (intro exI [of _ w']) (simp add: Let_def del: fun_upd_apply)
qed


text \<open>What the records of an entity do to its components; a component it lacks starts zeroed.\<close>

definition merge_cell :: "registry \<Rightarrow> delta_cell \<Rightarrow> (ctype \<rightharpoonup> byte list) \<Rightarrow> (ctype \<rightharpoonup> byte list)" where
  "merge_cell reg c m = (case c of (t, row, ks) \<Rightarrow>
     (let s = the (schema_of reg t) in m(t \<mapsto> bucket_merge s (sync_plan_for reg t) row ks
        (case m t of None \<Rightarrow> zero_row s | Some old \<Rightarrow> old))))"

definition good_cell :: "registry \<Rightarrow> delta_cell \<Rightarrow> bool" where
  "good_cell reg c \<longleftrightarrow> (case c of (t, row, ks) \<Rightarrow> \<exists>s. schema_of reg t = Some s \<and> length row = cs_size s
     \<and> plan_fits s (sync_plan_for reg t) ks \<and> length ks < 256)"

lemma delta_record_read:
  assumes "rest b = delta_record reg (t, row, ks) @ r" "in_buffer b" "schema_of reg t = Some s" "length ks < 256"
  shows "read_u32 b = Some (t, adv 4 b)" "read_u8 (adv 4 b) = Some (of_nat (length ks), adv 1 (adv 4 b))"
    "unat (of_nat (length ks) :: byte) = length ks" "in_buffer (adv 1 (adv 4 b))" "in_buffer (adv 4 b)"
    "rest (adv 1 (adv 4 b)) = bucket_records s (sync_plan_for reg t) row ks @ r"
    "adv (length (bucket_records s (sync_plan_for reg t) row ks)) (adv 1 (adv 4 b)) = adv (length (delta_record reg (t, row, ks))) b"
    "rest (adv (length (delta_record reg (t, row, ks))) b) = r" "in_buffer (adv (length (delta_record reg (t, row, ks))) b)"
proof -
  have r0: "rest b = le32 t @ [of_nat (length ks)] @ bucket_records s (sync_plan_for reg t) row ks @ r"
    using assms(1,3) by (simp add: delta_record_def bucket_records_def)
  show "read_u32 b = Some (t, adv 4 b)" using r0 by (rule u32c.rd_enc)
  have r1: "rest (adv 4 b) = [of_nat (length ks)] @ bucket_records s (sync_plan_for reg t) row ks @ r"
    using r0 by (simp add: rest_adv)
  then show "read_u8 (adv 4 b) = Some (of_nat (length ks), adv 1 (adv 4 b))" by (rule u8c.rd_enc)
  show "unat (of_nat (length ks) :: byte) = length ks" using assms(4) by (simp add: unsigned_of_nat take_bit_nat_eq_self)
  show i4: "in_buffer (adv 4 b)" using assms(2) r0 by (simp add: in_buffer_adv)
  show "in_buffer (adv 1 (adv 4 b))" using r1 by (simp only: in_buffer_adv [OF i4]) simp
  show "rest (adv 1 (adv 4 b)) = bucket_records s (sync_plan_for reg t) row ks @ r"
    using r0 by (simp add: rest_adv)
  show "adv (length (bucket_records s (sync_plan_for reg t) row ks)) (adv 1 (adv 4 b)) = adv (length (delta_record reg (t, row, ks))) b"
    using assms(3) by (simp add: delta_record_def bucket_records_def adv_adv)
  show "rest (adv (length (delta_record reg (t, row, ks))) b) = r"
    "in_buffer (adv (length (delta_record reg (t, row, ks))) b)"
    using assms(1) by (simp_all add: rest_adv in_buffer_adv [OF assms(2)])
qed

lemma component_present:
  assumes wf: "wf_store (env_registry E) w" and p: "passive_env E" and m: "content w e = Some m"
    and s: "schema_of (env_registry E) t = Some s" and md: "open_mode w"
  defines "old \<equiv> (case m t of None \<Rightarrow> zero_row s | Some old \<Rightarrow> old)"
    and "w1 \<equiv> (if \<not> has w e t then add_raw E e t None w else w)"
  shows "\<exists>dst. get_raw w1 e t = Some dst \<and> wf_store (env_registry E) w1 \<and> content w1 = (content w)(e \<mapsto> m(t \<mapsto> old))
    \<and> ctl w1 = ctl w \<and> length old = cs_size s"
proof (cases "m t")
  case None
  then have h: "\<not> has w e t" using m by (simp add: has_content [OF wf])
  obtain l where l: "location_of w e = Some l" using m by (auto simp: content_Some)
  have md': "\<not> w_defer_moves w" "\<not> in_iteration w" using md by (simp_all add: open_mode_def)
  note ac = add_raw_content [OF wf p l s md', of None, simplified]
  have wf1: "wf_store (env_registry E) (add_raw E e t None w)" by (rule add_raw_wf [OF wf passive_keeps [OF p]])
  have c: "content (add_raw E e t None w) = (content w)(e \<mapsto> m(t \<mapsto> zero_row s))"
    using ac(1) m by (simp add: zero_row_def value_bytes_def)
  have "get_raw (add_raw E e t None w) e t \<noteq> None"
    using get_raw_content(1) [OF wf1, of e t] has_content [OF wf1, of e t] c by simp
  then show ?thesis using h wf1 c ac(2) None by (auto simp: w1_def old_def zero_row_def simp del: fun_upd_apply)
next
  case (Some v)
  then have h: "has w e t" using m by (simp add: has_content [OF wf])
  then obtain dst where "get_raw w e t = Some dst" using get_raw_content(1) [OF wf, of e t] by (cases "get_raw w e t") auto
  moreover have "length v = cs_size s" using content_length [OF wf m Some] s by auto
  moreover have "(content w)(e \<mapsto> m(t \<mapsto> v)) = content w" using m Some by (auto simp: fun_eq_iff)
  ultimately show ?thesis using h wf Some by (intro exI [of _ dst]) (simp add: w1_def old_def del: fun_upd_apply)
qed


text \<open>A cell of a dead entity moves the cursor and grows the scratch vector, nothing else.\<close>

abbreviation cell_within :: "registry \<Rightarrow> delta_cell \<Rightarrow> nat \<Rightarrow> bool" where
  "cell_within reg c n \<equiv> stays_within (the (schema_of reg (fst c))) (sync_plan_for reg (fst c)) (snd (snd c)) n"

definition keeps_scratch :: "('c client, 'v) env \<Rightarrow> bool" where
  "keeps_scratch E \<longleftrightarrow> (\<forall>sv. keeps_client (\<lambda>c. cl_scratch c = sv) E)"

lemma add_raw_scratch: "keeps_scratch E \<Longrightarrow> scratch_of (add_raw E e t d w) = scratch_of w"
proof -
  assume "keeps_scratch E"
  then have "client_guard (\<lambda>c. cl_scratch c = cl_scratch (w_client w)) E"
    unfolding keeps_scratch_def by (intro client_guard.intro) (rule spec)
  from client_guard.add_raw_client [OF this refl] show ?thesis unfolding scratch_of_def .
qed

lemma apply_delta_records_scratch:
  "apply_delta_records s k dst w b = (ok, w', b') \<Longrightarrow> scratch_of w' = scratch_of w"
  using apply_delta_records_client [of s k dst w b] by (simp add: scratch_of_def)

lemma apply_cell:
  fixes E :: "('c client, 'v) env" and w :: "'c client world"
  assumes b: "rest b = delta_record (env_registry E) (t, row, ks) @ r" "in_buffer b"
    and g: "good_cell (env_registry E) (t, row, ks)" and fit: "fitting (env_registry E)"
    and s: "schema_of (env_registry E) t = Some s" and wf: "wf_store (env_registry E) w" and p: "passive_env E" and md: "open_mode w"
    and ks: "keeps_scratch E"
  defines "b' \<equiv> adv (length (delta_record (env_registry E) (t, row, ks))) b"
  shows "consume_delta_component_v2 s (adv 4 b) = Some b'"
    "content w e = None \<Longrightarrow> \<exists>sv. apply_delta_component_v2 E s e t w (adv 4 b) = (True, set_scratch sv w, b')
       \<and> drained (cell_within (env_registry E) (t, row, ks)) (scratch_of w) sv"
    "content w e = Some m \<Longrightarrow> \<exists>w'. apply_delta_component_v2 E s e t w (adv 4 b) = (True, w', b') \<and> wf_store (env_registry E) w'
       \<and> content w' = (content w)(e \<mapsto> merge_cell (env_registry E) (t, row, ks) m) \<and> ctl w' = ctl w
       \<and> scratch_of w' = scratch_of w"
proof -
  let ?reg = "env_registry E" and ?plan = "sync_plan_for (env_registry E) t"
  have gc: "length row = cs_size s" "plan_fits s ?plan ks" "length ks < 256" using g s by (auto simp: good_cell_def)
  have fs: "fields_fit (cs_fields s) (cs_size s)" using fit s by (simp add: fitting_def)
  have fr: "fields_fit (cs_fields s) (length row)" using fs gc(1) by simp
  note dr = delta_record_read [OF b s gc(3), folded b'_def]
  show "consume_delta_component_v2 s (adv 4 b) = Some b'"
    using consume_records [OF dr(6,4) gc(2) fr] dr(2,3,7) by (simp add: consume_delta_component_v2_def)
  have al: "is_alive w e \<longleftrightarrow> content w e \<noteq> None" by (rule is_alive_content [OF wf])
  show "\<exists>sv. apply_delta_component_v2 E s e t w (adv 4 b) = (True, set_scratch sv w, b')
       \<and> drained (cell_within ?reg (t, row, ks)) (scratch_of w) sv" if "content w e = None"
    using that al drain_records [OF dr(6,4) gc(2) fr, of "scratch_of w"] dr(2,3,7) s by (auto simp: apply_delta_component_v2_def)
  show "\<exists>w'. apply_delta_component_v2 E s e t w (adv 4 b) = (True, w', b') \<and> wf_store ?reg w'
       \<and> content w' = (content w)(e \<mapsto> merge_cell ?reg (t, row, ks) m) \<and> ctl w' = ctl w
       \<and> scratch_of w' = scratch_of w" if m: "content w e = Some m"
  proof -
    let ?old = "case m t of None \<Rightarrow> zero_row s | Some old \<Rightarrow> old" and ?w1 = "if \<not> has w e t then add_raw E e t None w else w"
    obtain dst where d: "get_raw ?w1 e t = Some dst" "wf_store ?reg ?w1" "content ?w1 = (content w)(e \<mapsto> m(t \<mapsto> ?old))"
      "ctl ?w1 = ctl w" "length ?old = cs_size s"
      using component_present [OF wf p m s md] by blast
    have c1: "content ?w1 e = Some (m(t \<mapsto> ?old))" "(m(t \<mapsto> ?old)) t = Some ?old" by (simp_all add: d(3))
    obtain w' where w': "apply_delta_records s (length ks) dst ?w1 (adv 1 (adv 4 b)) = (True, w', b')" "wf_store ?reg w'"
      "content w' = (content ?w1)(e \<mapsto> (m(t \<mapsto> ?old))(t \<mapsto> bucket_merge s ?plan row ks ?old))" "ctl w' = ctl ?w1"
      using apply_records_of_component [OF dr(6,4) gc(2) fs gc(1) s d(2,1) c1 d(5), unfolded dr(7)] by blast
    have "content w' = (content w)(e \<mapsto> merge_cell ?reg (t, row, ks) m)"
      by (simp only: w'(3) d(3) merge_cell_def s prod.case Let_def option.sel fun_upd_upd)
    moreover have "scratch_of w' = scratch_of w"
      using apply_delta_records_scratch [OF w'(1)] add_raw_scratch [OF ks] by simp
    ultimately show ?thesis using w'(1,2,4) d(1,4) dr(2,3) al m
      by (intro exI [of _ w']) (simp add: apply_delta_component_v2_def Let_def del: fun_upd_apply)
  qed
qed


section \<open>The components of an entity and the entities of a packet\<close>

abbreviation cells_bytes :: "registry \<Rightarrow> delta_cell list \<Rightarrow> byte list" where
  "cells_bytes reg cells \<equiv> concat (map (delta_record reg) cells)"

abbreviation cells_within :: "registry \<Rightarrow> delta_cell list \<Rightarrow> nat \<Rightarrow> bool" where
  "cells_within reg cells n \<equiv> list_all (\<lambda>c. cell_within reg c n) cells"

lemma apply_cells:
  fixes E :: "('c client, 'v) env" and w :: "'c client world"
  assumes "rest b = cells_bytes (env_registry E) cells @ r" "in_buffer b"
    and "list_all (good_cell (env_registry E)) cells" and fit: "fitting (env_registry E)"
    and wf: "wf_store (env_registry E) w" and p: "passive_env E" and md: "open_mode w" and ks: "keeps_scratch E"
  shows "skip_components (env_registry E) consume_delta_component_v2 (length cells) b
      = Some (adv (length (cells_bytes (env_registry E) cells)) b)"
    and "content w e = None \<Longrightarrow> \<exists>sv. apply_delta_components E 2 (length cells) e w b
      = (True, set_scratch sv w, adv (length (cells_bytes (env_registry E) cells)) b)
      \<and> drained (cells_within (env_registry E) cells) (scratch_of w) sv"
    and "content w e = Some m \<Longrightarrow> \<exists>w'. apply_delta_components E 2 (length cells) e w b
      = (True, w', adv (length (cells_bytes (env_registry E) cells)) b) \<and> wf_store (env_registry E) w'
      \<and> content w' = (content w)(e \<mapsto> fold (merge_cell (env_registry E)) cells m) \<and> ctl w' = ctl w
      \<and> scratch_of w' = scratch_of w"
proof -
  let ?reg = "env_registry E"
  have step: "\<exists>t row ks s. c = (t, row, ks) \<and> schema_of ?reg t = Some s" if "good_cell ?reg c" for c
    using that by (cases c) (auto simp: good_cell_def)
  show "skip_components ?reg consume_delta_component_v2 (length cells) b = Some (adv (length (cells_bytes ?reg cells)) b)"
    using assms(1-3)
  proof (induction cells arbitrary: b)
    case (Cons c cells)
    have gc: "good_cell ?reg c" using Cons.prems(3) by simp
    from step [OF this] obtain t row ks s where c: "c = (t, row, ks)" "schema_of ?reg t = Some s" by blast
    have k: "rest b = delta_record ?reg (t, row, ks) @ cells_bytes ?reg cells @ r" "good_cell ?reg (t, row, ks)" "length ks < 256"
      using Cons.prems(1) gc c by (simp_all add: good_cell_def)
    note ap = apply_cell [OF k(1) Cons.prems(2) k(2) fit c(2) wf p md ks]
    note dr = delta_record_read [OF k(1) Cons.prems(2) c(2) k(3)]
    show ?case using Cons.IH [OF dr(8,9)] Cons.prems(3) dr(1) ap(1) c by (simp add: adv_adv)
  qed (simp add: byte_simps)
  show "\<exists>sv. apply_delta_components E 2 (length cells) e w b = (True, set_scratch sv w, adv (length (cells_bytes ?reg cells)) b)
      \<and> drained (cells_within ?reg cells) (scratch_of w) sv" if n: "content w e = None"
    using assms(1-3) wf md n
  proof (induction cells arbitrary: b w)
    case (Cons c cells)
    have gc: "good_cell ?reg c" using Cons.prems(3) by simp
    from step [OF this] obtain t row ks' s where c: "c = (t, row, ks')" "schema_of ?reg t = Some s" by blast
    have k: "rest b = delta_record ?reg (t, row, ks') @ cells_bytes ?reg cells @ r" "good_cell ?reg (t, row, ks')" "length ks' < 256"
      using Cons.prems(1) gc c by (simp_all add: good_cell_def)
    obtain sv where sv: "apply_delta_component_v2 E s e t w (adv 4 b) = (True, set_scratch sv w, adv (length (delta_record ?reg c)) b)"
      "drained (cell_within ?reg c) (scratch_of w) sv"
      using apply_cell(2) [OF k(1) Cons.prems(2) k(2) fit c(2) Cons.prems(4) p Cons.prems(5) ks Cons.prems(6)] unfolding c(1) by blast
    note dr = delta_record_read [OF k(1) Cons.prems(2) c(2) k(3)]
    let ?w1 = "set_scratch sv w"
    have w1: "wf_store ?reg ?w1" "open_mode ?w1" "content ?w1 e = None" "list_all (good_cell ?reg) cells"
      using Cons.prems(3-6) by (simp_all add: set_scratch_wf)
    obtain sv' where sv': "apply_delta_components E 2 (length cells) e ?w1 (adv (length (delta_record ?reg c)) b)
        = (True, set_scratch sv' ?w1, adv (length (cells_bytes ?reg cells)) (adv (length (delta_record ?reg c)) b))"
      "drained (cells_within ?reg cells) sv sv'"
      using Cons.IH [OF dr(8,9) [folded c(1)] w1(4,1-3)] by auto
    have "set_scratch sv' ?w1 = set_scratch sv' w" by (simp add: set_scratch_def)
    moreover have "drained (\<lambda>n. cell_within ?reg c n \<and> cells_within ?reg cells n) (scratch_of w) sv'"
      by (rule drained_trans [OF sv(2) sv'(2)]) (auto simp: list_all_iff intro: stays_within_mono)
    ultimately show ?case using sv(1) sv'(1) dr(1) c by (intro exI [of _ sv']) (simp add: adv_adv)
  next
    case Nil
    have "set_scratch (scratch_of w) w = w" for w :: "'c client world" by (simp add: set_scratch_def scratch_of_def)
    then show ?case by (intro exI [of _ "scratch_of w"]) (simp add: byte_simps)
  qed
  show "\<exists>w'. apply_delta_components E 2 (length cells) e w b = (True, w', adv (length (cells_bytes ?reg cells)) b)
      \<and> wf_store ?reg w' \<and> content w' = (content w)(e \<mapsto> fold (merge_cell ?reg) cells m) \<and> ctl w' = ctl w \<and> scratch_of w' = scratch_of w"
    if m: "content w e = Some m"
    using assms(1-3) wf md m
  proof (induction cells arbitrary: b w m)
    case Nil
    then have "(content w)(e \<mapsto> m) = content w" by (auto simp: fun_eq_iff)
    then show ?case using Nil by (simp add: byte_simps del: fun_upd_apply)
  next
    case (Cons c cells)
    have gc: "good_cell ?reg c" using Cons.prems(3) by simp
    from step [OF this] obtain t row ks s where c: "c = (t, row, ks)" "schema_of ?reg t = Some s" by blast
    have k: "rest b = delta_record ?reg (t, row, ks) @ cells_bytes ?reg cells @ r" "good_cell ?reg (t, row, ks)" "length ks < 256"
      using Cons.prems(1) gc c by (simp_all add: good_cell_def)
    note dr = delta_record_read [OF k(1) Cons.prems(2) c(2) k(3)]
    obtain w1 where w1: "apply_delta_component_v2 E s e t w (adv 4 b) = (True, w1, adv (length (delta_record ?reg c)) b)"
      "wf_store ?reg w1" "content w1 = (content w)(e \<mapsto> merge_cell ?reg c m)" "ctl w1 = ctl w" "scratch_of w1 = scratch_of w"
      using apply_cell(3) [OF k(1) Cons.prems(2) k(2) fit c(2) Cons.prems(4) p Cons.prems(5) assms(8) Cons.prems(6)] unfolding c(1) by blast
    have o1: "open_mode w1" using open_mode_ctl [OF w1(4)] Cons.prems(5) by simp
    have m1: "content w1 e = Some (merge_cell ?reg c m)" by (simp add: w1(3))
    have gs: "list_all (good_cell ?reg) cells" using Cons.prems(3) by simp
    obtain w' where w': "apply_delta_components E 2 (length cells) e w1 (adv (length (delta_record ?reg c)) b)
        = (True, w', adv (length (cells_bytes ?reg cells)) (adv (length (delta_record ?reg c)) b))" "wf_store ?reg w'"
      "content w' = (content w1)(e \<mapsto> fold (merge_cell ?reg) cells (merge_cell ?reg c m))" "ctl w' = ctl w1" "scratch_of w' = scratch_of w1"
      using Cons.IH [OF dr(8,9) [folded c(1)] gs w1(2) o1 m1] by blast
    have "content w' = (content w)(e \<mapsto> fold (merge_cell ?reg) (c # cells) m)"
      by (simp only: w'(3) w1(3) fold_Cons comp_apply fun_upd_upd)
    then show ?case using w' w1(1,4,5) dr(1) c
      by (intro exI [of _ w']) (simp add: adv_adv del: fun_upd_apply)
  qed
qed


definition good_delta :: "registry \<Rightarrow> delta_block \<Rightarrow> bool" where
  "good_delta reg x \<longleftrightarrow> list_all (good_cell reg) (snd x) \<and> length (snd x) < 256"

lemma delta_entity_read:
  assumes "rest b = delta_entity_record reg x @ r" "in_buffer b" "length (snd x) < 256"
  defines "b2 \<equiv> adv 1 (adv 8 b)"
  shows "read_u64 b = Some (eid (fst x), adv 8 b)" "read_u8 (adv 8 b) = Some (of_nat (length (snd x)), b2)"
    "unat (of_nat (length (snd x)) :: byte) = length (snd x)" "in_buffer b2" "rest b2 = cells_bytes reg (snd x) @ r"
    "adv (length (cells_bytes reg (snd x))) b2 = adv (length (delta_entity_record reg x)) b"
    "rest (adv (length (delta_entity_record reg x)) b) = r" "in_buffer (adv (length (delta_entity_record reg x)) b)"
proof -
  have r0: "rest b = le64 (eid (fst x)) @ [of_nat (length (snd x))] @ cells_bytes reg (snd x) @ r"
    using assms(1) by (simp add: delta_entity_record_def)
  then show "read_u64 b = Some (eid (fst x), adv 8 b)" by (rule u64c.rd_enc)
  have r1: "rest (adv 8 b) = [of_nat (length (snd x))] @ cells_bytes reg (snd x) @ r" using r0 by (simp add: rest_adv)
  then show "read_u8 (adv 8 b) = Some (of_nat (length (snd x)), b2)" unfolding b2_def by (rule u8c.rd_enc)
  show "unat (of_nat (length (snd x)) :: byte) = length (snd x)" using assms(3) by (simp add: unsigned_of_nat take_bit_nat_eq_self)
  have i1: "in_buffer (adv 8 b)" using assms(2) r0 by (simp add: in_buffer_adv)
  then show "in_buffer b2" using r1 unfolding b2_def by (simp only: in_buffer_adv [OF i1]) simp
  show "rest b2 = cells_bytes reg (snd x) @ r" unfolding b2_def using r0 by (simp add: rest_adv)
  show "adv (length (cells_bytes reg (snd x))) b2 = adv (length (delta_entity_record reg x)) b"
    by (simp add: b2_def delta_entity_record_def adv_adv)
  show "rest (adv (length (delta_entity_record reg x)) b) = r" "in_buffer (adv (length (delta_entity_record reg x)) b)"
    using assms(1) by (simp_all add: rest_adv in_buffer_adv [OF assms(2)])
qed

lemma consume_blocks:
  fixes E :: "('c client, 'v) env" and w :: "'c client world"
  assumes "rest b = concat (map (delta_entity_record (env_registry E)) xs) @ r" "in_buffer b"
    and "list_all (good_delta (env_registry E)) xs" and fit: "fitting (env_registry E)"
    and wf: "wf_store (env_registry E) w" and p: "passive_env E" and md: "open_mode w" and ks: "keeps_scratch E"
  shows "consume_delta_entities (env_registry E) 2 (length xs) b
    = Some (adv (length (concat (map (delta_entity_record (env_registry E)) xs))) b)"
  using assms(1-3)
proof (induction xs arbitrary: b)
  case (Cons x xs)
  let ?reg = "env_registry E"
  have g: "list_all (good_cell ?reg) (snd x)" "length (snd x) < 256" using Cons.prems(3) by (simp_all add: good_delta_def)
  have k: "rest b = delta_entity_record ?reg x @ concat (map (delta_entity_record ?reg) xs) @ r" using Cons.prems(1) by simp
  note de = delta_entity_read [OF k Cons.prems(2) g(2)]
  note ap = apply_cells(1) [OF de(5,4) g(1) fit wf p md ks]
  show ?case using Cons.IH [OF de(7,8)] Cons.prems(3) de(1-3,6) ap by (simp add: adv_adv)
qed (simp add: byte_simps)

lemma apply_blocks:
  fixes E :: "('c client, 'v) env"
  assumes "rest b = concat (map (delta_entity_record (env_registry E)) xs) @ r" "in_buffer b"
    and "list_all (good_delta (env_registry E)) xs" "distinct (map fst xs)" and fit: "fitting (env_registry E)"
    and "wf_store (env_registry E) w" and p: "passive_env E" and "open_mode w" and ks: "keeps_scratch E"
  shows "wf_store (env_registry E) (apply_delta_entities E 2 (length xs) w b)"
    "content (apply_delta_entities E 2 (length xs) w b) = (\<lambda>e. case map_of xs e of None \<Rightarrow> content w e
       | Some cells \<Rightarrow> map_option (fold (merge_cell (env_registry E)) cells) (content w e))"
    "\<forall>x\<in>set xs. content w (fst x) = None \<longrightarrow> cells_within (env_registry E) (snd x) (sv_size (scratch_of w))
      \<Longrightarrow> sv_overrun (scratch_of (apply_delta_entities E 2 (length xs) w b)) = sv_overrun (scratch_of w)"
proof -
  let ?reg = "env_registry E"
  have "wf_store ?reg (apply_delta_entities E 2 (length xs) w b)
    \<and> content (apply_delta_entities E 2 (length xs) w b) = (\<lambda>e. case map_of xs e of None \<Rightarrow> content w e
       | Some cells \<Rightarrow> map_option (fold (merge_cell ?reg) cells) (content w e))
    \<and> ((\<forall>x\<in>set xs. content w (fst x) = None \<longrightarrow> cells_within ?reg (snd x) (sv_size (scratch_of w)))
        \<longrightarrow> sv_overrun (scratch_of (apply_delta_entities E 2 (length xs) w b)) = sv_overrun (scratch_of w))"
    using assms(1-4,6,8)
  proof (induction xs arbitrary: b w)
    case (Cons x xs)
    have g: "list_all (good_cell ?reg) (snd x)" "length (snd x) < 256" using Cons.prems(3) by (simp_all add: good_delta_def)
    have k: "rest b = delta_entity_record ?reg x @ concat (map (delta_entity_record ?reg) xs) @ r" using Cons.prems(1) by simp
    note de = delta_entity_read [OF k Cons.prems(2) g(2)]
    note ap = apply_cells(2,3) [OF de(5,4) g(1) fit Cons.prems(5) p Cons.prems(6) ks]
    let ?e = "Entity (eid (fst x))" and ?b = "adv (length (delta_entity_record ?reg x)) b"
    have e: "?e = fst x" by (cases "fst x") simp
    let ?safe = "\<lambda>n. content w (fst x) = None \<longrightarrow> cells_within ?reg (snd x) n"
    obtain w1 where w1: "apply_delta_components E 2 (length (snd x)) (fst x) w (adv 1 (adv 8 b)) = (True, w1, ?b)"
      "wf_store ?reg w1" "content w1 = (content w)(fst x := map_option (fold (merge_cell ?reg) (snd x)) (content w (fst x)))" "open_mode w1"
      "drained ?safe (scratch_of w) (scratch_of w1)"
    proof (cases "content w (fst x)")
      case None
      then have "(content w)(fst x := map_option (fold (merge_cell ?reg) (snd x)) (content w (fst x))) = content w"
        by (auto simp: fun_eq_iff)
      moreover obtain sv where "apply_delta_components E 2 (length (snd x)) (fst x) w (adv 1 (adv 8 b)) = (True, set_scratch sv w, ?b)"
        "drained (cells_within ?reg (snd x)) (scratch_of w) sv" using ap(1) [OF None] de(6) by auto
      ultimately show ?thesis using that [of "set_scratch sv w"] Cons.prems(5,6) None by (simp add: set_scratch_wf)
    next
      case (Some m)
      obtain w1 where w1: "apply_delta_components E 2 (length (snd x)) (fst x) w (adv 1 (adv 8 b)) = (True, w1, ?b)"
        "wf_store ?reg w1" "content w1 = (content w)(fst x \<mapsto> fold (merge_cell ?reg) (snd x) m)" "ctl w1 = ctl w"
        "scratch_of w1 = scratch_of w"
        using ap(2) [OF Some] unfolding de(6) by blast
      show ?thesis using that [OF w1(1,2)] w1(3,5) open_mode_ctl [OF w1(4)] Cons.prems(6) Some by (simp del: fun_upd_apply)
    qed
    define w2 where "w2 = (if is_alive w1 ?e then update_replication (add_replicated ?e) w1 else w1)"
    have w2: "wf_store ?reg w2" "open_mode w2" "content w2 = content w1" "scratch_of w2 = scratch_of w1"
      using w1(2,4) by (simp_all add: w2_def update_replicated scratch_of_def scratch_kept)
    have st: "apply_delta_entities E 2 (length (x # xs)) w b = apply_delta_entities E 2 (length xs) w2 ?b"
      using de(1-3) w1(1) e by (simp add: w2_def)
    have xs: "list_all (good_delta ?reg) xs" "distinct (map fst xs)" "fst x \<notin> fst ` set xs" using Cons.prems(3,4) by auto
    note ih = Cons.IH [OF de(7,8) xs(1,2) w2(1,2)]
    have n: "map_of xs (fst x) = None" using xs(3) by (simp add: map_of_eq_None_iff)
    have sc: "sv_overrun (scratch_of (apply_delta_entities E 2 (length xs) w2 ?b)) = sv_overrun (scratch_of w)"
      if q: "\<forall>y\<in>set (x # xs). content w (fst y) = None \<longrightarrow> cells_within ?reg (snd y) (sv_size (scratch_of w))"
    proof -
      have g: "sv_size (scratch_of w) \<le> sv_size (scratch_of w2)" "sv_overrun (scratch_of w2) = sv_overrun (scratch_of w)"
        using w1(5) q by (auto simp: w2(4) drained_def)
      have "cells_within ?reg (snd y) (sv_size (scratch_of w2))" if "y \<in> set xs" "content w2 (fst y) = None" for y
      proof -
        have "content w (fst y) = None" using that(2) by (auto simp: w2(3) w1(3) split: if_splits)
        then show ?thesis using q that(1) stays_within_mono [OF _ g(1)] by (auto simp: list_all_iff)
      qed
      then show ?thesis using ih g(2) by simp
    qed
    have ct: "content (apply_delta_entities E 2 (length xs) w2 ?b) = (\<lambda>e. case map_of (x # xs) e of None \<Rightarrow> content w e
       | Some cells \<Rightarrow> map_option (fold (merge_cell ?reg) cells) (content w e))"
      using ih n by (cases x) (auto simp: fun_eq_iff w2(3) w1(3) split: option.split)
    show ?case unfolding st using ih ct sc by blast
  qed simp
  then show "wf_store ?reg (apply_delta_entities E 2 (length xs) w b)"
    "content (apply_delta_entities E 2 (length xs) w b) = (\<lambda>e. case map_of xs e of None \<Rightarrow> content w e
       | Some cells \<Rightarrow> map_option (fold (merge_cell ?reg) cells) (content w e))"
    "\<forall>x\<in>set xs. content w (fst x) = None \<longrightarrow> cells_within (env_registry E) (snd x) (sv_size (scratch_of w))
      \<Longrightarrow> sv_overrun (scratch_of (apply_delta_entities E 2 (length xs) w b)) = sv_overrun (scratch_of w)" by blast+
qed


section \<open>From the server to the peer\<close>

lemma merge_cells:
  "distinct (map fst cells) \<Longrightarrow> fold (merge_cell reg) cells m t = (case map_of cells t of None \<Rightarrow> m t
     | Some (row, ks) \<Rightarrow> Some (bucket_merge (the (schema_of reg t)) (sync_plan_for reg t) row ks
         (case m t of None \<Rightarrow> zero_row (the (schema_of reg t)) | Some old \<Rightarrow> old)))"
proof (induction cells arbitrary: m)
  case (Cons c cells)
  obtain t' row ks where c: "c = (t', row, ks)" by (cases c)
  have "map_of cells t' = None" using Cons.prems c by (simp add: map_of_eq_None_iff)
  then show ?case using Cons c by (cases "t = t'") (simp_all add: merge_cell_def Let_def cong: option.case_cong)
qed simp

lemma dirty_cells:
  assumes wf: "wf_store reg w" and it: "visits_once it" and x: "(e, cells) \<in> set (dirty_blocks reg it w rp)"
  shows "distinct (map fst cells)" "good_delta reg (e, cells) \<or> 256 \<le> card (dirty_types rp e)"
    "(t, row, ks) \<in> set cells \<Longrightarrow> row = load_row w (the (get_raw w e t)) \<and> ks = due reg (rp_elapsed_time rp) (rp_next_send_tick rp) e t
       \<and> (\<exists>s m. schema_of reg t = Some s \<and> content w e = Some m \<and> m t = Some row)"
proof -
  let ?ts = "it_types it (dirty_types rp e)" and ?nx = "rp_next_send_tick rp" and ?now = "rp_elapsed_time rp"
  have cells: "cells = delta_cells reg w ?now ?nx e ?ts"
    using x by (auto simp: dirty_blocks_def delta_blocks_def delta_block_def sends_def split: if_splits)
  have ts: "set ?ts = dirty_types rp e" "distinct ?ts" using it by (simp_all add: visits_once_def)
  have f: "map fst cells = filter (\<lambda>t. sendable reg w e t \<and> due reg ?now ?nx e t \<noteq> []) ?ts"
    by (simp add: cells delta_cells_def comp_def delta_cell_def)
  then show "distinct (map fst cells)" using ts(2) by simp
  have row: "row = load_row w (the (get_raw w e t)) \<and> ks = due reg ?now ?nx e t
       \<and> (\<exists>s m. schema_of reg t = Some s \<and> content w e = Some m \<and> m t = Some row \<and> length row = cs_size s)"
    if c: "(t, row, ks) \<in> set cells" for t row ks
  proof -
    have r: "row = load_row w (the (get_raw w e t))" "ks = due reg ?now ?nx e t" "has w e t"
      using c by (auto simp: cells delta_cells_def delta_cell_def sendable_def)
    then obtain dst where d: "get_raw w e t = Some dst" using get_raw_content(1) [OF wf, of e t] by (cases "get_raw w e t") auto
    obtain m where m: "content w e = Some m" "m t = Some (load_row w dst)" using get_raw_content(2) [OF wf d] by blast
    show ?thesis using content_length [OF wf m] m r d by auto
  qed
  then show "(t, row, ks) \<in> set cells \<Longrightarrow> row = load_row w (the (get_raw w e t)) \<and> ks = due reg ?now ?nx e t
       \<and> (\<exists>s m. schema_of reg t = Some s \<and> content w e = Some m \<and> m t = Some row)" by blast
  have "good_cell reg (t, row, ks)" if c: "(t, row, ks) \<in> set cells" for t row ks
  proof -
    obtain s where s: "schema_of reg t = Some s" "length row = cs_size s" "ks = due reg ?now ?nx e t" using row [OF c] by blast
    have "plan_fits s (sync_plan_for reg t) ks"
      using s(1) by (auto simp: s(3) plan_fits_def due_def due_buckets_def sync_plan_for_def Let_def bucket_mask_def)
    moreover have "length ks < 256" using length_due [of reg ?now ?nx e t] by (simp add: s(3))
    ultimately show ?thesis using s by (simp add: good_cell_def)
  qed
  then have "list_all (good_cell reg) cells" by (force simp: list_all_iff)
  moreover have "length cells \<le> card (dirty_types rp e)"
    using arg_cong [OF f, of length] length_filter_le [of "\<lambda>t. sendable reg w e t \<and> due reg ?now ?nx e t \<noteq> []" ?ts]
      distinct_card [OF ts(2)] ts(1) by simp
  ultimately show "good_delta reg (e, cells) \<or> 256 \<le> card (dirty_types rp e)" by (auto simp: good_delta_def)
qed


lemma delta_packet_read:
  fixes w :: "'u world" and w0 :: "'c client world" and F :: "('c client, 'e) env" and it :: iteration and rp :: replication
  defines "bl \<equiv> dirty_blocks (env_registry F) it w rp" and "d \<equiv> snd (build_delta (env_registry F) it w rp)"
  assumes wf: "wf_world (env_registry F) w" and it: "visits_once it" and few: "\<forall>e. card (dirty_types rp e) < 256"
    and fit: "fitting (env_registry F)" and ne: "bl \<noteq> []"
    and peer: "wf_store (env_registry F) w0" "passive_env F" "open_mode w0" "keeps_scratch F"
  obtains b1 n b2 where "read_u16 (seek 0 d) = Some (2, b1)" "read_u32 b1 = Some (n, b2)"
    "unat n = length bl" "in_buffer b2" "rest b2 = concat (map (delta_entity_record (env_registry F)) bl) @ []"
    "list_all (good_delta (env_registry F)) bl" "distinct (map fst bl)" "validate_packet (env_registry F) d Delta"
proof -
  let ?reg = "env_registry F"
  have st: "wf_store ?reg w" using wf by (simp add: wf_world_def)
  note fb = dirty_blocks_few [OF wf it, where rp = rp, folded bl_def]
  have n: "unat (of_nat (length bl) :: u32) = length bl" by (rule of_nat_u32 [OF fb(1)])
  then have nz: "(of_nat (length bl) :: u32) \<noteq> 0" using ne by (metis length_0_conv unsigned_0)
  obtain b where b: "buf_data b = le16 2 @ le32 0 @ concat (map (delta_entity_record ?reg) bl)"
    "d = finish_counted 2 (b, of_nat (length bl))"
    using build_delta_state(2) [OF st fit it few] unfolding bl_def d_def by blast
  have data: "buf_data d = le16 2 @ le32 (of_nat (length bl)) @ concat (map (delta_entity_record ?reg) bl)"
    using finish_counted_data [OF b(1) nz] by (simp add: b(2))
  have r0: "rest (seek 0 d) = le16 2 @ le32 (of_nat (length bl)) @ concat (map (delta_entity_record ?reg) bl) @ []"
    and i0: "in_buffer (seek 0 d)" using data by (simp_all add: seek_start)
  have 1: "read_u16 (seek 0 d) = Some (2, adv 2 (seek 0 d))" using r0 by (rule u16c.rd_enc)
  have r1: "rest (adv 2 (seek 0 d)) = le32 (of_nat (length bl)) @ concat (map (delta_entity_record ?reg) bl) @ []"
    using r0 by (simp add: rest_adv)
  let ?b2 = "adv 4 (adv 2 (seek 0 d))"
  have 2: "read_u32 (adv 2 (seek 0 d)) = Some (of_nat (length bl), ?b2)" using r1 by (rule u32c.rd_enc)
  have r2: "rest ?b2 = concat (map (delta_entity_record ?reg) bl) @ []" using r1 by (simp add: rest_adv)
  have i2: "in_buffer ?b2" using i0 r0 by (simp add: in_buffer_adv byte_simps)
  have good: "list_all (good_delta ?reg) bl"
    unfolding list_all_iff
  proof
    fix x
    assume "x \<in> set bl"
    then have "good_delta ?reg x \<or> 256 \<le> card (dirty_types rp (fst x))"
      using dirty_cells(2) [OF st it, of "fst x" "snd x" rp] by (simp add: bl_def)
    then show "good_delta ?reg x" using few [rule_format, of "fst x"] by linarith
  qed
  have v: "version_ok 2" by (simp add: version_ok_def SYNC_VERSION_MIN_def SYNC_VERSION_def)
  note con = consume_blocks [OF r2 i2 good fit peer]
  have "at_end (adv (length (concat (map (delta_entity_record ?reg) bl))) ?b2)"
    using r2 by (subst at_end_rest) (simp_all add: in_buffer_adv [OF i2] rest_adv)
  then have "validate_packet ?reg d Delta"
    using con 1 2 v n by (simp add: validate_packet_def Let_def consumed_def)
  then show ?thesis by (rule that [OF 1 2 n i2 r2 good fb(2)])
qed

lemma blocks_sent:
  assumes wf: "wf_store reg w" and it: "visits_once it"
  shows "map_of (dirty_blocks reg it w rp) e = Some cells \<Longrightarrow> map_of cells t = Some (row, ks) \<Longrightarrow>
      ks \<noteq> [] \<and> (\<forall>k. k \<in> set ks \<longleftrightarrow> bucket_sent reg it w rp e t k)"
    "bucket_sent reg it w rp e t k \<Longrightarrow> distinct (map fst (dirty_blocks reg it w rp)) \<Longrightarrow>
      \<exists>cells row ks. map_of (dirty_blocks reg it w rp) e = Some cells \<and> map_of cells t = Some (row, ks) \<and> k \<in> set ks"
proof -
  show "\<exists>cells row ks. map_of (dirty_blocks reg it w rp) e = Some cells \<and> map_of cells t = Some (row, ks) \<and> k \<in> set ks"
    if s: "bucket_sent reg it w rp e t k" and d: "distinct (map fst (dirty_blocks reg it w rp))"
  proof -
    obtain cells row ks where c: "(e, cells) \<in> set (dirty_blocks reg it w rp)" "(t, row, ks) \<in> set cells" "k \<in> set ks"
      using s by (auto simp: bucket_sent_def)
    then show ?thesis using d dirty_cells(1) [OF wf it c(1)] by (metis map_of_is_SomeI)
  qed
  show "ks \<noteq> [] \<and> (\<forall>k. k \<in> set ks \<longleftrightarrow> bucket_sent reg it w rp e t k)"
    if m: "map_of (dirty_blocks reg it w rp) e = Some cells" "map_of cells t = Some (row, ks)"
  proof -
    have c: "(e, cells) \<in> set (dirty_blocks reg it w rp)" "(t, row, ks) \<in> set cells"
      using map_of_SomeD [OF m(1)] map_of_SomeD [OF m(2)] by simp_all
    note dc = dirty_cells(3) [OF wf it c(1) c(2)]
    have "get_raw w e t \<noteq> None" using dc get_raw_content(1) [OF wf, of e t] has_content [OF wf, of e t] by auto
    then have k1: "bucket_sent reg it w rp e t k" if "k \<in> set ks" for k using c dc that unfolding bucket_sent_def by blast
    have ks: "ks = due reg (rp_elapsed_time rp) (rp_next_send_tick rp) e t" using dc by simp
    have "bucket_sent reg it w rp e t k \<longrightarrow> k \<in> set ks" for k
      unfolding ks due_iff by (simp add: bucket_sent_due [OF wf it])
    moreover have "ks \<noteq> []"
      using c by (auto simp: dirty_blocks_def delta_blocks_def delta_block_def delta_cells_def delta_cell_def split: if_splits)
    ultimately show ?thesis using k1 by blast
  qed
qed


lemma sends_block:
  assumes wf: "wf_store reg w" and it: "visits_once it" and c: "map_of (dirty_blocks reg it w rp) e = Some cells"
  shows "\<exists>t k. bucket_sent reg it w rp e t k"
proof -
  have x: "(e, cells) \<in> set (dirty_blocks reg it w rp)" by (rule map_of_SomeD [OF c])
  then have "cells \<noteq> []" by (auto simp: dirty_blocks_def delta_blocks_def sends_def)
  then obtain c where "c \<in> set cells" by (cases cells) auto
  then have "map_of cells (fst c) = Some (fst (snd c), snd (snd c))"
    using dirty_cells(1) [OF wf it x] by simp
  from blocks_sent(1) [OF wf it c this] show ?thesis by (metis list.set_intros(1) neq_Nil_conv)
qed

text \<open>
  What a delta makes of an entity's components \<open>m0\<close> at the peer, where the server has \<open>m\<close>: a
  component of which a bucket was sent has the server's value in the fields of these buckets and
  its own old value (zero if it is new) in the others; all other components are as they were.
\<close>

definition delta_updated :: "registry \<Rightarrow> (ctype \<Rightarrow> nat \<Rightarrow> bool) \<Rightarrow> (ctype \<rightharpoonup> byte list) \<Rightarrow> (ctype \<rightharpoonup> byte list)
    \<Rightarrow> (ctype \<rightharpoonup> byte list) \<Rightarrow> bool" where
  "delta_updated reg sent m m0 m' \<longleftrightarrow> (\<forall>t. if \<exists>k. sent t k
     then \<exists>s row v. schema_of reg t = Some s \<and> m t = Some row \<and> m' t = Some v
       \<and> (\<forall>i < length (cs_fields s). field_bytes (cs_fields s ! i) v
            = field_bytes (cs_fields s ! i)
                (if \<exists>k. sent t k \<and> fp_bucket_masks (sync_plan_for reg t) ! k ! i then row
                 else case m0 t of None \<Rightarrow> zero_row s | Some old \<Rightarrow> old))
     else m' t = m0 t)"

lemma merged_updated:
  assumes wf: "wf_store reg w" and it: "visits_once it" and few: "\<forall>e. card (dirty_types rp e) < 256" and fit: "fitting reg"
    and peer: "wf_store reg w0" "content w0 e = Some m0"
    and cells: "map_of (dirty_blocks reg it w rp) e = Some cells"
  shows "\<exists>m. content w e = Some m \<and> delta_updated reg (bucket_sent reg it w rp e) m m0 (fold (merge_cell reg) cells m0)"
proof -
  have x: "(e, cells) \<in> set (dirty_blocks reg it w rp)" by (rule map_of_SomeD [OF cells])
  note dc = dirty_cells(1) [OF wf it x]
  have good: "list_all (good_cell reg) cells"
    using dirty_cells(2) [OF wf it x] few [rule_format, of e] by (auto simp: good_delta_def)
  have "is_alive w e" using x by (auto simp: dirty_blocks_def delta_blocks_def delta_block_def sends_def split: if_splits)
  then obtain m where m: "content w e = Some m" using is_alive_content [OF wf, of e] by auto
  have nb: "\<not> bucket_sent reg it w rp e t k" if t: "map_of cells t = None" and d: "distinct (map fst (dirty_blocks reg it w rp))" for t k
    using blocks_sent(2) [OF wf it _ d, of e t k] cells t by auto
  show ?thesis
  proof (intro exI [of _ m] conjI m, unfold delta_updated_def, intro allI)
    fix t
    let ?m' = "fold (merge_cell reg) cells m0"
    note mc = merge_cells [OF dc, of reg m0 t]
    show "if \<exists>k. bucket_sent reg it w rp e t k
     then \<exists>s row v. schema_of reg t = Some s \<and> m t = Some row \<and> ?m' t = Some v
       \<and> (\<forall>i < length (cs_fields s). field_bytes (cs_fields s ! i) v = field_bytes (cs_fields s ! i)
                (if \<exists>k. bucket_sent reg it w rp e t k \<and> fp_bucket_masks (sync_plan_for reg t) ! k ! i then row
                 else case m0 t of None \<Rightarrow> zero_row s | Some old \<Rightarrow> old))
     else ?m' t = m0 t"
    proof (cases "map_of cells t")
      case None
      have d: "distinct (map fst (dirty_blocks reg it w rp))"
        unfolding dirty_blocks_def delta_blocks_def
        by (rule distinct_map_filter) (use it in \<open>simp add: visits_once_def comp_def delta_block_def\<close>)
      show ?thesis using nb [OF None d] mc None by simp
    next
      case (Some c)
      obtain row ks where c: "c = (row, ks)" by (cases c)
      have tc: "(t, row, ks) \<in> set cells" using map_of_SomeD [OF Some] c by simp
      then obtain s where s: "schema_of reg t = Some s" "length row = cs_size s" "plan_fits s (sync_plan_for reg t) ks"
        using good by (auto simp: list_all_iff good_cell_def)
      note bs = blocks_sent(1) [OF wf it cells Some [unfolded c]]
      let ?old = "case m0 t of None \<Rightarrow> zero_row s | Some old \<Rightarrow> old"
      have old: "length ?old = length row"
        using content_length [OF peer, of t] s(1,2) by (auto simp: zero_row_def split: option.split)
      have fs: "fields_fit (cs_fields s) (length row)" using fit s(1,2) by (simp add: fitting_def)
      have v: "?m' t = Some (bucket_merge s (sync_plan_for reg t) row ks ?old)" using mc Some c s(1) by (simp cong: option.case_cong)
      have ex: "\<exists>k. bucket_sent reg it w rp e t k" using bs by (cases ks) auto
      have row: "m t = Some row" using dirty_cells(3) [OF wf it x tc] m by auto
      show ?thesis
        unfolding if_P [OF ex]
        by (intro exI [of _ s] exI [of _ row] exI [of _ "bucket_merge s (sync_plan_for reg t) row ks ?old"])
          (use s(1) row v bucket_merge_fields [OF fs old _ s(3)] bs in \<open>auto cong: if_cong\<close>)
    qed
  qed
qed

text \<open>
  C24. A delta packet of the server brings a peer exactly the buckets that were due: after the
  peer applied it, every entity it holds has the server's values in the fields of the buckets
  sent and its own values everywhere else, no entity appears or disappears (records of entities
  that died at the peer are skipped), its world is well formed and no record was written past the
  scratch vector. The last needs that for the entities the peer does not hold no field of a
  bucket sent ends past the vector as it was before (nothing is asked when the peer holds all the
  entities sent); the code does not ensure it, see \<open>scratch_overrun\<close>. Field values are compared
  by their wire bytes, of an array field the first element.
\<close>

theorem delta_updates_due_fields:
  fixes E :: "('c client, 'v) env" and net_fn :: nat and it it0 :: iteration and rp :: replication
    and other :: "nat \<Rightarrow> 'v event \<Rightarrow> 'c client world \<Rightarrow> 'c"
  assumes server: "wf_world (env_registry E) w" "visits_once it" "\<forall>e. card (dirty_types rp e) < 256"
    and some: "bucket_sent (env_registry E) it w rp x u j" and fit: "fitting (env_registry E)"
    and peer: "wf_store (env_registry E) w0" "open_mode w0" "ns_world (net_of w0)" "ns_strategy (net_of w0) = Some rp0"
    and scratch: "\<not> sv_overrun (scratch_of w0)"
      "\<forall>e t k. bucket_sent (env_registry E) it w rp e t k \<longrightarrow> content w0 e = None \<longrightarrow>
         \<not> writes_past (the (schema_of (env_registry E) t)) (fp_bucket_masks (sync_plan_for (env_registry E) t) ! k)
             (sv_size (scratch_of w0))"
  defines "w' \<equiv> apply_packet (net_env net_fn other E) it0 Delta (snd (build_delta (env_registry E) it w rp)) w0"
  shows "\<not> sv_overrun (scratch_of w') \<and> wf_store (env_registry E) w' \<and> (\<forall>e. case content w0 e of None \<Rightarrow> content w' e = None
    | Some m0 \<Rightarrow> \<exists>m'. content w' e = Some m' \<and>
        (if \<exists>t k. bucket_sent (env_registry E) it w rp e t k
         then \<exists>m. content w e = Some m \<and> delta_updated (env_registry E) (bucket_sent (env_registry E) it w rp e) m m0 m'
         else m' = m0))"
proof -
  let ?F = "net_env net_fn other E" and ?reg = "env_registry E" and ?w1 = "set_applying True w0"
  let ?bl = "dirty_blocks (env_registry E) it w rp" and ?d = "snd (build_delta (env_registry E) it w rp)"
  have reg: "env_registry ?F = ?reg" by (rule net_env_passive)
  have st: "wf_store ?reg w" using server(1) by (simp add: wf_world_def)
  have kp: "keeps_scratch ?F" by (simp add: keeps_scratch_def scratch_kept)
  note st1 = applying_start [OF peer(4)]
  have w1: "wf_store (env_registry ?F) ?w1" "open_mode ?w1" "fitting (env_registry ?F)" "wf_world (env_registry ?F) w"
    using st1(4) [OF peer(1)] st1(5) peer(2) fit server(1) by (simp_all add: reg)
  have "?bl \<noteq> []" using some by (auto simp: bucket_sent_def)
  then obtain b1 n b2 where rd: "read_u16 (seek 0 ?d) = Some (2, b1)" "read_u32 b1 = Some (n, b2)" "unat n = length ?bl"
    "in_buffer b2" "rest b2 = concat (map (delta_entity_record (env_registry ?F)) ?bl) @ []"
    "list_all (good_delta (env_registry ?F)) ?bl" "distinct (map fst ?bl)" "validate_packet ?reg ?d Delta"
    using delta_packet_read [OF w1(4) server(2,3) w1(3) _ w1(1) net_env_passive(1) w1(2) kp] unfolding reg by blast
  note ab = apply_blocks [OF rd(5,4,6,7) w1(3,1) net_env_passive(1) w1(2) kp, unfolded reg st1(3)]
  have v: "version_ok 2" by (simp add: version_ok_def SYNC_VERSION_MIN_def SYNC_VERSION_def)
  have w': "w' = set_applying False (apply_delta_entities ?F 2 (length ?bl) ?w1 b2)"
    using rd(1-3,8) v peer(3,4) by (simp add: w'_def apply_packet_def apply_delta_def reg Let_def)
  have ct: "content w' e = (case map_of ?bl e of None \<Rightarrow> content w0 e
      | Some cells \<Rightarrow> map_option (fold (merge_cell ?reg) cells) (content w0 e))" for e
    using ab(2) by (simp add: w' set_applying_end)
  have "case content w0 e of None \<Rightarrow> content w' e = None
    | Some m0 \<Rightarrow> \<exists>m'. content w' e = Some m' \<and> (if \<exists>t k. bucket_sent ?reg it w rp e t k
         then \<exists>m. content w e = Some m \<and> delta_updated ?reg (bucket_sent ?reg it w rp e) m m0 m' else m' = m0)" for e
  proof (cases "content w0 e")
    case None
    then show ?thesis by (simp add: ct split: option.split)
  next
    case (Some m0)
    show ?thesis
    proof (cases "map_of ?bl e")
      case None
      then have "\<not> bucket_sent ?reg it w rp e t k" for t k using blocks_sent(2) [OF st server(2) _ rd(7), of e t k] by auto
      then show ?thesis using None Some by (auto simp: ct)
    next
      case c: (Some cells)
      then obtain t k where "bucket_sent ?reg it w rp e t k" using sends_block [OF st server(2) c] by blast
      then show ?thesis using c Some merged_updated [OF st server(2,3) fit peer(1) Some c] by (auto simp: ct)
    qed
  qed
  moreover have "\<not> sv_overrun (scratch_of w')"
  proof -
    have sa: "scratch_of (set_applying v u) = scratch_of u" for v and u :: "'c client world" by (simp add: set_applying_def)
    have "cell_within ?reg c (sv_size (scratch_of w0))"
      if x: "(e, cells) \<in> set ?bl" "c \<in> set cells" "content w0 e = None" for e cells c
    proof -
      obtain t row ks where c: "c = (t, row, ks)" by (cases c)
      have "map_of ?bl e = Some cells" using x(1) rd(7) by simp
      moreover have "map_of cells t = Some (row, ks)" using x(2) c dirty_cells(1) [OF st server(2) x(1)] by simp
      ultimately have "\<forall>k\<in>set ks. bucket_sent ?reg it w rp e t k" using blocks_sent(1) [OF st server(2)] by blast
      then show ?thesis using scratch(2) x(3) by (auto simp: c stays_within_def)
    qed
    then show ?thesis using ab(3) scratch(1) by (force simp: w' sa list_all_iff)
  qed
  ultimately show ?thesis using ab(1) by (simp add: w' set_applying_end)
qed


section \<open>A server with one dirty entity\<close>

definition dirty_replication :: replication where
  "dirty_replication = fresh_replication\<lparr>rp_tracked := {e1}, rp_dirty := [(e1, {1})], rp_elapsed_time := 1\<rparr>"

lemma node_iteration_ok: "visits_once node_iteration"
proof -
  have "finite S" for S :: "entity set"
    by (rule finite_imageD [of eid]) (simp_all add: inj_on_def entity.expand)
  then show ?thesis by (simp add: visits_once_def node_iteration_def)
qed

lemma dirty_replication_ok:
  "dirty_types dirty_replication e = (if e = e1 then {1} else {})" "next_tick dirty_replication e t k = 0"
  "rp_elapsed_time dirty_replication = 1" "\<forall>e. card (dirty_types dirty_replication e) < 256"
  by (auto simp: dirty_replication_def dirty_types_def next_tick_def ticks_of_def fresh_replication_def)

lemma demo_plan:
  "fp_bucket_intervals (sync_plan_for wire_registry 1) = [1 / 10]" "buckets wire_registry 1 = 1" "is_networked wire_registry 1"
proof -
  have "delta_intervals (cs_fields demo_schema) = [1 / 10]"
    by (simp add: delta_intervals_def demo_schema_def plain_field_def field_replicates_def priority_interval_def)
  then show "fp_bucket_intervals (sync_plan_for wire_registry 1) = [1 / 10]"
    by (simp add: sync_plan_for_def wire_registry_ok(1) Let_def)
  then show "buckets wire_registry 1 = 1" by (simp add: buckets_def)
  show "is_networked wire_registry 1"
    by (simp add: is_networked_def wire_registry_ok(1)) (simp add: demo_schema_def plain_field_def)
qed

lemma server_world:
  defines "w \<equiv> wire_world node_env node_client"
  shows "wf_world wire_registry w" "wf_store wire_registry w" "content w = [e1 \<mapsto> [1 \<mapsto> demo_row]]" "has w e1 1"
    "bucket_sent wire_registry node_iteration w dirty_replication e1 1 0"
proof -
  note ww = wire_world_ok [OF node_env_ok, of node_client, folded w_def, unfolded node_env_ok(2)]
  show w: "wf_world wire_registry w" "wf_store wire_registry w" "content w = [e1 \<mapsto> [1 \<mapsto> demo_row]]" using ww by simp_all
  show h: "has w e1 1" by (simp add: has_content [OF w(2)] w(3))
  show "bucket_sent wire_registry node_iteration w dirty_replication e1 1 0"
    by (simp add: bucket_sent_due [OF w(2) node_iteration_ok] dirty_replication_ok demo_plan h)
qed

text \<open>The bucket of the demo component is due at time 1 and next at 1.1.\<close>

theorem delta_schedule_witness:
  "next_tick (fst (build_delta wire_registry node_iteration (wire_world node_env node_client) dirty_replication)) e1 1 0 = 11 / 10"
  using delta_schedule [OF server_world(2) wire_registry_ok(3) node_iteration_ok dirty_replication_ok(4), of 1 e1]
  by (simp add: dirty_replication_ok demo_plan server_world(4))

theorem dirty_bucket_is_sent_witness:
  "record_in_packet wire_registry
     (buf_data (snd (build_delta wire_registry node_iteration (wire_world node_env node_client) (after_time 1 dirty_replication)))) e1 1 0 demo_row"
  using dirty_bucket_is_sent [OF server_world(1) wire_registry_ok(3) node_iteration_ok dirty_replication_ok(4), of 1 e1 0 "[1]"]
  by (simp add: dirty_replication_ok demo_plan server_world(3,4) delta_run_def)

text \<open>The peer holds the entity without components and gets the component.\<close>

theorem delta_updates_due_fields_witness:
  "the (content (apply_packet node_env node_iteration Delta
     (snd (build_delta wire_registry node_iteration (wire_world node_env node_client) dirty_replication))
     (wire_start node_env node_client)) e1) 1 \<noteq> None"
proof -
  let ?w = "wire_world node_env node_client" and ?p = "wire_start node_env node_client"
  let ?sent = "bucket_sent wire_registry node_iteration ?w dirty_replication e1"
  let ?w' = "apply_packet node_env node_iteration Delta (snd (build_delta wire_registry node_iteration ?w dirty_replication)) ?p"
  obtain E0 :: "(unit client, unit) env" where E0: "env_registry E0 = wire_registry" "net_env 7 (\<lambda>f ev w. ()) E0 = node_env"
    by (rule node_base)
  have pr: "wf_world (env_registry E0) ?w" "bucket_sent (env_registry E0) node_iteration ?w dirty_replication e1 1 0"
    "fitting (env_registry E0)" "wf_store (env_registry E0) ?p"
    using server_world(1,5) wire_registry_ok(3) peer_start(1) by (simp_all add: E0)
  have sc: "\<not> sv_overrun (scratch_of ?p)" "\<forall>e t k. bucket_sent (env_registry E0) node_iteration ?w dirty_replication e t k \<longrightarrow>
      content ?p e = None \<longrightarrow> \<not> writes_past (the (schema_of (env_registry E0) t))
        (fp_bucket_masks (sync_plan_for (env_registry E0) t) ! k) (sv_size (scratch_of ?p))"
    using peer_start(6) by (auto simp: empty_scratch_def peer_start(3) E0 bucket_sent_due [OF server_world(2) node_iteration_ok]
        dirty_replication_ok split: if_splits)
  note d = delta_updates_due_fields [OF pr(1) node_iteration_ok dirty_replication_ok(4) pr(2,3,4) peer_start(2,4,5) sc,
    of 7 "\<lambda>f ev w. ()" node_iteration, unfolded E0, THEN conjunct2, THEN conjunct2, rule_format, of e1]
  have s: "?sent 1 0" using server_world(5) .
  then have ex: "\<exists>t k. ?sent t k" by blast
  obtain m m' where r: "content ?w' e1 = Some m'" "delta_updated wire_registry ?sent m Map.empty m'"
    using d unfolding if_P [OF ex] by (auto simp: peer_start(3))
  have ex1: "\<exists>k. ?sent 1 k" using s by blast
  have "m' 1 \<noteq> None" using r(2) [unfolded delta_updated_def, rule_format, of 1] unfolding if_P [OF ex1] by auto
  with r(1) show ?thesis by simp
qed

end
