(* ===== verification/DependencyOrder.thy ===== *)
theory DependencyOrder
  imports Prelude
begin

text \<open>
  The ordering step of \<open>SystemScheduler::recompute_order\<close> (src/gdscript/vecs_scheduler.cpp): the
  dependency graph of the systems of a group over their positions, Kahn's algorithm on it, and
  the fallback that appends what is left on or behind a cycle. The loop over the queue is a
  partial function: that it ends, on every graph the code builds, is a theorem, and so are that
  the result is a permutation of the positions and that it respects every edge no cycle reaches.
\<close>

section \<open>The graph\<close>

datatype system_order = Any | After | Before

record system_dep =
  sd_order :: system_order
  sd_target :: string

text \<open>In-degrees and out-edges by position; \<open>add_edge i j\<close> is \<open>out_edges[i].push_back(j); ++indegree[j]\<close>.\<close>

type_synonym graph = "int list \<times> nat list list"

definition add_edge :: "nat \<Rightarrow> nat \<Rightarrow> graph \<Rightarrow> graph" where
  "add_edge i j g = (case g of (indegree, out_edges) \<Rightarrow>
     (indegree[j := indegree ! j + 1], out_edges[i := out_edges ! i @ [j]]))"

definition name_to_idx :: "string list \<Rightarrow> string \<Rightarrow> nat option" where
  "name_to_idx names = fold (\<lambda>i m. m(names ! i \<mapsto> i)) [0..<length names] Map.empty"

definition add_dep :: "string list \<Rightarrow> nat \<Rightarrow> system_dep \<Rightarrow> graph \<Rightarrow> graph" where
  "add_dep names i d g =
     (case name_to_idx names (sd_target d) of
        None \<Rightarrow> g
      | Some j \<Rightarrow>
          (case sd_order d of
             After \<Rightarrow> add_edge j i g
           | Before \<Rightarrow> add_edge i j g
           | Any \<Rightarrow> g))"

definition build_graph :: "string list \<Rightarrow> system_dep list list \<Rightarrow> graph" where
  "build_graph names deps =
     fold (\<lambda>i g. fold (add_dep names i) (deps ! i) g) [0..<length names]
       (replicate (length names) 0, replicate (length names) [])"

section \<open>Kahn's algorithm\<close>

text \<open>\<open>if (--indegree[j] == 0) queue.push_back(j)\<close>\<close>

definition release :: "nat \<Rightarrow> int list \<times> nat list \<Rightarrow> int list \<times> nat list" where
  "release j s = (case s of (indegree, queue) \<Rightarrow>
     (let d = indegree ! j - 1
      in (indegree[j := d], if d = 0 then queue @ [j] else queue)))"

partial_function (option) kahn ::
  "nat list list \<Rightarrow> int list \<Rightarrow> nat list \<Rightarrow> nat list \<Rightarrow> (int list \<times> nat list) option" where
  "kahn out_edges indegree queue order =
     (case queue of
        [] \<Rightarrow> Some (indegree, order)
      | i # rest \<Rightarrow>
          (case fold release (out_edges ! i) (indegree, rest) of
             (indegree', queue') \<Rightarrow> kahn out_edges indegree' queue' (order @ [i])))"

declare kahn.simps [code]

definition topological_order :: "graph \<Rightarrow> nat list option" where
  "topological_order g = (case g of (indegree, out_edges) \<Rightarrow>
     (let n = length indegree
      in case kahn out_edges indegree (filter (\<lambda>i. indegree ! i = 0) [0..<n]) [] of
           None \<Rightarrow> None
         | Some (indegree', order) \<Rightarrow> Some (order @ filter (\<lambda>i. indegree' ! i > 0) [0..<n])))"

section \<open>The edges of a graph\<close>

definition edges :: "graph \<Rightarrow> (nat \<times> nat) set" where
  "edges g = {(i, j). i < length (snd g) \<and> j \<in> set (snd g ! i)}"

definition in_edges :: "nat list list \<Rightarrow> nat set \<Rightarrow> nat \<Rightarrow> nat" where
  "in_edges out_edges P j = (\<Sum>i\<in>P. count_list (out_edges ! i) j)"

definition graph_ok :: "nat \<Rightarrow> graph \<Rightarrow> bool" where
  "graph_ok n g \<longleftrightarrow> length (fst g) = n \<and> length (snd g) = n \<and> edges g \<subseteq> {..<n} \<times> {..<n}
     \<and> (\<forall>j<n. fst g ! j = int (in_edges (snd g) {..<n} j))"

lemma add_edge_ok:
  assumes ok: "graph_ok n g" and ij: "i < n" "j < n"
  shows "graph_ok n (add_edge i j g)" "edges (add_edge i j g) = insert (i, j) (edges g)"
proof -
  obtain d out where g: "g = (d, out)" by (cases g)
  have len: "length d = n" "length out = n" using ok g by (auto simp: graph_ok_def)
  show e: "edges (add_edge i j g) = insert (i, j) (edges g)"
    using len ij by (auto simp: edges_def add_edge_def g nth_list_update split: if_splits)
  have count: "in_edges (out[i := out ! i @ [j]]) {..<n} k = in_edges out {..<n} k + (if k = j then 1 else 0)" for k
  proof -
    have "in_edges (out[i := out ! i @ [j]]) {..<n} k
        = (\<Sum>x\<in>{..<n}. count_list (out ! x) k + (if x = i then (if k = j then 1 else 0) else 0))"
      unfolding in_edges_def by (rule sum.cong) (use len in \<open>auto simp: nth_list_update\<close>)
    also have "\<dots> = in_edges out {..<n} k + (if k = j then 1 else 0)"
      using ij by (simp add: sum.distrib in_edges_def)
    finally show ?thesis .
  qed
  have "edges (add_edge i j g) \<subseteq> {..<n} \<times> {..<n}" using ok ij unfolding e by (auto simp: graph_ok_def)
  moreover have "\<forall>k<n. fst (add_edge i j g) ! k = int (in_edges (snd (add_edge i j g)) {..<n} k)"
    using ok len ij by (auto simp: graph_ok_def g add_edge_def nth_list_update count)
  ultimately show "graph_ok n (add_edge i j g)" using len by (simp add: graph_ok_def g add_edge_def)
qed

text \<open>A name stands for the last system that has it.\<close>

lemma name_to_idx_Some:
  "name_to_idx names s = Some i \<longleftrightarrow> i < length names \<and> names ! i = s \<and> (\<forall>k. i < k \<and> k < length names \<longrightarrow> names ! k \<noteq> s)"
proof -
  define f where "f n = fold (\<lambda>i m. m(names ! i \<mapsto> i)) [0..<n] Map.empty" for n
  have "f n s = Some i \<longleftrightarrow> i < n \<and> names ! i = s \<and> (\<forall>k. i < k \<and> k < n \<longrightarrow> names ! k \<noteq> s)" for n
  proof (induction n)
    case 0
    then show ?case by (simp add: f_def)
  next
    case (Suc n)
    have "f (Suc n) s = (if names ! n = s then Some n else f n s)" by (simp add: f_def)
    then show ?case using Suc less_Suc_eq by (cases "names ! n = s") (auto simp: less_Suc_eq)
  qed
  then show ?thesis by (simp add: name_to_idx_def f_def)
qed

lemma name_to_idx_less: "name_to_idx names s = Some i \<Longrightarrow> i < length names"
  by (simp add: name_to_idx_Some)

definition dep_edge :: "string list \<Rightarrow> nat \<Rightarrow> system_dep \<Rightarrow> (nat \<times> nat) set" where
  "dep_edge names i d =
     (case name_to_idx names (sd_target d) of
        None \<Rightarrow> {}
      | Some j \<Rightarrow> (case sd_order d of After \<Rightarrow> {(j, i)} | Before \<Rightarrow> {(i, j)} | Any \<Rightarrow> {}))"

lemma add_dep_ok:
  assumes "graph_ok (length names) g" "i < length names"
  shows "graph_ok (length names) (add_dep names i d g)" "edges (add_dep names i d g) = edges g \<union> dep_edge names i d"
  using assms add_edge_ok [OF assms(1)] name_to_idx_less [of names "sd_target d"]
  by (auto simp: add_dep_def dep_edge_def split: option.split system_order.split)

lemma add_deps_ok:
  assumes "graph_ok (length names) g" "i < length names"
  shows "graph_ok (length names) (fold (add_dep names i) ds g)
    \<and> edges (fold (add_dep names i) ds g) = edges g \<union> (\<Union>d\<in>set ds. dep_edge names i d)"
  using assms by (induction ds arbitrary: g) (auto simp: add_dep_ok)

lemma build_graph_ok:
  "graph_ok (length names) (build_graph names deps)"
  "edges (build_graph names deps) = (\<Union>i<length names. \<Union>d\<in>set (deps ! i). dep_edge names i d)"
proof -
  define g0 :: graph where "g0 = (replicate (length names) 0, replicate (length names) [])"
  have g0: "graph_ok (length names) g0" "edges g0 = {}"
    by (auto simp: graph_ok_def edges_def g0_def in_edges_def)
  have "k \<le> length names \<Longrightarrow> graph_ok (length names) (fold (\<lambda>i g. fold (add_dep names i) (deps ! i) g) [0..<k] g0)
      \<and> edges (fold (\<lambda>i g. fold (add_dep names i) (deps ! i) g) [0..<k] g0) = (\<Union>i<k. \<Union>d\<in>set (deps ! i). dep_edge names i d)" for k
  proof (induction k)
    case 0
    then show ?case using g0 by simp
  next
    case (Suc k)
    from Suc.IH Suc.prems have ih: "graph_ok (length names) (fold (\<lambda>i g. fold (add_dep names i) (deps ! i) g) [0..<k] g0)"
      "edges (fold (\<lambda>i g. fold (add_dep names i) (deps ! i) g) [0..<k] g0) = (\<Union>i<k. \<Union>d\<in>set (deps ! i). dep_edge names i d)"
      by auto
    show ?case using add_deps_ok [OF ih(1), of k "deps ! k"] Suc.prems ih(2) by (auto simp: lessThan_Suc)
  qed
  from this [of "length names"]
  show "graph_ok (length names) (build_graph names deps)"
    "edges (build_graph names deps) = (\<Union>i<length names. \<Union>d\<in>set (deps ! i). dep_edge names i d)"
    by (simp_all add: build_graph_def g0_def)
qed

section \<open>The invariant of the loop\<close>

text \<open>Releasing the successors of a popped position: each in-degree drops by the number of its edges, and exactly the positions that reach zero join the queue.\<close>

lemma fold_release:
  assumes "\<And>j. j \<in> set js \<Longrightarrow> j < length d" "\<And>j. j < length d \<Longrightarrow> int (count_list js j) \<le> d ! j"
    and "distinct (xs @ q)" "set (xs @ q) = {j. j < length d \<and> d ! j = 0}"
    and "fold release js (d, q) = (d', q')"
  shows "length d' = length d \<and> (\<forall>j<length d. d' ! j = d ! j - int (count_list js j))
    \<and> distinct (xs @ q') \<and> set (xs @ q') = {j. j < length d \<and> d' ! j = 0}"
  using assms
proof (induction js arbitrary: d q)
  case Nil
  then show ?case by simp
next
  case (Cons i js)
  let ?d = "d[i := d ! i - 1]"
  let ?q = "if d ! i - 1 = 0 then q @ [i] else q"
  have i: "i < length d" using Cons.prems(1) by simp
  have pos: "1 + int (count_list js i) \<le> d ! i" using Cons.prems(2) [OF i] by simp
  have notin: "i \<notin> set (xs @ q)" using Cons.prems(4) pos i by auto
  have "release i (d, q) = (?d, ?q)" by (simp add: release_def Let_def)
  then have rest: "fold release js (?d, ?q) = (d', q')" using Cons.prems(5) by simp
  have le: "int (count_list js j) \<le> ?d ! j" if "j < length ?d" for j
    using Cons.prems(2) [of j] that pos by (auto simp: nth_list_update split: if_splits)
  have dist: "distinct (xs @ ?q)" using Cons.prems(3) notin by auto
  have "set (xs @ ?q) = {j. j < length ?d \<and> ?d ! j = 0}"
  proof (rule set_eqI)
    fix j
    have "j \<in> set (xs @ q) \<longleftrightarrow> j < length d \<and> d ! j = 0" using Cons.prems(4) by auto
    then show "j \<in> set (xs @ ?q) \<longleftrightarrow> j \<in> {j. j < length ?d \<and> ?d ! j = 0}"
      using notin i pos by (auto simp: nth_list_update)
  qed
  from Cons.IH [OF _ le dist this rest] Cons.prems(1)
  have ih: "length d' = length d" "\<forall>j<length d. d' ! j = ?d ! j - int (count_list js j)"
    "distinct (xs @ q')" "set (xs @ q') = {j. j < length d \<and> d' ! j = 0}" by auto
  then show ?case using i by (auto simp: nth_list_update)
qed

definition kahn_inv :: "nat \<Rightarrow> nat list list \<Rightarrow> int list \<Rightarrow> nat list \<Rightarrow> nat list \<Rightarrow> bool" where
  "kahn_inv n out d queue order \<longleftrightarrow>
     length d = n \<and> distinct (order @ queue) \<and> set (order @ queue) = {j. j < n \<and> d ! j = 0}
   \<and> (\<forall>j<n. d ! j = int (in_edges out ({..<n} - set order) j))
   \<and> (\<forall>k<length order. \<forall>i<n. order ! k \<in> set (out ! i) \<longrightarrow> i \<in> set (take k order))"

lemma kahn_inv_start:
  assumes "graph_ok n (d, out)"
  shows "kahn_inv n out d (filter (\<lambda>i. d ! i = 0) [0..<n]) []"
  using assms by (auto simp: kahn_inv_def graph_ok_def)

lemma in_edges_zero: "finite P \<Longrightarrow> in_edges out P j = 0 \<longleftrightarrow> (\<forall>i\<in>P. j \<notin> set (out ! i))"
  by (simp add: in_edges_def count_list_0_iff)

lemma kahn_inv_step:
  assumes inv: "kahn_inv n out d (i # rest) order" and e: "edges (d0, out) \<subseteq> {..<n} \<times> {..<n}" "length out = n"
    and f: "fold release (out ! i) (d, rest) = (d', q')"
  shows "kahn_inv n out d' q' (order @ [i])" "i < n" "i \<notin> set order"
proof -
  let ?U = "{..<n} - set order"
  have len: "length d = n" and set: "set (order @ i # rest) = {j. j < n \<and> d ! j = 0}"
    and dist: "distinct ((order @ [i]) @ rest)" and cnt: "\<And>j. j < n \<Longrightarrow> d ! j = int (in_edges out ?U j)"
    and pre: "\<forall>k<length order. \<forall>i<n. order ! k \<in> set (out ! i) \<longrightarrow> i \<in> set (take k order)"
    using inv by (auto simp: kahn_inv_def)
  show i: "i < n" "i \<notin> set order" using set dist by auto
  have iU: "i \<in> ?U" using i by simp
  have split: "in_edges out ?U j = count_list (out ! i) j + in_edges out ({..<n} - set (order @ [i])) j" for j
  proof -
    have "{..<n} - set (order @ [i]) = ?U - {i}" by auto
    then show ?thesis unfolding in_edges_def using sum.remove [OF _ iU, of "\<lambda>x. count_list (out ! x) j"] by simp
  qed
  have zero: "d ! i = 0" using set by auto
  have preds: "k \<in> set order" if "k < n" "i \<in> set (out ! k)" for k
  proof (rule ccontr)
    assume "k \<notin> set order"
    then have "in_edges out ?U i \<noteq> 0" using that by (subst in_edges_zero) auto
    then show False using cnt [OF i(1)] zero by simp
  qed
  have "length d' = length d \<and> (\<forall>j<length d. d' ! j = d ! j - int (count_list (out ! i) j))
    \<and> distinct ((order @ [i]) @ q') \<and> set ((order @ [i]) @ q') = {j. j < length d \<and> d' ! j = 0}"
  proof (rule fold_release [OF _ _ dist _ f])
    show "j < length d" if "j \<in> set (out ! i)" for j using e that i len by (auto simp: edges_def)
    show "int (count_list (out ! i) j) \<le> d ! j" if "j < length d" for j
      using cnt [of j] split [of j] that len by simp
  qed (use set len in auto)
  moreover have "\<forall>k<length (order @ [i]). \<forall>x<n. (order @ [i]) ! k \<in> set (out ! x) \<longrightarrow> x \<in> set (take k (order @ [i]))"
    using pre preds by (auto simp: nth_append less_Suc_eq)
  ultimately show "kahn_inv n out d' q' (order @ [i])"
    unfolding kahn_inv_def using len cnt split by simp
qed

text \<open>The loop ends: every round adds a new position to the order, of which there are \<open>n\<close>.\<close>

lemma kahn_terminates:
  assumes "kahn_inv n out d queue order" "edges (d0, out) \<subseteq> {..<n} \<times> {..<n}" "length out = n"
  shows "\<exists>d' order'. kahn out d queue order = Some (d', order') \<and> kahn_inv n out d' [] order'"
  using assms(1)
proof (induction "n - length order" arbitrary: d queue order rule: less_induct)
  case less
  show ?case
  proof (cases queue)
    case Nil
    then show ?thesis using less.prems by (subst kahn.simps) simp
  next
    case (Cons i rest)
    obtain d' q' where f: "fold release (out ! i) (d, rest) = (d', q')" by fastforce
    note st = kahn_inv_step [OF less.prems [unfolded Cons] assms(2,3) f]
    have "set (order @ [i]) \<subseteq> {..<n}" "distinct (order @ [i])" using st(1) by (auto simp: kahn_inv_def)
    then have "length (order @ [i]) \<le> n" using distinct_card [of "order @ [i]"] card_mono [of "{..<n}" "set (order @ [i])"] by simp
    then have "n - length (order @ [i]) < n - length order" by simp
    from less.hyps [OF this st(1)] show ?thesis by (subst kahn.simps) (simp add: Cons f)
  qed
qed

section \<open>The order\<close>

definition before :: "'a list \<Rightarrow> 'a \<Rightarrow> 'a \<Rightarrow> bool" where
  "before xs x y \<longleftrightarrow> (\<exists>k l. k < l \<and> l < length xs \<and> xs ! k = x \<and> xs ! l = y)"

definition behind_cycle :: "(nat \<times> nat) set \<Rightarrow> nat \<Rightarrow> bool" where
  "behind_cycle E j \<longleftrightarrow> (\<exists>c. (c, c) \<in> E\<^sup>+ \<and> (c, j) \<in> E\<^sup>*)"

lemma before_append: "before xs x y \<Longrightarrow> before (xs @ ys) x y"
proof -
  assume "before xs x y"
  then obtain k l where "k < l" "l < length xs" "xs ! k = x" "xs ! l = y" unfolding before_def by blast
  then show "before (xs @ ys) x y" unfolding before_def by (intro exI [of _ k] exI [of _ l]) (simp add: nth_append)
qed

lemma before_map: "before xs x y \<Longrightarrow> before (map f xs) (f x) (f y)"
  unfolding before_def by (metis length_map less_trans nth_map)

text \<open>In a finite set where every member has a predecessor in the set, every member is behind a cycle.\<close>

lemma no_source_behind_cycle:
  assumes fin: "finite U" and pre: "\<And>j. j \<in> U \<Longrightarrow> \<exists>i\<in>U. (i, j) \<in> E" and j: "j \<in> U"
  shows "behind_cycle E j"
proof (rule ccontr)
  assume no: "\<not> behind_cycle E j"
  let ?A = "{i \<in> U. (i, j) \<in> E\<^sup>*}"
  let ?R = "E \<inter> ?A \<times> ?A"
  have "acyclic ?R"
  proof (rule acyclicI, rule allI, rule notI)
    fix c
    assume c: "(c, c) \<in> ?R\<^sup>+"
    then have "(c, c) \<in> E\<^sup>+" using trancl_mono [of "(c, c)" ?R E] by blast
    moreover have "c \<in> ?A" using c by (cases rule: tranclE) auto
    ultimately show False using no by (auto simp: behind_cycle_def)
  qed
  then have "wf ?R" using fin by (intro finite_acyclic_wf) (auto intro: finite_subset [of _ "U \<times> U"])
  moreover have "j \<in> ?A" using j by simp
  ultimately obtain z where z: "z \<in> ?A" "\<And>y. (y, z) \<in> ?R \<Longrightarrow> y \<notin> ?A" by (rule wfE_min) blast
  then obtain y where y: "y \<in> U" "(y, z) \<in> E" using pre by blast
  then have "y \<in> ?A" using z(1) by (auto intro: converse_rtrancl_into_rtrancl)
  then show False using y z by blast
qed

lemma kahn_inv_order:
  assumes inv: "kahn_inv n out d [] order" and e: "edges (d0, out) \<subseteq> {..<n} \<times> {..<n}" "length out = n"
  defines "E \<equiv> edges (d0, out)"
  shows "distinct order" "set order = {j. j < n \<and> \<not> behind_cycle E j}"
    "\<And>i j. (i, j) \<in> E \<Longrightarrow> j \<in> set order \<Longrightarrow> before order i j"
    "filter (\<lambda>i. d ! i > 0) [0..<n] = filter (behind_cycle E) [0..<n]"
proof -
  have set: "set order = {j. j < n \<and> d ! j = 0}" and cnt: "\<And>j. j < n \<Longrightarrow> d ! j = int (in_edges out ({..<n} - set order) j)"
    and pre: "\<And>k i. k < length order \<Longrightarrow> i < n \<Longrightarrow> order ! k \<in> set (out ! i) \<Longrightarrow> i \<in> set (take k order)"
    using inv by (auto simp: kahn_inv_def)
  show "distinct order" using inv by (simp add: kahn_inv_def)
  show bef: "before order i j" if "(i, j) \<in> E" "j \<in> set order" for i j
  proof -
    from that obtain k where k: "k < length order" "order ! k = j" by (auto simp: in_set_conv_nth)
    have "i \<in> set (take k order)" using pre [OF k(1), of i] k that e(2) by (auto simp: E_def edges_def)
    then obtain l where "l < k" "order ! l = i" using k(1) by (auto simp: in_set_conv_nth)
    then show ?thesis using k unfolding before_def by blast
  qed
  define pos where "pos j = (THE k. k < length order \<and> order ! k = j)" for j
  have pos: "pos (order ! k) = k" if "k < length order" for k
    unfolding pos_def using that \<open>distinct order\<close> by (intro the_equality) (auto simp: nth_eq_iff_index_eq)
  have step: "i \<in> set order \<and> pos i < pos j" if "(i, j) \<in> E" "j \<in> set order" for i j
    using bef [OF that] pos unfolding before_def by (metis less_trans nth_mem)
  have path: "(i, j) \<in> E\<^sup>+ \<Longrightarrow> j \<in> set order \<Longrightarrow> i \<in> set order \<and> pos i < pos j" for i j
  proof (induction rule: converse_trancl_induct)
    case (base y)
    then show ?case using step by blast
  next
    case (step y z)
    then show ?case using \<open>\<And>i j. (i, j) \<in> E \<Longrightarrow> j \<in> set order \<Longrightarrow> i \<in> set order \<and> pos i < pos j\<close>
      by (meson less_trans)
  qed
  have nb: "\<not> behind_cycle E j" if "j \<in> set order" for j
  proof
    assume "behind_cycle E j"
    then obtain c where c: "(c, c) \<in> E\<^sup>+" "(c, j) \<in> E\<^sup>*" by (auto simp: behind_cycle_def)
    then have "c \<in> set order" using path that by (metis rtranclD)
    then show False using path [OF c(1)] by simp
  qed
  have b: "behind_cycle E j" if "j < n" "j \<notin> set order" for j
  proof (rule no_source_behind_cycle [of "{..<n} - set order"])
    fix k
    assume k: "k \<in> {..<n} - set order"
    then have "d ! k \<noteq> 0" using set by auto
    then have "in_edges out ({..<n} - set order) k \<noteq> 0" using cnt [of k] k by auto
    then show "\<exists>i\<in>{..<n} - set order. (i, k) \<in> E" using e(2) by (subst (asm) in_edges_zero) (auto simp: E_def edges_def)
  qed (use that in auto)
  show "set order = {j. j < n \<and> \<not> behind_cycle E j}" using nb b set by auto
  have "d ! j > 0 \<longleftrightarrow> behind_cycle E j" if "j < n" for j
    using set nb [of j] b [of j] cnt [OF that] that by auto
  then show "filter (\<lambda>i. d ! i > 0) [0..<n] = filter (behind_cycle E) [0..<n]"
    by (intro filter_cong) auto
qed

lemma topological_order_result:
  assumes "graph_ok n g"
  shows "\<exists>xs. topological_order g = Some (xs @ filter (behind_cycle (edges g)) [0..<n]) \<and> distinct xs
    \<and> set xs = {j. j < n \<and> \<not> behind_cycle (edges g) j} \<and> (\<forall>(i, j)\<in>edges g. j \<in> set xs \<longrightarrow> before xs i j)"
proof -
  obtain d out where g: "g = (d, out)" by (cases g)
  have e: "edges (d, out) \<subseteq> {..<n} \<times> {..<n}" "length out = n" "length d = n"
    using assms by (auto simp: graph_ok_def g)
  obtain d' xs where k: "kahn out d (filter (\<lambda>i. d ! i = 0) [0..<n]) [] = Some (d', xs)" "kahn_inv n out d' [] xs"
    using kahn_terminates [OF kahn_inv_start [OF assms [unfolded g]] e(1,2)] by blast
  note o = kahn_inv_order [OF k(2) e(1,2)]
  have "topological_order g = Some (xs @ filter (behind_cycle (edges g)) [0..<n])"
    using k(1) o(4) e(3) by (simp add: topological_order_def g Let_def)
  then show ?thesis using o(1-3) by (intro exI [of _ xs]) (auto simp: g)
qed

lemma topological_order_permutation:
  assumes "graph_ok n g"
  shows "\<exists>order. topological_order g = Some order \<and> distinct order \<and> set order = {..<n}"
proof -
  obtain xs where xs: "topological_order g = Some (xs @ filter (behind_cycle (edges g)) [0..<n])" "distinct xs"
    "set xs = {j. j < n \<and> \<not> behind_cycle (edges g) j}"
    using topological_order_result [OF assms] by blast
  then show ?thesis by auto
qed

text \<open>Without edges the order is the insertion order.\<close>

lemma kahn_no_edges:
  "\<forall>i\<in>set queue. out ! i = [] \<Longrightarrow> kahn out d queue order = Some (d, order @ queue)"
  by (induction queue arbitrary: order) (subst kahn.simps, simp)+

lemma topological_order_no_edges:
  assumes ok: "graph_ok n g" and e: "edges g = {}"
  shows "topological_order g = Some [0..<n]"
proof -
  obtain d out where g: "g = (d, out)" by (cases g)
  have len: "length out = n" "length d = n" using ok by (auto simp: graph_ok_def g)
  have out: "out ! i = []" if "i < n" for i using e that len by (auto simp: edges_def g dest: hd_in_set)
  then have "in_edges out {..<n} j = 0" for j by (subst in_edges_zero) auto
  then have d: "d ! j = 0" if "j < n" for j using ok that by (auto simp: graph_ok_def g)
  have "filter (\<lambda>i. d ! i = 0) [0..<n] = [0..<n]" "filter (\<lambda>i. d ! i > 0) [0..<n] = []"
    using d by (auto simp: filter_id_conv filter_empty_conv)
  then show ?thesis using out len by (simp add: topological_order_def g Let_def kahn_no_edges)
qed

end
