(* ===== verification/Scheduler.thy ===== *)
theory Scheduler
  imports Complex_Main "HOL-Library.Multiset" DependencyOrder WorldSpec
begin

text \<open>
  \<open>SystemScheduler\<close> (src/gdscript/vecs_scheduler.{h,cpp}), the part of \<open>VECSSystem\<close> it uses
  (src/gdscript/vecs_system.{h,cpp}) and the entry points of \<open>VECSWorld\<close> that drive it
  (src/gdscript/vecs_world.cpp): registration by group, the cached order, timers and the flushes
  of the command buffer. A \<open>VECSSystem *\<close> is a number, the systems are a store, and the code of a
  system (\<open>_setup\<close>, \<open>_deps\<close>, \<open>_tick\<close> or the script override) is part of the environment: it may
  change the world, the systems and the scheduler. A handler that changes the group being
  processed erases the vector the loop of \<open>process\<close> walks, which is undefined behaviour in C++;
  here the loop goes on over the order it started with. Times are exact rationals.
\<close>

section \<open>State\<close>

type_synonym sysptr = nat

definition PER_SYSTEM :: int where "PER_SYSTEM = 0"
definition PER_GROUP :: int where "PER_GROUP = 1"
definition MANUAL :: int where "MANUAL = 2"

text \<open>\<open>sy_core\<close>: \<open>core_\<close> points to the world. \<open>sy_script_path\<close> is \<open>None\<close> without a script.\<close>

record system =
  sy_name :: string
  sy_script_path :: "string option"
  sy_class :: string
  sy_group :: string
  sy_active :: bool
  sy_paused :: bool
  sy_flush_mode :: int
  sy_tick_interval :: rat
  sy_core :: bool

definition new_system :: "string \<Rightarrow> system" where
  "new_system cls = \<lparr>sy_name = '''', sy_script_path = None, sy_class = cls, sy_group = '''', sy_active = True,
     sy_paused = False, sy_flush_mode = PER_SYSTEM, sy_tick_interval = 0, sy_core = False\<rparr>"

record scheduler =
  sc_systems_by_group :: "(string \<times> sysptr list) list"
  sc_order_cache :: "string \<rightharpoonup> sysptr list"
  sc_next_run :: "sysptr \<rightharpoonup> rat"
  sc_elapsed_by_group :: "string \<rightharpoonup> rat"

record 'u game =
  g_world :: "'u world"
  g_systems :: "sysptr \<Rightarrow> system"
  g_sched :: scheduler

record ('u, 'v) sys_env =
  se_env :: "('u, 'v) env"
  se_setup :: "sysptr \<Rightarrow> 'u game \<Rightarrow> 'u game"
  se_deps :: "sysptr \<Rightarrow> system_dep list"
  se_tick :: "sysptr \<Rightarrow> rat \<Rightarrow> 'u game \<Rightarrow> 'u game"
  se_basename :: "string \<Rightarrow> string"

definition empty_scheduler :: scheduler where
  "empty_scheduler = \<lparr>sc_systems_by_group = [], sc_order_cache = Map.empty, sc_next_run = Map.empty,
     sc_elapsed_by_group = Map.empty\<rparr>"

section \<open>Systems\<close>

text \<open>\<open>se_basename\<close> stands for the engine's \<open>path.get_file().get_basename()\<close>.\<close>

definition get_system_name :: "('u, 'v) sys_env \<Rightarrow> system \<Rightarrow> string" where
  "get_system_name S y =
     (if sy_name y \<noteq> '''' then sy_name y
      else case sy_script_path y of
          None \<Rightarrow> sy_class y
        | Some path \<Rightarrow> if path \<noteq> '''' then se_basename S path else sy_class y)"

definition handle :: "('u, 'v) sys_env \<Rightarrow> sysptr \<Rightarrow> rat \<Rightarrow> 'u game \<Rightarrow> 'u game" where
  "handle S sys p_delta g = (if \<not> sy_core (g_systems g sys) then g else se_tick S sys p_delta g)"

section \<open>Registration\<close>

definition update_sched :: "(scheduler \<Rightarrow> scheduler) \<Rightarrow> 'u game \<Rightarrow> 'u game" where
  "update_sched f g = g\<lparr>g_sched := f (g_sched g)\<rparr>"

definition add_system :: "sysptr option \<Rightarrow> 'u game \<Rightarrow> 'u game" where
  "add_system p_sys g =
     (case p_sys of
        None \<Rightarrow> g
      | Some sys \<Rightarrow>
          (let key = sy_group (g_systems g sys)
           in update_sched (\<lambda>sc. sc\<lparr>
                sc_systems_by_group := AList.update key
                  ((case map_of (sc_systems_by_group sc) key of None \<Rightarrow> [] | Some v \<Rightarrow> v) @ [sys])
                  (sc_systems_by_group sc),
                sc_order_cache := (sc_order_cache sc)(key := None)\<rparr>) g))"

definition remove_system :: "sysptr option \<Rightarrow> 'u game \<Rightarrow> 'u game" where
  "remove_system p_sys g =
     (case p_sys of
        None \<Rightarrow> g
      | Some sys \<Rightarrow>
          (let key = sy_group (g_systems g sys)
           in update_sched (\<lambda>sc. sc\<lparr>
                sc_systems_by_group :=
                  (case map_of (sc_systems_by_group sc) key of
                     None \<Rightarrow> sc_systems_by_group sc
                   | Some vec \<Rightarrow>
                       (let vec' = removeAll sys vec
                        in if vec' = [] then AList.delete key (sc_systems_by_group sc)
                           else AList.update key vec' (sc_systems_by_group sc))),
                sc_order_cache := (sc_order_cache sc)(key := None),
                sc_next_run := (sc_next_run sc)(sys := None)\<rparr>) g))"

definition sched_clear :: "'u game \<Rightarrow> 'u game" where
  "sched_clear g = g\<lparr>g_sched := empty_scheduler\<rparr>"

definition system_count :: "scheduler \<Rightarrow> nat" where
  "system_count sc = (\<Sum>kv\<leftarrow>sc_systems_by_group sc. length (snd kv))"

text \<open>The groups come in the iteration order of the hash map.\<close>

definition collect_systems :: "((string \<times> sysptr list) list \<Rightarrow> (string \<times> sysptr list) list) \<Rightarrow> scheduler \<Rightarrow> sysptr list" where
  "collect_systems hash_order sc = concat (map snd (hash_order (sc_systems_by_group sc)))"

section \<open>The order of a group\<close>

definition group_graph :: "('u, 'v) sys_env \<Rightarrow> (sysptr \<Rightarrow> system) \<Rightarrow> sysptr list \<Rightarrow> graph" where
  "group_graph S sy systems = build_graph (map (\<lambda>s. get_system_name S (sy s)) systems) (map (se_deps S) systems)"

definition recompute_order :: "('u, 'v) sys_env \<Rightarrow> string \<Rightarrow> 'u game \<Rightarrow> 'u game option" where
  "recompute_order S p_group g =
     (case map_of (sc_systems_by_group (g_sched g)) p_group of
        None \<Rightarrow> Some (update_sched (\<lambda>sc. sc\<lparr>sc_order_cache := (sc_order_cache sc)(p_group := None)\<rparr>) g)
      | Some systems \<Rightarrow>
          (case topological_order (group_graph S (g_systems g) systems) of
             None \<Rightarrow> None
           | Some order \<Rightarrow>
               Some (update_sched (\<lambda>sc. sc\<lparr>sc_order_cache :=
                 (sc_order_cache sc)(p_group \<mapsto> map ((!) systems) order)\<rparr>) g)))"

definition ordered :: "('u, 'v) sys_env \<Rightarrow> string \<Rightarrow> 'u game \<Rightarrow> (sysptr list \<times> 'u game) option" where
  "ordered S p_group g =
     (case sc_order_cache (g_sched g) p_group of
        Some v \<Rightarrow> Some (v, g)
      | None \<Rightarrow>
          (case recompute_order S p_group g of
             None \<Rightarrow> None
           | Some g1 \<Rightarrow>
               (case sc_order_cache (g_sched g1) p_group of
                  None \<Rightarrow> Some ([], g1)
                | Some v \<Rightarrow> Some (v, g1))))"

section \<open>Processing a group\<close>

definition flush_buffers :: "('u, 'v) sys_env \<Rightarrow> 'u game \<Rightarrow> 'u game" where
  "flush_buffers S g = g\<lparr>g_world := execute_commands (se_env S) (g_world g)\<rparr>"

definition elapsed_of :: "scheduler \<Rightarrow> string \<Rightarrow> rat" where
  "elapsed_of sc key = (case sc_elapsed_by_group sc key of None \<Rightarrow> 0 | Some x \<Rightarrow> x)"

definition handle_and_flush :: "('u, 'v) sys_env \<Rightarrow> rat \<Rightarrow> sysptr \<Rightarrow> 'u game \<Rightarrow> 'u game" where
  "handle_and_flush S p_delta sys g =
     (let g1 = handle S sys p_delta g
      in if sy_flush_mode (g_systems g1 sys) = PER_SYSTEM then flush_buffers S g1 else g1)"

definition run_system :: "('u, 'v) sys_env \<Rightarrow> rat \<Rightarrow> string \<Rightarrow> sysptr \<Rightarrow> 'u game \<Rightarrow> 'u game" where
  "run_system S p_delta key sys g =
     (let y = g_systems g sys
      in if \<not> sy_active y \<or> sy_paused y then g
         else if sy_tick_interval y > 0 then
           (let last = (case sc_next_run (g_sched g) sys of None \<Rightarrow> 0 | Some t \<Rightarrow> t);
                elapsed = elapsed_of (g_sched g) key
            in if elapsed < last + sy_tick_interval y then g
               else handle_and_flush S p_delta sys
                 (update_sched (\<lambda>sc. sc\<lparr>sc_next_run := (sc_next_run sc)(sys \<mapsto> elapsed)\<rparr>) g))
         else handle_and_flush S p_delta sys g)"

definition sched_process :: "('u, 'v) sys_env \<Rightarrow> rat \<Rightarrow> string \<Rightarrow> 'u game \<Rightarrow> 'u game option" where
  "sched_process S p_delta key g =
     (let g1 = update_sched (\<lambda>sc. sc\<lparr>sc_elapsed_by_group :=
            (sc_elapsed_by_group sc)(key \<mapsto> elapsed_of sc key + p_delta)\<rparr>) g
      in case map_of (sc_systems_by_group (g_sched g1)) key of
           None \<Rightarrow> Some g1
         | Some [] \<Rightarrow> Some g1
         | Some _ \<Rightarrow>
             (case ordered S key g1 of
                None \<Rightarrow> None
              | Some (systems, g2) \<Rightarrow>
                  (let g3 = fold (run_system S p_delta key) systems g2
                   in Some (if list_ex (\<lambda>sys. sy_flush_mode (g_systems g3 sys) = PER_GROUP) systems
                            then flush_buffers S g3 else g3))))"

section \<open>Entry points of the world\<close>

definition set_core :: "sysptr \<Rightarrow> bool \<Rightarrow> 'u game \<Rightarrow> 'u game" where
  "set_core sys b g = g\<lparr>g_systems := (g_systems g)(sys := (g_systems g sys)\<lparr>sy_core := b\<rparr>)\<rparr>"

definition world_add_system :: "('u, 'v) sys_env \<Rightarrow> sysptr option \<Rightarrow> 'u game \<Rightarrow> 'u game" where
  "world_add_system S p_system g =
     (case p_system of
        None \<Rightarrow> g
      | Some sys \<Rightarrow> add_system (Some sys) (se_setup S sys (set_core sys True g)))"

definition world_remove_system :: "sysptr option \<Rightarrow> 'u game \<Rightarrow> 'u game" where
  "world_remove_system p_system g =
     (case p_system of
        None \<Rightarrow> g
      | Some sys \<Rightarrow> set_core sys False (remove_system (Some sys) g))"

definition world_process :: "('u, 'v) sys_env \<Rightarrow> rat \<Rightarrow> string \<Rightarrow> 'u game \<Rightarrow> 'u game option" where
  "world_process S p_delta p_group g =
     sched_process S p_delta p_group (g\<lparr>g_world := bump_tick (g_world g)\<rparr>)"

section \<open>The order is total and a permutation\<close>

lemma graph_of_group:
  "graph_ok (length systems) (group_graph S sy systems)"
  using build_graph_ok(1) [of "map (\<lambda>s. get_system_name S (sy s)) systems"] by (simp add: group_graph_def)

lemma mset_permuted:
  assumes "distinct ps" "set ps = {..<length xs}"
  shows "mset (map ((!) xs) ps) = mset xs"
proof -
  have "mset ps = mset [0..<length xs]"
    using assms set_eq_iff_mset_eq_distinct [of ps "[0..<length xs]"] by (simp add: atLeast0LessThan)
  then have "mset (map ((!) xs) ps) = mset (map ((!) xs) [0..<length xs])" by (metis mset_map)
  then show ?thesis by (simp add: map_nth)
qed

text \<open>\<open>cached key v g\<close>: the scheduler with \<open>v\<close> as the cached order of a group.\<close>

definition cached :: "string \<Rightarrow> sysptr list option \<Rightarrow> 'u game \<Rightarrow> 'u game" where
  "cached key v g = update_sched (\<lambda>sc. sc\<lparr>sc_order_cache := (sc_order_cache sc)(key := v)\<rparr>) g"

lemma cached_fields [simp]:
  "g_world (cached key v g) = g_world g" "g_systems (cached key v g) = g_systems g"
  "sc_systems_by_group (g_sched (cached key v g)) = sc_systems_by_group (g_sched g)"
  "sc_order_cache (g_sched (cached key v g)) = (sc_order_cache (g_sched g))(key := v)"
  "sc_next_run (g_sched (cached key v g)) = sc_next_run (g_sched g)"
  "sc_elapsed_by_group (g_sched (cached key v g)) = sc_elapsed_by_group (g_sched g)"
  by (simp_all add: cached_def update_sched_def)

lemma recompute_order_None:
  "map_of (sc_systems_by_group (g_sched g)) key = None \<Longrightarrow> recompute_order S key g = Some (cached key None g)"
  by (simp add: recompute_order_def cached_def)

lemma recompute_order_Some:
  assumes "map_of (sc_systems_by_group (g_sched g)) key = Some vec"
  shows "\<exists>v. recompute_order S key g = Some (cached key (Some v) g) \<and> mset v = mset vec"
proof -
  obtain ps where ps: "topological_order (group_graph S (g_systems g) vec) = Some ps" "distinct ps" "set ps = {..<length vec}"
    using topological_order_permutation [OF graph_of_group] by blast
  then have "recompute_order S key g = Some (cached key (Some (map ((!) vec) ps)) g)"
    using assms by (simp add: recompute_order_def cached_def)
  then show ?thesis using mset_permuted [OF ps(2,3)] by blast
qed

text \<open>
  The invariant of the registration: a group that is present is not empty, and a cached order is
  a permutation of its group.
\<close>

definition sched_ok :: "scheduler \<Rightarrow> bool" where
  "sched_ok sc \<longleftrightarrow> distinct (map fst (sc_systems_by_group sc)) \<and> (\<forall>(k, vec)\<in>set (sc_systems_by_group sc). vec \<noteq> [])
     \<and> (\<forall>k v. sc_order_cache sc k = Some v \<longrightarrow>
          (\<exists>vec. map_of (sc_systems_by_group sc) k = Some vec \<and> mset v = mset vec))"

lemma sched_ok_ordered:
  assumes ok: "sched_ok (g_sched g)" and vec: "map_of (sc_systems_by_group (g_sched g)) key = Some vec"
  shows "\<exists>v. ordered S key g = Some (v, cached key (Some v) g) \<and> mset v = mset vec
    \<and> sched_ok (g_sched (cached key (Some v) g))"
proof (cases "sc_order_cache (g_sched g) key")
  case None
  obtain v where v: "recompute_order S key g = Some (cached key (Some v) g)" "mset v = mset vec"
    using recompute_order_Some [OF vec] by blast
  have "sched_ok (g_sched (cached key (Some v) g))" using ok v(2) vec by (auto simp: sched_ok_def)
  then show ?thesis using None v by (simp add: ordered_def)
next
  case (Some v)
  have "cached key (Some v) g = g" using Some by (simp add: cached_def update_sched_def fun_upd_idem)
  moreover have "mset v = mset vec" using ok Some vec unfolding sched_ok_def by (metis option.inject)
  ultimately show ?thesis using Some ok by (simp add: ordered_def)
qed

lemma sched_ok_register:
  "sched_ok empty_scheduler"
  "sched_ok (g_sched g) \<Longrightarrow> sched_ok (g_sched (add_system p g))"
  "sched_ok (g_sched g) \<Longrightarrow> sched_ok (g_sched (remove_system p g))"
proof -
  show "sched_ok empty_scheduler" by (simp add: sched_ok_def empty_scheduler_def)
  have upd: "sched_ok (sc\<lparr>sc_systems_by_group := AList.update key v (sc_systems_by_group sc),
      sc_order_cache := (sc_order_cache sc)(key := None)\<rparr>)" if "sched_ok sc" "v \<noteq> []" for sc key v
  proof -
    have "set (AList.update key v al) \<subseteq> insert (key, v) (set al)" for al :: "(string \<times> sysptr list) list"
      by (induction al) auto
    then show ?thesis using that by (fastforce simp: sched_ok_def distinct_update update_conv')
  qed
  have del: "sched_ok (sc\<lparr>sc_systems_by_group := AList.delete key (sc_systems_by_group sc),
      sc_order_cache := (sc_order_cache sc)(key := None)\<rparr>)" if "sched_ok sc" for sc key
  proof -
    have "set (AList.delete key al) \<subseteq> set al" for al :: "(string \<times> sysptr list) list"
      by (auto simp: AList.delete_eq)
    then show ?thesis using that by (fastforce simp: sched_ok_def distinct_delete delete_conv' simp del: map_of_eq_Some_iff)
  qed
  have none: "sched_ok (sc\<lparr>sc_order_cache := (sc_order_cache sc)(key := None)\<rparr>)" if "sched_ok sc" for sc key
    using that by (auto simp: sched_ok_def)
  have run: "sched_ok (sc\<lparr>sc_next_run := f\<rparr>) = sched_ok sc" for sc f by (simp add: sched_ok_def)
  show "sched_ok (g_sched g) \<Longrightarrow> sched_ok (g_sched (add_system p g))"
    using upd by (auto simp: add_system_def Let_def update_sched_def split: option.split)
  show "sched_ok (g_sched g) \<Longrightarrow> sched_ok (g_sched (remove_system p g))"
    using upd del none by (auto simp: remove_system_def Let_def update_sched_def run split: option.split)
qed

section \<open>What the order respects\<close>

definition last_named :: "string list \<Rightarrow> string \<Rightarrow> nat \<Rightarrow> bool" where
  "last_named names s i \<longleftrightarrow> i < length names \<and> names ! i = s \<and> (\<forall>k. i < k \<and> k < length names \<longrightarrow> names ! k \<noteq> s)"

text \<open>System number \<open>i\<close> of a group has to run before number \<open>j\<close>: either declares it of the other.\<close>

definition runs_first :: "('u, 'v) sys_env \<Rightarrow> (sysptr \<Rightarrow> system) \<Rightarrow> sysptr list \<Rightarrow> nat \<Rightarrow> nat \<Rightarrow> bool" where
  "runs_first S sy systems i j \<longleftrightarrow> i < length systems \<and> j < length systems \<and>
     (\<exists>d. (d \<in> set (se_deps S (systems ! j)) \<and> sd_order d = After
            \<and> last_named (map (\<lambda>s. get_system_name S (sy s)) systems) (sd_target d) i)
        \<or> (d \<in> set (se_deps S (systems ! i)) \<and> sd_order d = Before
            \<and> last_named (map (\<lambda>s. get_system_name S (sy s)) systems) (sd_target d) j))"

lemma last_named_idx: "last_named names s i \<longleftrightarrow> name_to_idx names s = Some i"
  by (simp add: last_named_def name_to_idx_Some)

lemma edges_group_graph: "edges (group_graph S sy systems) = {(i, j). runs_first S sy systems i j}"
proof -
  let ?names = "map (\<lambda>s. get_system_name S (sy s)) systems"
  have e: "(i, j) \<in> dep_edge ?names k d \<longleftrightarrow>
      (sd_order d = After \<and> name_to_idx ?names (sd_target d) = Some i \<and> j = k)
      \<or> (sd_order d = Before \<and> name_to_idx ?names (sd_target d) = Some j \<and> i = k)" for i j k d
    by (auto simp: dep_edge_def split: option.split system_order.split)
  have "name_to_idx ?names s = Some i \<Longrightarrow> i < length systems" for s i
    using name_to_idx_less [of ?names] by simp
  then show ?thesis
    unfolding group_graph_def build_graph_ok(2) runs_first_def last_named_idx by (simp add: e set_eq_iff Bex_def Ball_def) blast
qed

lemma recompute_order_positions:
  assumes vec: "map_of (sc_systems_by_group (g_sched g)) key = Some vec"
  shows "\<exists>ps. topological_order (group_graph S (g_systems g) vec) = Some ps
    \<and> recompute_order S key g = Some (cached key (Some (map ((!) vec) ps)) g)"
  using topological_order_permutation [OF graph_of_group [where systems = vec and S = S and sy = "g_systems g"]] vec
  by (auto simp: recompute_order_def cached_def)

lemma recompute_order_ends:
  "\<exists>v. recompute_order S key g = Some (cached key v g)
    \<and> map_option mset v = map_option mset (map_of (sc_systems_by_group (g_sched g)) key)"
proof (cases "map_of (sc_systems_by_group (g_sched g)) key")
  case None
  then show ?thesis using recompute_order_None [OF None] by (intro exI [of _ None]) simp
next
  case (Some vec)
  then show ?thesis using recompute_order_Some [OF Some, of S] by (metis option.map(2))
qed

lemma sched_process_ends: "\<exists>g'. sched_process S p_delta key g = Some g'"
proof -
  have o: "ordered S key u \<noteq> None" for u :: "'a game"
    using recompute_order_ends [of S key u] by (auto simp: ordered_def split: option.split)
  show ?thesis
    by (simp add: sched_process_def Let_def o del: not_None_eq split: option.split list.split)
qed

text \<open>
  C28. Ordering a group and processing it always come to an end, whatever systems are
  registered and whatever dependencies they declare (cycles, self-dependencies, unknown and
  ambiguous names included): Kahn's loop terminates. The order cached for the group is a
  permutation of its systems, so no system is lost or run twice; only the cache changes.
\<close>

theorem recompute_order_total:
  fixes S :: "('u, 'v) sys_env" and g :: "'u game"
  shows "(\<exists>v. recompute_order S key g = Some (cached key v g)
      \<and> map_option mset v = map_option mset (map_of (sc_systems_by_group (g_sched g)) key))
    \<and> (\<exists>g'. sched_process S p_delta key g = Some g')"
  using recompute_order_ends sched_process_ends by blast

text \<open>
  C27. The order of a group respects the declared dependencies: positions run as listed in
  \<open>ps\<close>, each once; whatever has to run first does run first, for every system that is not on or
  behind a dependency cycle; the systems on or behind a cycle come last, in insertion order; and
  without dependencies the order is the insertion order.
\<close>

theorem dependencies_respected:
  fixes S :: "('u, 'v) sys_env" and g :: "'u game"
  assumes "map_of (sc_systems_by_group (g_sched g)) key = Some vec"
  defines "E \<equiv> {(i, j). runs_first S (g_systems g) vec i j}"
  shows "\<exists>xs ps. ps = xs @ filter (behind_cycle E) [0..<length vec] \<and> distinct ps \<and> set ps = {..<length vec}
    \<and> recompute_order S key g = Some (cached key (Some (map ((!) vec) ps)) g)
    \<and> (\<forall>i j. runs_first S (g_systems g) vec i j \<and> \<not> behind_cycle E j \<longrightarrow> before ps i j)
    \<and> (E = {} \<longrightarrow> ps = [0..<length vec])"
proof -
  let ?G = "group_graph S (g_systems g) vec"
  have E: "edges ?G = E" unfolding E_def by (rule edges_group_graph)
  have ok: "graph_ok (length vec) ?G" by (rule graph_of_group)
  obtain xs where xs: "topological_order ?G = Some (xs @ filter (behind_cycle E) [0..<length vec])" "distinct xs"
    "set xs = {j. j < length vec \<and> \<not> behind_cycle E j}" "\<forall>(i, j)\<in>E. j \<in> set xs \<longrightarrow> before xs i j"
    using topological_order_result [OF ok, unfolded E] by (elim exE conjE) (rule that)
  define ps where "ps = xs @ filter (behind_cycle E) [0..<length vec]"
  have "recompute_order S key g = Some (cached key (Some (map ((!) vec) ps)) g)"
    using recompute_order_positions [OF assms(1), of S] xs(1) by (auto simp: ps_def)
  moreover have "before ps i j" if "runs_first S (g_systems g) vec i j" "\<not> behind_cycle E j" for i j
  proof -
    have "(i, j) \<in> E" "j \<in> set xs" using that xs(3) by (auto simp: E_def runs_first_def)
    then have "before xs i j" using xs(4) by auto
    then show ?thesis unfolding ps_def by (rule before_append)
  qed
  moreover have "E = {} \<longrightarrow> ps = [0..<length vec]"
    using topological_order_no_edges [OF ok] xs(1) by (auto simp: E ps_def)
  ultimately show ?thesis
    using xs(2,3) by (intro exI [of _ xs] exI [of _ ps]) (auto simp: ps_def)
qed

section \<open>What processing a group does\<close>

text \<open>A system runs when it is active, not paused, and its interval has passed since it last ran.\<close>

definition due :: "scheduler \<Rightarrow> (sysptr \<Rightarrow> system) \<Rightarrow> string \<Rightarrow> sysptr \<Rightarrow> bool" where
  "due sc sy key s \<longleftrightarrow> sy_active (sy s) \<and> \<not> sy_paused (sy s) \<and>
     (sy_tick_interval (sy s) \<le> 0 \<or>
      (case sc_next_run sc s of None \<Rightarrow> 0 | Some t \<Rightarrow> t) + sy_tick_interval (sy s) \<le> elapsed_of sc key)"

text \<open>The turn of a system whose handler only works on the world, as \<open>h\<close>.\<close>

definition turn :: "('u, 'v) sys_env \<Rightarrow> (sysptr \<Rightarrow> rat \<Rightarrow> 'u world \<Rightarrow> 'u world) \<Rightarrow> rat \<Rightarrow> (sysptr \<Rightarrow> system) \<Rightarrow>
    sysptr \<Rightarrow> 'u world \<Rightarrow> 'u world" where
  "turn S h p_delta sy s w =
     (let w1 = if sy_core (sy s) then h s p_delta w else w
      in if sy_flush_mode (sy s) = PER_SYSTEM then execute_commands (se_env S) w1 else w1)"

definition ran_at :: "(sysptr \<Rightarrow> system) \<Rightarrow> rat \<Rightarrow> sysptr set \<Rightarrow> (sysptr \<rightharpoonup> rat) \<Rightarrow> (sysptr \<rightharpoonup> rat)" where
  "ran_at sy now R m = (\<lambda>s. if s \<in> R \<and> sy_tick_interval (sy s) > 0 then Some now else m s)"

definition world_only :: "('u, 'v) sys_env \<Rightarrow> (sysptr \<Rightarrow> rat \<Rightarrow> 'u world \<Rightarrow> 'u world) \<Rightarrow> bool" where
  "world_only S h \<longleftrightarrow> (\<forall>s p_delta g. se_tick S s p_delta g = g\<lparr>g_world := h s p_delta (g_world g)\<rparr>)"

lemma run_system_due:
  assumes h: "world_only S h"
  shows "run_system S p_delta key s g =
    (if due (g_sched g) (g_systems g) key s then
       g\<lparr>g_world := turn S h p_delta (g_systems g) s (g_world g),
         g_sched := (g_sched g)\<lparr>sc_next_run := ran_at (g_systems g) (elapsed_of (g_sched g) key) {s} (sc_next_run (g_sched g))\<rparr>\<rparr>
     else g)"
proof -
  have hf: "handle_and_flush S p_delta s u = u\<lparr>g_world := turn S h p_delta (g_systems u) s (g_world u)\<rparr>" for u
    using h by (simp add: handle_and_flush_def handle_def turn_def flush_buffers_def world_only_def Let_def)
  have idem: "ran_at (g_systems g) now {s} m = (if sy_tick_interval (g_systems g s) > 0 then m(s \<mapsto> now) else m)" for now m
    by (auto simp: ran_at_def)
  show ?thesis
    by (auto simp: run_system_def due_def hf update_sched_def idem Let_def not_less)
qed

lemma due_other:
  "x \<noteq> s \<Longrightarrow> due (sc\<lparr>sc_next_run := ran_at sy now {s} (sc_next_run sc)\<rparr>) sy key x = due sc sy key x"
  by (simp add: due_def ran_at_def elapsed_of_def)

lemma run_systems:
  assumes h: "world_only S h" and d: "distinct xs"
  shows "fold (run_system S p_delta key) xs g =
     g\<lparr>g_world := fold (turn S h p_delta (g_systems g)) (filter (due (g_sched g) (g_systems g) key) xs) (g_world g),
       g_sched := (g_sched g)\<lparr>sc_next_run := ran_at (g_systems g) (elapsed_of (g_sched g) key)
         {s \<in> set xs. due (g_sched g) (g_systems g) key s} (sc_next_run (g_sched g))\<rparr>\<rparr>"
  using d
proof (induction xs arbitrary: g)
  case Nil
  then show ?case by (simp add: ran_at_def)
next
  case (Cons x xs)
  let ?sc = "g_sched g" and ?sy = "g_systems g"
  show ?case
  proof (cases "due ?sc ?sy key x")
    case False
    then have "{s \<in> set (x # xs). due ?sc ?sy key s} = {s \<in> set xs. due ?sc ?sy key s}" by auto
    then show ?thesis using False Cons by (simp add: run_system_due [OF h])
  next
    case True
    let ?sc1 = "?sc\<lparr>sc_next_run := ran_at ?sy (elapsed_of ?sc key) {x} (sc_next_run ?sc)\<rparr>"
    have x: "x \<notin> set xs" using Cons.prems by simp
    have o: "due ?sc1 ?sy key y = due ?sc ?sy key y" if "y \<in> set xs" for y
      by (rule due_other) (use that x in auto)
    then have f: "filter (due ?sc1 ?sy key) xs = filter (due ?sc ?sy key) xs"
      and s: "{s \<in> set xs. due ?sc1 ?sy key s} = {s \<in> set xs. due ?sc ?sy key s}"
      by (auto intro!: filter_cong)
    have e: "elapsed_of ?sc1 key = elapsed_of ?sc key" by (simp add: elapsed_of_def)
    have r: "ran_at ?sy now A (ran_at ?sy now {x} m) = ran_at ?sy now (insert x A) m" for now A m
      by (auto simp: ran_at_def)
    have i: "insert x {s \<in> set xs. due ?sc ?sy key s} = {s \<in> set (x # xs). due ?sc ?sy key s}" using True by auto
    define g1 where "g1 = g\<lparr>g_world := turn S h p_delta ?sy x (g_world g), g_sched := ?sc1\<rparr>"
    have "fold (run_system S p_delta key) (x # xs) g = fold (run_system S p_delta key) xs g1"
      using True by (simp add: run_system_due [OF h, of p_delta key x g] g1_def)
    also have "\<dots> = g1\<lparr>g_world := fold (turn S h p_delta ?sy) (filter (due ?sc ?sy key) xs) (g_world g1),
       g_sched := ?sc1\<lparr>sc_next_run := ran_at ?sy (elapsed_of ?sc key)
         {s \<in> set xs. due ?sc ?sy key s} (sc_next_run ?sc1)\<rparr>\<rparr>"
      using Cons.IH [of g1] Cons.prems by (simp add: g1_def f s e)
    finally show ?thesis using True by (simp add: g1_def r i)
  qed
qed

text \<open>
  C29. Processing a group: its clock advances by \<open>delta\<close>; exactly the systems that are
  active, not paused and due run, once each, in the cached order (a permutation of the group);
  the buffer is flushed right after every \<open>PER_SYSTEM\<close> system that ran, and once at the end when
  the group has a \<open>PER_GROUP\<close> system; the timers of the interval systems that ran, and nothing
  else, are set. (Systems registered once, with handlers that work on the world.)
\<close>

theorem process_runs_due_systems:
  fixes S :: "('u, 'v) sys_env" and g :: "'u game" and p_delta :: rat
  assumes ok: "sched_ok (g_sched g)" and vec: "map_of (sc_systems_by_group (g_sched g)) key = Some vec"
    and dist: "distinct vec" and h: "world_only S h"
  defines "sy \<equiv> g_systems g"
    and "now \<equiv> elapsed_of (g_sched g) key + p_delta"
    and "sc \<equiv> (g_sched g)\<lparr>sc_elapsed_by_group := (sc_elapsed_by_group (g_sched g))(key \<mapsto> elapsed_of (g_sched g) key + p_delta)\<rparr>"
  shows "\<exists>order. mset order = mset vec \<and> (\<forall>v. sc_order_cache (g_sched g) key = Some v \<longrightarrow> order = v)
    \<and> sched_process S p_delta key g = Some \<lparr>
        g_world = (if \<exists>s\<in>set vec. sy_flush_mode (sy s) = PER_GROUP then execute_commands (se_env S) else id)
          (fold (turn S h p_delta sy) (filter (due sc sy key) order) (g_world g)),
        g_systems = sy,
        g_sched = sc\<lparr>sc_order_cache := (sc_order_cache sc)(key \<mapsto> order),
                     sc_next_run := ran_at sy now {s \<in> set vec. due sc sy key s} (sc_next_run sc)\<rparr>\<rparr>"
proof -
  let ?g1 = "update_sched (\<lambda>sc. sc\<lparr>sc_elapsed_by_group := (sc_elapsed_by_group sc)(key \<mapsto> elapsed_of sc key + p_delta)\<rparr>) g"
  have g1: "g_sched ?g1 = sc" "g_systems ?g1 = sy" "g_world ?g1 = g_world g"
    by (simp_all add: update_sched_def sc_def sy_def)
  have ne: "vec \<noteq> []" using ok vec by (auto simp: sched_ok_def)
  have sc: "sched_ok sc" "map_of (sc_systems_by_group sc) key = Some vec" "sc_order_cache sc = sc_order_cache (g_sched g)"
    "elapsed_of sc key = now"
    using ok vec by (simp_all add: sched_ok_def sc_def elapsed_of_def now_def del: map_of_eq_Some_iff)
  obtain order where o: "ordered S key ?g1 = Some (order, cached key (Some order) ?g1)" "mset order = mset vec"
    using sched_ok_ordered [of ?g1 key vec S] sc g1(1) by auto
  have cache: "\<forall>v. sc_order_cache (g_sched g) key = Some v \<longrightarrow> order = v"
    using o(1) g1(1) sc(3) by (auto simp: ordered_def)
  have set: "set order = set vec" "distinct order" using o(2) dist by (metis mset_eq_setD, metis mset_eq_imp_distinct_iff)
  define g2 where "g2 = cached key (Some order) ?g1"
  have du: "due (sc\<lparr>sc_order_cache := c\<rparr>) sy key = due sc sy key" "elapsed_of (sc\<lparr>sc_order_cache := c\<rparr>) key = now" for c
    using sc(4) by (auto simp: due_def elapsed_of_def)
  have ex: "list_ex (\<lambda>s. sy_flush_mode (sy s) = PER_GROUP) order \<longleftrightarrow> (\<exists>s\<in>set vec. sy_flush_mode (sy s) = PER_GROUP)"
    using set by (simp add: list_ex_iff)
  have g2: "g2 = \<lparr>g_world = g_world g, g_systems = sy, g_sched = sc\<lparr>sc_order_cache := (sc_order_cache sc)(key \<mapsto> order)\<rparr>\<rparr>"
    using g1 by (simp add: g2_def cached_def update_sched_def)
  have "sched_process S p_delta key g =
    Some (let g3 = fold (run_system S p_delta key) order g2
          in if list_ex (\<lambda>sys. sy_flush_mode (g_systems g3 sys) = PER_GROUP) order then flush_buffers S g3 else g3)"
    using g1(1) sc(2) ne by (cases vec) (simp_all add: sched_process_def o(1) Let_def g2_def)
  also have "\<dots> = Some \<lparr>
        g_world = (if \<exists>s\<in>set vec. sy_flush_mode (sy s) = PER_GROUP then execute_commands (se_env S) else id)
          (fold (turn S h p_delta sy) (filter (due sc sy key) order) (g_world g)),
        g_systems = sy,
        g_sched = sc\<lparr>sc_order_cache := (sc_order_cache sc)(key \<mapsto> order),
                     sc_next_run := ran_at sy now {s \<in> set vec. due sc sy key s} (sc_next_run sc)\<rparr>\<rparr>"
    by (simp add: run_systems [OF h set(2)] du g2 ex set(1) Let_def flush_buffers_def)
  finally show ?thesis using o(2) cache by blast
qed

section \<open>What processing keeps\<close>

text \<open>A tidy world is well formed, and no queued command creates an entity with a chosen id.\<close>

definition tidy :: "('u, 'v) env \<Rightarrow> 'u world \<Rightarrow> bool" where
  "tidy E w \<longleftrightarrow> wf_world (env_registry E) w \<and> (\<forall>e. AddEntity e \<notin> set (w_command_buffer w))"

lemma commit_deferred_move_buffer:
  assumes wf: "wf_store (env_registry E) w" and p: "passive_env E"
  shows "wf_store (env_registry E) (commit_deferred_move E e w)
    \<and> w_command_buffer (commit_deferred_move E e w) = w_command_buffer w"
proof (cases "location_of w e = None \<or> w_pending_ops w e = None")
  case True
  then have "commit_deferred_move E e w = w" by (auto simp: commit_deferred_move_def split: option.split)
  then show ?thesis using wf by simp
next
  case False
  then obtain l ops where l: "location_of w e = Some l" "w_pending_ops w e = Some ops" by auto
  obtain v cs fs L where v: "wf_store (env_registry E) v" "ctl v = ctl w"
    "commit_deferred_move E e w = commit_events E e cs fs L v
         \<or> commit_deferred_move E e w = invalidate_cache (commit_events E e cs fs L v)"
    using commit_core [OF wf l] by blast
  have s: "same_store v (commit_deferred_move E e w)"
    using v(3) commit_events_store(2) [OF p] same_store_trans [OF commit_events_store(2) [OF p] same_store_ops(4)] by metis
  have "ctl (commit_deferred_move E e w) = ctl w"
    using v(2,3) commit_events_store(3) [OF p] by (metis ctl_invalidate)
  then show ?thesis using same_store_wf(1) [OF s v(1)] by (simp add: ctl_def)
qed

lemma end_deferred_buffer:
  assumes wf: "wf_store (env_registry E) w" and p: "passive_env E" and it: "\<not> in_iteration w"
  shows "w_command_buffer (end_deferred_moves E w) = w_command_buffer w"
proof -
  let ?w1 = "w\<lparr>w_defer_moves := False\<rparr>"
  let ?w2 = "fold (\<lambda>e u. if e \<in> w_pending_destroy u then destroy_entity E e u else u) (w_deferred_entities w) ?w1"
  have "\<not> in_iteration ?w1" using it by (simp add: in_iteration_def)
  note d = destroy_phase [OF same_store_wf(1) [OF same_store_updates(13) wf] p this, of "w_deferred_entities w"]
  have "wf_store (env_registry E) (fold (\<lambda>e u. if e \<in> w_pending_destroy u then u else commit_deferred_move E e u) es u)
    \<and> w_command_buffer (fold (\<lambda>e u. if e \<in> w_pending_destroy u then u else commit_deferred_move E e u) es u) = w_command_buffer u"
    if "wf_store (env_registry E) u" for es u
    using that by (induction es arbitrary: u) (simp_all add: commit_deferred_move_buffer [OF _ p])
  from this [of ?w2 "w_deferred_entities w"] d show ?thesis
    by (simp add: end_deferred_moves_def Let_def flush_invalidation_def)
qed

lemma run_command_frame:
  assumes c: "passive_custom E" and na: "\<And>e. cm \<noteq> AddEntity e" and d: "w_defer_moves w" "\<not> in_iteration w"
  shows "w_command_buffer (run_command E cm w) = w_command_buffer w \<and> w_defer_moves (run_command E cm w)
    \<and> \<not> in_iteration (run_command E cm w)"
proof (cases cm)
  case (CustomCommand i bs)
  have "\<exists>u. run_command E cm w = w\<lparr>w_client := u\<rparr>"
  proof (cases "w_custom_commands w i")
    case None
    then show ?thesis using CustomCommand by (intro exI [of _ "w_client w"]) (simp add: run_custom_command_def)
  qed (use c CustomCommand in \<open>simp add: run_custom_command_def passive_custom_def\<close>)
  then show ?thesis using d by (auto simp: in_iteration_def)
qed (use d na in \<open>auto simp: add_raw_def remove_component_def destroy_entity_deferred_def queue_deferred_move_def
      push_pending_def in_iteration_def Let_def split: option.split\<close>)

lemma execute_commands_tidy:
  assumes t: "tidy E w" and p: "passive_env E" "passive_custom E"
  shows "tidy E (execute_commands E w)"
proof (cases "w_command_buffer w = [] \<or> in_iteration w")
  case True
  then show ?thesis using t by (auto simp: execute_commands_def)
next
  case False
  have wf: "wf_world (env_registry E) w" and na: "\<And>e. AddEntity e \<notin> set (w_command_buffer w)" using t by (auto simp: tidy_def)
  note cb = passive_keeps_world [OF p(1)]
  have kc: "keeps_custom E" using passive_custom_step(1) [OF p(2)] by (simp add: keeps_custom_def)
  let ?w1 = "begin_deferred_moves (begin_suppress (w\<lparr>w_command_buffer := []\<rparr>))"
  have s: "same_store w ?w1"
    using same_store_trans [OF same_store_trans [OF same_store_updates(16) same_store_ops(8)] same_store_ops(10)] .
  have w1: "wf_world (env_registry E) ?w1"
    by (rule control_step_world(1) [OF wf s]) (simp_all add: begin_deferred_moves_def begin_suppress_def)
  have f: "w_command_buffer (fold (run_command E) cs u) = w_command_buffer u \<and> \<not> in_iteration (fold (run_command E) cs u)"
    if "\<And>e. AddEntity e \<notin> set cs" "w_defer_moves u" "\<not> in_iteration u" for cs u
    using that
  proof (induction cs arbitrary: u)
    case (Cons c cs)
    have "c \<noteq> AddEntity e" for e using Cons.prems(1) [of e] by auto
    note r = run_command_frame [OF p(2) this Cons.prems(2,3)]
    show ?case using Cons.IH [of "run_command E c u"] Cons.prems(1) r by simp
  qed simp
  let ?w2 = "fold (run_command E) (w_command_buffer w) ?w1"
  have w2: "w_command_buffer ?w2 = []" "\<not> in_iteration ?w2"
    using f [OF na, of ?w1] False by (simp_all add: begin_deferred_moves_def begin_suppress_def in_iteration_def)
  have "wf_world (env_registry E) ?w2" by (rule run_commands_world [OF w1 cb kc na])
  then have "w_command_buffer (end_deferred_moves E ?w2) = []"
    using end_deferred_buffer [OF _ p(1) w2(2)] w2(1) by (simp add: wf_world_def)
  then have "w_command_buffer (execute_commands E w) = []"
    using False by (simp add: execute_commands_def Let_def end_suppress_def flush_invalidation_def)
  moreover have "wf_world (env_registry E) (execute_commands E w)" by (rule execute_commands_world [OF wf cb kc na])
  ultimately show ?thesis by (simp add: tidy_def)
qed

definition game_ok :: "('u, 'v) sys_env \<Rightarrow> 'u game \<Rightarrow> bool" where
  "game_ok S g \<longleftrightarrow> tidy (se_env S) (g_world g) \<and> sched_ok (g_sched g)"

definition keeps_game :: "('u, 'v) sys_env \<Rightarrow> bool" where
  "keeps_game S \<longleftrightarrow> passive_env (se_env S) \<and> passive_custom (se_env S)
     \<and> (\<forall>s p_delta g. game_ok S g \<longrightarrow> game_ok S (se_tick S s p_delta g))
     \<and> (\<forall>s g. game_ok S g \<longrightarrow> game_ok S (se_setup S s g))"

lemma flush_buffers_ok: "keeps_game S \<Longrightarrow> game_ok S g \<Longrightarrow> game_ok S (flush_buffers S g)"
  using execute_commands_tidy [of "se_env S"] by (simp add: keeps_game_def game_ok_def flush_buffers_def)

lemma handle_and_flush_ok: "keeps_game S \<Longrightarrow> game_ok S g \<Longrightarrow> game_ok S (handle_and_flush S p_delta s g)"
  using flush_buffers_ok [of S] by (auto simp: handle_and_flush_def handle_def keeps_game_def Let_def)

lemma timers_ok: "game_ok S (update_sched (\<lambda>sc. sc\<lparr>sc_next_run := f sc\<rparr>) g) = game_ok S g"
  "game_ok S (update_sched (\<lambda>sc. sc\<lparr>sc_elapsed_by_group := f' sc\<rparr>) g) = game_ok S g"
  by (simp_all add: game_ok_def update_sched_def sched_ok_def)

lemma run_system_ok: "keeps_game S \<Longrightarrow> game_ok S g \<Longrightarrow> game_ok S (run_system S p_delta key s g)"
  using handle_and_flush_ok [of S] by (simp add: run_system_def Let_def timers_ok)

lemma run_systems_ok: "keeps_game S \<Longrightarrow> game_ok S g \<Longrightarrow> game_ok S (fold (run_system S p_delta key) xs g)"
  by (induction xs arbitrary: g) (simp_all add: run_system_ok)

lemma sched_process_ok:
  assumes k: "keeps_game S" and ok: "game_ok S g" and p: "sched_process S p_delta key g = Some g'"
  shows "game_ok S g'"
proof -
  let ?g1 = "update_sched (\<lambda>sc. sc\<lparr>sc_elapsed_by_group := (sc_elapsed_by_group sc)(key \<mapsto> elapsed_of sc key + p_delta)\<rparr>) g"
  have g1: "game_ok S ?g1" using ok by (simp add: timers_ok)
  show ?thesis
  proof (cases "map_of (sc_systems_by_group (g_sched ?g1)) key")
    case None
    then show ?thesis using p g1 by (simp add: sched_process_def Let_def)
  next
    case (Some vec)
    have "sched_ok (g_sched ?g1)" using g1 by (simp add: game_ok_def)
    then obtain v where v: "ordered S key ?g1 = Some (v, cached key (Some v) ?g1)" "sched_ok (g_sched (cached key (Some v) ?g1))"
      using sched_ok_ordered [OF _ Some] by blast
    have "game_ok S (cached key (Some v) ?g1)" using v(2) g1 by (simp add: game_ok_def)
    from run_systems_ok [OF k this]
    show ?thesis using p g1 Some v(1) flush_buffers_ok [OF k]
      by (auto simp: sched_process_def Let_def split: list.splits if_splits)
  qed
qed

text \<open>
  C30. The entry points of the world that drive systems keep its invariants: the store and the
  entity ids stay well formed, no creation with a chosen id is left in the command buffer, and
  the scheduler's groups and cached orders stay consistent, whatever the systems do that keeps
  this themselves and whatever the flushes between them apply.
\<close>

theorem systems_keep_world_wellformed:
  fixes S :: "('u, 'v) sys_env" and g :: "'u game"
  assumes k: "keeps_game S" and ok: "game_ok S g"
  shows "(\<exists>g'. world_process S p_delta p_group g = Some g' \<and> game_ok S g')
    \<and> game_ok S (world_add_system S p g) \<and> game_ok S (world_remove_system p g) \<and> game_ok S (sched_clear g)"
proof (intro conjI)
  let ?g0 = "g\<lparr>g_world := bump_tick (g_world g)\<rparr>"
  have "wf_world (env_registry (se_env S)) (bump_tick (g_world g))"
    by (rule control_step_world(1) [OF _ same_store_ops(1)]) (use ok in \<open>simp_all add: game_ok_def tidy_def bump_tick_def\<close>)
  then have g0: "game_ok S ?g0" using ok by (simp add: game_ok_def tidy_def bump_tick_def)
  obtain g' where "sched_process S p_delta p_group ?g0 = Some g'" using sched_process_ends by blast
  then show "\<exists>g'. world_process S p_delta p_group g = Some g' \<and> game_ok S g'"
    using sched_process_ok [OF k g0] by (simp add: world_process_def)
  have reg: "game_ok S (add_system p u)" "game_ok S (remove_system p u)" if "game_ok S u" for p and u :: "'u game"
  proof -
    have "g_world (add_system p u) = g_world u" "g_world (remove_system p u) = g_world u"
      by (auto simp: add_system_def remove_system_def update_sched_def Let_def split: option.split)
    then show "game_ok S (add_system p u)" "game_ok S (remove_system p u)"
      using that sched_ok_register by (auto simp: game_ok_def)
  qed
  have core: "game_ok S (set_core s b u) = game_ok S u" for s b and u :: "'u game" by (simp add: game_ok_def set_core_def)
  show "game_ok S (world_add_system S p g)" "game_ok S (world_remove_system p g)"
    using k ok by (auto simp: world_add_system_def world_remove_system_def reg core keeps_game_def split: option.split)
  show "game_ok S (sched_clear g)" using ok sched_ok_register(1) by (simp add: game_ok_def sched_clear_def)
qed

section \<open>A game with three systems\<close>

text \<open>
  System 1 (\<open>a\<close>) runs after system 2 (\<open>b\<close>); system 3 (\<open>c\<close>) has an interval. Every tick appends
  the system's number to the client state of the world.
\<close>

definition demo_tick :: "sysptr \<Rightarrow> rat \<Rightarrow> nat world \<Rightarrow> nat world" where
  "demo_tick s p_delta w = w\<lparr>w_client := 10 * w_client w + s\<rparr>"

definition demo_sys :: "(nat, unit) sys_env" where
  "demo_sys = \<lparr>se_env = sample_env, se_setup = (\<lambda>s g. g),
     se_deps = (\<lambda>s. if s = 1 then [\<lparr>sd_order = After, sd_target = ''b''\<rparr>, \<lparr>sd_order = Before, sd_target = ''x''\<rparr>] else []),
     se_tick = (\<lambda>s p_delta g. g\<lparr>g_world := demo_tick s p_delta (g_world g)\<rparr>), se_basename = (\<lambda>p. p)\<rparr>"

definition demo_systems :: "sysptr \<Rightarrow> system" where
  "demo_systems s = (new_system ''MoveSystem'')\<lparr>
     sy_name := (if s = 1 then ''a'' else if s = 2 then ''b'' else ''c''), sy_group := ''g'', sy_core := True,
     sy_tick_interval := (if s = 3 then 2 else 0)\<rparr>"

definition demo_game :: "nat game" where
  "demo_game = \<lparr>g_world = sample_world, g_systems = demo_systems,
     g_sched = empty_scheduler\<lparr>sc_systems_by_group := [(''g'', [1, 2, 3])]\<rparr>\<rparr>"

lemma demo_fields:
  "g_systems demo_game = demo_systems" "map_of (sc_systems_by_group (g_sched demo_game)) ''g'' = Some [1, 2, 3]"
  "g_world demo_game = sample_world" "sched_ok (g_sched demo_game)" "sc_order_cache (g_sched demo_game) = Map.empty"
  by (simp_all add: demo_game_def sched_ok_def empty_scheduler_def)

lemma demo_graph: "group_graph demo_sys demo_systems [1, 2, 3] = ([1, 0, 0], [[], [0], []])"
  by (simp add: group_graph_def build_graph_def add_dep_def name_to_idx_def add_edge_def demo_sys_def demo_systems_def
      get_system_name_def upt_rec)

lemma demo_edges: "{(i, j). runs_first demo_sys demo_systems [1, 2, 3] i j} = {(1, 0)}"
  unfolding edges_group_graph [symmetric] demo_graph by (auto simp: edges_def less_Suc_eq)

lemma demo_no_cycle: "\<not> behind_cycle {(1, 0)} j"
proof -
  have "(x, y) \<in> {(1, 0 :: nat)}\<^sup>+ \<Longrightarrow> x = 1 \<and> y = 0" for x y :: nat by (induction rule: trancl.induct) auto
  then show ?thesis unfolding behind_cycle_def by fastforce
qed

theorem dependencies_respected_witness:
  "\<exists>ps. before ps (1 :: nat) 0 \<and> distinct ps \<and> set ps = {0, 1, 2}
    \<and> recompute_order demo_sys ''g'' demo_game = Some (cached ''g'' (Some (map ((!) [1, 2, 3]) ps)) demo_game)"
proof -
  have r: "runs_first demo_sys demo_systems [1, 2, 3] 1 0" using demo_edges by auto
  from dependencies_respected [OF demo_fields(2), of demo_sys, unfolded demo_fields(1) demo_edges]
  obtain ps where ps: "distinct ps" "set ps = {..<length [1 :: nat, 2, 3]}"
    "recompute_order demo_sys ''g'' demo_game = Some (cached ''g'' (Some (map ((!) [1, 2, 3]) ps)) demo_game)"
    "\<And>i j. runs_first demo_sys demo_systems [1, 2, 3] i j \<Longrightarrow> \<not> behind_cycle {(1, 0)} j \<Longrightarrow> before ps i j"
    by (elim exE conjE) (rule that, assumption+, blast)
  then show ?thesis using ps(4) [OF r demo_no_cycle] by (intro exI [of _ ps]) (auto simp: lessThan_Suc)
qed

text \<open>With the order cached, the frame runs system 2, then system 1; system 3 is not due yet.\<close>

definition warm_game :: "nat game" where
  "warm_game = \<lparr>g_world = sample_world, g_systems = demo_systems,
     g_sched = empty_scheduler\<lparr>sc_systems_by_group := [(''g'', [1, 2, 3])], sc_order_cache := [''g'' \<mapsto> [2, 3, 1]]\<rparr>\<rparr>"

lemma warm_fields:
  "sched_ok (g_sched warm_game)" "map_of (sc_systems_by_group (g_sched warm_game)) ''g'' = Some [1, 2, 3]"
  "g_systems warm_game = demo_systems" "g_world warm_game = sample_world"
  "sc_order_cache (g_sched warm_game) ''g'' = Some [2, 3, 1]" "elapsed_of (g_sched warm_game) ''g'' = 0"
  "sc_next_run (g_sched warm_game) = Map.empty"
  by (simp_all add: warm_game_def sched_ok_def empty_scheduler_def elapsed_of_def)

lemma sample_buffer: "w_command_buffer sample_world = []"
  by (simp add: sample_world_def create_entity_def alloc_entity_id_def new_world_fields place_entity_def set_arch_def set_location_def invalidate_cache_def Let_def case_prod_beta)

lemma demo_turn:
  "w_command_buffer w = [] \<Longrightarrow> turn demo_sys demo_tick d demo_systems s w = w\<lparr>w_client := 10 * w_client w + s\<rparr>"
  by (simp add: turn_def demo_tick_def demo_systems_def new_system_def execute_commands_def demo_sys_def)

theorem process_runs_due_systems_witness:
  "\<exists>g'. sched_process demo_sys 1 ''g'' warm_game = Some g'
    \<and> g_world g' = sample_world\<lparr>w_client := 10 * (10 * w_client sample_world + 2) + 1\<rparr>
    \<and> elapsed_of (g_sched g') ''g'' = 1"
proof -
  let ?sc = "(g_sched warm_game)\<lparr>sc_elapsed_by_group := (sc_elapsed_by_group (g_sched warm_game))(''g'' \<mapsto> 0 + 1)\<rparr>"
  have h: "world_only demo_sys demo_tick" by (simp add: world_only_def demo_sys_def)
  have due: "filter (due ?sc demo_systems ''g'') [2, 3, 1] = [2, 1]"
    by (simp add: due_def demo_systems_def new_system_def elapsed_of_def warm_fields(7))
  have no: "\<not> (\<exists>s\<in>set [1, 2, 3]. sy_flush_mode (demo_systems s) = PER_GROUP)"
    by (simp add: demo_systems_def new_system_def PER_SYSTEM_def PER_GROUP_def)
  from process_runs_due_systems [OF warm_fields(1,2) _ h, of 1]
  obtain order where o: "order = [2, 3, 1]"
    "sched_process demo_sys 1 ''g'' warm_game = Some \<lparr>
        g_world = id (fold (turn demo_sys demo_tick 1 demo_systems) (filter (due ?sc demo_systems ''g'') order) sample_world),
        g_systems = demo_systems,
        g_sched = ?sc\<lparr>sc_order_cache := (sc_order_cache ?sc)(''g'' \<mapsto> order),
          sc_next_run := ran_at demo_systems (0 + 1) {s \<in> set [1, 2, 3]. due ?sc demo_systems ''g'' s} (sc_next_run ?sc)\<rparr>\<rparr>"
    using no by (auto simp: warm_fields(3-6))
  show ?thesis
    unfolding o(2) o(1) due by (simp add: demo_turn sample_buffer elapsed_of_def)
qed

theorem systems_keep_world_wellformed_witness:
  "\<exists>g'. world_process demo_sys 1 ''g'' demo_game = Some g' \<and> tidy sample_env (g_world g')"
proof -
  have k: "keeps_game demo_sys"
  proof -
    have "wf_world (env_registry sample_env) (w\<lparr>w_client := u\<rparr>)" if "wf_world (env_registry sample_env) w" for w :: "nat world" and u
      by (rule control_step_world(1) [OF that]) simp_all
    then show ?thesis using sample_env_ok(1,2) by (simp add: keeps_game_def demo_sys_def game_ok_def tidy_def demo_tick_def)
  qed
  have "game_ok demo_sys demo_game"
    using sample_world_ok(1) demo_fields(3,4) by (simp add: game_ok_def tidy_def demo_sys_def sample_buffer)
  from systems_keep_world_wellformed [OF k this, of 1 "''g''"]
  show ?thesis by (auto simp: game_ok_def demo_sys_def)
qed

end
