(* ===== verification/Reflect.thy ===== *)
theory Reflect
  imports ComponentSerializer
begin

text \<open>
  \<open>src/reflect/type_traits.{h,cpp}\<close>: component bytes to script values and back. A script value
  (\<open>godot::Variant\<close>) carries one of the engine's types; the engine's value types (vectors,
  transforms, \<dots>) are held as their bytes, a double as its bits, a string as its code points. The
  engine's conversions between value types, its UTF-8 codec, the hardware's conversion between
  float and double and its equalities are parameters (\<open>engine\<close>); what the code relies on is
  \<open>engine_ok\<close>: a conversion to the type a value already has gives the value. A buffer is a byte
  list with an offset, as in \<open>ComponentSerializer\<close>.
\<close>

section \<open>Script values\<close>

datatype variant =
    VNil
  | VBool bool
  | VInt u64
  | VFloat u64
  | VString "u32 list"
  | VValue field_type "byte list"
  | VBytes "byte list"
  | VArray "variant list"
  | VDict "(string \<times> variant) list"
  | VObject nat

datatype variant_type = T_NIL | T_BOOL | T_INT | T_FLOAT | T_STRING | T_VALUE field_type | T_BYTES | T_ARRAY
  | T_DICTIONARY | T_OBJECT

fun get_type :: "variant \<Rightarrow> variant_type" where
  "get_type VNil = T_NIL"
| "get_type (VBool b) = T_BOOL"
| "get_type (VInt i) = T_INT"
| "get_type (VFloat x) = T_FLOAT"
| "get_type (VString s) = T_STRING"
| "get_type (VValue t bs) = T_VALUE t"
| "get_type (VBytes bs) = T_BYTES"
| "get_type (VArray vs) = T_ARRAY"
| "get_type (VDict d) = T_DICTIONARY"
| "get_type (VObject p) = T_OBJECT"

record engine =
  en_layout :: type_layout
  en_bool :: "variant \<Rightarrow> bool"
  en_int :: "variant \<Rightarrow> u64"
  en_float :: "variant \<Rightarrow> u64"
  en_widen :: "u32 \<Rightarrow> u64"
  en_narrow :: "u64 \<Rightarrow> u32"
  en_value :: "field_type \<Rightarrow> variant \<Rightarrow> byte list"
  en_string :: "variant \<Rightarrow> u32 list"
  en_utf8 :: "u32 list \<Rightarrow> byte list"
  en_from_utf8 :: "byte list \<Rightarrow> u32 list"
  en_bytes :: "variant \<Rightarrow> byte list"
  en_array :: "variant \<Rightarrow> variant list"
  en_equal :: "variant \<Rightarrow> variant \<Rightarrow> bool"
  en_float_equal :: "u64 \<Rightarrow> u64 \<Rightarrow> bool"
  en_float_to_int :: "u64 \<Rightarrow> u64"
  en_int_to_float :: "u64 \<Rightarrow> u64"
  en_stringify :: "variant \<Rightarrow> u32 list"

section \<open>Scalars\<close>

definition field_type_of :: "byte \<Rightarrow> field_type option" where
  "field_type_of c = find (\<lambda>t. field_type_code t = c) field_types"

definition scalar_to_variant :: "engine \<Rightarrow> field_type \<Rightarrow> byte list \<Rightarrow> nat \<Rightarrow> variant option" where
  "scalar_to_variant en p_type m off = (case p_type of
       Bool \<Rightarrow> Some (VBool (m ! off \<noteq> 0))
     | I8 \<Rightarrow> Some (VInt (scast (m ! off)))
     | I16 \<Rightarrow> Some (VInt (scast (load16 m off)))
     | I32 \<Rightarrow> Some (VInt (scast (load32 m off)))
     | I64 \<Rightarrow> Some (VInt (load64 m off))
     | U8 \<Rightarrow> Some (VInt (ucast (m ! off)))
     | U16 \<Rightarrow> Some (VInt (ucast (load16 m off)))
     | U32 \<Rightarrow> Some (VInt (ucast (load32 m off)))
     | U64 \<Rightarrow> Some (VInt (load64 m off))
     | F32 \<Rightarrow> Some (VFloat (en_widen en (load32 m off)))
     | F64 \<Rightarrow> Some (VFloat (load64 m off))
     | StringFixed \<Rightarrow> None
     | Blob \<Rightarrow> None
     | _ \<Rightarrow> Some (VValue p_type (mem_read (engine_size (en_layout en) p_type) off m)))"

definition scalar_bytes :: "engine \<Rightarrow> field_type \<Rightarrow> variant \<Rightarrow> byte list option" where
  "scalar_bytes en p_type v = (case p_type of
       Bool \<Rightarrow> Some [if en_bool en v then 1 else 0]
     | I8 \<Rightarrow> Some [ucast (en_int en v)]
     | I16 \<Rightarrow> Some (le16 (ucast (en_int en v)))
     | I32 \<Rightarrow> Some (le32 (ucast (en_int en v)))
     | I64 \<Rightarrow> Some (le64 (en_int en v))
     | U8 \<Rightarrow> Some [ucast (en_int en v)]
     | U16 \<Rightarrow> Some (le16 (ucast (en_int en v)))
     | U32 \<Rightarrow> Some (le32 (ucast (en_int en v)))
     | U64 \<Rightarrow> Some (le64 (en_int en v))
     | F32 \<Rightarrow> Some (le32 (en_narrow en (en_float en v)))
     | F64 \<Rightarrow> Some (le64 (en_float en v))
     | StringFixed \<Rightarrow> None
     | Blob \<Rightarrow> None
     | _ \<Rightarrow> Some (en_value en p_type v))"

definition scalar_from_variant :: "engine \<Rightarrow> field_type \<Rightarrow> byte list \<Rightarrow> nat \<Rightarrow> variant \<Rightarrow> bool \<times> byte list" where
  "scalar_from_variant en p_type m off v =
     (case scalar_bytes en p_type v of None \<Rightarrow> (False, m) | Some bs \<Rightarrow> (True, mem_write off bs m))"

text \<open>\<open>static_cast<FieldType>(element_type)\<close>: a code outside the enumeration takes the default branch.\<close>

definition element_to_variant :: "engine \<Rightarrow> byte \<Rightarrow> byte list \<Rightarrow> nat \<Rightarrow> variant option" where
  "element_to_variant en code m off =
     (case field_type_of code of None \<Rightarrow> None | Some t \<Rightarrow> scalar_to_variant en t m off)"

definition element_from_variant :: "engine \<Rightarrow> byte \<Rightarrow> byte list \<Rightarrow> nat \<Rightarrow> variant \<Rightarrow> bool \<times> byte list" where
  "element_from_variant en code m off v =
     (case field_type_of code of None \<Rightarrow> (False, m) | Some t \<Rightarrow> scalar_from_variant en t m off v)"

section \<open>Fields\<close>

text \<open>\<open>safe_strnlen\<close> is the scan \<open>string_len\<close>.\<close>

fun array_to_variants :: "engine \<Rightarrow> byte \<Rightarrow> nat \<Rightarrow> byte list \<Rightarrow> nat \<Rightarrow> nat \<Rightarrow> variant list option" where
  "array_to_variants en code elem_size m off 0 = Some []"
| "array_to_variants en code elem_size m off (Suc n) =
     (case element_to_variant en code m off of
        None \<Rightarrow> None
      | Some v \<Rightarrow>
          (case array_to_variants en code elem_size m (off + elem_size) n of
             None \<Rightarrow> None
           | Some vs \<Rightarrow> Some (v # vs)))"

definition field_to_variant :: "engine \<Rightarrow> field_descriptor \<Rightarrow> byte list \<Rightarrow> nat \<Rightarrow> variant option" where
  "field_to_variant en fd m off =
     (if fd_type fd = StringFixed then
        Some (VString (en_from_utf8 en (mem_read (string_len m off (fd_count fd)) off m)))
      else if fd_type fd = Blob then Some (VBytes (mem_read (fd_count fd) off m))
      else if fd_count fd \<le> 1 then scalar_to_variant en (fd_type fd) m off
      else map_option VArray
        (array_to_variants en (fd_element_type fd) (storage_size fd div fd_count fd) m off (fd_count fd)))"

definition is_continuation :: "byte \<Rightarrow> bool" where
  "is_continuation c \<longleftrightarrow> c AND 0xC0 = 0x80"

text \<open>\<open>while (p > 0 && (src[p] & 0xC0) == 0x80) --p;\<close>\<close>

fun utf8_backoff :: "byte list \<Rightarrow> nat \<Rightarrow> nat" where
  "utf8_backoff src 0 = 0"
| "utf8_backoff src (Suc p) = (if is_continuation (src ! Suc p) then utf8_backoff src p else Suc p)"

definition string_copy_len :: "byte list \<Rightarrow> nat \<Rightarrow> nat" where
  "string_copy_len src max_len =
     (let copy = min (length src) max_len
      in if copy < length src \<and> copy > 0 \<and> is_continuation (src ! copy) then utf8_backoff src copy else copy)"

fun variants_to_array :: "engine \<Rightarrow> byte \<Rightarrow> nat \<Rightarrow> byte list \<Rightarrow> nat \<Rightarrow> variant list \<Rightarrow> bool \<times> byte list" where
  "variants_to_array en code elem_size m off [] = (True, m)"
| "variants_to_array en code elem_size m off (v # vs) =
     (case element_from_variant en code m off v of (ok, m') \<Rightarrow>
        if ok then variants_to_array en code elem_size m' (off + elem_size) vs else (False, m'))"

definition field_from_variant :: "engine \<Rightarrow> field_descriptor \<Rightarrow> byte list \<Rightarrow> nat \<Rightarrow> variant \<Rightarrow> bool \<times> byte list" where
  "field_from_variant en fd m off v =
     (if fd_type fd = StringFixed then
        (if fd_count fd = 0 then (True, m)
         else
           (let src = en_utf8 en (en_string en v);
                copy = string_copy_len src (fd_count fd - 1)
            in (True, mem_write (off + copy) [0] (mem_write off (take copy src) m))))
      else if fd_type fd = Blob then
        (let arr = en_bytes en v;
             copy = min (length arr) (fd_count fd);
             m1 = mem_write off (take copy arr) m
         in (True, if copy < fd_count fd then mem_write (off + copy) (replicate (fd_count fd - copy) 0) m1 else m1))
      else if fd_count fd \<le> 1 then scalar_from_variant en (fd_type fd) m off v
      else variants_to_array en (fd_element_type fd) (storage_size fd div fd_count fd) m off
             (take (fd_count fd) (en_array en v)))"

section \<open>Components\<close>

text \<open>A dictionary keeps the order of first insertion.\<close>

definition component_bytes_to_variant_dict ::
    "engine \<Rightarrow> component_schema \<Rightarrow> byte list \<Rightarrow> (string \<times> variant) list \<Rightarrow> (string \<times> variant) list" where
  "component_bytes_to_variant_dict en s src r_out =
     fold (\<lambda>fd d. case field_to_variant en fd src (fd_offset fd) of
                    None \<Rightarrow> d
                  | Some v \<Rightarrow> AList.update (fd_name fd) v d) (cs_fields s) r_out"

definition component_dict_to_bytes :: "engine \<Rightarrow> component_schema \<Rightarrow> (string \<times> variant) list \<Rightarrow> byte list" where
  "component_dict_to_bytes en s d =
     fold (\<lambda>fd m. case map_of d (fd_name fd) of
                    None \<Rightarrow> m
                  | Some v \<Rightarrow> snd (field_from_variant en fd m (fd_offset fd) v)) (cs_fields s) (replicate (cs_size s) 0)"

section \<open>Equality of script values\<close>

definition is_number :: "variant_type \<Rightarrow> bool" where
  "is_number t \<longleftrightarrow> t = T_INT \<or> t = T_FLOAT \<or> t = T_BOOL"

definition variants_equal :: "engine \<Rightarrow> variant \<Rightarrow> variant \<Rightarrow> bool" where
  "variants_equal en a b =
     (let ta = get_type a; tb = get_type b
      in if ta = tb then en_equal en a b
         else if is_number ta \<and> is_number tb then
           (if ta = T_FLOAT \<or> tb = T_FLOAT then en_float_equal en (en_float en a) (en_float en b)
            else en_int en a = en_int en b)
         else en_equal en a b)"

section \<open>Loads after stores\<close>

lemma le_inject [simp]: "le16 a = le16 b \<longleftrightarrow> a = b" "le32 c = le32 d \<longleftrightarrow> c = d" "le64 e = le64 f \<longleftrightarrow> e = f"
proof -
  have "le16 a = le16 b \<Longrightarrow> a = b"
    unfolding le16_def list.inject by (metis le16_join)
  then show "le16 a = le16 b \<longleftrightarrow> a = b" by blast
  have "le32 c = le32 d \<Longrightarrow> c = d"
    unfolding le32_def list.inject by (metis le32_join)
  then show "le32 c = le32 d \<longleftrightarrow> c = d" by blast
  have "le64 e = le64 f \<Longrightarrow> e = f"
  proof -
    assume "le64 e = le64 f"
    then have "(ucast (drop_bit (i * 8) e) :: byte) = ucast (drop_bit (i * 8) f)" if "i \<in> set [0..<8]" for i
      using that by (simp add: le64_def)
    then have "fold (\<lambda>i r. r OR push_bit (i * 8) (ucast (ucast (drop_bit (i * 8) e) :: byte))) [0..<8] (0 :: u64)
      = fold (\<lambda>i r. r OR push_bit (i * 8) (ucast (ucast (drop_bit (i * 8) f) :: byte))) [0..<8] 0"
      by (intro fold_cong) auto
    then show "e = f" unfolding le64_join .
  qed
  then show "le64 e = le64 f \<longleftrightarrow> e = f" by blast
qed

lemma load_store:
  "off + 2 \<le> length m \<Longrightarrow> load16 (mem_write off (le16 a) m) off = a"
  "off + 4 \<le> length m \<Longrightarrow> load32 (mem_write off (le32 b) m) off = b"
  "off + 8 \<le> length m \<Longrightarrow> load64 (mem_write off (le64 c) m) off = c"
proof -
  show "off + 2 \<le> length m \<Longrightarrow> load16 (mem_write off (le16 a) m) off = a"
    using le16_load16 [of off "mem_write off (le16 a) m"] by (simp add: length_mem_write mem_read_write_prefix)
  show "off + 4 \<le> length m \<Longrightarrow> load32 (mem_write off (le32 b) m) off = b"
    using le32_load32 [of off "mem_write off (le32 b) m"] by (simp add: length_mem_write mem_read_write_prefix)
  show "off + 8 \<le> length m \<Longrightarrow> load64 (mem_write off (le64 c) m) off = c"
    using le64_load64 [of off "mem_write off (le64 c) m"] by (simp add: length_mem_write mem_read_write_prefix)
qed

text \<open>A slice of a buffer: what a field is read from, and what writing one changes.\<close>

lemma nth_slice: "j < n \<Longrightarrow> off + n \<le> length m \<Longrightarrow> mem_read n off m ! j = m ! (off + j)"
  by (simp add: mem_read_def)

lemma mem_read_slice: "j + k \<le> n \<Longrightarrow> off + n \<le> length m \<Longrightarrow> mem_read k j (mem_read n off m) = mem_read k (off + j) m"
  by (simp add: mem_read_def drop_take min_def add.commute)

lemma load_slice:
  "j + 2 \<le> n \<Longrightarrow> off + n \<le> length m \<Longrightarrow> load16 (mem_read n off m) j = load16 m (off + j)"
  "j + 4 \<le> n \<Longrightarrow> off + n \<le> length m \<Longrightarrow> load32 (mem_read n off m) j = load32 m (off + j)"
  "j + 8 \<le> n \<Longrightarrow> off + n \<le> length m \<Longrightarrow> load64 (mem_read n off m) j = load64 m (off + j)"
  using le16_load16 [of j "mem_read n off m"] le16_load16 [of "off + j" m] le32_load32 [of j "mem_read n off m"]
    le32_load32 [of "off + j" m] le64_load64 [of j "mem_read n off m"] le64_load64 [of "off + j" m]
  by (auto simp: length_mem_read mem_read_slice dest: sym)

lemma mem_write_slice:
  assumes "j + length bs \<le> n" "off + n \<le> length m"
  shows "mem_write off (mem_write j bs (mem_read n off m)) m = mem_write (off + j) bs m"
proof (rule nth_equalityI)
  have l: "length (mem_read n off m) = n" using assms(2) by (rule length_mem_read)
  have w: "length (mem_write j bs (mem_read n off m)) = n" using assms(1) l by (simp add: length_mem_write)
  show "length (mem_write off (mem_write j bs (mem_read n off m)) m) = length (mem_write (off + j) bs m)"
    using assms w by (simp add: length_mem_write)
  fix i
  assume "i < length (mem_write off (mem_write j bs (mem_read n off m)) m)"
  then have i: "i < length m" using assms(2) w by (simp add: length_mem_write)
  show "mem_write off (mem_write j bs (mem_read n off m)) m ! i = mem_write (off + j) bs m ! i"
    using assms i l w by (auto simp: nth_mem_write nth_slice)
qed

lemma mem_write_write:
  "length x = length y \<Longrightarrow> off + length x \<le> length m \<Longrightarrow> mem_write off y (mem_write off x m) = mem_write off y m"
  by (rule nth_equalityI) (auto simp: length_mem_write nth_mem_write)

section \<open>What the engine promises\<close>

definition engine_ok :: "engine \<Rightarrow> bool" where
  "engine_ok en \<longleftrightarrow>
     (\<forall>b. en_bool en (VBool b) = b) \<and> (\<forall>i. en_int en (VInt i) = i) \<and> (\<forall>x. en_float en (VFloat x) = x)
   \<and> (\<forall>t bs. length bs = engine_size (en_layout en) t \<longrightarrow> en_value en t (VValue t bs) = bs)
   \<and> (\<forall>t v. length (en_value en t v) = engine_size (en_layout en) t)
   \<and> (\<forall>s. en_string en (VString s) = s) \<and> (\<forall>bs. en_bytes en (VBytes bs) = bs)
   \<and> (\<forall>vs. en_array en (VArray vs) = vs)
   \<and> (\<forall>x. en_widen en (en_narrow en (en_widen en x)) = en_widen en x)"

lemma engine_okD:
  assumes "engine_ok en"
  shows "en_bool en (VBool b) = b" "en_int en (VInt i) = i" "en_float en (VFloat x) = x"
    "length bs = engine_size (en_layout en) t \<Longrightarrow> en_value en t (VValue t bs) = bs"
    "length (en_value en t v) = engine_size (en_layout en) t"
    "en_string en (VString s) = s" "en_bytes en (VBytes bs) = bs" "en_array en (VArray vs) = vs"
    "en_widen en (en_narrow en (en_widen en y)) = en_widen en y"
  using assms by (simp_all add: engine_ok_def)

lemma scalar_bytes_length:
  "engine_ok en \<Longrightarrow> scalar_bytes en t v = Some bs \<Longrightarrow> length bs = field_type_size (en_layout en) t"
  by (cases t) (auto simp: scalar_bytes_def engine_okD)

lemma scalar_to_variant_bytes:
  "scalar_to_variant en t m off = Some v \<Longrightarrow> \<exists>bs. scalar_bytes en t u = Some bs"
  by (cases t) (auto simp: scalar_to_variant_def scalar_bytes_def)

text \<open>Reading a scalar that was written from what reading gave gives the same value.\<close>

lemma nth_store: "off + length bs \<le> length m \<Longrightarrow> 0 < length bs \<Longrightarrow> mem_write off bs m ! off = bs ! 0"
  by (subst nth_mem_write) (linarith | simp)+

lemma byte_word_cast [simp]:
  "ucast (scast (x :: byte) :: u64) = x" "ucast (scast (y :: u16) :: u64) = y" "ucast (scast (z :: u32) :: u64) = z"
  "ucast (ucast (x :: byte) :: u64) = x" "ucast (ucast (y :: u16) :: u64) = y" "ucast (ucast (z :: u32) :: u64) = z"
  by (auto intro!: bit_word_eqI simp: bit_simps)

lemma scalar_canonical:
  assumes en: "engine_ok en" and v: "scalar_to_variant en t src off0 = Some v"
    and src: "off0 + field_type_size (en_layout en) t \<le> length src"
    and bs: "scalar_bytes en t v = Some bs" and m: "off + length bs \<le> length m"
  shows "scalar_to_variant en t (mem_write off bs m) off = Some v"
  using v bs src m
  by (cases t) (auto simp: scalar_to_variant_def scalar_bytes_def engine_okD [OF en] load_store nth_store length_mem_read
      mem_read_write_prefix length_mem_write)

lemma scalar_slice:
  assumes "j + field_type_size (en_layout en) t \<le> n" "off + n \<le> length m"
  shows "scalar_to_variant en t (mem_read n off m) j = scalar_to_variant en t m (off + j)"
  using assms by (cases t) (simp_all add: scalar_to_variant_def nth_slice load_slice mem_read_slice)

section \<open>Fields as slices\<close>

text \<open>What registration computes for a field: its size, and the element type of an array.\<close>

definition sound_field :: "type_layout \<Rightarrow> field_descriptor \<Rightarrow> bool" where
  "sound_field L fd \<longleftrightarrow>
     (if fd_type fd = StringFixed \<or> fd_type fd = Blob then fd_byte_size fd = fd_count fd
      else 0 < field_type_size L (fd_type fd)
        \<and> fd_byte_size fd = field_type_size L (fd_type fd) * max 1 (fd_count fd)
        \<and> (1 < fd_count fd \<longrightarrow> fd_element_type fd = field_type_code (fd_type fd)))"

lemma field_type_of_code [simp]: "field_type_of (field_type_code t) = Some t"
  by (cases t) (simp_all add: field_type_of_def field_types_def)

lemma layout_field_sound:
  assumes "layout_field L off fd = Some (fd', a)" "raw_bytes L fd < 2 ^ 64"
  shows "sound_field L fd'"
  using assms by (auto simp: layout_field_def sound_field_def raw_bytes_def is_scalar_def sz_def Let_def max_def
      split: if_splits)

lemma layout_fields_sound:
  "layout_fields L off ma fds = Some (fds', stop, ma') \<Longrightarrow> list_all (\<lambda>fd. raw_bytes L fd < 2 ^ 64) fds \<Longrightarrow>
   list_all (sound_field L) fds'"
proof (induction fds arbitrary: off ma fds')
  case (Cons fd fds)
  then obtain fd' a gs where f: "layout_field L off fd = Some (fd', a)" "fds' = fd' # gs"
    "layout_fields L (sz (fd_offset fd' + fd_byte_size fd')) (max ma a) fds = Some (gs, stop, ma')"
    by (auto split: option.splits)
  have "sound_field L fd'" by (rule layout_field_sound [OF f(1)]) (use Cons.prems(2) in simp)
  then show ?case using Cons.IH [OF f(3)] Cons.prems(2) f(2) by simp
qed simp

text \<open>\<open>within off n m m'\<close>: \<open>m'\<close> is \<open>m\<close> outside the \<open>n\<close> bytes at \<open>off\<close>.\<close>

definition within :: "nat \<Rightarrow> nat \<Rightarrow> 'a list \<Rightarrow> 'a list \<Rightarrow> bool" where
  "within off n m m' \<longleftrightarrow> length m' = length m \<and> (\<forall>i<length m. i < off \<or> off + n \<le> i \<longrightarrow> m' ! i = m ! i)"

lemma within_refl [simp]: "within off n m m"
  by (simp add: within_def)

lemma within_trans: "within off n m m1 \<Longrightarrow> within off n m1 m2 \<Longrightarrow> within off n m m2"
  by (simp add: within_def)

lemma within_mono: "within off n m m' \<Longrightarrow> off' \<le> off \<Longrightarrow> off + n \<le> off' + n' \<Longrightarrow> within off' n' m m'"
  by (auto simp: within_def)

lemma within_write: "off + length bs \<le> length m \<Longrightarrow> within off (length bs) m (mem_write off bs m)"
  by (auto simp: within_def length_mem_write nth_mem_write)

lemma within_write_in:
  "off \<le> off' \<Longrightarrow> off' + length bs \<le> off + n \<Longrightarrow> off + n \<le> length m \<Longrightarrow> within off n m (mem_write off' bs m)"
  using within_mono [OF within_write [of off' bs m]] by simp

lemma within_read:
  assumes w: "within off n m m'" and d: "off' + k \<le> off \<or> off + n \<le> off'" and k: "off' + k \<le> length m"
  shows "mem_read k off' m' = mem_read k off' m"
proof (rule nth_equalityI)
  show "length (mem_read k off' m') = length (mem_read k off' m)" using w by (simp add: within_def mem_read_def)
  fix i
  assume "i < length (mem_read k off' m')"
  then have "i < k" using w k by (simp add: within_def length_mem_read)
  then show "mem_read k off' m' ! i = mem_read k off' m ! i" using w d k by (auto simp: within_def nth_slice)
qed

lemma scalar_from_within:
  assumes "engine_ok en" "off + field_type_size (en_layout en) t \<le> length m"
  shows "within off (field_type_size (en_layout en) t) m (snd (scalar_from_variant en t m off v))"
proof (cases "scalar_bytes en t v")
  case (Some bs)
  then have "length bs = field_type_size (en_layout en) t" using scalar_bytes_length [OF assms(1)] by simp
  then show ?thesis using within_write [of off bs m] assms(2) Some by (simp add: scalar_from_variant_def)
qed (simp add: scalar_from_variant_def)

lemma array_within:
  assumes en: "engine_ok en"
  shows "off + length vs * field_type_size (en_layout en) t \<le> length m \<Longrightarrow>
    within off (length vs * field_type_size (en_layout en) t) m
      (snd (variants_to_array en (field_type_code t) (field_type_size (en_layout en) t) m off vs))"
proof (induction vs arbitrary: off m)
  case Nil
  then show ?case by simp
next
  case (Cons v vs)
  let ?es = "field_type_size (en_layout en) t"
  let ?m1 = "snd (scalar_from_variant en t m off v)"
  have w1: "within off ?es m ?m1" using scalar_from_within [OF en] Cons.prems by simp
  then have l1: "length ?m1 = length m" by (simp add: within_def)
  have w2: "within (off + ?es) (length vs * ?es) ?m1
      (snd (variants_to_array en (field_type_code t) ?es ?m1 (off + ?es) vs))"
    using Cons.IH [of "off + ?es" ?m1] Cons.prems l1 by (simp add: add.assoc)
  have "within off (length (v # vs) * ?es) m (snd (variants_to_array en (field_type_code t) ?es ?m1 (off + ?es) vs))"
    by (rule within_trans [OF within_mono [OF w1] within_mono [OF w2]]) simp_all
  moreover have "within off (length (v # vs) * ?es) m ?m1" by (rule within_mono [OF w1]) simp_all
  ultimately show ?case by (auto simp: element_from_variant_def split: prod.split)
qed

lemma utf8_backoff_le: "utf8_backoff src p \<le> p"
  by (induction p) (auto intro: le_SucI)

lemma string_copy_len_le: "string_copy_len src n \<le> n" "string_copy_len src n \<le> length src"
  using utf8_backoff_le [of src "min (length src) n"] by (auto simp: string_copy_len_def Let_def)

lemma field_from_within:
  assumes en: "engine_ok en" and s: "sound_field (en_layout en) fd" and m: "off + fd_byte_size fd \<le> length m"
  shows "within off (fd_byte_size fd) m (snd (field_from_variant en fd m off v))"
proof -
  let ?t = "fd_type fd" and ?n = "fd_count fd"
  consider (chars) "?t = StringFixed" | (blob) "?t = Blob" | (scalar) "?t \<noteq> StringFixed" "?t \<noteq> Blob" "?n \<le> 1"
    | (array) "?t \<noteq> StringFixed" "?t \<noteq> Blob" "1 < ?n" by linarith
  then show ?thesis
  proof cases
    case chars
    let ?src = "en_utf8 en (en_string en v)"
    let ?c = "string_copy_len ?src (?n - 1)"
    have c: "?c \<le> ?n - 1" "?c \<le> length ?src" by (rule string_copy_len_le)+
    have size: "fd_byte_size fd = ?n" using s chars by (simp add: sound_field_def)
    show ?thesis
    proof (cases "?n = 0")
      case False
      let ?m1 = "mem_write off (take ?c ?src) m"
      have "within off ?n m ?m1" by (rule within_write_in) (use c m size in auto)
      moreover have "within off ?n ?m1 (mem_write (off + ?c) [0] ?m1)"
        by (rule within_write_in) (use c m size False in \<open>auto simp: length_mem_write\<close>)
      ultimately show ?thesis using chars False size within_trans by (auto simp: field_from_variant_def Let_def)
    qed (use chars in \<open>simp add: field_from_variant_def\<close>)
  next
    case blob
    define arr where "arr = en_bytes en v"
    define c where "c = min (length arr) (fd_count fd)"
    have size: "fd_byte_size fd = ?n" using s blob by (simp add: sound_field_def)
    have c: "c \<le> length arr" "c \<le> ?n" by (simp_all add: c_def)
    let ?m1 = "mem_write off (take c arr) m"
    have w1: "within off ?n m ?m1" by (rule within_write_in) (use m size c in auto)
    have w2: "within off ?n ?m1 (mem_write (off + c) (replicate (?n - c) 0) ?m1)"
      by (rule within_write_in) (use m size c in \<open>auto simp: length_mem_write\<close>)
    have "snd (field_from_variant en fd m off v) = (if c < ?n then mem_write (off + c) (replicate (?n - c) 0) ?m1 else ?m1)"
      by (simp add: field_from_variant_def blob Let_def flip: arr_def c_def)
    then show ?thesis using w1 within_trans [OF w1 w2] size by simp
  next
    case scalar
    then show ?thesis using scalar_from_within [OF en] s m by (auto simp: field_from_variant_def sound_field_def max_def)
  next
    case array
    let ?es = "field_type_size (en_layout en) ?t"
    define vs where "vs = take ?n (en_array en v)"
    have size: "fd_byte_size fd = ?n * ?es" "fd_element_type fd = field_type_code ?t" "fd_byte_size fd div ?n = ?es"
      using s array by (auto simp: sound_field_def max_def)
    have len: "length vs * ?es \<le> ?n * ?es" by (rule mult_le_mono1) (simp add: vs_def)
    have "within off (?n * ?es) m (snd (variants_to_array en (field_type_code ?t) ?es m off vs))"
    proof (rule within_mono [OF array_within [OF en]])
      show "off + length vs * ?es \<le> length m" using m size(1) len by linarith
      show "off + length vs * ?es \<le> off + ?n * ?es" using len by linarith
    qed simp
    moreover have "field_from_variant en fd m off v = variants_to_array en (field_type_code ?t) ?es m off vs"
      using array size(2,3) by (simp add: field_from_variant_def storage_size_def vs_def)
    ultimately show ?thesis using size(1) by simp
  qed
qed

section \<open>Reading back what was written\<close>

lemma array_slice:
  "j + n * field_type_size (en_layout en) t \<le> k \<Longrightarrow> off + k \<le> length m \<Longrightarrow>
   array_to_variants en (field_type_code t) (field_type_size (en_layout en) t) (mem_read k off m) j n
   = array_to_variants en (field_type_code t) (field_type_size (en_layout en) t) m (off + j) n"
proof (induction n arbitrary: j)
  case (Suc n)
  let ?es = "field_type_size (en_layout en) t"
  have "element_to_variant en (field_type_code t) (mem_read k off m) j = element_to_variant en (field_type_code t) m (off + j)"
    using scalar_slice [of j en t k off m] Suc.prems by (simp add: element_to_variant_def)
  moreover have "array_to_variants en (field_type_code t) ?es (mem_read k off m) (j + ?es) n
      = array_to_variants en (field_type_code t) ?es m (off + j + ?es) n"
    using Suc.IH [of "j + ?es"] Suc.prems by (simp add: add.assoc)
  ultimately show ?case by (simp del: array_to_variants.simps add: array_to_variants.simps(2) cong: option.case_cong)
qed simp

lemma field_slice:
  assumes s: "sound_field (en_layout en) fd" and m: "off + fd_byte_size fd \<le> length m"
  shows "field_to_variant en fd (mem_read (fd_byte_size fd) off m) 0 = field_to_variant en fd m off"
proof (cases "fd_type fd = StringFixed \<or> fd_type fd = Blob \<or> fd_count fd \<le> 1")
  case True
  show ?thesis
    using True s m scalar_slice [of 0 en "fd_type fd" "fd_byte_size fd" off m]
    by (auto simp: field_to_variant_def sound_field_def string_len_takeWhile mem_read_slice length_mem_read max_def
        length_takeWhile_le [THEN order_trans] split: if_splits)
next
  case False
  then have size: "fd_byte_size fd = fd_count fd * field_type_size (en_layout en) (fd_type fd)"
    "fd_element_type fd = field_type_code (fd_type fd)"
    "fd_byte_size fd div fd_count fd = field_type_size (en_layout en) (fd_type fd)"
    using s by (auto simp: sound_field_def max_def)
  then show ?thesis
    using False array_slice [of 0 "fd_count fd" en "fd_type fd" "fd_byte_size fd" off m] m
    by (simp add: field_to_variant_def storage_size_def)
qed

text \<open>The values a read gives are those that survive a write.\<close>

definition canonical :: "engine \<Rightarrow> field_type \<Rightarrow> variant \<Rightarrow> bool" where
  "canonical en t v \<longleftrightarrow> (\<exists>bs. scalar_bytes en t v = Some bs \<and>
     (\<forall>m off. off + length bs \<le> length m \<longrightarrow> scalar_to_variant en t (mem_write off bs m) off = Some v))"

lemma scalar_to_variant_canonical:
  assumes "engine_ok en" "scalar_to_variant en t src off0 = Some v" "off0 + field_type_size (en_layout en) t \<le> length src"
  shows "canonical en t v"
  using scalar_to_variant_bytes [OF assms(2), of v] scalar_canonical [OF assms]
  unfolding canonical_def by blast

lemma array_to_variants_canonical:
  assumes "engine_ok en"
  shows "array_to_variants en (field_type_code t) (field_type_size (en_layout en) t) src off0 n = Some vs \<Longrightarrow>
    off0 + n * field_type_size (en_layout en) t \<le> length src \<Longrightarrow> length vs = n \<and> list_all (canonical en t) vs"
proof (induction n arbitrary: off0 vs)
  case (Suc n)
  let ?es = "field_type_size (en_layout en) t"
  obtain v ws where v: "scalar_to_variant en t src off0 = Some v"
    "array_to_variants en (field_type_code t) ?es src (off0 + ?es) n = Some ws" "vs = v # ws"
    using Suc.prems(1) by (auto simp: element_to_variant_def split: option.splits)
  have "canonical en t v" by (rule scalar_to_variant_canonical [OF assms v(1)]) (use Suc.prems(2) in simp)
  moreover have "length ws = n \<and> list_all (canonical en t) ws" by (rule Suc.IH [OF v(2)]) (use Suc.prems(2) in simp)
  ultimately show ?case by (simp add: v(3))
qed simp

lemma array_readback:
  assumes en: "engine_ok en"
  shows "list_all (canonical en t) vs \<Longrightarrow> off + length vs * field_type_size (en_layout en) t \<le> length m \<Longrightarrow>
    array_to_variants en (field_type_code t) (field_type_size (en_layout en) t)
      (snd (variants_to_array en (field_type_code t) (field_type_size (en_layout en) t) m off vs)) off (length vs) = Some vs"
proof (induction vs arbitrary: off m)
  case (Cons v vs)
  let ?es = "field_type_size (en_layout en) t" and ?c = "field_type_code t"
  obtain bs where bs: "scalar_bytes en t v = Some bs" "length bs = ?es"
    "\<And>m off. off + length bs \<le> length m \<Longrightarrow> scalar_to_variant en t (mem_write off bs m) off = Some v"
    using Cons.prems(1) scalar_bytes_length [OF en] by (auto simp: canonical_def)
  let ?m1 = "mem_write off bs m"
  let ?m2 = "snd (variants_to_array en ?c ?es ?m1 (off + ?es) vs)"
  have l1: "length ?m1 = length m" using Cons.prems(2) bs(2) by (simp add: length_mem_write)
  have w: "within (off + ?es) (length vs * ?es) ?m1 ?m2"
    by (rule array_within [OF en]) (use Cons.prems(2) l1 in simp)
  then have l2: "length ?m2 = length m" using l1 by (simp add: within_def)
  have "mem_read ?es off ?m2 = mem_read ?es off ?m1" by (rule within_read [OF w]) (use Cons.prems(2) l1 in auto)
  moreover have "scalar_to_variant en t (mem_read ?es off ?m2) 0 = scalar_to_variant en t ?m2 off"
    using scalar_slice [of 0 en t ?es off ?m2] Cons.prems(2) l2 by simp
  moreover have "scalar_to_variant en t (mem_read ?es off ?m1) 0 = scalar_to_variant en t ?m1 off"
    using scalar_slice [of 0 en t ?es off ?m1] Cons.prems(2) l1 by simp
  ultimately have head: "scalar_to_variant en t ?m2 off = Some v"
    using bs(3) [of off m] Cons.prems(2) bs(2) by simp
  have tail: "array_to_variants en ?c ?es ?m2 (off + ?es) (length vs) = Some vs"
    by (rule Cons.IH) (use Cons.prems l1 in simp_all)
  have "variants_to_array en ?c ?es m off (v # vs) = variants_to_array en ?c ?es ?m1 (off + ?es) vs"
    by (simp add: element_from_variant_def scalar_from_variant_def bs(1))
  then show ?case using head tail by (simp add: element_to_variant_def)
qed simp

lemma string_len_char:
  "i < string_len m off n \<Longrightarrow> m ! (off + i) \<noteq> 0" "string_len m off n \<le> n"
  "k < n \<Longrightarrow> \<forall>i<k. m ! (off + i) \<noteq> 0 \<Longrightarrow> m ! (off + k) = 0 \<Longrightarrow> string_len m off n = k"
proof -
  show "i < string_len m off n \<Longrightarrow> m ! (off + i) \<noteq> 0"
  proof (induction n arbitrary: off i)
    case (Suc n)
    then show ?case using Suc.IH [of _ "off + 1"] by (cases i) (auto split: if_splits)
  qed simp
  show "string_len m off n \<le> n" by (induction n arbitrary: off) auto
  show "k < n \<Longrightarrow> \<forall>i<k. m ! (off + i) \<noteq> 0 \<Longrightarrow> m ! (off + k) = 0 \<Longrightarrow> string_len m off n = k"
  proof (induction n arbitrary: off k)
    case (Suc n)
    then show ?case
    proof (cases k)
      case (Suc k')
      have "string_len m (off + 1) n = k'" by (rule Suc.IH) (use Suc Suc.prems in auto)
      then show ?thesis using Suc Suc.prems(2) by auto
    qed simp
  qed simp
qed

text \<open>A fixed string that ends before the buffer and is valid UTF-8.\<close>

definition text_ok :: "engine \<Rightarrow> field_descriptor \<Rightarrow> byte list \<Rightarrow> nat \<Rightarrow> bool" where
  "text_ok en fd m off \<longleftrightarrow> (fd_type fd = StringFixed \<longrightarrow> fd_count fd = 0 \<or>
     (string_len m off (fd_count fd) < fd_count fd
      \<and> en_utf8 en (en_from_utf8 en (mem_read (string_len m off (fd_count fd)) off m))
        = mem_read (string_len m off (fd_count fd)) off m))"

lemma string_readback:
  assumes nz: "\<forall>b\<in>set bs. b \<noteq> 0" and len: "length bs < n" and m: "off + n \<le> length m"
  defines "m' \<equiv> mem_write (off + length bs) [0] (mem_write off bs m)"
  shows "string_len m' off n = length bs" "mem_read (length bs) off m' = bs"
proof -
  have l1: "length (mem_write off bs m) = length m" using len m by (simp add: length_mem_write)
  have nth: "m' ! (off + i) = (if i = length bs then 0 else if i < length bs then bs ! i else m ! (off + i))" if "i < n" for i
    using that len m l1 by (auto simp: m'_def nth_mem_write)
  show "string_len m' off n = length bs"
    by (rule string_len_char(3) [OF len]) (use nth nz len in auto)
  have "length m' = length m" using l1 len m by (simp add: m'_def length_mem_write)
  then show "mem_read (length bs) off m' = bs"
    by (intro nth_equalityI) (use nth len m in \<open>auto simp: length_mem_read nth_slice\<close>)
qed

lemma field_readback:
  assumes en: "engine_ok en" and s: "sound_field (en_layout en) fd"
    and src: "off0 + fd_byte_size fd \<le> length src" and t: "text_ok en fd src off0"
    and v: "field_to_variant en fd src off0 = Some v" and m: "off + fd_byte_size fd \<le> length m"
  shows "field_to_variant en fd (snd (field_from_variant en fd m off v)) off = Some v"
proof -
  let ?t = "fd_type fd" and ?n = "fd_count fd"
  consider (chars) "?t = StringFixed" | (blob) "?t = Blob" | (scalar) "?t \<noteq> StringFixed" "?t \<noteq> Blob" "?n \<le> 1"
    | (array) "?t \<noteq> StringFixed" "?t \<noteq> Blob" "1 < ?n" by linarith
  then show ?thesis
  proof cases
    case chars
    have size: "fd_byte_size fd = ?n" using s chars by (simp add: sound_field_def)
    define bs where "bs = mem_read (string_len src off0 ?n) off0 src"
    have v': "v = VString (en_from_utf8 en bs)" using v chars by (simp add: field_to_variant_def bs_def)
    show ?thesis
    proof (cases "?n = 0")
      case True
      then show ?thesis using chars v' by (simp add: field_to_variant_def field_from_variant_def bs_def)
    next
      case False
      have len: "length bs = string_len src off0 ?n"
        using string_len_char(2) [of src off0 ?n] src size by (simp add: bs_def length_mem_read)
      have b: "length bs < ?n" "en_utf8 en (en_from_utf8 en bs) = bs"
        using t False chars len by (simp_all add: text_ok_def bs_def)
      have nz: "\<forall>b\<in>set bs. b \<noteq> 0"
        using string_len_char(1) [of _ src off0 ?n] len src size string_len_char(2) [of src off0 ?n]
        by (auto simp: in_set_conv_nth bs_def nth_slice)
      have "string_copy_len bs (?n - 1) = length bs" using b(1) by (simp add: string_copy_len_def Let_def)
      then have w: "snd (field_from_variant en fd m off v) = mem_write (off + length bs) [0] (mem_write off bs m)"
        using False chars b(2) by (simp add: field_from_variant_def v' engine_okD [OF en] Let_def)
      show ?thesis
        unfolding w using string_readback [OF nz b(1), of off m] m size chars by (simp add: field_to_variant_def v')
    qed
  next
    case blob
    have size: "fd_byte_size fd = ?n" using s blob by (simp add: sound_field_def)
    define bs where "bs = mem_read ?n off0 src"
    have bs: "length bs = ?n" using src size by (simp add: bs_def length_mem_read)
    have v': "v = VBytes bs" using v blob by (simp add: field_to_variant_def bs_def)
    then show ?thesis
      using blob bs m size by (simp add: field_from_variant_def field_to_variant_def engine_okD [OF en] Let_def mem_read_write_prefix)
  next
    case scalar
    have size: "fd_byte_size fd = field_type_size (en_layout en) ?t" using s scalar by (simp add: sound_field_def max_def)
    have v': "scalar_to_variant en ?t src off0 = Some v" using v scalar by (simp add: field_to_variant_def)
    obtain bs where bs: "scalar_bytes en ?t v = Some bs" using scalar_to_variant_bytes [OF v'] by blast
    have "off + length bs \<le> length m" using m size scalar_bytes_length [OF en bs] by simp
    then show ?thesis
      using scalar scalar_canonical [OF en v' _ bs] src size
      by (simp add: field_from_variant_def field_to_variant_def scalar_from_variant_def bs)
  next
    case array
    let ?es = "field_type_size (en_layout en) ?t"
    have size: "fd_byte_size fd = ?n * ?es" "fd_element_type fd = field_type_code ?t" "fd_byte_size fd div ?n = ?es"
      using s array by (auto simp: sound_field_def max_def)
    obtain vs where vs: "array_to_variants en (field_type_code ?t) ?es src off0 ?n = Some vs" "v = VArray vs"
      using v array size by (auto simp: field_to_variant_def storage_size_def)
    have c: "length vs = ?n" "list_all (canonical en ?t) vs"
      using array_to_variants_canonical [OF en vs(1)] src size(1) by simp_all
    have "off + length vs * ?es \<le> length m" using m size(1) c(1) by simp
    from array_readback [OF en c(2) this] show ?thesis
      using array size c(1) by (simp add: field_from_variant_def field_to_variant_def storage_size_def engine_okD [OF en] vs(2))
  qed
qed

section \<open>Components\<close>

lemma scalar_to_variant_total: "t \<noteq> StringFixed \<Longrightarrow> t \<noteq> Blob \<Longrightarrow> scalar_to_variant en t m off \<noteq> None"
  by (cases t) (simp_all add: scalar_to_variant_def)

lemma field_to_variant_total: "sound_field L fd \<Longrightarrow> field_to_variant en fd m off \<noteq> None"
proof -
  assume s: "sound_field L fd"
  have "t \<noteq> StringFixed \<Longrightarrow> t \<noteq> Blob \<Longrightarrow> array_to_variants en (field_type_code t) es m off n \<noteq> None" for t es n
  proof (induction n arbitrary: off)
    case (Suc n)
    obtain v where "scalar_to_variant en t m off = Some v" using scalar_to_variant_total Suc.prems by blast
    moreover obtain vs where "array_to_variants en (field_type_code t) es m (off + es) n = Some vs"
      using Suc.IH [of "off + es"] Suc.prems by blast
    ultimately show ?case by (simp add: element_to_variant_def)
  qed simp
  then show ?thesis using s scalar_to_variant_total [of "fd_type fd" en m off]
    by (auto simp: field_to_variant_def sound_field_def split: if_splits)
qed

text \<open>Fields one behind the other, as a layout puts them.\<close>

definition separate :: "field_descriptor \<Rightarrow> field_descriptor \<Rightarrow> bool" where
  "separate f g \<longleftrightarrow> fd_offset f + fd_byte_size f \<le> fd_offset g"

lemma laid_out_separate: "laid_out L start fds stop \<Longrightarrow> sorted_wrt separate fds"
  unfolding sorted_wrt_iff_nth_less separate_def by (blast intro: laid_out_disjoint)

definition store_value :: "engine \<Rightarrow> (string \<rightharpoonup> variant) \<Rightarrow> field_descriptor \<Rightarrow> byte list \<Rightarrow> byte list" where
  "store_value en d fd m =
     (case d (fd_name fd) of None \<Rightarrow> m | Some v \<Rightarrow> snd (field_from_variant en fd m (fd_offset fd) v))"

lemma store_value_within:
  assumes "engine_ok en" "sound_field (en_layout en) fd" "fd_offset fd + fd_byte_size fd \<le> length m"
  shows "within (fd_offset fd) (fd_byte_size fd) m (store_value en d fd m)"
  using field_from_within [OF assms] by (simp add: store_value_def split: option.split)

lemma store_values_frame:
  assumes en: "engine_ok en"
  shows "list_all (sound_field (en_layout en)) fds \<Longrightarrow> list_all (\<lambda>fd. fd_offset fd + fd_byte_size fd \<le> length m) fds \<Longrightarrow>
    length (fold (store_value en d) fds m) = length m
    \<and> (\<forall>off k. off + k \<le> length m \<and> list_all (\<lambda>fd. off + k \<le> fd_offset fd) fds \<longrightarrow>
         mem_read k off (fold (store_value en d) fds m) = mem_read k off m)"
proof (induction fds arbitrary: m)
  case (Cons fd fds)
  have w: "within (fd_offset fd) (fd_byte_size fd) m (store_value en d fd m)"
    by (rule store_value_within [OF en]) (use Cons.prems in simp_all)
  then have l: "length (store_value en d fd m) = length m" by (simp add: within_def)
  show ?case using Cons.IH [of "store_value en d fd m"] Cons.prems l within_read [OF w] by simp
qed simp

lemma store_values_readback:
  assumes en: "engine_ok en"
  shows "list_all (sound_field (en_layout en)) fds \<Longrightarrow> list_all (\<lambda>fd. fd_offset fd + fd_byte_size fd \<le> length m) fds \<Longrightarrow>
    sorted_wrt separate fds \<Longrightarrow>
    (\<And>fd. fd \<in> set fds \<Longrightarrow> fd_offset fd + fd_byte_size fd \<le> length src \<and> text_ok en fd src (fd_offset fd)
       \<and> d (fd_name fd) = field_to_variant en fd src (fd_offset fd)) \<Longrightarrow>
    \<forall>fd\<in>set fds. field_to_variant en fd (fold (store_value en d) fds m) (fd_offset fd)
      = field_to_variant en fd src (fd_offset fd)"
proof (induction fds arbitrary: m)
  case (Cons fd fds)
  let ?m1 = "store_value en d fd m" and ?off = "fd_offset fd" and ?n = "fd_byte_size fd"
  let ?m2 = "fold (store_value en d) fds ?m1"
  have s: "sound_field (en_layout en) fd" and m: "?off + ?n \<le> length m" using Cons.prems(1,2) by simp_all
  have l: "length ?m1 = length m" using store_value_within [OF en s m] by (simp add: within_def)
  obtain v where v: "field_to_variant en fd src ?off = Some v" using field_to_variant_total [OF s] by blast
  have "?m1 = snd (field_from_variant en fd m ?off v)" using Cons.prems(4) [of fd] v by (simp add: store_value_def)
  then have r1: "field_to_variant en fd ?m1 ?off = Some v"
    using field_readback [OF en s _ _ v m] Cons.prems(4) [of fd] by simp
  have f: "length ?m2 = length m" "mem_read ?n ?off ?m2 = mem_read ?n ?off ?m1"
    using store_values_frame [OF en, of fds ?m1 d] Cons.prems(1-3) l m by (auto simp: separate_def list_all_iff)
  have "field_to_variant en fd ?m2 ?off = field_to_variant en fd ?m1 ?off"
    using field_slice [OF s, of ?off ?m2] field_slice [OF s, of ?off ?m1] f l m by simp
  moreover have "\<forall>fd\<in>set fds. field_to_variant en fd ?m2 (fd_offset fd) = field_to_variant en fd src (fd_offset fd)"
    by (rule Cons.IH) (use Cons.prems l in simp_all)
  ultimately show ?case using r1 v by simp
qed simp

lemma component_dict_values:
  assumes "distinct (map fd_name (cs_fields s))" "fd \<in> set (cs_fields s)"
  shows "map_of (component_bytes_to_variant_dict en s src []) (fd_name fd) = field_to_variant en fd src (fd_offset fd)"
proof -
  let ?f = "\<lambda>fd d. case field_to_variant en fd src (fd_offset fd) of None \<Rightarrow> d | Some v \<Rightarrow> AList.update (fd_name fd) v d"
  have other: "fd_name fd \<notin> fd_name ` set fds \<Longrightarrow> map_of (fold ?f fds d) (fd_name fd) = map_of d (fd_name fd)" for fds d
    by (induction fds arbitrary: d) (auto split: option.split)
  have "distinct (map fd_name fds) \<Longrightarrow> fd \<in> set fds \<Longrightarrow> map_of d (fd_name fd) = None \<Longrightarrow>
      map_of (fold ?f fds d) (fd_name fd) = field_to_variant en fd src (fd_offset fd)" for fds d
  proof (induction fds arbitrary: d)
    case (Cons g fds)
    show ?case
    proof (cases "g = fd")
      case True
      then show ?thesis using other [of fds] Cons.prems by (auto split: option.split)
    next
      case False
      then have "fd_name g \<noteq> fd_name fd" using Cons.prems(1,2) by (auto simp: image_iff)
      then have "map_of (?f g d) (fd_name fd) = None" using Cons.prems(3) by (simp split: option.split)
      then show ?thesis using Cons.IH [of "?f g d"] Cons.prems(1,2) False by simp
    qed
  qed simp
  from this [OF assms, of "[]"] show ?thesis by (simp add: component_bytes_to_variant_dict_def)
qed

lemma component_dict_readback:
  assumes en: "engine_ok en" and lay: "laid_out (en_layout en) 0 (cs_fields s) (cs_size s)"
    and sound: "list_all (sound_field (en_layout en)) (cs_fields s)" and names: "distinct (map fd_name (cs_fields s))"
    and src: "length src = cs_size s" and chars: "\<forall>fd\<in>set (cs_fields s). text_ok en fd src (fd_offset fd)"
  defines "copy \<equiv> component_dict_to_bytes en s (component_bytes_to_variant_dict en s src [])"
  shows "length copy = cs_size s
    \<and> (\<forall>fd\<in>set (cs_fields s). field_to_variant en fd copy (fd_offset fd) = field_to_variant en fd src (fd_offset fd))
    \<and> component_bytes_to_variant_dict en s copy [] = component_bytes_to_variant_dict en s src []"
proof -
  let ?d = "map_of (component_bytes_to_variant_dict en s src [])" and ?z = "replicate (cs_size s) 0"
  have copy: "copy = fold (store_value en ?d) (cs_fields s) ?z"
    unfolding copy_def component_dict_to_bytes_def store_value_def ..
  have fit: "fd_offset fd + fd_byte_size fd \<le> cs_size s" if "fd \<in> set (cs_fields s)" for fd
    using laid_out_bounds [OF lay that] by simp
  have len: "length copy = cs_size s"
    using store_values_frame [OF en sound, of ?z ?d] fit by (simp add: copy list_all_iff)
  have "\<forall>fd\<in>set (cs_fields s). field_to_variant en fd (fold (store_value en ?d) (cs_fields s) ?z) (fd_offset fd)
      = field_to_variant en fd src (fd_offset fd)"
    by (rule store_values_readback [OF en sound _ laid_out_separate [OF lay]])
      (use fit src chars component_dict_values [OF names] in \<open>auto simp: list_all_iff\<close>)
  then have eq: "\<forall>fd\<in>set (cs_fields s). field_to_variant en fd copy (fd_offset fd) = field_to_variant en fd src (fd_offset fd)"
    by (simp add: copy)
  have "component_bytes_to_variant_dict en s copy [] = component_bytes_to_variant_dict en s src []"
    unfolding component_bytes_to_variant_dict_def by (rule fold_cong) (use eq in auto)
  then show ?thesis using len eq by blast
qed

text \<open>
  C37. A component survives the trip through a script dictionary: when the dictionary of its
  fields (\<open>get_fields\<close>, the JSON of a saved world) is written into a fresh instance, every
  field of it (numbers, engine values, fixed arrays, strings, blobs) reads as in the original,
  and so the dictionary of the copy is the same dictionary.
\<close>

theorem component_dict_roundtrip:
  assumes en: "engine_ok en" and lay: "laid_out (en_layout en) 0 (cs_fields s) (cs_size s)"
    and sound: "list_all (sound_field (en_layout en)) (cs_fields s)" and names: "distinct (map fd_name (cs_fields s))"
    and src: "length src = cs_size s" and chars: "\<forall>fd\<in>set (cs_fields s). text_ok en fd src (fd_offset fd)"
  defines "copy \<equiv> component_dict_to_bytes en s (component_bytes_to_variant_dict en s src [])"
  shows "length copy = cs_size s
    \<and> (\<forall>fd\<in>set (cs_fields s). field_to_variant en fd copy (fd_offset fd) = field_to_variant en fd src (fd_offset fd))
    \<and> component_bytes_to_variant_dict en s copy [] = component_bytes_to_variant_dict en s src []"
  using component_dict_readback [OF en lay sound names src chars] unfolding copy_def .

section \<open>Fixed strings keep whole characters\<close>

text \<open>UTF-8: every character has one lead byte, followed by continuation bytes.\<close>

definition utf8_shape :: "(u32 \<Rightarrow> byte list) \<Rightarrow> bool" where
  "utf8_shape enc \<longleftrightarrow> (\<forall>c. enc c \<noteq> [] \<and> \<not> is_continuation (hd (enc c)) \<and> (\<forall>b\<in>set (tl (enc c)). is_continuation b))"

abbreviation utf8_bytes :: "(u32 \<Rightarrow> byte list) \<Rightarrow> u32 list \<Rightarrow> byte list" where
  "utf8_bytes enc s \<equiv> concat (map enc s)"

lemma utf8_position:
  assumes sh: "utf8_shape enc"
  shows "n < length (utf8_bytes enc s) \<Longrightarrow> \<exists>k<length s. length (utf8_bytes enc (take k s)) \<le> n
    \<and> n < length (utf8_bytes enc (take (Suc k) s)) \<and> \<not> is_continuation (utf8_bytes enc s ! length (utf8_bytes enc (take k s)))
    \<and> (\<forall>i. length (utf8_bytes enc (take k s)) < i \<and> i \<le> n \<longrightarrow> is_continuation (utf8_bytes enc s ! i))"
proof (induction s arbitrary: n)
  case (Cons c s)
  obtain b bs where c: "enc c = b # bs" "\<not> is_continuation b" "\<forall>x\<in>set bs. is_continuation x"
    using sh unfolding utf8_shape_def by (metis list.exhaust_sel)
  show ?case
  proof (cases "n < length (enc c)")
    case True
    then show ?thesis
      by (intro exI [of _ 0]) (auto simp: c nth_append nth_Cons' less_Suc_eq_le)
  next
    case False
    then obtain j where n: "n = length (enc c) + j" by (metis le_iff_add not_less)
    then have "j < length (utf8_bytes enc s)" using Cons.prems by simp
    from Cons.IH [OF this] obtain k where k: "k < length s" "length (utf8_bytes enc (take k s)) \<le> j"
      "j < length (utf8_bytes enc (take (Suc k) s))" "\<not> is_continuation (utf8_bytes enc s ! length (utf8_bytes enc (take k s)))"
      "\<forall>i. length (utf8_bytes enc (take k s)) < i \<and> i \<le> j \<longrightarrow> is_continuation (utf8_bytes enc s ! i)" by blast
    have "is_continuation (utf8_bytes enc (c # s) ! i)"
      if "length (utf8_bytes enc (take (Suc k) (c # s))) < i" "i \<le> n" for i
    proof -
      have "length (utf8_bytes enc (take k s)) < i - length (enc c) \<and> i - length (enc c) \<le> j" using that n by auto
      then have "is_continuation (utf8_bytes enc s ! (i - length (enc c)))" using k(5) by blast
      then show ?thesis using that by (simp add: nth_append)
    qed
    then show ?thesis using k(1-4) n by (intro exI [of _ "Suc k"]) (simp add: nth_append)
  qed
qed simp

lemma utf8_backoff_lead:
  "q \<le> p \<Longrightarrow> \<forall>i. q < i \<and> i \<le> p \<longrightarrow> is_continuation (src ! i) \<Longrightarrow> q = 0 \<or> \<not> is_continuation (src ! q) \<Longrightarrow>
   utf8_backoff src p = q"
proof (induction p)
  case (Suc p)
  show ?case
  proof (cases "q = Suc p")
    case True
    then show ?thesis using Suc.prems(3) by simp
  next
    case False
    then show ?thesis using Suc.IH Suc.prems by simp
  qed
qed simp

lemma string_copy_len_characters:
  assumes sh: "utf8_shape enc" and src: "src = utf8_bytes enc s"
  shows "\<exists>k\<le>length s. string_copy_len src n = length (utf8_bytes enc (take k s))
    \<and> (k < length s \<longrightarrow> n < length (utf8_bytes enc (take (Suc k) s)))"
proof (cases "n < length src")
  case False
  then show ?thesis using src by (intro exI [of _ "length s"]) (simp add: string_copy_len_def Let_def min_def)
next
  case True
  obtain k where k: "k < length s" "length (utf8_bytes enc (take k s)) \<le> n" "n < length (utf8_bytes enc (take (Suc k) s))"
    "\<not> is_continuation (src ! length (utf8_bytes enc (take k s)))"
    "\<forall>i. length (utf8_bytes enc (take k s)) < i \<and> i \<le> n \<longrightarrow> is_continuation (src ! i)"
    using utf8_position [OF sh, of n s] True src by blast
  have "string_copy_len src n = length (utf8_bytes enc (take k s))"
  proof (cases "is_continuation (src ! n)")
    case c: True
    then have "n > 0" using k(2,4) by (metis gr0I le_zero_eq)
    then show ?thesis using c True utf8_backoff_lead [OF k(2,5)] k(4) by (simp add: string_copy_len_def Let_def)
  next
    case False
    then have "\<not> length (utf8_bytes enc (take k s)) < n" using k(5) by blast
    then show ?thesis using False True k(2) by (simp add: string_copy_len_def Let_def)
  qed
  then show ?thesis using k(1,3) by (intro exI [of _ k]) simp
qed

text \<open>
  C38. Storing a string in a fixed buffer never cuts a character in half and never leaves the
  buffer: the bytes stored are the UTF-8 of the longest prefix of the string that fits next to
  the terminator, the terminator follows, and only the bytes of the field change.
\<close>

theorem string_field_keeps_characters:
  assumes fd: "fd_type fd = StringFixed" "0 < fd_count fd" and m: "off + fd_count fd \<le> length m"
    and enc: "utf8_shape enc" "en_utf8 en (en_string en v) = utf8_bytes enc (en_string en v)"
  shows "\<exists>k m'. field_from_variant en fd m off v = (True, m')
    \<and> (let kept = utf8_bytes enc (take k (en_string en v))
       in length kept < fd_count fd \<and> mem_read (length kept) off m' = kept \<and> m' ! (off + length kept) = 0
        \<and> (k < length (en_string en v) \<longrightarrow> fd_count fd \<le> length (utf8_bytes enc (take (Suc k) (en_string en v)))))
    \<and> k \<le> length (en_string en v) \<and> within off (fd_count fd) m m'"
proof -
  define s where "s = en_string en v"
  define src where "src = utf8_bytes enc s"
  obtain k where k: "k \<le> length s" "string_copy_len src (fd_count fd - 1) = length (utf8_bytes enc (take k s))"
    "k < length s \<longrightarrow> fd_count fd - 1 < length (utf8_bytes enc (take (Suc k) s))"
    using string_copy_len_characters [OF enc(1) src_def] by blast
  define kept where "kept = utf8_bytes enc (take k s)"
  have "src = kept @ utf8_bytes enc (drop k s)" by (metis append_take_drop_id concat_append kept_def map_append src_def)
  then have tk: "take (length kept) src = kept" by simp
  have len: "length kept < fd_count fd"
    using string_copy_len_le(1) [of src "fd_count fd - 1"] k(2) fd(2) by (simp add: kept_def)
  define m1 where "m1 = mem_write off kept m"
  define m' where "m' = mem_write (off + length kept) [0] m1"
  have l1: "length m1 = length m" using len m by (simp add: m1_def length_mem_write)
  have w: "within off (fd_count fd) m m1" unfolding m1_def by (rule within_write_in) (use len m in auto)
  have w2: "within off (fd_count fd) m1 m'" unfolding m'_def by (rule within_write_in) (use len m l1 in auto)
  have f: "field_from_variant en fd m off v = (True, m')"
    using fd k(2) tk enc(2) by (simp add: field_from_variant_def Let_def m'_def m1_def kept_def src_def s_def)
  have z: "m' ! (off + length kept) = 0" unfolding m'_def using len m l1 by (subst nth_store) auto
  have "mem_read (length kept) off m' = mem_read (length kept) off m1"
    unfolding m'_def by (rule mem_read_write_disjoint) (use len m l1 in auto)
  also have "\<dots> = kept" unfolding m1_def by (rule mem_read_write_same) (use len m in auto)
  finally show ?thesis
    using f z len k(1,3) within_trans [OF w w2] fd(2)
    by (intro exI [of _ k] exI [of _ m']) (auto simp: Let_def kept_def s_def)
qed

section \<open>A concrete engine\<close>

text \<open>
  An engine for the witnesses: values convert to their own type only, strings are encoded with
  one or two bytes a character, and floats widen by their bits.
\<close>

definition demo_layout :: type_layout where
  "demo_layout = \<lparr>engine_size = (\<lambda>t. if t = Vector2 then 8 else 4), engine_align = (\<lambda>t. 4)\<rparr>"

definition demo_enc :: "u32 \<Rightarrow> byte list" where
  "demo_enc c = (let n = unat c in if n < 128 then [of_nat n] else [of_nat (192 + n div 64 mod 32), of_nat (128 + n mod 64)])"

fun demo_dec :: "byte list \<Rightarrow> u32 list" where
  "demo_dec [] = []"
| "demo_dec [b] = [of_nat (unat b)]"
| "demo_dec (b # c # bs) =
     (if unat b < 128 then of_nat (unat b) # demo_dec (c # bs)
      else of_nat ((unat b - 192) * 64 + (unat c - 128)) # demo_dec bs)"

definition demo_engine :: engine where
  "demo_engine = \<lparr>en_layout = demo_layout,
     en_bool = (\<lambda>v. case v of VBool b \<Rightarrow> b | _ \<Rightarrow> False),
     en_int = (\<lambda>v. case v of VInt i \<Rightarrow> i | _ \<Rightarrow> 0),
     en_float = (\<lambda>v. case v of VFloat x \<Rightarrow> x | _ \<Rightarrow> 0),
     en_widen = ucast, en_narrow = ucast,
     en_value = (\<lambda>t v. let n = engine_size demo_layout t in
        case v of VValue u bs \<Rightarrow> if length bs = n then bs else replicate n 0 | _ \<Rightarrow> replicate n 0),
     en_string = (\<lambda>v. case v of VString s \<Rightarrow> s | _ \<Rightarrow> []),
     en_utf8 = (\<lambda>s. concat (map demo_enc s)), en_from_utf8 = demo_dec,
     en_bytes = (\<lambda>v. case v of VBytes bs \<Rightarrow> bs | _ \<Rightarrow> []),
     en_array = (\<lambda>v. case v of VArray vs \<Rightarrow> vs | _ \<Rightarrow> []),
     en_equal = (\<lambda>a b. a = b), en_float_equal = (\<lambda>a b. a = b),
     en_float_to_int = (\<lambda>x. x), en_int_to_float = (\<lambda>i. i), en_stringify = (\<lambda>v. [])\<rparr>"

lemma demo_engine_ok: "engine_ok demo_engine"
  by (auto simp: engine_ok_def demo_engine_def Let_def split: variant.split)

lemma demo_shape: "utf8_shape demo_enc"
proof -
  have c: "\<forall>k\<in>set [0..<64]. is_continuation (of_nat (128 + k))" by code_simp
  have l: "\<forall>k\<in>set [0..<32]. \<not> is_continuation (of_nat (192 + k))" by code_simp
  have a: "\<forall>k\<in>set [0..<128]. \<not> is_continuation (of_nat k)" by code_simp
  have "\<not> is_continuation (of_nat (unat x))" if "unat x < 128" for x :: u32 using a that by (simp del: of_nat_unat)
  then show ?thesis
    unfolding utf8_shape_def demo_enc_def Let_def
    using c l by (auto simp del: of_nat_add)
qed

definition demo_fields :: "field_descriptor list" where
  "demo_fields = map (\<lambda>(nm, t, off, n, c). \<lparr>fd_name = nm, fd_type = t, fd_offset = off, fd_byte_size = n, fd_count = c,
       fd_element_type = (if t = I16 then field_type_code I16 else 0), fd_sync_priority = SYNC_MEDIUM, fd_is_networked = True\<rparr>)
     [(''name'', StringFixed, 0, 4, 4), (''pos'', I16, 4, 4, 2), (''hp'', F32, 8, 4, 1)]"

definition named_schema :: component_schema where
  "named_schema = \<lparr>cs_type_name = ''Named'', cs_type_id = 1, cs_size = 12, cs_alignment = 4, cs_fields = demo_fields,
     cs_is_networked = True\<rparr>"

definition named_row :: "byte list" where
  "named_row = [66, 111, 98, 0, 1, 0, 255, 255, 0, 0, 128, 63]"

theorem component_dict_roundtrip_witness:
  "component_bytes_to_variant_dict demo_engine named_schema
     (component_dict_to_bytes demo_engine named_schema
       (component_bytes_to_variant_dict demo_engine named_schema named_row [])) []
   = [(''name'', VString [66, 111, 98]), (''pos'', VArray [VInt 1, VInt (- 1)]), (''hp'', VFloat 0x3F800000)]"
proof -
  have v: "component_bytes_to_variant_dict demo_engine named_schema named_row []
      = [(''name'', VString [66, 111, 98]), (''pos'', VArray [VInt 1, VInt (- 1)]), (''hp'', VFloat 0x3F800000)]"
    by code_simp
  have h: "laid_out (en_layout demo_engine) 0 (cs_fields named_schema) (cs_size named_schema)"
    "list_all (sound_field (en_layout demo_engine)) (cs_fields named_schema)"
    "distinct (map fd_name (cs_fields named_schema))" "length named_row = cs_size named_schema"
    "\<forall>fd\<in>set (cs_fields named_schema). text_ok demo_engine fd named_row (fd_offset fd)"
    by code_simp+
  show ?thesis using component_dict_roundtrip [OF demo_engine_ok h] v by simp
qed

text \<open>Next to the terminator four bytes hold one of two two-byte characters: the second is dropped whole.\<close>

theorem string_field_keeps_characters_witness:
  "\<exists>m' k. field_from_variant demo_engine (hd demo_fields) [9, 9, 9, 9, 9] 0 (VString [0xE9, 0xE9]) = (True, m')
     \<and> k = 1 \<and> mem_read 2 0 m' = [0xC3, 0xA9] \<and> m' ! 2 = 0 \<and> length m' = 5"
proof -
  let ?en = demo_engine and ?v = "VString [0xE9, 0xE9]" and ?fd = "hd demo_fields"
  have h: "fd_type ?fd = StringFixed" "0 < fd_count ?fd" "0 + fd_count ?fd \<le> length [9, 9, 9, 9, 9 :: byte]"
    "fd_count ?fd = 4" "en_string ?en ?v = [0xE9, 0xE9]"
    by (simp_all add: demo_fields_def demo_engine_def)
  have e: "en_utf8 ?en (en_string ?en ?v) = utf8_bytes demo_enc (en_string ?en ?v)" by (simp add: demo_engine_def)
  have enc: "demo_enc 0xE9 = [0xC3, 0xA9]" by code_simp
  obtain k m' where km: "field_from_variant ?en ?fd [9, 9, 9, 9, 9] 0 ?v = (True, m')"
    "let kept = utf8_bytes demo_enc (take k (en_string ?en ?v))
       in length kept < fd_count ?fd \<and> mem_read (length kept) 0 m' = kept \<and> m' ! (0 + length kept) = 0
        \<and> (k < length (en_string ?en ?v) \<longrightarrow> fd_count ?fd \<le> length (utf8_bytes demo_enc (take (Suc k) (en_string ?en ?v))))"
    "k \<le> length (en_string ?en ?v)" "within 0 (fd_count ?fd) [9, 9, 9, 9, 9] m'"
    using string_field_keeps_characters [OF h(1-3) demo_shape e] by blast
  have "k = 0 \<or> k = 1 \<or> k = 2" using km(3) by (auto simp: h)
  then have "k = 1" using km(2) by (auto simp: h enc Let_def)
  then show ?thesis using km by (intro exI [of _ m'] exI [of _ k]) (auto simp: h enc Let_def within_def numeral_2_eq_2)
qed

end
