(* ===== verification/ScriptApi.thy ===== *)
theory ScriptApi
  imports Reflect Blocks
begin

text \<open>
  The script-facing handles: \<open>VECSComponent\<close> (src/gdscript/vecs_component.cpp), \<open>VECSEntity\<close>
  (vecs_entity.cpp) and \<open>VECSCommandBuffer\<close> (vecs_command_buffer.cpp). A handle names a world, an
  entity and a component type and checks all of them on every call; values are the script values
  of \<open>Reflect\<close>. Log lines are left out; names of components and fields are strings.
\<close>

section \<open>Components\<close>

text \<open>\<open>vc_bound\<close>: the handle has a world (a handle a script creates by itself has none).\<close>

record vecs_component =
  vc_bound :: bool
  vc_entity :: entity
  vc_type :: ctype

definition make_component :: "entity \<Rightarrow> ctype \<Rightarrow> vecs_component" where
  "make_component p_entity p_type = \<lparr>vc_bound = True, vc_entity = p_entity, vc_type = p_type\<rparr>"

definition comp_is_valid :: "'u world \<Rightarrow> vecs_component \<Rightarrow> bool" where
  "comp_is_valid w c \<longleftrightarrow> vc_bound c \<and> is_alive w (vc_entity c) \<and> has w (vc_entity c) (vc_type c)"

definition comp_get_type_name :: "registry \<Rightarrow> vecs_component \<Rightarrow> string" where
  "comp_get_type_name reg c = (if \<not> vc_bound c then '''' else name_of reg (vc_type c))"

text \<open>The checks all accessors share: the field descriptor and the row, or nothing.\<close>

definition comp_field :: "registry \<Rightarrow> 'u world \<Rightarrow> vecs_component \<Rightarrow> string \<Rightarrow> (field_descriptor \<times> row_ptr) option" where
  "comp_field reg w c p_name =
     (if \<not> comp_is_valid w c then None
      else (case schema_of reg (vc_type c) of
              None \<Rightarrow> None
            | Some s \<Rightarrow>
                (case find_field s p_name of
                   None \<Rightarrow> None
                 | Some fd \<Rightarrow> (case get_raw w (vc_entity c) (vc_type c) of None \<Rightarrow> None | Some raw \<Rightarrow> Some (fd, raw)))))"

definition comp_get_field :: "engine \<Rightarrow> registry \<Rightarrow> 'u world \<Rightarrow> vecs_component \<Rightarrow> string \<Rightarrow> variant \<Rightarrow> variant" where
  "comp_get_field en reg w c p_name p_default =
     (case comp_field reg w c p_name of
        None \<Rightarrow> p_default
      | Some (fd, raw) \<Rightarrow>
          (case field_to_variant en fd (load_row w raw) (fd_offset fd) of None \<Rightarrow> p_default | Some v \<Rightarrow> v))"

definition comp_get_field_count :: "registry \<Rightarrow> 'u world \<Rightarrow> vecs_component \<Rightarrow> string \<Rightarrow> nat" where
  "comp_get_field_count reg w c p_name =
     (if \<not> comp_is_valid w c then 0
      else (case schema_of reg (vc_type c) of
              None \<Rightarrow> 0
            | Some s \<Rightarrow> (case find_field s p_name of None \<Rightarrow> 0 | Some fd \<Rightarrow> fd_count fd)))"

definition is_array_field :: "field_descriptor \<Rightarrow> bool" where
  "is_array_field fd \<longleftrightarrow> \<not> (fd_count fd \<le> 1 \<or> fd_type fd = StringFixed \<or> fd_type fd = Blob)"

definition element_offset :: "field_descriptor \<Rightarrow> nat \<Rightarrow> nat" where
  "element_offset fd i = fd_offset fd + i * (storage_size fd div fd_count fd)"

definition comp_get_array_element :: "engine \<Rightarrow> registry \<Rightarrow> 'u world \<Rightarrow> vecs_component \<Rightarrow> string \<Rightarrow> int \<Rightarrow> variant" where
  "comp_get_array_element en reg w c p_name p_index =
     (if p_index < 0 then VNil
      else (case comp_field reg w c p_name of
              None \<Rightarrow> VNil
            | Some (fd, raw) \<Rightarrow>
                (if \<not> is_array_field fd \<or> nat p_index \<ge> fd_count fd then VNil
                 else (case element_to_variant en (fd_element_type fd) (load_row w raw) (element_offset fd (nat p_index)) of
                         None \<Rightarrow> VNil | Some v \<Rightarrow> v))))"

definition comp_field_contains :: "engine \<Rightarrow> registry \<Rightarrow> 'u world \<Rightarrow> vecs_component \<Rightarrow> string \<Rightarrow> variant \<Rightarrow> bool" where
  "comp_field_contains en reg w c p_name p_value =
     (case comp_field reg w c p_name of
        None \<Rightarrow> False
      | Some (fd, raw) \<Rightarrow>
          (if \<not> is_array_field fd then
             (case field_to_variant en fd (load_row w raw) (fd_offset fd) of
                None \<Rightarrow> False | Some v \<Rightarrow> variants_equal en v p_value)
           else
             list_ex (\<lambda>i. case element_to_variant en (fd_element_type fd) (load_row w raw) (element_offset fd i) of
                            None \<Rightarrow> False | Some v \<Rightarrow> variants_equal en v p_value) [0..<fd_count fd]))"

definition comp_set_array_element ::
    "engine \<Rightarrow> ('u, 'v) env \<Rightarrow> vecs_component \<Rightarrow> string \<Rightarrow> int \<Rightarrow> variant \<Rightarrow> 'u world \<Rightarrow> bool \<times> 'u world" where
  "comp_set_array_element en E c p_name p_index p_value w =
     (if p_index < 0 then (False, w)
      else (case comp_field (env_registry E) w c p_name of
              None \<Rightarrow> (False, w)
            | Some (fd, raw) \<Rightarrow>
                (if \<not> is_array_field fd \<or> nat p_index \<ge> fd_count fd then (False, w)
                 else (case element_from_variant en (fd_element_type fd) (load_row w raw)
                              (element_offset fd (nat p_index)) p_value of
                         (ok, row) \<Rightarrow>
                           if \<not> ok then (False, store_row raw row w)
                           else (True, mark_changed_field E (vc_entity c) (vc_type c) p_name (store_row raw row w))))))"

definition comp_set_field ::
    "engine \<Rightarrow> ('u, 'v) env \<Rightarrow> vecs_component \<Rightarrow> string \<Rightarrow> variant \<Rightarrow> 'u world \<Rightarrow> 'u world" where
  "comp_set_field en E c p_name p_value w =
     (case comp_field (env_registry E) w c p_name of
        None \<Rightarrow> w
      | Some (fd, raw) \<Rightarrow>
          (case field_from_variant en fd (load_row w raw) (fd_offset fd) p_value of
             (ok, row) \<Rightarrow>
               if ok then mark_changed_field E (vc_entity c) (vc_type c) p_name (store_row raw row w)
               else store_row raw row w))"

definition comp_get_fields :: "engine \<Rightarrow> registry \<Rightarrow> 'u world \<Rightarrow> vecs_component \<Rightarrow> (string \<times> variant) list" where
  "comp_get_fields en reg w c =
     (if \<not> comp_is_valid w c then []
      else (case schema_of reg (vc_type c) of
              None \<Rightarrow> []
            | Some s \<Rightarrow>
                (case get_raw w (vc_entity c) (vc_type c) of
                   None \<Rightarrow> []
                 | Some raw \<Rightarrow> component_bytes_to_variant_dict en s (load_row w raw) [])))"

text \<open>The typed getters: each reads the field with no default (a null value).\<close>

definition comp_get_int :: "engine \<Rightarrow> registry \<Rightarrow> 'u world \<Rightarrow> vecs_component \<Rightarrow> string \<Rightarrow> u64" where
  "comp_get_int en reg w c p_name =
     (case comp_get_field en reg w c p_name VNil of
        VInt i \<Rightarrow> i
      | VFloat x \<Rightarrow> en_float_to_int en x
      | VBool b \<Rightarrow> (if b then 1 else 0)
      | _ \<Rightarrow> 0)"

definition comp_get_float :: "engine \<Rightarrow> registry \<Rightarrow> 'u world \<Rightarrow> vecs_component \<Rightarrow> string \<Rightarrow> u64" where
  "comp_get_float en reg w c p_name =
     (case comp_get_field en reg w c p_name VNil of
        VFloat x \<Rightarrow> x
      | VInt i \<Rightarrow> en_int_to_float en i
      | VBool b \<Rightarrow> (if b then 0x3FF0000000000000 else 0)
      | _ \<Rightarrow> 0)"

definition comp_get_bool :: "engine \<Rightarrow> registry \<Rightarrow> 'u world \<Rightarrow> vecs_component \<Rightarrow> string \<Rightarrow> bool" where
  "comp_get_bool en reg w c p_name =
     (case comp_get_field en reg w c p_name VNil of
        VBool b \<Rightarrow> b
      | VInt i \<Rightarrow> i \<noteq> 0
      | VFloat x \<Rightarrow> \<not> en_float_equal en x 0
      | _ \<Rightarrow> False)"

definition comp_get_string :: "engine \<Rightarrow> registry \<Rightarrow> 'u world \<Rightarrow> vecs_component \<Rightarrow> string \<Rightarrow> u32 list" where
  "comp_get_string en reg w c p_name =
     (let v = comp_get_field en reg w c p_name VNil in if v = VNil then [] else en_stringify en v)"

definition comp_get_vector :: "engine \<Rightarrow> registry \<Rightarrow> 'u world \<Rightarrow> vecs_component \<Rightarrow> string \<Rightarrow> variant" where
  "comp_get_vector en reg w c p_name =
     (let v = comp_get_field en reg w c p_name VNil
      in case v of
           VValue t bs \<Rightarrow> (if t \<in> {Vector2, Vector2i, Vector3, Vector3i, Vector4, Vector4i} then v else VNil)
         | _ \<Rightarrow> VNil)"

section \<open>Entities\<close>

record vecs_entity =
  ve_bound :: bool
  ve_id :: u64

definition make_entity_handle :: "entity \<Rightarrow> vecs_entity" where
  "make_entity_handle p_entity = \<lparr>ve_bound = True, ve_id = eid p_entity\<rparr>"

definition ent_is_alive :: "'u world \<Rightarrow> vecs_entity \<Rightarrow> bool" where
  "ent_is_alive w x \<longleftrightarrow> ve_bound x \<and> is_alive w (Entity (ve_id x))"

definition ent_has_component :: "registry \<Rightarrow> 'u world \<Rightarrow> vecs_entity \<Rightarrow> string \<Rightarrow> bool" where
  "ent_has_component reg w x p_type_name =
     (if \<not> ent_is_alive w x then False
      else (let t = id_of reg p_type_name in t \<noteq> INVALID_COMPONENT_TYPE \<and> has w (Entity (ve_id x)) t))"

definition ent_get_component_types :: "registry \<Rightarrow> 'u world \<Rightarrow> vecs_entity \<Rightarrow> string list" where
  "ent_get_component_types reg w x =
     (if \<not> ve_bound x \<or> \<not> is_alive w (Entity (ve_id x)) then []
      else map (name_of reg) (get_entity_component_types w (Entity (ve_id x))))"

definition ent_get_component :: "registry \<Rightarrow> 'u world \<Rightarrow> vecs_entity \<Rightarrow> string \<Rightarrow> vecs_component option" where
  "ent_get_component reg w x p_type_name =
     (if \<not> ent_is_alive w x then None
      else (let t = id_of reg p_type_name
            in if t = INVALID_COMPONENT_TYPE then None
               else if \<not> has w (Entity (ve_id x)) t then None
               else Some (make_component (Entity (ve_id x)) t)))"

definition ent_add_component ::
    "engine \<Rightarrow> ('u, 'v) env \<Rightarrow> vecs_entity \<Rightarrow> string \<Rightarrow> (string \<times> variant) list \<Rightarrow> 'u world \<Rightarrow> 'u world" where
  "ent_add_component en E x p_type_name p_fields w =
     (if \<not> ve_bound x then w
      else (let t = id_of (env_registry E) p_type_name
            in if t = INVALID_COMPONENT_TYPE then w
               else if \<not> is_alive w (Entity (ve_id x)) then w
               else add_raw E (Entity (ve_id x)) t
                      (Some (component_dict_to_bytes en (the (schema_of (env_registry E) t)) p_fields)) w))"

definition ent_remove_component :: "('u, 'v) env \<Rightarrow> vecs_entity \<Rightarrow> string \<Rightarrow> 'u world \<Rightarrow> 'u world" where
  "ent_remove_component E x p_type_name w =
     (if \<not> ve_bound x then w
      else (let t = id_of (env_registry E) p_type_name
            in if t = INVALID_COMPONENT_TYPE then w else remove_component E (Entity (ve_id x)) t w))"

definition ent_getf :: "engine \<Rightarrow> registry \<Rightarrow> 'u world \<Rightarrow> vecs_entity \<Rightarrow> string \<Rightarrow> string \<Rightarrow> variant \<Rightarrow> variant" where
  "ent_getf en reg w x p_comp p_field p_default =
     (case ent_get_component reg w x p_comp of
        Some c \<Rightarrow> comp_get_field en reg w c p_field p_default
      | None \<Rightarrow> p_default)"

definition ent_setf ::
    "engine \<Rightarrow> ('u, 'v) env \<Rightarrow> vecs_entity \<Rightarrow> string \<Rightarrow> string \<Rightarrow> variant \<Rightarrow> 'u world \<Rightarrow> 'u world" where
  "ent_setf en E x p_comp p_field p_value w =
     (case ent_get_component (env_registry E) w x p_comp of
        Some c \<Rightarrow> comp_set_field en E c p_field p_value w
      | None \<Rightarrow> w)"

definition ent_getf_int :: "engine \<Rightarrow> registry \<Rightarrow> 'u world \<Rightarrow> vecs_entity \<Rightarrow> string \<Rightarrow> string \<Rightarrow> u64" where
  "ent_getf_int en reg w x p_comp p_field =
     (case ent_get_component reg w x p_comp of Some c \<Rightarrow> comp_get_int en reg w c p_field | None \<Rightarrow> 0)"

definition ent_getf_float :: "engine \<Rightarrow> registry \<Rightarrow> 'u world \<Rightarrow> vecs_entity \<Rightarrow> string \<Rightarrow> string \<Rightarrow> u64" where
  "ent_getf_float en reg w x p_comp p_field =
     (case ent_get_component reg w x p_comp of Some c \<Rightarrow> comp_get_float en reg w c p_field | None \<Rightarrow> 0)"

definition ent_getf_bool :: "engine \<Rightarrow> registry \<Rightarrow> 'u world \<Rightarrow> vecs_entity \<Rightarrow> string \<Rightarrow> string \<Rightarrow> bool" where
  "ent_getf_bool en reg w x p_comp p_field =
     (case ent_get_component reg w x p_comp of Some c \<Rightarrow> comp_get_bool en reg w c p_field | None \<Rightarrow> False)"

definition ent_getf_string :: "engine \<Rightarrow> registry \<Rightarrow> 'u world \<Rightarrow> vecs_entity \<Rightarrow> string \<Rightarrow> string \<Rightarrow> u32 list" where
  "ent_getf_string en reg w x p_comp p_field =
     (case ent_get_component reg w x p_comp of Some c \<Rightarrow> comp_get_string en reg w c p_field | None \<Rightarrow> [])"

definition ent_getf_vector :: "engine \<Rightarrow> registry \<Rightarrow> 'u world \<Rightarrow> vecs_entity \<Rightarrow> string \<Rightarrow> string \<Rightarrow> variant" where
  "ent_getf_vector en reg w x p_comp p_field =
     (case ent_get_component reg w x p_comp of Some c \<Rightarrow> comp_get_vector en reg w c p_field | None \<Rightarrow> VNil)"

definition ent_equals :: "vecs_entity \<Rightarrow> vecs_entity option \<Rightarrow> bool" where
  "ent_equals x p_other = (case p_other of None \<Rightarrow> False | Some y \<Rightarrow> ve_id x = ve_id y)"

section \<open>The command buffer\<close>

text \<open>\<open>bound\<close>: the buffer has a world. An entity argument may be a null reference.\<close>

definition buf_add_component ::
    "engine \<Rightarrow> ('u, 'v) env \<Rightarrow> bool \<Rightarrow> vecs_entity option \<Rightarrow> string \<Rightarrow> (string \<times> variant) list \<Rightarrow> 'u world \<Rightarrow> 'u world" where
  "buf_add_component en E bound p_entity p_type_name p_fields w =
     (case p_entity of
        None \<Rightarrow> w
      | Some x \<Rightarrow>
          (if \<not> bound then w
           else (let t = id_of (env_registry E) p_type_name
                 in if t = INVALID_COMPONENT_TYPE then w
                    else cb_add_component (Entity (ve_id x)) t
                           (Some (component_dict_to_bytes en (the (schema_of (env_registry E) t)) p_fields)) w)))"

definition buf_remove_component ::
    "('u, 'v) env \<Rightarrow> bool \<Rightarrow> vecs_entity option \<Rightarrow> string \<Rightarrow> 'u world \<Rightarrow> 'u world" where
  "buf_remove_component E bound p_entity p_type_name w =
     (case p_entity of
        None \<Rightarrow> w
      | Some x \<Rightarrow>
          (if \<not> bound then w
           else (let t = id_of (env_registry E) p_type_name
                 in if t \<noteq> INVALID_COMPONENT_TYPE then cb_remove_component (Entity (ve_id x)) t w else w)))"

definition buf_add_entity :: "bool \<Rightarrow> vecs_entity option \<Rightarrow> 'u world \<Rightarrow> 'u world" where
  "buf_add_entity bound p_entity w =
     (case p_entity of None \<Rightarrow> w | Some x \<Rightarrow> if \<not> bound then w else cb_add_entity (Entity (ve_id x)) w)"

definition buf_remove_entity :: "bool \<Rightarrow> vecs_entity option \<Rightarrow> 'u world \<Rightarrow> 'u world" where
  "buf_remove_entity bound p_entity w =
     (case p_entity of None \<Rightarrow> w | Some x \<Rightarrow> if \<not> bound then w else cb_remove_entity (Entity (ve_id x)) w)"

definition buf_flush :: "('u, 'v) env \<Rightarrow> bool \<Rightarrow> 'u world \<Rightarrow> 'u world" where
  "buf_flush E bound w = (if bound then execute_commands E w else w)"

definition buf_size :: "bool \<Rightarrow> 'u world \<Rightarrow> nat" where
  "buf_size bound w = (if bound then length (w_command_buffer w) else 0)"

section \<open>Writing a field\<close>

lemma comp_field_Some:
  assumes wf: "wf_store reg w" and f: "comp_field reg w c nm = Some (fd, raw)"
  shows "\<exists>s m. schema_of reg (vc_type c) = Some s \<and> find_field s nm = Some fd
    \<and> get_raw w (vc_entity c) (vc_type c) = Some raw \<and> content w (vc_entity c) = Some m \<and> m (vc_type c) = Some (load_row w raw)
    \<and> length (load_row w raw) = cs_size s"
proof -
  obtain s where s: "schema_of reg (vc_type c) = Some s" "find_field s nm = Some fd"
    "get_raw w (vc_entity c) (vc_type c) = Some raw"
    using f by (auto simp: comp_field_def split: if_splits option.splits)
  obtain m where "content w (vc_entity c) = Some m" "m (vc_type c) = Some (load_row w raw)"
    using get_raw_content(2) [OF wf s(3)] by blast
  then show ?thesis using s pointer_length [OF wf s(3,1)] by blast
qed

lemma comp_field_content:
  assumes wf: "wf_store reg w" and c: "vc_bound c" "content w (vc_entity c) = Some m" "m (vc_type c) \<noteq> None"
    and s: "schema_of reg (vc_type c) = Some s" "find_field s nm = Some fd"
  shows "\<exists>raw. comp_field reg w c nm = Some (fd, raw) \<and> get_raw w (vc_entity c) (vc_type c) = Some raw
    \<and> m (vc_type c) = Some (load_row w raw)"
proof -
  have h: "has w (vc_entity c) (vc_type c)" using c(2,3) by (auto simp: has_content [OF wf])
  moreover have "is_alive w (vc_entity c)" using c(2) by (auto simp: is_alive_content [OF wf])
  moreover obtain raw where raw: "get_raw w (vc_entity c) (vc_type c) = Some raw"
    using h get_raw_content(1) [OF wf, of "vc_entity c" "vc_type c"] by (cases "get_raw w (vc_entity c) (vc_type c)") auto
  ultimately have "comp_field reg w c nm = Some (fd, raw)" using c(1) s by (simp add: comp_field_def comp_is_valid_def)
  then show ?thesis using get_raw_content(2) [OF wf raw] c(2) raw by auto
qed

lemma mark_changed_content:
  assumes wf: "wf_store (env_registry E) w" and p: "passive_env E"
  shows "wf_store (env_registry E) (mark_changed_field E e t fld w)" "content (mark_changed_field E e t fld w) = content w"
proof -
  have "wf_store (env_registry E) (mark_changed_field E e t fld w) \<and> content (mark_changed_field E e t fld w) = content w"
  proof (cases "is_alive w e \<and> has w e t")
    case False
    then show ?thesis using wf by (simp add: mark_changed_field_id)
  next
    case True
    obtain v where v: "mark_changed_field E e t fld w = fst (dispatch E (mk_event Changed e t fld None) v)"
      "wf_store (env_registry E) v" "content v = content w"
      using mark_changed_core [OF wf conjunct1 [OF True] conjunct2 [OF True]] by blast
    show ?thesis using same_store_wf [OF passive_dispatch_store(1) [OF p] v(2)] v by simp
  qed
  then show "wf_store (env_registry E) (mark_changed_field E e t fld w)" "content (mark_changed_field E e t fld w) = content w"
    by auto
qed

lemma comp_set_field_content:
  fixes v :: variant
  assumes wf: "wf_store (env_registry E) w" and p: "passive_env E" and en: "engine_ok en"
    and c: "vc_bound c" "content w (vc_entity c) = Some m" "m (vc_type c) = Some row"
    and s: "schema_of (env_registry E) (vc_type c) = Some s" "find_field s nm = Some fd"
    and fd: "sound_field (en_layout en) fd" "fd_offset fd + fd_byte_size fd \<le> cs_size s"
  defines "row' \<equiv> snd (field_from_variant en fd row (fd_offset fd) v)"
  shows "wf_store (env_registry E) (comp_set_field en E c nm v w)"
    "content (comp_set_field en E c nm v w) = (content w)(vc_entity c \<mapsto> m(vc_type c \<mapsto> row'))"
    "within (fd_offset fd) (fd_byte_size fd) row row'" "length row' = cs_size s" "length row = cs_size s"
proof -
  obtain raw where raw: "comp_field (env_registry E) w c nm = Some (fd, raw)"
    "get_raw w (vc_entity c) (vc_type c) = Some raw" "row = load_row w raw"
    using comp_field_content [OF wf c(1,2) _ s] c(3) by auto
  show len: "length row = cs_size s" unfolding raw(3) by (rule pointer_length [OF wf raw(2) s(1)])
  show w: "within (fd_offset fd) (fd_byte_size fd) row row'"
    unfolding row'_def by (rule field_from_within [OF en fd(1)]) (simp add: len fd(2))
  then show len': "length row' = cs_size s" using len by (simp add: within_def)
  note st = store_through [OF wf raw(2) s(1) len']
  obtain ok where ok: "field_from_variant en fd row (fd_offset fd) v = (ok, row')" by (metis prod.collapse row'_def)
  have e: "comp_set_field en E c nm v w = (if ok then mark_changed_field E (vc_entity c) (vc_type c) nm (store_row raw row' w)
      else store_row raw row' w)"
    using ok by (simp add: comp_set_field_def raw(1) flip: raw(3))
  show "wf_store (env_registry E) (comp_set_field en E c nm v w)"
    "content (comp_set_field en E c nm v w) = (content w)(vc_entity c \<mapsto> m(vc_type c \<mapsto> row'))"
    using st(1,2) mark_changed_content [OF st(1) p] c(2) by (simp_all add: e)
qed

lemma find_field_in: "find_field s nm = Some fd \<Longrightarrow> fd \<in> set (cs_fields s) \<and> fd_name fd = nm"
  by (auto simp: find_field_def find_Some_iff)

lemma separate_pair:
  assumes "sorted_wrt separate fds" "f \<in> set fds" "g \<in> set fds" "f \<noteq> g"
  shows "fd_offset f + fd_byte_size f \<le> fd_offset g \<or> fd_offset g + fd_byte_size g \<le> fd_offset f"
proof -
  obtain i j where ij: "i < length fds" "fds ! i = f" "j < length fds" "fds ! j = g" using assms(2,3) by (auto simp: in_set_conv_nth)
  have "separate (fds ! i) (fds ! j) \<or> separate (fds ! j) (fds ! i)"
    using sorted_wrt_nth_less [OF assms(1)] ij assms(4) by (metis linorder_less_linear)
  then show ?thesis by (auto simp: ij separate_def)
qed

text \<open>
  C39. Setting a field through a script handle is a write of exactly that field: the component
  of the entity keeps its other fields, the entity its other components and the world its other
  entities; and when the value is one the field can hold (what reading such a field gives), the
  next read returns it.
\<close>

theorem set_field_writes_one_field:
  fixes v d :: variant
  assumes wf: "wf_store (env_registry E) w" and p: "passive_env E" and en: "engine_ok en"
    and c: "vc_bound c" "content w (vc_entity c) = Some m" "m (vc_type c) = Some row"
    and s: "schema_of (env_registry E) (vc_type c) = Some s" "find_field s nm = Some fd"
    and lay: "laid_out (en_layout en) 0 (cs_fields s) (cs_size s)" "list_all (sound_field (en_layout en)) (cs_fields s)"
  defines "w' \<equiv> comp_set_field en E c nm v w"
  shows "\<exists>row'. content w' = (content w)(vc_entity c \<mapsto> m(vc_type c \<mapsto> row')) \<and> length row' = cs_size s
    \<and> (\<forall>g\<in>set (cs_fields s). g \<noteq> fd \<longrightarrow> field_to_variant en g row' (fd_offset g) = field_to_variant en g row (fd_offset g))
    \<and> (\<forall>src off. off + fd_byte_size fd \<le> length src \<and> text_ok en fd src off \<and> field_to_variant en fd src off = Some v \<longrightarrow>
         comp_get_field en (env_registry E) w' c nm d = v)"
proof -
  have fd: "fd \<in> set (cs_fields s)" using find_field_in [OF s(2)] by simp
  have fit: "fd_offset g + fd_byte_size g \<le> cs_size s" "sound_field (en_layout en) g" if "g \<in> set (cs_fields s)" for g
    using laid_out_bounds [OF lay(1) that] lay(2) that by (auto simp: list_all_iff)
  define row' where "row' = snd (field_from_variant en fd row (fd_offset fd) v)"
  note st4 = comp_set_field_content(1-4) [OF wf p en c s fit(2,1) [OF fd], where v = v, folded row'_def w'_def]
  note st = st4 comp_set_field_content(5) [OF wf p en c s fit(2,1) [OF fd]]
  have other: "field_to_variant en g row' (fd_offset g) = field_to_variant en g row (fd_offset g)"
    if g: "g \<in> set (cs_fields s)" "g \<noteq> fd" for g
  proof -
    have "mem_read (fd_byte_size g) (fd_offset g) row' = mem_read (fd_byte_size g) (fd_offset g) row"
      by (rule within_read [OF st(3)])
        (use separate_pair [OF laid_out_separate [OF lay(1)] g(1) fd g(2)] fit(1) [OF g(1)] st(5) in auto)
    then show ?thesis
      using field_slice [OF fit(2) [OF g(1)], of "fd_offset g" row'] field_slice [OF fit(2) [OF g(1)], of "fd_offset g" row]
        fit(1) [OF g(1)] st(4,5) by simp
  qed
  have again: "comp_get_field en (env_registry E) w' c nm d = v"
    if v: "off + fd_byte_size fd \<le> length src" "text_ok en fd src off" "field_to_variant en fd src off = Some v" for src off
  proof -
    have cw: "content w' (vc_entity c) = Some (m(vc_type c \<mapsto> row'))" by (simp add: st(2))
    obtain raw where "comp_field (env_registry E) w' c nm = Some (fd, raw)" "row' = load_row w' raw"
      using comp_field_content [OF st(1) c(1) cw _ s] by auto
    moreover have "field_to_variant en fd row' (fd_offset fd) = Some v"
      unfolding row'_def by (rule field_readback [OF en fit(2) [OF fd] v]) (use fit(1) [OF fd] st(5) in simp)
    ultimately show ?thesis by (simp add: comp_get_field_def)
  qed
  show ?thesis using st(2,4) other again by blast
qed

text \<open>Setting \<open>hp\<close> to 7: the getter gives 7, and the entity's flag \<open>on\<close> is still set.\<close>

theorem set_field_writes_one_field_witness:
  "\<exists>row'. content (comp_set_field demo_engine wire_env (make_component e1 1) ''hp'' (VInt 7) (wire_world wire_env 0)) = [e1 \<mapsto> [1 \<mapsto> row']]
     \<and> field_to_variant demo_engine (plain_field ''on'' Bool 0 1 0) row' 0 = Some (VBool True)
     \<and> comp_get_field demo_engine wire_registry
         (comp_set_field demo_engine wire_env (make_component e1 1) ''hp'' (VInt 7) (wire_world wire_env 0))
         (make_component e1 1) ''hp'' VNil = VInt 7"
proof -
  let ?w = "wire_world wire_env 0" and ?c = "make_component e1 1" and ?fd = "plain_field ''hp'' I32 4 4 0"
  note ww = wire_world_ok [OF wire_env_ok(1,3), of 0]
  have c: "vc_bound ?c" "content ?w (vc_entity ?c) = Some [1 \<mapsto> demo_row]" "[1 \<mapsto> demo_row] (vc_type ?c) = Some demo_row"
    by (simp_all add: make_component_def ww(2))
  have s: "schema_of (env_registry wire_env) (vc_type ?c) = Some demo_schema" "find_field demo_schema ''hp'' = Some ?fd"
    using wire_registry_ok(1) by (simp_all add: make_component_def wire_env_ok(3) find_field_def demo_schema_def plain_field_def)
  have lay: "laid_out (en_layout demo_engine) 0 (cs_fields demo_schema) (cs_size demo_schema)"
    "list_all (sound_field (en_layout demo_engine)) (cs_fields demo_schema)"
    by code_simp+
  have v: "0 + fd_byte_size ?fd \<le> length (le32 7)" "text_ok demo_engine ?fd (le32 7) 0"
    "field_to_variant demo_engine ?fd (le32 7) 0 = Some (VInt 7)"
    by code_simp+
  have on: "plain_field ''on'' Bool 0 1 0 \<in> set (cs_fields demo_schema)" "plain_field ''on'' Bool 0 1 0 \<noteq> ?fd"
    "fd_offset (plain_field ''on'' Bool 0 1 0) = 0"
    "field_to_variant demo_engine (plain_field ''on'' Bool 0 1 0) demo_row 0 = Some (VBool True)"
    by (simp_all add: demo_schema_def plain_field_def demo_row_def field_to_variant_def scalar_to_variant_def)
  from set_field_writes_one_field [OF ww(4) wire_env_ok(1) demo_engine_ok c s lay, of "VInt 7" VNil]
  obtain row' where r: "content (comp_set_field demo_engine wire_env ?c ''hp'' (VInt 7) ?w)
      = (content ?w)(vc_entity ?c \<mapsto> [1 \<mapsto> demo_row](vc_type ?c \<mapsto> row'))"
    "\<forall>g\<in>set (cs_fields demo_schema). g \<noteq> ?fd \<longrightarrow>
       field_to_variant demo_engine g row' (fd_offset g) = field_to_variant demo_engine g demo_row (fd_offset g)"
    "comp_get_field demo_engine (env_registry wire_env) (comp_set_field demo_engine wire_env ?c ''hp'' (VInt 7) ?w) ?c ''hp'' VNil = VInt 7"
    using v by blast
  have "content (comp_set_field demo_engine wire_env ?c ''hp'' (VInt 7) ?w) = [e1 \<mapsto> [1 \<mapsto> row']]"
    using r(1) by (simp add: ww(2) make_component_def)
  moreover have "field_to_variant demo_engine (plain_field ''on'' Bool 0 1 0) row' 0 = Some (VBool True)"
    using r(2) on by fastforce
  ultimately show ?thesis using r(3) by (auto simp: wire_env_ok(3))
qed

end
