(* ===== verification/ChangeView.thy ===== *)
theory ChangeView
  imports Blocks
begin

text \<open>
  \<open>ChangeView\<close> of \<open>src/core/world.h\<close>: a view over the entities with a set of component types that
  reports, at every \<open>take\<close>, the entities written since the previous one. It reads two records of
  the same writes, the version of every row (scanned when the view is new, when the matching
  archetypes changed or when the change log was cut) and the change log (read from the position
  of the last \<open>take\<close>). The lemmas follow the two records through marks and show that a \<open>take\<close>
  of a watching view reports exactly the entities marked.
\<close>

section \<open>The view\<close>

record change_view =
  cv_bound :: bool
  cv_baseline :: u64
  cv_log_pos :: nat
  cv_log_gen :: u64
  cv_warmed_up :: bool
  cv_last_arches :: "aid list"
  cv_ids :: "ctype list"
  cv_query :: query

definition new_change_view :: "ctype list \<Rightarrow> 'u world \<Rightarrow> change_view" where
  "new_change_view comps w =
     \<lparr>cv_bound = True, cv_baseline = w_change_tick w, cv_log_pos = 0, cv_log_gen = 0, cv_warmed_up = False,
      cv_last_arches = [], cv_ids = comps, cv_query = comps_query comps\<rparr>"

text \<open>The columns of one archetype start tracking; the loop also tells whether there was one.\<close>

definition stamp_columns :: "ctype list \<Rightarrow> aid \<Rightarrow> 'u world \<Rightarrow> 'u world" where
  "stamp_columns ids a w =
     fold (\<lambda>t u. if has_component (arch u a) t
                 then update_arch_column a t (ensure_versions (w_change_tick u)) u else u) ids w"

definition row_changed :: "ctype list \<Rightarrow> u64 \<Rightarrow> archetype \<Rightarrow> nat \<Rightarrow> bool" where
  "row_changed ids baseline a row =
     list_ex (\<lambda>t. has_component a t \<and> row_changed_since row baseline (column_of a t)) ids"

text \<open>\<open>if (seen.insert(e).second) out.push_back(e)\<close>\<close>

definition collect :: "entity \<Rightarrow> entity set \<times> entity list \<Rightarrow> entity set \<times> entity list" where
  "collect e s = (case s of (seen, out) \<Rightarrow> if e \<in> seen then (seen, out) else (insert e seen, out @ [e]))"

definition scan_archetype ::
    "ctype list \<Rightarrow> u64 \<Rightarrow> aid \<Rightarrow> 'u world \<times> entity set \<times> entity list \<Rightarrow> 'u world \<times> entity set \<times> entity list" where
  "scan_archetype ids baseline a r =
     (case r of (w, s) \<Rightarrow>
        (let w1 = stamp_columns ids a w; x = arch w1 a
         in if \<not> list_ex (has_component (arch w a)) ids then (w1, s)
            else if \<not> list_ex (\<lambda>t. has_component x t \<and> max_version (column_of x t) > baseline) ids then (w1, s)
            else (w1, fold (\<lambda>row s. if row_changed ids baseline x row then collect (a_entities x ! row) s else s)
                        [0..<length (a_entities x)] s)))"

definition matches_all :: "change_view \<Rightarrow> 'u world \<Rightarrow> entity \<Rightarrow> bool" where
  "matches_all v w p_e = (\<not> list_ex (\<lambda>t. \<not> has w p_e t) (cv_ids v))"

definition read_entry :: "change_view \<Rightarrow> 'u world \<Rightarrow> change_log_entry \<Rightarrow> entity set \<times> entity list
    \<Rightarrow> entity set \<times> entity list" where
  "read_entry v w x s =
     (if cl_tick x \<le> cv_baseline v then s
      else if \<not> list_ex (\<lambda>t. cl_comp x = t) (cv_ids v) \<or> \<not> is_alive w (cl_entity x) \<or> \<not> matches_all v w (cl_entity x)
      then s else collect (cl_entity x) s)"

definition need_layer_a :: "change_view \<Rightarrow> 'u world \<Rightarrow> aid list \<Rightarrow> bool" where
  "need_layer_a v w arches \<longleftrightarrow>
     \<not> cv_warmed_up v \<or> w_change_log_generation w \<noteq> cv_log_gen v \<or> cv_last_arches v \<noteq> arches"

definition take_changes :: "change_view \<Rightarrow> 'u world \<Rightarrow> entity list \<times> change_view \<times> 'u world" where
  "take_changes v w =
     (if \<not> cv_bound v then ([], v, w)
      else
        (let (arches, w1) = world_match (cv_query v) w;
             log_gen = w_change_log_generation w1;
             log_invalidated = (log_gen \<noteq> cv_log_gen v);
             (w2, s) = (if need_layer_a v w1 arches
                        then fold (scan_archetype (cv_ids v) (cv_baseline v)) arches (w1, {}, [])
                        else (w1, {}, []));
             start = (if \<not> cv_warmed_up v \<or> log_invalidated then change_log_lower_bound w2 (cv_baseline v)
                      else cv_log_pos v);
             (seen, out) = fold (read_entry v w2) (drop start (w_change_log w2)) s
         in (sort out,
             v\<lparr>cv_log_pos := length (w_change_log w2), cv_log_gen := log_gen, cv_warmed_up := True,
               cv_last_arches := arches, cv_baseline := w_change_tick w2\<rparr>,
             w2)))"

section \<open>Collecting\<close>

lemma collect_sets [simp]:
  "fst (collect e s) = insert e (fst s)" "fst s = set (snd s) \<Longrightarrow> set (snd (collect e s)) = insert e (fst s)"
  "fst s = set (snd s) \<Longrightarrow> distinct (snd s) \<Longrightarrow> distinct (snd (collect e s))"
  by (auto simp: collect_def split: prod.splits)

definition collected :: "entity set \<times> entity list \<Rightarrow> bool" where
  "collected s \<longleftrightarrow> fst s = set (snd s) \<and> distinct (snd s)"

lemma collected_ops [intro]: "collected ({}, [])" "collected s \<Longrightarrow> collected (collect e s)"
  by (auto simp: collected_def)

text \<open>Collecting the wanted ones of a list.\<close>

lemma fold_collect:
  assumes "collected s" "\<And>x s. step x s = (if P x then collect (f x) s else s)"
  shows "collected (fold step xs s) \<and> fst (fold step xs s) = fst s \<union> f ` {x\<in>set xs. P x}"
  using assms(1)
proof (induction xs arbitrary: s)
  case (Cons x xs)
  have c: "collected (step x s)" "fst (step x s) = fst s \<union> f ` {y. y = x \<and> P y}"
    using Cons.prems by (auto simp: assms(2))
  show ?case using Cons.IH [OF c(1)] c(2) by auto
qed auto

section \<open>Stamping\<close>

text \<open>What starting to track changes: versions only, and those of tracked columns not.\<close>

definition outline :: "'u world \<Rightarrow> _" where
  "outline w = (content w, location_of w, w_archetype_list w, w_change_tick w, w_change_log w,
     w_change_log_generation w, ctl w, w_changed_baselines w)"

definition stamped :: "'u world \<Rightarrow> 'u world \<Rightarrow> bool" where
  "stamped w w' \<longleftrightarrow> outline w' = outline w
     \<and> (\<forall>a\<in>set (w_archetype_list w). a_component_ids (arch w' a) = a_component_ids (arch w a)
          \<and> a_entities (arch w' a) = a_entities (arch w a) \<and> a_enabled (arch w' a) = a_enabled (arch w a)
          \<and> (\<forall>t\<in>set (a_component_ids (arch w a)). column_of (arch w' a) t = column_of (arch w a) t
               \<or> column_of (arch w' a) t = ensure_versions (w_change_tick w) (column_of (arch w a) t)))"

lemma stampedD:
  assumes "stamped w w'"
  shows "content w' = content w" "location_of w' = location_of w" "w_archetype_list w' = w_archetype_list w"
    "w_change_tick w' = w_change_tick w" "w_change_log w' = w_change_log w"
    "w_change_log_generation w' = w_change_log_generation w" "ctl w' = ctl w" "w_changed_baselines w' = w_changed_baselines w"
    "a \<in> set (w_archetype_list w) \<Longrightarrow> a_component_ids (arch w' a) = a_component_ids (arch w a)"
    "a \<in> set (w_archetype_list w) \<Longrightarrow> a_entities (arch w' a) = a_entities (arch w a)"
    "a \<in> set (w_archetype_list w) \<Longrightarrow> a_enabled (arch w' a) = a_enabled (arch w a)"
    "a \<in> set (w_archetype_list w) \<Longrightarrow> t \<in> set (a_component_ids (arch w a)) \<Longrightarrow>
       column_of (arch w' a) t = column_of (arch w a) t
       \<or> column_of (arch w' a) t = ensure_versions (w_change_tick w) (column_of (arch w a) t)"
  using assms unfolding stamped_def outline_def by auto

lemma ensure_versions_twice [simp]: "ensure_versions k (ensure_versions k' c) = ensure_versions k' c"
  by (simp add: ensure_versions_def)

lemma stamped_refl [intro]: "stamped w w"
  by (simp add: stamped_def)

lemma stamped_trans:
  assumes 1: "stamped u v" and 2: "stamped v w"
  shows "stamped u w"
  unfolding stamped_def
proof (intro conjI ballI)
  note d1 = stampedD [OF 1] and d2 = stampedD [OF 2]
  show "outline w = outline u" using 1 2 by (simp add: stamped_def)
  fix a
  assume a: "a \<in> set (w_archetype_list u)"
  then have a2: "a \<in> set (w_archetype_list v)" by (simp add: d1(3))
  show "a_component_ids (arch w a) = a_component_ids (arch u a)" "a_entities (arch w a) = a_entities (arch u a)"
    "a_enabled (arch w a) = a_enabled (arch u a)"
    using d1(9-11) [OF a] d2(9-11) [OF a2] by simp_all
  fix t
  assume t: "t \<in> set (a_component_ids (arch u a))"
  then have t2: "t \<in> set (a_component_ids (arch v a))" by (simp add: d1(9) [OF a])
  show "column_of (arch w a) t = column_of (arch u a) t
      \<or> column_of (arch w a) t = ensure_versions (w_change_tick u) (column_of (arch u a) t)"
    using d1(12) [OF a t] d2(12) [OF a2 t2] unfolding d1(4) by auto
qed

lemma update_column_other:
  assumes ar: "wf_arch x" and t: "t \<in> set (a_component_ids x)" and u: "u \<in> set (a_component_ids x)" "u \<noteq> t"
  shows "column_of (update_column t f x) u = column_of x u"
proof -
  obtain j k where j: "column_index x t = Some j" and k: "column_index x u = Some k"
    using column_index_None [OF wf_archD(1) [OF ar], of t] column_index_None [OF wf_archD(1) [OF ar], of u] t u(1) by auto
  have "j \<noteq> k" using index_column(3) [OF ar j] index_column(3) [OF ar k] u(2) by auto
  moreover have "column_index (update_column t f x) u = Some k"
    using k column_index_cong [of "update_column t f x" x u] by simp
  ultimately show ?thesis using j k by (simp add: column_of_def update_column_def)
qed

lemma stamp_column:
  assumes wf: "wf_store reg w" and a: "a \<in> set (w_archetype_list w)" "t \<in> set (a_component_ids (arch w a))"
  defines "w' \<equiv> update_arch_column a t (ensure_versions (w_change_tick w)) w"
  shows "wf_store reg w'" "stamped w w'" "column_of (arch w' a) t = ensure_versions (w_change_tick w) (column_of (arch w a) t)"
    "b \<noteq> a \<Longrightarrow> arch w' b = arch w b"
proof -
  let ?f = "ensure_versions (w_change_tick w)"
  have fs: "\<forall>c. wf_col c \<longrightarrow> c_size c = length (a_entities (arch w a)) \<longrightarrow> wf_col (?f c)"
    "\<And>c. c_size (?f c) = c_size c" "\<And>c. c_elem_size (?f c) = c_elem_size c"
    by (auto simp: version_ops_wf)
  note up = update_arch_column_store [OF wf a fs, folded w'_def]
  note uv = update_versions_store [OF wf a disjI1 [OF refl], folded w'_def]
  show "wf_store reg w'" "column_of (arch w' a) t = ?f (column_of (arch w a) t)" "b \<noteq> a \<Longrightarrow> arch w' b = arch w b"
    using up(1,4,9) by auto
  have ids: "a_component_ids (arch w' b) = a_component_ids (arch w b)" if "b \<in> set (w_archetype_list w)" for b
    using up(2) that by (simp add: same_frame_def)
  have other: "column_of (arch w' a) u = column_of (arch w a) u" if "u \<in> set (a_component_ids (arch w a))" "u \<noteq> t" for u
    using update_column_other [OF wf_archsD(4) [OF wf_storeD(1) [OF wf] a(1)] a(2) that] by (simp add: w'_def update_arch_column_def)
  have "column_of (arch w' b) u = column_of (arch w b) u \<or> column_of (arch w' b) u = ?f (column_of (arch w b) u)"
    if "u \<in> set (a_component_ids (arch w b))" for b u
    using that other [of u] up(4) [of b] up(9) by (cases "b = a"; cases "u = t") auto
  moreover have "outline w' = outline w"
    using up(2,3) uv(3) unfolding outline_def same_frame_def
    by simp (simp add: w'_def update_arch_column_def set_arch_def ctl_def)
  ultimately show "stamped w w'" using up(7,8) ids by (simp add: stamped_def)
qed

lemma stamp_columns_store:
  assumes "wf_store reg w" "a \<in> set (w_archetype_list w)"
  shows "wf_store reg (stamp_columns ids a w) \<and> stamped w (stamp_columns ids a w)
    \<and> (\<forall>t\<in>set ids. t \<in> set (a_component_ids (arch w a)) \<longrightarrow>
         column_of (arch (stamp_columns ids a w) a) t = ensure_versions (w_change_tick w) (column_of (arch w a) t))
    \<and> (\<forall>b. b \<noteq> a \<longrightarrow> arch (stamp_columns ids a w) b = arch w b)"
  using assms
proof (induction ids arbitrary: w)
  case (Cons t ids)
  let ?w1 = "if has_component (arch w a) t then update_arch_column a t (ensure_versions (w_change_tick w)) w else w"
  have e: "stamp_columns (t # ids) a w = stamp_columns ids a ?w1" by (simp add: stamp_columns_def)
  have h: "has_component (arch w a) t \<longleftrightarrow> t \<in> set (a_component_ids (arch w a))"
    by (rule has_component_iff [OF wf_archD(1) [OF wf_archsD(4) [OF wf_storeD(1) [OF Cons.prems(1)] Cons.prems(2)]]])
  have s1: "wf_store reg ?w1" "stamped w ?w1" "\<forall>b. b \<noteq> a \<longrightarrow> arch ?w1 b = arch w b"
    "t \<in> set (a_component_ids (arch w a)) \<Longrightarrow> column_of (arch ?w1 a) t = ensure_versions (w_change_tick w) (column_of (arch w a) t)"
    using stamp_column [OF Cons.prems] Cons.prems(1) by (auto simp: h)
  have a1: "a \<in> set (w_archetype_list ?w1)" "a_component_ids (arch ?w1 a) = a_component_ids (arch w a)"
    "w_change_tick ?w1 = w_change_tick w"
    using stampedD(3,4,9) [OF s1(2)] Cons.prems(2) by auto
  note ih = Cons.IH [OF s1(1) a1(1)]
  let ?w2 = "stamp_columns ids a ?w1"
  have c1: "column_of (arch ?w1 a) u = column_of (arch w a) u \<or> column_of (arch ?w1 a) u = ensure_versions (w_change_tick w) (column_of (arch w a) u)"
    "column_of (arch ?w2 a) u = column_of (arch ?w1 a) u \<or> column_of (arch ?w2 a) u = ensure_versions (w_change_tick w) (column_of (arch ?w1 a) u)"
    if u: "u \<in> set (a_component_ids (arch w a))" for u
    using stampedD(12) [OF s1(2) Cons.prems(2) u] stampedD(12) [OF conjunct1 [OF conjunct2 [OF ih]] a1(1)] u by (simp_all add: a1)
  have "column_of (arch ?w2 a) u = ensure_versions (w_change_tick w) (column_of (arch w a) u)"
    if "u \<in> set (t # ids)" "u \<in> set (a_component_ids (arch w a))" for u
  proof (cases "u \<in> set ids")
    case True
    then show ?thesis using ih c1 [OF that(2)] that(2) a1(2,3) by auto
  next
    case False
    then show ?thesis using c1 [OF that(2)] s1(4) that by auto
  qed
  then show ?case unfolding e using ih s1(3) stamped_trans [OF s1(2)] by auto
qed (auto simp: stamp_columns_def)

section \<open>Marking\<close>

text \<open>Everything \<open>mark_changed_field\<close> does to a component that is there, its observers passive.\<close>

lemma mark_changed_exact:
  fixes fld :: string
  assumes wf: "wf_store (env_registry E) w" and p: "passive_env E" and l: "location_of w e = Some l"
    and h: "has w e t" and tick: "w_change_tick w < - 1"
  defines "w' \<equiv> mark_changed_field E e t fld w" and "a \<equiv> loc_archetype l"
  defines "log \<equiv> w_change_log w @ [\<lparr>cl_entity = e, cl_comp = t, cl_tick = w_change_tick w + 1\<rparr>]"
  shows "wf_store (env_registry E) w'" "content w' = content w" "location_of w' = location_of w"
    "w_archetype_list w' = w_archetype_list w" "w_change_tick w' = w_change_tick w + 1"
    "w_changed_baselines w' = w_changed_baselines w"
    "b \<in> set (w_archetype_list w) \<Longrightarrow> a_component_ids (arch w' b) = a_component_ids (arch w b)"
    "a_entities (arch w' b) = a_entities (arch w b)" "a_enabled (arch w' b) = a_enabled (arch w b)"
    "b \<in> set (w_archetype_list w) \<Longrightarrow> u \<in> set (a_component_ids (arch w b)) \<Longrightarrow>
       column_of (arch w' b) u = (if b = a \<and> u = t
         then column_mark_changed (loc_row l) (w_change_tick w + 1) (ensure_versions (w_change_tick w) (column_of (arch w a) t))
         else column_of (arch w b) u)"
    "(w_change_log w', w_change_log_generation w') =
       (if CHANGE_LOG_SOFT_CAP < length log then (drop (length log div 2) log, w_change_log_generation w + 1)
        else (log, w_change_log_generation w))"
proof -
  have al: "is_alive w e" using is_alive_iff [OF wf] l by simp
  have hc: "has_component (arch w a) t" using h l by (auto simp: has_def a_def split: if_splits)
  have a: "a \<in> set (w_archetype_list w)" "t \<in> set (a_component_ids (arch w a))"
    using wf_locationD(1) [OF wf l] hc has_ids [OF wf l] by (auto simp: a_def)
  let ?w0 = "update_arch_column a t (ensure_versions (w_change_tick w)) w"
  let ?w1 = "bump_tick ?w0"
  let ?w2 = "update_arch_column a t (column_mark_changed (loc_row l) (w_change_tick ?w1)) ?w1"
  let ?w3 = "log_change e t (w_change_tick ?w2) ?w2"
  obtain c where c: "w' = ?w3\<lparr>w_client := c\<rparr>"
    using passive_dispatch [OF p, of "mk_event Changed e t fld None" ?w3] al l hc
    by (auto simp: w'_def a_def mark_changed_field_def Let_def)
  show "wf_store (env_registry E) w'" "content w' = content w"
    using mark_changed_field_wf [OF wf passive_keeps [OF p]] p by (auto simp: w'_def)
  have t0: "w_change_tick ?w0 = w_change_tick w" "w_change_log ?w0 = w_change_log w"
    "w_change_log_generation ?w0 = w_change_log_generation w"
    by (simp_all add: update_arch_column_def set_arch_def)
  have t1: "w_change_tick ?w1 = w_change_tick w + 1" using tick by (simp add: bump_tick_def t0(1))
  have t3: "w_change_tick w' = w_change_tick ?w1"
    by (simp add: c log_change_def compact_change_log_def Let_def update_arch_column_def set_arch_def)
  show "w_change_tick w' = w_change_tick w + 1" by (simp add: t3 t1)
  show "w_changed_baselines w' = w_changed_baselines w" "w_archetype_list w' = w_archetype_list w"
    by (simp_all add: c log_change_def compact_change_log_def Let_def update_arch_column_def set_arch_def bump_tick_def)
  have l2: "w_change_tick ?w2 = w_change_tick w + 1" "w_change_log ?w2 = w_change_log w"
    "w_change_log_generation ?w2 = w_change_log_generation w"
    using t1 t0(2,3) by (simp_all add: update_arch_column_def set_arch_def bump_tick_def)
  show "(w_change_log w', w_change_log_generation w') =
       (if CHANGE_LOG_SOFT_CAP < length log then (drop (length log div 2) log, w_change_log_generation w + 1)
        else (log, w_change_log_generation w))"
    by (simp add: c log_change_def compact_change_log_def Let_def l2 log_def)
  have s3: "arch w' b = arch ?w2 b" "location_of w' = location_of ?w2" for b
    by (simp_all add: c fun_eq_iff arch_def location_of_def log_change_def compact_change_log_def Let_def)
  have bump: "arch (bump_tick v) = arch v" for v :: "'a world" by (simp add: fun_eq_iff arch_def bump_tick_def)
  show "location_of w' = location_of w" unfolding s3
    by (simp add: fun_eq_iff update_arch_column_def) (simp add: location_of_def bump_tick_def update_arch_column_def set_arch_def)
  have a0: "arch ?w0 b = (if b = a then update_column t (ensure_versions (w_change_tick w)) (arch w a) else arch w b)"
    "arch w' b = (if b = a then update_column t (column_mark_changed (loc_row l) (w_change_tick ?w1)) (arch ?w0 a) else arch ?w0 b)" for b
    unfolding s3 by (simp_all add: update_arch_column_def bump)
  show "a_component_ids (arch w' b) = a_component_ids (arch w b)"
    "a_entities (arch w' b) = a_entities (arch w b)" "a_enabled (arch w' b) = a_enabled (arch w b)" for b
    by (simp_all add: a0)
  assume b: "b \<in> set (w_archetype_list w)" "u \<in> set (a_component_ids (arch w b))"
  note st = stamp_column [OF wf a]
  have a2: "a \<in> set (w_archetype_list ?w0)" "t \<in> set (a_component_ids (arch ?w0 a))" using a unfolding a0(1) by (simp_all add: update_arch_column_def set_arch_def)
  have ar0: "wf_arch (arch ?w0 a)" using wf_archsD(4) [OF wf_storeD(1) [OF st(1)] a2(1)] .
  have ar: "wf_arch (arch w a)" using wf_archsD(4) [OF wf_storeD(1) [OF wf] a(1)] .
  obtain j where j: "column_index (arch ?w0 a) t = Some j" using column_index_None [OF wf_archD(1) [OF ar0], of t] a2(2) by auto
  have same: "column_of (update_column t f (arch ?w0 a)) t = f (column_of (arch ?w0 a) t)" for f
    using index_column(1) [OF ar0 j] j column_index_cong [of "update_column t f (arch ?w0 a)" "arch ?w0 a" t]
    by (simp add: column_of_def update_column_def)
  show "column_of (arch w' b) u = (if b = a \<and> u = t
         then column_mark_changed (loc_row l) (w_change_tick w + 1) (ensure_versions (w_change_tick w) (column_of (arch w a) t))
         else column_of (arch w b) u)"
  proof (cases "b = a")
    case False
    then show ?thesis by (simp add: a0)
  next
    case True
    have o: "column_of (arch w' a) u = column_of (arch w a) u" if "u \<noteq> t"
      using update_column_other [OF ar0 a2(2) _ that, of "column_mark_changed (loc_row l) (w_change_tick ?w1)"]
        update_column_other [OF ar a(2) _ that, of "ensure_versions (w_change_tick w)"] b(2) True by (simp add: a0)
    have "column_of (arch w' a) t = column_mark_changed (loc_row l) (w_change_tick w + 1) (ensure_versions (w_change_tick w) (column_of (arch w a) t))"
      using same st(3) by (simp add: a0(2) t1)
    then show ?thesis using o True by auto
  qed
qed

section \<open>A watching view\<close>

text \<open>No version and no log entry is younger than the world's clock.\<close>

definition clock_ok :: "'u world \<Rightarrow> bool" where
  "clock_ok w \<longleftrightarrow> (\<forall>x\<in>set (w_change_log w). cl_tick x \<le> w_change_tick w)
     \<and> (\<forall>a\<in>set (w_archetype_list w). \<forall>t\<in>set (a_component_ids (arch w a)).
          \<forall>k\<in>set (c_versions (column_of (arch w a) t)). k \<le> w_change_tick w)"

text \<open>A tracked column whose versions above the baseline are those of the marked rows.\<close>

definition versions_since :: "u64 \<Rightarrow> (nat \<Rightarrow> bool) \<Rightarrow> column \<Rightarrow> bool" where
  "versions_since base marked c \<longleftrightarrow> c_tracking c
     \<and> (\<forall>i<length (c_versions c). (base < c_versions c ! i \<longleftrightarrow> marked i)
          \<and> (base < c_versions c ! i \<longrightarrow> c_versions c ! i \<le> c_max_version c))"

definition matched :: "change_view \<Rightarrow> 'u world \<Rightarrow> aid list" where
  "matched v w = filter (\<lambda>a. query_matches (cv_query v) (arch w a)) (w_archetype_list w)"

text \<open>
  Since the clock stood at \<open>base\<close> the world has seen the marks \<open>ms\<close> (entity and component type),
  and the versions of the columns \<open>ts\<close> of the archetypes \<open>as\<close> say which.
\<close>

definition tracked_since :: "registry \<Rightarrow> u64 \<Rightarrow> aid set \<Rightarrow> ctype set \<Rightarrow> (entity \<times> ctype) list \<Rightarrow> 'u world \<Rightarrow> bool" where
  "tracked_since reg base as ts ms w \<longleftrightarrow>
     wf_store reg w \<and> clock_ok w \<and> base \<le> w_change_tick w \<and> unat (w_change_tick w) \<le> unat base + length ms
   \<and> as \<subseteq> set (w_archetype_list w)
   \<and> (\<forall>a\<in>as. \<forall>t\<in>ts. t \<in> set (a_component_ids (arch w a)) \<longrightarrow>
        versions_since base (\<lambda>i. (a_entities (arch w a) ! i, t) \<in> set ms) (column_of (arch w a) t))"

lemma tracked_sinceD:
  assumes "tracked_since reg base as ts ms w"
  shows "wf_store reg w" "clock_ok w" "base \<le> w_change_tick w" "unat (w_change_tick w) \<le> unat base + length ms"
    "as \<subseteq> set (w_archetype_list w)"
    "a \<in> as \<Longrightarrow> t \<in> ts \<Longrightarrow> t \<in> set (a_component_ids (arch w a)) \<Longrightarrow>
       versions_since base (\<lambda>i. (a_entities (arch w a) ! i, t) \<in> set ms) (column_of (arch w a) t)"
  using assms unfolding tracked_since_def by blast+

text \<open>
  The log of a watching view holds nothing younger than the marks since its last \<open>take\<close>, and
  unless it was cut its tail holds them all.
\<close>

definition log_since :: "change_view \<Rightarrow> (entity \<times> ctype) list \<Rightarrow> 'u world \<Rightarrow> bool" where
  "log_since v ms w \<longleftrightarrow>
     (\<forall>x\<in>set (w_change_log w). cv_baseline v < cl_tick x \<longrightarrow> (cl_entity x, cl_comp x) \<in> set ms)
   \<and> (\<exists>k\<le>length ms. w_change_log_generation w = cv_log_gen v + of_nat k
        \<and> (k = 0 \<longrightarrow> cv_log_pos v \<le> length (w_change_log w)
             \<and> (\<forall>(e, t)\<in>set ms. has w e t \<longrightarrow>
                  (\<exists>x\<in>set (drop (cv_log_pos v) (w_change_log w)). cl_entity x = e \<and> cl_comp x = t \<and> cv_baseline v < cl_tick x))))"

definition since :: "registry \<Rightarrow> change_view \<Rightarrow> (entity \<times> ctype) list \<Rightarrow> 'u world \<Rightarrow> bool" where
  "since reg v ms w \<longleftrightarrow>
     cv_bound v \<and> cv_query v = comps_query (cv_ids v) \<and> cv_warmed_up v \<and> cv_last_arches v = matched v w
   \<and> tracked_since reg (cv_baseline v) (set (matched v w)) (set (cv_ids v)) ms w \<and> log_since v ms w"

lemma matched_ids:
  assumes wf: "wf_store reg w" and q: "cv_query v = comps_query (cv_ids v)"
  shows "a \<in> set (matched v w) \<longleftrightarrow> a \<in> set (w_archetype_list w) \<and> set (cv_ids v) \<subseteq> set (a_component_ids (arch w a))"
proof (cases "a \<in> set (w_archetype_list w)")
  case True
  then show ?thesis
    using arch_matches_iff [OF wf_archD(1) [OF wf_archsD(4) [OF wf_storeD(1) [OF wf] True]], of "cv_query v"]
    by (auto simp: matched_def query_matches_def2 q comps_query_def)
qed (simp add: matched_def)

lemma member_has:
  assumes wf: "wf_store reg w" and a: "a \<in> set (w_archetype_list w)" "i < length (a_entities (arch w a))"
    "t \<in> set (a_component_ids (arch w a))"
  shows "has w (a_entities (arch w a) ! i) t"
proof -
  obtain l where l: "location_of w (a_entities (arch w a) ! i) = Some l" "loc_archetype l = a"
    using archetype_member [OF wf a(1), of "a_entities (arch w a) ! i"] a(2) by auto
  have "entity_bool (a_entities (arch w a) ! i)" using wf_locationD(7) [OF wf l(1)] by (simp add: entity_bool_iff)
  then show ?thesis using l has_ids [OF wf l(1)] a(3) by (simp add: has_def)
qed

lemma column_length:
  assumes wf: "wf_store reg w" and a: "a \<in> set (w_archetype_list w)" "t \<in> set (a_component_ids (arch w a))"
    and "c_tracking (column_of (arch w a) t)"
  shows "length (c_versions (column_of (arch w a) t)) = length (a_entities (arch w a))"
proof -
  have ar: "wf_arch (arch w a)" using wf_archsD(4) [OF wf_storeD(1) [OF wf] a(1)] .
  obtain j where j: "column_index (arch w a) t = Some j" using column_index_None [OF wf_archD(1) [OF ar], of t] a(2) by auto
  then show ?thesis using index_column(4,5) [OF ar j] assms(4) by (simp add: column_of_def wf_col_def)
qed

lemma sinceD:
  assumes "since reg v ms w"
  shows "wf_store reg w" "clock_ok w" "cv_bound v" "cv_query v = comps_query (cv_ids v)" "cv_warmed_up v"
    "cv_last_arches v = matched v w" "cv_baseline v \<le> w_change_tick w"
    "unat (w_change_tick w) \<le> unat (cv_baseline v) + length ms"
    "a \<in> set (matched v w) \<Longrightarrow> t \<in> set (cv_ids v) \<Longrightarrow>
       versions_since (cv_baseline v) (\<lambda>i. (a_entities (arch w a) ! i, t) \<in> set ms) (column_of (arch w a) t)"
    "x \<in> set (w_change_log w) \<Longrightarrow> cv_baseline v < cl_tick x \<Longrightarrow> (cl_entity x, cl_comp x) \<in> set ms"
    "log_since v ms w" "tracked_since reg (cv_baseline v) (set (matched v w)) (set (cv_ids v)) ms w"
proof -
  note s = assms [unfolded since_def]
  show t: "tracked_since reg (cv_baseline v) (set (matched v w)) (set (cv_ids v)) ms w" and l: "log_since v ms w"
    and q: "cv_query v = comps_query (cv_ids v)" and "cv_bound v" "cv_warmed_up v" "cv_last_arches v = matched v w"
    using s by blast+
  note d = tracked_sinceD [OF t]
  show "wf_store reg w" "clock_ok w" "cv_baseline v \<le> w_change_tick w" "unat (w_change_tick w) \<le> unat (cv_baseline v) + length ms"
    using d(1-4) .
  show "a \<in> set (matched v w) \<Longrightarrow> t \<in> set (cv_ids v) \<Longrightarrow>
       versions_since (cv_baseline v) (\<lambda>i. (a_entities (arch w a) ! i, t) \<in> set ms) (column_of (arch w a) t)"
    using d(6) matched_ids [OF d(1) q] by blast
  show "x \<in> set (w_change_log w) \<Longrightarrow> cv_baseline v < cl_tick x \<Longrightarrow> (cl_entity x, cl_comp x) \<in> set ms"
    using l by (auto simp: log_since_def)
qed

lemma matched_cong:
  assumes "w_archetype_list w' = w_archetype_list w"
    and "\<And>a. a \<in> set (w_archetype_list w) \<Longrightarrow> a_component_ids (arch w' a) = a_component_ids (arch w a)"
  shows "matched v w' = matched v w"
  unfolding matched_def assms(1) using query_matches_cong [OF assms(2)] by (intro filter_cong) auto

lemma has_cong:
  assumes "location_of w' = location_of w" "wf_store reg w"
    and "\<And>a. a \<in> set (w_archetype_list w) \<Longrightarrow> a_component_ids (arch w' a) = a_component_ids (arch w a)"
  shows "has w' e t = has w e t"
  using assms(1) wf_locationD(1) [OF assms(2), of e] has_component_cong [OF assms(3)]
  by (auto simp: has_def split: option.split)

lemma unat_below_max: "unat (x :: 'a::len word) < 2 ^ LENGTH('a) - 1 \<Longrightarrow> x < - 1"
  by (simp add: word_less_nat_alt unsigned_minus_1_eq_mask mask_eq_exp_minus_1)

lemma tick_suc:
  assumes "(x :: u64) < - 1"
  shows "x < x + 1" "unat (x + 1) = Suc (unat x)" "y \<le> x \<longleftrightarrow> y < x + 1"
proof -
  have n: "x + 1 \<noteq> 0" using assms by (auto simp flip: eq_neg_iff_add_eq_0)
  show s: "unat (x + 1) = Suc (unat x)" using n by (simp add: unatSuc add.commute)
  then show "x < x + 1" "y \<le> x \<longleftrightarrow> y < x + 1" by (auto simp: word_less_nat_alt word_le_nat_alt)
qed

lemma mark_versions:
  assumes "\<forall>k\<in>set (c_versions c). k \<le> T0" "T0 \<le> T"
  shows "\<forall>k\<in>set (c_versions (column_mark_changed r T (ensure_versions T0 c))). k \<le> T"
proof -
  have "\<forall>k\<in>set (c_versions (ensure_versions T0 c)). k \<le> T"
    using assms by (auto simp: ensure_versions_def intro: order_trans)
  then show ?thesis by (auto simp: column_mark_changed_def dest!: set_update_subset_insert [THEN subsetD])
qed

lemma versions_since_mark:
  assumes v: "versions_since base (\<lambda>i. (es ! i, t) \<in> set ms) c"
    and r: "r < length es" "distinct es" "length (c_versions c) = length es" and T: "base < T"
  shows "versions_since base (\<lambda>i. (es ! i, t) \<in> set (ms @ [(es ! r, t)])) (column_mark_changed r T (ensure_versions T0 c))"
proof -
  have c: "c_tracking c" "\<And>i. i < length es \<Longrightarrow> base < c_versions c ! i \<longleftrightarrow> (es ! i, t) \<in> set ms"
    "\<And>i. i < length es \<Longrightarrow> base < c_versions c ! i \<Longrightarrow> c_versions c ! i \<le> c_max_version c"
    using v r(3) by (auto simp: versions_since_def)
  define c' where "c' = column_mark_changed r T (ensure_versions T0 c)"
  have c': "c_tracking c'" "c_versions c' = (c_versions c)[r := T]" "c_max_version c \<le> c_max_version c'" "T \<le> c_max_version c'"
    using c(1) r by (auto simp: c'_def column_mark_changed_def ensure_versions_def)
  have "(base < c_versions c' ! i \<longleftrightarrow> (es ! i, t) \<in> set (ms @ [(es ! r, t)]))
      \<and> (base < c_versions c' ! i \<longrightarrow> c_versions c' ! i \<le> c_max_version c')" if i: "i < length es" for i
  proof (cases "i = r")
    case True
    then show ?thesis using i r(3) T c'(2,4) by simp
  next
    case False
    then have "es ! i \<noteq> es ! r" using r i by (simp add: nth_eq_iff_index_eq)
    then show ?thesis using False c(2,3) [OF i] c'(2,3) order_trans by auto
  qed
  then show ?thesis using c'(1,2) r(3) by (simp add: versions_since_def flip: c'_def)
qed

text \<open>Marks are cells: an archetype without the marked cell keeps its bookkeeping.\<close>

lemma versions_since_other:
  assumes "versions_since base (\<lambda>i. (es ! i, u) \<in> set ms) c" "length (c_versions c) = length es"
    and "\<And>i. i < length es \<Longrightarrow> (es ! i, u) \<noteq> (e, t)"
  shows "versions_since base (\<lambda>i. (es ! i, u) \<in> set (ms @ [(e, t)])) c"
  using assms by (auto simp: versions_since_def)

lemma tracked_length:
  assumes "tracked_since reg base as ts ms w" "a \<in> as" "t \<in> ts" "t \<in> set (a_component_ids (arch w a))"
  shows "length (c_versions (column_of (arch w a) t)) = length (a_entities (arch w a))"
proof -
  note d = tracked_sinceD [OF assms(1)]
  have "c_tracking (column_of (arch w a) t)" using d(6) [OF assms(2-4)] by (simp add: versions_since_def)
  then show ?thesis using column_length [OF d(1) _ assms(4)] d(5) assms(2) by blast
qed

lemma tracked_since_no_mark:
  assumes s: "tracked_since reg base as ts ms w" and h: "\<not> has w e t"
  shows "tracked_since reg base as ts (ms @ [(e, t)]) w"
proof -
  note d = tracked_sinceD [OF s]
  have "versions_since base (\<lambda>i. (a_entities (arch w a) ! i, u) \<in> set (ms @ [(e, t)])) (column_of (arch w a) u)"
    if a: "a \<in> as" "u \<in> ts" "u \<in> set (a_component_ids (arch w a))" for a u
  proof (rule versions_since_other [OF d(6) [OF a] tracked_length [OF s a]])
    have "a \<in> set (w_archetype_list w)" using d(5) a(1) by blast
    then show "(a_entities (arch w a) ! i, u) \<noteq> (e, t)" if "i < length (a_entities (arch w a))" for i
      using member_has [OF d(1) _ that a(3)] h by auto
  qed
  then show ?thesis using d(1-5) by (simp add: tracked_since_def)
qed

lemma mark_clock:
  fixes fld :: string and e :: entity and t :: ctype
  assumes wf: "wf_store (env_registry E) w" and c: "clock_ok w" and p: "passive_env E" and l: "location_of w e = Some l"
    and h: "has w e t" and tick: "w_change_tick w < - 1"
  shows "clock_ok (mark_changed_field E e t fld w)"
proof -
  let ?w' = "mark_changed_field E e t fld w" and ?T = "w_change_tick w + 1" and ?a = "loc_archetype l"
  note x = mark_changed_exact [OF wf p l h tick, where fld = fld]
  note T = tick_suc [OF tick]
  show ?thesis
    unfolding clock_ok_def x(4,5)
  proof (intro conjI ballI)
    show "cl_tick y \<le> ?T" if "y \<in> set (w_change_log ?w')" for y
    proof -
      have "y = \<lparr>cl_entity = e, cl_comp = t, cl_tick = ?T\<rparr> \<or> y \<in> set (w_change_log w)"
        using that x(11) by (auto split: if_splits dest: in_set_dropD)
      then have "y = \<lparr>cl_entity = e, cl_comp = t, cl_tick = ?T\<rparr> \<or> cl_tick y \<le> w_change_tick w"
        using c unfolding clock_ok_def by blast
      then show ?thesis using T(1) by auto
    qed
    fix a u k
    assume a: "a \<in> set (w_archetype_list w)" "u \<in> set (a_component_ids (arch ?w' a))"
      and k: "k \<in> set (c_versions (column_of (arch ?w' a) u))"
    have u: "u \<in> set (a_component_ids (arch w a))" using a x(7) by simp
    have old: "\<forall>k\<in>set (c_versions (column_of (arch w a) u)). k \<le> w_change_tick w" using c a(1) u by (simp add: clock_ok_def)
    show "k \<le> ?T"
    proof (cases "a = ?a \<and> u = t")
      case True
      then show ?thesis using k x(10) [OF a(1) u] mark_versions [OF old less_imp_le [OF T(1)], of "loc_row l"] by simp
    next
      case False
      then have "k \<le> w_change_tick w" using k x(10) [OF a(1) u] old by auto
      then show ?thesis using T(1) by simp
    qed
  qed
qed

text \<open>What a mark keeps of a world: everything but versions, log and clock.\<close>

definition same_rows :: "'u world \<Rightarrow> 'u world \<Rightarrow> bool" where
  "same_rows w w' \<longleftrightarrow> content w' = content w \<and> location_of w' = location_of w \<and> w_archetype_list w' = w_archetype_list w
     \<and> w_changed_baselines w' = w_changed_baselines w
     \<and> (\<forall>a\<in>set (w_archetype_list w). a_component_ids (arch w' a) = a_component_ids (arch w a)
          \<and> a_entities (arch w' a) = a_entities (arch w a) \<and> a_enabled (arch w' a) = a_enabled (arch w a))"

lemma same_rows_refl [intro]: "same_rows w w"
  by (simp add: same_rows_def)

lemma same_rows_trans: "same_rows u v \<Longrightarrow> same_rows v w \<Longrightarrow> same_rows u w"
  by (simp add: same_rows_def)

lemma tracked_since_mark:
  fixes fld :: string and e :: entity and t :: ctype
  assumes s: "tracked_since (env_registry E) base as ts ms w" and p: "passive_env E"
    and room: "unat base + length ms < 2 ^ 64 - 1"
  defines "w' \<equiv> mark_changed_field E e t fld w"
  shows "tracked_since (env_registry E) base as ts (ms @ [(e, t)]) w' \<and> same_rows w w'"
proof (cases "has w e t")
  case False
  then show ?thesis using tracked_since_no_mark [OF s] by (auto simp: w'_def mark_changed_field_id)
next
  case True
  note d = tracked_sinceD [OF s]
  obtain l where l: "location_of w e = Some l" using True by (auto simp: has_def split: if_splits option.splits)
  have tick: "w_change_tick w < - 1" using d(4) room by (intro unat_below_max) simp
  note x = mark_changed_exact [OF d(1) p l True tick, where fld = fld, folded w'_def]
  note T = tick_suc [OF tick]
  note wl = wf_locationD [OF d(1) l]
  have bT: "base < w_change_tick w + 1" using T(3) d(3) by blast
  have "versions_since base (\<lambda>i. (a_entities (arch w' a) ! i, u) \<in> set (ms @ [(e, t)])) (column_of (arch w' a) u)"
    if a: "a \<in> as" "u \<in> ts" "u \<in> set (a_component_ids (arch w a))" for a u
  proof -
    have m: "a \<in> set (w_archetype_list w)" using d(5) a(1) by blast
    note v = d(6) [OF a] and len = tracked_length [OF s a]
    show ?thesis
    proof (cases "a = loc_archetype l \<and> u = t")
      case True
      have "versions_since base (\<lambda>i. (a_entities (arch w a) ! i, t) \<in> set (ms @ [(a_entities (arch w a) ! loc_row l, t)]))
          (column_mark_changed (loc_row l) (w_change_tick w + 1) (ensure_versions (w_change_tick w) (column_of (arch w a) t)))"
        using versions_since_mark [OF _ _ _ _ bT] v len wl(5) wf_archD(6) [OF wl(3)] True by simp
      then show ?thesis using x(10) [OF m a(3)] True by (simp add: x(8) wl(6))
    next
      case False
      have "(a_entities (arch w a) ! i, u) \<noteq> (e, t)" if "i < length (a_entities (arch w a))" for i
        using archetype_member [OF d(1) m, of e] l False that by auto
      then show ?thesis using versions_since_other [OF v len] x(10) [OF m a(3)] False by (auto simp: x(8))
    qed
  qed
  then have "tracked_since (env_registry E) base as ts (ms @ [(e, t)]) w'"
    using x(1,4,5,7) mark_clock [OF d(1,2) p l True tick, of fld] d(4,5) T(2) bT
    unfolding tracked_since_def w'_def [symmetric] by (auto simp: subset_iff)
  moreover have "same_rows w w'" using x(2-4,6-9) by (simp add: same_rows_def)
  ultimately show ?thesis by blast
qed

lemma log_since_mark:
  fixes fld :: string and e :: entity and t :: ctype
  assumes g: "log_since v ms w" and wf: "wf_store (env_registry E) w" and p: "passive_env E"
    and b: "cv_baseline v \<le> w_change_tick w" and tick: "w_change_tick w < - 1"
  defines "w' \<equiv> mark_changed_field E e t fld w"
  shows "log_since v (ms @ [(e, t)]) w'"
proof -
  have young: "\<forall>x\<in>set (w_change_log w). cv_baseline v < cl_tick x \<longrightarrow> (cl_entity x, cl_comp x) \<in> set ms"
    using g by (simp add: log_since_def)
  obtain k where k: "k \<le> length ms" "w_change_log_generation w = cv_log_gen v + of_nat k"
    "k = 0 \<longrightarrow> cv_log_pos v \<le> length (w_change_log w)
       \<and> (\<forall>(e, t)\<in>set ms. has w e t \<longrightarrow>
            (\<exists>x\<in>set (drop (cv_log_pos v) (w_change_log w)). cl_entity x = e \<and> cl_comp x = t \<and> cv_baseline v < cl_tick x))"
    using g unfolding log_since_def by blast
  show ?thesis
  proof (cases "has w e t")
    case False
    have "w' = w" using False by (simp add: w'_def mark_changed_field_id)
    then show ?thesis
      unfolding log_since_def using young k False by (intro conjI exI [of _ k]) auto
  next
    case True
    obtain l where l: "location_of w e = Some l" using True by (auto simp: has_def split: if_splits option.splits)
    note x = mark_changed_exact [OF wf p l True tick, where fld = fld, folded w'_def]
    have bT: "cv_baseline v < w_change_tick w + 1" using tick_suc(3) [OF tick] b by blast
    have hs: "has w' e' t' = has w e' t'" for e' t' by (rule has_cong [OF x(3) wf x(7)])
    have log: "set (w_change_log w') \<subseteq> insert \<lparr>cl_entity = e, cl_comp = t, cl_tick = w_change_tick w + 1\<rparr> (set (w_change_log w))"
      using x(11) by (auto split: if_splits dest: in_set_dropD)
    have tail: "\<exists>k\<le>length (ms @ [(e, t)]). w_change_log_generation w' = cv_log_gen v + of_nat k
        \<and> (k = 0 \<longrightarrow> cv_log_pos v \<le> length (w_change_log w')
             \<and> (\<forall>(e', t')\<in>set (ms @ [(e, t)]). has w' e' t' \<longrightarrow>
                  (\<exists>x\<in>set (drop (cv_log_pos v) (w_change_log w')). cl_entity x = e' \<and> cl_comp x = t' \<and> cv_baseline v < cl_tick x)))"
    proof (cases "w_change_log_generation w' = w_change_log_generation w")
      case False
      then show ?thesis using k(1,2) x(11) by (intro exI [of _ "Suc k"]) (auto split: if_splits)
    next
      case True
      then have "w_change_log w' = w_change_log w @ [\<lparr>cl_entity = e, cl_comp = t, cl_tick = w_change_tick w + 1\<rparr>]"
        using x(11) by (auto split: if_splits)
      then show ?thesis using k True bT by (intro exI [of _ k]) (auto simp: hs)
    qed
    have "\<forall>y\<in>set (w_change_log w'). cv_baseline v < cl_tick y \<longrightarrow> (cl_entity y, cl_comp y) \<in> set (ms @ [(e, t)])"
      using log young by auto
    then show ?thesis unfolding log_since_def using tail by (rule conjI)
  qed
qed

lemma since_mark:
  fixes fld :: string and e :: entity and t :: ctype
  assumes s: "since (env_registry E) v ms w" and p: "passive_env E" and room: "unat (cv_baseline v) + length ms < 2 ^ 64 - 1"
  defines "w' \<equiv> mark_changed_field E e t fld w"
  shows "since (env_registry E) v (ms @ [(e, t)]) w'" "content w' = content w"
proof -
  note d = sinceD [OF s]
  note t = tracked_since_mark [OF d(12) p room, of e t fld, folded w'_def]
  have tick: "w_change_tick w < - 1" using d(8) room by (intro unat_below_max) simp
  have M: "matched v w' = matched v w" using t by (intro matched_cong) (simp_all add: same_rows_def)
  show "since (env_registry E) v (ms @ [(e, t)]) w'"
    unfolding since_def M
    using d(3-6) t log_since_mark [OF d(11,1) p d(7) tick, of e t fld] by (simp add: w'_def)
  show "content w' = content w" using t by (simp add: same_rows_def)
qed

section \<open>Taking\<close>

text \<open>What the scan of an archetype finds: nothing when the maximum of its versions is old.\<close>

definition scan_hits :: "ctype list \<Rightarrow> u64 \<Rightarrow> archetype \<Rightarrow> entity set" where
  "scan_hits ids base x =
     (if list_ex (\<lambda>t. has_component x t \<and> max_version (column_of x t) > base) ids
      then (!) (a_entities x) ` {row. row < length (a_entities x) \<and> row_changed ids base x row} else {})"

lemma scan_archetype_hits:
  assumes wf: "wf_store reg w" and a: "a \<in> set (w_archetype_list w)" and s: "collected s"
  shows "\<exists>s'. scan_archetype ids base a (w, s) = (stamp_columns ids a w, s') \<and> collected s'
    \<and> fst s' = fst s \<union> scan_hits ids base (arch (stamp_columns ids a w) a)"
proof -
  let ?x = "arch (stamp_columns ids a w) a"
  let ?old = "\<not> list_ex (\<lambda>t. has_component ?x t \<and> max_version (column_of ?x t) > base) ids"
  have st: "stamped w (stamp_columns ids a w)" using stamp_columns_store [OF wf a] by blast
  have h: "has_component ?x = has_component (arch w a)"
    by (rule ext, rule has_component_cong, rule stampedD(9) [OF st a])
  have none: "\<not> list_ex (has_component (arch w a)) ids \<Longrightarrow> ?old" by (auto simp: list_ex_iff h)
  note fc = fold_collect [OF s, where step = "\<lambda>row s. if row_changed ids base ?x row then collect (a_entities ?x ! row) s else s",
      OF refl, of "[0..<length (a_entities ?x)]"]
  show ?thesis
  proof (cases ?old)
    case True
    then have "scan_archetype ids base a (w, s) = (stamp_columns ids a w, s)" by (simp add: scan_archetype_def Let_def)
    then show ?thesis using True s by (auto simp: scan_hits_def)
  next
    case False
    have "{row \<in> set [0..<length (a_entities ?x)]. row_changed ids base ?x row}
        = {row. row < length (a_entities ?x) \<and> row_changed ids base ?x row}" by auto
    moreover have "scan_archetype ids base a (w, s) = (stamp_columns ids a w,
        fold (\<lambda>row s. if row_changed ids base ?x row then collect (a_entities ?x ! row) s else s) [0..<length (a_entities ?x)] s)"
      using False none by (auto simp: scan_archetype_def Let_def)
    ultimately show ?thesis using False fc by (simp add: scan_hits_def)
  qed
qed

lemma scan_archetypes:
  assumes "wf_store reg w" "set as \<subseteq> set (w_archetype_list w)" "distinct as" "collected s"
  shows "\<exists>w' s'. fold (scan_archetype ids base) as (w, s) = (w', s') \<and> wf_store reg w' \<and> stamped w w' \<and> collected s'
    \<and> fst s' = fst s \<union> (\<Union>a\<in>set as. scan_hits ids base (arch w' a))
    \<and> (\<forall>a\<in>set as. \<forall>t\<in>set ids. t \<in> set (a_component_ids (arch w a)) \<longrightarrow>
         column_of (arch w' a) t = ensure_versions (w_change_tick w) (column_of (arch w a) t))
    \<and> (\<forall>b. b \<notin> set as \<longrightarrow> arch w' b = arch w b)"
  using assms
proof (induction as arbitrary: w s)
  case Nil
  then show ?case by (auto intro!: stamped_refl)
next
  case (Cons a as)
  let ?w1 = "stamp_columns ids a w"
  have a: "a \<in> set (w_archetype_list w)" using Cons.prems(2) by simp
  note st = stamp_columns_store [OF Cons.prems(1) a, of ids]
  obtain s1 where s1: "scan_archetype ids base a (w, s) = (?w1, s1)" "collected s1"
    "fst s1 = fst s \<union> scan_hits ids base (arch ?w1 a)"
    using scan_archetype_hits [OF Cons.prems(1) a Cons.prems(4)] by blast
  have st1: "wf_store reg ?w1" "stamped w ?w1" using st by blast+
  have l1: "w_archetype_list ?w1 = w_archetype_list w" "w_change_tick ?w1 = w_change_tick w" using stampedD(3,4) [OF st1(2)] .
  obtain w' s' where r: "fold (scan_archetype ids base) as (?w1, s1) = (w', s')" "wf_store reg w'" "stamped ?w1 w'" "collected s'"
    "fst s' = fst s1 \<union> (\<Union>b\<in>set as. scan_hits ids base (arch w' b))"
    "\<forall>b\<in>set as. \<forall>t\<in>set ids. t \<in> set (a_component_ids (arch ?w1 b)) \<longrightarrow>
         column_of (arch w' b) t = ensure_versions (w_change_tick w) (column_of (arch ?w1 b) t)"
    "\<forall>b. b \<notin> set as \<longrightarrow> arch w' b = arch ?w1 b"
    using Cons.IH [OF st1(1) _ _ s1(2)] Cons.prems(2,3) l1 by auto
  have aa: "arch w' a = arch ?w1 a" using r(7) Cons.prems(3) by simp
  have o: "arch ?w1 b = arch w b" if "b \<noteq> a" for b using st that by blast
  have o': "arch ?w1 b = arch w b" if "b \<in> set as" for b using o [of b] that Cons.prems(3) by fastforce
  have cols: "column_of (arch w' b) t = ensure_versions (w_change_tick w) (column_of (arch w b) t)"
    if "b \<in> set (a # as)" "t \<in> set ids" "t \<in> set (a_component_ids (arch w b))" for b t
  proof (cases "b = a")
    case True
    then show ?thesis using st that aa by simp
  next
    case False
    then show ?thesis using r(6) that o' by simp
  qed
  have "fold (scan_archetype ids base) (a # as) (w, s) = (w', s')" by (simp add: s1(1) r(1))
  moreover have "fst s' = fst s \<union> (\<Union>b\<in>set (a # as). scan_hits ids base (arch w' b))" using r(5) s1(3) aa by auto
  moreover have "\<forall>b. b \<notin> set (a # as) \<longrightarrow> arch w' b = arch w b" using r(7) o by auto
  ultimately show ?case using r(2,4) stamped_trans [OF st1(2) r(3)] cols by blast
qed

lemma world_match_stamped:
  assumes "wf_store reg w" "world_match q w = (r, w')"
  shows "stamped w w'"
proof -
  have "outline w' = outline w"
    using world_match_result(3-6) [OF assms] assms(2)
    by (auto simp: outline_def world_match_def Let_def location_of_def fun_eq_iff split: prod.splits)
  then show ?thesis by (simp add: stamped_def world_match_result(6) [OF assms])
qed

text \<open>What the log adds: the younger entries of watched components of live members.\<close>

definition log_hits :: "change_view \<Rightarrow> 'u world \<Rightarrow> change_log_entry list \<Rightarrow> entity set" where
  "log_hits v w log = cl_entity ` {x\<in>set log. cv_baseline v < cl_tick x \<and> cl_comp x \<in> set (cv_ids v)
     \<and> is_alive w (cl_entity x) \<and> (\<forall>t\<in>set (cv_ids v). has w (cl_entity x) t)}"

lemma read_entries:
  assumes "collected s"
  shows "collected (fold (read_entry v w) log s) \<and> fst (fold (read_entry v w) log s) = fst s \<union> log_hits v w log"
proof -
  let ?P = "\<lambda>x. cv_baseline v < cl_tick x \<and> cl_comp x \<in> set (cv_ids v)
     \<and> is_alive w (cl_entity x) \<and> (\<forall>t\<in>set (cv_ids v). has w (cl_entity x) t)"
  have "read_entry v w x s = (if ?P x then collect (cl_entity x) s else s)" for x s
    by (auto simp: read_entry_def matches_all_def list_ex_iff)
  from fold_collect [OF assms, of "read_entry v w", OF this, of log] show ?thesis by (simp only: log_hits_def)
qed

definition log_start :: "change_view \<Rightarrow> 'u world \<Rightarrow> nat" where
  "log_start v w = (if \<not> cv_warmed_up v \<or> w_change_log_generation w \<noteq> cv_log_gen v
     then change_log_lower_bound w (cv_baseline v) else cv_log_pos v)"

lemma take_changes_result:
  assumes wf: "wf_store reg w" and b: "cv_bound v" and q: "cv_query v = comps_query (cv_ids v)"
    and r: "take_changes v w = (out, v', w')"
  shows "wf_store reg w'" "stamped w w'" "sorted_wrt (<) out"
    "v' = v\<lparr>cv_log_pos := length (w_change_log w), cv_log_gen := w_change_log_generation w, cv_warmed_up := True,
         cv_last_arches := matched v w, cv_baseline := w_change_tick w\<rparr>"
    "set out = (if need_layer_a v w (matched v w)
         then \<Union>a\<in>set (matched v w). scan_hits (cv_ids v) (cv_baseline v) (arch w' a) else {})
       \<union> log_hits v w' (drop (log_start v w) (w_change_log w))"
    "need_layer_a v w (matched v w) \<Longrightarrow> a \<in> set (matched v w) \<Longrightarrow> t \<in> set (cv_ids v) \<Longrightarrow>
       column_of (arch w' a) t = ensure_versions (w_change_tick w) (column_of (arch w a) t)"
    "\<not> need_layer_a v w (matched v w) \<Longrightarrow> arch w' = arch w"
proof -
  let ?m = "matched v w" and ?need = "need_layer_a v w (matched v w)"
  obtain arches w1 where m: "world_match (cv_query v) w = (arches, w1)" by fastforce
  note mr = world_match_result [OF wf m] and m1 = world_match_stamped [OF wf m]
  note sd = stampedD [OF m1]
  have arches: "arches = ?m" by (simp add: mr(1) matched_def)
  have need: "need_layer_a v w1 arches = ?need" by (simp add: arches need_layer_a_def sd(6))
  have mi: "a \<in> set ?m \<Longrightarrow> t \<in> set (cv_ids v) \<Longrightarrow> t \<in> set (a_component_ids (arch w a))" for a t
    using matched_ids [OF wf q] by blast
  have ml: "set ?m \<subseteq> set (w_archetype_list w1)" "distinct ?m"
    using wf_archsD(1) [OF wf_storeD(1) [OF wf]] by (auto simp: matched_def sd(3))
  obtain w2 s where L: "(if ?need then fold (scan_archetype (cv_ids v) (cv_baseline v)) arches (w1, {}, []) else (w1, {}, [])) = (w2, s)"
    by (metis surj_pair)
  have S: "wf_store reg w2 \<and> stamped w1 w2 \<and> collected s
    \<and> fst s = (if ?need then \<Union>a\<in>set ?m. scan_hits (cv_ids v) (cv_baseline v) (arch w2 a) else {})
    \<and> (?need \<longrightarrow> (\<forall>a\<in>set ?m. \<forall>t\<in>set (cv_ids v).
         column_of (arch w2 a) t = ensure_versions (w_change_tick w) (column_of (arch w a) t)))
    \<and> (\<not> ?need \<longrightarrow> arch w2 = arch w)"
  proof (cases ?need)
    case True
    then show ?thesis
      using scan_archetypes [OF mr(2) ml collected_ops(1), of "cv_ids v" "cv_baseline v"] L mi by (auto simp: arches mr(6) sd(4))
  next
    case False
    then show ?thesis using L mr(2,6) by (auto intro: stamped_refl)
  qed
  have w2: "stamped w w2" using stamped_trans [OF m1] S by blast
  note d2 = stampedD [OF w2]
  have ls: "change_log_lower_bound w2 k = change_log_lower_bound w k" for k
    by (simp add: change_log_lower_bound_def d2(5))
  define fin where "fin = fold (read_entry v w2) (drop (log_start v w) (w_change_log w)) s"
  have fin: "collected fin" "fst fin = fst s \<union> log_hits v w2 (drop (log_start v w) (w_change_log w))"
    using read_entries [of s v w2] S unfolding fin_def by blast+
  have e: "take_changes v w = (sort (snd fin),
      v\<lparr>cv_log_pos := length (w_change_log w), cv_log_gen := w_change_log_generation w, cv_warmed_up := True,
        cv_last_arches := ?m, cv_baseline := w_change_tick w\<rparr>, w2)"
    by (simp only: take_changes_def b m Let_def prod.case need L if_False not_True_eq_False)
      (simp add: case_prod_beta fin_def log_start_def ls d2(4,5) sd(6) arches)
  show "wf_store reg w'" "stamped w w'"
    "v' = v\<lparr>cv_log_pos := length (w_change_log w), cv_log_gen := w_change_log_generation w, cv_warmed_up := True,
         cv_last_arches := matched v w, cv_baseline := w_change_tick w\<rparr>"
    using e r S w2 by auto
  have o: "out = sort (snd fin)" "w' = w2" using e r by auto
  show "sorted_wrt (<) out" using fin(1) by (simp add: o collected_def strict_sorted_iff)
  show "set out = (if ?need then \<Union>a\<in>set (matched v w). scan_hits (cv_ids v) (cv_baseline v) (arch w' a) else {})
       \<union> log_hits v w' (drop (log_start v w) (w_change_log w))"
    using fin S by (auto simp: o collected_def)
  show "?need \<Longrightarrow> a \<in> set ?m \<Longrightarrow> t \<in> set (cv_ids v) \<Longrightarrow>
       column_of (arch w' a) t = ensure_versions (w_change_tick w) (column_of (arch w a) t)" "\<not> ?need \<Longrightarrow> arch w' = arch w"
    using S by (auto simp: o)
qed

lemma stamped_clock:
  assumes "stamped w w'" "clock_ok w"
  shows "clock_ok w'"
  unfolding clock_ok_def stampedD(3-5) [OF assms(1)]
proof (intro conjI ballI)
  show "cl_tick x \<le> w_change_tick w" if "x \<in> set (w_change_log w)" for x using that assms(2) by (simp add: clock_ok_def)
  fix a t k
  assume a: "a \<in> set (w_archetype_list w)" "t \<in> set (a_component_ids (arch w' a))" and k: "k \<in> set (c_versions (column_of (arch w' a) t))"
  have t: "t \<in> set (a_component_ids (arch w a))" using a stampedD(9) [OF assms(1) a(1)] by simp
  have "\<forall>k\<in>set (c_versions (column_of (arch w a) t)). k \<le> w_change_tick w" using assms(2) a(1) t by (simp add: clock_ok_def)
  then show "k \<le> w_change_tick w"
    using stampedD(12) [OF assms(1) a(1) t] k by (auto simp: ensure_versions_def split: if_splits)
qed

text \<open>After a \<open>take\<close> nothing is younger than the baseline.\<close>

lemma since_taken:
  assumes wf: "wf_store reg w" and c: "clock_ok w" and b: "cv_bound v" and q: "cv_query v = comps_query (cv_ids v)"
    and r: "take_changes v w = (out, v', w')"
    and tr: "need_layer_a v w (matched v w)
      \<or> (\<forall>a\<in>set (matched v w). \<forall>t\<in>set (cv_ids v). c_tracking (column_of (arch w a) t))"
  shows "since reg v' [] w'"
proof -
  note t = take_changes_result [OF wf b q r] and sd = stampedD [OF take_changes_result(2) [OF wf b q r]]
  have c': "clock_ok w'" by (rule stamped_clock [OF t(2) c])
  have v': "cv_ids v' = cv_ids v" "cv_query v' = cv_query v" "cv_baseline v' = w_change_tick w" by (simp_all add: t(4))
  have M: "matched v' w' = matched v w" using matched_cong [OF sd(3,9)] by (simp add: matched_def v')
  have "versions_since (w_change_tick w) (\<lambda>i. False) (column_of (arch w' a) u)"
    if a: "a \<in> set (matched v w)" "u \<in> set (cv_ids v)" for a u
  proof -
    have m: "a \<in> set (w_archetype_list w')" "u \<in> set (a_component_ids (arch w' a))"
      using matched_ids [OF wf q] a sd(3,9) by auto
    have "c_tracking (column_of (arch w' a) u)"
      using tr t(6,7) a by (cases "need_layer_a v w (matched v w)") (auto simp: ensure_versions_def)
    moreover have "\<forall>k\<in>set (c_versions (column_of (arch w' a) u)). k \<le> w_change_tick w"
      using c' m by (simp add: clock_ok_def sd(4))
    ultimately show ?thesis unfolding versions_since_def by (auto simp del: not_less dest!: nth_mem)
  qed
  moreover have "x \<in> set (w_change_log w) \<Longrightarrow> \<not> w_change_tick w < cl_tick x" for x
    using c by (auto simp: clock_ok_def not_less)
  moreover have "set (matched v w) \<subseteq> set (w_archetype_list w)" by (auto simp: matched_def)
  ultimately show ?thesis
    using t(1) c' b q unfolding since_def tracked_since_def log_since_def M v' by (simp add: t(4) sd)
qed

text \<open>The live members of the view with a marked watched component.\<close>

definition marked :: "change_view \<Rightarrow> (entity \<times> ctype) list \<Rightarrow> 'u world \<Rightarrow> entity set" where
  "marked v ms w = {e. \<exists>m. content w e = Some m \<and> set (cv_ids v) \<subseteq> dom m \<and> (\<exists>t\<in>set (cv_ids v). (e, t) \<in> set ms)}"

lemma marked_has:
  assumes "wf_store reg w"
  shows "e \<in> marked v ms w \<longleftrightarrow> is_alive w e \<and> (\<forall>t\<in>set (cv_ids v). has w e t) \<and> (\<exists>t\<in>set (cv_ids v). (e, t) \<in> set ms)"
  by (auto simp: marked_def has_content [OF assms] is_alive_content [OF assms])

lemma scan_hits_since:
  assumes s: "since reg v ms w" and a: "a \<in> set (matched v w)"
    and x: "a_component_ids x = a_component_ids (arch w a)" "a_entities x = a_entities (arch w a)"
      "\<And>t. t \<in> set (cv_ids v) \<Longrightarrow> column_of x t = column_of (arch w a) t"
  shows "scan_hits (cv_ids v) (cv_baseline v) x = {e \<in> set (a_entities (arch w a)). \<exists>t\<in>set (cv_ids v). (e, t) \<in> set ms}"
proof -
  note d = sinceD [OF s]
  let ?es = "a_entities (arch w a)"
  have m: "a \<in> set (w_archetype_list w)" "set (cv_ids v) \<subseteq> set (a_component_ids (arch w a))"
    using matched_ids [OF d(1,4)] a by auto
  have h: "has_component x t" if "t \<in> set (cv_ids v)" for t
    using that m(2) has_component_iff [OF wf_archD(1) [OF wf_archsD(4) [OF wf_storeD(1) [OF d(1)] m(1)]], of t]
      has_component_cong [OF x(1)] by auto
  have vs: "row_changed_since i (cv_baseline v) (column_of x t) \<longleftrightarrow> (?es ! i, t) \<in> set ms"
    "row_changed_since i (cv_baseline v) (column_of x t) \<Longrightarrow> cv_baseline v < max_version (column_of x t)"
    if "t \<in> set (cv_ids v)" "i < length ?es" for t i
  proof -
    note v = d(9) [OF a that(1)]
    have len: "length (c_versions (column_of (arch w a) t)) = length ?es"
      by (rule column_length [OF d(1) m(1)]) (use m(2) that(1) v in \<open>auto simp: versions_since_def\<close>)
    show "row_changed_since i (cv_baseline v) (column_of x t) \<longleftrightarrow> (?es ! i, t) \<in> set ms"
      "row_changed_since i (cv_baseline v) (column_of x t) \<Longrightarrow> cv_baseline v < max_version (column_of x t)"
      using v len that by (auto simp: versions_since_def row_changed_since_def max_version_def x(3))
  qed
  have rc: "row_changed (cv_ids v) (cv_baseline v) x i \<longleftrightarrow> (\<exists>t\<in>set (cv_ids v). (?es ! i, t) \<in> set ms)"
    if "i < length ?es" for i
    using vs(1) [OF _ that] h by (auto simp: row_changed_def list_ex_iff)
  have mx: "list_ex (\<lambda>t. has_component x t \<and> max_version (column_of x t) > cv_baseline v) (cv_ids v)"
    if "i < length ?es" "(?es ! i, t) \<in> set ms" "t \<in> set (cv_ids v)" for i t
    using vs [OF that(3,1)] that(2,3) h by (auto simp: list_ex_iff)
  show ?thesis
  proof (cases "list_ex (\<lambda>t. has_component x t \<and> max_version (column_of x t) > cv_baseline v) (cv_ids v)")
    case True
    then show ?thesis unfolding scan_hits_def x(2) using rc by (auto simp: in_set_conv_nth [of _ ?es] image_iff)
  next
    case False
    then have "\<not> (\<exists>t\<in>set (cv_ids v). (e, t) \<in> set ms)" if "e \<in> set ?es" for e
      using mx that by (metis in_set_conv_nth)
    then show ?thesis unfolding scan_hits_def using False by auto
  qed
qed

lemma take_reports:
  assumes s: "since reg v ms w" and n: "length ms < 2 ^ 64" and r: "take_changes v w = (out, v', w')"
  shows "set out = marked v ms w" "sorted_wrt (<) out" "since reg v' [] w'" "content w' = content w"
    "w_change_tick w' = w_change_tick w" "cv_ids v' = cv_ids v" "cv_baseline v' = w_change_tick w"
proof -
  note d = sinceD [OF s] and t = take_changes_result [OF sinceD(1,3,4) [OF s] r]
  note sd = stampedD [OF t(2)]
  have mi: "a \<in> set (w_archetype_list w)" "set (cv_ids v) \<subseteq> set (a_component_ids (arch w a))" if "a \<in> set (matched v w)" for a
    using matched_ids [OF d(1,4)] that by auto
  show "sorted_wrt (<) out" "content w' = content w" "w_change_tick w' = w_change_tick w"
    "cv_ids v' = cv_ids v" "cv_baseline v' = w_change_tick w"
    by (rule t(3)) (simp_all add: sd t(4))
  have tr: "c_tracking (column_of (arch w a) u)" if "a \<in> set (matched v w)" "u \<in> set (cv_ids v)" for a u
    using d(9) [OF that] by (simp add: versions_since_def)
  then show "since reg v' [] w'" using since_taken [OF d(1-4) r] by blast
  have hs: "has w' e u = has w e u" "is_alive w' e = is_alive w e" for e u
    using has_cong [OF sd(2) d(1) sd(9)] by (simp_all add: is_alive_def sd(2))
  let ?log = "drop (log_start v w) (w_change_log w)" and ?need = "need_layer_a v w (matched v w)"
  have log: "log_hits v w' ?log \<subseteq> marked v ms w"
    using d(10) by (fastforce simp: log_hits_def marked_has [OF d(1)] hs dest: in_set_dropD)
  show "set out = marked v ms w"
  proof (cases ?need)
    case True
    have hits: "scan_hits (cv_ids v) (cv_baseline v) (arch w' a) = {e \<in> set (a_entities (arch w a)). \<exists>t\<in>set (cv_ids v). (e, t) \<in> set ms}"
      if a: "a \<in> set (matched v w)" for a
    proof (rule scan_hits_since [OF s a sd(9,10) [OF mi(1) [OF a]]])
      show "column_of (arch w' a) u = column_of (arch w a) u" if "u \<in> set (cv_ids v)" for u
        using t(6) [OF True a that] tr [OF a that] by (simp add: ensure_versions_def)
    qed
    have mem: "(\<exists>a\<in>set (matched v w). e \<in> set (a_entities (arch w a))) \<longleftrightarrow> is_alive w e \<and> (\<forall>t\<in>set (cv_ids v). has w e t)" for e
    proof -
      have "e \<in> set (visited w (matched v w)) \<longleftrightarrow> (\<exists>m. content w e = Some m \<and> selects (cv_query v) m)"
        using visited_result(1) [OF d(1), of "cv_query v"] by (simp add: matched_def)
      then show ?thesis
        by (auto simp: visited_def selects_def d(4) comps_query_def has_content [OF d(1)] is_alive_content [OF d(1)])
    qed
    have "(\<Union>a\<in>set (matched v w). scan_hits (cv_ids v) (cv_baseline v) (arch w' a)) = marked v ms w"
    proof (intro set_eqI)
      fix e
      have "e \<in> (\<Union>a\<in>set (matched v w). scan_hits (cv_ids v) (cv_baseline v) (arch w' a))
          \<longleftrightarrow> (\<exists>a\<in>set (matched v w). e \<in> set (a_entities (arch w a))) \<and> (\<exists>t\<in>set (cv_ids v). (e, t) \<in> set ms)"
        by (simp add: hits)
      then show "e \<in> (\<Union>a\<in>set (matched v w). scan_hits (cv_ids v) (cv_baseline v) (arch w' a)) \<longleftrightarrow> e \<in> marked v ms w"
        unfolding mem marked_has [OF d(1)] by blast
    qed
    then show ?thesis using t(5) True log by auto
  next
    case False
    then have g: "cv_warmed_up v" "w_change_log_generation w = cv_log_gen v" by (auto simp: need_layer_a_def)
    obtain k where k: "k \<le> length ms" "w_change_log_generation w = cv_log_gen v + of_nat k"
      "k = 0 \<longrightarrow> cv_log_pos v \<le> length (w_change_log w)
         \<and> (\<forall>(e, t)\<in>set ms. has w e t \<longrightarrow>
              (\<exists>x\<in>set (drop (cv_log_pos v) (w_change_log w)). cl_entity x = e \<and> cl_comp x = t \<and> cv_baseline v < cl_tick x))"
      using d(11) unfolding log_since_def by blast
    have "(of_nat k :: u64) = 0" using k(2) g(2) by simp
    then have "(2::nat) ^ 64 dvd k" by (simp add: word_of_nat_eq_0_iff)
    then have "k = 0" using k(1) n dvd_imp_le [of "2 ^ 64" k] by (cases "k = 0") simp_all
    then have "marked v ms w \<subseteq> log_hits v w' ?log"
      using k(3) g by (fastforce simp: marked_has [OF d(1)] log_hits_def log_start_def hs image_iff)
    then show ?thesis using t(5) False log by auto
  qed
qed

section \<open>Rounds of marks\<close>

type_synonym mark = "entity \<times> ctype \<times> string"

definition mark_all :: "('u, 'v) env \<Rightarrow> mark list \<Rightarrow> 'u world \<Rightarrow> 'u world" where
  "mark_all E ms w = fold (\<lambda>(e, t, f). mark_changed_field E e t f) ms w"

text \<open>Rounds of marks with a \<open>take\<close> after each: what the takes report.\<close>

fun run_rounds :: "('u, 'v) env \<Rightarrow> change_view \<Rightarrow> 'u world \<Rightarrow> mark list list \<Rightarrow> entity list list" where
  "run_rounds E v w [] = []"
| "run_rounds E v w (ms # rounds) =
     (case take_changes v (mark_all E ms w) of (out, v', w') \<Rightarrow> out # run_rounds E v' w' rounds)"

lemma since_mark_all:
  assumes "since (env_registry E) v ns w" "passive_env E" "unat (cv_baseline v) + length ns + length ms < 2 ^ 64 - 1"
  shows "since (env_registry E) v (ns @ map (\<lambda>(e, t, f). (e, t)) ms) (mark_all E ms w) \<and> content (mark_all E ms w) = content w"
  using assms
proof (induction ms arbitrary: ns w)
  case (Cons x ms)
  obtain e t f where x: "x = (e, t, f)" by (cases x)
  note m = since_mark [OF Cons.prems(1,2), of e t f]
  have "since (env_registry E) v ((ns @ [(e, t)]) @ map (\<lambda>(e, t, f). (e, t)) ms) (mark_all E ms (mark_changed_field E e t f w))
      \<and> content (mark_all E ms (mark_changed_field E e t f w)) = content (mark_changed_field E e t f w)"
    by (rule Cons.IH [OF m(1) Cons.prems(2)]) (use Cons.prems(3) in auto)
  then show ?case using m(2) Cons.prems(3) by (simp add: x mark_all_def)
qed (simp add: mark_all_def)

lemma run_rounds_report:
  assumes "since (env_registry E) v [] w" "passive_env E" "unat (cv_baseline v) + length (concat rounds) < 2 ^ 64 - 1"
  shows "list_all2 (\<lambda>ms out. set out = marked v (map (\<lambda>(e, t, f). (e, t)) ms) w \<and> sorted_wrt (<) out) rounds (run_rounds E v w rounds)"
  using assms
proof (induction rounds arbitrary: v w)
  case (Cons ms rounds)
  have room: "unat (cv_baseline v) + length ([] :: (entity \<times> ctype) list) + length ms < 2 ^ 64 - 1" using Cons.prems(3) by simp
  note m = since_mark_all [OF Cons.prems(1,2) room]
  let ?ms = "map (\<lambda>(e, t, f). (e, t)) ms" and ?w1 = "mark_all E ms w"
  obtain out v' w' where t: "take_changes v ?w1 = (out, v', w')" by (cases "take_changes v ?w1")
  have s: "since (env_registry E) v ?ms ?w1" "content ?w1 = content w" using m by simp_all
  have n: "length ?ms < 2 ^ 64" using room by simp
  note r = take_reports [OF s(1) n t]
  have b: "unat (cv_baseline v') + length (concat rounds) < 2 ^ 64 - 1"
    using sinceD(8) [OF s(1)] Cons.prems(3) by (simp add: r(7))
  have M: "marked v' ns w' = marked v ns w" "marked v ns ?w1 = marked v ns w" for ns
    by (simp_all add: marked_def r(4,6) s(2))
  show ?case using Cons.IH [OF r(3) Cons.prems(2) b] r(1,2) by (simp add: t M)
qed simp

text \<open>
  C33. A change view misses no change and invents none. After its first \<open>take\<close>, in every round
  of marks however long, with or without the change log being cut in between, the next \<open>take\<close>
  reports, ordered by id and each once, exactly the live entities that have all the component
  types of the view and of which a watched component was marked in that round.
\<close>

theorem view_reports_marks:
  assumes wf: "wf_store (env_registry E) w" "clock_ok w" and p: "passive_env E"
    and first: "take_changes (new_change_view ids w0) w = (out0, v, w1)"
    and room: "unat (w_change_tick w) + length (concat rounds) < 2 ^ 64 - 1"
  shows "list_all2 (\<lambda>ms out.
      set out = {e. \<exists>m. content w e = Some m \<and> set ids \<subseteq> dom m \<and> (\<exists>t\<in>set ids. \<exists>f. (e, t, f) \<in> set ms)}
        \<and> sorted_wrt (<) out) rounds (run_rounds E v w1 rounds)"
proof -
  let ?v = "new_change_view ids w0"
  have v: "cv_bound ?v" "cv_query ?v = comps_query (cv_ids ?v)" "need_layer_a ?v w (matched ?v w)" "cv_ids ?v = ids"
    by (simp_all add: new_change_view_def need_layer_a_def)
  note t = take_changes_result [OF wf(1) v(1,2) first]
  have s: "since (env_registry E) v [] w1" using since_taken [OF wf v(1,2) first] v(3) by blast
  have b: "unat (cv_baseline v) + length (concat rounds) < 2 ^ 64 - 1" using room by (simp add: t(4))
  have e: "cv_ids v = ids" "content w1 = content w" using stampedD(1) [OF t(2)] v(4) by (simp_all add: t(4))
  have M: "marked v (map (\<lambda>(e, t, f). (e, t)) ms) w1
      = {e. \<exists>m. content w e = Some m \<and> set ids \<subseteq> dom m \<and> (\<exists>t\<in>set ids. \<exists>f. (e, t, f) \<in> set ms)}" for ms
    by (force simp: marked_def e)
  show ?thesis by (rule list_all2_mono [OF run_rounds_report [OF s p b]]) (simp only: M)
qed

text \<open>Two rounds on a world of one entity: it is reported after the first, not after the second.\<close>

section \<open>On a small world\<close>

lemma wire_start_eq:
  "wire_start E u = place_entity E e1 ((new_world E u)\<lparr>w_slot_generations := [0]\<rparr>)"
proof -
  have "entity_bool (make_entity 0 0)" by code_simp
  then show ?thesis
    by (simp add: wire_start_def create_entity_def alloc_entity_id_def new_world_fields Let_def e1_def case_prod_beta)
qed

lemma wire_start_fields:
  "w_archetype_list (wire_start E u) = [0]" "w_change_log (wire_start E u) = []" "w_change_tick (wire_start E u) = 1"
  "w_next_aid (wire_start E u) = 1" "w_archetypes (wire_start E u) = [[] \<mapsto> 0]"
  "location_of (wire_start E u) e1 = Some \<lparr>loc_archetype = 0, loc_row = 0\<rparr>"
  "a_component_ids (arch (wire_start E u) 0) = []" "a_columns (arch (wire_start E u) 0) = []"
  "w_suppress_depth (wire_start E u) = 0"
  by (simp_all add: wire_start_eq place_entity_def Let_def case_prod_beta new_world_fields invalidate_cache_def
    set_location_def set_arch_def location_of_def arch_def update_conv' fresh_arch_def empty_arch_def arch_add_entity_def)

lemma wire_world_fields:
  fixes w :: "nat world"
  defines "w \<equiv> wire_world wire_env 0"
  shows "w_archetype_list w = [0, 1]" "w_change_log w = []" "w_change_tick w = 2"
   "a_columns (arch w 0) = []" "length (a_columns (arch w 1)) = 1" "\<not> c_tracking (a_columns (arch w 1) ! 0)"
proof -
  have al: "is_alive (wire_start wire_env 0) e1" using is_alive_content [OF wire_start_ok(5), of wire_env 0] by (simp add: wire_start_ok(3))
  have nc: "\<not> has_component (arch (wire_start wire_env 0) 0) 1"
    by (simp add: has_component_def wire_start_fields lower_bound_def)
  have md: "\<not> w_defer_moves (wire_start wire_env 0)" "\<not> in_iteration (wire_start wire_env 0)" using wire_start_ok(4) [of wire_env 0] by (simp_all add: open_mode_def)
  have s: "schema_of (env_registry wire_env) 1 = Some demo_schema" using wire_registry_ok(1) wire_env_ok(3) by simp
  let ?s = "wire_start wire_env 0"
  define v where "v = ?s\<lparr>w_next_aid := 2, w_archs := (w_archs ?s)(1 \<mapsto> fresh_arch wire_env [1]),
       w_archetypes := [[] \<mapsto> 0, [1] \<mapsto> 1], w_archetype_list := [0, 1],
       w_query_cache := qc_register_new_archetype 1 (fresh_arch wire_env [1]) (w_query_cache ?s)\<rparr>"
  define m where "m = move_entity_to wire_env e1 0 1 0 v"
  have "w = invalidate_cache (notify wire_env Added e1 1
           (write_component e1 1 1 (fst m) (value_bytes demo_schema (Some demo_row)) (set_location e1 1 (fst m) (snd m))))"
    unfolding w_def wire_world_def add_raw_def
    by (simp add: al nc md s wire_start_fields Let_def ensure_archetype_def create_archetype_eq v_def m_def case_prod_beta numeral_2_eq_2)
  then obtain c where w: "w = invalidate_cache ((write_component e1 1 1 (fst m) (value_bytes demo_schema (Some demo_row))
      (set_location e1 1 (fst m) (snd m)))\<lparr>w_client := c\<rparr>)"
    using passive_dispatch [OF wire_env_ok(1)] unfolding notify_def by metis
  have a: "arch v 0 = arch ?s 0" "arch v 1 = fresh_arch wire_env [1]" by (simp_all add: v_def arch_def)
  have ids: "column_index (fresh_arch wire_env [1]) 1 = Some 0" by (simp add: column_index_def lower_bound_def)
  have f: "w_archetype_list v = [0, 1]" "w_change_log v = []" "w_change_tick v = 1" by (simp_all add: v_def wire_start_fields)
  have fr: "w_archetype_list (fix_moved_row k r u) = w_archetype_list u" "w_change_log (fix_moved_row k r u) = w_change_log u"
    "w_change_tick (fix_moved_row k r u) = w_change_tick u" "arch (fix_moved_row k r u) = arch u" for k r and u :: "nat world"
    by (simp_all add: fix_moved_row_def set_location_def arch_def fun_eq_iff split: option.split)
  have rm: "a_columns x = [] \<Longrightarrow> a_columns (snd (arch_remove_entity e x)) = []" for x e
    by (simp add: arch_remove_entity_def Let_def split: option.split)
  have sm: "w_archetype_list (snd m) = [0, 1] \<and> w_change_log (snd m) = [] \<and> w_change_tick (snd m) = 1
     \<and> a_columns (arch (snd m) 0) = [] \<and> a_component_ids (arch (snd m) 1) = [1] \<and> length (a_columns (arch (snd m) 1)) = 1
     \<and> \<not> c_tracking (a_columns (arch (snd m) 1) ! 0)"
    by (simp add: m_def move_entity_to_def Let_def case_prod_beta fr a [unfolded One_nat_def] f wire_start_fields arch_add_entity_def
        copy_shared.simps rm fresh_arch_def empty_arch_def grow_stamped_def grow_def realloc_to_def
        column_init_def empty_column_def free_buf_def)
       (simp add: set_arch_def f wire_start_fields)
  define s1 where "s1 = store_row (1, 1, fst m) (value_bytes demo_schema (Some demo_row)) (set_location e1 1 (fst m) (snd m))"
  define q where "q = update_arch_column 1 1 (column_mark_changed (fst m) (w_change_tick (bump_tick s1))) (bump_tick s1)"
  have ci: "a_component_ids x = [1] \<Longrightarrow> column_index x 1 = Some 0" for x by (simp add: column_index_def lower_bound_def)
  have bump: "arch (bump_tick u) = arch u" for u :: "nat world" by (simp add: fun_eq_iff arch_def bump_tick_def)
  have one: "(1 :: u64) < - 1" by (rule unat_below_max) simp
  have s1: "w_archetype_list s1 = [0, 1] \<and> w_change_log s1 = [] \<and> w_change_tick s1 = 1
     \<and> a_columns (arch s1 0) = [] \<and> a_component_ids (arch s1 1) = [1] \<and> length (a_columns (arch s1 1)) = 1
     \<and> \<not> c_tracking (a_columns (arch s1 1) ! 0)"
    using sm ci by (simp add: s1_def store_row_def update_arch_column_def update_column_def column_of_def row_write_def)
      (simp add: set_arch_def set_location_def)
  have q: "w_archetype_list q = [0, 1] \<and> w_change_log q = [] \<and> w_change_tick q = 2
     \<and> a_columns (arch q 0) = [] \<and> a_component_ids (arch q 1) = [1] \<and> length (a_columns (arch q 1)) = 1
     \<and> \<not> c_tracking (a_columns (arch q 1) ! 0)"
    using s1 ci by (simp add: q_def update_arch_column_def update_column_def column_of_def bump column_mark_changed_def)
      (simp add: set_arch_def bump_tick_def one)
  have "w = invalidate_cache (q\<lparr>w_client := c\<rparr>)"
    using q ci by (simp add: w write_component_def Let_def q_def s1_def column_of_def)
  then show "w_archetype_list w = [0, 1]" "w_change_log w = []" "w_change_tick w = 2"
   "a_columns (arch w 0) = []" "length (a_columns (arch w 1)) = 1" "\<not> c_tracking (a_columns (arch w 1) ! 0)"
    using q by (simp_all add: invalidate_cache_def arch_def)
qed

lemma wire_world_clock: "clock_ok (wire_world wire_env 0)"
proof -
  let ?w = "wire_world wire_env 0"
  note f = wire_world_fields
  note wf = wire_world_ok(4) [OF wire_env_ok(1,3), of 0]
  have "c_versions (column_of (arch ?w a) t) = []"
    if a: "a \<in> set (w_archetype_list ?w)" "t \<in> set (a_component_ids (arch ?w a))" for a t
  proof -
    have ar: "wf_arch (arch ?w a)" using wf_archsD(4) [OF wf_storeD(1) [OF wf] a(1)] .
    obtain j where j: "column_index (arch ?w a) t = Some j" using column_index_None [OF wf_archD(1) [OF ar], of t] a(2) by auto
    have "\<not> c_tracking (a_columns (arch ?w a) ! j)" using index_column(1) [OF ar j] a(1) f by (auto simp: less_Suc_eq)
    then show ?thesis using index_column(4) [OF ar j] j by (simp add: column_of_def wf_col_def)
  qed
  then show ?thesis by (simp add: clock_ok_def f)
qed

text \<open>Two rounds on a world of one entity: it is reported after the first, not after the second.\<close>

theorem view_reports_marks_witness:
  "case take_changes (new_change_view [1] (wire_world wire_env 0)) (wire_world wire_env 0) of (out0, v, w1) \<Rightarrow>
     run_rounds wire_env v w1 [[(e1, 1, ''hp''), (e1, 1, ''on'')], []] = [[e1], []]"
proof -
  let ?w = "wire_world wire_env 0" and ?rounds = "[[(e1, 1, ''hp''), (e1, 1, ''on'')], []] :: mark list list"
  obtain out0 v w1 where t: "take_changes (new_change_view [1] ?w) ?w = (out0, v, w1)" by (metis surj_pair)
  note ww = wire_world_ok [OF wire_env_ok(1,3), of 0]
  have room: "unat (w_change_tick ?w) + length (concat ?rounds) < 2 ^ 64 - 1" by (simp add: wire_world_fields)
  note r = view_reports_marks [OF ww(4) wire_world_clock wire_env_ok(1) t room]
  obtain o1 o2 where o: "run_rounds wire_env v w1 ?rounds = [o1, o2]" "set o1 = {e1}" "sorted_wrt (<) o1" "set o2 = {}"
    using r by (auto simp: list_all2_Cons1 ww(2) split: if_splits)
  have "o1 = [e1]" using o(2,3) by (cases o1; cases "tl o1") (auto simp: insert_eq_iff)
  then show ?thesis using o by (simp add: t)
qed

end
