(* ===== verification/Query.thy ===== *)
theory Query
  imports "HOL-Library.Multiset" ScriptApi ChangeView
begin

text \<open>
  \<open>VECSQueryBuilder\<close> (src/gdscript/vecs_query_builder.{h,cpp}): the filters a script chains and the
  three ways to run them. A predicate of the script is a function of the world and the entity
  handle whose result the engine turns into a truth value; a predicate that changes the world
  during the walk is outside the model. The engine's order on script values is the parameter
  \<open>vless\<close>. \<open>std::stable_sort\<close> is insertion behind all equal elements, which is what every stable sort
  computes when the order is a strict weak order. Time measurement and log lines are left out.
\<close>

section \<open>The builder\<close>

record field_equals =
  fe_comp :: ctype
  fe_field :: string
  fe_value :: variant

record 'u query_builder =
  qb_bound :: bool
  qb_all :: "ctype list"
  qb_any :: "ctype list"
  qb_none :: "ctype list"
  qb_changed :: "ctype list"
  qb_field_equals :: "field_equals list"
  qb_enabled_only :: bool
  qb_where :: "('u world \<Rightarrow> vecs_entity \<Rightarrow> variant) option"
  qb_order_comp :: string
  qb_order_field :: string
  qb_order_by_id :: bool

definition make_query :: "bool \<Rightarrow> 'u query_builder" where
  "make_query p_world =
     \<lparr>qb_bound = p_world, qb_all = [], qb_any = [], qb_none = [], qb_changed = [], qb_field_equals = [],
      qb_enabled_only = False, qb_where = None, qb_order_comp = '''', qb_order_field = '''', qb_order_by_id = False\<rparr>"

text \<open>Names without a registered component are skipped.\<close>

definition resolve :: "registry \<Rightarrow> string list \<Rightarrow> ctype list" where
  "resolve reg p_names = filter (\<lambda>t. t \<noteq> INVALID_COMPONENT_TYPE) (map (id_of reg) p_names)"

definition with_all :: "registry \<Rightarrow> string list \<Rightarrow> 'u query_builder \<Rightarrow> 'u query_builder" where
  "with_all reg p_names q = q\<lparr>qb_all := qb_all q @ resolve reg p_names\<rparr>"

definition with_any :: "registry \<Rightarrow> string list \<Rightarrow> 'u query_builder \<Rightarrow> 'u query_builder" where
  "with_any reg p_names q = q\<lparr>qb_any := qb_any q @ resolve reg p_names\<rparr>"

definition with_none :: "registry \<Rightarrow> string list \<Rightarrow> 'u query_builder \<Rightarrow> 'u query_builder" where
  "with_none reg p_names q = q\<lparr>qb_none := qb_none q @ resolve reg p_names\<rparr>"

definition query_enabled :: "'u query_builder \<Rightarrow> 'u query_builder" where
  "query_enabled q = q\<lparr>qb_enabled_only := True\<rparr>"

definition query_changed :: "registry \<Rightarrow> string list \<Rightarrow> 'u query_builder \<Rightarrow> 'u query_builder" where
  "query_changed reg p_names q = q\<lparr>qb_changed := qb_changed q @ resolve reg p_names\<rparr>"

definition query_where :: "('u world \<Rightarrow> vecs_entity \<Rightarrow> variant) option \<Rightarrow> 'u query_builder \<Rightarrow> 'u query_builder" where
  "query_where p_predicate q = q\<lparr>qb_where := p_predicate\<rparr>"

definition query_field_equals ::
    "registry \<Rightarrow> string \<Rightarrow> string \<Rightarrow> variant \<Rightarrow> 'u query_builder \<Rightarrow> 'u query_builder" where
  "query_field_equals reg p_comp p_field p_value q =
     (let t = (if qb_bound q then id_of reg p_comp else INVALID_COMPONENT_TYPE)
      in if t = INVALID_COMPONENT_TYPE then q
         else q\<lparr>qb_field_equals := qb_field_equals q @ [\<lparr>fe_comp = t, fe_field = p_field, fe_value = p_value\<rparr>]\<rparr>)"

definition order_by :: "string \<Rightarrow> string \<Rightarrow> 'u query_builder \<Rightarrow> 'u query_builder" where
  "order_by p_comp p_field q = q\<lparr>qb_order_comp := p_comp, qb_order_field := p_field\<rparr>"

definition order_by_id :: "'u query_builder \<Rightarrow> 'u query_builder" where
  "order_by_id q = q\<lparr>qb_order_by_id := True\<rparr>"

definition compile_query :: "'u query_builder \<Rightarrow> query" where
  "compile_query q = \<lparr>q_all = sort (qb_all q), q_any = sort (qb_any q), q_none = sort (qb_none q)\<rparr>"

definition baseline_key :: "'u query_builder \<Rightarrow> query \<Rightarrow> u64" where
  "baseline_key q p_q =
     fold fnv_id (sort (qb_changed q)) (fnv_step (membership_signature p_q) 0x9E3779B97F4A7C15)"

section \<open>The filters\<close>

definition field_matches :: "engine \<Rightarrow> registry \<Rightarrow> 'u world \<Rightarrow> entity \<Rightarrow> field_equals \<Rightarrow> bool" where
  "field_matches en reg w p_e fe =
     (if \<not> has w p_e (fe_comp fe) then False
      else case schema_of reg (fe_comp fe) of
        None \<Rightarrow> False
      | Some s \<Rightarrow>
          (case find_field s (fe_field fe) of
             None \<Rightarrow> False
           | Some fd \<Rightarrow>
               (case get_raw w p_e (fe_comp fe) of
                  None \<Rightarrow> False
                | Some raw \<Rightarrow>
                    (case field_to_variant en fd (load_row w raw) (fd_offset fd) of
                       None \<Rightarrow> False
                     | Some v \<Rightarrow> variants_equal en v (fe_value fe)))))"

definition matches_field_equals :: "engine \<Rightarrow> registry \<Rightarrow> 'u query_builder \<Rightarrow> 'u world \<Rightarrow> entity \<Rightarrow> bool" where
  "matches_field_equals en reg q w p_e = list_all (field_matches en reg w p_e) (qb_field_equals q)"

text \<open>The tests on one row of a matched archetype; \<open>changed\<close> is the baseline when there is a changed filter.\<close>

definition row_passes ::
    "engine \<Rightarrow> registry \<Rightarrow> 'u query_builder \<Rightarrow> u64 option \<Rightarrow> 'u world \<Rightarrow> aid \<times> nat \<Rightarrow> bool" where
  "row_passes en reg q changed w ar =
     (case ar of (a, row) \<Rightarrow>
        let x = arch w a; e = a_entities x ! row
        in if qb_enabled_only q \<and> \<not> arch_get_enabled row x then False
           else if (case changed of None \<Rightarrow> False | Some base \<Rightarrow> \<not> row_changed (qb_changed q) base x row) then False
           else if qb_field_equals q \<noteq> [] \<and> \<not> matches_field_equals en reg q w e then False
           else (case qb_where q of None \<Rightarrow> True | Some p \<Rightarrow> en_bool en (p w (make_entity_handle e))))"

definition rows_of :: "'u world \<Rightarrow> aid list \<Rightarrow> (aid \<times> nat) list" where
  "rows_of w arches = concat (map (\<lambda>a. map (Pair a) [0..<length (a_entities (arch w a))]) arches)"

definition row_entity :: "'u world \<Rightarrow> aid \<times> nat \<Rightarrow> entity" where
  "row_entity w ar = (case ar of (a, row) \<Rightarrow> a_entities (arch w a) ! row)"

section \<open>Running a query\<close>

text \<open>The baseline of a changed query and the stamping of the watched columns.\<close>

definition open_changed :: "'u query_builder \<Rightarrow> aid list \<Rightarrow> 'u world \<Rightarrow> u64 option \<times> 'u world" where
  "open_changed q arches w =
     (if qb_changed q = [] then (None, w)
      else (Some (fst (changed_baseline w (baseline_key q (compile_query q)))),
            fold (stamp_columns (qb_changed q)) arches w))"

definition close_changed :: "'u query_builder \<Rightarrow> 'u world \<Rightarrow> 'u world" where
  "close_changed q w =
     (if qb_changed q = [] then w
      else set_changed_baseline (baseline_key q (compile_query q)) (w_change_tick w) w)"

primrec insert_stable :: "('a \<Rightarrow> 'a \<Rightarrow> bool) \<Rightarrow> 'a \<Rightarrow> 'a list \<Rightarrow> 'a list" where
  "insert_stable lt x [] = [x]"
| "insert_stable lt x (y # ys) = (if lt y x then y # insert_stable lt x ys else x # y # ys)"

definition stable_sort :: "('a \<Rightarrow> 'a \<Rightarrow> bool) \<Rightarrow> 'a list \<Rightarrow> 'a list" where
  "stable_sort lt xs = foldr (insert_stable lt) xs []"

definition order_result ::
    "engine \<Rightarrow> (variant \<Rightarrow> variant \<Rightarrow> bool) \<Rightarrow> registry \<Rightarrow> 'u query_builder \<Rightarrow> 'u world \<Rightarrow> entity list \<Rightarrow> entity list" where
  "order_result en vless reg q w es =
     (if qb_order_by_id q then stable_sort (\<lambda>a b. eid a < eid b) es
      else if qb_order_comp q \<noteq> '''' then
        stable_sort (\<lambda>a b. vless
            (ent_getf en reg w (make_entity_handle a) (qb_order_comp q) (qb_order_field q) VNil)
            (ent_getf en reg w (make_entity_handle b) (qb_order_comp q) (qb_order_field q) VNil)) es
      else es)"

definition execute ::
    "engine \<Rightarrow> (variant \<Rightarrow> variant \<Rightarrow> bool) \<Rightarrow> registry \<Rightarrow> 'u query_builder \<Rightarrow> 'u world \<Rightarrow> vecs_entity list \<times> 'u world" where
  "execute en vless reg q w =
     (if \<not> qb_bound q then ([], w)
      else
        (let (arches, w1) = world_match (compile_query q) w;
             (changed, w2) = open_changed q arches w1;
             collected = map (row_entity w2) (filter (row_passes en reg q changed w2) (rows_of w2 arches))
         in (map make_entity_handle (order_result en vless reg q w2 collected), close_changed q w2)))"

definition execute_one :: "engine \<Rightarrow> registry \<Rightarrow> 'u query_builder \<Rightarrow> 'u world \<Rightarrow> vecs_entity option \<times> 'u world" where
  "execute_one en reg q w =
     (if \<not> qb_bound q then (None, w)
      else
        (let (arches, w1) = world_match (compile_query q) w;
             (changed, w2) = open_changed q arches w1
         in (map_option (\<lambda>r. make_entity_handle (row_entity w2 r)) (find (row_passes en reg q changed w2) (rows_of w2 arches)),
             close_changed q w2)))"

definition query_count :: "engine \<Rightarrow> registry \<Rightarrow> 'u query_builder \<Rightarrow> 'u world \<Rightarrow> nat \<times> 'u world" where
  "query_count en reg q w =
     (if \<not> qb_bound q then (0, w)
      else
        (let (arches, w1) = world_match (compile_query q) w
         in (length (filter (row_passes en reg q None w1) (rows_of w1 arches)), w1)))"

section \<open>Fields through the abstraction\<close>

definition field_value :: "engine \<Rightarrow> registry \<Rightarrow> (ctype \<rightharpoonup> byte list) \<Rightarrow> ctype \<Rightarrow> string \<Rightarrow> variant option" where
  "field_value en reg m t nm =
     (case m t of None \<Rightarrow> None
      | Some bs \<Rightarrow> (case schema_of reg t of None \<Rightarrow> None
          | Some s \<Rightarrow> (case find_field s nm of None \<Rightarrow> None | Some fd \<Rightarrow> field_to_variant en fd bs (fd_offset fd))))"

lemma get_raw_cases:
  assumes wf: "wf_store reg w"
  obtains (none) "\<not> has w e t" "get_raw w e t = None" "\<And>m. content w e = Some m \<Longrightarrow> m t = None"
  | (some) m raw where "has w e t" "get_raw w e t = Some raw" "content w e = Some m" "m t = Some (load_row w raw)"
proof (cases "get_raw w e t")
  case None
  then show ?thesis using none get_raw_content(1) [OF wf, of e t] has_content [OF wf, of e t] by auto
next
  case (Some raw)
  obtain m where m: "content w e = Some m" "m t = Some (load_row w raw)" using get_raw_content(2) [OF wf Some] by blast
  then have "has w e t" using get_raw_content(1) [OF wf, of e t] Some by auto
  then show ?thesis using some Some m by blast
qed

lemma field_matches_content:
  assumes wf: "wf_store reg w"
  shows "field_matches en reg w e fe \<longleftrightarrow> (\<exists>m v. content w e = Some m
    \<and> field_value en reg m (fe_comp fe) (fe_field fe) = Some v \<and> variants_equal en v (fe_value fe))"
  by (cases rule: get_raw_cases [OF wf, of e "fe_comp fe"])
    (auto simp: field_matches_def field_value_def split: option.splits)

lemma ent_getf_content:
  assumes wf: "wf_store reg w"
  shows "ent_getf en reg w (make_entity_handle e) p_comp nm d =
    (case content w e of None \<Rightarrow> d
     | Some m \<Rightarrow> if id_of reg p_comp = INVALID_COMPONENT_TYPE then d
         else (case field_value en reg m (id_of reg p_comp) nm of None \<Rightarrow> d | Some v \<Rightarrow> v))"
proof -
  have e: "Entity (ve_id (make_entity_handle e)) = e" "ve_bound (make_entity_handle e)"
    by (simp_all add: make_entity_handle_def)
  have al: "is_alive w e \<longleftrightarrow> content w e \<noteq> None" by (rule is_alive_content [OF wf])
  show ?thesis
    by (cases rule: get_raw_cases [OF wf, of e "id_of reg p_comp"])
      (auto simp: ent_getf_def ent_get_component_def ent_is_alive_def e al comp_get_field_def comp_field_def comp_is_valid_def
        make_component_def field_value_def Let_def split: option.splits)
qed

section \<open>Stable sorting\<close>

lemma insert_stable_set [simp]: "mset (insert_stable lt x xs) = add_mset x (mset xs)"
  by (induction xs) auto

lemma stable_sort_mset [simp]: "mset (stable_sort lt xs) = mset xs"
  by (induction xs) (simp_all add: stable_sort_def)

definition weak_order :: "('a \<Rightarrow> 'a \<Rightarrow> bool) \<Rightarrow> bool" where
  "weak_order lt \<longleftrightarrow> (\<forall>x y. lt x y \<longrightarrow> \<not> lt y x) \<and> (\<forall>x y z. \<not> lt x y \<longrightarrow> \<not> lt y z \<longrightarrow> \<not> lt x z)"

lemma insert_stable_sorted:
  assumes "weak_order lt" "sorted_wrt (\<lambda>a b. \<not> lt b a) xs"
  shows "sorted_wrt (\<lambda>a b. \<not> lt b a) (insert_stable lt x xs)"
  using assms(2)
proof (induction xs)
  case (Cons y ys)
  have set: "set (insert_stable lt x ys) = insert x (set ys)" by (metis insert_stable_set set_mset_add_mset_insert set_mset_mset)
  show ?case
  proof (cases "lt y x")
    case True
    then have "\<not> lt x y" using assms(1) unfolding weak_order_def by blast
    then show ?thesis using Cons True by (auto simp: set)
  next
    case False
    have "\<not> lt z x" if "z \<in> set ys" for z
    proof -
      have "\<not> lt z y" using Cons.prems that by simp
      then show ?thesis using False assms(1) unfolding weak_order_def by blast
    qed
    then show ?thesis using Cons.prems False by simp
  qed
qed simp

lemma stable_sort_sorted: "weak_order lt \<Longrightarrow> sorted_wrt (\<lambda>a b. \<not> lt b a) (stable_sort lt xs)"
  by (induction xs) (simp_all add: stable_sort_def insert_stable_sorted)

text \<open>Equal elements keep their order.\<close>

lemma insert_stable_filter:
  assumes "\<And>a b. P a \<Longrightarrow> P b \<Longrightarrow> \<not> lt a b"
  shows "filter P (insert_stable lt x xs) = (if P x then x # filter P xs else filter P xs)"
  using assms by (induction xs) auto

lemma stable_sort_stable:
  assumes "\<And>a b. P a \<Longrightarrow> P b \<Longrightarrow> \<not> lt a b"
  shows "filter P (stable_sort lt xs) = filter P xs"
proof (induction xs)
  case (Cons x xs)
  then show ?case using insert_stable_filter [of P lt x "stable_sort lt xs", OF assms] by (simp add: stable_sort_def)
qed (simp add: stable_sort_def)

lemma mset_set_distinct: "mset xs = mset ys \<Longrightarrow> set xs = set ys \<and> (distinct xs \<longleftrightarrow> distinct ys)"
  by (metis mset_eq_imp_distinct_iff mset_eq_setD)

section \<open>The walk\<close>

lemma rows_visited: "map (row_entity w) (rows_of w arches) = visited w arches"
  by (induction arches) (auto simp: rows_of_def visited_def row_entity_def intro: nth_equalityI)

lemma rows_of_iff: "(a, row) \<in> set (rows_of w arches) \<longleftrightarrow> a \<in> set arches \<and> row < length (a_entities (arch w a))"
  by (auto simp: rows_of_def image_iff)

text \<open>A walk whose row tests say something about the entity filters the visited entities.\<close>

lemma walk_filter:
  assumes "\<And>a row. a \<in> set arches \<Longrightarrow> row < length (a_entities (arch w a)) \<Longrightarrow> p (a, row) \<longleftrightarrow> P (a_entities (arch w a) ! row)"
  shows "map (row_entity w) (filter p (rows_of w arches)) = filter P (visited w arches)"
proof -
  have "p r \<longleftrightarrow> P (row_entity w r)" if "r \<in> set (rows_of w arches)" for r
  proof -
    obtain a row where r: "r = (a, row)" by (cases r)
    then show ?thesis using that assms [of a row] rows_of_iff [of a row w arches] by (simp add: row_entity_def)
  qed
  then have "filter p (rows_of w arches) = filter (P \<circ> row_entity w) (rows_of w arches)" by (intro filter_cong) auto
  then show ?thesis by (simp add: filter_map flip: rows_visited)
qed

lemma located:
  assumes wf: "wf_store reg w" and a: "a \<in> set (w_archetype_list w)" "row < length (a_entities (arch w a))"
  shows "location_of w (a_entities (arch w a) ! row) = Some \<lparr>loc_archetype = a, loc_row = row\<rparr>"
proof -
  have "a_entity_to_row (arch w a) (a_entities (arch w a) ! row) = Some row"
    using wf_archD(8) [OF wf_archsD(4) [OF wf_storeD(1) [OF wf] a(1)]] a(2) by blast
  then show ?thesis using wf_storeD(2) [OF wf] a(1) by (simp add: wf_locations_def)
qed

lemma scan_stamps: "fst (fold (scan_archetype ids base) as (w, s)) = fold (stamp_columns ids) as w"
proof (induction as arbitrary: w s)
  case (Cons a as)
  have "\<exists>s'. scan_archetype ids base a (w, s) = (stamp_columns ids a w, s')" by (simp add: scan_archetype_def Let_def)
  then show ?case using Cons.IH by auto
qed simp

lemma stamp_all:
  fixes ids :: "ctype list"
  assumes "wf_store reg w" "set as \<subseteq> set (w_archetype_list w)" "distinct as"
  defines "w' \<equiv> fold (stamp_columns ids) as w"
  shows "wf_store reg w'" "stamped w w'"
    "a \<in> set as \<Longrightarrow> t \<in> set ids \<Longrightarrow> t \<in> set (a_component_ids (arch w a)) \<Longrightarrow>
       column_of (arch w' a) t = ensure_versions (w_change_tick w) (column_of (arch w a) t)"
  using scan_archetypes [OF assms(1-3) collected_ops(1), of ids 0] scan_stamps [of ids 0 as w "({}, [])"]
  by (auto simp: w'_def)

text \<open>A row's tests, in the world before the walk stamped it.\<close>

definition enabled_in :: "'u world \<Rightarrow> entity \<Rightarrow> bool" where
  "enabled_in w e \<longleftrightarrow> (\<exists>l. location_of w e = Some l \<and> arch_get_enabled (loc_row l) (arch w (loc_archetype l)))"

definition row_version :: "'u world \<Rightarrow> entity \<Rightarrow> ctype \<Rightarrow> u64" where
  "row_version w e t =
     (let l = the (location_of w e); c = column_of (arch w (loc_archetype l)) t
      in if c_tracking c then c_versions c ! loc_row l else w_change_tick w)"

definition changed_in :: "'u world \<Rightarrow> u64 \<Rightarrow> ctype list \<Rightarrow> entity \<Rightarrow> bool" where
  "changed_in w base ts e \<longleftrightarrow> (\<exists>t\<in>set ts. has w e t \<and> base < row_version w e t)"

lemma member_has_iff:
  assumes wf: "wf_store reg w" and a: "a \<in> set (w_archetype_list w)" "row < length (a_entities (arch w a))"
  shows "has w (a_entities (arch w a) ! row) t \<longleftrightarrow> t \<in> set (a_component_ids (arch w a))"
proof -
  note l = located [OF assms]
  have "entity_bool (a_entities (arch w a) ! row)" using wf_locationD(7) [OF wf l] by (simp add: entity_bool_iff)
  then show ?thesis using l has_ids [OF wf l] by (simp add: has_def)
qed

lemma row_tests:
  assumes wf: "wf_store reg w" and st: "stamped w w'" and wf': "wf_store reg w'"
    and cols: "\<And>t. t \<in> set ts \<Longrightarrow> t \<in> set (a_component_ids (arch w a)) \<Longrightarrow>
       column_of (arch w' a) t = ensure_versions (w_change_tick w) (column_of (arch w a) t)"
    and a: "a \<in> set (w_archetype_list w)" "row < length (a_entities (arch w a))"
  defines "e \<equiv> a_entities (arch w a) ! row"
  shows "arch_get_enabled row (arch w' a) \<longleftrightarrow> enabled_in w e"
    "row_changed ts base (arch w' a) row \<longleftrightarrow> changed_in w base ts e"
proof -
  note d = stampedD [OF st] and l = located [OF wf a, folded e_def]
  show "arch_get_enabled row (arch w' a) \<longleftrightarrow> enabled_in w e"
    by (simp add: enabled_in_def l arch_get_enabled_def d(11) [OF a(1)])
  have h: "has_component (arch w' a) t \<longleftrightarrow> t \<in> set (a_component_ids (arch w a))" for t
    using has_component_cong [OF d(9) [OF a(1)]] has_component_iff [OF wf_archD(1) [OF wf_archsD(4) [OF wf_storeD(1) [OF wf] a(1)]]]
    by simp
  have v: "row_changed_since row base (column_of (arch w' a) t) \<longleftrightarrow> base < row_version w e t"
    if t: "t \<in> set ts" "t \<in> set (a_component_ids (arch w a))" for t
  proof -
    let ?c = "column_of (arch w a) t"
    have a': "a \<in> set (w_archetype_list w')" "t \<in> set (a_component_ids (arch w' a))" using a(1) t(2) d(3,9) by simp_all
    have tr: "c_tracking (column_of (arch w' a) t)" by (simp add: cols [OF t] ensure_versions_def)
    have n: "length (c_versions (column_of (arch w' a) t)) = length (a_entities (arch w a))"
      using column_length [OF wf' a' tr] d(10) [OF a(1)] by simp
    have "c_versions (column_of (arch w' a) t) ! row = row_version w e t"
      using n a(2) by (auto simp: cols [OF t] ensure_versions_def row_version_def l Let_def split: if_splits)
    then show ?thesis using tr n a(2) by (simp add: row_changed_since_def)
  qed
  show "row_changed ts base (arch w' a) row \<longleftrightarrow> changed_in w base ts e"
    using v h member_has_iff [OF wf a] by (auto simp: row_changed_def list_ex_iff changed_in_def e_def)
qed

text \<open>What the filters of a builder ask of a live entity beside its component set.\<close>

definition passes :: "engine \<Rightarrow> registry \<Rightarrow> 'u query_builder \<Rightarrow> u64 option \<Rightarrow> 'u world \<Rightarrow> entity \<Rightarrow> bool" where
  "passes en reg q changed w e \<longleftrightarrow>
     (qb_enabled_only q \<longrightarrow> enabled_in w e)
   \<and> (\<forall>base. changed = Some base \<longrightarrow> changed_in w base (qb_changed q) e)
   \<and> (\<forall>fe\<in>set (qb_field_equals q). \<exists>m v. content w e = Some m
        \<and> field_value en reg m (fe_comp fe) (fe_field fe) = Some v \<and> variants_equal en v (fe_value fe))
   \<and> (\<forall>p. qb_where q = Some p \<longrightarrow> en_bool en (p w (make_entity_handle e)))"

text \<open>The script's predicate looks at the world, not at the bookkeeping of changes.\<close>

definition blind :: "'u query_builder \<Rightarrow> 'u world \<Rightarrow> bool" where
  "blind q w \<longleftrightarrow> (\<forall>p w'. qb_where q = Some p \<longrightarrow> stamped w w' \<longrightarrow> p w' = p w)"

lemma walk_passes:
  assumes wf: "wf_store reg w" and st: "stamped w w'" and wf': "wf_store reg w'" and b: "blind q w"
    and arches: "set arches \<subseteq> set (w_archetype_list w)"
    and cols: "\<And>a t. changed \<noteq> None \<Longrightarrow> a \<in> set arches \<Longrightarrow> t \<in> set (qb_changed q) \<Longrightarrow> t \<in> set (a_component_ids (arch w a)) \<Longrightarrow>
       column_of (arch w' a) t = ensure_versions (w_change_tick w) (column_of (arch w a) t)"
  shows "map (row_entity w') (filter (row_passes en reg q changed w') (rows_of w' arches)) = filter (passes en reg q changed w) (visited w arches)"
proof -
  note d = stampedD [OF st]
  have vis: "visited w' arches = visited w arches"
    using d(10) arches unfolding visited_def by (intro arg_cong [where f = concat] map_cong) auto
  have "row_passes en reg q changed w' (a, row) \<longleftrightarrow> passes en reg q changed w (a_entities (arch w' a) ! row)"
    if a: "a \<in> set arches" "row < length (a_entities (arch w' a))" for a row
  proof -
    have m: "a \<in> set (w_archetype_list w)" using a(1) arches by blast
    have e: "a_entities (arch w' a) = a_entities (arch w a)" by (rule d(10) [OF m])
    have row: "row < length (a_entities (arch w a))" using a(2) e by simp
    let ?e = "a_entities (arch w a) ! row"
    have ch: "row_changed (qb_changed q) base (arch w' a) row \<longleftrightarrow> changed_in w base (qb_changed q) ?e" if "changed = Some base" for base
      by (rule row_tests(2) [OF wf st wf' cols m row]) (use that a(1) in auto)
    have en': "arch_get_enabled row (arch w' a) \<longleftrightarrow> enabled_in w ?e"
      by (rule row_tests(1) [OF wf st wf' _ m row, where ts = "[]"]) simp
    have fm: "field_matches en reg w' ?e fe \<longleftrightarrow> (\<exists>m v. content w ?e = Some m
        \<and> field_value en reg m (fe_comp fe) (fe_field fe) = Some v \<and> variants_equal en v (fe_value fe))" for fe
      using field_matches_content [OF wf'] by (simp add: d(1))
    have pw: "p w' = p w" if "qb_where q = Some p" for p using b that st by (simp add: blind_def)
    show ?thesis
      using ch by (cases changed; cases "qb_where q")
        (auto simp: row_passes_def passes_def Let_def e en' matches_field_equals_def fm pw list_all_iff)
  qed
  then show ?thesis using walk_filter [of arches w' "row_passes en reg q changed w'" "passes en reg q changed w"] vis by simp
qed

section \<open>What a query returns\<close>

definition query_base :: "'u query_builder \<Rightarrow> 'u world \<Rightarrow> u64 option" where
  "query_base q w = (if qb_changed q = [] then None
     else Some (fst (changed_baseline w (baseline_key q (compile_query q)))))"

definition chosen :: "engine \<Rightarrow> registry \<Rightarrow> 'u query_builder \<Rightarrow> u64 option \<Rightarrow> 'u world \<Rightarrow> entity \<Rightarrow> bool" where
  "chosen en reg q changed w e \<longleftrightarrow>
     (\<exists>m. content w e = Some m \<and> selects (compile_query q) m) \<and> passes en reg q changed w e"

lemma run_result:
  assumes wf: "wf_store reg w" and b: "blind q w"
    and m: "world_match (compile_query q) w = (arches, w1)" and o: "open_changed q arches w1 = (changed, w2)"
  shows "changed = query_base q w" "wf_store reg w2" "stamped w w2"
    "map (row_entity w2) (filter (row_passes en reg q changed w2) (rows_of w2 arches)) = filter (passes en reg q changed w) (visited w arches)"
    "set (filter (passes en reg q changed' w) (visited w arches)) = {e. chosen en reg q changed' w e}"
    "distinct (visited w arches)"
    "qb_changed q \<noteq> [] \<Longrightarrow> a \<in> set arches \<Longrightarrow> t \<in> set (qb_changed q) \<Longrightarrow> t \<in> set (a_component_ids (arch w a)) \<Longrightarrow>
       column_of (arch w2 a) t = ensure_versions (w_change_tick w) (column_of (arch w a) t)"
    "set arches \<subseteq> set (w_archetype_list w)"
proof -
  note mr = world_match_result [OF wf m] and m1 = world_match_stamped [OF wf m]
  note d = stampedD [OF m1]
  have arches: "set arches \<subseteq> set (w_archetype_list w1)" "distinct arches"
    using wf_archsD(1) [OF wf_storeD(1) [OF wf]] by (auto simp: mr(1) d(3))
  show ar: "set arches \<subseteq> set (w_archetype_list w)" using arches(1) by (simp add: d(3))
  have w2: "w2 = (if qb_changed q = [] then w1 else fold (stamp_columns (qb_changed q)) arches w1)"
    and ch: "changed = query_base q w"
    using o by (auto simp: open_changed_def query_base_def changed_baseline_def d(8) split: if_splits)
  show "changed = query_base q w" by (rule ch)
  show wf2: "wf_store reg w2" and st: "stamped w w2"
    using stamp_all(1,2) [OF mr(2) arches, of "qb_changed q"] mr(2) m1 stamped_trans [OF m1] by (auto simp: w2)
  have cols: "column_of (arch w2 a) t = ensure_versions (w_change_tick w) (column_of (arch w a) t)"
    if "qb_changed q \<noteq> []" "a \<in> set arches" "t \<in> set (qb_changed q)" "t \<in> set (a_component_ids (arch w a))" for a t
    using stamp_all(3) [OF mr(2) arches that(2,3)] that by (simp add: w2 mr(6) d(4))
  then show "qb_changed q \<noteq> [] \<Longrightarrow> a \<in> set arches \<Longrightarrow> t \<in> set (qb_changed q) \<Longrightarrow> t \<in> set (a_component_ids (arch w a)) \<Longrightarrow>
       column_of (arch w2 a) t = ensure_versions (w_change_tick w) (column_of (arch w a) t)" .
  show "map (row_entity w2) (filter (row_passes en reg q changed w2) (rows_of w2 arches)) = filter (passes en reg q changed w) (visited w arches)"
    by (rule walk_passes [OF wf st wf2 b ar]) (use cols ch in \<open>auto simp: query_base_def split: if_splits\<close>)
  note v = visited_result [OF wf, of "compile_query q", folded mr(1)]
  show "distinct (visited w arches)" by (rule v(2))
  show "set (filter (passes en reg q changed' w) (visited w arches)) = {e. chosen en reg q changed' w e}"
    using v(1) by (auto simp: chosen_def)
qed

lemma close_changed_store:
  "wf_store reg w \<Longrightarrow> wf_store reg (close_changed q w)" "content (close_changed q w) = content w"
proof -
  have s: "same_store w (close_changed q w)" by (simp add: close_changed_def set_changed_baseline_def)
  then show "wf_store reg w \<Longrightarrow> wf_store reg (close_changed q w)" using same_store_wf by blast
  show "content (close_changed q w) = content w"
    by (auto simp: close_changed_def set_changed_baseline_def content_def location_of_def arch_def fun_eq_iff split: option.splits)
qed

lemma order_result_set:
  "set (order_result en vless reg q w es) = set es" "distinct (order_result en vless reg q w es) = distinct es"
  using mset_set_distinct [of "order_result en vless reg q w es" es] by (auto simp: order_result_def)

text \<open>The sort key of \<open>order_by\<close>, through the abstraction.\<close>

definition sort_key_of :: "engine \<Rightarrow> registry \<Rightarrow> 'u query_builder \<Rightarrow> (entity \<rightharpoonup> ctype \<rightharpoonup> byte list) \<Rightarrow> entity \<Rightarrow> variant" where
  "sort_key_of en reg q c e =
     (case c e of None \<Rightarrow> VNil
      | Some m \<Rightarrow> if id_of reg (qb_order_comp q) = INVALID_COMPONENT_TYPE then VNil
          else (case field_value en reg m (id_of reg (qb_order_comp q)) (qb_order_field q) of None \<Rightarrow> VNil | Some v \<Rightarrow> v))"

lemma query_returns_set:
  assumes "wf_store reg w" "qb_bound q" "blind q w" "execute en vless reg q w = (out, w')"
  shows "set out = make_entity_handle ` {e. chosen en reg q (query_base q w) w e}"
proof -
  obtain arches w1 where m: "world_match (compile_query q) w = (arches, w1)" by fastforce
  obtain changed w2 where o: "open_changed q arches w1 = (changed, w2)" by fastforce
  note rr = run_result [OF assms(1,3) m o]
  have "set out = make_entity_handle ` set (filter (passes en reg q changed w) (visited w arches))"
    using assms(2,4) by (auto simp: execute_def m o rr(4) order_result_set)
  then show ?thesis unfolding rr(5) by (simp add: rr(1))
qed

text \<open>
  C34. A query returns exactly the live entities it describes: those whose component set passes
  the three name lists, that are enabled if asked for, that have a watched component newer than
  the baseline of the query if it has a changed filter, whose fields equal the given values and
  that the script's predicate accepts; each once. With \<open>order_by_id\<close> the ids ascend; with
  \<open>order_by\<close> no later field value is below an earlier one. No data of the world changes.
\<close>

theorem query_returns_chosen:
  assumes wf: "wf_store reg w" and q: "qb_bound q" and b: "blind q w"
    and r: "execute en vless reg q w = (out, w')"
  shows "\<exists>es. out = map make_entity_handle es \<and> distinct es \<and> set es = {e. chosen en reg q (query_base q w) w e}
    \<and> (qb_order_by_id q \<longrightarrow> sorted_wrt (<) es)
    \<and> (\<not> qb_order_by_id q \<and> qb_order_comp q \<noteq> '''' \<and> weak_order vless \<longrightarrow>
         sorted_wrt (\<lambda>a b. \<not> vless (sort_key_of en reg q (content w) b) (sort_key_of en reg q (content w) a)) es)
    \<and> content w' = content w \<and> wf_store reg w'"
proof -
  obtain arches w1 where m: "world_match (compile_query q) w = (arches, w1)" by fastforce
  obtain changed w2 where o: "open_changed q arches w1 = (changed, w2)" by fastforce
  note rr = run_result [OF wf b m o]
  let ?c = "filter (passes en reg q changed w) (visited w arches)"
  define es where "es = order_result en vless reg q w2 ?c"
  have e: "out = map make_entity_handle es" "w' = close_changed q w2"
    using r q by (auto simp: execute_def m o rr(4) es_def)
  have set: "set es = {e. chosen en reg q (query_base q w) w e}" "distinct es"
    using rr(5) [where changed' = changed and en = en] rr(6) by (simp_all add: es_def order_result_set rr(1))
  have byid: "sorted_wrt (<) es" if "qb_order_by_id q"
  proof -
    have "weak_order (\<lambda>a b. eid a < eid b)" by (auto simp: weak_order_def)
    then have "sorted_wrt (\<lambda>a b. \<not> eid b < eid a) es"
      using stable_sort_sorted that by (simp add: es_def order_result_def)
    then have "sorted es" by (rule sorted_wrt_mono_rel [rotated]) (simp add: less_eq_entity_def not_less)
    then show ?thesis using set(2) by (simp add: strict_sorted_iff)
  qed
  have key: "ent_getf en reg w2 (make_entity_handle e) (qb_order_comp q) (qb_order_field q) VNil = sort_key_of en reg q (content w) e" for e
    using stampedD(1) [OF rr(3)] by (simp add: ent_getf_content [OF rr(2)] sort_key_of_def)
  have byfield: "sorted_wrt (\<lambda>a b. \<not> vless (sort_key_of en reg q (content w) b) (sort_key_of en reg q (content w) a)) es"
    if "\<not> qb_order_by_id q" "qb_order_comp q \<noteq> ''''" "weak_order vless"
  proof -
    have "weak_order (\<lambda>a b. vless (sort_key_of en reg q (content w) a) (sort_key_of en reg q (content w) b))"
      using that(3) unfolding weak_order_def by blast
    then show ?thesis using stable_sort_sorted that by (simp add: es_def order_result_def key)
  qed
  show ?thesis
    using e set byid byfield close_changed_store(1) [OF rr(2), of q] close_changed_store(2) [of q w2] stampedD(1) [OF rr(3)] by auto
qed

lemma find_filter: "find P xs = (case filter P xs of [] \<Rightarrow> None | x # ys \<Rightarrow> Some x)"
  by (induction xs) auto

text \<open>
  C35. The three ways to run a query agree: \<open>execute_one\<close> gives an entity of \<open>execute\<close>, the first
  one when no order is asked for, and none only if there is none; it leaves the world as
  \<open>execute\<close> does. \<open>count\<close> is the number of entities \<open>execute\<close> would give with the changed filter
  left out: it agrees with \<open>execute\<close> on queries without one, and ignores it otherwise, which its
  documentation does not say (vecs_query_builder.cpp:309).
\<close>

theorem query_runs_agree:
  assumes wf: "wf_store reg w" and q: "qb_bound q" and b: "blind q w"
    and r: "execute en vless reg q w = (out, w')" "execute_one en reg q w = (one, w'')" "query_count en reg q w = (n, v)"
  shows "w'' = w' \<and> (one = None \<longleftrightarrow> out = []) \<and> (\<forall>x. one = Some x \<longrightarrow> x \<in> set out)
    \<and> (\<not> qb_order_by_id q \<and> qb_order_comp q = '''' \<longrightarrow> one = (case out of [] \<Rightarrow> None | x # xs \<Rightarrow> Some x))
    \<and> n = length (fst (execute en vless reg (q\<lparr>qb_changed := []\<rparr>) w))
    \<and> (qb_changed q = [] \<longrightarrow> n = length out)"
proof -
  obtain arches w1 where m: "world_match (compile_query q) w = (arches, w1)" by fastforce
  obtain changed w2 where o: "open_changed q arches w1 = (changed, w2)" by fastforce
  note rr = run_result [OF wf b m o]
  let ?rows = "filter (row_passes en reg q changed w2) (rows_of w2 arches)"
  let ?es = "map (row_entity w2) ?rows"
  have out: "out = map make_entity_handle (order_result en vless reg q w2 ?es)" "w' = close_changed q w2"
    using r(1) q by (auto simp: execute_def m o)
  have one: "one = (case ?es of [] \<Rightarrow> None | e # es \<Rightarrow> Some (make_entity_handle e))" "w'' = w'"
    using r(2) q out(2) by (auto simp: execute_one_def m o find_filter split: list.splits)
  have set: "set (order_result en vless reg q w2 ?es) = set ?es" by (rule order_result_set)
  have nil: "out = [] \<longleftrightarrow> ?es = []"
  proof -
    have "out = [] \<longleftrightarrow> set (order_result en vless reg q w2 ?es) = {}" by (simp only: out(1) map_is_Nil_conv set_empty)
    also have "\<dots> \<longleftrightarrow> ?es = []" by (simp only: set set_empty)
    finally show ?thesis .
  qed
  have n: "n = length (fst (execute en vless reg (q\<lparr>qb_changed := []\<rparr>) w))"
  proof -
    let ?q = "q\<lparr>qb_changed := []\<rparr>"
    have c: "compile_query ?q = compile_query q" by (simp add: compile_query_def)
    have rp: "row_passes en reg ?q None u = row_passes en reg q None u" for u
      by (rule ext) (simp add: row_passes_def matches_field_equals_def split: prod.split)
    have "length (order_result en vless reg q' w1 es) = length es" for q' es
      by (auto simp: order_result_def) (metis size_mset stable_sort_mset)+
    then show ?thesis using r(3) q by (auto simp: query_count_def execute_def open_changed_def c m rp)
  qed
  have n0: "n = length out" if "qb_changed q = []"
  proof -
    have "q\<lparr>qb_changed := []\<rparr> = q" using that by simp
    then show ?thesis using n r(1) by simp
  qed
  have "one = (case out of [] \<Rightarrow> None | x # xs \<Rightarrow> Some x)" if u: "\<not> qb_order_by_id q" "qb_order_comp q = []"
  proof -
    have "out = map make_entity_handle ?es" using u by (simp add: out(1) order_result_def)
    then show ?thesis by (cases ?es) (auto simp: one(1))
  qed
  moreover have "\<forall>x. one = Some x \<longrightarrow> x \<in> set out"
  proof -
    have o: "set out = make_entity_handle ` set ?es" by (simp only: out(1) set_map set)
    show ?thesis unfolding o one(1) by (cases ?es) simp_all
  qed
  moreover have "one = None \<longleftrightarrow> out = []" using one(1) nil by (auto split: list.splits)
  ultimately show ?thesis using one(2) n n0 by blast
qed

section \<open>Changed queries\<close>

text \<open>After an \<open>execute\<close> with a changed filter nothing is newer than the query's baseline.\<close>

lemma execute_tracks:
  assumes wf: "wf_store reg w" and c: "clock_ok w" and q: "qb_bound q" "qb_changed q \<noteq> []" and b: "blind q w"
    and m: "world_match (compile_query q) w = (arches, w1)" and r: "execute en vless reg q w = (out, w')"
  shows "tracked_since reg (w_change_tick w) (set arches) (set (qb_changed q)) [] w'"
    "query_base q w' = Some (w_change_tick w)" "content w' = content w" "w_change_tick w' = w_change_tick w"
    "w_archetype_list w' = w_archetype_list w" "\<And>a. a \<in> set (w_archetype_list w) \<Longrightarrow> a_component_ids (arch w' a) = a_component_ids (arch w a)"
proof -
  obtain changed w2 where o: "open_changed q arches w1 = (changed, w2)" by fastforce
  note rr = run_result [OF wf b m o]
  note d = stampedD [OF rr(3)]
  have w': "w' = w2\<lparr>w_changed_baselines := (w_changed_baselines w2)(baseline_key q (compile_query q) \<mapsto> w_change_tick w2)\<rparr>"
    using r q by (auto simp: execute_def m o close_changed_def set_changed_baseline_def)
  have a: "arch w' = arch w2" by (simp add: w' arch_def fun_eq_iff)
  show "w_change_tick w' = w_change_tick w" "w_archetype_list w' = w_archetype_list w" by (simp_all add: w' d)
  show "content w' = content w"
    using close_changed_store(2) [of q w2] by (simp add: w' close_changed_def set_changed_baseline_def q(2) d)
  show "query_base q w' = Some (w_change_tick w)" by (simp add: query_base_def q(2) changed_baseline_def w' d)
  show "\<And>a. a \<in> set (w_archetype_list w) \<Longrightarrow> a_component_ids (arch w' a) = a_component_ids (arch w a)" by (simp add: a d(9))
  have wf': "wf_store reg w'"
    using close_changed_store(1) [OF rr(2), of q] by (simp add: w' close_changed_def set_changed_baseline_def q(2))
  have c2: "clock_ok w2" by (rule stamped_clock [OF rr(3) c])
  then have c': "clock_ok w'" by (simp add: clock_ok_def a) (simp add: w')
  have "versions_since (w_change_tick w) (\<lambda>i. False) (column_of (arch w' a) t)"
    if t: "a \<in> set arches" "t \<in> set (qb_changed q)" "t \<in> set (a_component_ids (arch w' a))" for a t
  proof -
    have al: "a \<in> set (w_archetype_list w)" using rr(8) t(1) by blast
    have ti: "t \<in> set (a_component_ids (arch w a))" using t(3) d(9) [OF al] by (simp add: a)
    have "c_tracking (column_of (arch w' a) t)" using rr(7) [OF q(2) t(1,2) ti] by (simp add: a ensure_versions_def)
    moreover have "\<forall>k\<in>set (c_versions (column_of (arch w' a) t)). k \<le> w_change_tick w"
      using c' al t(3) by (simp add: clock_ok_def w' d)
    ultimately show ?thesis unfolding versions_since_def by (auto simp del: not_less dest!: nth_mem)
  qed
  then show "tracked_since reg (w_change_tick w) (set arches) (set (qb_changed q)) [] w'"
    using wf' c' rr(8) by (simp add: tracked_since_def) (simp add: w' d)
qed

lemma changed_in_tracked:
  assumes s: "tracked_since reg base as (set ts) ns w" and l: "location_of w e = Some l" "loc_archetype l \<in> as"
  shows "changed_in w base ts e \<longleftrightarrow> (\<exists>t\<in>set ts. has w e t \<and> (e, t) \<in> set ns)"
proof -
  note d = tracked_sinceD [OF s] and wl = wf_locationD [OF tracked_sinceD(1) [OF s] l(1)]
  have "base < row_version w e t \<longleftrightarrow> (e, t) \<in> set ns" if t: "t \<in> set ts" "has w e t" for t
  proof -
    have ids: "t \<in> set (a_component_ids (arch w (loc_archetype l)))"
      using t(2) l(1) has_ids [OF d(1) l(1)] by (auto simp: has_def split: if_splits)
    note v = d(6) [OF l(2) t(1) ids] and n = tracked_length [OF s l(2) t(1) ids]
    show ?thesis using v n wl(5,6) by (auto simp: versions_since_def row_version_def l(1) Let_def)
  qed
  then show ?thesis by (auto simp: changed_in_def)
qed

text \<open>
  What may happen between two executions of a changed query: marks, and executions of other
  queries, which stamp columns and move baselines of their own.
\<close>

datatype 'u between = Mark entity ctype string | Ask "'u query_builder"

primrec do_between ::
    "engine \<Rightarrow> (variant \<Rightarrow> variant \<Rightarrow> bool) \<Rightarrow> ('u, 'v) env \<Rightarrow> 'u between \<Rightarrow> 'u world \<Rightarrow> 'u world" where
  "do_between en vless E (Mark e t f) w = mark_changed_field E e t f w"
| "do_between en vless E (Ask q) w = snd (execute en vless (env_registry E) q w)"

text \<open>Another query: it has no changed filter, or its baseline is kept under another key.\<close>

definition other_query :: "'u query_builder \<Rightarrow> 'u query_builder \<Rightarrow> bool" where
  "other_query q q' \<longleftrightarrow> qb_changed q' = [] \<or> baseline_key q' (compile_query q') \<noteq> baseline_key q (compile_query q)"

definition marks_in :: "'u between list \<Rightarrow> (entity \<times> ctype) list" where
  "marks_in steps = concat (map (\<lambda>b. case b of Mark e t f \<Rightarrow> [(e, t)] | Ask q \<Rightarrow> []) steps)"

lemma marks_in_simps [simp]:
  "marks_in [] = []" "marks_in (Mark e t f # bs) = (e, t) # marks_in bs" "marks_in (Ask q # bs) = marks_in bs"
  by (simp_all add: marks_in_def)

lemma marks_in_iff: "(e, t) \<in> set (marks_in bs) \<longleftrightarrow> (\<exists>f. Mark e t f \<in> set bs)"
  by (auto simp: marks_in_def split: between.splits)

definition same_data :: "'u world \<Rightarrow> 'u world \<Rightarrow> bool" where
  "same_data w w' \<longleftrightarrow> content w' = content w \<and> location_of w' = location_of w \<and> w_archetype_list w' = w_archetype_list w
     \<and> (\<forall>a\<in>set (w_archetype_list w). a_component_ids (arch w' a) = a_component_ids (arch w a))"

lemma same_data_trans: "same_data u v \<Longrightarrow> same_data v w \<Longrightarrow> same_data u w"
  by (simp add: same_data_def)

lemma tracked_since_stamped:
  assumes s: "tracked_since reg base as ts ns w" and st: "stamped w w'" and wf: "wf_store reg w'"
  shows "tracked_since reg base as ts ns w'"
proof -
  note d = tracked_sinceD [OF s] and sd = stampedD [OF st]
  have "versions_since base (\<lambda>i. (a_entities (arch w' a) ! i, t) \<in> set ns) (column_of (arch w' a) t)"
    if a: "a \<in> as" "t \<in> ts" "t \<in> set (a_component_ids (arch w' a))" for a t
  proof -
    have l: "a \<in> set (w_archetype_list w)" using a(1) d(5) by blast
    have t: "t \<in> set (a_component_ids (arch w a))" using a(3) sd(9) [OF l] by simp
    note v = d(6) [OF a(1,2) t]
    have "column_of (arch w' a) t = column_of (arch w a) t"
      using sd(12) [OF l t] v by (auto simp: ensure_versions_def versions_since_def)
    then show ?thesis using v sd(10) [OF l] by simp
  qed
  then show ?thesis using wf stamped_clock [OF st d(2)] d(3-5) sd(3,4) by (simp add: tracked_since_def)
qed

lemma tracked_since_baseline:
  "tracked_since reg base as ts ns (w\<lparr>w_changed_baselines := b\<rparr>) \<longleftrightarrow> tracked_since reg base as ts ns w"
proof -
  have s: "same_store w (w\<lparr>w_changed_baselines := b\<rparr>)" "same_store (w\<lparr>w_changed_baselines := b\<rparr>) w"
    by (simp_all add: same_store_def same_frame_def location_of_def arch_def fun_eq_iff)
  have "wf_store reg (w\<lparr>w_changed_baselines := b\<rparr>) \<longleftrightarrow> wf_store reg w" using same_store_wf(1) s by blast
  moreover have "arch (w\<lparr>w_changed_baselines := b\<rparr>) = arch w" by (simp add: arch_def fun_eq_iff)
  ultimately show ?thesis by (simp add: tracked_since_def clock_ok_def)
qed

lemma execute_between:
  assumes s: "tracked_since reg base as ts ns w" and b: "blind q' w" and k: "other_query q q'"
    and r: "execute en vless reg q' w = (out, w')"
  shows "tracked_since reg base as ts ns w' \<and> same_data w w' \<and> query_base q w' = query_base q w"
proof (cases "qb_bound q'")
  case False
  then show ?thesis using s r by (simp add: execute_def same_data_def)
next
  case True
  note wf = tracked_sinceD(1) [OF s]
  obtain arches w1 where m: "world_match (compile_query q') w = (arches, w1)" by fastforce
  obtain changed w2 where o: "open_changed q' arches w1 = (changed, w2)" by fastforce
  note rr = run_result [OF wf b m o]
  note d = stampedD [OF rr(3)]
  have w': "w' = close_changed q' w2" using r True by (auto simp: execute_def m o)
  have t2: "tracked_since reg base as ts ns w2" by (rule tracked_since_stamped [OF s rr(3,2)])
  have a: "arch w' = arch w2" "w_archetype_list w' = w_archetype_list w2" "location_of w' = location_of w2"
    by (simp_all add: w' close_changed_def set_changed_baseline_def arch_def location_of_def fun_eq_iff)
  have "tracked_since reg base as ts ns w'"
    using t2 unfolding w' close_changed_def set_changed_baseline_def by (simp add: tracked_since_baseline)
  moreover have "same_data w w'"
    using close_changed_store(2) [of q' w2] d(1-3,9) by (simp add: same_data_def a w' [symmetric])
  moreover have "query_base q w' = query_base q w"
    using k by (auto simp: w' query_base_def changed_baseline_def close_changed_def set_changed_baseline_def d other_query_def)
  ultimately show ?thesis by blast
qed

lemma steps_between:
  assumes "tracked_since (env_registry E) base as ts ns w" "passive_env E"
    and "unat base + length ns + length (marks_in steps) < 2 ^ 64 - 1"
    and "\<And>q' u. Ask q' \<in> set steps \<Longrightarrow> blind q' u \<and> other_query q q'"
  shows "tracked_since (env_registry E) base as ts (ns @ marks_in steps) (fold (do_between en vless E) steps w)
    \<and> same_data w (fold (do_between en vless E) steps w) \<and> query_base q (fold (do_between en vless E) steps w) = query_base q w"
  using assms
proof (induction steps arbitrary: ns w)
  case Nil
  then show ?case by (simp add: same_data_def)
next
  case (Cons b bs)
  have qs: "blind q' u \<and> other_query q q'" if "Ask q' \<in> set bs" for q' u using Cons.prems(4) that by simp
  show ?case
  proof (cases b)
    case b: (Mark e t f)
    have room: "unat base + length ns < 2 ^ 64 - 1" using Cons.prems(3) by (simp add: b)
    note m = tracked_since_mark [OF Cons.prems(1,2) room, of e t f]
    have sd: "same_data w (mark_changed_field E e t f w)" "query_base q (mark_changed_field E e t f w) = query_base q w"
      using m by (simp_all add: same_rows_def same_data_def query_base_def changed_baseline_def)
    have "unat base + length (ns @ [(e, t)]) + length (marks_in bs) < 2 ^ 64 - 1" using Cons.prems(3) by (simp add: b)
    from Cons.IH [OF conjunct1 [OF m] Cons.prems(2) this qs] show ?thesis
      using sd same_data_trans [OF sd(1)] by (simp add: b)
  next
    case b: (Ask q')
    obtain out v where r: "execute en vless (env_registry E) q' w = (out, v)" by fastforce
    note x = execute_between [OF Cons.prems(1) _ _ r, of q]
    have x: "tracked_since (env_registry E) base as ts ns v \<and> same_data w v \<and> query_base q v = query_base q w"
      using Cons.prems(4) [of q'] x by (simp add: b)
    have "unat base + length ns + length (marks_in bs) < 2 ^ 64 - 1" using Cons.prems(3) by (simp add: b)
    from Cons.IH [OF conjunct1 [OF x] Cons.prems(2) this qs] show ?thesis
      using x same_data_trans by (simp add: b r) blast
  qed
qed

text \<open>
  C36. A changed query reports each change once: the second of two executions gives exactly the
  entities that pass its other filters and of which a watched component was marked changed
  between the two, whether or not the first execution returned them, and whatever marks and
  executions of other queries come in between. Another query has no changed filter, or its
  baseline is kept under another key: \<open>baseline_key\<close> hashes the name lists and the watched types,
  and queries with equal keys share a baseline.
\<close>

theorem changed_query_reports_marks:
  assumes wf: "wf_store (env_registry E) w" "clock_ok w" and p: "passive_env E"
    and q: "qb_bound q" "qb_changed q \<noteq> []" and b: "\<And>u. blind q u"
    and others: "\<And>q' u. Ask q' \<in> set steps \<Longrightarrow> blind q' u \<and> other_query q q'"
    and room: "unat (w_change_tick w) + length (marks_in steps) < 2 ^ 64 - 1"
    and first: "execute en vless (env_registry E) q w = (out1, w1)"
    and second: "execute en vless (env_registry E) q (fold (do_between en vless E) steps w1) = (out2, w2)"
  shows "set out2 = make_entity_handle ` {e. chosen en (env_registry E) q None (fold (do_between en vless E) steps w1) e
    \<and> (\<exists>t\<in>set (qb_changed q). has w e t \<and> (\<exists>f. Mark e t f \<in> set steps))}"
proof -
  let ?reg = "env_registry E" and ?v = "fold (do_between en vless E) steps w1" and ?ms = "marks_in steps"
  obtain arches u1 where m: "world_match (compile_query q) w = (arches, u1)" by fastforce
  note x = execute_tracks [OF wf q b m first]
  have room': "unat (w_change_tick w) + length ([] :: (entity \<times> ctype) list) + length ?ms < 2 ^ 64 - 1" using room by simp
  have st: "tracked_since ?reg (w_change_tick w) (set arches) (set (qb_changed q)) ([] @ ?ms) ?v
    \<and> same_data w1 ?v \<and> query_base q ?v = query_base q w1"
    by (rule steps_between [OF x(1) p room' others])
  then have t: "tracked_since ?reg (w_change_tick w) (set arches) (set (qb_changed q)) ?ms ?v" and sr: "same_data w1 ?v"
    and base: "query_base q ?v = Some (w_change_tick w)" using x(2) by simp_all
  note d = tracked_sinceD [OF t]
  have cv: "content ?v = content w" using sr x(3) by (simp add: same_data_def)
  have loc: "\<exists>l. location_of ?v e = Some l \<and> loc_archetype l \<in> set arches"
    if e: "content ?v e = Some k" "selects (compile_query q) k" for e k
  proof -
    obtain l where l: "location_of ?v e = Some l" using e(1) by (auto simp: content_def split: option.splits)
    have la: "loc_archetype l \<in> set (w_archetype_list w)"
      using wf_locationD(1) [OF d(1) l] sr x(5) by (simp add: same_data_def)
    have "query_matches (compile_query q) (arch ?v (loc_archetype l))"
      using matched_archetype_selects [OF d(1) l] e by simp
    moreover have "a_component_ids (arch ?v (loc_archetype l)) = a_component_ids (arch w (loc_archetype l))"
      using sr x(5,6) la by (simp add: same_data_def)
    ultimately have "query_matches (compile_query q) (arch w (loc_archetype l))" using query_matches_cong by blast
    then have "loc_archetype l \<in> set arches" using la by (simp add: world_match_result(1) [OF wf(1) m])
    then show ?thesis using l by blast
  qed
  have ch: "chosen en ?reg q (Some (w_change_tick w)) ?v e
      \<longleftrightarrow> chosen en ?reg q None ?v e \<and> (\<exists>t\<in>set (qb_changed q). has w e t \<and> (\<exists>f. Mark e t f \<in> set steps))" for e
  proof -
    have "changed_in ?v (w_change_tick w) (qb_changed q) e
        \<longleftrightarrow> (\<exists>t\<in>set (qb_changed q). has w e t \<and> (\<exists>f. Mark e t f \<in> set steps))"
      if k: "content ?v e = Some k" "selects (compile_query q) k" for k
    proof -
      have h: "has ?v e t = has w e t" for t by (simp add: has_content [OF d(1)] has_content [OF wf(1)] cv)
      obtain l where l: "location_of ?v e = Some l" "loc_archetype l \<in> set arches" using loc [OF k] by auto
      show ?thesis unfolding changed_in_tracked [OF t l] h marks_in_iff ..
    qed
    then show ?thesis unfolding chosen_def passes_def by auto
  qed
  show ?thesis using query_returns_set [OF d(1) q(1) b second] by (simp add: base ch)
qed

section \<open>On a small world\<close>

definition demo_query :: "'u query_builder" where
  "demo_query = query_field_equals wire_registry ''Demo'' ''on'' (VBool True) (with_all wire_registry [''Demo'', ''None''] (make_query True))"

lemma demo_query_eq:
  "demo_query = (make_query True)\<lparr>qb_all := [1], qb_field_equals := [\<lparr>fe_comp = 1, fe_field = ''on'', fe_value = VBool True\<rparr>]\<rparr>"
  by (simp add: demo_query_def query_field_equals_def with_all_def make_query_def resolve_def id_of_def wire_registry_def
      INVALID_COMPONENT_TYPE_def Let_def)

lemma demo_query_ok: "qb_bound demo_query" "blind demo_query w" "qb_changed demo_query = []"
  by (simp_all add: demo_query_eq make_query_def blind_def)

lemma demo_row_on: "field_value demo_engine wire_registry [1 \<mapsto> demo_row] 1 ''on'' = Some (VBool True)"
  by (simp add: field_value_def wire_registry_ok(1) find_field_def demo_schema_def plain_field_def demo_row_def
      field_to_variant_def scalar_to_variant_def)

lemma demo_chosen:
  assumes "content w = [e1 \<mapsto> [1 \<mapsto> demo_row]]"
  shows "{e. chosen demo_engine wire_registry demo_query None w e} = {e1}"
proof -
  have "variants_equal demo_engine (VBool True) (VBool True)" by (simp add: variants_equal_def demo_engine_def)
  then show ?thesis
    by (auto simp: chosen_def passes_def assms demo_query_eq make_query_def selects_def compile_query_def demo_row_on split: if_splits)
qed

lemma chosen_order [simp]: "chosen en reg (order_by_id q) c w e = chosen en reg q c w e"
  "query_base (order_by_id q) w = query_base q w" "qb_bound (order_by_id q) = qb_bound q" "blind (order_by_id q) w = blind q w"
  by (simp_all add: order_by_id_def chosen_def passes_def compile_query_def query_base_def baseline_key_def blind_def)

theorem query_returns_chosen_witness:
  "fst (execute demo_engine (\<lambda>a b. False) wire_registry (order_by_id demo_query) (wire_world wire_env 0)) = [make_entity_handle e1]"
proof -
  let ?w = "wire_world wire_env 0"
  note ww = wire_world_ok [OF wire_env_ok(1,3), of 0]
  have wf: "wf_store wire_registry ?w" using ww(4) by (simp add: wire_env_ok(3))
  obtain out w' where r: "execute demo_engine (\<lambda>a b. False) wire_registry (order_by_id demo_query) ?w = (out, w')" by fastforce
  have "query_base demo_query ?w = None" by (simp add: query_base_def demo_query_ok)
  then obtain es where "out = map make_entity_handle es" "distinct es" "set es = {e1}"
    using query_returns_chosen [OF wf _ _ r] demo_query_ok(1,2) demo_chosen [OF ww(2)] by auto
  then have "out = [make_entity_handle e1]" by (cases es; cases "tl es") (auto simp: insert_eq_iff)
  then show ?thesis by (simp add: r)
qed

theorem query_runs_agree_witness:
  "fst (execute_one demo_engine wire_registry demo_query (wire_world wire_env 0)) \<noteq> None
     \<and> fst (query_count demo_engine wire_registry demo_query (wire_world wire_env 0)) \<noteq> 0"
proof -
  let ?w = "wire_world wire_env 0"
  note ww = wire_world_ok [OF wire_env_ok(1,3), of 0]
  have wf: "wf_store wire_registry ?w" using ww(4) by (simp add: wire_env_ok(3))
  obtain out w' where r: "execute demo_engine (\<lambda>a b. False) wire_registry demo_query ?w = (out, w')" by fastforce
  obtain one w1 where one: "execute_one demo_engine wire_registry demo_query ?w = (one, w1)" by fastforce
  obtain n w2 where n: "query_count demo_engine wire_registry demo_query ?w = (n, w2)" by fastforce
  have "query_base demo_query ?w = None" by (simp add: query_base_def demo_query_ok)
  then have "set out = {make_entity_handle e1}"
    using query_returns_set [OF wf demo_query_ok(1,2) r] demo_chosen [OF ww(2)] by simp
  then have "out \<noteq> []" by auto
  moreover note a = query_runs_agree [OF wf demo_query_ok(1,2) r one n]
  ultimately have "one \<noteq> None" "n = length out" using demo_query_ok(3) by blast+
  then show ?thesis using \<open>out \<noteq> []\<close> unfolding one n by simp
qed

text \<open>
  Two executions with a mark and a run of another changed query between them: the second
  reports the marked entity, because the other query keeps its own baseline.
\<close>

definition demo_changed :: "'u query_builder" where
  "demo_changed = query_changed wire_registry [''Demo''] demo_query"

definition any_changed :: "'u query_builder" where
  "any_changed = query_changed wire_registry [''Demo''] (make_query True)"

definition demo_steps :: "'u between list" where
  "demo_steps = [Mark e1 1 ''hp'', Ask any_changed]"

lemma demo_changed_other: "other_query demo_changed any_changed"
proof -
  have q: "qb_changed demo_changed = [1]" "qb_changed any_changed = [1]"
    "compile_query demo_changed = \<lparr>q_all = [1], q_any = [], q_none = []\<rparr>"
    "compile_query any_changed = \<lparr>q_all = [], q_any = [], q_none = []\<rparr>"
    by (simp_all add: demo_changed_def any_changed_def query_changed_def resolve_def id_of_def wire_registry_def
        INVALID_COMPONENT_TYPE_def demo_query_eq make_query_def compile_query_def)
  have "baseline_key any_changed \<lparr>q_all = [], q_any = [], q_none = []\<rparr>
      \<noteq> baseline_key demo_changed \<lparr>q_all = [1], q_any = [], q_none = []\<rparr>"
    unfolding baseline_key_def q by code_simp
  then show ?thesis by (simp add: other_query_def q)
qed

theorem changed_query_reports_marks_witness:
  "set (fst (execute demo_engine (\<lambda>a b. False) wire_registry demo_changed
     (fold (do_between demo_engine (\<lambda>a b. False) wire_env) demo_steps
        (snd (execute demo_engine (\<lambda>a b. False) wire_registry demo_changed (wire_world wire_env 0))))))
   = {make_entity_handle e1}"
proof -
  let ?w = "wire_world wire_env 0" and ?q = "demo_changed :: nat query_builder"
  note ww = wire_world_ok [OF wire_env_ok(1,3), of 0]
  have q: "qb_changed ?q = [1]" "qb_bound ?q" "blind ?q u" "chosen en reg ?q None u e = chosen en reg demo_query None u e" for u en reg e
    by (simp_all add: demo_changed_def query_changed_def resolve_def id_of_def wire_registry_def INVALID_COMPONENT_TYPE_def
        demo_query_eq make_query_def blind_def chosen_def passes_def compile_query_def)
  have q2: "qb_changed ?q \<noteq> []" by (simp add: q(1))
  have o: "blind q' u \<and> other_query ?q q'" if "Ask q' \<in> set demo_steps" for q' and u :: "nat world"
    using that demo_changed_other
    by (auto simp: demo_steps_def any_changed_def query_changed_def make_query_def blind_def)
  obtain out1 w1 where r1: "execute demo_engine (\<lambda>a b. False) (env_registry wire_env) ?q ?w = (out1, w1)" by fastforce
  let ?v = "fold (do_between demo_engine (\<lambda>a b. False) wire_env) demo_steps w1"
  obtain out2 w2 where r2: "execute demo_engine (\<lambda>a b. False) (env_registry wire_env) ?q ?v = (out2, w2)" by fastforce
  obtain arches u1 where m: "world_match (compile_query ?q) ?w = (arches, u1)" by fastforce
  note x = execute_tracks [OF ww(4) wire_world_clock q(2) q2 q(3) m r1]
  have room: "unat (w_change_tick ?w) + length (marks_in (demo_steps :: nat between list)) < 2 ^ 64 - 1"
    by (simp add: wire_world_fields demo_steps_def)
  have "unat (w_change_tick ?w) + length ([] :: (entity \<times> ctype) list) + length (marks_in (demo_steps :: nat between list)) < 2 ^ 64 - 1"
    using room by simp
  from steps_between [OF x(1) wire_env_ok(1) this o]
  have cv: "content ?v = [e1 \<mapsto> [1 \<mapsto> demo_row]]" using x(3) ww(2) by (simp add: same_data_def)
  have h: "has ?w e1 1" by (simp add: has_content [OF ww(4)] ww(2))
  have "chosen demo_engine wire_registry demo_query None ?v e \<longleftrightarrow> e = e1" for e using demo_chosen [OF cv] by blast
  then have "set out2 = {make_entity_handle e1}"
    using changed_query_reports_marks [OF ww(4) wire_world_clock wire_env_ok(1) q(2) q2 q(3) o room r1 r2] h
    by (auto simp: q(1,4) wire_env_ok(3) demo_steps_def)
  then show ?thesis using r1 r2 by (simp add: wire_env_ok(3))
qed

end
