(* ===== verification/Watch.thy ===== *)
theory Watch
  imports Reach
begin

text \<open>
  A watcher is client code that follows the component sets of entities through the events of the
  world. The locale states what it promises (\<open>I X w\<close>: the watcher is up to date in \<open>w\<close> for every
  entity outside \<open>X\<close>); its lemmas say that every operation of the world leaves it up to date
  for the entities it was up to date for, whatever the callbacks of other clients do meanwhile.
\<close>

section \<open>What is watched\<close>

text \<open>The component types of \<open>T\<close> an entity carries; a dead entity carries none.\<close>

definition carried :: "ctype set \<Rightarrow> 'u world \<Rightarrow> entity \<Rightarrow> ctype set" where
  "carried T w e = (case content w e of None \<Rightarrow> {} | Some m \<Rightarrow> dom m \<inter> T)"

text \<open>The preconditions of flushing a buffer, as in \<open>api_step\<close>.\<close>

fun tidy_command :: "('u, 'v) env \<Rightarrow> command \<Rightarrow> bool" where
  "tidy_command E (AddEntity e) = False"
| "tidy_command E (AddComponent e t d) = (d = [] \<or> schema_size E t \<le> length d)"
| "tidy_command E c = True"

definition ready :: "('u, 'v) env \<Rightarrow> 'u world \<Rightarrow> bool" where
  "ready E w \<longleftrightarrow> wf_world (env_registry E) w \<and> list_all (tidy_command E) (w_command_buffer w)"

lemma readyD: "ready E w \<Longrightarrow> wf_world (env_registry E) w" "ready E w \<Longrightarrow> wf_store (env_registry E) w"
  by (simp_all add: ready_def wf_world_def)

lemma carried_cong: "content v e = content w e \<Longrightarrow> carried T v e = carried T w e"
  by (simp add: carried_def)

lemma carried_upd:
  "content v e = Some m \<Longrightarrow> dom m = S \<Longrightarrow> carried T v e = S \<inter> T"
  by (simp add: carried_def)

section \<open>Watchers\<close>

locale component_watcher =
  fixes E :: "('u, 'v) env" and T :: "ctype set" and I :: "entity set \<Rightarrow> 'u world \<Rightarrow> bool"
  assumes watch_ready: "I X w \<Longrightarrow> ready E w"
    and watch_frame: "I X w \<Longrightarrow> ready E v \<Longrightarrow> w_observers v = w_observers w \<Longrightarrow> w_client v = w_client w \<Longrightarrow>
      (\<And>e. e \<notin> Y \<Longrightarrow> carried T v e = carried T w e) \<Longrightarrow> I (X \<union> Y) v"
    and watch_callback: "I X w \<Longrightarrow> I X (env_callback E f ev w)"
    and watch_event: "I X w \<Longrightarrow> ty = Added \<or> ty = Removed \<Longrightarrow> t \<in> T \<Longrightarrow> I (X - {e}) (notify E ty e t w)"
    and watch_custom: "I X w \<Longrightarrow> I X (env_custom E g d w)"
begin

lemma store_of: "I X w \<Longrightarrow> wf_store (env_registry E) w" "I X w \<Longrightarrow> wf_world (env_registry E) w"
  using watch_ready readyD by blast+

lemma mono: "I X w \<Longrightarrow> X \<subseteq> Y \<Longrightarrow> I Y w"
  using watch_frame [of X w w Y] watch_ready by (simp add: Un_absorb1)

text \<open>A step without events that leaves the watched data alone, or changes it for one entity.\<close>

lemma quiet:
  assumes "I X w" "ready E v" "w_observers v = w_observers w" "w_client v = w_client w" "content v = content w"
  shows "I X v"
  using watch_frame [OF assms(1-4), of "{}"] assms(5) by (simp add: carried_def)

lemma quiet_store:
  assumes i: "I X w" and s: "same_store w v" and c: "ctl v = ctl w" "w_client v = w_client w"
  shows "I X v"
proof -
  have "wf_world (env_registry E) v" using wf_world_same_store [OF store_of(2) [OF i] s c(1)] .
  then have "ready E v" using watch_ready [OF i] ctl_alloc(11) [OF c(1)] by (simp add: ready_def)
  then show ?thesis
    using quiet [OF i _ ctl_alloc(10) [OF c(1)] c(2)] same_store_wf(2) [OF s store_of(1) [OF i]] by blast
qed

lemma touched:
  assumes i: "I X w" and v: "wf_store (env_registry E) v" "ctl v = ctl w" "w_client v = w_client w"
    and c: "\<And>x. x \<noteq> e \<Longrightarrow> content v x = content w x" "content v e \<noteq> None" "content w e \<noteq> None"
  shows "I (X \<union> {e}) v" "carried T v e = carried T w e \<Longrightarrow> I X v"
proof -
  have "content v x = None \<longleftrightarrow> content w x = None" for x using c by (cases "x = e") auto
  then have "wf_world (env_registry E) v" by (rule wf_world_content [OF store_of(2) [OF i] v(1,2)])
  then have r: "ready E v" using watch_ready [OF i] ctl_alloc(11) [OF v(2)] by (simp add: ready_def)
  show "I (X \<union> {e}) v"
    by (rule watch_frame [OF i r ctl_alloc(10) [OF v(2)] v(3)]) (simp add: c(1) carried_def)
  assume e: "carried T v e = carried T w e"
  have "carried T v x = carried T w x" for x using e c(1) by (cases "x = e") (auto simp: carried_def)
  then have "I (X \<union> {}) v" by (intro watch_frame [OF i r ctl_alloc(10) [OF v(2)] v(3)])
  then show "I X v" by simp
qed

lemma dispatched: "I X w \<Longrightarrow> I X (fst (dispatch E ev w))"
  unfolding dispatch_def by (rule observer_contract.dispatch_inv) (simp_all add: observer_contract_def watch_callback)

lemma notified: "I X w \<Longrightarrow> I X (notify E ty e t w)"
  by (simp add: notify_def dispatched)

lemma removals: "I X w \<Longrightarrow> I X (notify_removed E e ts w)"
  unfolding notify_removed_def by (induction ts arbitrary: w) (auto simp: notified)

lemma settled:
  assumes "I (X \<union> {e}) w" "ty = Added \<or> ty = Removed" "t \<in> T"
  shows "I X (notify E ty e t w)"
  by (rule mono [OF watch_event [OF assms]]) auto

lemma removals_settle:
  assumes "I (X \<union> {e}) w" "set ts \<inter> T \<noteq> {}"
  shows "I X (notify_removed E e ts w)"
  using assms unfolding notify_removed_def
proof (induction ts arbitrary: w)
  case (Cons t ts)
  show ?case
  proof (cases "t \<in> T")
    case True
    then have "I X (notify E Removed e t w)" using settled [OF Cons.prems(1)] by blast
    then show ?thesis using removals unfolding notify_removed_def by simp
  next
    case False
    then show ?thesis using Cons.IH [OF notified [OF Cons.prems(1)]] Cons.prems(2) by simp
  qed
qed simp

lemma invalidated: "I X w \<Longrightarrow> I X (invalidate_cache w)"
  by (rule quiet_store) simp_all

end

section \<open>The operations of a world\<close>

context component_watcher
begin

text \<open>Steps on the control state: the store, the client and the observers stay as they are.\<close>

lemma control:
  assumes i: "I X w" and s: "same_store w v"
    and f: "w_slot_generations v = w_slot_generations w" "w_free_slots v = w_free_slots w" "w_pool_slots v = w_pool_slots w"
      "w_observers v = w_observers w" "w_client v = w_client w" "set (w_command_buffer v) \<subseteq> set (w_command_buffer w)"
  shows "I X v"
proof -
  note c = control_step_world [OF store_of(2) [OF i] s f(1-3)]
  have "ready E v" using watch_ready [OF i] c(1) f(6) by (auto simp: ready_def list_all_iff)
  then show ?thesis by (rule quiet [OF i _ f(4,5) c(2)])
qed

lemma pushed:
  assumes i: "I X w" and op: "po_add op \<Longrightarrow> \<exists>s. schema_of (env_registry E) (po_type op) = Some s \<and> length (po_data op) \<le> cs_size s"
  shows "I X (push_pending e op w)"
proof -
  have "ready E (push_pending e op w)"
    using push_pending_world [OF store_of(2) [OF i] op] watch_ready [OF i]
    by (simp add: ready_def push_pending_def queue_deferred_move_def)
  then show ?thesis
    by (rule quiet [OF i]) (simp_all add: push_pending_store(2) [OF store_of(1) [OF i] op],
      simp_all add: push_pending_def queue_deferred_move_def)
qed

lemma add_raw:
  assumes i: "I X w" and d: "case d of Some bs \<Rightarrow> schema_size E t \<le> length bs | None \<Rightarrow> True"
  shows "I X (add_raw E e t d w)"
proof (cases "is_alive w e \<and> schema_of (env_registry E) t \<noteq> None")
  case False
  then show ?thesis using i by (auto simp: add_raw_def)
next
  case True
  note st = store_of(1) [OF i]
  obtain s l where s: "schema_of (env_registry E) t = Some s" and l: "location_of w e = Some l"
    using True is_alive_iff [OF st] by auto
  have sz: "schema_size E t = cs_size s" by (simp add: schema_size_def s)
  note vb = value_bytes_length(1) [of s d] value_bytes_length(2) [OF d [unfolded sz]]
  have al: "is_alive w e" and live: "content w e \<noteq> None" using True l by (simp_all add: content_None)
  show ?thesis
  proof (cases "w_defer_moves w")
    case True
    then show ?thesis using al s by (auto simp: add_raw_def split: option.split intro!: pushed [OF i])
  next
    case dm: False
    note eq = add_raw_eq [OF l al s dm]
    show ?thesis
    proof (cases "has_component (arch w (loc_archetype l)) t")
      case h: True
      then have t: "t \<in> set (a_component_ids (arch w (loc_archetype l)))" using has_ids [OF st l] by simp
      let ?v = "write_component e t (loc_archetype l) (loc_row l) (value_bytes s d) w"
      note wr = write_component_store [OF st l t s vb(1)]
      have c: "content ?v e = Some ((the (content w e))(t \<mapsto> value_bytes s d))" by (rule wr(6) [OF vb(2)])
      have "t \<in> dom (the (content w e))" using content_dom [OF st l] t by simp
      then have "carried T ?v e = carried T w e" using live by (auto simp: carried_def c)
      then have "I X ?v" using touched(2) [OF i wr(1,4) _ wr(5) _ live] c by simp
      then show ?thesis using eq h notified by simp
    next
      case h: False
      show ?thesis
      proof (cases "in_iteration w")
        case True
        then show ?thesis using eq h i by simp
      next
        case it: False
        from h have t: "t \<notin> set (a_component_ids (arch w (loc_archetype l)))" using has_ids [OF st l] by simp
        obtain target row w3 where m: "migrate E e l (sort (a_component_ids (arch w (loc_archetype l)) @ [t])) w = (target, row, w3)"
          by (metis prod_cases3)
        let ?v = "write_component e t target row (value_bytes s d) w3"
        note mg = migrate_add [OF st l t s m vb(1)]
        have c: "content ?v e = Some ((the (content w e))(t \<mapsto> value_bytes s d))" by (rule mg(4) [OF vb(2)])
        have cl: "w_client ?v = w_client w" using client_migrate [OF m] by simp
        have "I X (notify E Added e t ?v)"
        proof (cases "t \<in> T")
          case True
          then show ?thesis using settled [OF touched(1) [OF i mg(1,2) cl mg(3) _ live]] c by simp
        next
          case False
          then have "carried T ?v e = carried T w e" using live by (auto simp: carried_def c)
          then show ?thesis using notified touched(2) [OF i mg(1,2) cl mg(3) _ live] c by simp
        qed
        then show ?thesis using eq h it m invalidated by simp
      qed
    qed
  qed
qed

lemma remove_component:
  assumes i: "I X w"
  shows "I X (remove_component E e t w)"
proof (cases "is_alive w e \<and> \<not> w_defer_moves w")
  case False
  then show ?thesis using i by (auto simp: remove_component_def intro!: pushed [OF i])
next
  case True
  note st = store_of(1) [OF i]
  obtain l where l: "location_of w e = Some l" using True is_alive_iff [OF st] by auto
  have live: "content w e \<noteq> None" using l by (simp add: content_None)
  note eq = remove_component_eq [OF l, of E t]
  show ?thesis
  proof (cases "has_component (arch w (loc_archetype l)) t \<and> \<not> in_iteration w")
    case False
    then show ?thesis using eq True i by auto
  next
    case h: True
    then have t: "t \<in> set (a_component_ids (arch w (loc_archetype l)))" using has_ids [OF st l] by simp
    obtain target row w3 where m: "migrate E e l (remove1 t (a_component_ids (arch w (loc_archetype l)))) w = (target, row, w3)"
      by (metis prod_cases3)
    note mg = migrate_remove [OF st l t m]
    note cl = client_migrate [OF m]
    have "I X (notify E Removed e t w3)"
    proof (cases "t \<in> T")
      case True
      then show ?thesis using settled [OF touched(1) [OF i mg(1,2) cl mg(3) _ live]] mg(4) by simp
    next
      case False
      then have "carried T w3 e = carried T w e" using live by (auto simp: carried_def mg(4))
      then show ?thesis using notified touched(2) [OF i mg(1,2) cl mg(3) _ live] mg(4) by simp
    qed
    then show ?thesis using eq True h m invalidated by simp
  qed
qed

lemma mark_changed_field:
  assumes i: "I X w"
  shows "I X (mark_changed_field E e t fld w)"
proof (cases "is_alive w e \<and> has w e t")
  case False
  then show ?thesis using i by (simp add: mark_changed_field_id)
next
  case True
  obtain v where v: "mark_changed_field E e t fld w = fst (dispatch E (mk_event Changed e t fld None) v)"
    "wf_store (env_registry E) v" "content v = content w" "ctl v = ctl w" "w_client v = w_client w"
    using mark_changed_core [OF store_of(1) [OF i] conjunct1 [OF True] conjunct2 [OF True]] by blast
  have "wf_world (env_registry E) v" by (rule wf_world_content [OF store_of(2) [OF i] v(2,4)]) (simp add: v(3))
  then have "ready E v" using watch_ready [OF i] ctl_alloc(11) [OF v(4)] by (simp add: ready_def)
  then have "I X v" by (rule quiet [OF i _ ctl_alloc(10) [OF v(4)] v(5,3)])
  then show ?thesis unfolding v(1) by (rule dispatched)
qed

end

section \<open>Entities\<close>

lemma alloc_frame [simp]:
  "w_observers (snd (alloc_entity_id w)) = w_observers w" "w_client (snd (alloc_entity_id w)) = w_client w"
  "w_command_buffer (snd (alloc_entity_id w)) = w_command_buffer w"
  by (simp_all add: alloc_entity_id_def Let_def)

lemma place_frame:
  assumes "wf_store (env_registry E) w" "location_of w e = None" "e \<noteq> null_entity"
  shows "w_observers (place_entity E e w) = w_observers w" "w_command_buffer (place_entity E e w) = w_command_buffer w"
  using ctl_alloc(10,11) [OF place_entity_store(5) [OF assms]] .

lemma create_frame:
  assumes wf: "wf_world (env_registry E) w" and c: "create_entity E w = (e, v)"
  shows "w_observers v = w_observers w" "w_client v = w_client w" "w_command_buffer v = w_command_buffer w"
proof -
  have "w_observers v = w_observers w \<and> w_client v = w_client w \<and> w_command_buffer v = w_command_buffer w"
    using create_entity_cases [OF wf c]
  proof (elim disjE exE conjE)
    fix u
    assume a: "alloc_entity_id w = (e, u)" "e \<noteq> null_entity" "v = place_entity E e u" "wf_store (env_registry E) u"
    have u: "u = snd (alloc_entity_id w)" using a(1) by simp
    have "location_of u e = None"
      using alloc_entity_id_props(1,5) [OF _ a(1,2)] wf by (simp add: wf_world_def)
    then show ?thesis using place_frame [OF a(4) _ a(2)] unfolding a(3) by (simp add: u)
  qed simp
  then show "w_observers v = w_observers w" "w_client v = w_client w" "w_command_buffer v = w_command_buffer w" by simp_all
qed

lemma pooled_frame:
  assumes wf: "wf_world (env_registry E) w" and c: "create_entity_pooled E w = (e, v)"
  shows "w_observers v = w_observers w" "w_client v = w_client w" "w_command_buffer v = w_command_buffer w"
proof -
  have "w_observers v = w_observers w \<and> w_client v = w_client w \<and> w_command_buffer v = w_command_buffer w"
  proof (cases "w_pool_slots w = []")
    case True
    then show ?thesis using create_frame [OF wf, of e v] c by (simp add: create_entity_pooled_def)
  next
    case False
    let ?u = "w\<lparr>w_pool_slots := butlast (w_pool_slots w)\<rparr>"
    have v: "e = last (w_pool_slots w)" "v = place_entity E e ?u"
      using c False by (auto simp: create_entity_pooled_def Let_def)
    have s: "same_store w ?u" by simp
    have st: "wf_store (env_registry E) ?u" using same_store_wf(1) [OF s] wf by (simp add: wf_world_def)
    have e: "e \<in> set (w_pool_slots w)" using v(1) False by simp
    then have n: "location_of ?u e = None" "valid_id w e"
      using wf s by (auto simp: wf_world_def wf_alloc_def same_store_def)
    then have "unat (slot e) < 0xFFFFFFFF" using wf by (simp add: valid_id_def wf_world_def wf_alloc_def)
    then have "e \<noteq> null_entity" using entity_bool_slot [OF unat_slot_max] by (auto simp: entity_bool_iff)
    then show ?thesis using place_frame [OF st n(1)] unfolding v(2) by simp
  qed
  then show "w_observers v = w_observers w" "w_client v = w_client w" "w_command_buffer v = w_command_buffer w" by simp_all
qed

lemma preassigned_watch:
  "w_observers (snd (create_entity_preassigned E i w)) = w_observers w"
  "w_client (snd (create_entity_preassigned E i w)) = w_client w"
  "w_command_buffer (snd (create_entity_preassigned E i w)) = w_command_buffer w"
  by (simp_all add: create_entity_preassigned_def Let_def place_entity_def case_prod_beta invalidate_cache_def
      set_location_def set_arch_def)

context component_watcher
begin

lemma born:
  assumes i: "I X w" and v: "wf_world (env_registry E) v" "w_observers v = w_observers w" "w_client v = w_client w"
      "w_command_buffer v = w_command_buffer w"
    and c: "content v = content w \<or> content w e = None \<and> content v = (content w)(e \<mapsto> Map.empty)"
  shows "I X v"
proof -
  have r: "ready E v" using v(1,4) watch_ready [OF i] by (simp add: ready_def)
  have "carried T v x = carried T w x" for x using c by (auto simp: carried_def split: option.split if_splits)
  then show ?thesis using watch_frame [OF i r v(2,3), of "{}"] by simp
qed

lemma create_entity: "I X w \<Longrightarrow> I X (snd (create_entity E w))"
proof -
  assume i: "I X w"
  obtain e v where c: "create_entity E w = (e, v)" by fastforce
  note wf = store_of(2) [OF i]
  have "content v = content w \<or> content w e = None \<and> content v = (content w)(e \<mapsto> Map.empty)"
    using create_entity_world(2) [OF wf c] create_entity_cases [OF wf c] by blast
  then show ?thesis using born [OF i create_entity_world(1) [OF wf c] create_frame [OF wf c]] c by simp
qed

lemma create_entity_preassigned:
  "I X w \<Longrightarrow> slot_unused w (Entity p) \<Longrightarrow> I X (snd (create_entity_preassigned E p w))"
proof -
  assume i: "I X w" and u: "slot_unused w (Entity p)"
  obtain e v where c: "create_entity_preassigned E p w = (e, v)" by fastforce
  note cw = create_entity_preassigned_world [OF store_of(2) [OF i] c u]
  note f = preassigned_watch [of E p w, unfolded c snd_conv]
  have "content v = content w \<or> content w e = None \<and> content v = (content w)(e \<mapsto> Map.empty)" using cw(2,3) by blast
  then show ?thesis using born [OF i cw(1) f] c by simp
qed

lemma create_entity_pooled: "I X w \<Longrightarrow> I X (snd (create_entity_pooled E w))"
proof -
  assume i: "I X w"
  obtain e v where c: "create_entity_pooled E w = (e, v)" by fastforce
  note wf = store_of(2) [OF i]
  have "content v = content w" if e: "e = null_entity"
  proof (cases "w_pool_slots w = []")
    case True
    then show ?thesis using create_entity_cases [OF wf, of e v] c e by (auto simp: create_entity_pooled_def)
  next
    case False
    then have "e \<in> set (w_pool_slots w)" using c by (auto simp: create_entity_pooled_def Let_def)
    then have "valid_id w e" using wf by (simp add: wf_world_def wf_alloc_def)
    then have "unat (slot e) < 0xFFFFFFFF" using wf by (simp add: valid_id_def wf_world_def wf_alloc_def)
    then have "e \<noteq> null_entity" using entity_bool_slot [OF unat_slot_max] by (auto simp: entity_bool_iff)
    then show ?thesis using e by simp
  qed
  then have "content v = content w \<or> content w e = None \<and> content v = (content w)(e \<mapsto> Map.empty)"
    using create_entity_pooled_world(2) [OF wf c] by blast
  then show ?thesis using born [OF i create_entity_pooled_world(1) [OF wf c] pooled_frame [OF wf c]] c by simp
qed

text \<open>Both destructions: the entity leaves the world before its removals are reported.\<close>

lemma remove_entity_with:
  assumes i: "I X w" and l: "location_of w e = Some l"
    and g: "\<And>v. same_store v (g v)" "wf_alloc (g (unplace_entity e l w))"
      "\<And>v. w_observers (g v) = w_observers v" "\<And>v. w_client (g v) = w_client v" "\<And>v. w_command_buffer (g v) = w_command_buffer v"
  shows "I X (remove_entity_with E g e l w)"
proof -
  let ?ids = "a_component_ids (arch w (loc_archetype l))"
  let ?v = "g (unplace_entity e l w)"
  note st = store_of(1) [OF i]
  note un = unplace_entity_store [OF st l]
  note v = same_store_wf [OF g(1) un(1)]
  have c: "content ?v = (content w)(e := None)" using v(2) un(2) by simp
  note f = ctl_alloc(10,11) [OF ctl_unplace, of e l w]
  have r: "ready E ?v" using v(1) g(2,5) f(2) watch_ready [OF i] by (simp add: ready_def wf_world_def)
  have fr: "w_observers ?v = w_observers w" "w_client ?v = w_client w" using g(3,4) f(1) by simp_all
  have i1: "I (X \<union> {e}) ?v" by (rule watch_frame [OF i r fr]) (simp add: carried_def c)
  have "I X (notify_removed E e ?ids ?v)"
  proof (cases "set ?ids \<inter> T = {}")
    case True
    have "content w e = Some (the (content w e))" by (simp add: content_def l)
    then have "carried T w e = {}" using content_dom [OF st l] True carried_upd by metis
    then have "carried T ?v x = carried T w x" for x by (cases "x = e") (simp_all add: carried_def c)
    then have "I (X \<union> {}) ?v" by (intro watch_frame [OF i r fr])
    then show ?thesis using removals by simp
  qed (rule removals_settle [OF i1])
  then show ?thesis unfolding remove_entity_with_def by (rule invalidated)
qed

lemma destroy_entity:
  assumes i: "I X w"
  shows "I X (destroy_entity E e w)" "I X (destroy_entity_pooled E e w)"
proof -
  note st = store_of(1) [OF i]
  have wf': "wf_alloc w" using store_of(2) [OF i] by (simp add: wf_world_def)
  have "I X (destroy_entity E e w) \<and> I X (destroy_entity_pooled E e w)"
  proof (cases "location_of w e = None \<or> in_iteration w")
    case True
    then show ?thesis using i by (auto simp: destroy_entity_def destroy_entity_pooled_def split: option.split)
  next
    case False
    then obtain l where l: "location_of w e = Some l" by auto
    let ?u = "unplace_entity e l w"
    note un = unplace_valid [OF st wf' l] unplace_entity_store(4) [OF st l]
    have np: "e \<notin> set (w_pool_slots ?u)" using un(3) ctl_alloc(3) [OF ctl_unplace, of e l w] by simp
    have a1: "wf_alloc (free_entity_id e ?u)" by (rule free_entity_id_alloc(1) [OF un(1,2,4) np])
    have v: "valid_id (?u\<lparr>w_pool_slots := p\<rparr>) x = valid_id ?u x" for p x by (simp add: valid_id_def)
    have lo: "location_of (?u\<lparr>w_pool_slots := p\<rparr>) = location_of ?u" for p by (simp add: location_of_def fun_eq_iff)
    have a2: "wf_alloc (?u\<lparr>w_pool_slots := w_pool_slots ?u @ [e]\<rparr>)"
      using un np unfolding wf_alloc_def v lo by auto
    have fr: "w_observers (free_entity_id e v) = w_observers v" "w_command_buffer (free_entity_id e v) = w_command_buffer v" for v :: "'u world"
      by (simp_all add: free_entity_id_def Let_def)
    have "I X (remove_entity_with E (free_entity_id e) e l w)"
      by (rule remove_entity_with [where g = "free_entity_id e", OF i l _ a1]) (simp_all add: fr)
    moreover have "I X (remove_entity_with E (\<lambda>v. v\<lparr>w_pool_slots := w_pool_slots v @ [e]\<rparr>) e l w)"
      by (rule remove_entity_with [where g = "\<lambda>v. v\<lparr>w_pool_slots := w_pool_slots v @ [e]\<rparr>", OF i l _ a2]) simp_all
    ultimately show ?thesis using False by (simp add: destroy_entity_eq [OF l])
  qed
  then show "I X (destroy_entity E e w)" "I X (destroy_entity_pooled E e w)" by simp_all
qed

lemma destroy_entity_deferred: "I X w \<Longrightarrow> I X (destroy_entity_deferred E e w)"
proof -
  assume i: "I X w"
  have "I X (queue_deferred_move e (w\<lparr>w_pending_destroy := insert e (w_pending_destroy w)\<rparr>))"
    by (rule control [OF i same_store_trans [OF same_store_updates(15) same_store_ops(7)]])
      (simp_all add: queue_deferred_move_def)
  then show ?thesis using i destroy_entity(1) by (simp add: destroy_entity_deferred_def)
qed

end

section \<open>Deferred moves and command buffers\<close>

lemma fold_settles:
  assumes "t \<in> set ts" "Q w" "\<And>t u. Q u \<Longrightarrow> Q (g t u)" "\<And>u. Q u \<Longrightarrow> P (g t u)" "\<And>t u. P u \<Longrightarrow> P (g t u)"
  shows "P (fold g ts w)"
proof -
  obtain as bs where ts: "ts = as @ t # bs" using split_list [OF assms(1)] by blast
  have "Q (fold g as w)" using assms(2) by (induction as arbitrary: w) (simp_all add: assms(3))
  then have "P (g t (fold g as w))" by (rule assms(4))
  then have "P (fold g bs (g t (fold g as w)))"
  proof (induction bs arbitrary: w as)
    case (Cons b bs)
    have "P (fold g bs u)" if "P u" for u using that by (induction bs arbitrary: u) (simp_all add: assms(5))
    then show ?case using assms(5) [OF Cons.prems] by simp
  qed simp
  then show ?thesis by (simp add: ts)
qed

context component_watcher
begin

lemma folded: "(\<And>x u. I X u \<Longrightarrow> I X (g x u)) \<Longrightarrow> I X w \<Longrightarrow> I X (fold g xs w)"
  by (induction xs arbitrary: w) auto

lemma commit_events:
  assumes "I (X \<union> {e}) w" and "I X w \<or> (\<exists>t\<in>T. (t \<in> set cs) \<noteq> (t \<in> set fs))"
  shows "I X (commit_events E e cs fs L w)"
proof -
  let ?g = "\<lambda>t u. if t \<notin> set cs then notify E Added e t u else if L t \<noteq> None then notify E Changed e t u else u"
  let ?h = "\<lambda>t u. if t \<notin> set fs then notify E Removed e t u else u"
  have g: "I Y u \<Longrightarrow> I Y (?g t u)" and h: "I Y u \<Longrightarrow> I Y (?h t u)" for Y t u by (simp_all add: notified)
  have "I X (fold ?h cs (fold ?g fs w))"
    using assms(2)
  proof (elim disjE bexE)
    assume "I X w"
    then show ?thesis using folded [where g = ?g, OF g] folded [where g = ?h, OF h] by blast
  next
    fix t
    assume t: "t \<in> T" "(t \<in> set cs) \<noteq> (t \<in> set fs)"
    show ?thesis
    proof (cases "t \<in> set fs")
      case True
      then have now: "I X (?g t u)" if "I (X \<union> {e}) u" for u using settled [OF that, of Added t] t by simp
      have "I X (fold ?g fs w)"
        using fold_settles [where g = ?g and Q = "I (X \<union> {e})" and P = "I X", OF True assms(1) g now g] .
      then show ?thesis using folded [where g = ?h, OF h] by blast
    next
      case False
      then have now: "I X (?h t u)" if "I (X \<union> {e}) u" for u using settled [OF that, of Removed t] t by simp
      have c: "t \<in> set cs" using t(2) False by simp
      have "I (X \<union> {e}) (fold ?g fs w)" using folded [where g = ?g, OF g] assms(1) by blast
      from fold_settles [where g = ?h and Q = "I (X \<union> {e})" and P = "I X", OF c this h now h] show ?thesis .
    qed
  qed
  then show ?thesis by (simp add: commit_events_def)
qed

lemma commit_deferred_move:
  assumes i: "I X w"
  shows "I X (commit_deferred_move E e w)"
proof (cases "location_of w e = None \<or> w_pending_ops w e = None")
  case True
  then show ?thesis using i by (auto simp: commit_deferred_move_def split: option.split)
next
  case False
  then obtain l ops where l: "location_of w e = Some l" "w_pending_ops w e = Some ops" by auto
  obtain v cs fs L where v: "wf_store (env_registry E) v" "ctl v = ctl w" "w_client v = w_client w"
    "\<forall>x. x \<noteq> e \<longrightarrow> content v x = content w x" "content v e \<noteq> None"
    "set cs = dom (the (content w e))" "set fs = dom (the (content v e))"
    "commit_deferred_move E e w = commit_events E e cs fs L v
         \<or> commit_deferred_move E e w = invalidate_cache (commit_events E e cs fs L v)"
    using commit_core [OF store_of(1) [OF i] l] by blast
  have live: "content w e \<noteq> None" using l(1) by (simp add: content_None)
  note t = touched [OF i v(1-3) v(4) [rule_format] v(5) live]
  have "carried T v e = set fs \<inter> T" "carried T w e = set cs \<inter> T"
    using v(5-7) live by (auto simp: carried_def)
  then have "I X v \<or> (\<exists>t\<in>T. (t \<in> set cs) \<noteq> (t \<in> set fs))" using t(2) by blast
  from commit_events [OF t(1) this] show ?thesis using v(8) invalidated by auto
qed

lemma end_deferred_moves:
  assumes i: "I X w"
  shows "I X (end_deferred_moves E w)"
proof (cases "w_defer_moves w")
  case False
  then show ?thesis using i by (simp add: end_deferred_moves_def)
next
  case True
  let ?w1 = "w\<lparr>w_defer_moves := False\<rparr>"
  let ?g = "\<lambda>e u. if e \<in> w_pending_destroy u then destroy_entity E e u else u"
  let ?h = "\<lambda>e u. if e \<in> w_pending_destroy u then u else commit_deferred_move E e u"
  let ?w3 = "fold ?h (w_deferred_entities w) (fold ?g (w_deferred_entities w) ?w1)"
  let ?w4 = "?w3\<lparr>w_pending_ops := Map.empty, w_pending_destroy := {}, w_deferred_entities := [], w_deferred_set := {}\<rparr>"
  have "I X ?w1" by (rule control [OF i]) simp_all
  then have i3: "I X ?w3" by (intro folded) (simp_all add: destroy_entity commit_deferred_move)
  have a: "arch ?w4 = arch ?w3" by (simp add: arch_def fun_eq_iff)
  note p = same_store_pending [OF store_of(2) [OF i3], of ?w4, simplified a, simplified]
  have "ready E ?w4" using p(1) watch_ready [OF i3] by (simp add: ready_def)
  then have "I X ?w4" by (rule quiet [OF i3]) (simp_all add: p(2))
  then have "I X (flush_invalidation ?w4)" by (rule control) (simp_all add: flush_invalidation_def)
  then show ?thesis using True by (simp add: end_deferred_moves_def Let_def)
qed

lemma run_command: "I X w \<Longrightarrow> tidy_command E c \<Longrightarrow> I X (run_command E c w)"
  by (cases c) (auto simp: remove_component destroy_entity_deferred run_custom_command_def watch_custom
      split: option.split intro!: add_raw)

lemma run_commands: "I X w \<Longrightarrow> list_all (tidy_command E) cs \<Longrightarrow> I X (fold (run_command E) cs w)"
  by (induction cs arbitrary: w) (simp_all add: run_command)

lemma execute_commands:
  assumes i: "I X w"
  shows "I X (execute_commands E w)"
proof -
  let ?w1 = "begin_deferred_moves (begin_suppress (w\<lparr>w_command_buffer := []\<rparr>))"
  have "same_store w ?w1"
    using same_store_trans [OF same_store_trans [OF same_store_updates(16) same_store_ops(8)] same_store_ops(10)] .
  then have "I X ?w1" by (rule control [OF i]) (simp_all add: begin_deferred_moves_def begin_suppress_def)
  from end_deferred_moves [OF run_commands [OF this]]
  have "I X (end_deferred_moves E (fold (run_command E) (w_command_buffer w) ?w1))"
    using watch_ready [OF i] by (simp add: ready_def)
  then have "I X (end_suppress (end_deferred_moves E (fold (run_command E) (w_command_buffer w) ?w1)))"
    by (rule control [OF _ same_store_end_suppress]) (simp_all add: end_suppress_def flush_invalidation_def)
  then show ?thesis using i by (simp add: execute_commands_def Let_def)
qed

end

section \<open>Any sequence of calls\<close>

text \<open>
  The calls of \<open>api_step\<close> without those that drop the observers or the entities wholesale
  (\<open>clear\<close>, \<open>reset\<close>), without the untracked archetype move, and with the preconditions of a
  later flush checked when a command is recorded.
\<close>

inductive watched_step :: "('u, 'v) env \<Rightarrow> 'u world \<Rightarrow> 'u world \<Rightarrow> bool" for E where
  create: "watched_step E w (snd (create_entity E w))"
| create_pooled: "watched_step E w (snd (create_entity_pooled E w))"
| preassign: "slot_unused w (Entity p) \<Longrightarrow> watched_step E w (snd (create_entity_preassigned E p w))"
| destroy: "watched_step E w (destroy_entity E e w)"
| destroy_pooled: "watched_step E w (destroy_entity_pooled E e w)"
| destroy_deferred: "watched_step E w (destroy_entity_deferred E e w)"
| add: "(\<And>bs. d = Some bs \<Longrightarrow> schema_size E t \<le> length bs) \<Longrightarrow> watched_step E w (add_raw E e t d w)"
| remove: "watched_step E w (remove_component E e t w)"
| mark: "watched_step E w (mark_changed_field E e t fld w)"
| match: "watched_step E w (snd (world_match q w))"
| suppress: "watched_step E w (begin_suppress w)"
| unsuppress: "watched_step E w (end_suppress w)"
| defer_moves: "watched_step E w (begin_deferred_moves w)"
| commit_moves: "watched_step E w (end_deferred_moves E w)"
| iterate: "watched_step E w (begin_iteration w)"
| iterated: "watched_step E w (end_iteration w)"
| command: "tidy_command E c \<Longrightarrow> watched_step E w (cb_push c w)"
| execute: "watched_step E w (execute_commands E w)"
| compact: "watched_step E w (compact w)"
| range: "n \<le> 0xFFFFFFFF \<Longrightarrow> watched_step E w (set_entity_range n w)"
| emit: "watched_step E w (snd (emit_event E nm e pl w))"
| baseline: "watched_step E w (set_changed_baseline sig tk w)"
| custom: "watched_step E w (register_custom_command i f w)"

context component_watcher
begin

lemma still:
  assumes i: "I X w" and v: "wf_store (env_registry E) v" "ctl v = ctl w" "w_client v = w_client w" "content v = content w"
  shows "I X v"
proof -
  have "wf_world (env_registry E) v" by (rule wf_world_content [OF store_of(2) [OF i] v(1,2)]) (simp add: v(4))
  then have "ready E v" using watch_ready [OF i] ctl_alloc(11) [OF v(2)] by (simp add: ready_def)
  then show ?thesis by (rule quiet [OF i _ ctl_alloc(10) [OF v(2)] v(3,4)])
qed

lemma world_match: "I X w \<Longrightarrow> I X (snd (world_match q w))"
proof -
  assume i: "I X w"
  obtain r v where m: "world_match q w = (r, v)" by fastforce
  note mr = world_match_result [OF store_of(1) [OF i] m]
  have "w_client v = w_client w" using m by (auto simp: world_match_def case_prod_beta)
  then show ?thesis using still [OF i mr(2,4) _ mr(3)] m by simp
qed

lemma pushed_command: "I X w \<Longrightarrow> tidy_command E c \<Longrightarrow> I X (cb_push c w)"
proof -
  assume i: "I X w" and c: "tidy_command E c"
  have s: "same_store w (cb_push c w)" by simp
  note w = control_step_world [OF store_of(2) [OF i] s]
  have "ready E (cb_push c w)" using w(1) watch_ready [OF i] c by (simp add: ready_def cb_push_def)
  then show ?thesis by (rule quiet [OF i]) (use w(2) in \<open>simp_all add: cb_push_def\<close>)
qed

lemma compacted: "I X w \<Longrightarrow> I X (compact w)"
proof -
  assume i: "I X w"
  note cs = compact_store [OF store_of(1) [OF i]]
  have "w_client (fst (fold compact_step as r)) = w_client (fst r)" for as and r :: "'u world \<times> aid list"
    by (induction as arbitrary: r) (simp_all add: compact_step_def split: prod.split)
  then have "w_client (compact w) = w_client w" by (simp add: compact_def case_prod_beta)
  then show ?thesis using still [OF i cs(1,3) _ cs(2)] by simp
qed

lemma ranged: "I X w \<Longrightarrow> n \<le> 0xFFFFFFFF \<Longrightarrow> I X (set_entity_range n w)"
proof -
  assume i: "I X w" and n: "n \<le> 0xFFFFFFFF"
  note r = set_entity_range_world [OF store_of(2) [OF i] n]
  have "ready E (set_entity_range n w)" using r(1) watch_ready [OF i] by (simp add: ready_def set_entity_range_def)
  then show ?thesis by (rule quiet [OF i]) (use r(2) in \<open>simp_all add: set_entity_range_def\<close>)
qed

lemma watched_step_keeps:
  assumes st: "watched_step E w w'" and i: "I X w"
  shows "I X w'"
  using st
proof cases
  case (add d t e)
  then show ?thesis using add_raw [where d = d and t = t and e = e, OF i] by (simp split: option.split)
next
  case (emit nm e pl)
  then show ?thesis using dispatched [OF i] by (simp add: emit_event_def case_prod_beta)
next
  case unsuppress
  show ?thesis unfolding unsuppress
    by (rule control [OF i same_store_end_suppress]) (simp_all add: end_suppress_def flush_invalidation_def)
qed (auto intro!: control [OF i] create_entity [OF i] create_entity_pooled [OF i] create_entity_preassigned [OF i] destroy_entity [OF i] destroy_entity_deferred [OF i]
    remove_component [OF i] mark_changed_field [OF i] world_match [OF i] end_deferred_moves [OF i] pushed_command [OF i]
    execute_commands [OF i] compacted [OF i] ranged [OF i]
    simp: begin_suppress_def begin_deferred_moves_def begin_iteration_def end_iteration_def
      set_changed_baseline_def register_custom_command_def)

lemma watched_steps_keep: "(watched_step E)\<^sup>*\<^sup>* w w' \<Longrightarrow> I X w \<Longrightarrow> I X w'"
  by (induction rule: rtranclp_induct) (auto intro: watched_step_keeps)

end

end
