(* ===== verification/ObserverNodes.thy ===== *)
theory ObserverNodes
  imports ScriptApi Watch
begin

text \<open>
  Observer nodes (src/gdscript/vecs_observer.cpp) and the subscriptions of \<open>VECSWorld\<close>
  (src/gdscript/vecs_world.cpp): what a script registers to be told about the events of a world,
  field filters, throttling, value-compared field subscriptions, and the tracking of the entities
  that match a component set.

  The state of nodes and subscriptions is the client state of the world. The functions behind
  callbacks are the closures the code creates, numbered as they are made; a number without a
  closure belongs to other modules and runs in the environment's own way. Script code is a
  parameter: it is called with the environment it may use and may do anything to the world.
  Delivery nests (a callback flushes the command buffer, which reports events), so the depth is a
  parameter \<open>n\<close>: at depth 0 the model records that it was too small and does nothing else.
\<close>

section \<open>State\<close>

record vecs_observer =
  vo_world :: bool
  vo_callback :: "nat option"
  vo_event_mask :: u32
  vo_component_filter :: "ctype list"
  vo_field_filter :: "string list"
  vo_throttle_tick :: int
  vo_last_emit_tick :: int
  vo_match_query :: "ctype list"
  vo_custom_name :: string
  vo_flush_mode :: int
  vo_observer_id :: int
  vo_membership :: "entity set"

record field_subscription =
  fs_observer_id :: int
  fs_comp :: ctype
  fs_field :: string
  fs_callable :: nat
  fs_cached :: "u64 \<rightharpoonup> variant"

datatype closure = NodeFn nat | FieldFn int | EventFn nat

record 'u nodes =
  no_observers :: "nat \<Rightarrow> vecs_observer"
  no_next_observer :: nat
  no_closures :: "nat \<rightharpoonup> closure"
  no_next_closure :: nat
  no_field_subs :: "int \<rightharpoonup> field_subscription"
  no_next_field_sub :: int
  no_event_subs :: "int \<rightharpoonup> int"
  no_next_event_sub :: int
  no_too_deep :: bool
  no_user :: 'u

text \<open>The ways script code is entered; an event is numbered as in \<open>VECSObserver::Event\<close>.\<close>

datatype invocation =
    ObserverCall nat int vecs_entity variant
  | ScriptEach nat int vecs_entity variant
  | NativeEach nat int entity variant
  | FieldCall nat vecs_entity variant
  | EventCall nat "vecs_entity option" variant

record 'u scripts =
  sc_call :: "('u nodes, variant) env \<Rightarrow> invocation \<Rightarrow> 'u nodes world \<Rightarrow> 'u nodes world"
  sc_overridden :: "nat \<Rightarrow> bool"

definition node :: "'u nodes world \<Rightarrow> nat \<Rightarrow> vecs_observer" where
  "node w p = no_observers (w_client w) p"

definition set_nodes :: "'u nodes \<Rightarrow> 'u nodes world \<Rightarrow> 'u nodes world" where
  "set_nodes c w = w\<lparr>w_client := c\<rparr>"

definition update_node :: "nat \<Rightarrow> (vecs_observer \<Rightarrow> vecs_observer) \<Rightarrow> 'u nodes world \<Rightarrow> 'u nodes world" where
  "update_node p f w =
     set_nodes ((w_client w)\<lparr>no_observers := (no_observers (w_client w))(p := f (node w p))\<rparr>) w"

definition update_field_sub :: "int \<Rightarrow> field_subscription \<Rightarrow> 'u nodes world \<Rightarrow> 'u nodes world" where
  "update_field_sub i s w =
     set_nodes ((w_client w)\<lparr>no_field_subs := (no_field_subs (w_client w))(i \<mapsto> s)\<rparr>) w"

text \<open>A new closure, and its registration with the dispatcher.\<close>

definition new_closure :: "closure \<Rightarrow> 'u nodes world \<Rightarrow> nat \<times> 'u nodes world" where
  "new_closure c w =
     (let k = w_client w; i = no_next_closure k
      in (i, set_nodes (k\<lparr>no_closures := (no_closures k)(i \<mapsto> c), no_next_closure := i + 1\<rparr>) w))"

definition register_callback :: "observer_callback \<Rightarrow> 'u nodes world \<Rightarrow> int \<times> 'u nodes world" where
  "register_callback cb w = (let (i, d) = observer_add cb (w_observers w) in (i, w\<lparr>w_observers := d\<rparr>))"

definition unregister_callback :: "int \<Rightarrow> 'u nodes world \<Rightarrow> 'u nodes world" where
  "unregister_callback i w = w\<lparr>w_observers := observer_remove i (w_observers w)\<rparr>"

section \<open>Configuration\<close>

abbreviation PER_CALLBACK :: int where "PER_CALLBACK \<equiv> 0"
abbreviation MANUAL :: int where "MANUAL \<equiv> 1"

text \<open>\<open>p_default\<close>: the project setting \<open>observer/default_throttle_tick\<close>.\<close>

definition new_observer :: "int \<Rightarrow> vecs_observer" where
  "new_observer p_default =
     \<lparr>vo_world = False, vo_callback = None, vo_event_mask = 0, vo_component_filter = [], vo_field_filter = [],
      vo_throttle_tick = p_default, vo_last_emit_tick = - 1, vo_match_query = [], vo_custom_name = '''',
      vo_flush_mode = PER_CALLBACK, vo_observer_id = 0, vo_membership = {}\<rparr>"

definition set_callback :: "nat option \<Rightarrow> vecs_observer \<Rightarrow> vecs_observer" where
  "set_callback p_callable o' = o'\<lparr>vo_callback := p_callable\<rparr>"

definition set_events :: "u32 \<Rightarrow> vecs_observer \<Rightarrow> vecs_observer" where
  "set_events p_mask o' = o'\<lparr>vo_event_mask := p_mask\<rparr>"

definition on_added :: "vecs_observer \<Rightarrow> vecs_observer" where
  "on_added o' = o'\<lparr>vo_event_mask := vo_event_mask o' OR EVENT_ADDED\<rparr>"

definition on_removed :: "vecs_observer \<Rightarrow> vecs_observer" where
  "on_removed o' = o'\<lparr>vo_event_mask := vo_event_mask o' OR EVENT_REMOVED\<rparr>"

definition on_changed :: "vecs_observer \<Rightarrow> vecs_observer" where
  "on_changed o' = o'\<lparr>vo_event_mask := vo_event_mask o' OR EVENT_CHANGED\<rparr>"

definition on_matched :: "vecs_observer \<Rightarrow> vecs_observer" where
  "on_matched o' = o'\<lparr>vo_event_mask := vo_event_mask o' OR EVENT_MATCHED\<rparr>"

definition on_unmatched :: "vecs_observer \<Rightarrow> vecs_observer" where
  "on_unmatched o' = o'\<lparr>vo_event_mask := vo_event_mask o' OR EVENT_UNMATCHED\<rparr>"

definition on_custom :: "vecs_observer \<Rightarrow> vecs_observer" where
  "on_custom o' = o'\<lparr>vo_event_mask := vo_event_mask o' OR EVENT_CUSTOM\<rparr>"

text \<open>The registered types of a list of names, and back.\<close>

definition known_types :: "registry \<Rightarrow> string list \<Rightarrow> ctype list" where
  "known_types reg p_names = filter (\<lambda>t. t \<noteq> INVALID_COMPONENT_TYPE) (map (id_of reg) p_names)"

definition set_components :: "registry \<Rightarrow> string list \<Rightarrow> vecs_observer \<Rightarrow> vecs_observer" where
  "set_components reg p_names o' = o'\<lparr>vo_component_filter := known_types reg p_names\<rparr>"

definition get_components :: "registry \<Rightarrow> vecs_observer \<Rightarrow> string list" where
  "get_components reg o' = map (name_of reg) (vo_component_filter o')"

definition set_fields :: "string list \<Rightarrow> vecs_observer \<Rightarrow> vecs_observer" where
  "set_fields p_names o' = o'\<lparr>vo_field_filter := p_names\<rparr>"

definition get_fields :: "vecs_observer \<Rightarrow> string list" where
  "get_fields o' = vo_field_filter o'"

definition set_throttle_tick :: "int \<Rightarrow> vecs_observer \<Rightarrow> vecs_observer" where
  "set_throttle_tick p_ticks o' = o'\<lparr>vo_throttle_tick := (if p_ticks > 0 then p_ticks else 0)\<rparr>"

definition set_match_components :: "registry \<Rightarrow> string list \<Rightarrow> vecs_observer \<Rightarrow> vecs_observer" where
  "set_match_components reg p_names o' = o'\<lparr>vo_match_query := known_types reg p_names\<rparr>"

definition get_match_components :: "registry \<Rightarrow> vecs_observer \<Rightarrow> string list" where
  "get_match_components reg o' = map (name_of reg) (vo_match_query o')"

definition set_custom_event_name :: "string \<Rightarrow> vecs_observer \<Rightarrow> vecs_observer" where
  "set_custom_event_name p_name o' = o'\<lparr>vo_custom_name := p_name\<rparr>"

definition set_flush_mode :: "int \<Rightarrow> vecs_observer \<Rightarrow> vecs_observer" where
  "set_flush_mode p_v o' = o'\<lparr>vo_flush_mode := p_v\<rparr>"

definition has_match_events :: "vecs_observer \<Rightarrow> bool" where
  "has_match_events o' \<longleftrightarrow> vo_event_mask o' AND (EVENT_MATCHED OR EVENT_UNMATCHED) \<noteq> 0"

section \<open>Delivery to a node\<close>

fun event_code :: "observer_event_type \<Rightarrow> int" where
  "event_code Added = 0"
| "event_code Removed = 1"
| "event_code Changed = 2"
| "event_code Matched = 3"
| "event_code Unmatched = 4"
| "event_code Custom = 5"

definition payload_of :: "variant event \<Rightarrow> variant" where
  "payload_of ev = (case ev_payload ev of None \<Rightarrow> VNil | Some v \<Rightarrow> v)"

text \<open>The field filter: a change without a subscribed field name is not delivered.\<close>

definition field_filtered :: "vecs_observer \<Rightarrow> variant event \<Rightarrow> bool" where
  "field_filtered o' ev \<longleftrightarrow> ev_type ev = Changed \<and> vo_field_filter o' \<noteq> []
     \<and> (ev_name ev = '''' \<or> ev_name ev \<notin> set (vo_field_filter o'))"

definition throttling :: "vecs_observer \<Rightarrow> variant event \<Rightarrow> bool" where
  "throttling o' ev \<longleftrightarrow> ev_type ev = Changed \<and> vo_throttle_tick o' > 0 \<and> vo_world o'"

definition throttled :: "vecs_observer \<Rightarrow> variant event \<Rightarrow> int \<Rightarrow> bool" where
  "throttled o' ev now \<longleftrightarrow>
     throttling o' ev \<and> vo_last_emit_tick o' \<ge> 0 \<and> now - vo_last_emit_tick o' < vo_throttle_tick o'"

definition change_now :: "'u nodes world \<Rightarrow> int" where
  "change_now w = sint (w_change_tick w)"

definition observer_call :: "'u scripts \<Rightarrow> nat \<Rightarrow> vecs_observer \<Rightarrow> variant event \<Rightarrow> invocation" where
  "observer_call sc p o' ev =
     (let handle = \<lparr>ve_bound = vo_world o', ve_id = eid (ev_entity ev)\<rparr>; code = event_code (ev_type ev)
      in case vo_callback o' of
           Some f \<Rightarrow> ObserverCall f code handle (payload_of ev)
         | None \<Rightarrow> (if sc_overridden sc p then ScriptEach p code handle (payload_of ev)
                    else NativeEach p code (ev_entity ev) (payload_of ev)))"

text \<open>\<open>E\<close> is the environment in which what happens during the delivery is reported.\<close>

definition handle_event ::
    "'u scripts \<Rightarrow> ('u nodes, variant) env \<Rightarrow> nat \<Rightarrow> variant event \<Rightarrow> 'u nodes world \<Rightarrow> 'u nodes world" where
  "handle_event sc E p ev w =
     (let o' = node w p in
      if field_filtered o' ev \<or> throttled o' ev (change_now w) then w
      else
        (let w1 = (if throttling o' ev then update_node p (\<lambda>x. x\<lparr>vo_last_emit_tick := change_now w\<rparr>) w else w);
             w2 = sc_call sc E (observer_call sc p o' ev) w1
         in if vo_flush_mode (node w2 p) = PER_CALLBACK \<and> vo_world (node w2 p) then execute_commands E w2 else w2))"

definition membership_event :: "observer_event_type \<Rightarrow> entity \<Rightarrow> variant event" where
  "membership_event ty e = mk_event ty e 0 '''' None"

definition evaluate_match ::
    "'u scripts \<Rightarrow> ('u nodes, variant) env \<Rightarrow> nat \<Rightarrow> entity \<Rightarrow> 'u nodes world \<Rightarrow> 'u nodes world" where
  "evaluate_match sc E p p_entity w =
     (let o' = node w p in
      if \<not> vo_world o' \<or> vo_match_query o' = [] then w
      else
        (let matches = list_all (has w p_entity) (vo_match_query o');
             in_membership = p_entity \<in> vo_membership o'
         in if matches \<and> \<not> in_membership then
              handle_event sc E p (membership_event Matched p_entity)
                (update_node p (\<lambda>x. x\<lparr>vo_membership := insert p_entity (vo_membership x)\<rparr>) w)
            else if \<not> matches \<and> in_membership then
              handle_event sc E p (membership_event Unmatched p_entity)
                (update_node p (\<lambda>x. x\<lparr>vo_membership := vo_membership x - {p_entity}\<rparr>) w)
            else w))"

text \<open>
  \<open>seed_membership\<close> walks the rows of the matching archetypes while it calls the script; a script
  that keeps adding entities keeps it walking, so the walk may not return (\<open>None\<close>).
\<close>

definition seed_one ::
    "'u scripts \<Rightarrow> ('u nodes, variant) env \<Rightarrow> nat \<Rightarrow> entity \<Rightarrow> 'u nodes world \<Rightarrow> 'u nodes world" where
  "seed_one sc E p e w =
     (if e \<in> vo_membership (node w p) then w
      else handle_event sc E p (membership_event Matched e)
             (update_node p (\<lambda>x. x\<lparr>vo_membership := insert e (vo_membership x)\<rparr>) w))"

partial_function (option) seed_rows ::
    "'u scripts \<Rightarrow> ('u nodes, variant) env \<Rightarrow> nat \<Rightarrow> aid \<Rightarrow> nat \<Rightarrow> 'u nodes world \<Rightarrow> 'u nodes world option" where
  "seed_rows sc E p a row w =
     (if row < length (a_entities (arch w a))
      then seed_rows sc E p a (row + 1) (seed_one sc E p (a_entities (arch w a) ! row) w)
      else Some w)"

fun seed_arches ::
    "'u scripts \<Rightarrow> ('u nodes, variant) env \<Rightarrow> nat \<Rightarrow> aid list \<Rightarrow> 'u nodes world \<Rightarrow> 'u nodes world option" where
  "seed_arches sc E p [] w = Some w"
| "seed_arches sc E p (a # as) w =
     (case seed_rows sc E p a 0 w of None \<Rightarrow> None | Some w1 \<Rightarrow> seed_arches sc E p as w1)"

definition seed_membership ::
    "'u scripts \<Rightarrow> ('u nodes, variant) env \<Rightarrow> nat \<Rightarrow> 'u nodes world \<Rightarrow> 'u nodes world option" where
  "seed_membership sc E p w =
     (let o' = node w p in
      if \<not> vo_world o' \<or> vo_match_query o' = [] then Some w
      else (let (arches, w1) = world_match (comps_query (vo_match_query o')) w
            in seed_arches sc E p arches w1))"

section \<open>Field and event subscriptions\<close>

text \<open>The value a subscription sees: the field of its component of the entity.\<close>

definition subscribed_value :: "engine \<Rightarrow> registry \<Rightarrow> field_subscription \<Rightarrow> entity \<Rightarrow> 'u world \<Rightarrow> variant option" where
  "subscribed_value en reg s e w =
     (case get_raw w e (fs_comp s) of
        None \<Rightarrow> None
      | Some raw \<Rightarrow>
          (case schema_of reg (fs_comp s) of
             None \<Rightarrow> None
           | Some sch \<Rightarrow>
               (case find_field sch (fs_field s) of
                  None \<Rightarrow> None
                | Some fd \<Rightarrow> field_to_variant en fd (load_row w raw) (fd_offset fd))))"

definition field_event ::
    "'u scripts \<Rightarrow> engine \<Rightarrow> ('u nodes, variant) env \<Rightarrow> int \<Rightarrow> variant event \<Rightarrow> 'u nodes world \<Rightarrow> 'u nodes world" where
  "field_event sc en E sub_id ev w =
     (case no_field_subs (w_client w) sub_id of
        None \<Rightarrow> w
      | Some sub \<Rightarrow>
          (case subscribed_value en (env_registry E) sub (ev_entity ev) w of
             None \<Rightarrow> w
           | Some value \<Rightarrow>
               (let i = eid (ev_entity ev);
                    unchanged = (case fs_cached sub i of None \<Rightarrow> False | Some c \<Rightarrow> en_equal en c value)
                in if unchanged then w
                   else sc_call sc E (FieldCall (fs_callable sub) (make_entity_handle (ev_entity ev)) value)
                          (update_field_sub sub_id (sub\<lparr>fs_cached := (fs_cached sub)(i \<mapsto> value)\<rparr>) w))))"

definition custom_event ::
    "'u scripts \<Rightarrow> ('u nodes, variant) env \<Rightarrow> nat \<Rightarrow> variant event \<Rightarrow> 'u nodes world \<Rightarrow> 'u nodes world" where
  "custom_event sc E callable ev w =
     sc_call sc E (EventCall callable
       (if entity_bool (ev_entity ev) then Some (make_entity_handle (ev_entity ev)) else None) (payload_of ev)) w"

section \<open>The closures\<close>

definition run_closure ::
    "'u scripts \<Rightarrow> engine \<Rightarrow> ('u nodes, variant) env \<Rightarrow> closure \<Rightarrow> variant event \<Rightarrow> 'u nodes world \<Rightarrow> 'u nodes world" where
  "run_closure sc en E c ev w =
     (case c of
        NodeFn p \<Rightarrow>
          (let w1 = handle_event sc E p ev w
           in if (ev_type ev = Added \<or> ev_type ev = Removed) \<and> has_match_events (node w1 p)
              then evaluate_match sc E p (ev_entity ev) w1 else w1)
      | FieldFn sub_id \<Rightarrow> field_event sc en E sub_id ev w
      | EventFn callable \<Rightarrow> custom_event sc E callable ev w)"

text \<open>The environment a world with nodes lives in: \<open>n\<close> bounds how deep deliveries nest.\<close>

fun node_env :: "'u scripts \<Rightarrow> engine \<Rightarrow> nat \<Rightarrow> ('u nodes, variant) env \<Rightarrow> ('u nodes, variant) env" where
  "node_env sc en 0 E = E\<lparr>env_callback := \<lambda>f ev w. set_nodes ((w_client w)\<lparr>no_too_deep := True\<rparr>) w\<rparr>"
| "node_env sc en (Suc n) E = E\<lparr>env_callback := \<lambda>f ev w.
     (case no_closures (w_client w) f of
        None \<Rightarrow> env_callback E f ev w
      | Some c \<Rightarrow> run_closure sc en (node_env sc en n E) c ev w)\<rparr>"

section \<open>Registration\<close>

definition add_observer ::
    "'u scripts \<Rightarrow> ('u nodes, variant) env \<Rightarrow> nat \<Rightarrow> 'u nodes world \<Rightarrow> 'u nodes world option" where
  "add_observer sc E p w =
     (let o' = node w p;
          (f, w1) = new_closure (NodeFn p) w;
          cb = \<lparr>cb_id = 0, cb_fn = Some f, cb_event_mask = vo_event_mask o', cb_component_filter = vo_component_filter o',
                cb_watch_all = (vo_component_filter o' = []), cb_custom_name = vo_custom_name o'\<rparr>;
          w2 = update_node p (\<lambda>x. x\<lparr>vo_world := True\<rparr>) w1;
          (i, w3) = register_callback cb w2;
          w4 = update_node p (\<lambda>x. x\<lparr>vo_observer_id := i\<rparr>) w3
      in if has_match_events (node w4 p) then seed_membership sc E p w4 else Some w4)"

definition remove_observer :: "nat \<Rightarrow> 'u nodes world \<Rightarrow> 'u nodes world" where
  "remove_observer p w =
     (let w1 = (if vo_observer_id (node w p) > 0
                then update_node p (\<lambda>x. x\<lparr>vo_observer_id := 0\<rparr>) (unregister_callback (vo_observer_id (node w p)) w)
                else w)
      in update_node p (\<lambda>x. x\<lparr>vo_world := False\<rparr>) w1)"

text \<open>\<open>live\<close>: the engine still knows the world the node was added to (\<open>NOTIFICATION_PREDELETE\<close>).\<close>

definition observer_predelete :: "bool \<Rightarrow> nat \<Rightarrow> 'u nodes world \<Rightarrow> 'u nodes world" where
  "observer_predelete live p w =
     (if vo_world (node w p)
      then update_node p (\<lambda>x. x\<lparr>vo_world := False\<rparr>) (if live then remove_observer p w else w) else w)"

datatype event_option = EventMask u32 | EventNames "string list" | OtherEvents

record observer_options =
  oo_events :: "event_option option"
  oo_components :: "string list option"
  oo_fields :: "string list option"
  oo_match_components :: "string list option"
  oo_custom_event_name :: "string option"
  oo_throttle_tick :: "int option"
  oo_flush_mode :: "int option"

definition event_name_bit :: "string \<Rightarrow> u32" where
  "event_name_bit name =
     (if name = ''added'' then EVENT_ADDED
      else if name = ''removed'' then EVENT_REMOVED
      else if name = ''changed'' then EVENT_CHANGED
      else if name = ''matched'' then EVENT_MATCHED
      else if name = ''unmatched'' then EVENT_UNMATCHED
      else if name = ''custom'' then EVENT_CUSTOM
      else 0)"

definition option_apply :: "('a \<Rightarrow> 'b \<Rightarrow> 'b) \<Rightarrow> 'a option \<Rightarrow> 'b \<Rightarrow> 'b" where
  "option_apply f x b = (case x of None \<Rightarrow> b | Some a \<Rightarrow> f a b)"

definition configure_observer :: "registry \<Rightarrow> nat option \<Rightarrow> observer_options \<Rightarrow> vecs_observer \<Rightarrow> vecs_observer" where
  "configure_observer reg p_callable p_opts o' =
     (let o1 = set_callback p_callable o';
          o2 = (case oo_events p_opts of
                  Some (EventMask m) \<Rightarrow> set_events m o1
                | Some (EventNames names) \<Rightarrow> set_events (fold (\<lambda>name mask. mask OR event_name_bit name) names 0) o1
                | Some OtherEvents \<Rightarrow> o1
                | None \<Rightarrow> on_changed o1)
      in option_apply set_flush_mode (oo_flush_mode p_opts)
           (option_apply set_throttle_tick (oo_throttle_tick p_opts)
             (option_apply set_custom_event_name (oo_custom_event_name p_opts)
               (option_apply (set_match_components reg) (oo_match_components p_opts)
                 (option_apply set_fields (oo_fields p_opts)
                   (option_apply (set_components reg) (oo_components p_opts) o2))))))"

definition create_observer ::
    "'u scripts \<Rightarrow> ('u nodes, variant) env \<Rightarrow> int \<Rightarrow> nat option \<Rightarrow> observer_options \<Rightarrow> 'u nodes world
       \<Rightarrow> nat \<times> 'u nodes world option" where
  "create_observer sc E p_default p_callable p_opts w =
     (let k = w_client w; p = no_next_observer k;
          w1 = set_nodes (k\<lparr>no_next_observer := p + 1\<rparr>) w
      in (p, add_observer sc E p
               (update_node p (\<lambda>_. configure_observer (env_registry E) p_callable p_opts (new_observer p_default)) w1)))"

text \<open>\<open>on_changed\<close> of the world: \<open>p_fields\<close> and \<open>p_field\<close> are the two spellings of the option.\<close>

definition world_on_changed ::
    "'u scripts \<Rightarrow> ('u nodes, variant) env \<Rightarrow> int \<Rightarrow> string \<Rightarrow> string list option \<Rightarrow> string list option \<Rightarrow> int option
       \<Rightarrow> nat option \<Rightarrow> 'u nodes world \<Rightarrow> nat \<times> 'u nodes world option" where
  "world_on_changed sc E p_default p_comp p_fields p_field throttle callable w =
     create_observer sc E p_default callable
       \<lparr>oo_events = Some (EventNames [''changed'']),
        oo_components = Some (if p_comp = '''' then [] else [p_comp]),
        oo_fields = (case p_fields of Some x \<Rightarrow> Some x | None \<Rightarrow> p_field), oo_match_components = None,
        oo_custom_event_name = None, oo_throttle_tick = throttle, oo_flush_mode = None\<rparr> w"

definition on_event ::
    "'u scripts \<Rightarrow> ('u nodes, variant) env \<Rightarrow> int \<Rightarrow> string \<Rightarrow> nat option \<Rightarrow> 'u nodes world
       \<Rightarrow> nat \<times> 'u nodes world option" where
  "on_event sc E p_default p_name p_callable w =
     (let k = w_client w; p = no_next_observer k;
          w1 = set_nodes (k\<lparr>no_next_observer := p + 1\<rparr>) w;
          o' = set_custom_event_name p_name (on_custom (set_callback p_callable (new_observer p_default)))
      in (p, add_observer sc E p (update_node p (\<lambda>_. o') w1)))"

definition world_emit_event ::
    "('u nodes, variant) env \<Rightarrow> string \<Rightarrow> vecs_entity option \<Rightarrow> variant \<Rightarrow> 'u nodes world \<Rightarrow> int \<times> 'u nodes world" where
  "world_emit_event E p_name p_entity p_payload w =
     emit_event E p_name (case p_entity of None \<Rightarrow> null_entity | Some x \<Rightarrow> Entity (ve_id x)) (Some p_payload) w"

definition on_field_changed ::
    "registry \<Rightarrow> string \<Rightarrow> string \<Rightarrow> nat option \<Rightarrow> 'u nodes world \<Rightarrow> int \<times> 'u nodes world" where
  "on_field_changed reg p_comp p_field p_callable w =
     (let t = id_of reg p_comp
      in case p_callable of
           None \<Rightarrow> (0, w)
         | Some callable \<Rightarrow>
             (if t = INVALID_COMPONENT_TYPE then (0, w)
              else
                (let k = w_client w; sub_id = no_next_field_sub k;
                     sub = \<lparr>fs_observer_id = 0, fs_comp = t, fs_field = p_field, fs_callable = callable, fs_cached = Map.empty\<rparr>;
                     w1 = update_field_sub sub_id sub (set_nodes (k\<lparr>no_next_field_sub := sub_id + 1\<rparr>) w);
                     (f, w2) = new_closure (FieldFn sub_id) w1;
                     cb = \<lparr>cb_id = 0, cb_fn = Some f, cb_event_mask = EVENT_CHANGED, cb_component_filter = [t],
                           cb_watch_all = False, cb_custom_name = ''''\<rparr>;
                     (i, w3) = register_callback cb w2
                 in (sub_id, update_field_sub sub_id (sub\<lparr>fs_observer_id := i\<rparr>) w3))))"

definition off :: "int \<Rightarrow> 'u nodes world \<Rightarrow> 'u nodes world" where
  "off p_subscription_id w =
     (case no_field_subs (w_client w) p_subscription_id of
        None \<Rightarrow> w
      | Some sub \<Rightarrow>
          (let w1 = (if fs_observer_id sub > 0 then unregister_callback (fs_observer_id sub) w else w);
               k = w_client w1
           in set_nodes (k\<lparr>no_field_subs := (no_field_subs k)(p_subscription_id := None)\<rparr>) w1))"

definition subscribe_event :: "string \<Rightarrow> nat option \<Rightarrow> 'u nodes world \<Rightarrow> int \<times> 'u nodes world" where
  "subscribe_event p_name p_callable w =
     (case p_callable of
        None \<Rightarrow> (0, w)
      | Some callable \<Rightarrow>
          (let k = w_client w; sub_id = no_next_event_sub k;
               (f, w1) = new_closure (EventFn callable) (set_nodes (k\<lparr>no_next_event_sub := sub_id + 1\<rparr>) w);
               cb = \<lparr>cb_id = 0, cb_fn = Some f, cb_event_mask = EVENT_CUSTOM, cb_component_filter = [],
                     cb_watch_all = True, cb_custom_name = p_name\<rparr>;
               (i, w2) = register_callback cb w1; k2 = w_client w2
           in (sub_id, set_nodes (k2\<lparr>no_event_subs := (no_event_subs k2)(sub_id \<mapsto> i)\<rparr>) w2)))"

definition unsubscribe_event :: "int \<Rightarrow> 'u nodes world \<Rightarrow> 'u nodes world" where
  "unsubscribe_event p_subscription_id w =
     (case no_event_subs (w_client w) p_subscription_id of
        None \<Rightarrow> w
      | Some i \<Rightarrow>
          (let w1 = unregister_callback i w; k = w_client w1
           in set_nodes (k\<lparr>no_event_subs := (no_event_subs k)(p_subscription_id := None)\<rparr>) w1))"

text \<open>The hash maps of subscriptions are walked in the order \<open>ids\<close>; each step removes one callback.\<close>

definition clear_field_subs :: "int list \<Rightarrow> 'u nodes world \<Rightarrow> 'u nodes world" where
  "clear_field_subs ids w =
     (let w1 = fold (\<lambda>i u. case no_field_subs (w_client u) i of
                 None \<Rightarrow> u
               | Some sub \<Rightarrow> (if fs_observer_id sub > 0 then unregister_callback (fs_observer_id sub) u else u)) ids w
      in set_nodes ((w_client w1)\<lparr>no_field_subs := Map.empty\<rparr>) w1)"

definition clear_event_subs :: "int list \<Rightarrow> 'u nodes world \<Rightarrow> 'u nodes world" where
  "clear_event_subs ids w =
     (let w1 = fold (\<lambda>i u. case no_event_subs (w_client u) i of
                 None \<Rightarrow> u | Some j \<Rightarrow> unregister_callback j u) ids w
      in set_nodes ((w_client w1)\<lparr>no_event_subs := Map.empty\<rparr>) w1)"

end
