(* ===== verification/ObserverSpec.thy ===== *)
theory ObserverSpec
  imports ObserverNodes
begin

text \<open>
  What observer nodes promise: a node that asks for membership events knows exactly the entities
  that carry its components, whatever scripts do in their callbacks; field subscriptions and
  throttled nodes are not told more than they asked for.
\<close>

section \<open>Frames\<close>

lemma set_nodes_frame [simp]:
  "w_client (set_nodes k w) = k" "same_store w (set_nodes k w)" "ctl (set_nodes k w) = ctl w"
  "w_observers (set_nodes k w) = w_observers w" "w_change_tick (set_nodes k w) = w_change_tick w"
  "w_command_buffer (set_nodes k w) = w_command_buffer w" "set_nodes k (set_nodes k' w) = set_nodes k w"
  "arch (set_nodes k w) = arch w" "location_of (set_nodes k w) = location_of w"
  by (simp_all add: set_nodes_def ctl_def arch_def location_of_def fun_eq_iff)

lemma set_nodes_wf [simp]: "wf_world reg (set_nodes k w) = wf_world reg w" "content (set_nodes k w) = content w"
proof -
  have c: "content (set_nodes k w) = content w" for w :: "'u nodes world" and k by (intro ext) (simp add: content_def cong: option.case_cong)
  have "wf_world reg (set_nodes k w)" if "wf_world reg w" for w :: "'u nodes world" and k
    by (rule wf_world_same_store [OF that]) simp_all
  from this [of w k] this [of "set_nodes k w" "w_client w"]
  show "wf_world reg (set_nodes k w) = wf_world reg w" by (auto simp: set_nodes_def)
  show "content (set_nodes k w) = content w" by (rule c)
qed

lemma set_nodes_ready [simp]: "ready E (set_nodes k w) = ready E w" "carried T (set_nodes k w) e = carried T w e"
  by (simp_all add: ready_def carried_def)

lemma update_node_frame [simp]:
  "node (update_node p f w) q = (if q = p then f (node w p) else node w q)"
  "no_too_deep (w_client (update_node p f w)) = no_too_deep (w_client w)"
  "no_closures (w_client (update_node p f w)) = no_closures (w_client w)"
  "w_observers (update_node p f w) = w_observers w" "ready E (update_node p f w) = ready E w"
  "carried T (update_node p f w) e = carried T w e" "w_command_buffer (update_node p f w) = w_command_buffer w"
  by (simp_all add: update_node_def node_def)

lemma update_field_sub_frame [simp]:
  "node (update_field_sub i s w) q = node w q"
  "no_too_deep (w_client (update_field_sub i s w)) = no_too_deep (w_client w)"
  "no_closures (w_client (update_field_sub i s w)) = no_closures (w_client w)"
  "w_observers (update_field_sub i s w) = w_observers w" "ready E (update_field_sub i s w) = ready E w"
  "carried T (update_field_sub i s w) e = carried T w e"
  by (simp_all add: update_field_sub_def node_def)

lemma node_env_fields [simp]:
  "env_registry (node_env sc en n E) = env_registry E" "env_custom (node_env sc en n E) = env_custom E"
  by (induction n) simp_all

lemma ready_env [simp]: "ready (node_env sc en n E) w = ready E w"
proof -
  have "tidy_command (node_env sc en n E) = tidy_command E"
  proof
    fix c
    show "tidy_command (node_env sc en n E) c = tidy_command E c" by (cases c) (simp_all add: schema_size_def)
  qed
  then show ?thesis by (simp add: ready_def)
qed

section \<open>Membership as a watcher\<close>

text \<open>
  A node is registered for membership: its closure \<open>f\<close> is at the dispatcher, asks for additions
  and removals of every component of its query \<open>mq\<close>, and the node reports matches.
\<close>

definition node_registered :: "nat \<Rightarrow> nat \<Rightarrow> ctype list \<Rightarrow> 'u nodes world \<Rightarrow> bool" where
  "node_registered f p mq w \<longleftrightarrow>
     no_closures (w_client w) f = Some (NodeFn p)
   \<and> vo_world (node w p) \<and> vo_match_query (node w p) = mq \<and> mq \<noteq> [] \<and> 0 \<notin> set mq \<and> has_match_events (node w p)
   \<and> (\<exists>cb\<in>set (od_callbacks (w_observers w)). cb_fn cb = Some f
        \<and> cb_event_mask cb AND EVENT_ADDED \<noteq> 0 \<and> cb_event_mask cb AND EVENT_REMOVED \<noteq> 0
        \<and> (cb_watch_all cb \<or> cb_component_filter cb = [] \<or> set mq \<subseteq> set (cb_component_filter cb)))"

text \<open>The membership is exact outside \<open>X\<close>.\<close>

definition membership_exact :: "nat \<Rightarrow> ctype list \<Rightarrow> entity set \<Rightarrow> 'u nodes world \<Rightarrow> bool" where
  "membership_exact p mq X w \<longleftrightarrow>
     (\<forall>e. e \<notin> X \<longrightarrow> (e \<in> vo_membership (node w p) \<longleftrightarrow> carried (set mq) w e = set mq))"

definition follows :: "('u nodes, variant) env \<Rightarrow> nat \<Rightarrow> nat \<Rightarrow> ctype list \<Rightarrow> entity set \<Rightarrow> 'u nodes world \<Rightarrow> bool" where
  "follows E f p mq X w \<longleftrightarrow>
     ready E w \<and> (no_too_deep (w_client w) \<or> node_registered f p mq w \<and> membership_exact p mq X w)"

text \<open>
  The scripts and the other modules may use the world in any way that keeps what every operation
  of the world keeps; they neither reconfigure nor unregister the node.
\<close>

definition tame :: "'u scripts \<Rightarrow> ('u nodes, variant) env \<Rightarrow> nat \<Rightarrow> nat \<Rightarrow> ctype list \<Rightarrow> bool" where
  "tame sc E f p mq \<longleftrightarrow>
     (\<forall>E' iv X w. component_watcher E' (set mq) (follows E f p mq) \<longrightarrow> follows E f p mq X w \<longrightarrow>
        follows E f p mq X (sc_call sc E' iv w))
   \<and> (\<forall>g ev X w. follows E f p mq X w \<longrightarrow> follows E f p mq X (env_callback E g ev w))
   \<and> (\<forall>g d X w. follows E f p mq X w \<longrightarrow> follows E f p mq X (env_custom E g d w))"

definition watching :: "'u scripts \<Rightarrow> ('u nodes, variant) env \<Rightarrow> nat \<Rightarrow> nat \<Rightarrow> ctype list \<Rightarrow> entity set \<Rightarrow> 'u nodes world \<Rightarrow> bool" where
  "watching sc E f p mq X w \<longleftrightarrow> tame sc E f p mq \<and> follows E f p mq X w"

lemma carried_all:
  assumes "wf_store reg w"
  shows "mq \<noteq> [] \<Longrightarrow> carried (set mq) w e = set mq \<longleftrightarrow> list_all (has w e) mq"
proof -
  assume "mq \<noteq> []"
  then have ne: "set mq \<noteq> {}" by simp
  show ?thesis
  proof (cases "content w e")
    case None
    then show ?thesis using ne \<open>mq \<noteq> []\<close> by (cases mq) (simp_all add: carried_def has_content [OF assms])
  next
    case (Some m)
    then show ?thesis by (auto simp: carried_def has_content [OF assms] list_all_iff)
  qed
qed

section \<open>Every closure keeps the membership exact\<close>

lemma follows_update:
  assumes "follows E f p mq X w" "\<And>x. vo_world (g x) = vo_world x" "\<And>x. vo_match_query (g x) = vo_match_query x"
    "\<And>x. vo_event_mask (g x) = vo_event_mask x" "q = p \<Longrightarrow> vo_membership (g (node w p)) = vo_membership (node w p)"
  shows "follows E f p mq X (update_node q g w)"
  using assms by (simp add: follows_def node_registered_def membership_exact_def has_match_events_def) metis

lemma follows_field_sub: "follows E f p mq X w \<Longrightarrow> follows E f p mq X (update_field_sub i s w)"
  by (simp add: follows_def node_registered_def membership_exact_def)

lemma called:
  assumes "tame sc E f p mq" "component_watcher E' (set mq) (follows E f p mq)" "follows E f p mq X w"
  shows "follows E f p mq X (sc_call sc E' iv w)"
  using assms by (simp add: tame_def)

lemma handled:
  assumes t: "tame sc E f p mq" "component_watcher E' (set mq) (follows E f p mq)" and w: "follows E f p mq X w"
  shows "follows E f p mq X (handle_event sc E' q ev w)"
proof -
  have u: "follows E f p mq X (update_node q (\<lambda>x. x\<lparr>vo_last_emit_tick := k\<rparr>) w)" for k
    by (rule follows_update [OF w]) simp_all
  show ?thesis
    using w called [OF t w] called [OF t u] component_watcher.execute_commands [OF t(2)]
    by (simp add: handle_event_def Let_def)
qed

text \<open>The event that is being evaluated settles its entity.\<close>

lemma evaluated:
  assumes t: "tame sc E f p mq" "component_watcher E' (set mq) (follows E f p mq)" and w: "follows E f p mq X w"
  shows "follows E f p mq (X - {e}) (evaluate_match sc E' p e w)"
proof (cases "no_too_deep (w_client w)")
  case True
  have r: "ready E w" using w by (simp add: follows_def)
  have "follows E f p mq (X - {e}) (update_node p g w)" for g using True r by (simp add: follows_def)
  moreover have "follows E f p mq (X - {e}) w" using True r by (simp add: follows_def)
  ultimately show ?thesis using handled [OF t] by (simp add: evaluate_match_def Let_def)
next
  case False
  then have n: "node_registered f p mq w" "membership_exact p mq X w" "ready E w" using w by (simp_all add: follows_def)
  have cfg: "vo_world (node w p)" "vo_match_query (node w p) = mq" "mq \<noteq> []" using n(1) by (simp_all add: node_registered_def)
  have m: "list_all (has w e) mq \<longleftrightarrow> carried (set mq) w e = set mq"
    using carried_all [OF readyD(2) [OF n(3)] cfg(3)] by simp
  have upd: "follows E f p mq (X - {e}) (update_node p g w)"
    if "\<And>x. vo_world (g x) = vo_world x" "\<And>x. vo_match_query (g x) = vo_match_query x"
      "\<And>x. vo_event_mask (g x) = vo_event_mask x"
      "vo_membership (g (node w p)) - {e} = vo_membership (node w p) - {e}"
      "e \<in> vo_membership (g (node w p)) \<longleftrightarrow> list_all (has w e) mq" for g
  proof -
    have "node_registered f p mq (update_node p g w)"
      using n(1) that(1-3) by (simp add: node_registered_def has_match_events_def)
    moreover have "membership_exact p mq (X - {e}) (update_node p g w)"
      using n(2) that(4,5) m unfolding membership_exact_def by (simp add: set_eq_iff) metis
    ultimately show ?thesis using n(3) by (simp add: follows_def)
  qed
  have same: "follows E f p mq (X - {e}) w" if "e \<in> vo_membership (node w p) \<longleftrightarrow> list_all (has w e) mq"
  proof -
    have "membership_exact p mq (X - {e}) w"
      using n(2) that m unfolding membership_exact_def by auto
    then show ?thesis using n by (simp add: follows_def)
  qed
  have up: "follows E f p mq (X - {e}) (update_node p (\<lambda>x. x\<lparr>vo_membership := insert e (vo_membership x)\<rparr>) w)"
    if "list_all (has w e) mq" by (rule upd) (simp_all add: that)
  have down: "follows E f p mq (X - {e}) (update_node p (\<lambda>x. x\<lparr>vo_membership := vo_membership x - {e}\<rparr>) w)"
    if "\<not> list_all (has w e) mq" by (rule upd) (simp_all add: that)
  show ?thesis
    using cfg same handled [OF t up] handled [OF t down] by (simp add: evaluate_match_def Let_def)
qed

lemma follows_mono: "follows E f p mq X w \<Longrightarrow> X \<subseteq> Y \<Longrightarrow> follows E f p mq Y w"
  unfolding follows_def membership_exact_def by blast

text \<open>The membership of another node is its own affair.\<close>

lemma evaluated_other:
  assumes t: "tame sc E f p mq" "component_watcher E' (set mq) (follows E f p mq)" and w: "follows E f p mq X w" and q: "q \<noteq> p"
  shows "follows E f p mq X (evaluate_match sc E' q e w)"
proof -
  have "follows E f p mq X (update_node q g w)"
    if "\<And>x. vo_world (g x) = vo_world x" "\<And>x. vo_match_query (g x) = vo_match_query x"
      "\<And>x. vo_event_mask (g x) = vo_event_mask x" for g
    by (rule follows_update [OF w that]) (use q in simp)
  then show ?thesis using w handled [OF t] by (simp add: evaluate_match_def Let_def)
qed

lemma closure_keeps:
  assumes t: "tame sc E f p mq" "component_watcher E' (set mq) (follows E f p mq)" and w: "follows E f p mq X w"
  shows "follows E f p mq X (run_closure sc en E' c ev w)"
proof (cases c)
  case (NodeFn q)
  have h: "follows E f p mq X (handle_event sc E' q ev w)" by (rule handled [OF t w])
  have "follows E f p mq X (evaluate_match sc E' q (ev_entity ev) (handle_event sc E' q ev w))"
  proof (cases "q = p")
    case True
    then show ?thesis using follows_mono [OF evaluated [OF t h]] by blast
  next
    case False
    then show ?thesis by (rule evaluated_other [OF t h])
  qed
  then show ?thesis using h by (simp add: NodeFn run_closure_def Let_def)
next
  case (FieldFn i)
  then show ?thesis
    using w called [OF t follows_field_sub [OF w]]
    by (simp add: run_closure_def field_event_def Let_def split: option.split)
next
  case (EventFn k)
  then show ?thesis using called [OF t w] by (simp add: run_closure_def custom_event_def)
qed

lemma closure_settles:
  assumes t: "tame sc E f p mq" "component_watcher E' (set mq) (follows E f p mq)" and w: "follows E f p mq X w"
    and ev: "ev_type ev = Added \<or> ev_type ev = Removed"
  shows "follows E f p mq (X - {ev_entity ev}) (run_closure sc en E' (NodeFn p) ev w)"
proof -
  have h: "follows E f p mq X (handle_event sc E' p ev w)" by (rule handled [OF t w])
  have "follows E f p mq (X - {ev_entity ev}) (handle_event sc E' p ev w)"
    if "\<not> has_match_events (node (handle_event sc E' p ev w) p)"
    using h that by (simp add: follows_def node_registered_def)
  then show ?thesis using evaluated [OF t h] ev by (simp add: run_closure_def Let_def)
qed

section \<open>The environment of nodes watches\<close>

lemma follows_frame:
  assumes w: "follows E f p mq X w" and v: "ready E v" "w_observers v = w_observers w" "w_client v = w_client w"
    and c: "\<And>e. e \<notin> Y \<Longrightarrow> carried (set mq) v e = carried (set mq) w e"
  shows "follows E f p mq (X \<union> Y) v"
proof -
  have "node_registered f p mq v = node_registered f p mq w" by (simp add: node_registered_def node_def v(2,3))
  moreover have "membership_exact p mq (X \<union> Y) v" if "membership_exact p mq X w"
    using that c by (simp add: membership_exact_def node_def v(3))
  ultimately show ?thesis using w v(1) by (auto simp: follows_def v(3))
qed

lemma delivery_settles:
  assumes keep: "\<And>g X w. follows E f p mq X w \<Longrightarrow> follows E f p mq X (env_callback F g ev w)"
    and settle: "\<And>X w. follows E f p mq X w \<Longrightarrow> follows E f p mq (X - {ev_entity ev}) (env_callback F f ev w)"
    and cb: "cb \<in> set cbs" "cb_wants cb ev" "cb_fn cb = Some f" and w: "follows E f p mq X w"
  shows "follows E f p mq (X - {ev_entity ev}) (fst (deliver (env_callback F) ev cbs (w, k)))"
  using cb(1) w
proof (induction cbs arbitrary: w k)
  case (Cons c cbs)
  have rest: "follows E f p mq Y (fst (deliver (env_callback F) ev cs (u, j)))" if "follows E f p mq Y u" for Y cs u j
    using that by (induction cs arbitrary: u j) (auto simp: keep split: option.split)
  show ?case
  proof (cases "c = cb")
    case True
    then show ?thesis using cb(2,3) rest [OF settle [OF Cons.prems(2)]] by simp
  next
    case False
    then have "cb \<in> set cbs" using Cons.prems(1) by simp
    note IH = Cons.IH [OF this]
    show ?thesis using IH [OF Cons.prems(2)] IH [OF keep [OF Cons.prems(2)]] by (auto split: option.split)
  qed
qed simp

lemma watcher_from:
  fixes F :: "('u nodes, variant) env"
  assumes t: "tame sc E f p mq" and F: "\<And>w. ready F w = ready E w" "env_custom F = env_custom E"
    and keep: "\<And>g ev X w. follows E f p mq X w \<Longrightarrow> follows E f p mq X (env_callback F g ev w)"
    and settle: "\<And>ev X w. follows E f p mq X w \<Longrightarrow> ev_type ev = Added \<or> ev_type ev = Removed \<Longrightarrow>
      follows E f p mq (X - {ev_entity ev}) (env_callback F f ev w)"
  shows "component_watcher F (set mq) (follows E f p mq)"
proof
  fix X w ty t e
  assume w: "follows E f p mq X w" "ty = Added \<or> ty = Removed" "t \<in> set mq"
  let ?ev = "mk_event ty e t [] None :: variant event"
  show "follows E f p mq (X - {e}) (notify F ty e t w)"
  proof (cases "no_too_deep (w_client w)")
    case True
    have "observer_contract (env_callback F) (follows E f p mq (X - {e}))"
      by (rule observer_contract.intro) (rule keep)
    moreover have "follows E f p mq (X - {e}) w" using True w(1) by (simp add: follows_def)
    ultimately show ?thesis unfolding notify_def dispatch_def by (rule observer_contract.dispatch_inv)
  next
    case False
    then have n: "node_registered f p mq w" using w(1) by (simp add: follows_def)
    have t0: "t \<noteq> 0" using n w(3) by (auto simp: node_registered_def)
    obtain cb where cb: "cb \<in> set (od_callbacks (w_observers w))" "cb_fn cb = Some f"
      "cb_event_mask cb AND EVENT_ADDED \<noteq> 0" "cb_event_mask cb AND EVENT_REMOVED \<noteq> 0"
      "cb_watch_all cb \<or> cb_component_filter cb = [] \<or> set mq \<subseteq> set (cb_component_filter cb)"
      using n unfolding node_registered_def by blast
    have wants: "cb_wants cb ?ev"
      using cb(3-5) w(2,3) t0 by (auto simp: cb_wants_def mk_event_def)
    have s: "follows E f p mq (Y - {ev_entity ?ev}) (env_callback F f ?ev u)" if "follows E f p mq Y u" for Y u
      by (rule settle [OF that]) (use w(2) in \<open>simp add: mk_event_def\<close>)
    from delivery_settles [OF keep s cb(1) wants cb(2) w(1), of 0]
    show ?thesis by (simp add: notify_def dispatch_def observer_dispatch_event_def mk_event_def)
  qed
next
  show "follows E f p mq X w \<Longrightarrow> ready F w" for X w by (simp add: follows_def F(1))
  show "follows E f p mq (X \<union> Y) v" if "follows E f p mq X w" "ready F v" "w_observers v = w_observers w"
    "w_client v = w_client w" "\<And>e. e \<notin> Y \<Longrightarrow> carried (set mq) v e = carried (set mq) w e" for X Y v w
    using follows_frame [OF that(1) _ that(3-5)] that(2) by (simp add: F(1))
  show "follows E f p mq X w \<Longrightarrow> follows E f p mq X (env_custom F g d w)" for X w g d
    using t by (simp add: tame_def F(2))
qed (rule keep)

lemma node_env_watches:
  assumes t: "tame sc E f p mq"
  shows "component_watcher (node_env sc en n E) (set mq) (follows E f p mq)"
proof (induction n)
  case 0
  show ?case by (rule watcher_from [OF t ready_env]) (auto simp: follows_def)
next
  case (Suc n)
  let ?F = "node_env sc en (Suc n) E"
  have keep: "follows E f p mq X (env_callback ?F g ev w)" if "follows E f p mq X w" for g ev X w
    using that closure_keeps [OF t Suc.IH that] t by (simp add: tame_def split: option.split)
  show ?case
  proof (rule watcher_from [OF t ready_env _ keep])
    fix ev :: "variant event" and X w
    assume w: "follows E f p mq X w" and ev: "ev_type ev = Added \<or> ev_type ev = Removed"
    show "follows E f p mq (X - {ev_entity ev}) (env_callback ?F f ev w)"
    proof (cases "no_too_deep (w_client w)")
      case True
      then have "follows E f p mq (X - {ev_entity ev}) w" using w by (simp add: follows_def)
      then show ?thesis by (rule keep)
    next
      case False
      then have "no_closures (w_client w) f = Some (NodeFn p)" using w by (simp add: follows_def node_registered_def)
      then show ?thesis using closure_settles [OF t Suc.IH w ev] by simp
    qed
  qed simp
qed

interpretation nodes: component_watcher "node_env sc en n E" "set mq" "watching sc E f p mq" for sc en n E f p mq
proof
  fix X Y w v ty t e g ev d
  show "watching sc E f p mq X w \<Longrightarrow> ready (node_env sc en n E) w" by (simp add: watching_def follows_def)
  show "watching sc E f p mq X w \<Longrightarrow> ready (node_env sc en n E) v \<Longrightarrow> w_observers v = w_observers w \<Longrightarrow>
      w_client v = w_client w \<Longrightarrow> (\<And>e. e \<notin> Y \<Longrightarrow> carried (set mq) v e = carried (set mq) w e) \<Longrightarrow>
      watching sc E f p mq (X \<union> Y) v"
    using follows_frame [of E f p mq X w v Y] by (simp add: watching_def)
  show "watching sc E f p mq X w \<Longrightarrow> watching sc E f p mq X (env_callback (node_env sc en n E) g ev w)"
    using component_watcher.watch_callback [OF node_env_watches] by (auto simp: watching_def)
  show "watching sc E f p mq X w \<Longrightarrow> ty = Added \<or> ty = Removed \<Longrightarrow> t \<in> set mq \<Longrightarrow>
      watching sc E f p mq (X - {e}) (notify (node_env sc en n E) ty e t w)"
    unfolding watching_def using component_watcher.watch_event [OF node_env_watches] by blast
  show "watching sc E f p mq X w \<Longrightarrow> watching sc E f p mq X (env_custom (node_env sc en n E) g d w)"
    using component_watcher.watch_custom [OF node_env_watches] by (auto simp: watching_def)
qed

section \<open>Scripts that only look\<close>

text \<open>A call of a quiet script updates the script's own state by \<open>g\<close> and touches nothing else.\<close>

definition set_user :: "'u \<Rightarrow> 'u nodes world \<Rightarrow> 'u nodes world" where
  "set_user u w = set_nodes ((w_client w)\<lparr>no_user := u\<rparr>) w"

definition quiet :: "(invocation \<Rightarrow> 'u \<Rightarrow> 'u) \<Rightarrow> 'u scripts \<Rightarrow> bool" where
  "quiet g sc \<longleftrightarrow> (\<forall>E iv w. sc_call sc E iv w = set_user (g iv (no_user (w_client w))) w)"

definition quiet_base :: "('u nodes, variant) env \<Rightarrow> bool" where
  "quiet_base E \<longleftrightarrow> (\<forall>f ev w. \<exists>u. env_callback E f ev w = set_user u w) \<and> (\<forall>f d w. \<exists>u. env_custom E f d w = set_user u w)"

lemma set_user_frame [simp]:
  "node (set_user u w) p = node w p" "ready E (set_user u w) = ready E w"
  "no_too_deep (w_client (set_user u w)) = no_too_deep (w_client w)" "no_user (w_client (set_user u w)) = u"
  "no_closures (w_client (set_user u w)) = no_closures (w_client w)"
  "no_observers (w_client (set_user u w)) = no_observers (w_client w)"
  "w_observers (set_user u w) = w_observers w" "carried T (set_user u w) e = carried T w e"
  "w_command_buffer (set_user u w) = w_command_buffer w" "arch (set_user u w) = arch w"
  by (simp_all add: set_user_def node_def)

text \<open>Nodes that do not flush, with quiet scripts: one level of delivery is enough.\<close>

definition shallow :: "'u nodes \<Rightarrow> bool" where
  "shallow k \<longleftrightarrow> \<not> no_too_deep k \<and> (\<forall>q. vo_flush_mode (no_observers k q) = MANUAL)"

text \<open>\<open>v\<close> is \<open>w\<close> but for the state of nodes and scripts.\<close>

definition looked :: "'u nodes world \<Rightarrow> 'u nodes world \<Rightarrow> bool" where
  "looked w v \<longleftrightarrow> (\<exists>k. v = set_nodes k w \<and> shallow k)"

lemma looked_refl: "shallow (w_client w) \<Longrightarrow> looked w w"
  unfolding looked_def by (intro exI [where x = "w_client w"]) (simp add: set_nodes_def)

lemma looked_trans: "looked u v \<Longrightarrow> looked v w \<Longrightarrow> looked u w"
  by (auto simp: looked_def)

lemma lookedD: "looked w v \<Longrightarrow> shallow (w_client v)" "looked w v \<Longrightarrow> ready E v = ready E w"
  by (auto simp: looked_def)

lemma looked_user: "shallow (w_client w) \<Longrightarrow> looked w (set_user u w)"
  by (auto simp: looked_def set_user_def shallow_def)

lemma looked_update:
  "shallow (w_client w) \<Longrightarrow> (\<And>x. vo_flush_mode (f x) = vo_flush_mode x) \<Longrightarrow> looked w (update_node p f w)"
  by (auto simp: looked_def update_node_def shallow_def node_def)

lemma looked_field: "shallow (w_client w) \<Longrightarrow> looked w (update_field_sub i s w)"
  by (auto simp: looked_def update_field_sub_def shallow_def)

lemma quiet_call: "quiet g sc \<Longrightarrow> shallow (w_client w) \<Longrightarrow> looked w (sc_call sc E iv w)"
  by (simp add: quiet_def looked_user)

lemma quiet_handle:
  assumes q: "quiet g sc" and w: "shallow (w_client w)"
  shows "looked w (handle_event sc E p ev w)"
proof -
  let ?w1 = "if throttling (node w p) ev then update_node p (\<lambda>x. x\<lparr>vo_last_emit_tick := change_now w\<rparr>) w else w"
  have 1: "looked w ?w1" using looked_update [OF w] looked_refl [OF w] by simp
  note 2 = looked_trans [OF 1 quiet_call [OF q lookedD(1) [OF 1]]]
  have "vo_flush_mode (node v p) = MANUAL" if "looked w v" for v
    using lookedD(1) [OF that] by (simp add: shallow_def node_def)
  then show ?thesis using 2 looked_refl [OF w] by (simp add: handle_event_def Let_def)
qed

lemma quiet_evaluate:
  assumes q: "quiet g sc" and w: "shallow (w_client w)"
  shows "looked w (evaluate_match sc E p e w)"
proof -
  have "looked w (handle_event sc E p ev (update_node p f w))" if "\<And>x. vo_flush_mode (f x) = vo_flush_mode x" for f ev
    using looked_trans [OF looked_update [OF w that] quiet_handle [OF q lookedD(1) [OF looked_update [OF w that]]]] .
  then show ?thesis using looked_refl [OF w] by (simp add: evaluate_match_def Let_def)
qed

lemma quiet_closure:
  assumes q: "quiet g sc" and w: "shallow (w_client w)"
  shows "looked w (run_closure sc en E c ev w)"
proof (cases c)
  case (NodeFn p)
  note h = quiet_handle [OF q w, of E p ev]
  from looked_trans [OF h quiet_evaluate [OF q lookedD(1) [OF h]]] h show ?thesis
    by (simp add: NodeFn run_closure_def Let_def)
next
  case (FieldFn i)
  have "looked w (sc_call sc E iv (update_field_sub i s w))" for iv s
    using looked_trans [OF looked_field [OF w] quiet_call [OF q lookedD(1) [OF looked_field [OF w]]]] .
  then show ?thesis
    using looked_refl [OF w] by (simp add: FieldFn run_closure_def field_event_def Let_def split: option.split)
next
  case (EventFn k)
  then show ?thesis using quiet_call [OF q w] by (simp add: run_closure_def custom_event_def)
qed

lemma quiet_watches:
  assumes q: "quiet g sc" "quiet_base E"
  shows "component_watcher (node_env sc en (Suc n) E) {} (\<lambda>X w. ready E w \<and> shallow (w_client w))"
proof
  let ?F = "node_env sc en (Suc n) E" and ?I = "\<lambda>X w. ready E w \<and> shallow (w_client w)"
  fix X Y :: "entity set" and w v f ev g d
  have "looked w (env_callback E f ev w)" "looked w (env_custom E g d w)" if "shallow (w_client w)"
    using q(2) looked_user [OF that] unfolding quiet_base_def by metis+
  then have cb: "looked w (env_callback ?F f ev w)" "looked w (env_custom ?F g d w)" if "shallow (w_client w)"
    using that quiet_closure [OF q(1)] by (simp_all split: option.split)
  show "?I X w \<Longrightarrow> ?I X (env_callback ?F f ev w)" "?I X w \<Longrightarrow> ?I X (env_custom ?F g d w)"
    using lookedD [OF cb(1)] lookedD [OF cb(2)] by blast+
  show "?I X w \<Longrightarrow> ready ?F w" by (simp del: node_env.simps)
  show "?I X w \<Longrightarrow> ready ?F v \<Longrightarrow> w_observers v = w_observers w \<Longrightarrow> w_client v = w_client w \<Longrightarrow>
    (\<And>e. e \<notin> Y \<Longrightarrow> carried {} v e = carried {} w e) \<Longrightarrow> ?I (X \<union> Y) v" by (simp del: node_env.simps)
qed simp

section \<open>Seeding\<close>

text \<open>Nothing is flushed behind the back of the walk.\<close>

definition calm :: "nat \<Rightarrow> 'u nodes world \<Rightarrow> bool" where
  "calm p w \<longleftrightarrow> vo_flush_mode (node w p) \<noteq> PER_CALLBACK \<or> w_command_buffer w = []"

definition told :: "'u scripts \<Rightarrow> nat \<Rightarrow> vecs_observer \<Rightarrow> entity \<Rightarrow> invocation" where
  "told sc p o' e = observer_call sc p o' (membership_event Matched e)"

lemma told_membership [simp]: "told sc p (o'\<lparr>vo_membership := M\<rparr>) e = told sc p o' e"
  by (simp add: told_def observer_call_def)

lemma update_node_user [simp]: "no_user (w_client (update_node p f w)) = no_user (w_client w)"
  by (simp add: update_node_def)

lemma seed_one_quiet:
  assumes q: "quiet g sc" and c: "calm p w"
  shows "seed_one sc E p e w = (if e \<in> vo_membership (node w p) then w
    else set_user (g (told sc p (node w p) e) (no_user (w_client w)))
           (update_node p (\<lambda>x. x\<lparr>vo_membership := insert e (vo_membership x)\<rparr>) w))"
proof -
  let ?w = "update_node p (\<lambda>x. x\<lparr>vo_membership := insert e (vo_membership x)\<rparr>) w"
  have n: "ev_type (membership_event Matched e) = Matched" by (simp add: membership_event_def mk_event_def)
  have m: "field_filtered o' (membership_event Matched e) = False" "throttled o' (membership_event Matched e) k = False"
    "throttling o' (membership_event Matched e) = False" for o' k
    by (simp_all add: field_filtered_def throttled_def throttling_def n)
  have t: "observer_call sc p (node ?w p) (membership_event Matched e) = told sc p (node w p) e"
    unfolding told_def [symmetric] by simp
  have "execute_commands E v = v" if "w_command_buffer v = []" for v using that by (simp add: execute_commands_def)
  then show ?thesis
    using q c unfolding seed_one_def handle_event_def Let_def m t quiet_def calm_def by auto
qed

lemma seed_one_keeps:
  assumes q: "quiet g sc" and c: "calm p w"
  shows "calm p (seed_one sc E p e w)" "arch (seed_one sc E p e w) = arch w"
proof -
  have "arch (set_user u (update_node p f w)) = arch w" for u f by (simp add: set_user_def update_node_def)
  then show "calm p (seed_one sc E p e w)" "arch (seed_one sc E p e w) = arch w"
    using c by (simp_all add: seed_one_quiet [OF assms] calm_def)
qed

lemma seed_fold_keeps:
  assumes q: "quiet g sc" and c: "calm p w"
  shows "calm p (fold (seed_one sc E p) es w)" "arch (fold (seed_one sc E p) es w) = arch w"
  using c seed_one_keeps [OF q] by (induction es arbitrary: w) simp_all

lemma seed_rows_quiet:
  assumes q: "quiet g sc" and c: "calm p w"
  shows "seed_rows sc E p a row w = Some (fold (seed_one sc E p) (drop row (a_entities (arch w a))) w)"
  using c
proof (induction "length (a_entities (arch w a)) - row" arbitrary: row w)
  case 0
  then show ?case by (simp add: seed_rows.simps)
next
  case (Suc k)
  let ?es = "a_entities (arch w a)" and ?v = "seed_one sc E p (a_entities (arch w a) ! row) w"
  have r: "row < length ?es" using Suc.hyps(2) by simp
  note v = seed_one_keeps [OF q Suc.prems, of E "?es ! row"]
  have "seed_rows sc E p a (row + 1) ?v = Some (fold (seed_one sc E p) (drop (row + 1) (a_entities (arch ?v a))) ?v)"
    by (rule Suc.hyps(1)) (use Suc.hyps(2) v in simp_all)
  moreover have "drop row ?es = ?es ! row # drop (row + 1) ?es" using Cons_nth_drop_Suc [OF r] by simp
  ultimately show ?case using r v(2) by (simp add: seed_rows.simps [of sc E p a row])
qed

lemma seed_arches_quiet:
  assumes q: "quiet g sc" and c: "calm p w"
  shows "seed_arches sc E p as w = Some (fold (seed_one sc E p) (visited w as) w)"
  using c
proof (induction as arbitrary: w)
  case Nil
  then show ?case by (simp add: visited_def)
next
  case (Cons a as)
  let ?v = "fold (seed_one sc E p) (a_entities (arch w a)) w"
  note v = seed_fold_keeps [OF q Cons.prems, of E "a_entities (arch w a)"]
  have "visited ?v as = visited w as" by (simp add: visited_def v(2))
  then show ?case using Cons.IH [OF v(1)] by (simp add: seed_rows_quiet [OF q Cons.prems] visited_def)
qed

lemma update_node_twice: "update_node p f (update_node p g w) = update_node p (\<lambda>x. f (g x)) w"
  by (simp add: update_node_def node_def)

lemma update_set_user: "update_node p f (set_user u w) = set_user u (update_node p f w)"
  by (cases "w_client w") (simp add: update_node_def set_user_def node_def)

lemma set_user_twice: "set_user u (set_user v w) = set_user u w"
  by (simp add: set_user_def)

text \<open>Walking over new entities adds them to the membership and tells the script of each, in order.\<close>

lemma seed_fold_quiet:
  assumes q: "quiet g sc" and "calm p w" "distinct es" "set es \<inter> vo_membership (node w p) = {}"
  shows "fold (seed_one sc E p) es w =
    set_user (fold (\<lambda>e. g (told sc p (node w p) e)) es (no_user (w_client w)))
      (update_node p (\<lambda>x. x\<lparr>vo_membership := vo_membership x \<union> set es\<rparr>) w)"
  using assms(2-)
proof (induction es arbitrary: w)
  case Nil
  have "update_node p (\<lambda>x. x) w = w" by (simp add: update_node_def set_nodes_def node_def)
  then show ?case by (simp add: set_user_def set_nodes_def)
next
  case (Cons e es)
  let ?u = "g (told sc p (node w p) e) (no_user (w_client w))"
  let ?v = "set_user ?u (update_node p (\<lambda>x. x\<lparr>vo_membership := insert e (vo_membership x)\<rparr>) w)"
  have e: "seed_one sc E p e w = ?v" using Cons.prems by (simp add: seed_one_quiet [OF q Cons.prems(1)])
  have "calm p ?v" using Cons.prems(1) by (simp add: calm_def)
  from Cons.IH [OF this] Cons.prems
  have "fold (seed_one sc E p) es ?v = set_user (fold (\<lambda>e. g (told sc p (node ?v p) e)) es (no_user (w_client ?v)))
      (update_node p (\<lambda>x. x\<lparr>vo_membership := vo_membership x \<union> set es\<rparr>) ?v)" by auto
  then show ?case
    by (simp add: e update_set_user set_user_twice update_node_twice)
qed

section \<open>Registration\<close>

lemma ready_observers:
  fixes E :: "('u, 'v) env"
  shows "ready E (w\<lparr>w_observers := d\<rparr>) \<longleftrightarrow> ready E w" "content (w\<lparr>w_observers := d\<rparr>) = content w"
proof -
  have c: "content (w\<lparr>w_observers := d\<rparr>) = content w" for w :: "'u world" and d
    by (intro ext) (simp add: content_def location_of_def arch_def cong: option.case_cong)
  have "ready E (w\<lparr>w_observers := d\<rparr>)" if "ready E w" for w :: "'u world" and d
    using control_step_world(1) [OF readyD(1) [OF that] same_store_updates(19)] that by (simp add: ready_def)
  from this [of w d] this [of "w\<lparr>w_observers := d\<rparr>" "w_observers w"]
  show "ready E (w\<lparr>w_observers := d\<rparr>) \<longleftrightarrow> ready E w" by auto
  show "content (w\<lparr>w_observers := d\<rparr>) = content w" by (rule c)
qed

definition matching :: "ctype list \<Rightarrow> 'u world \<Rightarrow> entity set" where
  "matching mq w = {e. is_alive w e \<and> (\<forall>t\<in>set mq. has w e t)}"

lemma matching_content:
  assumes "wf_store reg w"
  shows "matching mq w = {e. \<exists>m. content w e = Some m \<and> set mq \<subseteq> dom m}"
  by (auto simp: matching_def is_alive_content [OF assms] has_content [OF assms])

lemma exact_matching:
  assumes "wf_store reg w" "mq \<noteq> []"
  shows "membership_exact p mq {} w \<longleftrightarrow> vo_membership (node w p) = matching mq w"
proof -
  have "carried (set mq) w e = set mq \<longleftrightarrow> e \<in> matching mq w" for e
    using assms(2) unfolding matching_content [OF assms(1)] by (cases "content w e") (auto simp: carried_def)
  then show ?thesis by (auto simp: membership_exact_def)
qed

text \<open>What \<open>add_observer\<close> does before it seeds.\<close>

definition registered_world :: "nat \<Rightarrow> 'u nodes world \<Rightarrow> 'u nodes world" where
  "registered_world p w =
     (let o' = node w p; k = w_client w;
          cb = \<lparr>cb_id = od_next_id (w_observers w), cb_fn = Some (no_next_closure k), cb_event_mask = vo_event_mask o',
                cb_component_filter = vo_component_filter o', cb_watch_all = (vo_component_filter o' = []),
                cb_custom_name = vo_custom_name o'\<rparr>
      in set_nodes (k\<lparr>no_closures := (no_closures k)(no_next_closure k \<mapsto> NodeFn p), no_next_closure := no_next_closure k + 1,
                       no_observers := (no_observers k)(p := o'\<lparr>vo_world := True, vo_observer_id := od_next_id (w_observers w)\<rparr>)\<rparr>)
           (w\<lparr>w_observers := (w_observers w)\<lparr>od_callbacks := od_callbacks (w_observers w) @ [cb],
                                           od_next_id := od_next_id (w_observers w) + 1\<rparr>\<rparr>))"

lemma add_observer_eq:
  "add_observer sc E p w =
     (if has_match_events (node w p) then seed_membership sc E p (registered_world p w) else Some (registered_world p w))"
proof -
  let ?w4 = "let (f, w1) = new_closure (NodeFn p) w;
          cb = \<lparr>cb_id = 0, cb_fn = Some f, cb_event_mask = vo_event_mask (node w p), cb_component_filter = vo_component_filter (node w p),
                cb_watch_all = (vo_component_filter (node w p) = []), cb_custom_name = vo_custom_name (node w p)\<rparr>;
          w2 = update_node p (\<lambda>x. x\<lparr>vo_world := True\<rparr>) w1;
          (i, w3) = register_callback cb w2
      in update_node p (\<lambda>x. x\<lparr>vo_observer_id := i\<rparr>) w3"
  have w4: "?w4 = registered_world p w"
    by (cases "w_client w") (simp add: registered_world_def new_closure_def register_callback_def observer_add_def update_node_def
        set_nodes_def node_def Let_def case_prod_beta)
  have "has_match_events (node (registered_world p w) p) = has_match_events (node w p)"
    by (simp add: registered_world_def node_def has_match_events_def Let_def)
  moreover have "add_observer sc E p w = (if has_match_events (node ?w4 p) then seed_membership sc E p ?w4 else Some ?w4)"
    by (simp only: add_observer_def Let_def case_prod_beta)
  ultimately show ?thesis by (simp only: w4)
qed

lemma registered_world_ok:
  fixes w :: "'u nodes world" and p :: nat
  defines "v \<equiv> registered_world p w"
  shows "ready E v = ready E w" "content v = content w" "w_command_buffer v = w_command_buffer w"
    "node v p = (node w p)\<lparr>vo_world := True, vo_observer_id := od_next_id (w_observers w)\<rparr>"
    "no_user (w_client v) = no_user (w_client w)" "no_too_deep (w_client v) = no_too_deep (w_client w)"
    "vo_event_mask (node w p) AND EVENT_ADDED \<noteq> 0 \<Longrightarrow> vo_event_mask (node w p) AND EVENT_REMOVED \<noteq> 0 \<Longrightarrow>
     has_match_events (node w p) \<Longrightarrow> vo_match_query (node w p) = mq \<Longrightarrow> mq \<noteq> [] \<Longrightarrow> 0 \<notin> set mq \<Longrightarrow>
     vo_component_filter (node w p) = [] \<or> set mq \<subseteq> set (vo_component_filter (node w p)) \<Longrightarrow>
     node_registered (no_next_closure (w_client w)) p mq v"
proof -
  show "ready E v = ready E w" "content v = content w" by (simp_all add: v_def registered_world_def Let_def ready_observers)
  show "w_command_buffer v = w_command_buffer w" "no_user (w_client v) = no_user (w_client w)"
    "no_too_deep (w_client v) = no_too_deep (w_client w)"
    "node v p = (node w p)\<lparr>vo_world := True, vo_observer_id := od_next_id (w_observers w)\<rparr>"
    by (simp_all add: v_def registered_world_def Let_def node_def)
  show "vo_event_mask (node w p) AND EVENT_ADDED \<noteq> 0 \<Longrightarrow> vo_event_mask (node w p) AND EVENT_REMOVED \<noteq> 0 \<Longrightarrow>
     has_match_events (node w p) \<Longrightarrow> vo_match_query (node w p) = mq \<Longrightarrow> mq \<noteq> [] \<Longrightarrow> 0 \<notin> set mq \<Longrightarrow>
     vo_component_filter (node w p) = [] \<or> set mq \<subseteq> set (vo_component_filter (node w p)) \<Longrightarrow>
     node_registered (no_next_closure (w_client w)) p mq v"
    unfolding v_def node_registered_def registered_world_def Let_def
    by (simp add: node_def has_match_events_def)
qed

lemma seed_membership_quiet:
  assumes q: "quiet g sc" and c: "calm p w" and r: "ready E w"
    and o': "vo_world (node w p)" "vo_match_query (node w p) = mq" "mq \<noteq> []" "vo_membership (node w p) = {}"
  shows "\<exists>es v. distinct es \<and> set es = matching mq w \<and> seed_membership sc E p w = Some (set_user
      (fold (\<lambda>e. g (told sc p (node w p) e)) es (no_user (w_client w)))
      (update_node p (\<lambda>x. x\<lparr>vo_membership := set es\<rparr>) v)) \<and> v = snd (world_match (comps_query mq) w)
      \<and> ready E v \<and> content v = content w \<and> w_client v = w_client w \<and> w_observers v = w_observers w \<and> ctl v = ctl w"
proof -
  obtain as v where m: "world_match (comps_query mq) w = (as, v)" by fastforce
  note st = readyD(2) [OF r]
  note mr = world_match_result [OF st m]
  have cl: "w_client v = w_client w" using m by (auto simp: world_match_def case_prod_beta)
  have vis: "set (visited v as) = matching mq w" "distinct (visited v as)"
  proof -
    have v: "visited v as = visited w as" by (simp add: visited_def mr(6))
    show "set (visited v as) = matching mq w" "distinct (visited v as)"
      unfolding v matching_content [OF st] using visited_result [OF st, of "comps_query mq", folded mr(1)]
      by (simp_all add: selects_def comps_query_def)
  qed
  have n: "node v p = node w p" by (simp add: node_def cl)
  have cv: "calm p v" using c ctl_alloc(11) [OF mr(4)] by (simp add: calm_def n)
  have "wf_world (env_registry E) v" by (rule wf_world_content [OF readyD(1) [OF r] mr(2,4)]) (simp add: mr(3))
  then have rv: "ready E v" using r ctl_alloc(11) [OF mr(4)] by (simp add: ready_def)
  have "seed_membership sc E p w = seed_arches sc E p as v" using o' m by (simp add: seed_membership_def)
  also have "\<dots> = Some (fold (seed_one sc E p) (visited v as) v)" by (rule seed_arches_quiet [OF q cv])
  also have "fold (seed_one sc E p) (visited v as) v =
      set_user (fold (\<lambda>e. g (told sc p (node w p) e)) (visited v as) (no_user (w_client w)))
        (update_node p (\<lambda>x. x\<lparr>vo_membership := vo_membership x \<union> set (visited v as)\<rparr>) v)"
    using seed_fold_quiet [OF q cv vis(2)] o'(4) by (simp add: n cl)
  also have "update_node p (\<lambda>x. x\<lparr>vo_membership := vo_membership x \<union> set (visited v as)\<rparr>) v
      = update_node p (\<lambda>x. x\<lparr>vo_membership := set (visited v as)\<rparr>) v"
    using o'(4) by (simp add: update_node_def n)
  finally show ?thesis using vis rv mr(3,4) cl ctl_alloc(10) [OF mr(4)] m by auto
qed

lemma add_observer_quiet:
  assumes r: "ready E w" and q: "quiet g sc" and c: "calm p w"
    and o': "vo_match_query (node w p) = mq" "mq \<noteq> []" "0 \<notin> set mq" "vo_membership (node w p) = {}" "has_match_events (node w p)"
      "vo_component_filter (node w p) = [] \<or> set mq \<subseteq> set (vo_component_filter (node w p))"
  shows "\<exists>w' es. add_observer sc E p w = Some w' \<and> ready E w' \<and> content w' = content w
    \<and> vo_membership (node w' p) = matching mq w' \<and> distinct es \<and> set es = matching mq w
    \<and> no_user (w_client w') = fold (\<lambda>e. g (told sc p (node w' p) e)) es (no_user (w_client w))
    \<and> no_too_deep (w_client w') = no_too_deep (w_client w) \<and> in_iteration w' = in_iteration w
    \<and> (\<forall>q. vo_flush_mode (node w' q) = vo_flush_mode (node w q))
    \<and> (vo_event_mask (node w p) AND EVENT_ADDED \<noteq> 0 \<and> vo_event_mask (node w p) AND EVENT_REMOVED \<noteq> 0 \<longrightarrow>
         node_registered (no_next_closure (w_client w)) p mq w')"
proof -
  let ?w1 = "registered_world p w" and ?f = "no_next_closure (w_client w)"
  note ok = registered_world_ok [where w = w and p = p]
  have c1: "calm p ?w1" using c by (simp add: calm_def ok(3,4))
  have r1: "ready E ?w1" using r registered_world_ok(1) [of E p w] by simp
  have o1: "vo_world (node ?w1 p)" "vo_match_query (node ?w1 p) = mq" "vo_membership (node ?w1 p) = {}"
    using o'(1,4) by (simp_all add: ok(4))
  obtain es v where s: "distinct es" "set es = matching mq ?w1"
    "seed_membership sc E p ?w1 = Some (set_user (fold (\<lambda>e. g (told sc p (node ?w1 p) e)) es (no_user (w_client ?w1)))
       (update_node p (\<lambda>x. x\<lparr>vo_membership := set es\<rparr>) v))"
    "ready E v" "content v = content ?w1" "w_client v = w_client ?w1" "w_observers v = w_observers ?w1"
    "ctl v = ctl ?w1"
    using seed_membership_quiet [OF q c1 r1 o1(1,2) o'(2) o1(3)] by blast
  let ?w' = "set_user (fold (\<lambda>e. g (told sc p (node ?w1 p) e)) es (no_user (w_client ?w1)))
       (update_node p (\<lambda>x. x\<lparr>vo_membership := set es\<rparr>) v)"
  have nv: "node v p = node ?w1 p" by (simp add: node_def s(6))
  then have n: "node ?w' p = (node ?w1 p)\<lparr>vo_membership := set es\<rparr>" by simp
  have ct: "content ?w' = content w" by (simp add: set_user_def update_node_def s(5) ok(2))
  have r': "ready E ?w'" using s(4) by simp
  have m: "matching mq u = matching mq w" if "ready E u" "content u = content w" for u
    using matching_content [OF readyD(2) [OF that(1)]] matching_content [OF readyD(2) [OF r]] that(2) by simp
  have "node_registered ?f p mq ?w'" if "node_registered ?f p mq ?w1"
    using that by (simp add: node_registered_def nv has_match_events_def s(6,7))
  moreover have "add_observer sc E p w = Some ?w'" using o'(5) s(3) by (simp add: add_observer_eq)
  moreover have "no_user (w_client ?w') = fold (\<lambda>e. g (told sc p (node ?w' p) e)) es (no_user (w_client w))"
    by (simp add: nv ok(5))
  moreover have "no_too_deep (w_client ?w') = no_too_deep (w_client w)" by (simp add: s(6) ok(6))
  moreover have "vo_membership (node ?w' p) = matching mq ?w'" "set es = matching mq w"
    using s(2) m [OF r1 ok(2)] m [OF r' ct] by (simp_all add: n)
  moreover have "in_iteration ?w' = in_iteration w"
    using ctl_alloc(12) [OF s(8)] by (simp add: in_iteration_def set_user_def update_node_def set_nodes_def registered_world_def Let_def)
  moreover have "vo_flush_mode (node ?w' q) = vo_flush_mode (node w q)" for q
    by (simp add: node_def s(6) registered_world_def Let_def update_node_def set_user_def)
  ultimately show ?thesis using ct r' s(1) ok(7) [OF _ _ o'(5,1,2,3,6)] by blast
qed



section \<open>An observer at work\<close>

definition nodes_base :: "('u nodes, variant) env" where
  "nodes_base = \<lparr>env_registry = wire_registry, env_heap = env_heap sample_env, env_callback = \<lambda>_ _ w. w,
     env_custom = \<lambda>_ _ w. w, env_order = \<lambda>es. es\<rparr>"

text \<open>A script that writes down how it was called.\<close>

definition noting :: "(invocation list) scripts" where
  "noting = \<lparr>sc_call = \<lambda>E iv w. set_user (no_user (w_client w) @ [iv]) w, sc_overridden = \<lambda>_. False\<rparr>"

text \<open>The node asks for everything about component 1, its callback is callable 7, it does not flush.\<close>

definition watcher_node :: vecs_observer where
  "watcher_node = set_flush_mode MANUAL (set_match_components wire_registry [''Demo'']
     (on_unmatched (on_matched (on_removed (on_added (set_callback (Some 7) (new_observer 0)))))))"

definition nodes_start :: "(invocation list) nodes" where
  "nodes_start = \<lparr>no_observers = \<lambda>_. watcher_node, no_next_observer = 1, no_closures = Map.empty, no_next_closure = 0,
     no_field_subs = Map.empty, no_next_field_sub = 1, no_event_subs = Map.empty, no_next_event_sub = 1,
     no_too_deep = False, no_user = []\<rparr>"

abbreviation nodes_world :: "(invocation list) nodes world" where
  "nodes_world \<equiv> wire_world nodes_base nodes_start"

lemma nodes_base_ok:
  "passive_env nodes_base" "env_registry nodes_base = wire_registry" "quiet_base nodes_base" "quiet (\<lambda>iv u. u @ [iv]) noting"
proof -
  have c: "\<exists>u. w = w\<lparr>w_client := u\<rparr>" for w :: "'u nodes world" by (rule exI [where x = "w_client w"]) simp
  have u: "\<exists>u. w = set_user u w" for w :: "'u nodes world"
    by (rule exI [where x = "no_user (w_client w)"]) (simp add: set_user_def set_nodes_def)
  show "passive_env nodes_base" unfolding passive_env_def nodes_base_def env.simps using c by blast
  show "quiet_base nodes_base" unfolding quiet_base_def nodes_base_def env.simps using u by blast
  show "env_registry nodes_base = wire_registry" by (simp add: nodes_base_def)
  show "quiet (\<lambda>iv u. u @ [iv]) noting" by (simp add: quiet_def noting_def)
qed

lemma nodes_world_client: "w_client (wire_world E k) = k" if "env_callback E = (\<lambda>_ _ w. w)" for E :: "('u, 'v) env"
proof -
  have n: "notify E ty e t w = w" for ty e t w
  proof -
    have "fst (deliver (env_callback E) ev cbs (w, j)) = w" for ev cbs j
      by (induction cbs arbitrary: j) (simp_all add: that split: option.split)
    then show ?thesis by (simp add: notify_def dispatch_def observer_dispatch_event_def)
  qed
  have s: "w_client (wire_start E k) = k"
    by (simp add: wire_start_def create_entity_def alloc_entity_id_def new_world_def blank_world_def Let_def case_prod_beta
        ensure_archetype_def create_archetype_def)
  obtain l where l: "location_of (wire_start E k) e1 = Some l"
    using content_None [of "wire_start E k" e1] by (auto simp: wire_start_ok(3))
  show ?thesis
    unfolding wire_world_def add_raw_def by (simp add: n s Let_def case_prod_beta split: option.split)
qed

lemma nodes_world_ok:
  "ready nodes_base nodes_world" "w_client nodes_world = nodes_start" "content nodes_world = [e1 \<mapsto> [1 \<mapsto> demo_row]]"
  "matching [1] nodes_world = {e1}" "\<not> in_iteration nodes_world"
proof -
  note ww = wire_world_ok [where u = nodes_start, OF nodes_base_ok(1,2)]
  show "w_client nodes_world = nodes_start" by (rule nodes_world_client) (simp add: nodes_base_def)
  show "content nodes_world = [e1 \<mapsto> [1 \<mapsto> demo_row]]" by (rule ww(2))
  show "\<not> in_iteration nodes_world" using ww(3) by (simp add: open_mode_def)
  show "matching [1] nodes_world = {e1}"
    unfolding matching_content [OF ww(4)] ww(2) by (auto split: if_splits)
  have "w_command_buffer (wire_start nodes_base nodes_start) = []"
    using create_frame(3) [OF new_world_wf(1) wire_start_ok(1), of nodes_base nodes_start] by (simp add: new_world_fields)
  moreover obtain l where l: "location_of (wire_start nodes_base nodes_start) e1 = Some l"
    using content_None [of "wire_start nodes_base nodes_start" e1] by (auto simp: wire_start_ok(3))
  have s: "schema_of (env_registry (nodes_base :: (invocation list nodes, variant) env)) 1 = Some demo_schema"
    unfolding nodes_base_ok(2) by (rule wire_registry_ok(1))
  have md: "\<not> w_defer_moves (wire_start nodes_base nodes_start)" "\<not> in_iteration (wire_start nodes_base nodes_start)"
    using wire_start_ok(4) [of nodes_base nodes_start] by (simp_all add: open_mode_def)
  have "case Some demo_row of Some bs \<Rightarrow> cs_size demo_schema \<le> length bs | None \<Rightarrow> True" by (simp add: demo_schema_def demo_row_def)
  note ac = add_raw_content [OF wire_start_ok(5) nodes_base_ok(1) l s md this, folded wire_world_def]
  ultimately have "w_command_buffer nodes_world = []" using ctl_alloc(11) [OF ac(2)] by simp
  then show "ready nodes_base nodes_world" using ww(1) by (simp add: ready_def)
qed

lemma watcher_node_ok:
  "vo_match_query watcher_node = [1]" "vo_event_mask watcher_node = 27" "vo_membership watcher_node = {}"
  "vo_component_filter watcher_node = []" "vo_flush_mode watcher_node = MANUAL" "has_match_events watcher_node"
  "vo_callback watcher_node = Some 7"
proof -
  have "id_of wire_registry ''Demo'' = 1" by (simp add: id_of_def wire_registry_def)
  then show "vo_match_query watcher_node = [1]"
    by (simp add: watcher_node_def set_match_components_def known_types_def set_flush_mode_def INVALID_COMPONENT_TYPE_def)
  show "vo_event_mask watcher_node = 27" "vo_membership watcher_node = {}" "vo_component_filter watcher_node = []"
    "vo_flush_mode watcher_node = MANUAL" "has_match_events watcher_node" "vo_callback watcher_node = Some 7"
    by (simp_all add: watcher_node_def set_match_components_def set_flush_mode_def on_added_def on_removed_def on_matched_def
        on_unmatched_def set_callback_def new_observer_def has_match_events_def)
qed

lemma nodes_world_node: "node nodes_world q = watcher_node"
  unfolding node_def nodes_world_ok(2) by (simp add: nodes_start_def)

lemma nodes_world_start:
  "no_user (w_client nodes_world) = []" "no_next_closure (w_client nodes_world) = 0" "\<not> no_too_deep (w_client nodes_world)"
  unfolding nodes_world_ok(2) by (simp_all add: nodes_start_def)

lemma nodes_world_seed:
  "ready nodes_base nodes_world" "quiet (\<lambda>iv u. u @ [iv]) noting" "calm 0 nodes_world"
  "vo_match_query (node nodes_world 0) = [1]" "[1] \<noteq> ([] :: ctype list)" "0 \<notin> set [1 :: ctype]" "vo_membership (node nodes_world 0) = {}"
  "has_match_events (node nodes_world 0)"
  "vo_component_filter (node nodes_world 0) = [] \<or> set [1] \<subseteq> set (vo_component_filter (node nodes_world 0))"
  "vo_event_mask (node nodes_world 0) AND EVENT_ADDED \<noteq> 0" "vo_event_mask (node nodes_world 0) AND EVENT_REMOVED \<noteq> 0"
  by (simp_all add: nodes_world_ok(1) nodes_base_ok(4) calm_def nodes_world_node watcher_node_ok)


text \<open>In the environment of quiet scripts an event changes the state of the nodes only.\<close>

lemma quiet_dispatch:
  assumes q: "quiet g sc" "quiet_base E" and w: "shallow (w_client w)"
  shows "looked w (fst (dispatch (node_env sc en (Suc n) E) ev w))"
proof -
  let ?F = "node_env sc en (Suc n) E"
  have step: "looked u (env_callback ?F f ev u)" if "shallow (w_client u)" for f u
  proof -
    have "looked u (env_callback E f ev u)" using q(2) looked_user [OF that] unfolding quiet_base_def by metis
    then show ?thesis using quiet_closure [OF q(1) that] by (simp split: option.split)
  qed
  have "looked w (fst (deliver (env_callback ?F) ev cbs (w, k)))" if "shallow (w_client w)" for cbs w k
    using that
  proof (induction cbs arbitrary: w k)
    case (Cons c cbs)
    have "looked w (fst (deliver (env_callback ?F) ev cbs (env_callback ?F f ev w, j)))" for f j
      using looked_trans [OF step Cons.IH [OF lookedD(1) [OF step]]] Cons.prems by blast
    then show ?case using Cons.IH [OF Cons.prems] by (simp del: node_env.simps split: option.split)
  qed (simp add: looked_refl)
  then show ?thesis using w by (simp add: dispatch_def observer_dispatch_event_def del: node_env.simps)
qed

lemma quiet_destroy:
  assumes q: "quiet g sc" "quiet_base E" and w: "shallow (w_client w)" "ready E w" "\<not> in_iteration w"
  shows "content (destroy_entity (node_env sc en (Suc n) E) e w) = (content w)(e := None)"
proof (cases "location_of w e")
  case None
  then have "(content w)(e := None) = content w" by (simp add: fun_upd_idem content_None)
  then show ?thesis using None by (simp add: destroy_entity_def)
next
  case (Some l)
  let ?F = "node_env sc en (Suc n) E" and ?v = "free_entity_id e (unplace_entity e l w)"
  note un = unplace_entity_store [OF readyD(2) [OF w(2)] Some]
  have s: "shallow (w_client ?v)" using w(1) by simp
  have "looked u (notify_removed ?F e ts u)" if "shallow (w_client u)" for ts u
    using that unfolding notify_removed_def
  proof (induction ts arbitrary: u)
    case (Cons t ts)
    note d = quiet_dispatch [OF q Cons.prems, of en n "mk_event Removed e t [] None"]
    show ?case using looked_trans [OF d Cons.IH [OF lookedD(1) [OF d]]] by (simp add: notify_def del: node_env.simps)
  qed (simp add: looked_refl)
  from this [OF s] obtain k where k: "notify_removed ?F e (a_component_ids (arch w (loc_archetype l))) ?v = set_nodes k ?v"
    unfolding looked_def by blast
  have v: "wf_store (env_registry E) ?v" "content ?v = (content w)(e := None)"
    using same_store_wf [OF same_store_ops(5) un(1)] un(2) by simp_all
  have "same_store ?v (invalidate_cache (set_nodes k ?v))"
    using same_store_trans [OF set_nodes_frame(2) same_store_ops(4)] .
  then have "content (invalidate_cache (set_nodes k ?v)) = content ?v" using same_store_wf(2) v(1) by blast
  then show ?thesis using Some w(3) v(2) k by (simp add: destroy_entity_def Let_def del: node_env.simps)
qed

lemma noting_tame: "mq \<noteq> [] \<Longrightarrow> tame noting nodes_base f p mq"
  by (auto simp: tame_def noting_def nodes_base_def follows_def node_registered_def membership_exact_def)


end
